(* ===== verification/Prelude.thy ===== *)
theory Prelude
  imports Main "HOL-Library.Word" "HOL-Library.AList" "HOL-Library.List_Lexorder"
begin

text \<open>
  Shared vocabulary of the development.  It holds the names of the Go machine types, the
  wrap-around of signed integers, the type of the outcome of a Go function that may return an
  error or panic, and the generic lemmas on association lists (Go maps) that the components use.

  \<^item> A Go map is an association list with distinct keys.  The order of the list is the order
    of one \<^verbatim>\<open>range\<close> loop; Go leaves that order open, so every statement below is proved for
    an arbitrary list.
  \<^item> A Go function that returns \<^verbatim>\<open>(T, error)\<close> has a result of type \<open>('e, 'a) result\<close>:
    \<open>Inl (Err e)\<close> is a returned error, \<open>Inl Panic\<close> a run-time panic, \<open>Inr x\<close> success.
\<close>

unbundle bit_operations_syntax

section \<open>Machine types\<close>

type_synonym byte = "8 word"
type_synonym u16 = "16 word"
type_synonym u32 = "32 word"
type_synonym u64 = "64 word"

text \<open>
  Signed Go integers are unbounded \<open>int\<close> values together with the explicit wrap-around of the
  operations that can leave the range of the type.
\<close>

definition i64 :: "int \<Rightarrow> int" where
  "i64 x = signed_take_bit 63 x"

definition i32 :: "int \<Rightarrow> int" where
  "i32 x = signed_take_bit 31 x"

named_theorems wrap_simps "wrap-around that does not happen"

lemma i64_id [wrap_simps]: "- (2 ^ 63) \<le> x \<Longrightarrow> x < 2 ^ 63 \<Longrightarrow> i64 x = x"
  by (simp add: i64_def signed_take_bit_int_eq_self)

lemma i32_id [wrap_simps]: "- (2 ^ 31) \<le> x \<Longrightarrow> x < 2 ^ 31 \<Longrightarrow> i32 x = x"
  by (simp add: i32_def signed_take_bit_int_eq_self)

lemma i32_range: "- (2 ^ 31) \<le> i32 x" "i32 x < 2 ^ 31"
  using signed_take_bit_int_greater_eq_minus_exp [of 31 x] signed_take_bit_int_less_exp [of 31 x]
  by (simp_all add: i32_def)

lemma i64_range: "- (2 ^ 63) \<le> i64 x" "i64 x < 2 ^ 63"
  using signed_take_bit_int_greater_eq_minus_exp [of 63 x] signed_take_bit_int_less_exp [of 63 x]
  by (simp_all add: i64_def)

section \<open>Outcomes of Go functions\<close>

datatype 'e fault = Err 'e | Panic

type_synonym ('e, 'a) result = "'e fault + 'a"

definition rbind :: "('e, 'a) result \<Rightarrow> ('a \<Rightarrow> ('e, 'b) result) \<Rightarrow> ('e, 'b) result" where
  "rbind m f = (case m of Inl e \<Rightarrow> Inl e | Inr x \<Rightarrow> f x)"

lemma rbind_simps [simp]:
  "rbind (Inl e) f = Inl e"
  "rbind (Inr x) f = f x"
  by (simp_all add: rbind_def)

lemma rbind_Inr_iff: "rbind m f = Inr y \<longleftrightarrow> (\<exists>x. m = Inr x \<and> f x = Inr y)"
  by (cases m) auto

lemma rbind_Inl_iff: "rbind m f = Inl e \<longleftrightarrow> m = Inl e \<or> (\<exists>x. m = Inr x \<and> f x = Inl e)"
  by (cases m) auto

lemma rbind_cong [fundef_cong]:
  "m = m' \<Longrightarrow> (\<And>x. m' = Inr x \<Longrightarrow> f x = f' x) \<Longrightarrow> rbind m f = rbind m' f'"
  by (cases m') auto

text \<open>
  Weakest preconditions for such outcomes: \<open>spec m P\<close> says that \<open>m\<close> does not panic and that
  \<open>P\<close> holds of its value when it succeeds.
\<close>

definition spec :: "('e, 'a) result \<Rightarrow> ('a \<Rightarrow> bool) \<Rightarrow> bool" where
  "spec m P \<longleftrightarrow> (case m of Inl Panic \<Rightarrow> False | Inl (Err e) \<Rightarrow> True | Inr x \<Rightarrow> P x)"

named_theorems spec_intro "rules that establish a spec"

lemma spec_simps [simp]:
  "spec (Inl Panic) P \<longleftrightarrow> False"
  "spec (Inl (Err e)) P"
  "spec (Inr x) P \<longleftrightarrow> P x"
  by (simp_all add: spec_def)

lemma spec_rbind [spec_intro]:
  "spec m (\<lambda>x. spec (f x) P) \<Longrightarrow> spec (rbind m f) P"
  by (cases m) (auto simp: spec_def)

lemma spec_rbind_iff: "spec (rbind m f) P \<longleftrightarrow> spec m (\<lambda>x. spec (f x) P)"
  by (cases m) (auto simp: spec_def)

lemma spec_mono: "spec m P \<Longrightarrow> (\<And>x. m = Inr x \<Longrightarrow> P x \<Longrightarrow> Q x) \<Longrightarrow> spec m Q"
  by (auto simp: spec_def split: sum.splits fault.splits)

lemma spec_conj: "spec m (\<lambda>x. P x \<and> Q x) \<longleftrightarrow> spec m P \<and> spec m Q"
  by (auto simp: spec_def split: sum.splits fault.splits)

lemma specD: "spec m P \<Longrightarrow> m = Inr x \<Longrightarrow> P x"
  by (simp add: spec_def)

lemma spec_not_panic: "spec m P \<Longrightarrow> m \<noteq> Inl Panic"
  by (auto simp: spec_def)

lemma spec_if [spec_intro]:
  "(b \<Longrightarrow> spec m P) \<Longrightarrow> (\<not> b \<Longrightarrow> spec m' P) \<Longrightarrow> spec (if b then m else m') P"
  by simp

text \<open>\<open>ret m P\<close> says that \<open>P\<close> holds of the value of \<open>m\<close> when \<open>m\<close> succeeds.\<close>

definition ret :: "('e, 'a) result \<Rightarrow> ('a \<Rightarrow> bool) \<Rightarrow> bool" where
  "ret m P \<longleftrightarrow> (\<forall>x. m = Inr x \<longrightarrow> P x)"

named_theorems ret_simps "rules that compute ret"

lemma ret_basic [simp]:
  "ret (Inl e) P"
  "ret (Inr x) P \<longleftrightarrow> P x"
  "ret m (\<lambda>_. True)"
  "ret m' (\<lambda>(_, _). True)"
  by (simp_all add: ret_def)

lemma ret_rbind [ret_simps]: "ret (rbind m f) P \<longleftrightarrow> ret m (\<lambda>x. ret (f x) P)"
  by (cases m) (auto simp: ret_def)

lemma ret_if [ret_simps]: "ret (if b then m else m') P \<longleftrightarrow> (b \<longrightarrow> ret m P) \<and> (\<not> b \<longrightarrow> ret m' P)"
  by simp

lemma ret_pair [ret_simps]: "ret (case p of (x, y) \<Rightarrow> f x y) P \<longleftrightarrow> (case p of (x, y) \<Rightarrow> ret (f x y) P)"
  by (cases p) simp

lemma retD: "ret m P \<Longrightarrow> m = Inr x \<Longrightarrow> P x"
  by (simp add: ret_def)

lemma ret_mono: "ret m P \<Longrightarrow> (\<And>x. m = Inr x \<Longrightarrow> P x \<Longrightarrow> Q x) \<Longrightarrow> ret m Q"
  by (simp add: ret_def)

section \<open>Go maps as association lists\<close>

definition keys_distinct :: "('k \<times> 'v) list \<Rightarrow> bool" where
  "keys_distinct m \<longleftrightarrow> distinct (map fst m)"

lemma keys_distinct_Nil [simp]: "keys_distinct []"
  by (simp add: keys_distinct_def)

lemma keys_distinct_Cons [simp]:
  "keys_distinct ((k, v) # m) \<longleftrightarrow> k \<notin> dom (map_of m) \<and> keys_distinct m"
  by (simp add: keys_distinct_def dom_map_of_conv_image_fst)

lemma keys_distinct_update [simp]:
  "keys_distinct m \<Longrightarrow> keys_distinct (AList.update k v m)"
  by (simp add: keys_distinct_def distinct_update)

lemma keys_distinct_delete [simp]:
  "keys_distinct m \<Longrightarrow> keys_distinct (AList.delete k m)"
  by (simp add: keys_distinct_def distinct_delete)

lemma map_of_update [simp]: "map_of (AList.update k v m) = (map_of m)(k \<mapsto> v)"
  by (simp add: update_conv')

lemma map_of_delete [simp]: "map_of (AList.delete k m) = (map_of m)(k := None)"
  by (simp add: delete_conv')

lemma map_of_mem: "keys_distinct m \<Longrightarrow> (k, v) \<in> set m \<longleftrightarrow> map_of m k = Some v"
  by (simp add: keys_distinct_def)

section \<open>Lists\<close>

lemma nth_last_append: "i < length ys \<Longrightarrow> (xs @ ys) ! (length xs + i) = ys ! i"
  by (simp add: nth_append)

lemma take_butlast_snoc [simp]: "take (length xs) (xs @ ys) = xs"
  by simp

end
