(* ===== verification/Domain_Types.thy ===== *)
theory Domain_Types
  imports Prelude
begin

text \<open>
  The data model of \<^verbatim>\<open>domain/consensus/model/externalapi\<close>: hashes, outpoints, transactions and UTXO
  entries, as records with the fields of the Go structs.  A byte array \<^verbatim>\<open>[32]byte\<close> is a list of
  bytes; \<open>hash_wf\<close> states its length where a statement needs it.  \<^verbatim>\<open>bytes.Compare\<close> on arrays
  is the lexicographic order of \<open>HOL-Library.List_Lexorder\<close>.
\<close>

section \<open>Hashes\<close>

type_synonym DomainHash = "byte list"
type_synonym DomainTransactionID = "byte list"
type_synonym DomainSubnetworkID = "byte list"

definition DomainHashSize :: nat where
  "DomainHashSize = 32"

definition DomainSubnetworkIDSize :: nat where
  "DomainSubnetworkIDSize = 20"

definition hash_wf :: "DomainHash \<Rightarrow> bool" where
  "hash_wf h \<longleftrightarrow> length h = DomainHashSize"

definition NewZeroHash :: DomainHash where
  "NewZeroHash = replicate DomainHashSize 0"

definition NewDomainHashFromByteSlice :: "byte list \<Rightarrow> (string, DomainHash) result" where
  "NewDomainHashFromByteSlice hashBytes =
     (if length hashBytes \<noteq> DomainHashSize then Inl (Err ''invalid hash size'')
      else Inr hashBytes)"

definition hash_Less :: "DomainHash \<Rightarrow> DomainHash \<Rightarrow> bool" where
  "hash_Less h other \<longleftrightarrow> h < other"

definition hash_LessOrEqual :: "DomainHash \<Rightarrow> DomainHash \<Rightarrow> bool" where
  "hash_LessOrEqual h other \<longleftrightarrow> h \<le> other"

fun HashesEqual_from :: "DomainHash list \<Rightarrow> DomainHash list \<Rightarrow> bool" where
  "HashesEqual_from [] bs = True"
| "HashesEqual_from (a # as) [] = False"
| "HashesEqual_from (a # as) (b # bs) = (if a \<noteq> b then False else HashesEqual_from as bs)"

definition HashesEqual :: "DomainHash list \<Rightarrow> DomainHash list \<Rightarrow> bool" where
  "HashesEqual a b = (if length a \<noteq> length b then False else HashesEqual_from a b)"

lemma HashesEqual_from_iff:
  "length as = length bs \<Longrightarrow> HashesEqual_from as bs \<longleftrightarrow> as = bs"
  by (induction as bs rule: HashesEqual_from.induct) auto

lemma HashesEqual_iff: "HashesEqual a b \<longleftrightarrow> a = b"
  by (auto simp: HashesEqual_def HashesEqual_from_iff)

section \<open>Transactions\<close>

record DomainOutpoint =
  op_TransactionID :: DomainTransactionID
  op_Index :: u32

record ScriptPublicKey =
  spk_Script :: "byte list"
  spk_Version :: u16

record UTXOEntry =
  amount :: u64
  scriptPublicKey :: ScriptPublicKey
  blockDAAScore :: u64
  isCoinbase :: bool

record DomainTransactionInput =
  PreviousOutpoint :: DomainOutpoint
  SignatureScript :: "byte list"
  Sequence :: u64
  in_UTXOEntry :: "UTXOEntry option"

record DomainTransactionOutput =
  out_Value :: u64
  out_ScriptPublicKey :: ScriptPublicKey

record DomainTransaction =
  tx_Version :: u16
  Inputs :: "DomainTransactionInput list"
  Outputs :: "DomainTransactionOutput list"
  LockTime :: u64
  tx_SubnetworkID :: DomainSubnetworkID
  Gas :: u64
  Payload :: "byte list"
  Fee :: u64
  Mass :: u64
  tx_ID :: "DomainTransactionID option"

section \<open>Subnetworks and coinbase transactions\<close>

definition SubnetworkIDNative :: DomainSubnetworkID where
  "SubnetworkIDNative = replicate DomainSubnetworkIDSize 0"

definition SubnetworkIDCoinbase :: DomainSubnetworkID where
  "SubnetworkIDCoinbase = 1 # replicate (DomainSubnetworkIDSize - 1) 0"

definition SubnetworkIDRegistry :: DomainSubnetworkID where
  "SubnetworkIDRegistry = 2 # replicate (DomainSubnetworkIDSize - 1) 0"

definition IsBuiltIn :: "DomainSubnetworkID \<Rightarrow> bool" where
  "IsBuiltIn sid \<longleftrightarrow> sid = SubnetworkIDCoinbase \<or> sid = SubnetworkIDRegistry"

definition IsBuiltInOrNative :: "DomainSubnetworkID \<Rightarrow> bool" where
  "IsBuiltInOrNative sid \<longleftrightarrow> sid = SubnetworkIDNative \<or> IsBuiltIn sid"

definition IsCoinBase :: "DomainTransaction \<Rightarrow> bool" where
  "IsCoinBase tx \<longleftrightarrow> tx_SubnetworkID tx = SubnetworkIDCoinbase"

lemma native_not_coinbase: "SubnetworkIDNative \<noteq> SubnetworkIDCoinbase"
proof
  assume "SubnetworkIDNative = SubnetworkIDCoinbase"
  then have "hd SubnetworkIDNative = hd SubnetworkIDCoinbase" by simp
  then show False by (simp add: SubnetworkIDNative_def SubnetworkIDCoinbase_def DomainSubnetworkIDSize_def)
qed

section \<open>UTXO entries\<close>

text \<open>
  \<^verbatim>\<open>NewUTXOEntry\<close> copies the script, so the entry never shares memory with its argument; a
  value of the model is that copy.
\<close>

definition NewUTXOEntry :: "u64 \<Rightarrow> ScriptPublicKey \<Rightarrow> bool \<Rightarrow> u64 \<Rightarrow> UTXOEntry" where
  "NewUTXOEntry amt spk coinbase score =
     \<lparr>amount = amt,
      scriptPublicKey = \<lparr>spk_Script = spk_Script spk, spk_Version = spk_Version spk\<rparr>,
      blockDAAScore = score, isCoinbase = coinbase\<rparr>"

definition UTXOEntry_Equal :: "UTXOEntry \<Rightarrow> UTXOEntry \<Rightarrow> bool" where
  "UTXOEntry_Equal u other =
     (if amount u \<noteq> amount other then False
      else if spk_Script (scriptPublicKey u) \<noteq> spk_Script (scriptPublicKey other) then False
      else if spk_Version (scriptPublicKey u) \<noteq> spk_Version (scriptPublicKey other) then False
      else if blockDAAScore u \<noteq> blockDAAScore other then False
      else if isCoinbase u \<noteq> isCoinbase other then False
      else True)"

lemma UTXOEntry_Equal_iff: "UTXOEntry_Equal u v \<longleftrightarrow> u = v"
  by (cases u; cases v) (auto simp: UTXOEntry_Equal_def)

end
