(* ===== verification/Utxo_Collection.thy ===== *)
theory Utxo_Collection
  imports Domain_Types
begin

text \<open>
  \<^verbatim>\<open>domain/consensus/utils/utxo/utxo_collection.go\<close> and the loops over collections of
  \<^verbatim>\<open>diff_algebra.go\<close>.  A \<^verbatim>\<open>utxoCollection\<close> is a Go map from outpoints to entries, here an
  association list with distinct keys (\<open>keys_distinct\<close>).  Each operation is stated as the loop of
  the source, and one lemma gives its meaning on the map \<open>map_of uc\<close>.
\<close>

type_synonym utxoCollection = "(DomainOutpoint \<times> UTXOEntry) list"

section \<open>Operations of a collection\<close>

definition uc_Get :: "utxoCollection \<Rightarrow> DomainOutpoint \<Rightarrow> UTXOEntry option" where
  "uc_Get uc outpoint = map_of uc outpoint"

definition uc_Contains :: "utxoCollection \<Rightarrow> DomainOutpoint \<Rightarrow> bool" where
  "uc_Contains uc outpoint = (case map_of uc outpoint of Some _ \<Rightarrow> True | None \<Rightarrow> False)"

definition uc_Len :: "utxoCollection \<Rightarrow> nat" where
  "uc_Len uc = length uc"

definition uc_add :: "utxoCollection \<Rightarrow> DomainOutpoint \<Rightarrow> UTXOEntry \<Rightarrow> utxoCollection" where
  "uc_add uc outpoint entry = AList.update outpoint entry uc"

fun uc_addMultiple :: "utxoCollection \<Rightarrow> utxoCollection \<Rightarrow> utxoCollection" where
  "uc_addMultiple uc [] = uc"
| "uc_addMultiple uc ((outpoint, entry) # rest) = uc_addMultiple (uc_add uc outpoint entry) rest"

definition uc_remove :: "utxoCollection \<Rightarrow> DomainOutpoint \<Rightarrow> utxoCollection" where
  "uc_remove uc outpoint = AList.delete outpoint uc"

fun uc_removeMultiple :: "utxoCollection \<Rightarrow> utxoCollection \<Rightarrow> utxoCollection" where
  "uc_removeMultiple uc [] = uc"
| "uc_removeMultiple uc ((outpoint, _) # rest) = uc_removeMultiple (uc_remove uc outpoint) rest"

fun uc_Clone_onto :: "utxoCollection \<Rightarrow> utxoCollection \<Rightarrow> utxoCollection" where
  "uc_Clone_onto clone [] = clone"
| "uc_Clone_onto clone ((outpoint, entry) # rest) =
     uc_Clone_onto (AList.update outpoint entry clone) rest"

definition uc_Clone :: "utxoCollection \<Rightarrow> utxoCollection" where
  "uc_Clone uc = uc_Clone_onto [] uc"

definition uc_containsWithDAAScore :: "utxoCollection \<Rightarrow> DomainOutpoint \<Rightarrow> u64 \<Rightarrow> bool" where
  "uc_containsWithDAAScore uc outpoint daaScore =
     (case uc_Get uc outpoint of None \<Rightarrow> False | Some entry \<Rightarrow> blockDAAScore entry = daaScore)"

section \<open>Loops over collections\<close>

fun checkIntersection :: "utxoCollection \<Rightarrow> utxoCollection \<Rightarrow> bool" where
  "checkIntersection [] collection2 = False"
| "checkIntersection ((outpoint, _) # rest) collection2 =
     (if uc_Contains collection2 outpoint then True else checkIntersection rest collection2)"

fun checkIntersectionWithRule ::
  "utxoCollection \<Rightarrow> utxoCollection \<Rightarrow> (DomainOutpoint \<Rightarrow> UTXOEntry \<Rightarrow> UTXOEntry \<Rightarrow> bool)
   \<Rightarrow> DomainOutpoint option" where
  "checkIntersectionWithRule [] collection2 extraRule = None"
| "checkIntersectionWithRule ((outpoint, utxoEntry) # rest) collection2 extraRule =
     (case uc_Get collection2 outpoint of
        Some diffEntry \<Rightarrow>
          (if extraRule outpoint utxoEntry diffEntry then Some outpoint
           else checkIntersectionWithRule rest collection2 extraRule)
      | None \<Rightarrow> checkIntersectionWithRule rest collection2 extraRule)"

fun intersectionWithRemainderHavingDAAScoreInPlace ::
  "utxoCollection \<Rightarrow> utxoCollection \<Rightarrow> utxoCollection \<Rightarrow> utxoCollection
   \<Rightarrow> utxoCollection \<times> utxoCollection" where
  "intersectionWithRemainderHavingDAAScoreInPlace [] c2 result remainder = (result, remainder)"
| "intersectionWithRemainderHavingDAAScoreInPlace ((outpoint, utxoEntry) # rest) c2 result remainder =
     (if uc_containsWithDAAScore c2 outpoint (blockDAAScore utxoEntry)
      then intersectionWithRemainderHavingDAAScoreInPlace rest c2
             (uc_add result outpoint utxoEntry) remainder
      else intersectionWithRemainderHavingDAAScoreInPlace rest c2
             result (uc_add remainder outpoint utxoEntry))"

fun subtractionHavingDAAScoreInPlace ::
  "utxoCollection \<Rightarrow> utxoCollection \<Rightarrow> utxoCollection \<Rightarrow> utxoCollection" where
  "subtractionHavingDAAScoreInPlace [] c2 result = result"
| "subtractionHavingDAAScoreInPlace ((outpoint, utxoEntry) # rest) c2 result =
     (if \<not> uc_containsWithDAAScore c2 outpoint (blockDAAScore utxoEntry)
      then subtractionHavingDAAScoreInPlace rest c2 (uc_add result outpoint utxoEntry)
      else subtractionHavingDAAScoreInPlace rest c2 result)"

fun subtractionWithRemainderHavingDAAScoreInPlace ::
  "utxoCollection \<Rightarrow> utxoCollection \<Rightarrow> utxoCollection \<Rightarrow> utxoCollection
   \<Rightarrow> utxoCollection \<times> utxoCollection" where
  "subtractionWithRemainderHavingDAAScoreInPlace [] c2 result remainder = (result, remainder)"
| "subtractionWithRemainderHavingDAAScoreInPlace ((outpoint, utxoEntry) # rest) c2 result remainder =
     (if \<not> uc_containsWithDAAScore c2 outpoint (blockDAAScore utxoEntry)
      then subtractionWithRemainderHavingDAAScoreInPlace rest c2
             (uc_add result outpoint utxoEntry) remainder
      else subtractionWithRemainderHavingDAAScoreInPlace rest c2
             result (uc_add remainder outpoint utxoEntry))"

section \<open>What the operations do to the map\<close>

text \<open>
  \<open>has_score c k s\<close> is the declarative reading of \<^verbatim>\<open>containsWithDAAScore\<close> on the map of a
  collection; \<open>keep P c\<close> is the part of a map whose entries satisfy \<open>P\<close>.
\<close>

definition has_score :: "('k \<rightharpoonup> UTXOEntry) \<Rightarrow> 'k \<Rightarrow> u64 \<Rightarrow> bool" where
  "has_score c k s \<longleftrightarrow> (\<exists>e. c k = Some e \<and> blockDAAScore e = s)"

definition keep :: "('k \<Rightarrow> 'v \<Rightarrow> bool) \<Rightarrow> ('k \<rightharpoonup> 'v) \<Rightarrow> ('k \<rightharpoonup> 'v)" where
  "keep P c = (\<lambda>k. case c k of Some v \<Rightarrow> if P k v then Some v else None | None \<Rightarrow> None)"

named_theorems uc_simps "operations of a collection on its map"

lemma uc_containsWithDAAScore_iff [uc_simps]:
  "uc_containsWithDAAScore uc k s \<longleftrightarrow> has_score (map_of uc) k s"
  by (auto simp: uc_containsWithDAAScore_def uc_Get_def has_score_def split: option.splits)

lemma uc_Contains_iff [uc_simps]: "uc_Contains uc k \<longleftrightarrow> k \<in> dom (map_of uc)"
  by (auto simp: uc_Contains_def split: option.splits)

lemma map_of_uc_add [uc_simps]: "map_of (uc_add uc k e) = (map_of uc)(k \<mapsto> e)"
  by (simp add: uc_add_def)

lemma map_of_uc_remove [uc_simps]: "map_of (uc_remove uc k) = (map_of uc)(k := None)"
  by (simp add: uc_remove_def)

lemma keys_distinct_uc_add [simp]: "keys_distinct uc \<Longrightarrow> keys_distinct (uc_add uc k e)"
  by (simp add: uc_add_def)

lemma keys_distinct_uc_remove [simp]: "keys_distinct uc \<Longrightarrow> keys_distinct (uc_remove uc k)"
  by (simp add: uc_remove_def)

lemma map_of_uc_addMultiple [uc_simps]:
  "keys_distinct c \<Longrightarrow> map_of (uc_addMultiple uc c) = map_of uc ++ map_of c"
  by (induction uc c rule: uc_addMultiple.induct)
     (auto simp: uc_simps map_add_def fun_eq_iff split: option.splits)

lemma map_of_uc_removeMultiple [uc_simps]:
  "map_of (uc_removeMultiple uc c) = (\<lambda>k. if k \<in> dom (map_of c) then None else map_of uc k)"
  by (induction uc c rule: uc_removeMultiple.induct) (auto simp: uc_simps fun_eq_iff)

lemma keys_distinct_uc_addMultiple [simp]:
  "keys_distinct uc \<Longrightarrow> keys_distinct (uc_addMultiple uc c)"
  by (induction uc c rule: uc_addMultiple.induct) auto

lemma keys_distinct_uc_removeMultiple [simp]:
  "keys_distinct uc \<Longrightarrow> keys_distinct (uc_removeMultiple uc c)"
  by (induction uc c rule: uc_removeMultiple.induct) auto

lemma map_of_uc_Clone_onto:
  "keys_distinct c \<Longrightarrow> map_of (uc_Clone_onto clone c) = map_of clone ++ map_of c"
  by (induction clone c rule: uc_Clone_onto.induct)
     (auto simp: map_add_def fun_eq_iff split: option.splits)

lemma map_of_uc_Clone [uc_simps]: "keys_distinct c \<Longrightarrow> map_of (uc_Clone c) = map_of c"
  by (simp add: uc_Clone_def map_of_uc_Clone_onto)

lemma keys_distinct_uc_Clone_onto:
  "keys_distinct clone \<Longrightarrow> keys_distinct (uc_Clone_onto clone c)"
  by (induction clone c rule: uc_Clone_onto.induct) auto

lemma keys_distinct_uc_Clone [simp]: "keys_distinct (uc_Clone c)"
  by (simp add: uc_Clone_def keys_distinct_uc_Clone_onto)

lemma checkIntersection_set:
  "checkIntersection c1 c2 \<longleftrightarrow> (\<exists>k \<in> fst ` set c1. k \<in> dom (map_of c2))"
  by (induction c1 c2 rule: checkIntersection.induct) (auto simp: uc_Contains_iff)

lemma checkIntersection_iff [uc_simps]:
  "checkIntersection c1 c2 \<longleftrightarrow> dom (map_of c1) \<inter> dom (map_of c2) \<noteq> {}"
  by (auto simp: checkIntersection_set dom_map_of_conv_image_fst)

text \<open>
  Which offending outpoint a \<^verbatim>\<open>range\<close> loop meets first depends on the order of the map; that
  there is one does not.
\<close>

lemma checkIntersectionWithRule_None_set:
  "checkIntersectionWithRule c1 c2 rule = None \<longleftrightarrow>
   (\<forall>(k, e1) \<in> set c1. \<forall>e2. map_of c2 k = Some e2 \<longrightarrow> \<not> rule k e1 e2)"
  by (induction c1 c2 rule rule: checkIntersectionWithRule.induct)
     (simp_all add: uc_Get_def split: option.splits)

lemma checkIntersectionWithRule_None_iff [uc_simps]:
  "keys_distinct c1 \<Longrightarrow>
   checkIntersectionWithRule c1 c2 rule = None \<longleftrightarrow>
   (\<forall>k e1 e2. map_of c1 k = Some e1 \<longrightarrow> map_of c2 k = Some e2 \<longrightarrow> \<not> rule k e1 e2)"
  unfolding checkIntersectionWithRule_None_set
  by (fastforce simp: map_of_mem dest: map_of_SomeD)

lemma checkIntersectionWithRule_SomeD:
  "keys_distinct c1 \<Longrightarrow> checkIntersectionWithRule c1 c2 rule = Some k \<Longrightarrow>
   \<exists>e1 e2. map_of c1 k = Some e1 \<and> map_of c2 k = Some e2 \<and> rule k e1 e2"
  by (induction c1 c2 rule rule: checkIntersectionWithRule.induct)
     (auto simp: uc_Get_def split: option.splits if_splits)

lemma subtraction_map [uc_simps]:
  "keys_distinct c1 \<Longrightarrow>
   map_of (subtractionHavingDAAScoreInPlace c1 c2 result) =
   map_of result ++ keep (\<lambda>k e. \<not> has_score (map_of c2) k (blockDAAScore e)) (map_of c1)"
  by (induction c1 c2 result rule: subtractionHavingDAAScoreInPlace.induct)
     (auto simp: uc_simps keep_def map_add_def fun_eq_iff split: option.splits)

lemma subtractionWithRemainder_maps [uc_simps]:
  assumes "keys_distinct c1"
  shows "map_of (fst (subtractionWithRemainderHavingDAAScoreInPlace c1 c2 result remainder)) =
         map_of result ++ keep (\<lambda>k e. \<not> has_score (map_of c2) k (blockDAAScore e)) (map_of c1)"
    and "map_of (snd (subtractionWithRemainderHavingDAAScoreInPlace c1 c2 result remainder)) =
         map_of remainder ++ keep (\<lambda>k e. has_score (map_of c2) k (blockDAAScore e)) (map_of c1)"
  using assms
  by (induction c1 c2 result remainder rule: subtractionWithRemainderHavingDAAScoreInPlace.induct)
     (auto simp: uc_simps keep_def map_add_def fun_eq_iff split: option.splits)

lemma intersectionWithRemainder_maps [uc_simps]:
  assumes "keys_distinct c1"
  shows "map_of (fst (intersectionWithRemainderHavingDAAScoreInPlace c1 c2 result remainder)) =
         map_of result ++ keep (\<lambda>k e. has_score (map_of c2) k (blockDAAScore e)) (map_of c1)"
    and "map_of (snd (intersectionWithRemainderHavingDAAScoreInPlace c1 c2 result remainder)) =
         map_of remainder ++ keep (\<lambda>k e. \<not> has_score (map_of c2) k (blockDAAScore e)) (map_of c1)"
  using assms
  by (induction c1 c2 result remainder rule: intersectionWithRemainderHavingDAAScoreInPlace.induct)
     (auto simp: uc_simps keep_def map_add_def fun_eq_iff split: option.splits)

lemma keys_distinct_subtraction [simp]:
  "keys_distinct result \<Longrightarrow> keys_distinct (subtractionHavingDAAScoreInPlace c1 c2 result)"
  by (induction c1 c2 result rule: subtractionHavingDAAScoreInPlace.induct) auto

lemma keys_distinct_subtractionWithRemainder [simp]:
  "keys_distinct result \<Longrightarrow> keys_distinct remainder \<Longrightarrow>
   keys_distinct (fst (subtractionWithRemainderHavingDAAScoreInPlace c1 c2 result remainder)) \<and>
   keys_distinct (snd (subtractionWithRemainderHavingDAAScoreInPlace c1 c2 result remainder))"
  by (induction c1 c2 result remainder rule: subtractionWithRemainderHavingDAAScoreInPlace.induct)
     auto

lemma keys_distinct_intersectionWithRemainder [simp]:
  "keys_distinct result \<Longrightarrow> keys_distinct remainder \<Longrightarrow>
   keys_distinct (fst (intersectionWithRemainderHavingDAAScoreInPlace c1 c2 result remainder)) \<and>
   keys_distinct (snd (intersectionWithRemainderHavingDAAScoreInPlace c1 c2 result remainder))"
  by (induction c1 c2 result remainder rule: intersectionWithRemainderHavingDAAScoreInPlace.induct)
     auto

end
