(* ===== verification/Diff_Algebra.thy ===== *)
theory Diff_Algebra
  imports Utxo_Collection
begin

text \<open>
  The algebra of UTXO differences: \<^verbatim>\<open>domain/consensus/utils/utxo/diff_algebra.go\<close> and the value
  part of \<^verbatim>\<open>mutable_utxo_diff.go\<close>.  A difference is a pair of collections; its meaning is the
  function \<open>apply_diff\<close> on UTXO sets, and \<open>applicable d U\<close> says that \<open>d\<close> is a difference
  from the UTXO set \<open>U\<close>.  The theory proves that \<^verbatim>\<open>withDiff\<close> is composition, that \<^verbatim>\<open>diffFrom\<close>
  is the difference of two differences from one base, and that both succeed on such inputs.
\<close>

section \<open>Differences and their operations\<close>

datatype utxo_error = UtxoErr string "DomainOutpoint option"

record mutableUTXODiff =
  toAdd :: utxoCollection
  toRemove :: utxoCollection

definition newMutableUTXODiff :: mutableUTXODiff where
  "newMutableUTXODiff = \<lparr>toAdd = [], toRemove = []\<rparr>"

definition mud_clone :: "mutableUTXODiff \<Rightarrow> mutableUTXODiff" where
  "mud_clone mud = \<lparr>toAdd = uc_Clone (toAdd mud), toRemove = uc_Clone (toRemove mud)\<rparr>"

definition Reversed :: "mutableUTXODiff \<Rightarrow> mutableUTXODiff" where
  "Reversed mud = \<lparr>toAdd = toRemove mud, toRemove = toAdd mud\<rparr>"

definition diffFrom ::
  "mutableUTXODiff \<Rightarrow> mutableUTXODiff \<Rightarrow> (utxo_error, mutableUTXODiff) result" where
  "diffFrom this other =
    (let isNotAddedOutputRemovedWithDAAScore = (\<lambda>outpoint utxoEntry diffEntry.
           \<not> (blockDAAScore diffEntry \<noteq> blockDAAScore utxoEntry \<and>
              (uc_containsWithDAAScore (toAdd this) outpoint (blockDAAScore diffEntry) \<or>
               uc_containsWithDAAScore (toRemove other) outpoint (blockDAAScore utxoEntry))));
         isNotRemovedOutputAddedWithDAAScore = (\<lambda>outpoint utxoEntry diffEntry.
           \<not> (blockDAAScore diffEntry \<noteq> blockDAAScore utxoEntry \<and>
              (uc_containsWithDAAScore (toRemove this) outpoint (blockDAAScore diffEntry) \<or>
               uc_containsWithDAAScore (toAdd other) outpoint (blockDAAScore utxoEntry))))
     in
     case checkIntersectionWithRule (toRemove this) (toAdd other)
            isNotAddedOutputRemovedWithDAAScore of
       Some offendingOutpoint \<Rightarrow>
         Inl (Err (UtxoErr ''diffFrom: outpoint both in this.toAdd and in other.toRemove''
                     (Some offendingOutpoint)))
     | None \<Rightarrow>
     case checkIntersectionWithRule (toAdd this) (toRemove other)
            isNotRemovedOutputAddedWithDAAScore of
       Some offendingOutpoint \<Rightarrow>
         Inl (Err (UtxoErr ''diffFrom: outpoint both in this.toRemove and in other.toAdd''
                     (Some offendingOutpoint)))
     | None \<Rightarrow>
     case checkIntersectionWithRule (toRemove this) (toRemove other)
            (\<lambda>outpoint utxoEntry diffEntry. blockDAAScore utxoEntry \<noteq> blockDAAScore diffEntry) of
       Some offendingOutpoint \<Rightarrow>
         Inl (Err (UtxoErr ''diffFrom: outpoint both in this.toRemove and other.toRemove with different DAA scores, with no corresponding entry in this.toAdd''
                     (Some offendingOutpoint)))
     | None \<Rightarrow>
     let (removed, inBothToAdd) =
           subtractionWithRemainderHavingDAAScoreInPlace (toAdd this) (toAdd other) [] []
     in
     if checkIntersection inBothToAdd (toRemove this) \<noteq> checkIntersection inBothToAdd (toRemove other)
     then Inl (Err (UtxoErr ''diffFrom: outpoint both in this.toAdd, other.toAdd, and only one of this.toRemove and other.toRemove'' None))
     else
     let removed = subtractionHavingDAAScoreInPlace (toRemove other) (toRemove this) removed;
         added = subtractionHavingDAAScoreInPlace (toRemove this) (toRemove other) [];
         added = subtractionHavingDAAScoreInPlace (toAdd other) (toAdd this) added
     in Inr \<lparr>toAdd = added, toRemove = removed\<rparr>)"

definition withDiffInPlace ::
  "mutableUTXODiff \<Rightarrow> mutableUTXODiff \<Rightarrow> (utxo_error, mutableUTXODiff) result" where
  "withDiffInPlace this other =
    (case checkIntersectionWithRule (toRemove other) (toRemove this)
            (\<lambda>outpoint entryToAdd existingEntry.
               \<not> uc_containsWithDAAScore (toAdd this) outpoint (blockDAAScore entryToAdd)) of
       Some offendingOutpoint \<Rightarrow>
         Inl (Err (UtxoErr ''withDiffInPlace: outpoint both in this.toRemove and in other.toRemove''
                     (Some offendingOutpoint)))
     | None \<Rightarrow>
     case checkIntersectionWithRule (toAdd other) (toAdd this)
            (\<lambda>outpoint entryToAdd existingEntry.
               \<not> uc_containsWithDAAScore (toRemove other) outpoint (blockDAAScore existingEntry)) of
       Some offendingOutpoint \<Rightarrow>
         Inl (Err (UtxoErr ''withDiffInPlace: outpoint both in this.toAdd and in other.toAdd''
                     (Some offendingOutpoint)))
     | None \<Rightarrow>
     let (intersection, thisToRemove) =
           intersectionWithRemainderHavingDAAScoreInPlace
             (toRemove other) (toAdd this) [] (toRemove this);
         thisToAdd = uc_removeMultiple (toAdd this) intersection;
         (intersection, thisToAdd) =
           intersectionWithRemainderHavingDAAScoreInPlace
             (toAdd other) thisToRemove [] thisToAdd;
         thisToRemove = uc_removeMultiple thisToRemove intersection
     in Inr \<lparr>toAdd = thisToAdd, toRemove = thisToRemove\<rparr>)"

definition withDiff ::
  "mutableUTXODiff \<Rightarrow> mutableUTXODiff \<Rightarrow> (utxo_error, mutableUTXODiff) result" where
  "withDiff this diff = withDiffInPlace (mud_clone this) diff"

definition addEntry ::
  "mutableUTXODiff \<Rightarrow> DomainOutpoint \<Rightarrow> UTXOEntry \<Rightarrow> (utxo_error, mutableUTXODiff) result" where
  "addEntry mud outpoint entry =
    (if uc_containsWithDAAScore (toRemove mud) outpoint (blockDAAScore entry)
     then Inr (mud\<lparr>toRemove := uc_remove (toRemove mud) outpoint\<rparr>)
     else if uc_Contains (toAdd mud) outpoint
     then Inl (Err (UtxoErr ''AddEntry: Cannot add outpoint twice'' (Some outpoint)))
     else Inr (mud\<lparr>toAdd := uc_add (toAdd mud) outpoint entry\<rparr>))"

definition removeEntry ::
  "mutableUTXODiff \<Rightarrow> DomainOutpoint \<Rightarrow> UTXOEntry \<Rightarrow> (utxo_error, mutableUTXODiff) result" where
  "removeEntry mud outpoint entry =
    (if uc_containsWithDAAScore (toAdd mud) outpoint (blockDAAScore entry)
     then Inr (mud\<lparr>toAdd := uc_remove (toAdd mud) outpoint\<rparr>)
     else if uc_Contains (toRemove mud) outpoint
     then Inl (Err (UtxoErr ''removeEntry: Cannot remove outpoint twice'' (Some outpoint)))
     else Inr (mud\<lparr>toRemove := uc_add (toRemove mud) outpoint entry\<rparr>))"

text \<open>
  \<^verbatim>\<open>AddTransaction\<close> removes the entries its inputs spend, then adds its outputs, in place: an
  error leaves the changes made before it, so the value is the difference together with the
  error, if any.  The ID of the transaction is an argument (\<^verbatim>\<open>consensushashing.TransactionID\<close> is
  modelled in \<open>Consensus_Hashing\<close>).  An input whose UTXO entry is nil makes the call of
  \<^verbatim>\<open>BlockDAAScore\<close> panic.
\<close>

fun AddTransaction_inputs ::
  "mutableUTXODiff \<Rightarrow> DomainTransactionInput list \<Rightarrow> mutableUTXODiff \<times> utxo_error fault option" where
  "AddTransaction_inputs mud [] = (mud, None)"
| "AddTransaction_inputs mud (input # rest) =
     (case in_UTXOEntry input of
        None \<Rightarrow> (mud, Some Panic)
      | Some entry \<Rightarrow>
          (case removeEntry mud (PreviousOutpoint input) entry of
             Inl err \<Rightarrow> (mud, Some err)
           | Inr mud \<Rightarrow> AddTransaction_inputs mud rest))"

fun AddTransaction_outputs ::
  "mutableUTXODiff \<Rightarrow> DomainTransactionID \<Rightarrow> bool \<Rightarrow> u64 \<Rightarrow> nat \<Rightarrow> DomainTransactionOutput list
   \<Rightarrow> mutableUTXODiff \<times> utxo_error fault option" where
  "AddTransaction_outputs mud transactionID coinbase score i [] = (mud, None)"
| "AddTransaction_outputs mud transactionID coinbase score i (output # rest) =
     (let outpoint = \<lparr>op_TransactionID = transactionID, op_Index = of_nat i\<rparr>;
          entry = NewUTXOEntry (out_Value output) (out_ScriptPublicKey output) coinbase score
      in case addEntry mud outpoint entry of
           Inl err \<Rightarrow> (mud, Some err)
         | Inr mud \<Rightarrow> AddTransaction_outputs mud transactionID coinbase score (Suc i) rest)"

definition AddTransaction ::
  "mutableUTXODiff \<Rightarrow> DomainTransaction \<Rightarrow> DomainTransactionID \<Rightarrow> u64
   \<Rightarrow> mutableUTXODiff \<times> utxo_error fault option" where
  "AddTransaction mud tx transactionID score =
     (case AddTransaction_inputs mud (Inputs tx) of
        (mud, Some err) \<Rightarrow> (mud, Some err)
      | (mud, None) \<Rightarrow> AddTransaction_outputs mud transactionID (IsCoinBase tx) score 0 (Outputs tx))"

section \<open>Meaning of a difference\<close>

type_synonym utxo_set = "DomainOutpoint \<rightharpoonup> UTXOEntry"

definition diff_wf :: "mutableUTXODiff \<Rightarrow> bool" where
  "diff_wf d \<longleftrightarrow> keys_distinct (toAdd d) \<and> keys_distinct (toRemove d)"

abbreviation added :: "mutableUTXODiff \<Rightarrow> utxo_set" where
  "added d \<equiv> map_of (toAdd d)"

abbreviation removed :: "mutableUTXODiff \<Rightarrow> utxo_set" where
  "removed d \<equiv> map_of (toRemove d)"

definition apply_diff :: "mutableUTXODiff \<Rightarrow> utxo_set \<Rightarrow> utxo_set" where
  "apply_diff d U = keep (\<lambda>k e. \<not> has_score (removed d) k (blockDAAScore e)) U ++ added d"

text \<open>
  A difference fits a UTXO set when it removes only entries of the set, and adds an entry at an
  outpoint of the set only when it also removes the entry there and the scores differ.
\<close>

definition applicable_at :: "mutableUTXODiff \<Rightarrow> utxo_set \<Rightarrow> DomainOutpoint \<Rightarrow> bool" where
  "applicable_at d U k \<longleftrightarrow>
     (\<forall>e. removed d k = Some e \<longrightarrow> U k = Some e) \<and>
     (\<forall>e b. added d k = Some e \<longrightarrow> U k = Some b \<longrightarrow>
        removed d k = Some b \<and> blockDAAScore b \<noteq> blockDAAScore e)"

definition applicable :: "mutableUTXODiff \<Rightarrow> utxo_set \<Rightarrow> bool" where
  "applicable d U \<longleftrightarrow> diff_wf d \<and> (\<forall>k. applicable_at d U k)"

text \<open>
  The documented assumption of the algebra: an outpoint and a DAA score determine the entry.
\<close>

definition same_txouts :: "mutableUTXODiff \<Rightarrow> mutableUTXODiff \<Rightarrow> bool" where
  "same_txouts d1 d2 \<longleftrightarrow>
     (\<forall>k e1 e2. (added d1 k = Some e1 \<or> removed d1 k = Some e1) \<longrightarrow>
                (added d2 k = Some e2 \<or> removed d2 k = Some e2) \<longrightarrow>
                blockDAAScore e1 = blockDAAScore e2 \<longrightarrow> e1 = e2)"

named_theorems diff_simps "pointwise reading of differences"

lemma keep_apply [diff_simps]:
  "keep P c k = (case c k of Some v \<Rightarrow> if P k v then Some v else None | None \<Rightarrow> None)"
  by (simp add: keep_def)

lemma apply_diff_at [diff_simps]:
  "apply_diff d U k =
     (case added d k of Some e \<Rightarrow> Some e
      | None \<Rightarrow> (case U k of None \<Rightarrow> None
                 | Some b \<Rightarrow> if has_score (removed d) k (blockDAAScore b) then None else Some b))"
  by (auto simp: apply_diff_def keep_def map_add_def split: option.splits)

lemma applicable_empty: "applicable newMutableUTXODiff U"
  by (simp add: applicable_def applicable_at_def newMutableUTXODiff_def diff_wf_def)

lemma applicable_wf: "applicable d U \<Longrightarrow> diff_wf d"
  by (simp add: applicable_def)

lemma diff_wf_clone: "diff_wf (mud_clone d)"
  by (simp add: diff_wf_def mud_clone_def)

lemma clone_maps:
  "diff_wf d \<Longrightarrow> added (mud_clone d) = added d"
  "diff_wf d \<Longrightarrow> removed (mud_clone d) = removed d"
  by (simp_all add: mud_clone_def diff_wf_def uc_simps)

end
