(* ===== verification/Diff_Semantics.thy ===== *)
theory Diff_Semantics
  imports Diff_Algebra
begin

text \<open>
  The laws of the UTXO difference algebra.  \<^verbatim>\<open>withDiff\<close> is composition of differences,
  \<^verbatim>\<open>diffFrom\<close> the difference between two differences from one base, \<^verbatim>\<open>Reversed\<close> the inverse
  and \<^verbatim>\<open>AddTransaction\<close> the effect of a transaction on a UTXO set; each of them succeeds on
  the inputs the node gives it.
\<close>

section \<open>The result of withDiffInPlace as maps\<close>

definition rem_step :: "mutableUTXODiff \<Rightarrow> mutableUTXODiff \<Rightarrow> utxo_set" where
  "rem_step d1 d2 = removed d1 ++ keep (\<lambda>k e. \<not> has_score (added d1) k (blockDAAScore e)) (removed d2)"

definition add_step :: "mutableUTXODiff \<Rightarrow> mutableUTXODiff \<Rightarrow> utxo_set" where
  "add_step d1 d2 = (\<lambda>k. if k \<in> dom (keep (\<lambda>k e. has_score (added d1) k (blockDAAScore e)) (removed d2))
                         then None else added d1 k)"

lemma withDiffInPlace_Inr:
  assumes wf: "diff_wf d1" "diff_wf d2" and r: "withDiffInPlace d1 d2 = Inr d3"
  shows "diff_wf d3"
    and "added d3 = add_step d1 d2 ++
           keep (\<lambda>k e. \<not> has_score (rem_step d1 d2) k (blockDAAScore e)) (added d2)"
    and "removed d3 = (\<lambda>k. if k \<in> dom (keep (\<lambda>k e. has_score (rem_step d1 d2) k (blockDAAScore e)) (added d2))
           then None else rem_step d1 d2 k)"
proof -
  let ?i1 = "intersectionWithRemainderHavingDAAScoreInPlace (toRemove d2) (toAdd d1) [] (toRemove d1)"
  let ?A = "uc_removeMultiple (toAdd d1) (fst ?i1)"
  let ?i2 = "intersectionWithRemainderHavingDAAScoreInPlace (toAdd d2) (snd ?i1) [] ?A"
  from r have d3: "d3 = \<lparr>toAdd = snd ?i2, toRemove = uc_removeMultiple (snd ?i1) (fst ?i2)\<rparr>"
    by (simp add: withDiffInPlace_def Let_def case_prod_unfold split: option.split_asm)
  from wf have k: "keys_distinct (toAdd d1)" "keys_distinct (toRemove d1)"
    "keys_distinct (toAdd d2)" "keys_distinct (toRemove d2)"
    by (simp_all add: diff_wf_def)
  show "diff_wf d3" using k by (simp add: d3 diff_wf_def)
  have R: "map_of (snd ?i1) = rem_step d1 d2" using k by (simp add: uc_simps rem_step_def)
  have A: "map_of ?A = add_step d1 d2" using k by (simp add: uc_simps add_step_def)
  show "added d3 = add_step d1 d2 ++
           keep (\<lambda>k e. \<not> has_score (rem_step d1 d2) k (blockDAAScore e)) (added d2)"
    using k by (simp add: d3 intersectionWithRemainder_maps R A)
  show "removed d3 = (\<lambda>k. if k \<in> dom (keep (\<lambda>k e. has_score (rem_step d1 d2) k (blockDAAScore e)) (added d2))
           then None else rem_step d1 d2 k)"
    using k by (simp add: d3 intersectionWithRemainder_maps map_of_uc_removeMultiple R cong: if_cong)
qed

lemma withDiffInPlace_succeeds_iff:
  assumes wf: "diff_wf d1" "diff_wf d2"
  shows "(\<exists>d3. withDiffInPlace d1 d2 = Inr d3) \<longleftrightarrow>
    (\<forall>k r e. removed d2 k = Some r \<longrightarrow> removed d1 k = Some e \<longrightarrow> has_score (added d1) k (blockDAAScore r)) \<and>
    (\<forall>k a e. added d2 k = Some a \<longrightarrow> added d1 k = Some e \<longrightarrow> has_score (removed d2) k (blockDAAScore e))"
proof -
  from wf have "keys_distinct (toAdd d2)" "keys_distinct (toRemove d2)" by (simp_all add: diff_wf_def)
  note c = this [THEN checkIntersectionWithRule_None_iff]
  have "(\<exists>d3. withDiffInPlace d1 d2 = Inr d3) \<longleftrightarrow>
     checkIntersectionWithRule (toRemove d2) (toRemove d1)
        (\<lambda>k r e. \<not> uc_containsWithDAAScore (toAdd d1) k (blockDAAScore r)) = None \<and>
     checkIntersectionWithRule (toAdd d2) (toAdd d1)
        (\<lambda>k a e. \<not> uc_containsWithDAAScore (toRemove d2) k (blockDAAScore e)) = None"
    by (simp add: withDiffInPlace_def Let_def case_prod_unfold split: option.split)
  then show ?thesis by (simp add: c uc_containsWithDAAScore_iff)
qed

lemma has_score_at: "has_score c k s \<longleftrightarrow> (case c k of None \<Rightarrow> False | Some e \<Rightarrow> blockDAAScore e = s)"
  by (auto simp: has_score_def split: option.splits)


section \<open>One outpoint at a time\<close>

text \<open>
  A difference acts on each outpoint on its own.  \<open>ap a r u\<close> is the entry that is left at an
  outpoint with entry \<open>u\<close> when \<open>a\<close> is added and \<open>r\<close> removed there; \<open>fits a r u\<close> is
  applicability at one outpoint.  Four cases remain, \<open>fits_cases\<close>, and every law of the algebra
  is checked on the pairs of them.
\<close>

definition hs :: "UTXOEntry option \<Rightarrow> u64 \<Rightarrow> bool" where
  "hs x s \<longleftrightarrow> (case x of None \<Rightarrow> False | Some e \<Rightarrow> blockDAAScore e = s)"

definition ap :: "UTXOEntry option \<Rightarrow> UTXOEntry option \<Rightarrow> UTXOEntry option \<Rightarrow> UTXOEntry option" where
  "ap a r u = (case a of Some e \<Rightarrow> Some e
      | None \<Rightarrow> (case u of None \<Rightarrow> None | Some b \<Rightarrow> if hs r (blockDAAScore b) then None else Some b))"

definition fits :: "UTXOEntry option \<Rightarrow> UTXOEntry option \<Rightarrow> UTXOEntry option \<Rightarrow> bool" where
  "fits a r u \<longleftrightarrow> (r \<noteq> None \<longrightarrow> u = r) \<and>
     (\<forall>e b. a = Some e \<longrightarrow> u = Some b \<longrightarrow> r = Some b \<and> blockDAAScore b \<noteq> blockDAAScore e)"


lemma fits_simps [simp]:
  "fits None None u"
  "fits (Some e) None u \<longleftrightarrow> u = None"
  "fits None (Some b) u \<longleftrightarrow> u = Some b"
  "fits (Some e) (Some b) u \<longleftrightarrow> u = Some b \<and> blockDAAScore b \<noteq> blockDAAScore e"
  by (cases u; auto simp: fits_def)+

lemma ap_simps [simp]:
  "ap (Some e) r u = Some e"
  "ap None None u = u"
  "ap None (Some s) None = None"
  "ap None (Some s) (Some b) = (if blockDAAScore s = blockDAAScore b then None else Some b)"
  by (simp_all add: ap_def hs_def split: option.splits)

lemma fits_cases:
  assumes "fits a r u"
  obtains (same) "a = None" "r = None"
  | (added) e where "a = Some e" "r = None" "u = None"
  | (removed) b where "a = None" "r = Some b" "u = Some b"
  | (replaced) e b where "a = Some e" "r = Some b" "u = Some b" "blockDAAScore b \<noteq> blockDAAScore e"
proof (cases a)
  case None
  with assms same removed show thesis by (cases r) simp_all
next
  case (Some e)
  with assms added replaced show thesis by (cases r) simp_all
qed

lemma hs_simps [simp]:
  "\<not> hs None s"
  "hs (Some e) s \<longleftrightarrow> blockDAAScore e = s"
  by (simp_all add: hs_def)

text \<open>The two steps of \<^verbatim>\<open>withDiffInPlace\<close> at one outpoint.\<close>

definition rem1 ::
  "UTXOEntry option \<Rightarrow> UTXOEntry option \<Rightarrow> UTXOEntry option \<Rightarrow> UTXOEntry option" where
  "rem1 a1 r1 r2 = (case r2 of None \<Rightarrow> r1 | Some r \<Rightarrow> if hs a1 (blockDAAScore r) then r1 else Some r)"

definition add1 :: "UTXOEntry option \<Rightarrow> UTXOEntry option \<Rightarrow> UTXOEntry option" where
  "add1 a1 r2 = (case r2 of None \<Rightarrow> a1 | Some r \<Rightarrow> if hs a1 (blockDAAScore r) then None else a1)"

definition comp_add ::
  "UTXOEntry option \<Rightarrow> UTXOEntry option \<Rightarrow> UTXOEntry option
   \<Rightarrow> UTXOEntry option \<Rightarrow> UTXOEntry option" where
  "comp_add a1 r1 a2 r2 = (case a2 of None \<Rightarrow> add1 a1 r2
     | Some a \<Rightarrow> if hs (rem1 a1 r1 r2) (blockDAAScore a) then add1 a1 r2 else Some a)"

definition comp_rem ::
  "UTXOEntry option \<Rightarrow> UTXOEntry option \<Rightarrow> UTXOEntry option
   \<Rightarrow> UTXOEntry option \<Rightarrow> UTXOEntry option" where
  "comp_rem a1 r1 a2 r2 = (case a2 of None \<Rightarrow> rem1 a1 r1 r2
     | Some a \<Rightarrow> if hs (rem1 a1 r1 r2) (blockDAAScore a) then None else rem1 a1 r1 r2)"

lemma comp_point:
  assumes "fits a1 r1 u" and "fits a2 r2 (ap a1 r1 u)"
    and "\<And>e1 e2. r1 = Some e1 \<Longrightarrow> a2 = Some e2 \<Longrightarrow> blockDAAScore e1 = blockDAAScore e2 \<Longrightarrow> e1 = e2"
  shows "fits (comp_add a1 r1 a2 r2) (comp_rem a1 r1 a2 r2) u"
    and "ap (comp_add a1 r1 a2 r2) (comp_rem a1 r1 a2 r2) u = ap a2 r2 (ap a1 r1 u)"
proof -
  have "fits (comp_add a1 r1 a2 r2) (comp_rem a1 r1 a2 r2) u
    \<and> ap (comp_add a1 r1 a2 r2) (comp_rem a1 r1 a2 r2) u = ap a2 r2 (ap a1 r1 u)"
    using assms(1)
  proof (cases rule: fits_cases)
    case same
    with assms(2,3) show ?thesis
      by (auto elim!: fits_cases simp: comp_add_def comp_rem_def rem1_def add1_def)
  next
    case (added e)
    with assms(2,3) show ?thesis
      by (auto elim!: fits_cases simp: comp_add_def comp_rem_def rem1_def add1_def)
  next
    case (removed e)
    with assms(2,3) show ?thesis
      by (auto elim!: fits_cases simp: comp_add_def comp_rem_def rem1_def add1_def)
  next
    case (replaced e b)
    with assms(2,3) show ?thesis
      by (auto elim!: fits_cases simp: comp_add_def comp_rem_def rem1_def add1_def)
  qed
  then show "fits (comp_add a1 r1 a2 r2) (comp_rem a1 r1 a2 r2) u"
    and "ap (comp_add a1 r1 a2 r2) (comp_rem a1 r1 a2 r2) u = ap a2 r2 (ap a1 r1 u)" by simp_all
qed


lemma applicable_at_fits: "applicable_at d U k \<longleftrightarrow> fits (added d k) (removed d k) (U k)"
  by (cases "added d k"; cases "removed d k"; cases "U k") (auto simp: applicable_at_def)

lemma has_score_hs: "has_score c k s = hs (c k) s"
  by (simp add: has_score_at hs_def)

lemma apply_diff_ap: "apply_diff d U k = ap (added d k) (removed d k) (U k)"
  by (simp add: apply_diff_at ap_def has_score_hs split: option.split)

lemma applicable_iff_fits:
  "applicable d U \<longleftrightarrow> diff_wf d \<and> (\<forall>k. fits (added d k) (removed d k) (U k))"
  by (simp add: applicable_def applicable_at_fits)

lemma withDiffInPlace_point:
  assumes "diff_wf d1" "diff_wf d2" "withDiffInPlace d1 d2 = Inr d3"
  shows "added d3 k = comp_add (added d1 k) (removed d1 k) (added d2 k) (removed d2 k)"
    and "removed d3 k = comp_rem (added d1 k) (removed d1 k) (added d2 k) (removed d2 k)"
proof -
  have rem: "rem_step d1 d2 k = rem1 (added d1 k) (removed d1 k) (removed d2 k)"
    by (simp add: rem_step_def rem1_def map_add_def keep_apply has_score_hs split: option.split)
  have add: "add_step d1 d2 k = add1 (added d1 k) (removed d2 k)"
    by (simp add: add_step_def add1_def domIff keep_apply has_score_hs split: option.split)
  show "added d3 k = comp_add (added d1 k) (removed d1 k) (added d2 k) (removed d2 k)"
    by (simp add: withDiffInPlace_Inr(2) [OF assms] comp_add_def map_add_def keep_apply
        has_score_hs rem add split: option.split)
  show "removed d3 k = comp_rem (added d1 k) (removed d1 k) (added d2 k) (removed d2 k)"
    by (simp add: withDiffInPlace_Inr(3) [OF assms] comp_rem_def domIff keep_apply
        has_score_hs rem split: option.split)
qed

lemma withDiffInPlace_composes:
  assumes a1: "applicable d1 U" and a2: "applicable d2 (apply_diff d1 U)" and s: "same_txouts d1 d2"
  obtains d3 where "withDiffInPlace d1 d2 = Inr d3" "applicable d3 U"
    "apply_diff d3 U = apply_diff d2 (apply_diff d1 U)"
proof -
  from a1 a2 have wf: "diff_wf d1" "diff_wf d2" by (simp_all add: applicable_def)
  have f1: "fits (added d1 k) (removed d1 k) (U k)" for k
    using a1 by (simp add: applicable_iff_fits)
  have f2: "fits (added d2 k) (removed d2 k) (ap (added d1 k) (removed d1 k) (U k))" for k
    using a2 by (simp add: applicable_iff_fits apply_diff_ap)
  have "has_score (added d1) k (blockDAAScore r)"
    if "removed d2 k = Some r" "removed d1 k = Some e" for k r e
    using f1 [of k] f2 [of k] that unfolding has_score_hs by (auto elim!: fits_cases split: if_splits)
  moreover have "has_score (removed d2) k (blockDAAScore e)"
    if "added d2 k = Some a" "added d1 k = Some e" for k a e
    using f2 [of k] that unfolding has_score_hs by (auto elim!: fits_cases)
  ultimately obtain d3 where d3: "withDiffInPlace d1 d2 = Inr d3"
    using withDiffInPlace_succeeds_iff [OF wf] by auto
  note pt = withDiffInPlace_point [OF wf d3]
  have se: "e1 = e2" if "removed d1 k = Some e1" "added d2 k = Some e2"
    "blockDAAScore e1 = blockDAAScore e2" for k e1 e2
    using s that by (auto simp: same_txouts_def)
  have "applicable d3 U"
    using withDiffInPlace_Inr(1) [OF wf d3] comp_point(1) [OF f1 f2 se]
    by (simp add: applicable_iff_fits pt)
  moreover have "apply_diff d3 U = apply_diff d2 (apply_diff d1 U)"
    using comp_point(2) [OF f1 f2 se] by (simp add: fun_eq_iff apply_diff_ap pt)
  ultimately show thesis using that d3 by blast
qed

definition df_part ::
  "UTXOEntry option \<Rightarrow> UTXOEntry option \<Rightarrow> UTXOEntry option
   \<Rightarrow> UTXOEntry option \<Rightarrow> UTXOEntry option" where
  "df_part x1 x2 y1 y2 = (case y1 of Some e \<Rightarrow> if hs y2 (blockDAAScore e) then (case x1 of Some r \<Rightarrow> if hs x2 (blockDAAScore r) then None else Some r | None \<Rightarrow> None) else Some e
    | None \<Rightarrow> (case x1 of Some r \<Rightarrow> if hs x2 (blockDAAScore r) then None else Some r | None \<Rightarrow> None))"

lemma diff_point:
  assumes "fits a1 r1 u" and "fits a2 r2 u"
    and "\<And>e1 e2. a1 = Some e1 \<Longrightarrow> a2 = Some e2 \<Longrightarrow> blockDAAScore e1 = blockDAAScore e2 \<Longrightarrow> e1 = e2"
  shows "fits (df_part r1 r2 a2 a1) (df_part a1 a2 r2 r1) (ap a1 r1 u)"
    and "ap (df_part r1 r2 a2 a1) (df_part a1 a2 r2 r1) (ap a1 r1 u) = ap a2 r2 u"
proof -
  have "fits (df_part r1 r2 a2 a1) (df_part a1 a2 r2 r1) (ap a1 r1 u)
    \<and> ap (df_part r1 r2 a2 a1) (df_part a1 a2 r2 r1) (ap a1 r1 u) = ap a2 r2 u"
    using assms(1)
  proof (cases rule: fits_cases)
    case same
    with assms(2,3) show ?thesis by (auto elim!: fits_cases simp: df_part_def)
  next
    case (added e)
    with assms(2,3) show ?thesis by (auto elim!: fits_cases simp: df_part_def)
  next
    case (removed e)
    with assms(2,3) show ?thesis by (auto elim!: fits_cases simp: df_part_def)
  next
    case (replaced e b)
    with assms(2,3) show ?thesis by (auto elim!: fits_cases simp: df_part_def)
  qed
  then show "fits (df_part r1 r2 a2 a1) (df_part a1 a2 r2 r1) (ap a1 r1 u)"
    and "ap (df_part r1 r2 a2 a1) (df_part a1 a2 r2 r1) (ap a1 r1 u) = ap a2 r2 u" by simp_all
qed

lemma diffFrom_Inr:
  assumes wf: "diff_wf d1" "diff_wf d2" and r: "diffFrom d1 d2 = Inr d3"
  shows "diff_wf d3"
    and "added d3 k = df_part (removed d1 k) (removed d2 k) (added d2 k) (added d1 k)"
    and "removed d3 k = df_part (added d1 k) (added d2 k) (removed d2 k) (removed d1 k)"
proof -
  let ?s = "subtractionWithRemainderHavingDAAScoreInPlace (toAdd d1) (toAdd d2) [] []"
  let ?r = "subtractionHavingDAAScoreInPlace (toRemove d2) (toRemove d1) (fst ?s)"
  let ?a = "subtractionHavingDAAScoreInPlace (toAdd d2) (toAdd d1)
              (subtractionHavingDAAScoreInPlace (toRemove d1) (toRemove d2) [])"
  from r have d3: "d3 = \<lparr>toAdd = ?a, toRemove = ?r\<rparr>"
    by (simp add: diffFrom_def Let_def case_prod_unfold split: option.split_asm if_split_asm)
  from wf have kd: "keys_distinct (toAdd d1)" "keys_distinct (toRemove d1)"
    "keys_distinct (toAdd d2)" "keys_distinct (toRemove d2)"
    by (simp_all add: diff_wf_def)
  show "diff_wf d3" by (simp add: d3 diff_wf_def)
  show "added d3 k = df_part (removed d1 k) (removed d2 k) (added d2 k) (added d1 k)"
    using kd by (simp add: d3 subtraction_map df_part_def map_add_def keep_apply has_score_hs
        split: option.split)
  show "removed d3 k = df_part (added d1 k) (added d2 k) (removed d2 k) (removed d1 k)"
    using kd by (simp add: d3 subtraction_map subtractionWithRemainder_maps df_part_def map_add_def
        keep_apply has_score_hs split: option.split)
qed


lemma diffFrom_succeeds:
  assumes a1: "applicable d1 U" and a2: "applicable d2 U"
  shows "\<exists>d3. diffFrom d1 d2 = Inr d3"
proof -
  from a1 a2 have kd: "keys_distinct (toAdd d1)" "keys_distinct (toRemove d1)"
    by (simp_all add: applicable_def diff_wf_def)
  have f: "fits (added d1 k) (removed d1 k) (U k)" "fits (added d2 k) (removed d2 k) (U k)" for k
    using a1 a2 by (simp_all add: applicable_iff_fits)
  let ?both = "snd (subtractionWithRemainderHavingDAAScoreInPlace (toAdd d1) (toAdd d2) [] [])"
  have "k \<in> dom (removed d1) \<longleftrightarrow> k \<in> dom (removed d2)" if "k \<in> dom (map_of ?both)" for k
  proof -
    from that have "added d1 k \<noteq> None" "added d2 k \<noteq> None"
      by (auto simp: domIff subtractionWithRemainder_maps kd keep_apply has_score_hs hs_def
          split: option.splits if_splits)
    with f [of k] show ?thesis by (auto elim!: fits_cases)
  qed
  then have both: "checkIntersection ?both (toRemove d1) = checkIntersection ?both (toRemove d2)"
    unfolding checkIntersection_iff by blast
  have c1: "checkIntersectionWithRule (toRemove d1) (toAdd d2) (\<lambda>k u v.
       \<not> (blockDAAScore v \<noteq> blockDAAScore u \<and> (uc_containsWithDAAScore (toAdd d1) k (blockDAAScore v) \<or>
         uc_containsWithDAAScore (toRemove d2) k (blockDAAScore u)))) = None"
    unfolding checkIntersectionWithRule_None_iff [OF kd(2)] uc_containsWithDAAScore_iff has_score_hs
  proof (intro allI impI)
    fix k u v assume "removed d1 k = Some u" "added d2 k = Some v"
    with f [of k] show "\<not> \<not> (blockDAAScore v \<noteq> blockDAAScore u \<and>
      (hs (added d1 k) (blockDAAScore v) \<or> hs (removed d2 k) (blockDAAScore u)))"
      by (auto elim!: fits_cases)
  qed
  have c2: "checkIntersectionWithRule (toAdd d1) (toRemove d2) (\<lambda>k u v.
       \<not> (blockDAAScore v \<noteq> blockDAAScore u \<and> (uc_containsWithDAAScore (toRemove d1) k (blockDAAScore v) \<or>
         uc_containsWithDAAScore (toAdd d2) k (blockDAAScore u)))) = None"
    unfolding checkIntersectionWithRule_None_iff [OF kd(1)] uc_containsWithDAAScore_iff has_score_hs
  proof (intro allI impI)
    fix k u v assume "added d1 k = Some u" "removed d2 k = Some v"
    with f [of k] show "\<not> \<not> (blockDAAScore v \<noteq> blockDAAScore u \<and>
      (hs (removed d1 k) (blockDAAScore v) \<or> hs (added d2 k) (blockDAAScore u)))"
      by (auto elim!: fits_cases)
  qed
  have c3: "checkIntersectionWithRule (toRemove d1) (toRemove d2)
      (\<lambda>k u v. blockDAAScore u \<noteq> blockDAAScore v) = None"
    unfolding checkIntersectionWithRule_None_iff [OF kd(2)]
  proof (intro allI impI)
    fix k u v assume "removed d1 k = Some u" "removed d2 k = Some v"
    with f [of k] show "\<not> blockDAAScore u \<noteq> blockDAAScore v" by (auto elim!: fits_cases)
  qed
  show ?thesis
    by (simp add: diffFrom_def Let_def case_prod_unfold c1 [simplified] c2 [simplified] c3 both)
qed

lemma diffFrom_correct_ex:
  assumes a1: "applicable d1 U" and a2: "applicable d2 U" and s: "same_txouts d1 d2"
  obtains d3 where "diffFrom d1 d2 = Inr d3" "applicable d3 (apply_diff d1 U)"
    "apply_diff d3 (apply_diff d1 U) = apply_diff d2 U"
proof -
  from a1 a2 have wf: "diff_wf d1" "diff_wf d2" by (simp_all add: applicable_def)
  have f: "fits (added d1 k) (removed d1 k) (U k)" "fits (added d2 k) (removed d2 k) (U k)" for k
    using a1 a2 by (simp_all add: applicable_iff_fits)
  from diffFrom_succeeds [OF a1 a2] obtain d3 where d3: "diffFrom d1 d2 = Inr d3" by blast
  note pt = diffFrom_Inr(2,3) [OF wf d3]
  have se: "e1 = e2" if "added d1 k = Some e1" "added d2 k = Some e2"
    "blockDAAScore e1 = blockDAAScore e2" for k e1 e2
    using s that by (auto simp: same_txouts_def)
  have "applicable d3 (apply_diff d1 U)"
    using diffFrom_Inr(1) [OF wf d3] diff_point(1) [OF f se]
    by (simp add: applicable_iff_fits pt apply_diff_ap)
  moreover have "apply_diff d3 (apply_diff d1 U) = apply_diff d2 U"
    using diff_point(2) [OF f se] by (simp add: fun_eq_iff apply_diff_ap pt)
  ultimately show thesis using that d3 by blast
qed

text \<open>A difference from a UTXO set is determined by the set it leads to.\<close>

lemma diff_unique:
  assumes a1: "applicable d1 U" and a2: "applicable d2 U" and e: "apply_diff d1 U = apply_diff d2 U"
  shows "added d1 = added d2 \<and> removed d1 = removed d2"
proof -
  have "added d1 k = added d2 k \<and> removed d1 k = removed d2 k" for k
  proof -
    have f: "fits (added d1 k) (removed d1 k) (U k)" "fits (added d2 k) (removed d2 k) (U k)"
      using a1 a2 by (simp_all add: applicable_iff_fits)
    have "ap (added d1 k) (removed d1 k) (U k) = ap (added d2 k) (removed d2 k) (U k)"
      using e by (simp add: fun_eq_iff apply_diff_ap)
    with f show ?thesis by (auto elim!: fits_cases)
  qed
  then show ?thesis by (simp add: fun_eq_iff)
qed

lemma Reversed_undoes:
  assumes "applicable d U"
  shows "applicable (Reversed d) (apply_diff d U)" "apply_diff (Reversed d) (apply_diff d U) = U"
proof -
  have f: "fits (added d k) (removed d k) (U k)" for k using assms by (simp add: applicable_iff_fits)
  have "fits (removed d k) (added d k) (apply_diff d U k)" for k
    using f [of k] by (auto elim!: fits_cases simp: apply_diff_ap)
  then show "applicable (Reversed d) (apply_diff d U)"
    using assms by (simp add: applicable_iff_fits Reversed_def diff_wf_def)
  have "ap (removed d k) (added d k) (apply_diff d U k) = U k" for k
    using f [of k] by (auto elim!: fits_cases simp: apply_diff_ap)
  then show "apply_diff (Reversed d) (apply_diff d U) = U"
    using apply_diff_ap [of "Reversed d" "apply_diff d U"] by (simp add: fun_eq_iff Reversed_def)
qed


text \<open>Adding and removing one entry, and a transaction.\<close>

lemma addEntry_correct:
  assumes a: "applicable d U" and new: "apply_diff d U k = None"
    and same: "\<And>r. removed d k = Some r \<Longrightarrow> blockDAAScore r = blockDAAScore e \<Longrightarrow> r = e"
  obtains d' where "addEntry d k e = Inr d'" "applicable d' U"
    "apply_diff d' U = (apply_diff d U)(k \<mapsto> e)"
proof -
  have f: "fits (added d j) (removed d j) (U j)" for j using a by (simp add: applicable_iff_fits)
  have wf: "keys_distinct (toAdd d)" "keys_distinct (toRemove d)"
    using a by (simp_all add: applicable_def diff_wf_def)
  from new have "ap (added d k) (removed d k) (U k) = None" by (simp add: apply_diff_ap)
  with f [of k] have na: "added d k = None" and u: "U k = removed d k"
    by (auto elim!: fits_cases)
  show thesis
  proof (cases "hs (removed d k) (blockDAAScore e)")
    case True
    then obtain r where r: "removed d k = Some r" "blockDAAScore r = blockDAAScore e"
      by (cases "removed d k") auto
    with same have re: "r = e" by blast
    let ?d = "d\<lparr>toRemove := uc_remove (toRemove d) k\<rparr>"
    have m: "added ?d = added d" "removed ?d = (removed d)(k := None)" by (simp_all add: uc_simps)
    have "addEntry d k e = Inr ?d" using True by (simp add: addEntry_def uc_simps has_score_hs)
    moreover have "applicable ?d U"
      using f wf na unfolding applicable_iff_fits m by (auto simp: diff_wf_def)
    moreover have "apply_diff ?d U = (apply_diff d U)(k \<mapsto> e)"
      using na u r re unfolding fun_eq_iff apply_diff_ap m by (auto simp: apply_diff_ap)
    ultimately show thesis by (rule that)
  next
    case False
    let ?d = "d\<lparr>toAdd := uc_add (toAdd d) k e\<rparr>"
    have m: "added ?d = (added d)(k \<mapsto> e)" "removed ?d = removed d" by (simp_all add: uc_simps)
    have "addEntry d k e = Inr ?d"
      using False na by (simp add: addEntry_def uc_simps has_score_hs domIff)
    moreover have "fits (if j = k then Some e else added d j) (removed d j) (U j)" for j
      using f [of j] u False by (cases "removed d k") auto
    then have "applicable ?d U"
      using wf unfolding applicable_iff_fits m by (auto simp: diff_wf_def)
    moreover have "apply_diff ?d U = (apply_diff d U)(k \<mapsto> e)"
      unfolding fun_eq_iff apply_diff_ap m by (auto simp: apply_diff_ap)
    ultimately show thesis by (rule that)
  qed
qed

lemma removeEntry_correct:
  assumes a: "applicable d U" and there: "apply_diff d U k = Some e"
  obtains d' where "removeEntry d k e = Inr d'" "applicable d' U"
    "apply_diff d' U = (apply_diff d U)(k := None)"
proof -
  have f: "fits (added d j) (removed d j) (U j)" for j using a by (simp add: applicable_iff_fits)
  have wf: "keys_distinct (toAdd d)" "keys_distinct (toRemove d)"
    using a by (simp_all add: applicable_def diff_wf_def)
  from there have e: "ap (added d k) (removed d k) (U k) = Some e" by (simp add: apply_diff_ap)
  show thesis
  proof (cases "added d k")
    case (Some b)
    with e have b: "b = e" by simp
    let ?d = "d\<lparr>toAdd := uc_remove (toAdd d) k\<rparr>"
    have m: "added ?d = (added d)(k := None)" "removed ?d = removed d" by (simp_all add: uc_simps)
    have "removeEntry d k e = Inr ?d" using Some b by (simp add: removeEntry_def uc_simps has_score_hs)
    moreover have "fits (if j = k then None else added d j) (removed d j) (U j)" for j
      using f [of j] Some by (cases "removed d k") auto
    then have "applicable ?d U"
      using wf unfolding applicable_iff_fits m by (auto simp: diff_wf_def)
    moreover have "ap None (removed d k) (U k) = None"
      using f [of k] Some by (auto elim!: fits_cases)
    then have "apply_diff ?d U = (apply_diff d U)(k := None)"
      unfolding fun_eq_iff apply_diff_ap m by (auto simp: apply_diff_ap)
    ultimately show thesis by (rule that)
  next
    case None
    with e f [of k] have r: "removed d k = None" and u: "U k = Some e"
      by (auto elim!: fits_cases)
    let ?d = "d\<lparr>toRemove := uc_add (toRemove d) k e\<rparr>"
    have m: "added ?d = added d" "removed ?d = (removed d)(k \<mapsto> e)" by (simp_all add: uc_simps)
    have "removeEntry d k e = Inr ?d"
      using None r by (simp add: removeEntry_def uc_simps has_score_hs domIff)
    moreover have "applicable ?d U"
      using f wf None u unfolding applicable_iff_fits m by (auto simp: diff_wf_def)
    moreover have "apply_diff ?d U = (apply_diff d U)(k := None)"
      using None u unfolding fun_eq_iff apply_diff_ap m by (auto simp: apply_diff_ap)
    ultimately show thesis by (rule that)
  qed
qed


text \<open>
  What a transaction does to a UTXO set, stated without differences: the outpoints it spends are
  gone and each output is there under its index.
\<close>

definition tx_entry :: "DomainTransaction \<Rightarrow> u64 \<Rightarrow> nat \<Rightarrow> UTXOEntry" where
  "tx_entry tx score i = NewUTXOEntry (out_Value (Outputs tx ! i)) (out_ScriptPublicKey (Outputs tx ! i))
     (IsCoinBase tx) score"

definition tx_creates :: "DomainTransaction \<Rightarrow> DomainTransactionID \<Rightarrow> DomainOutpoint \<Rightarrow> bool" where
  "tx_creates tx txid k \<longleftrightarrow> op_TransactionID k = txid \<and> unat (op_Index k) < length (Outputs tx)"

definition tx_effect ::
  "DomainTransaction \<Rightarrow> DomainTransactionID \<Rightarrow> u64 \<Rightarrow> utxo_set \<Rightarrow> utxo_set" where
  "tx_effect tx txid score S =
     (\<lambda>k. if tx_creates tx txid k then Some (tx_entry tx score (unat (op_Index k)))
          else if k \<in> PreviousOutpoint ` set (Inputs tx) then None else S k)"

lemma AddTransaction_inputs_correct:
  "applicable d U \<Longrightarrow> distinct (map PreviousOutpoint ins) \<Longrightarrow>
   (\<And>i. i \<in> set ins \<Longrightarrow> in_UTXOEntry i \<noteq> None \<and> apply_diff d U (PreviousOutpoint i) = in_UTXOEntry i) \<Longrightarrow>
   \<exists>d'. AddTransaction_inputs d ins = (d', None) \<and> applicable d' U \<and>
     apply_diff d' U = (\<lambda>k. if k \<in> PreviousOutpoint ` set ins then None else apply_diff d U k)"
proof (induction d ins rule: AddTransaction_inputs.induct)
  case (2 d input rest)
  from "2.prems"(3) [of input] obtain e where e: "in_UTXOEntry input = Some e"
    "apply_diff d U (PreviousOutpoint input) = Some e" by auto
  obtain d1 where d1: "removeEntry d (PreviousOutpoint input) e = Inr d1" "applicable d1 U"
    "apply_diff d1 U = (apply_diff d U)(PreviousOutpoint input := None)"
    using removeEntry_correct [OF "2.prems"(1) e(2)] .
  have "\<exists>d'. AddTransaction_inputs d1 rest = (d', None) \<and> applicable d' U \<and>
     apply_diff d' U = (\<lambda>k. if k \<in> PreviousOutpoint ` set rest then None else apply_diff d1 U k)"
  proof (rule "2.IH" [OF e(1) d1(1,2)])
    show "distinct (map PreviousOutpoint rest)" using "2.prems"(2) by simp
    fix i assume i: "i \<in> set rest"
    with "2.prems"(2) have "PreviousOutpoint i \<noteq> PreviousOutpoint input"
      by (metis distinct.simps(2) image_eqI list.set_map list.simps(9))
    with "2.prems"(3) [of i] i
    show "in_UTXOEntry i \<noteq> None \<and> apply_diff d1 U (PreviousOutpoint i) = in_UTXOEntry i"
      by (simp add: d1(3))
  qed
  then show ?case by (auto simp: e(1) d1 fun_eq_iff)
qed auto

lemma unat_of_nat32: "n < 2 ^ 32 \<Longrightarrow> unat (of_nat n :: u32) = n"
  by (simp add: unat_of_nat take_bit_nat_eq_self)

lemma AddTransaction_outputs_correct:
  "applicable d U \<Longrightarrow> i + length outs \<le> 2 ^ 32 \<Longrightarrow>
   (\<And>j. j < length outs \<Longrightarrow> apply_diff d U \<lparr>op_TransactionID = txid, op_Index = of_nat (i + j)\<rparr> = None) \<Longrightarrow>
   (\<And>j r. j < length outs \<Longrightarrow> U \<lparr>op_TransactionID = txid, op_Index = of_nat (i + j)\<rparr> = Some r \<Longrightarrow>
      blockDAAScore r = score \<Longrightarrow>
      r = NewUTXOEntry (out_Value (outs ! j)) (out_ScriptPublicKey (outs ! j)) cb score) \<Longrightarrow>
   \<exists>d'. AddTransaction_outputs d txid cb score i outs = (d', None) \<and> applicable d' U \<and>
     apply_diff d' U = (\<lambda>k. if op_TransactionID k = txid \<and> i \<le> unat (op_Index k) \<and> unat (op_Index k) < i + length outs
        then Some (NewUTXOEntry (out_Value (outs ! (unat (op_Index k) - i)))
              (out_ScriptPublicKey (outs ! (unat (op_Index k) - i))) cb score)
        else apply_diff d U k)"
proof (induction outs arbitrary: d i)
  case Nil
  then show ?case by (auto simp: fun_eq_iff)
next
  case (Cons out outs)
  let ?k = "\<lparr>op_TransactionID = txid, op_Index = of_nat i\<rparr> :: DomainOutpoint"
  let ?e = "NewUTXOEntry (out_Value out) (out_ScriptPublicKey out) cb score"
  have i: "i < 2 ^ 32" using Cons.prems(2) by simp
  have new: "apply_diff d U ?k = None" using Cons.prems(3) [of 0] by simp
  have "r = ?e" if "removed d ?k = Some r" "blockDAAScore r = blockDAAScore ?e" for r
    using Cons.prems(4) [of 0 r] Cons.prems(1) that
    by (auto simp: applicable_def applicable_at_def NewUTXOEntry_def)
  then obtain d1 where d1: "addEntry d ?k ?e = Inr d1" "applicable d1 U"
    "apply_diff d1 U = (apply_diff d U)(?k \<mapsto> ?e)"
    using addEntry_correct [OF Cons.prems(1) new] by metis
  have other: "\<lparr>op_TransactionID = txid, op_Index = of_nat (Suc i + j)\<rparr> \<noteq> ?k" if "j < length outs" for j
  proof
    assume "\<lparr>op_TransactionID = txid, op_Index = of_nat (Suc i + j)\<rparr> = ?k"
    then have "unat (of_nat (Suc i + j) :: u32) = unat (of_nat i :: u32)" by (metis DomainOutpoint.select_convs(2))
    with i that Cons.prems(2) unat_of_nat32 [of "Suc i + j"] unat_of_nat32 [OF i] show False by simp
  qed
  have "\<exists>d'. AddTransaction_outputs d1 txid cb score (Suc i) outs = (d', None) \<and> applicable d' U \<and>
     apply_diff d' U = (\<lambda>k. if op_TransactionID k = txid \<and> Suc i \<le> unat (op_Index k) \<and> unat (op_Index k) < Suc i + length outs
        then Some (NewUTXOEntry (out_Value (outs ! (unat (op_Index k) - Suc i)))
              (out_ScriptPublicKey (outs ! (unat (op_Index k) - Suc i))) cb score)
        else apply_diff d1 U k)"
    using Cons.prems(2) other Cons.prems(3) [of "Suc _"] Cons.prems(4) [of "Suc _"]
    by (intro Cons.IH d1) (auto simp: d1(3))
  moreover have "k = ?k \<longleftrightarrow> op_TransactionID k = txid \<and> unat (op_Index k) = i" for k
    using i by (cases k) (auto simp: unat_of_nat32)
  ultimately show ?case
    by (auto simp: d1 fun_eq_iff Let_def nth_Cons' Suc_le_eq)
qed


lemma AddTransaction_refines:
  assumes a: "applicable d U" and ins: "distinct (map PreviousOutpoint (Inputs tx))"
    "\<And>i. i \<in> set (Inputs tx) \<Longrightarrow>
       in_UTXOEntry i \<noteq> None \<and> apply_diff d U (PreviousOutpoint i) = in_UTXOEntry i"
    and len: "length (Outputs tx) \<le> 2 ^ 32"
    and outs: "\<And>k. tx_creates tx txid k \<Longrightarrow> apply_diff d U k = None"
      "\<And>k r. tx_creates tx txid k \<Longrightarrow> U k = Some r \<Longrightarrow> blockDAAScore r = score \<Longrightarrow>
         r = tx_entry tx score (unat (op_Index k))"
  shows "\<exists>d'. AddTransaction d tx txid score = (d', None) \<and> applicable d' U \<and>
    apply_diff d' U = tx_effect tx txid score (apply_diff d U)"
proof -
  obtain d1 where d1: "AddTransaction_inputs d (Inputs tx) = (d1, None)" "applicable d1 U"
    "apply_diff d1 U = (\<lambda>k. if k \<in> PreviousOutpoint ` set (Inputs tx) then None else apply_diff d U k)"
    using AddTransaction_inputs_correct [OF a ins] by blast
  let ?k = "\<lambda>j. \<lparr>op_TransactionID = txid, op_Index = of_nat (0 + j)\<rparr> :: DomainOutpoint"
  have c: "tx_creates tx txid (?k j) \<and> unat (op_Index (?k j)) = j" if "j < length (Outputs tx)" for j
    using that len by (simp add: tx_creates_def unat_of_nat32)
  have "\<exists>d'. AddTransaction_outputs d1 txid (IsCoinBase tx) score 0 (Outputs tx) = (d', None) \<and>
     applicable d' U \<and>
     apply_diff d' U = (\<lambda>k. if op_TransactionID k = txid \<and> 0 \<le> unat (op_Index k) \<and>
          unat (op_Index k) < 0 + length (Outputs tx)
        then Some (NewUTXOEntry (out_Value (Outputs tx ! (unat (op_Index k) - 0)))
              (out_ScriptPublicKey (Outputs tx ! (unat (op_Index k) - 0))) (IsCoinBase tx) score)
        else apply_diff d1 U k)"
  proof (rule AddTransaction_outputs_correct [OF d1(2)])
    fix j assume j: "j < length (Outputs tx)"
    show "apply_diff d1 U (?k j) = None" using outs(1) c [OF j] by (simp add: d1(3))
    show "r = NewUTXOEntry (out_Value (Outputs tx ! j)) (out_ScriptPublicKey (Outputs tx ! j)) (IsCoinBase tx) score"
      if "U (?k j) = Some r" "blockDAAScore r = score" for r
      using outs(2) [of "?k j" r] c [OF j] that by (simp only: tx_entry_def)
  qed (use len in simp)
  then show ?thesis
    by (auto simp: AddTransaction_def d1 tx_effect_def tx_creates_def tx_entry_def fun_eq_iff)
qed

section \<open>Properties\<close>

lemma clone_same_meaning:
  assumes "diff_wf d"
  shows "applicable (mud_clone d) U = applicable d U" "apply_diff (mud_clone d) U = apply_diff d U"
    "same_txouts (mud_clone d) d' = same_txouts d d'"
  using assms by (simp_all add: applicable_iff_fits diff_wf_clone clone_maps fun_eq_iff apply_diff_ap
      same_txouts_def)

lemma withDiff_composes_ex:
  assumes "applicable d1 U" "applicable d2 (apply_diff d1 U)" "same_txouts d1 d2"
  obtains d3 where "withDiff d1 d2 = Inr d3" "applicable d3 U"
    "apply_diff d3 U = apply_diff d2 (apply_diff d1 U)"
  using withDiffInPlace_composes [of "mud_clone d1" U d2] assms
  by (auto simp: clone_same_meaning applicable_wf withDiff_def)

lemma df_part_cases: "df_part x1 x2 y1 y2 = Some e \<Longrightarrow> y1 = Some e \<or> x1 = Some e"
  by (auto simp: df_part_def split: option.splits if_splits)

lemma diffFrom_same_txouts:
  assumes a: "applicable d1 U" "applicable d2 U" and s: "same_txouts d1 d2" and d: "diffFrom d1 d2 = Inr d3"
  shows "same_txouts d1 d3"
  unfolding same_txouts_def
proof (intro allI impI)
  fix k e1 e2
  assume e1: "added d1 k = Some e1 \<or> removed d1 k = Some e1"
    and e2: "added d3 k = Some e2 \<or> removed d3 k = Some e2"
    and eq: "blockDAAScore e1 = blockDAAScore e2"
  have "(added d1 k = Some e2 \<or> removed d1 k = Some e2) \<or> (added d2 k = Some e2 \<or> removed d2 k = Some e2)"
    using e2 diffFrom_Inr(2,3) [OF a [THEN applicable_wf] d] by (auto dest!: df_part_cases)
  then show "e1 = e2"
  proof
    assume "added d1 k = Some e2 \<or> removed d1 k = Some e2"
    moreover have "fits (added d1 k) (removed d1 k) (U k)" using a by (simp add: applicable_iff_fits)
    ultimately show ?thesis using e1 eq by (auto elim!: fits_cases)
  next
    assume "added d2 k = Some e2 \<or> removed d2 k = Some e2"
    then show ?thesis using s e1 eq unfolding same_txouts_def by blast
  qed
qed

text \<open>The differences of the witnesses: one coin is created, then spent for another one.\<close>

definition coin_outpoint :: "byte \<Rightarrow> DomainOutpoint" where
  "coin_outpoint b = \<lparr>op_TransactionID = replicate 32 b, op_Index = 0\<rparr>"

definition coin :: "u64 \<Rightarrow> u64 \<Rightarrow> UTXOEntry" where
  "coin v score = NewUTXOEntry v \<lparr>spk_Script = [0x51], spk_Version = 0\<rparr> False score"

definition diff_a :: mutableUTXODiff where
  "diff_a = \<lparr>toAdd = [(coin_outpoint 1, coin 5 10)], toRemove = []\<rparr>"

definition diff_b :: mutableUTXODiff where
  "diff_b = \<lparr>toAdd = [(coin_outpoint 2, coin 4 11)], toRemove = [(coin_outpoint 1, coin 5 10)]\<rparr>"

definition diff_c :: mutableUTXODiff where
  "diff_c = \<lparr>toAdd = [(coin_outpoint 2, coin 4 11)], toRemove = []\<rparr>"

lemma coin_outpoint_inj [simp]: "coin_outpoint a = coin_outpoint b \<longleftrightarrow> a = b"
  by (simp add: coin_outpoint_def)

lemma coin_score [simp]: "blockDAAScore (coin v s) = s"
  by (simp add: coin_def NewUTXOEntry_def)

lemma diff_abc_ok:
  "applicable diff_a Map.empty" "applicable diff_b (apply_diff diff_a Map.empty)"
  "applicable diff_c Map.empty" "same_txouts diff_a diff_b" "same_txouts diff_a diff_c"
  by (auto simp: applicable_iff_fits apply_diff_ap diff_a_def diff_b_def diff_c_def diff_wf_def
      same_txouts_def split: if_splits)

text \<open>
  C6: \<^verbatim>\<open>withDiff\<close> is composition.  When \<open>d1\<close> is a difference from the UTXO set \<open>U\<close> and \<open>d2\<close> one
  from the set it leads to, \<open>withDiff d1 d2\<close> returns no error, and its value is a difference from
  \<open>U\<close> that leads where \<open>d1\<close> followed by \<open>d2\<close> leads.
\<close>

theorem withDiff_composes:
  assumes "applicable d1 U" "applicable d2 (apply_diff d1 U)" "same_txouts d1 d2"
  shows "\<exists>d3. withDiff d1 d2 = Inr d3 \<and> applicable d3 U \<and>
    apply_diff d3 U = apply_diff d2 (apply_diff d1 U)"
  using withDiff_composes_ex [OF assms] by blast

theorem withDiff_composes_witness:
  "\<exists>d3. withDiff diff_a diff_b = Inr d3 \<and> applicable d3 Map.empty \<and>
    apply_diff d3 Map.empty = apply_diff diff_b (apply_diff diff_a Map.empty)"
  using withDiff_composes [OF diff_abc_ok(1,2,4)] .

text \<open>
  C7: \<^verbatim>\<open>diffFrom\<close> is the difference of two differences.  When \<open>d1\<close> and \<open>d2\<close> are differences from
  one UTXO set \<open>U\<close>, \<open>diffFrom d1 d2\<close> returns no error, and its value is a difference from the set
  \<open>d1\<close> leads to that leads to the set \<open>d2\<close> leads to.
\<close>

theorem diffFrom_correct:
  assumes "applicable d1 U" "applicable d2 U" "same_txouts d1 d2"
  shows "\<exists>d3. diffFrom d1 d2 = Inr d3 \<and> applicable d3 (apply_diff d1 U) \<and>
    apply_diff d3 (apply_diff d1 U) = apply_diff d2 U"
  using diffFrom_correct_ex [OF assms] by blast

theorem diffFrom_correct_witness:
  "\<exists>d3. diffFrom diff_a diff_c = Inr d3 \<and> applicable d3 (apply_diff diff_a Map.empty) \<and>
    apply_diff d3 (apply_diff diff_a Map.empty) = apply_diff diff_c Map.empty"
  using diffFrom_correct [OF diff_abc_ok(1,3,5)] .

text \<open>
  C27: \<^verbatim>\<open>diffFrom\<close> and \<^verbatim>\<open>withDiff\<close> are inverse: taking the difference from \<open>d1\<close> to \<open>d2\<close> and
  composing \<open>d1\<close> with it gives back \<open>d2\<close>, as maps, without an error on the way.
\<close>

theorem withDiff_diffFrom_roundtrip:
  assumes a: "applicable d1 U" "applicable d2 U" and s: "same_txouts d1 d2"
  shows "\<exists>d3 d4. diffFrom d1 d2 = Inr d3 \<and> withDiff d1 d3 = Inr d4 \<and>
    added d4 = added d2 \<and> removed d4 = removed d2"
proof -
  obtain d3 where d3: "diffFrom d1 d2 = Inr d3" "applicable d3 (apply_diff d1 U)"
    "apply_diff d3 (apply_diff d1 U) = apply_diff d2 U"
    using diffFrom_correct_ex [OF a s] .
  obtain d4 where d4: "withDiff d1 d3 = Inr d4" "applicable d4 U"
    "apply_diff d4 U = apply_diff d3 (apply_diff d1 U)"
    using withDiff_composes_ex [OF a(1) d3(2) diffFrom_same_txouts [OF a s d3(1)]] .
  show ?thesis using diff_unique [OF d4(2) a(2)] d3 d4 by auto
qed

theorem withDiff_diffFrom_roundtrip_witness:
  "\<exists>d3 d4. diffFrom diff_a diff_c = Inr d3 \<and> withDiff diff_a d3 = Inr d4 \<and>
    added d4 = added diff_c \<and> removed d4 = removed diff_c"
  using withDiff_diffFrom_roundtrip [OF diff_abc_ok(1,3,5)] .

text \<open>
  C28: \<^verbatim>\<open>Reversed\<close> undoes a difference: it is a difference from the set the difference leads to,
  and leads back to the set the difference starts from.
\<close>

theorem Reversed_inverse:
  assumes "applicable d U"
  shows "applicable (Reversed d) (apply_diff d U) \<and> apply_diff (Reversed d) (apply_diff d U) = U"
  using Reversed_undoes [OF assms] by simp

theorem Reversed_inverse_witness:
  "applicable (Reversed diff_a) (apply_diff diff_a Map.empty) \<and>
   apply_diff (Reversed diff_a) (apply_diff diff_a Map.empty) = Map.empty"
  using Reversed_inverse [OF diff_abc_ok(1)] .

text \<open>
  C8: \<^verbatim>\<open>AddTransaction\<close> refines the effect of a transaction on a UTXO set.  When every input is
  populated with the entry it spends, no two inputs spend one outpoint, the created outpoints are
  new, and an entry the base set has at a created outpoint with the same score is the created
  one, then the call succeeds, and the new difference leads to the set in which the spent
  outpoints are gone and each output is present under its index.
\<close>

theorem AddTransaction_effect:
  assumes "applicable d U" "distinct (map PreviousOutpoint (Inputs tx))"
    "\<And>i. i \<in> set (Inputs tx) \<Longrightarrow>
       in_UTXOEntry i \<noteq> None \<and> apply_diff d U (PreviousOutpoint i) = in_UTXOEntry i"
    "length (Outputs tx) \<le> 2 ^ 32"
    "\<And>k. tx_creates tx txid k \<Longrightarrow> apply_diff d U k = None"
    "\<And>k r. tx_creates tx txid k \<Longrightarrow> U k = Some r \<Longrightarrow> blockDAAScore r = score \<Longrightarrow>
       r = tx_entry tx score (unat (op_Index k))"
  shows "\<exists>d'. AddTransaction d tx txid score = (d', None) \<and> applicable d' U \<and>
    apply_diff d' U = tx_effect tx txid score (apply_diff d U)"
  using AddTransaction_refines [OF assms] .

definition spending_tx :: DomainTransaction where
  "spending_tx = \<lparr>tx_Version = 0,
     Inputs = [\<lparr>PreviousOutpoint = coin_outpoint 1, SignatureScript = [], Sequence = 0,
                in_UTXOEntry = Some (coin 5 10)\<rparr>],
     Outputs = [\<lparr>out_Value = 4, out_ScriptPublicKey = \<lparr>spk_Script = [0x51], spk_Version = 0\<rparr>\<rparr>],
     LockTime = 0, tx_SubnetworkID = SubnetworkIDNative, Gas = 0, Payload = [], Fee = 1, Mass = 1,
     tx_ID = None\<rparr>"

theorem AddTransaction_effect_witness:
  "\<exists>d'. AddTransaction diff_a spending_tx (replicate 32 2) 11 = (d', None) \<and>
     applicable d' Map.empty \<and>
     apply_diff d' Map.empty = tx_effect spending_tx (replicate 32 2) 11 (apply_diff diff_a Map.empty)"
  by (rule AddTransaction_effect [OF diff_abc_ok(1)])
    (auto simp: spending_tx_def tx_creates_def apply_diff_ap diff_a_def coin_outpoint_def)

text \<open>
  C29: The errors of \<^verbatim>\<open>withDiffInPlace\<close>: it fails exactly when some outpoint is removed by both
  differences and the first one does not add it with the score the second one removes, or is
  added by both and the second one does not remove it with the score the first one adds.
\<close>

theorem withDiffInPlace_errors:
  assumes "diff_wf d1" "diff_wf d2"
  shows "(\<exists>e. withDiffInPlace d1 d2 = Inl e) \<longleftrightarrow>
    (\<exists>k r e. removed d2 k = Some r \<and> removed d1 k = Some e \<and> \<not> has_score (added d1) k (blockDAAScore r)) \<or>
    (\<exists>k a e. added d2 k = Some a \<and> added d1 k = Some e \<and> \<not> has_score (removed d2) k (blockDAAScore e))"
proof -
  have "(\<exists>e. withDiffInPlace d1 d2 = Inl e) \<longleftrightarrow> \<not> (\<exists>d3. withDiffInPlace d1 d2 = Inr d3)"
    by (cases "withDiffInPlace d1 d2") auto
  then show ?thesis unfolding withDiffInPlace_succeeds_iff [OF assms] by blast
qed

theorem withDiffInPlace_errors_witness: "\<exists>e. withDiffInPlace diff_a diff_a = Inl e"
proof -
  have "diff_wf diff_a" by (simp add: diff_a_def diff_wf_def)
  from withDiffInPlace_errors [OF this this] show ?thesis
    by (simp add: diff_a_def has_score_def)
qed

end
