(* ===== verification/Little_Endian.thy ===== *)
theory Little_Endian
  imports Prelude
begin

text \<open>
  Little-endian byte strings.  \<open>le_val\<close> is the number a byte string stands for, \<open>put_le k\<close> the
  \<open>k\<close> low bytes of a word and \<open>get_le\<close> the word of a byte string, as \<^verbatim>\<open>encoding/binary\<close> computes
  them.
\<close>

fun le_val :: "byte list \<Rightarrow> int" where
  "le_val [] = 0"
| "le_val (b # bs) = uint b + 256 * le_val bs"

lemma le_val_nonneg [simp]: "0 \<le> le_val v"
  by (induction v) auto

lemma le_val_bound: "le_val v < 256 ^ length v"
proof (induction v)
  case (Cons b v)
  then have "le_val v + 1 \<le> 256 ^ length v" by linarith
  then have "256 * (le_val v + 1) \<le> 256 * 256 ^ length v" by (intro mult_left_mono) simp_all
  moreover have "uint b < 256" using uint_lt2p [of b] by simp
  ultimately show ?case by simp
qed simp

lemma le_val_append: "le_val (v @ w) = le_val v + 256 ^ length v * le_val w"
  by (induction v) (auto simp: algebra_simps)

lemma le_val_Cons_or: "le_val (b # v) = uint b OR push_bit 8 (le_val v)"
proof -
  have "bit (uint b) n \<Longrightarrow> n < 8" for n using bit_uint_iff [of b n] by simp
  then have "uint b + push_bit 8 (le_val v) = uint b OR push_bit 8 (le_val v)"
    by (intro disjunctive_add) (auto simp: bit_push_bit_iff dest!: leD)
  then show ?thesis by (simp add: push_bit_eq_mult)
qed

definition put_le :: "nat \<Rightarrow> 'a::len word \<Rightarrow> byte list" where
  "put_le k w = map (\<lambda>i. ucast (drop_bit (8 * i) w)) [0..<k]"

definition get_le :: "byte list \<Rightarrow> 'a::len word" where
  "get_le bs = word_of_int (le_val bs)"

lemma length_put_le [simp]: "length (put_le k w) = k"
  by (simp add: put_le_def)

lemma put_le_Suc: "put_le (Suc k) w = ucast w # put_le k (drop_bit 8 w)"
  by (simp add: put_le_def upt_rec [of 0] map_Suc_upt [symmetric] o_def drop_bit_drop_bit
      add.commute del: upt_Suc)

lemma le_val_put_le: "le_val (put_le k w) = take_bit (8 * k) (uint w)"
proof (induction k arbitrary: w)
  case 0
  then show ?case by (simp add: put_le_def)
next
  case (Suc k)
  have "le_val (put_le (Suc k) w) = uint (ucast w :: byte) + 256 * take_bit (8 * k) (uint (drop_bit 8 w))"
    by (simp add: put_le_Suc Suc)
  also have "uint (ucast w :: byte) = take_bit 8 (uint w)" by (simp add: unsigned_ucast_eq)
  also have "uint (drop_bit 8 w) = drop_bit 8 (uint w)"
    using take_bit_int_eq_self [OF uint_ge_0 uint_lt2p, of w] by (simp add: unsigned_drop_bit_eq)
  also have "take_bit 8 (uint w) + 256 * take_bit (8 * k) (drop_bit 8 (uint w)) = take_bit (8 * Suc k) (uint w)"
    using zmod_zmult2_eq [of "256 ^ k" "uint w" 256]
    by (simp add: take_bit_eq_mod drop_bit_eq_div power_add power_mult add.commute)
  finally show ?case .
qed

lemma get_le_put_le:
  assumes "LENGTH('a) \<le> 8 * k"
  shows "get_le (put_le k w) = (w :: 'a::len word)"
proof -
  have "take_bit (8 * k) (uint w) = uint w"
    using assms by (intro take_bit_int_eq_self) (auto intro: less_le_trans [OF uint_lt2p])
  then show ?thesis by (simp add: get_le_def le_val_put_le)
qed

lemma put_le_inj:
  "LENGTH('a) \<le> 8 * k \<Longrightarrow> put_le k w = put_le k v \<longleftrightarrow> w = (v :: 'a::len word)"
  by (metis get_le_put_le)

lemma le_val_inj: "length v = length w \<Longrightarrow> le_val v = le_val w \<Longrightarrow> v = w"
proof (induction v arbitrary: w)
  case (Cons b v)
  then obtain c u where w: "w = c # u" by (cases w) auto
  have "uint b = uint c \<and> x = y" if e: "uint b + 256 * x = uint c + 256 * y" for x y
  proof -
    have "(uint b + 256 * x) mod 256 = uint b" "(uint c + 256 * y) mod 256 = uint c"
      using uint_lt2p [of b] uint_lt2p [of c] by simp_all
    with e show ?thesis by simp
  qed
  note m = this
  from Cons.prems(2) have "uint b = uint c" "le_val v = le_val u"
    using m [of "le_val v" "le_val u"] by (simp_all add: w)
  with Cons.IH [of u] Cons.prems(1) show ?case by (simp add: w word_uint_eq_iff)
qed simp

lemma put_le_get_le:
  assumes "length bs = k" "8 * k = LENGTH('a::len)"
  shows "put_le k (get_le bs :: 'a word) = bs"
proof (rule le_val_inj)
  have "(256::int) ^ k = 2 ^ LENGTH('a)" by (simp add: power_mult flip: assms(2))
  with le_val_bound [of bs] assms(1) have l: "le_val bs < 2 ^ LENGTH('a)" by simp
  then have "uint (get_le bs :: 'a word) = le_val bs"
    by (simp add: get_le_def uint_word_of_int_eq take_bit_int_eq_self)
  with l show "le_val (put_le k (get_le bs :: 'a word)) = le_val bs"
    by (simp add: le_val_put_le assms(2) take_bit_int_eq_self)
qed (simp add: assms)

lemma sint_of_int_id:
  "- (2 ^ (LENGTH('a) - 1)) \<le> e \<Longrightarrow> e < 2 ^ (LENGTH('a) - 1) \<Longrightarrow> sint (word_of_int e :: 'a::len word) = e"
  by (simp add: sint_sbintrunc' signed_take_bit_int_eq_self)

end
