(* ===== verification/Serialization.thy ===== *)
theory Serialization
  imports Domain_Types Little_Endian
begin

text \<open>
  The binary serialization of primitive elements, \<^verbatim>\<open>util/binaryserializer\<close> and
  \<^verbatim>\<open>domain/consensus/utils/serialization/common.go\<close>.  A writer is the byte string written so
  far: the hash writers and buffers the consensus code passes never return an error.  A reader is
  the byte string that is left.  The free list of buffers has no effect on what is read or
  written.  A value of the Go type \<^verbatim>\<open>interface{}\<close> is a value of the datatype \<open>element\<close>.
\<close>

section \<open>Integers\<close>

datatype io_error = EOF | ErrUnexpectedEOF | ErrMalformed | ErrNoEncodingForType

definition ReadFull :: "nat \<Rightarrow> byte list \<Rightarrow> (io_error, byte list \<times> byte list) result" where
  "ReadFull n r =
    (if n \<le> length r then Inr (take n r, drop n r)
     else if r = [] then Inl (Err EOF)
     else Inl (Err ErrUnexpectedEOF))"

definition Uint8 :: "byte list \<Rightarrow> (io_error, byte \<times> byte list) result" where
  "Uint8 r = rbind (ReadFull 1 r) (\<lambda>(buf, r). Inr (buf ! 0, r))"

definition Uint16 :: "byte list \<Rightarrow> (io_error, u16 \<times> byte list) result" where
  "Uint16 r = rbind (ReadFull 2 r) (\<lambda>(buf, r). Inr (get_le buf, r))"

definition Uint32 :: "byte list \<Rightarrow> (io_error, u32 \<times> byte list) result" where
  "Uint32 r = rbind (ReadFull 4 r) (\<lambda>(buf, r). Inr (get_le buf, r))"

definition Uint64 :: "byte list \<Rightarrow> (io_error, u64 \<times> byte list) result" where
  "Uint64 r = rbind (ReadFull 8 r) (\<lambda>(buf, r). Inr (get_le buf, r))"

definition PutUint8 :: "byte list \<Rightarrow> byte \<Rightarrow> byte list" where
  "PutUint8 w val = w @ [val]"

definition PutUint16 :: "byte list \<Rightarrow> u16 \<Rightarrow> byte list" where
  "PutUint16 w val = w @ put_le 2 val"

definition PutUint32 :: "byte list \<Rightarrow> u32 \<Rightarrow> byte list" where
  "PutUint32 w val = w @ put_le 4 val"

definition PutUint64 :: "byte list \<Rightarrow> u64 \<Rightarrow> byte list" where
  "PutUint64 w val = w @ put_le 8 val"

section \<open>Elements\<close>

datatype element =
    EBytes "byte list"
  | EInt16 int
  | EUint16 u16
  | EInt32 int
  | EUint32 u32
  | EInt64 int
  | EUint64 u64
  | EUint8 byte
  | EBool bool
  | EHash DomainHash
  | ETransactionID DomainTransactionID
  | ESubnetworkID DomainSubnetworkID

fun WriteElement :: "byte list \<Rightarrow> element \<Rightarrow> byte list" where
  "WriteElement w (EBytes e) = PutUint64 w (of_nat (length e)) @ e"
| "WriteElement w (EInt16 e) = PutUint16 w (word_of_int e)"
| "WriteElement w (EUint16 e) = PutUint16 w e"
| "WriteElement w (EInt32 e) = PutUint32 w (word_of_int e)"
| "WriteElement w (EUint32 e) = PutUint32 w e"
| "WriteElement w (EInt64 e) = PutUint64 w (word_of_int e)"
| "WriteElement w (EUint64 e) = PutUint64 w e"
| "WriteElement w (EUint8 e) = PutUint8 w e"
| "WriteElement w (EBool e) = (if e then PutUint8 w 0x01 else PutUint8 w 0x00)"
| "WriteElement w (EHash e) = w @ e"
| "WriteElement w (ETransactionID e) = w @ e"
| "WriteElement w (ESubnetworkID e) = w @ e"

fun WriteElements :: "byte list \<Rightarrow> element list \<Rightarrow> byte list" where
  "WriteElements w [] = w"
| "WriteElements w (element # elements) = WriteElements (WriteElement w element) elements"

text \<open>The type of the pointer passed to \<^verbatim>\<open>ReadElement\<close> selects what is read.\<close>

datatype element_type =
    TInt16 | TUint16 | TInt32 | TUint32 | TInt64 | TUint64 | TUint8 | TBool | TOther

fun ReadElement :: "byte list \<Rightarrow> element_type \<Rightarrow> (io_error, element \<times> byte list) result" where
  "ReadElement r TInt16 = rbind (Uint16 r) (\<lambda>(rv, r). Inr (EInt16 (sint rv), r))"
| "ReadElement r TUint16 = rbind (Uint16 r) (\<lambda>(rv, r). Inr (EUint16 rv, r))"
| "ReadElement r TInt32 = rbind (Uint32 r) (\<lambda>(rv, r). Inr (EInt32 (sint rv), r))"
| "ReadElement r TUint32 = rbind (Uint32 r) (\<lambda>(rv, r). Inr (EUint32 rv, r))"
| "ReadElement r TInt64 = rbind (Uint64 r) (\<lambda>(rv, r). Inr (EInt64 (sint rv), r))"
| "ReadElement r TUint64 = rbind (Uint64 r) (\<lambda>(rv, r). Inr (EUint64 rv, r))"
| "ReadElement r TUint8 = rbind (Uint8 r) (\<lambda>(rv, r). Inr (EUint8 rv, r))"
| "ReadElement r TBool = rbind (Uint8 r) (\<lambda>(rv, r).
     if rv = 0x00 then Inr (EBool False, r)
     else if rv = 0x01 then Inr (EBool True, r)
     else Inl (Err ErrMalformed))"
| "ReadElement r TOther = Inl (Err ErrNoEncodingForType)"

fun ReadElements :: "byte list \<Rightarrow> element_type list \<Rightarrow> (io_error, element list \<times> byte list) result" where
  "ReadElements r [] = Inr ([], r)"
| "ReadElements r (t # ts) = rbind (ReadElement r t) (\<lambda>(e, r).
     rbind (ReadElements r ts) (\<lambda>(es, r). Inr (e # es, r)))"

section \<open>Writers append\<close>

lemma PutUint_append:
  "PutUint8 w b = w @ PutUint8 [] b" "PutUint16 w x = w @ PutUint16 [] x"
  "PutUint32 w y = w @ PutUint32 [] y" "PutUint64 w z = w @ PutUint64 [] z"
  by (simp_all add: PutUint8_def PutUint16_def PutUint32_def PutUint64_def)

lemma WriteElement_append: "WriteElement w e = w @ WriteElement [] e"
  by (cases e) (simp_all add: PutUint8_def PutUint16_def PutUint32_def PutUint64_def)

lemma WriteElements_append: "WriteElements w es = w @ WriteElements [] es"
proof (induction es arbitrary: w)
  case (Cons e es)
  then show ?case by (metis WriteElement_append WriteElements.simps(2) append_assoc)
qed simp

lemma WriteElements_concat: "WriteElements w es = w @ concat (map (WriteElement []) es)"
proof (induction es arbitrary: w)
  case (Cons e es)
  then show ?case by (simp add: WriteElement_append [of w])
qed simp

section \<open>Reading what was written\<close>

text \<open>
  The type of the pointer that \<^verbatim>\<open>ReadElement\<close> gets for an element of that type.  It has no case for byte
  strings, hashes and identifiers, which \<^verbatim>\<open>WriteElement\<close> does write.  A value of a signed type is in
  the range of the type.
\<close>

fun type_of :: "element \<Rightarrow> element_type" where
  "type_of (EInt16 _) = TInt16"
| "type_of (EUint16 _) = TUint16"
| "type_of (EInt32 _) = TInt32"
| "type_of (EUint32 _) = TUint32"
| "type_of (EInt64 _) = TInt64"
| "type_of (EUint64 _) = TUint64"
| "type_of (EUint8 _) = TUint8"
| "type_of (EBool _) = TBool"
| "type_of _ = TOther"

fun in_range :: "element \<Rightarrow> bool" where
  "in_range (EInt16 e) \<longleftrightarrow> - (2 ^ 15) \<le> e \<and> e < 2 ^ 15"
| "in_range (EInt32 e) \<longleftrightarrow> - (2 ^ 31) \<le> e \<and> e < 2 ^ 31"
| "in_range (EInt64 e) \<longleftrightarrow> - (2 ^ 63) \<le> e \<and> e < 2 ^ 63"
| "in_range e \<longleftrightarrow> True"

lemma ReadFull_put_le [simp]: "ReadFull k (put_le k w @ r) = Inr (put_le k w, r)"
  by (simp add: ReadFull_def)

lemma Uint_Put [simp]:
  "Uint8 (PutUint8 [] b @ r) = Inr (b, r)" "Uint16 (PutUint16 [] x @ r) = Inr (x, r)"
  "Uint32 (PutUint32 [] y @ r) = Inr (y, r)" "Uint64 (PutUint64 [] z @ r) = Inr (z, r)"
  by (simp_all add: Uint8_def Uint16_def Uint32_def Uint64_def ReadFull_def PutUint8_def
      PutUint16_def PutUint32_def PutUint64_def get_le_put_le)

lemma ReadElement_WriteElement:
  "in_range e \<Longrightarrow> ReadElement (WriteElement [] e @ r) (type_of e) =
     (if type_of e = TOther then Inl (Err ErrNoEncodingForType) else Inr (e, r))"
  by (cases e) (auto simp: sint_of_int_id)

lemma ReadElements_WriteElements:
  "(\<And>e. e \<in> set es \<Longrightarrow> in_range e) \<Longrightarrow>
   ReadElements (WriteElements [] es @ r) (map type_of es) =
     (if TOther \<in> type_of ` set es then Inl (Err ErrNoEncodingForType) else Inr (es, r))"
proof (induction es)
  case (Cons e es)
  have "WriteElements [] (e # es) @ r = WriteElement [] e @ (WriteElements [] es @ r)"
    using WriteElements_append [of "WriteElement [] e" es] by simp
  with Cons show ?case by (auto simp: ReadElement_WriteElement)
qed simp

section \<open>Prefix codes\<close>

text \<open>
  The contract between the serialization of a part and the serialization of a whole: the bytes of
  a part determine what is serialized of it (\<open>view\<close>) and where it ends.  A list of parts preceded
  by its length is then serialized the same way.
\<close>

locale prefix_code =
  fixes enc :: "'a \<Rightarrow> byte list" and ok :: "'a \<Rightarrow> bool" and view :: "'a \<Rightarrow> 'b"
  assumes prefix: "ok x \<Longrightarrow> ok y \<Longrightarrow> enc x @ r = enc y @ s \<Longrightarrow> view x = view y \<and> r = s"
begin

lemma concat_prefix:
  "length xs = length ys \<Longrightarrow> \<forall>x \<in> set xs. ok x \<Longrightarrow> \<forall>y \<in> set ys. ok y \<Longrightarrow>
   concat (map enc xs) @ r = concat (map enc ys) @ s \<Longrightarrow> map view xs = map view ys \<and> r = s"
proof (induction xs ys rule: list_induct2)
  case (Cons x xs y ys)
  have "enc x @ (concat (map enc xs) @ r) = enc y @ (concat (map enc ys) @ s)"
    using Cons.prems(3) by simp
  moreover have "ok x" "ok y" using Cons.prems(1,2) by simp_all
  ultimately have v: "view x = view y" and c: "concat (map enc xs) @ r = concat (map enc ys) @ s"
    using prefix by blast+
  have "map view xs = map view ys \<and> r = s"
    using Cons.prems(1,2) by (intro Cons.IH c) simp_all
  with v show ?case by simp
qed simp

lemma counted_prefix:
  assumes len: "length xs < 2 ^ 64" "length ys < 2 ^ 64"
    and ok: "\<forall>x \<in> set xs. ok x" "\<forall>y \<in> set ys. ok y"
    and eq: "put_le 8 (of_nat (length xs) :: u64) @ concat (map enc xs) @ r =
             put_le 8 (of_nat (length ys) :: u64) @ concat (map enc ys) @ s"
  shows "map view xs = map view ys \<and> r = s"
proof -
  have "put_le 8 (of_nat (length xs) :: u64) = put_le 8 (of_nat (length ys) :: u64)"
    and c: "concat (map enc xs) @ r = concat (map enc ys) @ s"
    using eq by simp_all
  then have "(of_nat (length xs) :: u64) = of_nat (length ys)" by (simp add: put_le_inj)
  then have "unat (of_nat (length xs) :: u64) = unat (of_nat (length ys) :: u64)" by simp
  then have "length xs = length ys" using len by (simp add: unat_of_nat take_bit_nat_eq_self)
  then show ?thesis by (rule concat_prefix [OF _ ok c])
qed

lemma concat_inj:
  assumes ne: "\<And>x. ok x \<Longrightarrow> enc x \<noteq> []"
  shows "\<forall>x \<in> set xs. ok x \<Longrightarrow> \<forall>y \<in> set ys. ok y \<Longrightarrow> concat (map enc xs) = concat (map enc ys) \<Longrightarrow>
    map view xs = map view ys"
proof (induction xs arbitrary: ys)
  case Nil
  then show ?case using ne by (cases ys) auto
next
  case (Cons x xs)
  then obtain y zs where ys: "ys = y # zs" using ne by (cases ys) auto
  have "ok x" "ok y" "enc x @ concat (map enc xs) = enc y @ concat (map enc zs)"
    using Cons.prems by (simp_all add: ys)
  then have "view x = view y" "concat (map enc xs) = concat (map enc zs)" using prefix by blast+
  moreover have "map view xs = map view zs"
    using Cons.prems calculation(2) by (intro Cons.IH) (simp_all add: ys)
  ultimately show ?case by (simp add: ys)
qed

end

lemma put_le_prefix:
  "LENGTH('a) \<le> 8 * k \<Longrightarrow> put_le k (x :: 'a::len word) @ r = put_le k y @ s \<longleftrightarrow> x = y \<and> r = s"
  by (auto simp: put_le_inj)

lemma fixed_prefix: "length x = length y \<Longrightarrow> x @ r = y @ s \<longleftrightarrow> x = y \<and> r = s"
  by simp

text \<open>Bytes, as elements of a list that is preceded by its length.\<close>

interpretation byte_code: prefix_code "\<lambda>b. [b]" "\<lambda>_. True" "\<lambda>b. b"
  by unfold_locales simp

lemma varbytes_prefix:
  assumes "length d < 2 ^ 64" "length e < 2 ^ 64"
  shows "put_le 8 (of_nat (length d) :: u64) @ d @ r = put_le 8 (of_nat (length e) :: u64) @ e @ s
    \<longleftrightarrow> d = e \<and> r = s"
proof -
  have c: "concat (map (\<lambda>b. [b]) x) = x" for x :: "byte list" by (induction x) auto
  have "d = e \<and> r = s"
    if "put_le 8 (of_nat (length d) :: u64) @ d @ r = put_le 8 (of_nat (length e) :: u64) @ e @ s"
    using byte_code.counted_prefix [OF assms, of r s] that unfolding c list.map_ident by simp
  then show ?thesis by blast
qed

text \<open>Hashes of the right length.\<close>

interpretation hash_code: prefix_code "\<lambda>h. h" hash_wf "\<lambda>h. h"
  by unfold_locales (simp add: hash_wf_def)

section \<open>Properties\<close>

text \<open>
  C36: Reading what \<^verbatim>\<open>WriteElements\<close> wrote, with the types that were written.  Integers and booleans are
  read back as they were and the rest of the input is left untouched.  \<^verbatim>\<open>WriteElement\<close> also writes byte
  strings, hashes, transaction IDs and subnetwork IDs, but \<^verbatim>\<open>ReadElement\<close> has no case for them: as soon as
  one of the elements is of such a type, \<^verbatim>\<open>ReadElements\<close> fails with \<^verbatim>\<open>errNoEncodingForType\<close>, whatever the
  other elements are.
\<close>

theorem WriteElements_roundtrip:
  assumes "\<forall>e \<in> set es. in_range e"
  shows "WriteElements w es = w @ WriteElements [] es
    \<and> ReadElements (WriteElements [] es @ r) (map type_of es) =
        (if TOther \<in> type_of ` set es then Inl (Err ErrNoEncodingForType) else Inr (es, r))"
  using assms ReadElements_WriteElements [of es r] WriteElements_append [of w es] by blast

theorem WriteElements_roundtrip_witness:
  "ReadElements (WriteElements [] [EUint16 258, EBool True, EInt64 (- 1)] @ [7]) [TUint16, TBool, TInt64] =
     Inr ([EUint16 258, EBool True, EInt64 (- 1)], [7])
   \<and> ReadElements (WriteElements [] [EUint16 258, EBytes [1, 2], EBool True] @ [7]) [TUint16, TOther, TBool] =
     Inl (Err ErrNoEncodingForType)"
  using WriteElements_roundtrip [of "[EUint16 258, EBool True, EInt64 (- 1)]" "[]" "[7]"]
    WriteElements_roundtrip [of "[EUint16 258, EBytes [1, 2], EBool True]" "[]" "[7]"] by simp

end
