(* ===== verification/Consensus_Hashing.thy ===== *)
theory Consensus_Hashing
  imports Serialization
begin

text \<open>
  Hashes of transactions, block headers and signatures:
  \<^verbatim>\<open>domain/consensus/utils/hashes\<close> and \<^verbatim>\<open>domain/consensus/utils/consensushashing\<close>.  The two hash
  functions are parameters: \<^verbatim>\<open>golang.org/x/crypto/blake2b\<close>, keyed with the name of a domain, and
  \<^verbatim>\<open>crypto/sha256\<close>.  Nothing is assumed of them; what a hash commits to is stated as
  ``equal hashes have equal preimages, or two different messages with one digest are known''.
\<close>

section \<open>Hash writers\<close>

record hash_functions =
  blake2b_256 :: "byte list \<Rightarrow> byte list \<Rightarrow> byte list"
  sha256_256 :: "byte list \<Rightarrow> byte list"

record HashWriter =
  hw_Sum :: "byte list \<Rightarrow> byte list"
  hw_written :: "byte list"

definition ascii :: "string \<Rightarrow> byte list" where
  "ascii s = map of_char s"

definition NewTransactionHashWriter :: "hash_functions \<Rightarrow> HashWriter" where
  "NewTransactionHashWriter H = \<lparr>hw_Sum = blake2b_256 H (ascii ''TransactionHash''), hw_written = []\<rparr>"

definition NewTransactionIDWriter :: "hash_functions \<Rightarrow> HashWriter" where
  "NewTransactionIDWriter H = \<lparr>hw_Sum = blake2b_256 H (ascii ''TransactionID''), hw_written = []\<rparr>"

definition NewTransactionSigningHashWriter :: "hash_functions \<Rightarrow> HashWriter" where
  "NewTransactionSigningHashWriter H =
     \<lparr>hw_Sum = blake2b_256 H (ascii ''TransactionSigningHash''), hw_written = []\<rparr>"

definition transactionSigningECDSADomainHash :: "hash_functions \<Rightarrow> byte list" where
  "transactionSigningECDSADomainHash H = sha256_256 H (ascii ''TransactionSigningHashECDSA'')"

definition InfallibleWrite :: "HashWriter \<Rightarrow> byte list \<Rightarrow> HashWriter" where
  "InfallibleWrite h p = h\<lparr>hw_written := hw_written h @ p\<rparr>"

definition NewTransactionSigningHashECDSAWriter :: "hash_functions \<Rightarrow> HashWriter" where
  "NewTransactionSigningHashECDSAWriter H =
     InfallibleWrite \<lparr>hw_Sum = sha256_256 H, hw_written = []\<rparr> (transactionSigningECDSADomainHash H)"

definition NewBlockHashWriter :: "hash_functions \<Rightarrow> HashWriter" where
  "NewBlockHashWriter H = \<lparr>hw_Sum = blake2b_256 H (ascii ''BlockHash''), hw_written = []\<rparr>"

definition NewPoWHashWriter :: "hash_functions \<Rightarrow> HashWriter" where
  "NewPoWHashWriter H = \<lparr>hw_Sum = blake2b_256 H (ascii ''ProofOfWorkHash''), hw_written = []\<rparr>"

definition NewMerkleBranchHashWriter :: "hash_functions \<Rightarrow> HashWriter" where
  "NewMerkleBranchHashWriter H = \<lparr>hw_Sum = blake2b_256 H (ascii ''MerkleBranchHash''), hw_written = []\<rparr>"

text \<open>The digest is copied into an array of 32 bytes that starts out as zeros.\<close>

definition copy32 :: "byte list \<Rightarrow> DomainHash" where
  "copy32 d = take DomainHashSize d @ replicate (DomainHashSize - length d) 0"

definition Finalize :: "HashWriter \<Rightarrow> DomainHash" where
  "Finalize h = copy32 (hw_Sum h (hw_written h))"

section \<open>Serialization of transactions and headers\<close>

type_synonym txEncoding = byte

definition txEncodingFull :: txEncoding where "txEncodingFull = 0"

definition txEncodingExcludeSignatureScript :: txEncoding where
  "txEncodingExcludeSignatureScript = 2"

definition writeVarBytes :: "byte list \<Rightarrow> byte list \<Rightarrow> byte list" where
  "writeVarBytes w data =
     (let dataLength = of_nat (length data)
      in WriteElement w (EUint64 dataLength) @ data)"

definition writeOutpoint :: "byte list \<Rightarrow> DomainOutpoint \<Rightarrow> byte list" where
  "writeOutpoint w outpoint = PutUint32 (w @ op_TransactionID outpoint) (op_Index outpoint)"

definition writeTransactionInput :: "byte list \<Rightarrow> DomainTransactionInput \<Rightarrow> txEncoding \<Rightarrow> byte list" where
  "writeTransactionInput w ti encodingFlags =
    (let w = writeOutpoint w (PreviousOutpoint ti);
         w = (if encodingFlags AND txEncodingExcludeSignatureScript \<noteq> txEncodingExcludeSignatureScript
              then writeVarBytes w (SignatureScript ti)
              else writeVarBytes w [])
     in PutUint64 w (Sequence ti))"

definition writeTxOut :: "byte list \<Rightarrow> DomainTransactionOutput \<Rightarrow> byte list" where
  "writeTxOut w out =
    (let w = PutUint64 w (out_Value out);
         w = PutUint16 w (spk_Version (out_ScriptPublicKey out))
     in writeVarBytes w (spk_Script (out_ScriptPublicKey out)))"

fun writeInputs :: "byte list \<Rightarrow> DomainTransactionInput list \<Rightarrow> txEncoding \<Rightarrow> byte list" where
  "writeInputs w [] encodingFlags = w"
| "writeInputs w (ti # rest) encodingFlags =
     writeInputs (writeTransactionInput w ti encodingFlags) rest encodingFlags"

fun writeOutputs :: "byte list \<Rightarrow> DomainTransactionOutput list \<Rightarrow> byte list" where
  "writeOutputs w [] = w"
| "writeOutputs w (out # rest) = writeOutputs (writeTxOut w out) rest"

definition serializeTransaction :: "byte list \<Rightarrow> DomainTransaction \<Rightarrow> txEncoding \<Rightarrow> byte list" where
  "serializeTransaction w tx encodingFlags =
    (let w = PutUint16 w (tx_Version tx);
         w = WriteElement w (EUint64 (of_nat (length (Inputs tx))));
         w = writeInputs w (Inputs tx) encodingFlags;
         w = WriteElement w (EUint64 (of_nat (length (Outputs tx))));
         w = writeOutputs w (Outputs tx);
         w = PutUint64 w (LockTime tx);
         w = w @ tx_SubnetworkID tx;
         w = PutUint64 w (Gas tx)
     in writeVarBytes w (Payload tx))"

definition TransactionHash :: "hash_functions \<Rightarrow> DomainTransaction \<Rightarrow> DomainHash" where
  "TransactionHash H tx =
    (let writer = NewTransactionHashWriter H
     in Finalize (InfallibleWrite writer (serializeTransaction [] tx txEncodingFull)))"

text \<open>\<^verbatim>\<open>TransactionID\<close> caches the ID in the transaction.\<close>

definition TransactionID ::
  "hash_functions \<Rightarrow> DomainTransaction \<Rightarrow> DomainTransactionID \<times> DomainTransaction" where
  "TransactionID H tx =
    (case tx_ID tx of
       Some tid \<Rightarrow> (tid, tx)
     | None \<Rightarrow>
       let encodingFlags = (if \<not> IsCoinBase tx then txEncodingExcludeSignatureScript else txEncodingFull);
           writer = NewTransactionIDWriter H;
           transactionID = Finalize (InfallibleWrite writer (serializeTransaction [] tx encodingFlags))
       in (transactionID, tx\<lparr>tx_ID := Some transactionID\<rparr>))"

record BlockHeader =
  bh_version :: u16
  parentHashes :: "DomainHash list"
  hashMerkleRoot :: DomainHash
  acceptedIDMerkleRoot :: DomainHash
  utxoCommitment :: DomainHash
  timeInMilliseconds :: int
  bits :: u32
  nonce :: u64

fun writeHashes :: "byte list \<Rightarrow> DomainHash list \<Rightarrow> byte list" where
  "writeHashes w [] = w"
| "writeHashes w (hash # rest) = writeHashes (WriteElement w (EHash hash)) rest"

definition serializeHeader :: "byte list \<Rightarrow> BlockHeader \<Rightarrow> byte list" where
  "serializeHeader w header =
    (let timestamp = timeInMilliseconds header;
         numParents = length (parentHashes header);
         w = WriteElements w [EUint16 (bh_version header), EUint64 (of_nat numParents)];
         w = writeHashes w (parentHashes header)
     in WriteElements w [EHash (hashMerkleRoot header), EHash (acceptedIDMerkleRoot header),
          EHash (utxoCommitment header), EInt64 timestamp, EUint32 (bits header),
          EUint64 (nonce header)])"

definition HeaderHash :: "hash_functions \<Rightarrow> BlockHeader \<Rightarrow> DomainHash" where
  "HeaderHash H header =
     Finalize (InfallibleWrite (NewBlockHashWriter H) (serializeHeader [] header))"

section \<open>What a serialization determines\<close>

named_theorems ser_simps "serializations as concatenations"

lemma writeVarBytes_eq [ser_simps]:
  "writeVarBytes w d = w @ put_le 8 (of_nat (length d) :: u64) @ d"
  by (simp add: writeVarBytes_def PutUint64_def)

lemma writeOutpoint_eq [ser_simps]:
  "writeOutpoint w o' = w @ op_TransactionID o' @ put_le 4 (op_Index o')"
  by (simp add: writeOutpoint_def PutUint32_def)

definition seen_script :: "txEncoding \<Rightarrow> DomainTransactionInput \<Rightarrow> byte list" where
  "seen_script fl ti =
     (if fl AND txEncodingExcludeSignatureScript \<noteq> txEncodingExcludeSignatureScript
      then SignatureScript ti else [])"

lemma writeTransactionInput_eq [ser_simps]:
  "writeTransactionInput w ti fl =
     w @ op_TransactionID (PreviousOutpoint ti) @ put_le 4 (op_Index (PreviousOutpoint ti)) @
     put_le 8 (of_nat (length (seen_script fl ti)) :: u64) @ seen_script fl ti @ put_le 8 (Sequence ti)"
  by (simp add: writeTransactionInput_def seen_script_def ser_simps PutUint64_def Let_def)

lemma writeTxOut_eq [ser_simps]:
  "writeTxOut w out = w @ put_le 8 (out_Value out) @ put_le 2 (spk_Version (out_ScriptPublicKey out)) @
     put_le 8 (of_nat (length (spk_Script (out_ScriptPublicKey out))) :: u64) @
     spk_Script (out_ScriptPublicKey out)"
  by (simp add: writeTxOut_def ser_simps PutUint64_def PutUint16_def Let_def)

lemma writeInputs_eq [ser_simps]:
  "writeInputs w ins fl = w @ concat (map (\<lambda>ti. writeTransactionInput [] ti fl) ins)"
  by (induction w ins fl rule: writeInputs.induct) (simp_all add: writeTransactionInput_eq)

lemma writeOutputs_eq [ser_simps]:
  "writeOutputs w outs = w @ concat (map (writeTxOut []) outs)"
  by (induction w outs rule: writeOutputs.induct) (simp_all add: writeTxOut_eq)

lemma serializeTransaction_eq:
  "serializeTransaction w tx fl =
     w @ put_le 2 (tx_Version tx) @
     put_le 8 (of_nat (length (Inputs tx)) :: u64) @ concat (map (\<lambda>ti. writeTransactionInput [] ti fl) (Inputs tx)) @
     put_le 8 (of_nat (length (Outputs tx)) :: u64) @ concat (map (writeTxOut []) (Outputs tx)) @
     put_le 8 (LockTime tx) @ tx_SubnetworkID tx @ put_le 8 (Gas tx) @
     put_le 8 (of_nat (length (Payload tx)) :: u64) @ Payload tx"
  by (simp add: serializeTransaction_def writeInputs_eq writeOutputs_eq writeVarBytes_eq
      PutUint64_def PutUint16_def Let_def)

text \<open>
  The sizes a transaction in memory has: identifiers have the length of their arrays and slices
  are shorter than \<open>2 ^ 64\<close>.
\<close>

definition input_ok :: "DomainTransactionInput \<Rightarrow> bool" where
  "input_ok ti \<longleftrightarrow> hash_wf (op_TransactionID (PreviousOutpoint ti)) \<and> length (SignatureScript ti) < 2 ^ 64"

definition output_ok :: "DomainTransactionOutput \<Rightarrow> bool" where
  "output_ok out \<longleftrightarrow> length (spk_Script (out_ScriptPublicKey out)) < 2 ^ 64"

definition tx_ok :: "DomainTransaction \<Rightarrow> bool" where
  "tx_ok tx \<longleftrightarrow> length (Inputs tx) < 2 ^ 64 \<and> length (Outputs tx) < 2 ^ 64 \<and>
     length (Payload tx) < 2 ^ 64 \<and> length (tx_SubnetworkID tx) = DomainSubnetworkIDSize \<and>
     (\<forall>ti \<in> set (Inputs tx). input_ok ti) \<and> (\<forall>out \<in> set (Outputs tx). output_ok out)"

definition input_view :: "txEncoding \<Rightarrow> DomainTransactionInput \<Rightarrow> DomainOutpoint \<times> byte list \<times> u64" where
  "input_view fl ti = (PreviousOutpoint ti, seen_script fl ti, Sequence ti)"

lemma unat_of_nat64: "n < 2 ^ 64 \<Longrightarrow> unat (of_nat n :: u64) = n"
  by (simp add: unat_of_nat take_bit_nat_eq_self)

lemma len64_eq:
  "length d < 2 ^ 64 \<Longrightarrow> length e < 2 ^ 64 \<Longrightarrow>
   (of_nat (length d) :: u64) = of_nat (length e) \<longleftrightarrow> length d = length e"
  by (metis length_replicate unat_of_nat64)

lemma outpoint_eqI:
  "op_TransactionID a = op_TransactionID b \<Longrightarrow> op_Index a = op_Index b \<Longrightarrow> a = (b :: DomainOutpoint)"
  by (cases a; cases b) simp

lemma output_eqI:
  "out_Value a = out_Value b \<Longrightarrow>
   spk_Script (out_ScriptPublicKey a) = spk_Script (out_ScriptPublicKey b) \<Longrightarrow>
   spk_Version (out_ScriptPublicKey a) = spk_Version (out_ScriptPublicKey b) \<Longrightarrow>
   a = (b :: DomainTransactionOutput)"
  by (cases a; cases b; cases "out_ScriptPublicKey a"; cases "out_ScriptPublicKey b") simp

interpretation input_code: prefix_code "\<lambda>ti. writeTransactionInput [] ti fl" input_ok "input_view fl" for fl
proof unfold_locales
  fix x y :: DomainTransactionInput and r s
  assume ok: "input_ok x" "input_ok y"
    and eq: "writeTransactionInput [] x fl @ r = writeTransactionInput [] y fl @ s"
  have len: "length (seen_script fl x) < 2 ^ 64" "length (seen_script fl y) < 2 ^ 64"
    using ok by (auto simp: input_ok_def seen_script_def)
  have "length (op_TransactionID (PreviousOutpoint x)) = length (op_TransactionID (PreviousOutpoint y))"
    using ok by (simp add: input_ok_def hash_wf_def)
  with eq have "op_TransactionID (PreviousOutpoint x) = op_TransactionID (PreviousOutpoint y)"
    and "put_le 4 (op_Index (PreviousOutpoint x)) @ put_le 8 (of_nat (length (seen_script fl x)) :: u64) @
      seen_script fl x @ put_le 8 (Sequence x) @ r =
      put_le 4 (op_Index (PreviousOutpoint y)) @ put_le 8 (of_nat (length (seen_script fl y)) :: u64) @
      seen_script fl y @ put_le 8 (Sequence y) @ s"
    by (simp_all add: writeTransactionInput_eq)
  then show "input_view fl x = input_view fl y \<and> r = s"
    using len by (auto simp: put_le_inj len64_eq input_view_def intro!: outpoint_eqI)
qed

interpretation output_code: prefix_code "writeTxOut []" output_ok "\<lambda>out. out"
proof unfold_locales
  fix x y :: DomainTransactionOutput and r s
  assume ok: "output_ok x" "output_ok y" and eq: "writeTxOut [] x @ r = writeTxOut [] y @ s"
  then show "x = y \<and> r = s"
    by (auto simp: writeTxOut_eq put_le_inj len64_eq output_ok_def intro!: output_eqI)
qed


text \<open>The fields of a transaction that its serialization with some flags shows.\<close>

definition tx_view :: "txEncoding \<Rightarrow> DomainTransaction \<Rightarrow>
  u16 \<times> (DomainOutpoint \<times> byte list \<times> u64) list \<times> DomainTransactionOutput list \<times> u64 \<times>
  DomainSubnetworkID \<times> u64 \<times> byte list" where
  "tx_view fl tx = (tx_Version tx, map (input_view fl) (Inputs tx), Outputs tx, LockTime tx,
     tx_SubnetworkID tx, Gas tx, Payload tx)"

lemma serializeTransaction_prefix:
  assumes ok: "tx_ok x" "tx_ok y"
    and eq: "serializeTransaction [] x fl @ r = serializeTransaction [] y fl @ s"
  shows "tx_view fl x = tx_view fl y \<and> r = s"
proof -
  let ?out = "\<lambda>tx r. put_le 8 (LockTime tx) @ tx_SubnetworkID tx @ put_le 8 (Gas tx) @
     put_le 8 (of_nat (length (Payload tx)) :: u64) @ Payload tx @ r"
  let ?in = "\<lambda>tx r. put_le 8 (of_nat (length (Outputs tx)) :: u64) @ concat (map (writeTxOut []) (Outputs tx)) @ ?out tx r"
  have v: "tx_Version x = tx_Version y" and
    "put_le 8 (of_nat (length (Inputs x)) :: u64) @ concat (map (\<lambda>ti. writeTransactionInput [] ti fl) (Inputs x)) @ ?in x r =
     put_le 8 (of_nat (length (Inputs y)) :: u64) @ concat (map (\<lambda>ti. writeTransactionInput [] ti fl) (Inputs y)) @ ?in y s"
    using eq by (simp_all add: serializeTransaction_eq put_le_inj)
  from input_code.counted_prefix [OF _ _ _ _ this(2)] ok
  have i: "map (input_view fl) (Inputs x) = map (input_view fl) (Inputs y)" and "?in x r = ?in y s"
    by (simp_all add: tx_ok_def)
  from output_code.counted_prefix [OF _ _ _ _ this(2)] ok
  have o': "Outputs x = Outputs y" and "?out x r = ?out y s" by (simp_all add: tx_ok_def)
  from this(2) ok show ?thesis
    by (auto simp: tx_ok_def tx_view_def put_le_inj len64_eq v i o')
qed

lemma serializeTransaction_view:
  "tx_view fl x = tx_view fl' y \<Longrightarrow> serializeTransaction w x fl = serializeTransaction w y fl'"
proof -
  assume v: "tx_view fl x = tx_view fl' y"
  let ?w = "\<lambda>(o', sc, sq). op_TransactionID o' @ put_le 4 (op_Index o') @
     put_le 8 (of_nat (length sc) :: u64) @ sc @ put_le 8 sq"
  have *: "(\<lambda>ti. writeTransactionInput [] ti f) = ?w \<circ> input_view f" for f
    by (simp add: fun_eq_iff writeTransactionInput_eq input_view_def)
  have m: "map (input_view fl) (Inputs x) = map (input_view fl') (Inputs y)"
    using v by (simp add: tx_view_def)
  then have "map (\<lambda>ti. writeTransactionInput [] ti fl) (Inputs x) =
      map (\<lambda>ti. writeTransactionInput [] ti fl') (Inputs y)"
    unfolding * map_map [symmetric] by simp
  moreover have "length (Inputs x) = length (Inputs y)" using m by (rule map_eq_imp_length_eq)
  ultimately show ?thesis using v unfolding tx_view_def by (simp add: serializeTransaction_eq)
qed

text \<open>The fields an ID shows: all of a coinbase, all but the signature scripts of other transactions.\<close>

definition id_flags :: "DomainTransaction \<Rightarrow> txEncoding" where
  "id_flags tx = (if \<not> IsCoinBase tx then txEncodingExcludeSignatureScript else txEncodingFull)"

lemma drop_scripts:
  assumes "tx_ok y"
  obtains z where "tx_ok z" "tx_view txEncodingFull z = tx_view txEncodingExcludeSignatureScript y"
proof
  let ?z = "y\<lparr>Inputs := map (\<lambda>ti. ti\<lparr>SignatureScript := []\<rparr>) (Inputs y)\<rparr>"
  show "tx_ok ?z" using assms by (auto simp: tx_ok_def input_ok_def)
  show "tx_view txEncodingFull ?z = tx_view txEncodingExcludeSignatureScript y"
    by (simp add: tx_view_def input_view_def seen_script_def txEncodingFull_def
        txEncodingExcludeSignatureScript_def o_def)
qed

lemma id_serialization:
  assumes ok: "tx_ok x" "tx_ok y"
    and eq: "serializeTransaction [] x (id_flags x) = serializeTransaction [] y (id_flags y)"
  shows "tx_view (id_flags x) x = tx_view (id_flags y) y"
proof -
  have full: "\<exists>z. tx_ok z \<and> tx_view txEncodingFull z = tx_view (id_flags t) t" if "tx_ok t" for t
    using drop_scripts [OF that] that by (auto simp: id_flags_def)
  from full [OF ok(1)] full [OF ok(2)] obtain u v where
    u: "tx_ok u" "tx_view txEncodingFull u = tx_view (id_flags x) x" and
    v: "tx_ok v" "tx_view txEncodingFull v = tx_view (id_flags y) y" by blast
  have "serializeTransaction [] u txEncodingFull = serializeTransaction [] v txEncodingFull"
    using serializeTransaction_view [OF u(2)] serializeTransaction_view [OF v(2)] eq by simp
  then have "tx_view txEncodingFull u = tx_view txEncodingFull v"
    using serializeTransaction_prefix [OF u(1) v(1), of txEncodingFull "[]" "[]"] by simp
  with u v show ?thesis by simp
qed

lemma header_prefix_lists:
  "writeHashes w hs = w @ concat hs"
  by (induction w hs rule: writeHashes.induct) simp_all

definition header_ok :: "BlockHeader \<Rightarrow> bool" where
  "header_ok h \<longleftrightarrow> length (parentHashes h) < 2 ^ 64 \<and> (\<forall>p \<in> set (parentHashes h). hash_wf p) \<and>
     hash_wf (hashMerkleRoot h) \<and> hash_wf (acceptedIDMerkleRoot h) \<and> hash_wf (utxoCommitment h) \<and>
     - (2 ^ 63) \<le> timeInMilliseconds h \<and> timeInMilliseconds h < 2 ^ 63"

lemma serializeHeader_eq:
  "serializeHeader [] h = put_le 2 (bh_version h) @ put_le 8 (of_nat (length (parentHashes h)) :: u64) @
     concat (map (\<lambda>h. h) (parentHashes h)) @ hashMerkleRoot h @ acceptedIDMerkleRoot h @ utxoCommitment h @
     put_le 8 (word_of_int (timeInMilliseconds h) :: u64) @ put_le 4 (bits h) @ put_le 8 (nonce h)"
  by (simp add: serializeHeader_def header_prefix_lists PutUint16_def PutUint64_def PutUint32_def Let_def)

lemma word_of_int_eq64:
  assumes "- (2 ^ 63) \<le> a" "a < 2 ^ 63" "- (2 ^ 63) \<le> b" "b < 2 ^ 63"
  shows "(word_of_int a :: u64) = word_of_int b \<longleftrightarrow> a = b"
proof -
  have "sint (word_of_int c :: u64) = c" if "- (2 ^ 63) \<le> c" "c < 2 ^ 63" for c
    by (rule sint_of_int_id) (use that in simp_all)
  with assms show ?thesis by metis
qed

lemma serializeHeader_inj:
  assumes ok: "header_ok x" "header_ok y" and eq: "serializeHeader [] x = serializeHeader [] y"
  shows "x = y"
proof -
  let ?t = "\<lambda>h. hashMerkleRoot h @ acceptedIDMerkleRoot h @ utxoCommitment h @
     put_le 8 (word_of_int (timeInMilliseconds h) :: u64) @ put_le 4 (bits h) @ put_le 8 (nonce h)"
  have v: "bh_version x = bh_version y" and
    "put_le 8 (of_nat (length (parentHashes x)) :: u64) @ concat (map (\<lambda>h. h) (parentHashes x)) @ ?t x =
     put_le 8 (of_nat (length (parentHashes y)) :: u64) @ concat (map (\<lambda>h. h) (parentHashes y)) @ ?t y"
    using eq by (simp_all add: serializeHeader_eq put_le_inj)
  from hash_code.counted_prefix [OF _ _ _ _ this(2)] ok
  have p: "parentHashes x = parentHashes y" and "?t x = ?t y" by (simp_all add: header_ok_def)
  from this(2) ok v p show ?thesis
    by (cases x; cases y) (auto simp: header_ok_def hash_wf_def put_le_inj word_of_int_eq64)
qed

text \<open>Two different messages with one digest.\<close>

definition collision :: "(byte list \<Rightarrow> byte list) \<Rightarrow> byte list \<Rightarrow> byte list \<Rightarrow> bool" where
  "collision f m1 m2 \<longleftrightarrow> m1 \<noteq> m2 \<and> copy32 (f m1) = copy32 (f m2)"

lemma hash_eq_iff: "copy32 (f m1) = copy32 (f m2) \<longleftrightarrow> m1 = m2 \<or> collision f m1 m2"
  by (auto simp: collision_def)

lemma hash_wf_Finalize: "hash_wf (Finalize h)"
  by (simp add: Finalize_def copy32_def hash_wf_def)

definition id_preimage :: "DomainTransaction \<Rightarrow> byte list" where
  "id_preimage tx = serializeTransaction [] tx (id_flags tx)"

lemma TransactionID_fresh:
  "tx_ID tx = None \<Longrightarrow>
   fst (TransactionID H tx) = copy32 (blake2b_256 H (ascii ''TransactionID'') (id_preimage tx))"
  by (simp add: TransactionID_def NewTransactionIDWriter_def InfallibleWrite_def Finalize_def
      id_preimage_def id_flags_def Let_def)

section \<open>Properties\<close>

text \<open>
  C34: What a transaction ID commits to.  Two transactions without a cached ID have the same ID
  exactly when they agree on every field the ID encoding shows: version, outpoints, sequences,
  outputs, lock time, subnetwork, gas and payload, and for a coinbase the signature scripts; the
  only other way is a collision of the hash function on the two encodings.
\<close>

theorem TransactionID_commits:
  assumes "tx_ok x" "tx_ok y" "tx_ID x = None" "tx_ID y = None"
  shows "fst (TransactionID H x) = fst (TransactionID H y) \<longleftrightarrow>
    tx_view (id_flags x) x = tx_view (id_flags y) y \<or>
    collision (blake2b_256 H (ascii ''TransactionID'')) (id_preimage x) (id_preimage y)"
  using assms id_serialization [OF assms(1,2)] serializeTransaction_view [of "id_flags x" x "id_flags y" y]
  by (auto simp: TransactionID_fresh hash_eq_iff id_preimage_def)

text \<open>The hash functions of the witnesses.\<close>

definition sample_hash :: hash_functions where
  "sample_hash = \<lparr>blake2b_256 = (\<lambda>key m. [of_nat (length m), of_nat (length key)]), sha256_256 = (\<lambda>m. m)\<rparr>"

definition sample_tx :: "byte list \<Rightarrow> u64 \<Rightarrow> DomainTransaction" where
  "sample_tx script gas' = \<lparr>tx_Version = 0,
     Inputs = [\<lparr>PreviousOutpoint = \<lparr>op_TransactionID = replicate 32 1, op_Index = 0\<rparr>,
                SignatureScript = script, Sequence = 0, in_UTXOEntry = None\<rparr>],
     Outputs = [], LockTime = 0, tx_SubnetworkID = SubnetworkIDNative, Gas = gas', Payload = [],
     Fee = 0, Mass = 0, tx_ID = None\<rparr>"

theorem TransactionID_commits_witness:
  "fst (TransactionID sample_hash (sample_tx [1] 0)) = fst (TransactionID sample_hash (sample_tx [2] 0))"
proof -
  have ok: "tx_ok (sample_tx [a] 0)" "tx_ID (sample_tx [a] 0) = None" for a
    by (simp_all add: sample_tx_def tx_ok_def input_ok_def hash_wf_def DomainHashSize_def
        SubnetworkIDNative_def DomainSubnetworkIDSize_def)
  have "tx_view (id_flags (sample_tx [1] 0)) (sample_tx [1] 0) =
      tx_view (id_flags (sample_tx [2] 0)) (sample_tx [2] 0)"
    by (simp add: tx_view_def id_flags_def IsCoinBase_def sample_tx_def native_not_coinbase
        input_view_def seen_script_def txEncodingExcludeSignatureScript_def)
  with TransactionID_commits [OF ok(1) [of 1] ok(1) [of 2] ok(2) [of 1] ok(2) [of 2]] show ?thesis
    by blast
qed

text \<open>
  C35: A block hash determines the whole header, up to a collision of the hash function on the
  encodings of the two headers.
\<close>

theorem HeaderHash_commits:
  assumes "header_ok x" "header_ok y"
  shows "HeaderHash H x = HeaderHash H y \<longleftrightarrow>
    x = y \<or> collision (blake2b_256 H (ascii ''BlockHash'')) (serializeHeader [] x) (serializeHeader [] y)"
  using serializeHeader_inj [OF assms]
  by (auto simp: HeaderHash_def NewBlockHashWriter_def InfallibleWrite_def Finalize_def hash_eq_iff)

definition sample_header :: "u64 \<Rightarrow> BlockHeader" where
  "sample_header n = \<lparr>bh_version = 0, parentHashes = [NewZeroHash], hashMerkleRoot = NewZeroHash,
     acceptedIDMerkleRoot = NewZeroHash, utxoCommitment = NewZeroHash, timeInMilliseconds = 1000,
     bits = 0x207fffff, nonce = n\<rparr>"

theorem HeaderHash_commits_witness:
  "HeaderHash sample_hash (sample_header 1) = HeaderHash sample_hash (sample_header 2) \<longleftrightarrow>
   collision (blake2b_256 sample_hash (ascii ''BlockHash''))
     (serializeHeader [] (sample_header 1)) (serializeHeader [] (sample_header 2))"
proof -
  have ok: "header_ok (sample_header n)" for n
    by (simp add: header_ok_def sample_header_def hash_wf_def NewZeroHash_def)
  have "sample_header 1 \<noteq> sample_header 2" by (simp add: sample_header_def)
  with HeaderHash_commits [OF ok [of 1] ok [of 2]] show ?thesis by simp
qed


end
