(* ===== verification/Signature_Hash.thy ===== *)
theory Signature_Hash
  imports Consensus_Hashing
begin

text \<open>
  Signature hashes, \<^verbatim>\<open>consensushashing/calculate_signature_hash.go\<close>.  The four hashes that are
  the same for all inputs of a transaction are kept in a \<^verbatim>\<open>SighashReusedValues\<close>, which the
  functions fill in place: here they return it.  The main results are that the reuse does not
  change any signature hash, and what each hash type commits to.
\<close>

section \<open>Definitions\<close>

type_synonym SigHashType = byte

definition SigHashAll :: SigHashType where "SigHashAll = 0b00000001"
definition SigHashNone :: SigHashType where "SigHashNone = 0b00000010"
definition SigHashSingle :: SigHashType where "SigHashSingle = 0b00000100"
definition SigHashAnyOneCanPay :: SigHashType where "SigHashAnyOneCanPay = 0b10000000"
definition SigHashMask :: SigHashType where "SigHashMask = 0b00000111"

lemmas sht_defs = SigHashAll_def SigHashNone_def SigHashSingle_def SigHashAnyOneCanPay_def SigHashMask_def

definition IsStandardSigHashType :: "SigHashType \<Rightarrow> bool" where
  "IsStandardSigHashType sht \<longleftrightarrow>
     sht \<in> {SigHashAll, SigHashNone, SigHashSingle, SigHashAll OR SigHashAnyOneCanPay,
            SigHashNone OR SigHashAnyOneCanPay, SigHashSingle OR SigHashAnyOneCanPay}"

definition isSigHashAll :: "SigHashType \<Rightarrow> bool" where
  "isSigHashAll sht \<longleftrightarrow> sht AND SigHashMask = SigHashAll"

definition isSigHashNone :: "SigHashType \<Rightarrow> bool" where
  "isSigHashNone sht \<longleftrightarrow> sht AND SigHashMask = SigHashNone"

definition isSigHashSingle :: "SigHashType \<Rightarrow> bool" where
  "isSigHashSingle sht \<longleftrightarrow> sht AND SigHashMask = SigHashSingle"

definition isSigHashAnyOneCanPay :: "SigHashType \<Rightarrow> bool" where
  "isSigHashAnyOneCanPay sht \<longleftrightarrow> sht AND SigHashAnyOneCanPay = SigHashAnyOneCanPay"

record SighashReusedValues =
  previousOutputsHash :: "DomainHash option"
  sequencesHash :: "DomainHash option"
  outputsHash :: "DomainHash option"
  payloadHash :: "DomainHash option"

definition emptyReusedValues :: SighashReusedValues where
  "emptyReusedValues = \<lparr>previousOutputsHash = None, sequencesHash = None, outputsHash = None,
     payloadHash = None\<rparr>"

definition infallibleWriteElement :: "HashWriter \<Rightarrow> element \<Rightarrow> HashWriter" where
  "infallibleWriteElement hashWriter element =
     hashWriter\<lparr>hw_written := WriteElement (hw_written hashWriter) element\<rparr>"

definition hashOutpoint :: "HashWriter \<Rightarrow> DomainOutpoint \<Rightarrow> HashWriter" where
  "hashOutpoint hashWriter outpoint =
    (let hashWriter = infallibleWriteElement hashWriter (ETransactionID (op_TransactionID outpoint))
     in infallibleWriteElement hashWriter (EUint32 (op_Index outpoint)))"

definition hashTxOut :: "HashWriter \<Rightarrow> DomainTransactionOutput \<Rightarrow> HashWriter" where
  "hashTxOut hashWriter txOut =
    (let hashWriter = infallibleWriteElement hashWriter (EUint64 (out_Value txOut));
         hashWriter = infallibleWriteElement hashWriter (EUint16 (spk_Version (out_ScriptPublicKey txOut)))
     in infallibleWriteElement hashWriter (EBytes (spk_Script (out_ScriptPublicKey txOut))))"

definition getPreviousOutputsHash ::
  "hash_functions \<Rightarrow> DomainTransaction \<Rightarrow> SigHashType \<Rightarrow> SighashReusedValues
   \<Rightarrow> DomainHash \<times> SighashReusedValues" where
  "getPreviousOutputsHash H tx hashType reusedValues =
    (if isSigHashAnyOneCanPay hashType then (NewZeroHash, reusedValues)
     else case previousOutputsHash reusedValues of
       Some h \<Rightarrow> (h, reusedValues)
     | None \<Rightarrow>
         let hashWriter = fold (\<lambda>txIn hashWriter. hashOutpoint hashWriter (PreviousOutpoint txIn))
                            (Inputs tx) (NewTransactionSigningHashWriter H);
             h = Finalize hashWriter
         in (h, reusedValues\<lparr>previousOutputsHash := Some h\<rparr>))"

definition getSequencesHash ::
  "hash_functions \<Rightarrow> DomainTransaction \<Rightarrow> SigHashType \<Rightarrow> SighashReusedValues
   \<Rightarrow> DomainHash \<times> SighashReusedValues" where
  "getSequencesHash H tx hashType reusedValues =
    (if isSigHashSingle hashType \<or> isSigHashAnyOneCanPay hashType \<or> isSigHashNone hashType
     then (NewZeroHash, reusedValues)
     else case sequencesHash reusedValues of
       Some h \<Rightarrow> (h, reusedValues)
     | None \<Rightarrow>
         let hashWriter = fold (\<lambda>txIn hashWriter. infallibleWriteElement hashWriter (EUint64 (Sequence txIn)))
                            (Inputs tx) (NewTransactionSigningHashWriter H);
             h = Finalize hashWriter
         in (h, reusedValues\<lparr>sequencesHash := Some h\<rparr>))"

definition getOutputsHash ::
  "hash_functions \<Rightarrow> DomainTransaction \<Rightarrow> nat \<Rightarrow> SigHashType \<Rightarrow> SighashReusedValues
   \<Rightarrow> DomainHash \<times> SighashReusedValues" where
  "getOutputsHash H tx inputIndex hashType reusedValues =
    (if isSigHashNone hashType then (NewZeroHash, reusedValues)
     else if isSigHashSingle hashType then
       (if inputIndex \<ge> length (Outputs tx) then (NewZeroHash, reusedValues)
        else (Finalize (hashTxOut (NewTransactionSigningHashWriter H) (Outputs tx ! inputIndex)), reusedValues))
     else case outputsHash reusedValues of
       Some h \<Rightarrow> (h, reusedValues)
     | None \<Rightarrow>
         let hashWriter = fold (\<lambda>txOut hashWriter. hashTxOut hashWriter txOut)
                            (Outputs tx) (NewTransactionSigningHashWriter H);
             h = Finalize hashWriter
         in (h, reusedValues\<lparr>outputsHash := Some h\<rparr>))"

definition getPayloadHash ::
  "hash_functions \<Rightarrow> DomainTransaction \<Rightarrow> SighashReusedValues \<Rightarrow> DomainHash \<times> SighashReusedValues" where
  "getPayloadHash H tx reusedValues =
    (if tx_SubnetworkID tx = SubnetworkIDNative then (NewZeroHash, reusedValues)
     else case payloadHash reusedValues of
       Some h \<Rightarrow> (h, reusedValues)
     | None \<Rightarrow>
         let h = Finalize (infallibleWriteElement (NewTransactionSigningHashWriter H) (EBytes (Payload tx)))
         in (h, reusedValues\<lparr>payloadHash := Some h\<rparr>))"

definition calculateSignatureHash ::
  "hash_functions \<Rightarrow> DomainTransaction \<Rightarrow> nat \<Rightarrow> DomainTransactionInput \<Rightarrow> UTXOEntry \<Rightarrow> SigHashType
   \<Rightarrow> SighashReusedValues \<Rightarrow> DomainHash \<times> SighashReusedValues" where
  "calculateSignatureHash H tx inputIndex txIn utxoEntry hashType reusedValues =
    (let prevScriptPublicKey = scriptPublicKey utxoEntry;
         hashWriter = NewTransactionSigningHashWriter H;
         hashWriter = infallibleWriteElement hashWriter (EUint16 (tx_Version tx));
         (h, reusedValues) = getPreviousOutputsHash H tx hashType reusedValues;
         hashWriter = infallibleWriteElement hashWriter (EHash h);
         (h, reusedValues) = getSequencesHash H tx hashType reusedValues;
         hashWriter = infallibleWriteElement hashWriter (EHash h);
         hashWriter = hashOutpoint hashWriter (PreviousOutpoint txIn);
         hashWriter = infallibleWriteElement hashWriter (EUint16 (spk_Version prevScriptPublicKey));
         hashWriter = infallibleWriteElement hashWriter (EBytes (spk_Script prevScriptPublicKey));
         hashWriter = infallibleWriteElement hashWriter (EUint64 (amount utxoEntry));
         hashWriter = infallibleWriteElement hashWriter (EUint64 (Sequence txIn));
         (h, reusedValues) = getOutputsHash H tx inputIndex hashType reusedValues;
         hashWriter = infallibleWriteElement hashWriter (EHash h);
         hashWriter = infallibleWriteElement hashWriter (EUint64 (LockTime tx));
         hashWriter = infallibleWriteElement hashWriter (ESubnetworkID (tx_SubnetworkID tx));
         hashWriter = infallibleWriteElement hashWriter (EUint64 (Gas tx));
         (h, reusedValues) = getPayloadHash H tx reusedValues;
         hashWriter = infallibleWriteElement hashWriter (EHash h);
         hashWriter = infallibleWriteElement hashWriter (EUint8 hashType)
     in (Finalize hashWriter, reusedValues))"

datatype sighash_error = InvalidSigHashType SigHashType

definition CalculateSignatureHashSchnorr ::
  "hash_functions \<Rightarrow> DomainTransaction \<Rightarrow> nat \<Rightarrow> SigHashType \<Rightarrow> SighashReusedValues
   \<Rightarrow> (sighash_error, DomainHash \<times> SighashReusedValues) result" where
  "CalculateSignatureHashSchnorr H tx inputIndex hashType reusedValues =
    (if \<not> IsStandardSigHashType hashType then Inl (Err (InvalidSigHashType hashType))
     else if inputIndex \<ge> length (Inputs tx) then Inl Panic
     else
       let txIn = Inputs tx ! inputIndex
       in case in_UTXOEntry txIn of
            None \<Rightarrow> Inl Panic
          | Some utxoEntry \<Rightarrow>
              Inr (calculateSignatureHash H tx inputIndex txIn utxoEntry hashType reusedValues))"

definition CalculateSignatureHashECDSA ::
  "hash_functions \<Rightarrow> DomainTransaction \<Rightarrow> nat \<Rightarrow> SigHashType \<Rightarrow> SighashReusedValues
   \<Rightarrow> (sighash_error, DomainHash \<times> SighashReusedValues) result" where
  "CalculateSignatureHashECDSA H tx inputIndex hashType reusedValues =
     rbind (CalculateSignatureHashSchnorr H tx inputIndex hashType reusedValues) (\<lambda>(hash, reusedValues).
       Inr (Finalize (InfallibleWrite (NewTransactionSigningHashECDSAWriter H) hash), reusedValues))"

lemma put_le_eq_Nil [simp]: "put_le k w = [] \<longleftrightarrow> k = 0"
  by (metis length_0_conv length_put_le)

section \<open>Messages that are hashed\<close>

definition outpoints_bytes :: "DomainTransaction \<Rightarrow> byte list" where
  "outpoints_bytes tx =
     concat (map (\<lambda>i. op_TransactionID (PreviousOutpoint i) @ put_le 4 (op_Index (PreviousOutpoint i))) (Inputs tx))"

definition sequences_bytes :: "DomainTransaction \<Rightarrow> byte list" where
  "sequences_bytes tx = concat (map (\<lambda>i. put_le 8 (Sequence i)) (Inputs tx))"

definition txout_bytes :: "DomainTransactionOutput \<Rightarrow> byte list" where
  "txout_bytes out = put_le 8 (out_Value out) @ put_le 2 (spk_Version (out_ScriptPublicKey out)) @
     put_le 8 (of_nat (length (spk_Script (out_ScriptPublicKey out))) :: u64) @ spk_Script (out_ScriptPublicKey out)"

definition signed_outputs :: "DomainTransaction \<Rightarrow> nat \<Rightarrow> SigHashType \<Rightarrow> DomainTransactionOutput list" where
  "signed_outputs tx i ht =
    (if isSigHashNone ht then []
     else if isSigHashSingle ht then (if i < length (Outputs tx) then [Outputs tx ! i] else [])
     else Outputs tx)"

definition outputs_bytes :: "DomainTransaction \<Rightarrow> nat \<Rightarrow> SigHashType \<Rightarrow> byte list" where
  "outputs_bytes tx i ht = concat (map txout_bytes (signed_outputs tx i ht))"

definition payload_bytes :: "DomainTransaction \<Rightarrow> byte list" where
  "payload_bytes tx = put_le 8 (of_nat (length (Payload tx)) :: u64) @ Payload tx"

definition signing_hash :: "hash_functions \<Rightarrow> byte list \<Rightarrow> DomainHash" where
  "signing_hash H m = copy32 (blake2b_256 H (ascii ''TransactionSigningHash'') m)"

definition prev_digest :: "hash_functions \<Rightarrow> DomainTransaction \<Rightarrow> SigHashType \<Rightarrow> DomainHash" where
  "prev_digest H tx ht = (if isSigHashAnyOneCanPay ht then NewZeroHash else signing_hash H (outpoints_bytes tx))"

definition seq_digest :: "hash_functions \<Rightarrow> DomainTransaction \<Rightarrow> SigHashType \<Rightarrow> DomainHash" where
  "seq_digest H tx ht =
    (if isSigHashSingle ht \<or> isSigHashAnyOneCanPay ht \<or> isSigHashNone ht then NewZeroHash
     else signing_hash H (sequences_bytes tx))"

definition out_digest :: "hash_functions \<Rightarrow> DomainTransaction \<Rightarrow> nat \<Rightarrow> SigHashType \<Rightarrow> DomainHash" where
  "out_digest H tx i ht =
    (if isSigHashNone ht \<or> isSigHashSingle ht \<and> length (Outputs tx) \<le> i then NewZeroHash
     else signing_hash H (outputs_bytes tx i ht))"

definition payload_digest :: "hash_functions \<Rightarrow> DomainTransaction \<Rightarrow> DomainHash" where
  "payload_digest H tx =
    (if tx_SubnetworkID tx = SubnetworkIDNative then NewZeroHash else signing_hash H (payload_bytes tx))"

definition sig_preimage ::
  "hash_functions \<Rightarrow> DomainTransaction \<Rightarrow> nat \<Rightarrow> DomainTransactionInput \<Rightarrow> UTXOEntry \<Rightarrow> SigHashType \<Rightarrow> byte list" where
  "sig_preimage H tx i txIn e ht =
     put_le 2 (tx_Version tx) @ prev_digest H tx ht @ seq_digest H tx ht @
     op_TransactionID (PreviousOutpoint txIn) @ put_le 4 (op_Index (PreviousOutpoint txIn)) @
     put_le 2 (spk_Version (scriptPublicKey e)) @
     put_le 8 (of_nat (length (spk_Script (scriptPublicKey e))) :: u64) @ spk_Script (scriptPublicKey e) @
     put_le 8 (amount e) @ put_le 8 (Sequence txIn) @ out_digest H tx i ht @ put_le 8 (LockTime tx) @
     tx_SubnetworkID tx @ put_le 8 (Gas tx) @ payload_digest H tx @ [ht]"

named_theorems sig_simps "writers as appended bytes"

lemma infallibleWriteElement_eq [sig_simps]:
  "infallibleWriteElement h e = h\<lparr>hw_written := hw_written h @ WriteElement [] e\<rparr>"
  by (simp add: infallibleWriteElement_def WriteElement_append [of "hw_written h"])

lemma hashOutpoint_eq [sig_simps]:
  "hashOutpoint h o' = h\<lparr>hw_written := hw_written h @ op_TransactionID o' @ put_le 4 (op_Index o')\<rparr>"
  by (simp add: hashOutpoint_def sig_simps PutUint32_def Let_def)

lemma hashTxOut_eq [sig_simps]:
  "hashTxOut h out = h\<lparr>hw_written := hw_written h @ txout_bytes out\<rparr>"
  by (simp add: hashTxOut_def sig_simps PutUint64_def PutUint16_def txout_bytes_def Let_def)

lemma fold_written:
  "fold (\<lambda>x h. h\<lparr>hw_written := hw_written h @ f x\<rparr>) xs h = h\<lparr>hw_written := hw_written h @ concat (map f xs)\<rparr>"
  by (induction xs arbitrary: h) simp_all

lemma Finalize_signing:
  "Finalize (h\<lparr>hw_written := m\<rparr>) = copy32 (hw_Sum h m)"
  by (simp add: Finalize_def)

lemma new_writer: "hw_Sum (NewTransactionSigningHashWriter H) = blake2b_256 H (ascii ''TransactionSigningHash'')"
  "hw_written (NewTransactionSigningHashWriter H) = []"
  by (simp_all add: NewTransactionSigningHashWriter_def)

text \<open>Reused values that belong to the transaction.\<close>

definition reuse_ok :: "hash_functions \<Rightarrow> DomainTransaction \<Rightarrow> SighashReusedValues \<Rightarrow> bool" where
  "reuse_ok H tx rv \<longleftrightarrow>
     previousOutputsHash rv \<in> {None, Some (signing_hash H (outpoints_bytes tx))} \<and>
     sequencesHash rv \<in> {None, Some (signing_hash H (sequences_bytes tx))} \<and>
     outputsHash rv \<in> {None, Some (signing_hash H (concat (map txout_bytes (Outputs tx))))} \<and>
     payloadHash rv \<in> {None, Some (signing_hash H (payload_bytes tx))}"

lemma reuse_ok_empty: "reuse_ok H tx emptyReusedValues"
  by (simp add: reuse_ok_def emptyReusedValues_def)

lemma getPreviousOutputsHash_ok:
  assumes "reuse_ok H tx rv"
  shows "fst (getPreviousOutputsHash H tx ht rv) = prev_digest H tx ht \<and> reuse_ok H tx (snd (getPreviousOutputsHash H tx ht rv))"
  using assms
  by (auto simp: getPreviousOutputsHash_def prev_digest_def sig_simps fold_written Finalize_signing
      new_writer signing_hash_def outpoints_bytes_def reuse_ok_def Let_def
      split: option.splits)

lemma getSequencesHash_ok:
  assumes "reuse_ok H tx rv"
  shows "fst (getSequencesHash H tx ht rv) = seq_digest H tx ht \<and> reuse_ok H tx (snd (getSequencesHash H tx ht rv))"
  using assms
  by (auto simp: getSequencesHash_def seq_digest_def sig_simps fold_written Finalize_signing
      new_writer signing_hash_def sequences_bytes_def reuse_ok_def PutUint64_def Let_def
      split: option.splits)

lemma getOutputsHash_ok:
  assumes "reuse_ok H tx rv"
  shows "fst (getOutputsHash H tx i ht rv) = out_digest H tx i ht \<and> reuse_ok H tx (snd (getOutputsHash H tx i ht rv))"
  using assms
  by (auto simp: getOutputsHash_def out_digest_def sig_simps fold_written Finalize_signing
      new_writer signing_hash_def outputs_bytes_def signed_outputs_def reuse_ok_def Let_def
      split: option.splits)

lemma getPayloadHash_ok:
  assumes "reuse_ok H tx rv"
  shows "fst (getPayloadHash H tx rv) = payload_digest H tx \<and> reuse_ok H tx (snd (getPayloadHash H tx rv))"
  using assms
  by (auto simp: getPayloadHash_def payload_digest_def sig_simps Finalize_signing
      new_writer signing_hash_def payload_bytes_def reuse_ok_def PutUint64_def Let_def
      split: option.splits)

lemma calculateSignatureHash_ok:
  assumes "reuse_ok H tx rv"
  obtains rv' where "calculateSignatureHash H tx i txIn e ht rv = (signing_hash H (sig_preimage H tx i txIn e ht), rv')"
    "reuse_ok H tx rv'"
proof -
  obtain r1 where r1: "getPreviousOutputsHash H tx ht rv = (prev_digest H tx ht, r1)" "reuse_ok H tx r1"
    using getPreviousOutputsHash_ok [OF assms, of ht] by (metis prod.collapse)
  obtain r2 where r2: "getSequencesHash H tx ht r1 = (seq_digest H tx ht, r2)" "reuse_ok H tx r2"
    using getSequencesHash_ok [OF r1(2), of ht] by (metis prod.collapse)
  obtain r3 where r3: "getOutputsHash H tx i ht r2 = (out_digest H tx i ht, r3)" "reuse_ok H tx r3"
    using getOutputsHash_ok [OF r2(2), of i ht] by (metis prod.collapse)
  obtain r4 where r4: "getPayloadHash H tx r3 = (payload_digest H tx, r4)" "reuse_ok H tx r4"
    using getPayloadHash_ok [OF r3(2)] by (metis prod.collapse)
  have "calculateSignatureHash H tx i txIn e ht rv = (signing_hash H (sig_preimage H tx i txIn e ht), r4)"
    by (simp add: calculateSignatureHash_def r1(1) r2(1) r3(1) r4(1) sig_simps Finalize_signing new_writer
        signing_hash_def sig_preimage_def PutUint8_def PutUint16_def PutUint64_def Let_def)
  then show thesis using that r4(2) by blast
qed


section \<open>What a signature hash commits to\<close>

interpretation outpoint_code: prefix_code
  "\<lambda>i. op_TransactionID (PreviousOutpoint i) @ put_le 4 (op_Index (PreviousOutpoint i))"
  input_ok PreviousOutpoint
proof unfold_locales
  fix x y :: DomainTransactionInput and r s
  assume ok: "input_ok x" "input_ok y"
    and eq: "(op_TransactionID (PreviousOutpoint x) @ put_le 4 (op_Index (PreviousOutpoint x))) @ r =
      (op_TransactionID (PreviousOutpoint y) @ put_le 4 (op_Index (PreviousOutpoint y))) @ s"
  have "length (op_TransactionID (PreviousOutpoint x)) = length (op_TransactionID (PreviousOutpoint y))"
    using ok by (simp add: input_ok_def hash_wf_def)
  with eq show "PreviousOutpoint x = PreviousOutpoint y \<and> r = s"
    by (auto simp: put_le_inj intro!: outpoint_eqI)
qed

interpretation sequence_code: prefix_code "\<lambda>i. put_le 8 (Sequence i)" "\<lambda>_. True" Sequence
  by unfold_locales (auto simp: put_le_inj)

lemma txout_bytes_eq: "txout_bytes = writeTxOut []"
  by (simp add: fun_eq_iff txout_bytes_def writeTxOut_eq)

record signed_fields =
  sf_version :: u16
  sf_outpoints :: "DomainOutpoint list"
  sf_sequences :: "u64 list"
  sf_outpoint :: DomainOutpoint
  sf_script :: ScriptPublicKey
  sf_amount :: u64
  sf_sequence :: u64
  sf_outputs :: "DomainTransactionOutput list"
  sf_lockTime :: u64
  sf_subnetwork :: DomainSubnetworkID
  sf_gas :: u64
  sf_payload :: "byte list"
  sf_hashType :: SigHashType

definition sig_view ::
  "DomainTransaction \<Rightarrow> nat \<Rightarrow> DomainTransactionInput \<Rightarrow> UTXOEntry \<Rightarrow> SigHashType \<Rightarrow> signed_fields" where
  "sig_view tx i txIn e ht =
    \<lparr>sf_version = tx_Version tx,
     sf_outpoints = (if isSigHashAnyOneCanPay ht then [] else map PreviousOutpoint (Inputs tx)),
     sf_sequences = (if isSigHashSingle ht \<or> isSigHashAnyOneCanPay ht \<or> isSigHashNone ht then []
                     else map Sequence (Inputs tx)),
     sf_outpoint = PreviousOutpoint txIn, sf_script = scriptPublicKey e, sf_amount = amount e,
     sf_sequence = Sequence txIn, sf_outputs = signed_outputs tx i ht, sf_lockTime = LockTime tx,
     sf_subnetwork = tx_SubnetworkID tx, sf_gas = Gas tx,
     sf_payload = (if tx_SubnetworkID tx = SubnetworkIDNative then [] else Payload tx),
     sf_hashType = ht\<rparr>"

lemma length_copy32 [simp]: "length (copy32 d) = 32"
  by (simp add: copy32_def DomainHashSize_def)

lemma digest_lengths [simp]:
  "length (signing_hash H m) = 32" "length (prev_digest H tx ht) = 32" "length (seq_digest H tx ht) = 32"
  "length (out_digest H tx i ht) = 32" "length (payload_digest H tx) = 32"
  by (simp_all add: signing_hash_def prev_digest_def seq_digest_def out_digest_def payload_digest_def
      NewZeroHash_def DomainHashSize_def)

lemma spk_eqI:
  "spk_Script a = spk_Script b \<Longrightarrow> spk_Version a = spk_Version b \<Longrightarrow> a = (b :: ScriptPublicKey)"
  by (cases a; cases b) simp

text \<open>The sizes that make the signed message of an input unambiguous.\<close>

definition sig_ok :: "DomainTransaction \<Rightarrow> DomainTransactionInput \<Rightarrow> UTXOEntry \<Rightarrow> bool" where
  "sig_ok tx txIn e \<longleftrightarrow> tx_ok tx \<and> input_ok txIn \<and> length (spk_Script (scriptPublicKey e)) < 2 ^ 64"

lemma sig_preimage_determines:
  assumes ok: "sig_ok x u e" "sig_ok y v f" and eq: "sig_preimage H x i u e ht = sig_preimage H y j v f ht'"
  shows "tx_Version x = tx_Version y \<and> prev_digest H x ht = prev_digest H y ht' \<and>
    seq_digest H x ht = seq_digest H y ht' \<and> PreviousOutpoint u = PreviousOutpoint v \<and>
    scriptPublicKey e = scriptPublicKey f \<and> amount e = amount f \<and> Sequence u = Sequence v \<and>
    out_digest H x i ht = out_digest H y j ht' \<and> LockTime x = LockTime y \<and>
    tx_SubnetworkID x = tx_SubnetworkID y \<and> Gas x = Gas y \<and>
    payload_digest H x = payload_digest H y \<and> ht = ht'"
proof -
  have l: "length (op_TransactionID (PreviousOutpoint u)) = length (op_TransactionID (PreviousOutpoint v))"
    "length (tx_SubnetworkID x) = length (tx_SubnetworkID y)"
    "length (spk_Script (scriptPublicKey e)) < 2 ^ 64" "length (spk_Script (scriptPublicKey f)) < 2 ^ 64"
    using ok by (simp_all add: sig_ok_def tx_ok_def input_ok_def hash_wf_def)
  show ?thesis
    using eq l by (auto simp: sig_preimage_def put_le_inj len64_eq intro!: outpoint_eqI spk_eqI)
qed

text \<open>
  The ways two signed messages that differ can have one signature hash: two different messages
  among the corresponding ones that are hashed have one digest, or a message of outputs has the
  digest zero, which stands for a missing output.
\<close>

definition sig_messages ::
  "hash_functions \<Rightarrow> DomainTransaction \<Rightarrow> nat \<Rightarrow> DomainTransactionInput \<Rightarrow> UTXOEntry \<Rightarrow> SigHashType \<Rightarrow> byte list list" where
  "sig_messages H tx i txIn e ht =
     [sig_preimage H tx i txIn e ht, outpoints_bytes tx, sequences_bytes tx, outputs_bytes tx i ht, payload_bytes tx]"

definition sig_clash ::
  "hash_functions \<Rightarrow> byte list list \<Rightarrow> byte list list \<Rightarrow> bool" where
  "sig_clash H ms ns \<longleftrightarrow>
     list_ex (\<lambda>(m, n). collision (blake2b_256 H (ascii ''TransactionSigningHash'')) m n) (zip ms ns) \<or>
     signing_hash H (ms ! 3) = NewZeroHash \<or> signing_hash H (ns ! 3) = NewZeroHash"

lemma signing_hash_eq_iff:
  "signing_hash H m = signing_hash H n \<longleftrightarrow>
   m = n \<or> collision (blake2b_256 H (ascii ''TransactionSigningHash'')) m n"
  by (simp add: signing_hash_def hash_eq_iff)

lemma sig_commit:
  assumes ok: "sig_ok x u e" "sig_ok y v f"
    and eq: "signing_hash H (sig_preimage H x i u e ht) = signing_hash H (sig_preimage H y j v f ht')"
    and no: "\<not> sig_clash H (sig_messages H x i u e ht) (sig_messages H y j v f ht')"
  shows "sig_view x i u e ht = sig_view y j v f ht'"
proof -
  have nc: "\<not> collision (blake2b_256 H (ascii ''TransactionSigningHash'')) m n"
    if "(m, n) \<in> set (zip (sig_messages H x i u e ht) (sig_messages H y j v f ht'))" for m n
    using no that by (auto simp: sig_clash_def list_ex_iff)
  have nz: "signing_hash H (outputs_bytes x i ht) \<noteq> NewZeroHash" "signing_hash H (outputs_bytes y j ht') \<noteq> NewZeroHash"
    using no by (simp_all add: sig_clash_def sig_messages_def)
  have txs: "\<forall>i \<in> set (Inputs x). input_ok i" "\<forall>i \<in> set (Inputs y). input_ok i"
    "\<forall>out \<in> set (Outputs x). output_ok out" "\<forall>out \<in> set (Outputs y). output_ok out"
    "length (Payload x) < 2 ^ 64" "length (Payload y) < 2 ^ 64"
    using ok by (simp_all add: sig_ok_def tx_ok_def)
  have pre: "sig_preimage H x i u e ht = sig_preimage H y j v f ht'"
    using eq nc by (auto simp: signing_hash_eq_iff sig_messages_def)
  note d = sig_preimage_determines [OF ok pre]
  have o1: "map PreviousOutpoint (Inputs x) = map PreviousOutpoint (Inputs y)" if "\<not> isSigHashAnyOneCanPay ht"
  proof -
    have "outpoints_bytes x = outpoints_bytes y"
      using d that nc by (auto simp: prev_digest_def signing_hash_eq_iff sig_messages_def)
    then show ?thesis
      unfolding outpoints_bytes_def by (intro outpoint_code.concat_inj txs) auto
  qed
  have o2: "map Sequence (Inputs x) = map Sequence (Inputs y)"
    if "\<not> (isSigHashSingle ht \<or> isSigHashAnyOneCanPay ht \<or> isSigHashNone ht)"
  proof -
    have "sequences_bytes x = sequences_bytes y"
      using d that nc by (auto simp: seq_digest_def signing_hash_eq_iff sig_messages_def)
    then show ?thesis
      unfolding sequences_bytes_def by (intro sequence_code.concat_inj) auto
  qed
  have o3: "signed_outputs x i ht = signed_outputs y j ht'"
  proof (cases "isSigHashNone ht \<or> isSigHashSingle ht \<and> length (Outputs x) \<le> i")
    case True
    then show ?thesis using d nz by (auto simp: out_digest_def signed_outputs_def split: if_splits)
  next
    case False
    then have "outputs_bytes x i ht = outputs_bytes y j ht'"
      using d nz nc by (auto simp: out_digest_def signing_hash_eq_iff sig_messages_def split: if_splits)
    moreover have "\<forall>out \<in> set (signed_outputs x i ht). output_ok out" "\<forall>out \<in> set (signed_outputs y j ht'). output_ok out"
      using txs by (auto simp: signed_outputs_def)
    ultimately have "map (\<lambda>out. out) (signed_outputs x i ht) = map (\<lambda>out. out) (signed_outputs y j ht')"
      unfolding outputs_bytes_def txout_bytes_eq by (intro output_code.concat_inj) (auto simp: writeTxOut_eq)
    then show ?thesis by simp
  qed
  have o4: "Payload x = Payload y" if "tx_SubnetworkID x \<noteq> SubnetworkIDNative"
  proof -
    have "payload_bytes x = payload_bytes y"
      using d that nc by (auto simp: payload_digest_def signing_hash_eq_iff sig_messages_def)
    then show ?thesis using txs(5,6) by (simp add: payload_bytes_def put_le_inj len64_eq)
  qed
  show ?thesis using d o1 o2 o3 o4 by (auto simp: sig_view_def)
qed


lemma sig_view_preimage:
  assumes "sig_view x i u e ht = sig_view y j v f ht'"
  shows "sig_preimage H x i u e ht = sig_preimage H y j v f ht'"
proof -
  have ht: "ht' = ht" using assms by (simp add: sig_view_def)
  have v: "tx_Version x = tx_Version y" "PreviousOutpoint u = PreviousOutpoint v"
    "scriptPublicKey e = scriptPublicKey f" "amount e = amount f" "Sequence u = Sequence v"
    "signed_outputs x i ht = signed_outputs y j ht" "LockTime x = LockTime y"
    "tx_SubnetworkID x = tx_SubnetworkID y" "Gas x = Gas y"
    using assms unfolding ht by (simp_all add: sig_view_def)
  have c: "outpoints_bytes t = concat (map (\<lambda>o'. op_TransactionID o' @ put_le 4 (op_Index o')) (map PreviousOutpoint (Inputs t)))"
    "sequences_bytes t = concat (map (put_le 8) (map Sequence (Inputs t)))" for t
    by (simp_all add: outpoints_bytes_def sequences_bytes_def o_def)
  have "isSigHashAnyOneCanPay ht \<or> map PreviousOutpoint (Inputs x) = map PreviousOutpoint (Inputs y)"
    "isSigHashSingle ht \<or> isSigHashAnyOneCanPay ht \<or> isSigHashNone ht \<or>
     map Sequence (Inputs x) = map Sequence (Inputs y)"
    using arg_cong [OF assms [unfolded ht], of sf_outpoints] arg_cong [OF assms [unfolded ht], of sf_sequences]
    by (auto simp: sig_view_def split: if_splits)
  then have "prev_digest H x ht = prev_digest H y ht" "seq_digest H x ht = seq_digest H y ht"
    by (auto simp: prev_digest_def seq_digest_def c simp del: map_map)
  moreover have "isSigHashSingle ht \<Longrightarrow> \<not> isSigHashNone ht \<Longrightarrow> length (Outputs x) \<le> i \<longleftrightarrow> length (Outputs y) \<le> j"
    using v(6) by (auto simp: signed_outputs_def not_le split: if_splits)
  then have "out_digest H x i ht = out_digest H y j ht"
    using v(6) by (auto simp: out_digest_def outputs_bytes_def)
  moreover have "payload_digest H x = payload_digest H y"
    using arg_cong [OF assms, of sf_payload] v(8)
    by (simp add: sig_view_def payload_digest_def payload_bytes_def split: if_splits)
  ultimately show ?thesis by (simp add: sig_preimage_def ht v)
qed

lemma CalculateSignatureHashSchnorr_value:
  assumes "reuse_ok H tx rv" "CalculateSignatureHashSchnorr H tx i ht rv = Inr (h, rv')"
    "in_UTXOEntry (Inputs tx ! i) = Some e"
  shows "h = signing_hash H (sig_preimage H tx i (Inputs tx ! i) e ht)" "reuse_ok H tx rv'"
  using calculateSignatureHash_ok [OF assms(1), of i "Inputs tx ! i" e ht] assms(2,3)
  by (auto simp: CalculateSignatureHashSchnorr_def Let_def split: if_splits)

lemma CalculateSignatureHashSchnorr_ex:
  assumes "IsStandardSigHashType ht" "i < length (Inputs tx)" "in_UTXOEntry (Inputs tx ! i) = Some e"
  shows "\<exists>h rv'. CalculateSignatureHashSchnorr H tx i ht rv = Inr (h, rv')"
  using assms by (simp add: CalculateSignatureHashSchnorr_def Let_def)

section \<open>Properties\<close>

text \<open>
  C17: Reuse of the hashes that all inputs share does not change a signature hash: with reused
  values that belong to the transaction, \<^verbatim>\<open>CalculateSignatureHashSchnorr\<close> returns what it returns
  with none, errors and panics included, and the values it leaves belong to the transaction.
\<close>

theorem sighash_reuse_transparent:
  assumes "reuse_ok H tx rv"
  shows "map_sum id fst (CalculateSignatureHashSchnorr H tx i ht rv) =
      map_sum id fst (CalculateSignatureHashSchnorr H tx i ht emptyReusedValues) \<and>
    (\<forall>h rv'. CalculateSignatureHashSchnorr H tx i ht rv = Inr (h, rv') \<longrightarrow> reuse_ok H tx rv')"
proof (cases "in_UTXOEntry (Inputs tx ! i)")
  case (Some e)
  obtain r1 r2 where
    "calculateSignatureHash H tx i (Inputs tx ! i) e ht rv =
       (signing_hash H (sig_preimage H tx i (Inputs tx ! i) e ht), r1)" "reuse_ok H tx r1"
    "calculateSignatureHash H tx i (Inputs tx ! i) e ht emptyReusedValues =
       (signing_hash H (sig_preimage H tx i (Inputs tx ! i) e ht), r2)"
    using calculateSignatureHash_ok [OF assms] calculateSignatureHash_ok [OF reuse_ok_empty] by metis
  with Some show ?thesis by (simp add: CalculateSignatureHashSchnorr_def Let_def)
qed (simp add: CalculateSignatureHashSchnorr_def Let_def)

definition signed_tx :: DomainTransaction where
  "signed_tx = (sample_tx [] 0)\<lparr>Inputs := [\<lparr>PreviousOutpoint = \<lparr>op_TransactionID = replicate 32 1, op_Index = 0\<rparr>,
     SignatureScript = [], Sequence = 0,
     in_UTXOEntry = Some (NewUTXOEntry 5 \<lparr>spk_Script = [0x51], spk_Version = 0\<rparr> False 1)\<rparr>]\<rparr>"

theorem sighash_reuse_transparent_witness:
  "map_sum id fst (CalculateSignatureHashSchnorr sample_hash signed_tx 0 SigHashAll
       (emptyReusedValues\<lparr>sequencesHash := Some (signing_hash sample_hash (sequences_bytes signed_tx))\<rparr>)) =
   map_sum id fst (CalculateSignatureHashSchnorr sample_hash signed_tx 0 SigHashAll emptyReusedValues)"
  using sighash_reuse_transparent [of sample_hash signed_tx
      "emptyReusedValues\<lparr>sequencesHash := Some (signing_hash sample_hash (sequences_bytes signed_tx))\<rparr>"]
  by (simp add: reuse_ok_def emptyReusedValues_def)

text \<open>
  C16: What a signature commits to.  Two signature hashes, of any inputs of any transactions with
  any standard hash types, are equal when the fields the hash type signs are equal
  (\<open>sig_view\<close>), and only then: otherwise two different messages that were hashed have one
  digest.
\<close>

theorem sighash_commits:
  assumes "reuse_ok H x rv" "reuse_ok H y rv'"
    and "CalculateSignatureHashSchnorr H x i ht rv = Inr (h, rv1)"
    and "CalculateSignatureHashSchnorr H y j ht' rv' = Inr (h', rv2)"
    and "in_UTXOEntry (Inputs x ! i) = Some e" "in_UTXOEntry (Inputs y ! j) = Some f"
    and "sig_ok x (Inputs x ! i) e" "sig_ok y (Inputs y ! j) f"
  shows "(sig_view x i (Inputs x ! i) e ht = sig_view y j (Inputs y ! j) f ht' \<longrightarrow> h = h') \<and>
    (h = h' \<longrightarrow> sig_view x i (Inputs x ! i) e ht = sig_view y j (Inputs y ! j) f ht' \<or>
      sig_clash H (sig_messages H x i (Inputs x ! i) e ht) (sig_messages H y j (Inputs y ! j) f ht'))"
proof -
  have h: "h = signing_hash H (sig_preimage H x i (Inputs x ! i) e ht)"
    "h' = signing_hash H (sig_preimage H y j (Inputs y ! j) f ht')"
    using CalculateSignatureHashSchnorr_value(1) [OF assms(1,3,5)]
      CalculateSignatureHashSchnorr_value(1) [OF assms(2,4,6)] by simp_all
  show ?thesis
    unfolding h using sig_commit [OF assms(7,8), of H i ht j ht'] sig_view_preimage by metis
qed

definition signed_tx' :: DomainTransaction where
  "signed_tx' = signed_tx\<lparr>Outputs := [\<lparr>out_Value = 4, out_ScriptPublicKey = \<lparr>spk_Script = [], spk_Version = 0\<rparr>\<rparr>]\<rparr>"

theorem sighash_commits_witness:
  "\<exists>h rv1 rv2. CalculateSignatureHashSchnorr sample_hash signed_tx 0 SigHashNone emptyReusedValues = Inr (h, rv1) \<and>
     CalculateSignatureHashSchnorr sample_hash signed_tx' 0 SigHashNone emptyReusedValues = Inr (h, rv2)"
proof -
  let ?e = "NewUTXOEntry 5 \<lparr>spk_Script = [0x51], spk_Version = 0\<rparr> False 1"
  have ok: "sig_ok signed_tx (Inputs signed_tx ! 0) ?e" "sig_ok signed_tx' (Inputs signed_tx' ! 0) ?e"
    by (simp_all add: sig_ok_def signed_tx'_def signed_tx_def sample_tx_def tx_ok_def input_ok_def output_ok_def
        hash_wf_def DomainHashSize_def SubnetworkIDNative_def DomainSubnetworkIDSize_def NewUTXOEntry_def)
  have e: "in_UTXOEntry (Inputs signed_tx ! 0) = Some ?e" "in_UTXOEntry (Inputs signed_tx' ! 0) = Some ?e"
    by (simp_all add: signed_tx'_def signed_tx_def)
  have st: "IsStandardSigHashType SigHashNone" by (simp add: IsStandardSigHashType_def)
  obtain h rv1 h' rv2 where
    h: "CalculateSignatureHashSchnorr sample_hash signed_tx 0 SigHashNone emptyReusedValues = Inr (h, rv1)"
      "CalculateSignatureHashSchnorr sample_hash signed_tx' 0 SigHashNone emptyReusedValues = Inr (h', rv2)"
    using CalculateSignatureHashSchnorr_ex [OF st _ e(1), of sample_hash emptyReusedValues]
      CalculateSignatureHashSchnorr_ex [OF st _ e(2), of sample_hash emptyReusedValues]
    by (auto simp: signed_tx'_def signed_tx_def)
  have "sig_view signed_tx 0 (Inputs signed_tx ! 0) ?e SigHashNone =
      sig_view signed_tx' 0 (Inputs signed_tx' ! 0) ?e SigHashNone"
    by (simp add: sig_view_def signed_tx'_def signed_outputs_def isSigHashNone_def sht_defs)
  with sighash_commits [OF reuse_ok_empty reuse_ok_empty h e ok] have "h = h'" by blast
  with h show ?thesis by blast
qed

end
