(* ===== verification/Sig_Cache.thy ===== *)
theory Sig_Cache
  imports Signature_Hash
begin

text \<open>
  The signature caches, \<^verbatim>\<open>txscript/sigcache.go\<close> and \<^verbatim>\<open>txscript/sigcache_ecdsa.go\<close>, and the
  functions of the library \<^verbatim>\<open>go-secp256k1\<close> the script engine calls.  The library is a parameter: a
  record of functions.  Its parsed keys and signatures are represented by byte strings, which
  \<^verbatim>\<open>IsEqual\<close> compares.  The entry that a full cache evicts is the first one of a \<^verbatim>\<open>range\<close> loop over
  a Go map; \<open>rangeFirst\<close> is that choice, an arbitrary function of the keys.
\<close>

section \<open>Cryptography the engine relies on\<close>

type_synonym secpHash = "byte list"
type_synonym parsedSignature = "byte list"
type_synonym parsedPubKey = "byte list"

record crypto =
  hashes :: hash_functions
  DeserializeSchnorrPubKey :: "byte list \<Rightarrow> parsedPubKey option"
  DeserializeSchnorrSignatureFromSlice :: "byte list \<Rightarrow> parsedSignature option"
  SchnorrVerify :: "parsedPubKey \<Rightarrow> secpHash \<Rightarrow> parsedSignature \<Rightarrow> bool"
  DeserializeECDSAPubKey :: "byte list \<Rightarrow> parsedPubKey option"
  DeserializeECDSASignatureFromSlice :: "byte list \<Rightarrow> parsedSignature option"
  ECDSAVerify :: "parsedPubKey \<Rightarrow> secpHash \<Rightarrow> parsedSignature \<Rightarrow> bool"
  rangeFirst :: "secpHash list \<Rightarrow> secpHash"

text \<open>The digests of the library are arrays of 32 bytes.\<close>

definition digests_32 :: "crypto \<Rightarrow> bool" where
  "digests_32 C \<longleftrightarrow> (\<forall>k m. length (blake2b_256 (hashes C) k m) = 32) \<and>
     (\<forall>m. length (sha256_256 (hashes C) m) = 32)"

section \<open>The caches\<close>

record sigCacheEntry =
  sce_sig :: parsedSignature
  sce_pubKey :: parsedPubKey

record SigCache =
  validSigs :: "(secpHash \<times> sigCacheEntry) list"
  maxEntries :: nat

definition NewSigCache :: "nat \<Rightarrow> SigCache" where
  "NewSigCache n = \<lparr>validSigs = [], maxEntries = n\<rparr>"

definition Exists :: "SigCache \<Rightarrow> secpHash \<Rightarrow> parsedSignature \<Rightarrow> parsedPubKey \<Rightarrow> bool" where
  "Exists s sigHash sig pubKey =
    (case map_of (validSigs s) sigHash of
       None \<Rightarrow> False
     | Some entry \<Rightarrow> sce_pubKey entry = pubKey \<and> sce_sig entry = sig)"

definition Add :: "crypto \<Rightarrow> SigCache \<Rightarrow> secpHash \<Rightarrow> parsedSignature \<Rightarrow> parsedPubKey \<Rightarrow> SigCache" where
  "Add C s sigHash sig pubKey =
    (if maxEntries s = 0 then s
     else
       let s = (if length (validSigs s) + 1 > maxEntries s
                then s\<lparr>validSigs := AList.delete (rangeFirst C (map fst (validSigs s))) (validSigs s)\<rparr>
                else s)
       in s\<lparr>validSigs := AList.update sigHash \<lparr>sce_sig = sig, sce_pubKey = pubKey\<rparr> (validSigs s)\<rparr>)"

text \<open>The cache of ECDSA signatures has the same fields and the same code over other types.\<close>

type_synonym SigCacheECDSA = SigCache

definition NewSigCacheECDSA :: "nat \<Rightarrow> SigCacheECDSA" where
  "NewSigCacheECDSA n = \<lparr>validSigs = [], maxEntries = n\<rparr>"

definition ExistsECDSA :: "SigCacheECDSA \<Rightarrow> secpHash \<Rightarrow> parsedSignature \<Rightarrow> parsedPubKey \<Rightarrow> bool" where
  "ExistsECDSA s sigHash sig pubKey =
    (case map_of (validSigs s) sigHash of
       None \<Rightarrow> False
     | Some entry \<Rightarrow> sce_pubKey entry = pubKey \<and> sce_sig entry = sig)"

definition AddECDSA :: "crypto \<Rightarrow> SigCacheECDSA \<Rightarrow> secpHash \<Rightarrow> parsedSignature \<Rightarrow> parsedPubKey \<Rightarrow> SigCacheECDSA" where
  "AddECDSA C s sigHash sig pubKey =
    (if maxEntries s = 0 then s
     else
       let s = (if length (validSigs s) + 1 > maxEntries s
                then s\<lparr>validSigs := AList.delete (rangeFirst C (map fst (validSigs s))) (validSigs s)\<rparr>
                else s)
       in s\<lparr>validSigs := AList.update sigHash \<lparr>sce_sig = sig, sce_pubKey = pubKey\<rparr> (validSigs s)\<rparr>)"

section \<open>What a cache promises\<close>

text \<open>
  A signature cache answers \<^verbatim>\<open>Exists\<close> only for triples that its user added, and the engine adds only
  triples that verify.  The contract is stated once for both caches.
\<close>

definition holds_only ::
  "(SigCache \<Rightarrow> secpHash \<Rightarrow> parsedSignature \<Rightarrow> parsedPubKey \<Rightarrow> bool) \<Rightarrow>
   (parsedPubKey \<Rightarrow> secpHash \<Rightarrow> parsedSignature \<Rightarrow> bool) \<Rightarrow> SigCache \<Rightarrow> bool" where
  "holds_only exists verify c \<longleftrightarrow> (\<forall>h s k. exists c h s k \<longrightarrow> verify k h s)"

locale signature_cache =
  fixes exists :: "SigCache \<Rightarrow> secpHash \<Rightarrow> parsedSignature \<Rightarrow> parsedPubKey \<Rightarrow> bool"
    and add :: "SigCache \<Rightarrow> secpHash \<Rightarrow> parsedSignature \<Rightarrow> parsedPubKey \<Rightarrow> SigCache"
    and new :: "nat \<Rightarrow> SigCache"
  assumes new_exists: "\<not> exists (new n) h s k"
    and add_exists: "exists (add c h s k) h' s' k' \<Longrightarrow>
      exists c h' s' k' \<or> (h' = h \<and> s' = s \<and> k' = k)"
begin

lemma sound_new: "holds_only exists verify (new n)"
  by (simp add: holds_only_def new_exists)

lemma sound_add: "holds_only exists verify c \<Longrightarrow> verify k h s \<Longrightarrow> holds_only exists verify (add c h s k)"
  using add_exists unfolding holds_only_def by blast

lemma sound_exists: "holds_only exists verify c \<Longrightarrow> exists c h s k \<Longrightarrow> verify k h s"
  unfolding holds_only_def by blast

end

definition cache_wf :: "SigCache \<Rightarrow> bool" where
  "cache_wf c \<longleftrightarrow> keys_distinct (validSigs c) \<and> (maxEntries c \<noteq> 0 \<longrightarrow> length (validSigs c) \<le> maxEntries c)"

lemma length_delete_present:
  "k \<in> fst ` set m \<Longrightarrow> length (AList.delete k m) < length m"
proof -
  assume "k \<in> fst ` set m"
  then obtain v where "(k, v) \<in> set m" by auto
  then show ?thesis unfolding AList.delete_eq by (rule length_filter_less) simp
qed

lemma Exists_iff:
  "Exists c h s k \<longleftrightarrow> map_of (validSigs c) h = Some \<lparr>sce_sig = s, sce_pubKey = k\<rparr>"
  by (auto simp: Exists_def split: option.split)

lemma Add_exists:
  "Exists (Add C c h s k) h' s' k' \<Longrightarrow> Exists c h' s' k' \<or> (h' = h \<and> s' = s \<and> k' = k)"
  by (auto simp: Exists_iff Add_def Let_def split: if_splits)

lemma Add_keys: "keys_distinct (validSigs c) \<Longrightarrow> keys_distinct (validSigs (Add C c h s k))"
  by (simp add: Add_def Let_def)

lemma ECDSA_cache_eq: "ExistsECDSA = Exists" "AddECDSA = Add" "NewSigCacheECDSA = NewSigCache"
  by (simp_all add: fun_eq_iff ExistsECDSA_def Exists_def AddECDSA_def Add_def NewSigCacheECDSA_def NewSigCache_def)

lemma length_update_le: "length (AList.update h e m) \<le> Suc (length m)"
  by (induction m) auto

lemma Add_capacity:
  assumes range: "\<And>ks. ks \<noteq> [] \<Longrightarrow> rangeFirst C ks \<in> set ks" and wf: "cache_wf c"
  shows "cache_wf (Add C c h s k)"
proof (cases "maxEntries c = 0")
  case False
  let ?k = "rangeFirst C (map fst (validSigs c))"
  let ?m = "if length (validSigs c) + 1 > maxEntries c then AList.delete ?k (validSigs c) else validSigs c"
  have add: "Add C c h s k = c\<lparr>validSigs := AList.update h \<lparr>sce_sig = s, sce_pubKey = k\<rparr> ?m\<rparr>"
    using False by (simp add: Add_def Let_def)
  have "length ?m < maxEntries c"
  proof (cases "length (validSigs c) + 1 > maxEntries c")
    case True
    with False have "validSigs c \<noteq> []" by auto
    with range [of "map fst (validSigs c)"] have "?k \<in> fst ` set (validSigs c)" by simp
    then show ?thesis using length_delete_present [of ?k "validSigs c"] wf False True
      by (simp add: cache_wf_def)
  qed simp
  then have "length (AList.update h \<lparr>sce_sig = s, sce_pubKey = k\<rparr> ?m) \<le> maxEntries c"
    using length_update_le [of h _ ?m] by (meson Suc_leI order_trans)
  then show ?thesis using wf by (simp add: add cache_wf_def)
qed (use assms in \<open>simp add: Add_def\<close>)

interpretation schnorr_cache: signature_cache Exists "Add C" NewSigCache for C
  by unfold_locales (simp add: NewSigCache_def Exists_iff, rule Add_exists)

interpretation ecdsa_cache: signature_cache ExistsECDSA "AddECDSA C" NewSigCacheECDSA for C
  unfolding ECDSA_cache_eq by (rule schnorr_cache.signature_cache_axioms)

end
