(* ===== verification/Script_Errors.thy ===== *)
theory Script_Errors
  imports Prelude
begin

text \<open>
  The error codes of the script engine, \<^verbatim>\<open>domain/consensus/utils/txscript/error.go\<close>, in the order
  of the enumeration.  A script error carries its code; the text of its description is not
  modelled.
\<close>

datatype ErrorCode =
    ErrInternal
  | ErrInvalidFlags
  | ErrInvalidIndex
  | ErrUnsupportedAddress
  | ErrNotMultisigScript
  | ErrTooManyRequiredSigs
  | ErrEarlyReturn
  | ErrEmptyStack
  | ErrEvalFalse
  | ErrScriptUnfinished
  | ErrInvalidProgramCounter
  | ErrScriptTooBig
  | ErrElementTooBig
  | ErrTooManyOperations
  | ErrStackOverflow
  | ErrInvalidPubKeyCount
  | ErrInvalidSignatureCount
  | ErrNumberTooBig
  | ErrVerify
  | ErrEqualVerify
  | ErrNumEqualVerify
  | ErrCheckSigVerify
  | ErrCheckMultiSigVerify
  | ErrDisabledOpcode
  | ErrReservedOpcode
  | ErrMalformedPush
  | ErrInvalidStackOperation
  | ErrUnbalancedConditional
  | ErrMinimalData
  | ErrInvalidSigHashType
  | ErrSigLength
  | ErrSigHighS
  | ErrNotPushOnly
  | ErrPubKeyFormat
  | ErrCleanStack
  | ErrNullFail
  | ErrDiscourageUpgradableNOPs
  | ErrNegativeLockTime
  | ErrUnsatisfiedLockTime
  | ErrMinimalIf

type_synonym 'a script_result = "(ErrorCode, 'a) result"

abbreviation scriptError :: "ErrorCode \<Rightarrow> 'a script_result" where
  "scriptError c \<equiv> Inl (Err c)"

end
