(* ===== verification/Script_Opcodes.thy ===== *)
theory Script_Opcodes
  imports Script_Errors
begin

text \<open>
  The opcodes of the script language, \<^verbatim>\<open>domain/consensus/utils/txscript/opcode.go\<close>: the constants,
  the table \<^verbatim>\<open>opcodeArray\<close> in the groups of the source, and the parsed opcodes with their
  classification.  The handler of an opcode is a value of \<open>opfunc\<close> that names the Go function; the
  engine calls the function of that name.
\<close>

section \<open>Constants\<close>

abbreviation (input) Op0 :: byte where "Op0 \<equiv> 0x00"
abbreviation (input) OpFalse :: byte where "OpFalse \<equiv> 0x00"
abbreviation (input) OpData1 :: byte where "OpData1 \<equiv> 0x01"
abbreviation (input) OpData2 :: byte where "OpData2 \<equiv> 0x02"
abbreviation (input) OpData3 :: byte where "OpData3 \<equiv> 0x03"
abbreviation (input) OpData4 :: byte where "OpData4 \<equiv> 0x04"
abbreviation (input) OpData5 :: byte where "OpData5 \<equiv> 0x05"
abbreviation (input) OpData6 :: byte where "OpData6 \<equiv> 0x06"
abbreviation (input) OpData7 :: byte where "OpData7 \<equiv> 0x07"
abbreviation (input) OpData8 :: byte where "OpData8 \<equiv> 0x08"
abbreviation (input) OpData9 :: byte where "OpData9 \<equiv> 0x09"
abbreviation (input) OpData10 :: byte where "OpData10 \<equiv> 0x0a"
abbreviation (input) OpData11 :: byte where "OpData11 \<equiv> 0x0b"
abbreviation (input) OpData12 :: byte where "OpData12 \<equiv> 0x0c"
abbreviation (input) OpData13 :: byte where "OpData13 \<equiv> 0x0d"
abbreviation (input) OpData14 :: byte where "OpData14 \<equiv> 0x0e"
abbreviation (input) OpData15 :: byte where "OpData15 \<equiv> 0x0f"
abbreviation (input) OpData16 :: byte where "OpData16 \<equiv> 0x10"
abbreviation (input) OpData17 :: byte where "OpData17 \<equiv> 0x11"
abbreviation (input) OpData18 :: byte where "OpData18 \<equiv> 0x12"
abbreviation (input) OpData19 :: byte where "OpData19 \<equiv> 0x13"
abbreviation (input) OpData20 :: byte where "OpData20 \<equiv> 0x14"
abbreviation (input) OpData21 :: byte where "OpData21 \<equiv> 0x15"
abbreviation (input) OpData22 :: byte where "OpData22 \<equiv> 0x16"
abbreviation (input) OpData23 :: byte where "OpData23 \<equiv> 0x17"
abbreviation (input) OpData24 :: byte where "OpData24 \<equiv> 0x18"
abbreviation (input) OpData25 :: byte where "OpData25 \<equiv> 0x19"
abbreviation (input) OpData26 :: byte where "OpData26 \<equiv> 0x1a"
abbreviation (input) OpData27 :: byte where "OpData27 \<equiv> 0x1b"
abbreviation (input) OpData28 :: byte where "OpData28 \<equiv> 0x1c"
abbreviation (input) OpData29 :: byte where "OpData29 \<equiv> 0x1d"
abbreviation (input) OpData30 :: byte where "OpData30 \<equiv> 0x1e"
abbreviation (input) OpData31 :: byte where "OpData31 \<equiv> 0x1f"
abbreviation (input) OpData32 :: byte where "OpData32 \<equiv> 0x20"
abbreviation (input) OpData33 :: byte where "OpData33 \<equiv> 0x21"
abbreviation (input) OpData34 :: byte where "OpData34 \<equiv> 0x22"
abbreviation (input) OpData35 :: byte where "OpData35 \<equiv> 0x23"
abbreviation (input) OpData36 :: byte where "OpData36 \<equiv> 0x24"
abbreviation (input) OpData37 :: byte where "OpData37 \<equiv> 0x25"
abbreviation (input) OpData38 :: byte where "OpData38 \<equiv> 0x26"
abbreviation (input) OpData39 :: byte where "OpData39 \<equiv> 0x27"
abbreviation (input) OpData40 :: byte where "OpData40 \<equiv> 0x28"
abbreviation (input) OpData41 :: byte where "OpData41 \<equiv> 0x29"
abbreviation (input) OpData42 :: byte where "OpData42 \<equiv> 0x2a"
abbreviation (input) OpData43 :: byte where "OpData43 \<equiv> 0x2b"
abbreviation (input) OpData44 :: byte where "OpData44 \<equiv> 0x2c"
abbreviation (input) OpData45 :: byte where "OpData45 \<equiv> 0x2d"
abbreviation (input) OpData46 :: byte where "OpData46 \<equiv> 0x2e"
abbreviation (input) OpData47 :: byte where "OpData47 \<equiv> 0x2f"
abbreviation (input) OpData48 :: byte where "OpData48 \<equiv> 0x30"
abbreviation (input) OpData49 :: byte where "OpData49 \<equiv> 0x31"
abbreviation (input) OpData50 :: byte where "OpData50 \<equiv> 0x32"
abbreviation (input) OpData51 :: byte where "OpData51 \<equiv> 0x33"
abbreviation (input) OpData52 :: byte where "OpData52 \<equiv> 0x34"
abbreviation (input) OpData53 :: byte where "OpData53 \<equiv> 0x35"
abbreviation (input) OpData54 :: byte where "OpData54 \<equiv> 0x36"
abbreviation (input) OpData55 :: byte where "OpData55 \<equiv> 0x37"
abbreviation (input) OpData56 :: byte where "OpData56 \<equiv> 0x38"
abbreviation (input) OpData57 :: byte where "OpData57 \<equiv> 0x39"
abbreviation (input) OpData58 :: byte where "OpData58 \<equiv> 0x3a"
abbreviation (input) OpData59 :: byte where "OpData59 \<equiv> 0x3b"
abbreviation (input) OpData60 :: byte where "OpData60 \<equiv> 0x3c"
abbreviation (input) OpData61 :: byte where "OpData61 \<equiv> 0x3d"
abbreviation (input) OpData62 :: byte where "OpData62 \<equiv> 0x3e"
abbreviation (input) OpData63 :: byte where "OpData63 \<equiv> 0x3f"
abbreviation (input) OpData64 :: byte where "OpData64 \<equiv> 0x40"
abbreviation (input) OpData65 :: byte where "OpData65 \<equiv> 0x41"
abbreviation (input) OpData66 :: byte where "OpData66 \<equiv> 0x42"
abbreviation (input) OpData67 :: byte where "OpData67 \<equiv> 0x43"
abbreviation (input) OpData68 :: byte where "OpData68 \<equiv> 0x44"
abbreviation (input) OpData69 :: byte where "OpData69 \<equiv> 0x45"
abbreviation (input) OpData70 :: byte where "OpData70 \<equiv> 0x46"
abbreviation (input) OpData71 :: byte where "OpData71 \<equiv> 0x47"
abbreviation (input) OpData72 :: byte where "OpData72 \<equiv> 0x48"
abbreviation (input) OpData73 :: byte where "OpData73 \<equiv> 0x49"
abbreviation (input) OpData74 :: byte where "OpData74 \<equiv> 0x4a"
abbreviation (input) OpData75 :: byte where "OpData75 \<equiv> 0x4b"
abbreviation (input) OpPushData1 :: byte where "OpPushData1 \<equiv> 0x4c"
abbreviation (input) OpPushData2 :: byte where "OpPushData2 \<equiv> 0x4d"
abbreviation (input) OpPushData4 :: byte where "OpPushData4 \<equiv> 0x4e"
abbreviation (input) Op1Negate :: byte where "Op1Negate \<equiv> 0x4f"
abbreviation (input) OpReserved :: byte where "OpReserved \<equiv> 0x50"
abbreviation (input) Op1 :: byte where "Op1 \<equiv> 0x51"
abbreviation (input) OpTrue :: byte where "OpTrue \<equiv> 0x51"
abbreviation (input) Op2 :: byte where "Op2 \<equiv> 0x52"
abbreviation (input) Op3 :: byte where "Op3 \<equiv> 0x53"
abbreviation (input) Op4 :: byte where "Op4 \<equiv> 0x54"
abbreviation (input) Op5 :: byte where "Op5 \<equiv> 0x55"
abbreviation (input) Op6 :: byte where "Op6 \<equiv> 0x56"
abbreviation (input) Op7 :: byte where "Op7 \<equiv> 0x57"
abbreviation (input) Op8 :: byte where "Op8 \<equiv> 0x58"
abbreviation (input) Op9 :: byte where "Op9 \<equiv> 0x59"
abbreviation (input) Op10 :: byte where "Op10 \<equiv> 0x5a"
abbreviation (input) Op11 :: byte where "Op11 \<equiv> 0x5b"
abbreviation (input) Op12 :: byte where "Op12 \<equiv> 0x5c"
abbreviation (input) Op13 :: byte where "Op13 \<equiv> 0x5d"
abbreviation (input) Op14 :: byte where "Op14 \<equiv> 0x5e"
abbreviation (input) Op15 :: byte where "Op15 \<equiv> 0x5f"
abbreviation (input) Op16 :: byte where "Op16 \<equiv> 0x60"
abbreviation (input) OpNop :: byte where "OpNop \<equiv> 0x61"
abbreviation (input) OpVer :: byte where "OpVer \<equiv> 0x62"
abbreviation (input) OpIf :: byte where "OpIf \<equiv> 0x63"
abbreviation (input) OpNotIf :: byte where "OpNotIf \<equiv> 0x64"
abbreviation (input) OpVerIf :: byte where "OpVerIf \<equiv> 0x65"
abbreviation (input) OpVerNotIf :: byte where "OpVerNotIf \<equiv> 0x66"
abbreviation (input) OpElse :: byte where "OpElse \<equiv> 0x67"
abbreviation (input) OpEndIf :: byte where "OpEndIf \<equiv> 0x68"
abbreviation (input) OpVerify :: byte where "OpVerify \<equiv> 0x69"
abbreviation (input) OpReturn :: byte where "OpReturn \<equiv> 0x6a"
abbreviation (input) OpToAltStack :: byte where "OpToAltStack \<equiv> 0x6b"
abbreviation (input) OpFromAltStack :: byte where "OpFromAltStack \<equiv> 0x6c"
abbreviation (input) Op2Drop :: byte where "Op2Drop \<equiv> 0x6d"
abbreviation (input) Op2Dup :: byte where "Op2Dup \<equiv> 0x6e"
abbreviation (input) Op3Dup :: byte where "Op3Dup \<equiv> 0x6f"
abbreviation (input) Op2Over :: byte where "Op2Over \<equiv> 0x70"
abbreviation (input) Op2Rot :: byte where "Op2Rot \<equiv> 0x71"
abbreviation (input) Op2Swap :: byte where "Op2Swap \<equiv> 0x72"
abbreviation (input) OpIfDup :: byte where "OpIfDup \<equiv> 0x73"
abbreviation (input) OpDepth :: byte where "OpDepth \<equiv> 0x74"
abbreviation (input) OpDrop :: byte where "OpDrop \<equiv> 0x75"
abbreviation (input) OpDup :: byte where "OpDup \<equiv> 0x76"
abbreviation (input) OpNip :: byte where "OpNip \<equiv> 0x77"
abbreviation (input) OpOver :: byte where "OpOver \<equiv> 0x78"
abbreviation (input) OpPick :: byte where "OpPick \<equiv> 0x79"
abbreviation (input) OpRoll :: byte where "OpRoll \<equiv> 0x7a"
abbreviation (input) OpRot :: byte where "OpRot \<equiv> 0x7b"
abbreviation (input) OpSwap :: byte where "OpSwap \<equiv> 0x7c"
abbreviation (input) OpTuck :: byte where "OpTuck \<equiv> 0x7d"
abbreviation (input) OpCat :: byte where "OpCat \<equiv> 0x7e"
abbreviation (input) OpSubStr :: byte where "OpSubStr \<equiv> 0x7f"
abbreviation (input) OpLeft :: byte where "OpLeft \<equiv> 0x80"
abbreviation (input) OpRight :: byte where "OpRight \<equiv> 0x81"
abbreviation (input) OpSize :: byte where "OpSize \<equiv> 0x82"
abbreviation (input) OpInvert :: byte where "OpInvert \<equiv> 0x83"
abbreviation (input) OpAnd :: byte where "OpAnd \<equiv> 0x84"
abbreviation (input) OpOr :: byte where "OpOr \<equiv> 0x85"
abbreviation (input) OpXor :: byte where "OpXor \<equiv> 0x86"
abbreviation (input) OpEqual :: byte where "OpEqual \<equiv> 0x87"
abbreviation (input) OpEqualVerify :: byte where "OpEqualVerify \<equiv> 0x88"
abbreviation (input) OpReserved1 :: byte where "OpReserved1 \<equiv> 0x89"
abbreviation (input) OpReserved2 :: byte where "OpReserved2 \<equiv> 0x8a"
abbreviation (input) Op1Add :: byte where "Op1Add \<equiv> 0x8b"
abbreviation (input) Op1Sub :: byte where "Op1Sub \<equiv> 0x8c"
abbreviation (input) Op2Mul :: byte where "Op2Mul \<equiv> 0x8d"
abbreviation (input) Op2Div :: byte where "Op2Div \<equiv> 0x8e"
abbreviation (input) OpNegate :: byte where "OpNegate \<equiv> 0x8f"
abbreviation (input) OpAbs :: byte where "OpAbs \<equiv> 0x90"
abbreviation (input) OpNot :: byte where "OpNot \<equiv> 0x91"
abbreviation (input) Op0NotEqual :: byte where "Op0NotEqual \<equiv> 0x92"
abbreviation (input) OpAdd :: byte where "OpAdd \<equiv> 0x93"
abbreviation (input) OpSub :: byte where "OpSub \<equiv> 0x94"
abbreviation (input) OpMul :: byte where "OpMul \<equiv> 0x95"
abbreviation (input) OpDiv :: byte where "OpDiv \<equiv> 0x96"
abbreviation (input) OpMod :: byte where "OpMod \<equiv> 0x97"
abbreviation (input) OpLShift :: byte where "OpLShift \<equiv> 0x98"
abbreviation (input) OpRShift :: byte where "OpRShift \<equiv> 0x99"
abbreviation (input) OpBoolAnd :: byte where "OpBoolAnd \<equiv> 0x9a"
abbreviation (input) OpBoolOr :: byte where "OpBoolOr \<equiv> 0x9b"
abbreviation (input) OpNumEqual :: byte where "OpNumEqual \<equiv> 0x9c"
abbreviation (input) OpNumEqualVerify :: byte where "OpNumEqualVerify \<equiv> 0x9d"
abbreviation (input) OpNumNotEqual :: byte where "OpNumNotEqual \<equiv> 0x9e"
abbreviation (input) OpLessThan :: byte where "OpLessThan \<equiv> 0x9f"
abbreviation (input) OpGreaterThan :: byte where "OpGreaterThan \<equiv> 0xa0"
abbreviation (input) OpLessThanOrEqual :: byte where "OpLessThanOrEqual \<equiv> 0xa1"
abbreviation (input) OpGreaterThanOrEqual :: byte where "OpGreaterThanOrEqual \<equiv> 0xa2"
abbreviation (input) OpMin :: byte where "OpMin \<equiv> 0xa3"
abbreviation (input) OpMax :: byte where "OpMax \<equiv> 0xa4"
abbreviation (input) OpWithin :: byte where "OpWithin \<equiv> 0xa5"
abbreviation (input) OpUnknown166 :: byte where "OpUnknown166 \<equiv> 0xa6"
abbreviation (input) OpUnknown167 :: byte where "OpUnknown167 \<equiv> 0xa7"
abbreviation (input) OpSHA256 :: byte where "OpSHA256 \<equiv> 0xa8"
abbreviation (input) OpCheckMultiSigECDSA :: byte where "OpCheckMultiSigECDSA \<equiv> 0xa9"
abbreviation (input) OpBlake2b :: byte where "OpBlake2b \<equiv> 0xaa"
abbreviation (input) OpCheckSigECDSA :: byte where "OpCheckSigECDSA \<equiv> 0xab"
abbreviation (input) OpCheckSig :: byte where "OpCheckSig \<equiv> 0xac"
abbreviation (input) OpCheckSigVerify :: byte where "OpCheckSigVerify \<equiv> 0xad"
abbreviation (input) OpCheckMultiSig :: byte where "OpCheckMultiSig \<equiv> 0xae"
abbreviation (input) OpCheckMultiSigVerify :: byte where "OpCheckMultiSigVerify \<equiv> 0xaf"
abbreviation (input) OpCheckLockTimeVerify :: byte where "OpCheckLockTimeVerify \<equiv> 0xb0"
abbreviation (input) OpCheckSequenceVerify :: byte where "OpCheckSequenceVerify \<equiv> 0xb1"
abbreviation (input) OpNop1 :: byte where "OpNop1 \<equiv> 0xb2"
abbreviation (input) OpNop2 :: byte where "OpNop2 \<equiv> 0xb3"
abbreviation (input) OpNop3 :: byte where "OpNop3 \<equiv> 0xb4"
abbreviation (input) OpNop4 :: byte where "OpNop4 \<equiv> 0xb5"
abbreviation (input) OpNop5 :: byte where "OpNop5 \<equiv> 0xb6"
abbreviation (input) OpNop6 :: byte where "OpNop6 \<equiv> 0xb7"
abbreviation (input) OpNop7 :: byte where "OpNop7 \<equiv> 0xb8"
abbreviation (input) OpNop8 :: byte where "OpNop8 \<equiv> 0xb9"
abbreviation (input) OpNop9 :: byte where "OpNop9 \<equiv> 0xba"
abbreviation (input) OpNop10 :: byte where "OpNop10 \<equiv> 0xbb"
abbreviation (input) OpUnknown188 :: byte where "OpUnknown188 \<equiv> 0xbc"
abbreviation (input) OpUnknown189 :: byte where "OpUnknown189 \<equiv> 0xbd"
abbreviation (input) OpUnknown190 :: byte where "OpUnknown190 \<equiv> 0xbe"
abbreviation (input) OpUnknown191 :: byte where "OpUnknown191 \<equiv> 0xbf"
abbreviation (input) OpUnknown192 :: byte where "OpUnknown192 \<equiv> 0xc0"
abbreviation (input) OpUnknown193 :: byte where "OpUnknown193 \<equiv> 0xc1"
abbreviation (input) OpUnknown194 :: byte where "OpUnknown194 \<equiv> 0xc2"
abbreviation (input) OpUnknown195 :: byte where "OpUnknown195 \<equiv> 0xc3"
abbreviation (input) OpUnknown196 :: byte where "OpUnknown196 \<equiv> 0xc4"
abbreviation (input) OpUnknown197 :: byte where "OpUnknown197 \<equiv> 0xc5"
abbreviation (input) OpUnknown198 :: byte where "OpUnknown198 \<equiv> 0xc6"
abbreviation (input) OpUnknown199 :: byte where "OpUnknown199 \<equiv> 0xc7"
abbreviation (input) OpUnknown200 :: byte where "OpUnknown200 \<equiv> 0xc8"
abbreviation (input) OpUnknown201 :: byte where "OpUnknown201 \<equiv> 0xc9"
abbreviation (input) OpUnknown202 :: byte where "OpUnknown202 \<equiv> 0xca"
abbreviation (input) OpUnknown203 :: byte where "OpUnknown203 \<equiv> 0xcb"
abbreviation (input) OpUnknown204 :: byte where "OpUnknown204 \<equiv> 0xcc"
abbreviation (input) OpUnknown205 :: byte where "OpUnknown205 \<equiv> 0xcd"
abbreviation (input) OpUnknown206 :: byte where "OpUnknown206 \<equiv> 0xce"
abbreviation (input) OpUnknown207 :: byte where "OpUnknown207 \<equiv> 0xcf"
abbreviation (input) OpUnknown208 :: byte where "OpUnknown208 \<equiv> 0xd0"
abbreviation (input) OpUnknown209 :: byte where "OpUnknown209 \<equiv> 0xd1"
abbreviation (input) OpUnknown210 :: byte where "OpUnknown210 \<equiv> 0xd2"
abbreviation (input) OpUnknown211 :: byte where "OpUnknown211 \<equiv> 0xd3"
abbreviation (input) OpUnknown212 :: byte where "OpUnknown212 \<equiv> 0xd4"
abbreviation (input) OpUnknown213 :: byte where "OpUnknown213 \<equiv> 0xd5"
abbreviation (input) OpUnknown214 :: byte where "OpUnknown214 \<equiv> 0xd6"
abbreviation (input) OpUnknown215 :: byte where "OpUnknown215 \<equiv> 0xd7"
abbreviation (input) OpUnknown216 :: byte where "OpUnknown216 \<equiv> 0xd8"
abbreviation (input) OpUnknown217 :: byte where "OpUnknown217 \<equiv> 0xd9"
abbreviation (input) OpUnknown218 :: byte where "OpUnknown218 \<equiv> 0xda"
abbreviation (input) OpUnknown219 :: byte where "OpUnknown219 \<equiv> 0xdb"
abbreviation (input) OpUnknown220 :: byte where "OpUnknown220 \<equiv> 0xdc"
abbreviation (input) OpUnknown221 :: byte where "OpUnknown221 \<equiv> 0xdd"
abbreviation (input) OpUnknown222 :: byte where "OpUnknown222 \<equiv> 0xde"
abbreviation (input) OpUnknown223 :: byte where "OpUnknown223 \<equiv> 0xdf"
abbreviation (input) OpUnknown224 :: byte where "OpUnknown224 \<equiv> 0xe0"
abbreviation (input) OpUnknown225 :: byte where "OpUnknown225 \<equiv> 0xe1"
abbreviation (input) OpUnknown226 :: byte where "OpUnknown226 \<equiv> 0xe2"
abbreviation (input) OpUnknown227 :: byte where "OpUnknown227 \<equiv> 0xe3"
abbreviation (input) OpUnknown228 :: byte where "OpUnknown228 \<equiv> 0xe4"
abbreviation (input) OpUnknown229 :: byte where "OpUnknown229 \<equiv> 0xe5"
abbreviation (input) OpUnknown230 :: byte where "OpUnknown230 \<equiv> 0xe6"
abbreviation (input) OpUnknown231 :: byte where "OpUnknown231 \<equiv> 0xe7"
abbreviation (input) OpUnknown232 :: byte where "OpUnknown232 \<equiv> 0xe8"
abbreviation (input) OpUnknown233 :: byte where "OpUnknown233 \<equiv> 0xe9"
abbreviation (input) OpUnknown234 :: byte where "OpUnknown234 \<equiv> 0xea"
abbreviation (input) OpUnknown235 :: byte where "OpUnknown235 \<equiv> 0xeb"
abbreviation (input) OpUnknown236 :: byte where "OpUnknown236 \<equiv> 0xec"
abbreviation (input) OpUnknown237 :: byte where "OpUnknown237 \<equiv> 0xed"
abbreviation (input) OpUnknown238 :: byte where "OpUnknown238 \<equiv> 0xee"
abbreviation (input) OpUnknown239 :: byte where "OpUnknown239 \<equiv> 0xef"
abbreviation (input) OpUnknown240 :: byte where "OpUnknown240 \<equiv> 0xf0"
abbreviation (input) OpUnknown241 :: byte where "OpUnknown241 \<equiv> 0xf1"
abbreviation (input) OpUnknown242 :: byte where "OpUnknown242 \<equiv> 0xf2"
abbreviation (input) OpUnknown243 :: byte where "OpUnknown243 \<equiv> 0xf3"
abbreviation (input) OpUnknown244 :: byte where "OpUnknown244 \<equiv> 0xf4"
abbreviation (input) OpUnknown245 :: byte where "OpUnknown245 \<equiv> 0xf5"
abbreviation (input) OpUnknown246 :: byte where "OpUnknown246 \<equiv> 0xf6"
abbreviation (input) OpUnknown247 :: byte where "OpUnknown247 \<equiv> 0xf7"
abbreviation (input) OpUnknown248 :: byte where "OpUnknown248 \<equiv> 0xf8"
abbreviation (input) OpUnknown249 :: byte where "OpUnknown249 \<equiv> 0xf9"
abbreviation (input) OpSmallInteger :: byte where "OpSmallInteger \<equiv> 0xfa"
abbreviation (input) OpPubKeys :: byte where "OpPubKeys \<equiv> 0xfb"
abbreviation (input) OpUnknown252 :: byte where "OpUnknown252 \<equiv> 0xfc"
abbreviation (input) OpPubKeyHash :: byte where "OpPubKeyHash \<equiv> 0xfd"
abbreviation (input) OpPubKey :: byte where "OpPubKey \<equiv> 0xfe"
abbreviation (input) OpInvalidOpCode :: byte where "OpInvalidOpCode \<equiv> 0xff"

text \<open>Conditional execution constants.\<close>

abbreviation (input) OpCondFalse :: int where "OpCondFalse \<equiv> 0"
abbreviation (input) OpCondTrue :: int where "OpCondTrue \<equiv> 1"
abbreviation (input) OpCondSkip :: int where "OpCondSkip \<equiv> 2"

section \<open>The opcode table\<close>

datatype opfunc =
    f_opcodeFalse
  | f_opcodePushData
  | f_opcode1Negate
  | f_opcodeReserved
  | f_opcodeN
  | f_opcodeNop
  | f_opcodeIf
  | f_opcodeNotIf
  | f_opcodeElse
  | f_opcodeEndif
  | f_opcodeVerify
  | f_opcodeReturn
  | f_opcodeCheckLockTimeVerify
  | f_opcodeCheckSequenceVerify
  | f_opcodeToAltStack
  | f_opcodeFromAltStack
  | f_opcode2Drop
  | f_opcode2Dup
  | f_opcode3Dup
  | f_opcode2Over
  | f_opcode2Rot
  | f_opcode2Swap
  | f_opcodeIfDup
  | f_opcodeDepth
  | f_opcodeDrop
  | f_opcodeDup
  | f_opcodeNip
  | f_opcodeOver
  | f_opcodePick
  | f_opcodeRoll
  | f_opcodeRot
  | f_opcodeSwap
  | f_opcodeTuck
  | f_opcodeDisabled
  | f_opcodeSize
  | f_opcodeEqual
  | f_opcodeEqualVerify
  | f_opcode1Add
  | f_opcode1Sub
  | f_opcodeNegate
  | f_opcodeAbs
  | f_opcodeNot
  | f_opcode0NotEqual
  | f_opcodeAdd
  | f_opcodeSub
  | f_opcodeBoolAnd
  | f_opcodeBoolOr
  | f_opcodeNumEqual
  | f_opcodeNumEqualVerify
  | f_opcodeNumNotEqual
  | f_opcodeLessThan
  | f_opcodeGreaterThan
  | f_opcodeLessThanOrEqual
  | f_opcodeGreaterThanOrEqual
  | f_opcodeMin
  | f_opcodeMax
  | f_opcodeWithin
  | f_opcodeCheckMultiSigECDSA
  | f_opcodeSha256
  | f_opcodeBlake2b
  | f_opcodeCheckSigECDSA
  | f_opcodeCheckSig
  | f_opcodeCheckSigVerify
  | f_opcodeCheckMultiSig
  | f_opcodeCheckMultiSigVerify
  | f_opcodeInvalid

record opcode =
  op_value :: byte
  op_name :: string
  op_length :: int
  op_opfunc :: opfunc

abbreviation (input) entry :: "byte \<Rightarrow> string \<Rightarrow> int \<Rightarrow> opfunc \<Rightarrow> opcode" where
  "entry v n l f \<equiv> \<lparr>op_value = v, op_name = n, op_length = l, op_opfunc = f\<rparr>"

definition push_opcodes :: "(byte \<times> opcode) list" where
  "push_opcodes =
    [(OpFalse, entry OpFalse ''OP_0'' 1 f_opcodeFalse),
     (OpData1, entry OpData1 ''OP_DATA_1'' 2 f_opcodePushData),
     (OpData2, entry OpData2 ''OP_DATA_2'' 3 f_opcodePushData),
     (OpData3, entry OpData3 ''OP_DATA_3'' 4 f_opcodePushData),
     (OpData4, entry OpData4 ''OP_DATA_4'' 5 f_opcodePushData),
     (OpData5, entry OpData5 ''OP_DATA_5'' 6 f_opcodePushData),
     (OpData6, entry OpData6 ''OP_DATA_6'' 7 f_opcodePushData),
     (OpData7, entry OpData7 ''OP_DATA_7'' 8 f_opcodePushData),
     (OpData8, entry OpData8 ''OP_DATA_8'' 9 f_opcodePushData),
     (OpData9, entry OpData9 ''OP_DATA_9'' 10 f_opcodePushData),
     (OpData10, entry OpData10 ''OP_DATA_10'' 11 f_opcodePushData),
     (OpData11, entry OpData11 ''OP_DATA_11'' 12 f_opcodePushData),
     (OpData12, entry OpData12 ''OP_DATA_12'' 13 f_opcodePushData),
     (OpData13, entry OpData13 ''OP_DATA_13'' 14 f_opcodePushData),
     (OpData14, entry OpData14 ''OP_DATA_14'' 15 f_opcodePushData),
     (OpData15, entry OpData15 ''OP_DATA_15'' 16 f_opcodePushData),
     (OpData16, entry OpData16 ''OP_DATA_16'' 17 f_opcodePushData),
     (OpData17, entry OpData17 ''OP_DATA_17'' 18 f_opcodePushData),
     (OpData18, entry OpData18 ''OP_DATA_18'' 19 f_opcodePushData),
     (OpData19, entry OpData19 ''OP_DATA_19'' 20 f_opcodePushData),
     (OpData20, entry OpData20 ''OP_DATA_20'' 21 f_opcodePushData),
     (OpData21, entry OpData21 ''OP_DATA_21'' 22 f_opcodePushData),
     (OpData22, entry OpData22 ''OP_DATA_22'' 23 f_opcodePushData),
     (OpData23, entry OpData23 ''OP_DATA_23'' 24 f_opcodePushData),
     (OpData24, entry OpData24 ''OP_DATA_24'' 25 f_opcodePushData),
     (OpData25, entry OpData25 ''OP_DATA_25'' 26 f_opcodePushData),
     (OpData26, entry OpData26 ''OP_DATA_26'' 27 f_opcodePushData),
     (OpData27, entry OpData27 ''OP_DATA_27'' 28 f_opcodePushData),
     (OpData28, entry OpData28 ''OP_DATA_28'' 29 f_opcodePushData),
     (OpData29, entry OpData29 ''OP_DATA_29'' 30 f_opcodePushData),
     (OpData30, entry OpData30 ''OP_DATA_30'' 31 f_opcodePushData),
     (OpData31, entry OpData31 ''OP_DATA_31'' 32 f_opcodePushData),
     (OpData32, entry OpData32 ''OP_DATA_32'' 33 f_opcodePushData),
     (OpData33, entry OpData33 ''OP_DATA_33'' 34 f_opcodePushData),
     (OpData34, entry OpData34 ''OP_DATA_34'' 35 f_opcodePushData),
     (OpData35, entry OpData35 ''OP_DATA_35'' 36 f_opcodePushData),
     (OpData36, entry OpData36 ''OP_DATA_36'' 37 f_opcodePushData),
     (OpData37, entry OpData37 ''OP_DATA_37'' 38 f_opcodePushData),
     (OpData38, entry OpData38 ''OP_DATA_38'' 39 f_opcodePushData),
     (OpData39, entry OpData39 ''OP_DATA_39'' 40 f_opcodePushData),
     (OpData40, entry OpData40 ''OP_DATA_40'' 41 f_opcodePushData),
     (OpData41, entry OpData41 ''OP_DATA_41'' 42 f_opcodePushData),
     (OpData42, entry OpData42 ''OP_DATA_42'' 43 f_opcodePushData),
     (OpData43, entry OpData43 ''OP_DATA_43'' 44 f_opcodePushData),
     (OpData44, entry OpData44 ''OP_DATA_44'' 45 f_opcodePushData),
     (OpData45, entry OpData45 ''OP_DATA_45'' 46 f_opcodePushData),
     (OpData46, entry OpData46 ''OP_DATA_46'' 47 f_opcodePushData),
     (OpData47, entry OpData47 ''OP_DATA_47'' 48 f_opcodePushData),
     (OpData48, entry OpData48 ''OP_DATA_48'' 49 f_opcodePushData),
     (OpData49, entry OpData49 ''OP_DATA_49'' 50 f_opcodePushData),
     (OpData50, entry OpData50 ''OP_DATA_50'' 51 f_opcodePushData),
     (OpData51, entry OpData51 ''OP_DATA_51'' 52 f_opcodePushData),
     (OpData52, entry OpData52 ''OP_DATA_52'' 53 f_opcodePushData),
     (OpData53, entry OpData53 ''OP_DATA_53'' 54 f_opcodePushData),
     (OpData54, entry OpData54 ''OP_DATA_54'' 55 f_opcodePushData),
     (OpData55, entry OpData55 ''OP_DATA_55'' 56 f_opcodePushData),
     (OpData56, entry OpData56 ''OP_DATA_56'' 57 f_opcodePushData),
     (OpData57, entry OpData57 ''OP_DATA_57'' 58 f_opcodePushData),
     (OpData58, entry OpData58 ''OP_DATA_58'' 59 f_opcodePushData),
     (OpData59, entry OpData59 ''OP_DATA_59'' 60 f_opcodePushData),
     (OpData60, entry OpData60 ''OP_DATA_60'' 61 f_opcodePushData),
     (OpData61, entry OpData61 ''OP_DATA_61'' 62 f_opcodePushData),
     (OpData62, entry OpData62 ''OP_DATA_62'' 63 f_opcodePushData),
     (OpData63, entry OpData63 ''OP_DATA_63'' 64 f_opcodePushData),
     (OpData64, entry OpData64 ''OP_DATA_64'' 65 f_opcodePushData),
     (OpData65, entry OpData65 ''OP_DATA_65'' 66 f_opcodePushData),
     (OpData66, entry OpData66 ''OP_DATA_66'' 67 f_opcodePushData),
     (OpData67, entry OpData67 ''OP_DATA_67'' 68 f_opcodePushData),
     (OpData68, entry OpData68 ''OP_DATA_68'' 69 f_opcodePushData),
     (OpData69, entry OpData69 ''OP_DATA_69'' 70 f_opcodePushData),
     (OpData70, entry OpData70 ''OP_DATA_70'' 71 f_opcodePushData),
     (OpData71, entry OpData71 ''OP_DATA_71'' 72 f_opcodePushData),
     (OpData72, entry OpData72 ''OP_DATA_72'' 73 f_opcodePushData),
     (OpData73, entry OpData73 ''OP_DATA_73'' 74 f_opcodePushData),
     (OpData74, entry OpData74 ''OP_DATA_74'' 75 f_opcodePushData),
     (OpData75, entry OpData75 ''OP_DATA_75'' 76 f_opcodePushData),
     (OpPushData1, entry OpPushData1 ''OP_PUSHDATA1'' (- 1) f_opcodePushData),
     (OpPushData2, entry OpPushData2 ''OP_PUSHDATA2'' (- 2) f_opcodePushData),
     (OpPushData4, entry OpPushData4 ''OP_PUSHDATA4'' (- 4) f_opcodePushData),
     (Op1Negate, entry Op1Negate ''OP_1NEGATE'' 1 f_opcode1Negate),
     (OpReserved, entry OpReserved ''OP_RESERVED'' 1 f_opcodeReserved),
     (OpTrue, entry OpTrue ''OP_1'' 1 f_opcodeN),
     (Op2, entry Op2 ''OP_2'' 1 f_opcodeN),
     (Op3, entry Op3 ''OP_3'' 1 f_opcodeN),
     (Op4, entry Op4 ''OP_4'' 1 f_opcodeN),
     (Op5, entry Op5 ''OP_5'' 1 f_opcodeN),
     (Op6, entry Op6 ''OP_6'' 1 f_opcodeN),
     (Op7, entry Op7 ''OP_7'' 1 f_opcodeN),
     (Op8, entry Op8 ''OP_8'' 1 f_opcodeN),
     (Op9, entry Op9 ''OP_9'' 1 f_opcodeN),
     (Op10, entry Op10 ''OP_10'' 1 f_opcodeN),
     (Op11, entry Op11 ''OP_11'' 1 f_opcodeN),
     (Op12, entry Op12 ''OP_12'' 1 f_opcodeN),
     (Op13, entry Op13 ''OP_13'' 1 f_opcodeN),
     (Op14, entry Op14 ''OP_14'' 1 f_opcodeN),
     (Op15, entry Op15 ''OP_15'' 1 f_opcodeN),
     (Op16, entry Op16 ''OP_16'' 1 f_opcodeN)]"

definition control_opcodes :: "(byte \<times> opcode) list" where
  "control_opcodes =
    [(OpNop, entry OpNop ''OP_NOP'' 1 f_opcodeNop),
     (OpVer, entry OpVer ''OP_VER'' 1 f_opcodeReserved),
     (OpIf, entry OpIf ''OP_IF'' 1 f_opcodeIf),
     (OpNotIf, entry OpNotIf ''OP_NOTIF'' 1 f_opcodeNotIf),
     (OpVerIf, entry OpVerIf ''OP_VERIF'' 1 f_opcodeReserved),
     (OpVerNotIf, entry OpVerNotIf ''OP_VERNOTIF'' 1 f_opcodeReserved),
     (OpElse, entry OpElse ''OP_ELSE'' 1 f_opcodeElse),
     (OpEndIf, entry OpEndIf ''OP_ENDIF'' 1 f_opcodeEndif),
     (OpVerify, entry OpVerify ''OP_VERIFY'' 1 f_opcodeVerify),
     (OpReturn, entry OpReturn ''OP_RETURN'' 1 f_opcodeReturn),
     (OpCheckLockTimeVerify, entry OpCheckLockTimeVerify ''OP_CHECKLOCKTIMEVERIFY'' 1 f_opcodeCheckLockTimeVerify),
     (OpCheckSequenceVerify, entry OpCheckSequenceVerify ''OP_CHECKSEQUENCEVERIFY'' 1 f_opcodeCheckSequenceVerify)]"

definition stack_opcodes :: "(byte \<times> opcode) list" where
  "stack_opcodes =
    [(OpToAltStack, entry OpToAltStack ''OP_TOALTSTACK'' 1 f_opcodeToAltStack),
     (OpFromAltStack, entry OpFromAltStack ''OP_FROMALTSTACK'' 1 f_opcodeFromAltStack),
     (Op2Drop, entry Op2Drop ''OP_2DROP'' 1 f_opcode2Drop),
     (Op2Dup, entry Op2Dup ''OP_2DUP'' 1 f_opcode2Dup),
     (Op3Dup, entry Op3Dup ''OP_3DUP'' 1 f_opcode3Dup),
     (Op2Over, entry Op2Over ''OP_2OVER'' 1 f_opcode2Over),
     (Op2Rot, entry Op2Rot ''OP_2ROT'' 1 f_opcode2Rot),
     (Op2Swap, entry Op2Swap ''OP_2SWAP'' 1 f_opcode2Swap),
     (OpIfDup, entry OpIfDup ''OP_IFDUP'' 1 f_opcodeIfDup),
     (OpDepth, entry OpDepth ''OP_DEPTH'' 1 f_opcodeDepth),
     (OpDrop, entry OpDrop ''OP_DROP'' 1 f_opcodeDrop),
     (OpDup, entry OpDup ''OP_DUP'' 1 f_opcodeDup),
     (OpNip, entry OpNip ''OP_NIP'' 1 f_opcodeNip),
     (OpOver, entry OpOver ''OP_OVER'' 1 f_opcodeOver),
     (OpPick, entry OpPick ''OP_PICK'' 1 f_opcodePick),
     (OpRoll, entry OpRoll ''OP_ROLL'' 1 f_opcodeRoll),
     (OpRot, entry OpRot ''OP_ROT'' 1 f_opcodeRot),
     (OpSwap, entry OpSwap ''OP_SWAP'' 1 f_opcodeSwap),
     (OpTuck, entry OpTuck ''OP_TUCK'' 1 f_opcodeTuck)]"

definition splice_opcodes :: "(byte \<times> opcode) list" where
  "splice_opcodes =
    [(OpCat, entry OpCat ''OP_CAT'' 1 f_opcodeDisabled),
     (OpSubStr, entry OpSubStr ''OP_SUBSTR'' 1 f_opcodeDisabled),
     (OpLeft, entry OpLeft ''OP_LEFT'' 1 f_opcodeDisabled),
     (OpRight, entry OpRight ''OP_RIGHT'' 1 f_opcodeDisabled),
     (OpSize, entry OpSize ''OP_SIZE'' 1 f_opcodeSize)]"

definition bitwise_opcodes :: "(byte \<times> opcode) list" where
  "bitwise_opcodes =
    [(OpInvert, entry OpInvert ''OP_INVERT'' 1 f_opcodeDisabled),
     (OpAnd, entry OpAnd ''OP_AND'' 1 f_opcodeDisabled),
     (OpOr, entry OpOr ''OP_OR'' 1 f_opcodeDisabled),
     (OpXor, entry OpXor ''OP_XOR'' 1 f_opcodeDisabled),
     (OpEqual, entry OpEqual ''OP_EQUAL'' 1 f_opcodeEqual),
     (OpEqualVerify, entry OpEqualVerify ''OP_EQUALVERIFY'' 1 f_opcodeEqualVerify),
     (OpReserved1, entry OpReserved1 ''OP_RESERVED1'' 1 f_opcodeReserved),
     (OpReserved2, entry OpReserved2 ''OP_RESERVED2'' 1 f_opcodeReserved)]"

definition numeric_opcodes :: "(byte \<times> opcode) list" where
  "numeric_opcodes =
    [(Op1Add, entry Op1Add ''OP_1ADD'' 1 f_opcode1Add),
     (Op1Sub, entry Op1Sub ''OP_1SUB'' 1 f_opcode1Sub),
     (Op2Mul, entry Op2Mul ''OP_2MUL'' 1 f_opcodeDisabled),
     (Op2Div, entry Op2Div ''OP_2DIV'' 1 f_opcodeDisabled),
     (OpNegate, entry OpNegate ''OP_NEGATE'' 1 f_opcodeNegate),
     (OpAbs, entry OpAbs ''OP_ABS'' 1 f_opcodeAbs),
     (OpNot, entry OpNot ''OP_NOT'' 1 f_opcodeNot),
     (Op0NotEqual, entry Op0NotEqual ''OP_0NOTEQUAL'' 1 f_opcode0NotEqual),
     (OpAdd, entry OpAdd ''OP_ADD'' 1 f_opcodeAdd),
     (OpSub, entry OpSub ''OP_SUB'' 1 f_opcodeSub),
     (OpMul, entry OpMul ''OP_MUL'' 1 f_opcodeDisabled),
     (OpDiv, entry OpDiv ''OP_DIV'' 1 f_opcodeDisabled),
     (OpMod, entry OpMod ''OP_MOD'' 1 f_opcodeDisabled),
     (OpLShift, entry OpLShift ''OP_LSHIFT'' 1 f_opcodeDisabled),
     (OpRShift, entry OpRShift ''OP_RSHIFT'' 1 f_opcodeDisabled),
     (OpBoolAnd, entry OpBoolAnd ''OP_BOOLAND'' 1 f_opcodeBoolAnd),
     (OpBoolOr, entry OpBoolOr ''OP_BOOLOR'' 1 f_opcodeBoolOr),
     (OpNumEqual, entry OpNumEqual ''OP_NUMEQUAL'' 1 f_opcodeNumEqual),
     (OpNumEqualVerify, entry OpNumEqualVerify ''OP_NUMEQUALVERIFY'' 1 f_opcodeNumEqualVerify),
     (OpNumNotEqual, entry OpNumNotEqual ''OP_NUMNOTEQUAL'' 1 f_opcodeNumNotEqual),
     (OpLessThan, entry OpLessThan ''OP_LESSTHAN'' 1 f_opcodeLessThan),
     (OpGreaterThan, entry OpGreaterThan ''OP_GREATERTHAN'' 1 f_opcodeGreaterThan),
     (OpLessThanOrEqual, entry OpLessThanOrEqual ''OP_LESSTHANOREQUAL'' 1 f_opcodeLessThanOrEqual),
     (OpGreaterThanOrEqual, entry OpGreaterThanOrEqual ''OP_GREATERTHANOREQUAL'' 1 f_opcodeGreaterThanOrEqual),
     (OpMin, entry OpMin ''OP_MIN'' 1 f_opcodeMin),
     (OpMax, entry OpMax ''OP_MAX'' 1 f_opcodeMax),
     (OpWithin, entry OpWithin ''OP_WITHIN'' 1 f_opcodeWithin)]"

definition crypto_opcodes :: "(byte \<times> opcode) list" where
  "crypto_opcodes =
    [(OpCheckMultiSigECDSA, entry OpCheckMultiSigECDSA ''OP_CHECKMULTISIGECDSA'' 1 f_opcodeCheckMultiSigECDSA),
     (OpSHA256, entry OpSHA256 ''OP_SHA256'' 1 f_opcodeSha256),
     (OpBlake2b, entry OpBlake2b ''OP_BLAKE2B'' 1 f_opcodeBlake2b),
     (OpCheckSigECDSA, entry OpCheckSigECDSA ''OP_CHECKSIGECDSA'' 1 f_opcodeCheckSigECDSA),
     (OpCheckSig, entry OpCheckSig ''OP_CHECKSIG'' 1 f_opcodeCheckSig),
     (OpCheckSigVerify, entry OpCheckSigVerify ''OP_CHECKSIGVERIFY'' 1 f_opcodeCheckSigVerify),
     (OpCheckMultiSig, entry OpCheckMultiSig ''OP_CHECKMULTISIG'' 1 f_opcodeCheckMultiSig),
     (OpCheckMultiSigVerify, entry OpCheckMultiSigVerify ''OP_CHECKMULTISIGVERIFY'' 1 f_opcodeCheckMultiSigVerify)]"

definition reserved_opcodes :: "(byte \<times> opcode) list" where
  "reserved_opcodes =
    [(OpNop1, entry OpNop1 ''OP_NOP1'' 1 f_opcodeNop),
     (OpNop2, entry OpNop2 ''OP_NOP2'' 1 f_opcodeNop),
     (OpNop3, entry OpNop3 ''OP_NOP3'' 1 f_opcodeNop),
     (OpNop4, entry OpNop4 ''OP_NOP4'' 1 f_opcodeNop),
     (OpNop5, entry OpNop5 ''OP_NOP5'' 1 f_opcodeNop),
     (OpNop6, entry OpNop6 ''OP_NOP6'' 1 f_opcodeNop),
     (OpNop7, entry OpNop7 ''OP_NOP7'' 1 f_opcodeNop),
     (OpNop8, entry OpNop8 ''OP_NOP8'' 1 f_opcodeNop),
     (OpNop9, entry OpNop9 ''OP_NOP9'' 1 f_opcodeNop),
     (OpNop10, entry OpNop10 ''OP_NOP10'' 1 f_opcodeNop)]"

definition undefined_opcodes :: "(byte \<times> opcode) list" where
  "undefined_opcodes =
    [(OpUnknown166, entry OpUnknown166 ''OP_UNKNOWN166'' 1 f_opcodeInvalid),
     (OpUnknown167, entry OpUnknown167 ''OP_UNKNOWN167'' 1 f_opcodeInvalid),
     (OpUnknown188, entry OpUnknown188 ''OP_UNKNOWN188'' 1 f_opcodeInvalid),
     (OpUnknown189, entry OpUnknown189 ''OP_UNKNOWN189'' 1 f_opcodeInvalid),
     (OpUnknown190, entry OpUnknown190 ''OP_UNKNOWN190'' 1 f_opcodeInvalid),
     (OpUnknown191, entry OpUnknown191 ''OP_UNKNOWN191'' 1 f_opcodeInvalid),
     (OpUnknown192, entry OpUnknown192 ''OP_UNKNOWN192'' 1 f_opcodeInvalid),
     (OpUnknown193, entry OpUnknown193 ''OP_UNKNOWN193'' 1 f_opcodeInvalid),
     (OpUnknown194, entry OpUnknown194 ''OP_UNKNOWN194'' 1 f_opcodeInvalid),
     (OpUnknown195, entry OpUnknown195 ''OP_UNKNOWN195'' 1 f_opcodeInvalid),
     (OpUnknown196, entry OpUnknown196 ''OP_UNKNOWN196'' 1 f_opcodeInvalid),
     (OpUnknown197, entry OpUnknown197 ''OP_UNKNOWN197'' 1 f_opcodeInvalid),
     (OpUnknown198, entry OpUnknown198 ''OP_UNKNOWN198'' 1 f_opcodeInvalid),
     (OpUnknown199, entry OpUnknown199 ''OP_UNKNOWN199'' 1 f_opcodeInvalid),
     (OpUnknown200, entry OpUnknown200 ''OP_UNKNOWN200'' 1 f_opcodeInvalid),
     (OpUnknown201, entry OpUnknown201 ''OP_UNKNOWN201'' 1 f_opcodeInvalid),
     (OpUnknown202, entry OpUnknown202 ''OP_UNKNOWN202'' 1 f_opcodeInvalid),
     (OpUnknown203, entry OpUnknown203 ''OP_UNKNOWN203'' 1 f_opcodeInvalid),
     (OpUnknown204, entry OpUnknown204 ''OP_UNKNOWN204'' 1 f_opcodeInvalid),
     (OpUnknown205, entry OpUnknown205 ''OP_UNKNOWN205'' 1 f_opcodeInvalid),
     (OpUnknown206, entry OpUnknown206 ''OP_UNKNOWN206'' 1 f_opcodeInvalid),
     (OpUnknown207, entry OpUnknown207 ''OP_UNKNOWN207'' 1 f_opcodeInvalid),
     (OpUnknown208, entry OpUnknown208 ''OP_UNKNOWN208'' 1 f_opcodeInvalid),
     (OpUnknown209, entry OpUnknown209 ''OP_UNKNOWN209'' 1 f_opcodeInvalid),
     (OpUnknown210, entry OpUnknown210 ''OP_UNKNOWN210'' 1 f_opcodeInvalid),
     (OpUnknown211, entry OpUnknown211 ''OP_UNKNOWN211'' 1 f_opcodeInvalid),
     (OpUnknown212, entry OpUnknown212 ''OP_UNKNOWN212'' 1 f_opcodeInvalid),
     (OpUnknown213, entry OpUnknown213 ''OP_UNKNOWN213'' 1 f_opcodeInvalid),
     (OpUnknown214, entry OpUnknown214 ''OP_UNKNOWN214'' 1 f_opcodeInvalid),
     (OpUnknown215, entry OpUnknown215 ''OP_UNKNOWN215'' 1 f_opcodeInvalid),
     (OpUnknown216, entry OpUnknown216 ''OP_UNKNOWN216'' 1 f_opcodeInvalid),
     (OpUnknown217, entry OpUnknown217 ''OP_UNKNOWN217'' 1 f_opcodeInvalid),
     (OpUnknown218, entry OpUnknown218 ''OP_UNKNOWN218'' 1 f_opcodeInvalid),
     (OpUnknown219, entry OpUnknown219 ''OP_UNKNOWN219'' 1 f_opcodeInvalid),
     (OpUnknown220, entry OpUnknown220 ''OP_UNKNOWN220'' 1 f_opcodeInvalid),
     (OpUnknown221, entry OpUnknown221 ''OP_UNKNOWN221'' 1 f_opcodeInvalid),
     (OpUnknown222, entry OpUnknown222 ''OP_UNKNOWN222'' 1 f_opcodeInvalid),
     (OpUnknown223, entry OpUnknown223 ''OP_UNKNOWN223'' 1 f_opcodeInvalid),
     (OpUnknown224, entry OpUnknown224 ''OP_UNKNOWN224'' 1 f_opcodeInvalid),
     (OpUnknown225, entry OpUnknown225 ''OP_UNKNOWN225'' 1 f_opcodeInvalid),
     (OpUnknown226, entry OpUnknown226 ''OP_UNKNOWN226'' 1 f_opcodeInvalid),
     (OpUnknown227, entry OpUnknown227 ''OP_UNKNOWN227'' 1 f_opcodeInvalid),
     (OpUnknown228, entry OpUnknown228 ''OP_UNKNOWN228'' 1 f_opcodeInvalid),
     (OpUnknown229, entry OpUnknown229 ''OP_UNKNOWN229'' 1 f_opcodeInvalid),
     (OpUnknown230, entry OpUnknown230 ''OP_UNKNOWN230'' 1 f_opcodeInvalid),
     (OpUnknown231, entry OpUnknown231 ''OP_UNKNOWN231'' 1 f_opcodeInvalid),
     (OpUnknown232, entry OpUnknown232 ''OP_UNKNOWN232'' 1 f_opcodeInvalid),
     (OpUnknown233, entry OpUnknown233 ''OP_UNKNOWN233'' 1 f_opcodeInvalid),
     (OpUnknown234, entry OpUnknown234 ''OP_UNKNOWN234'' 1 f_opcodeInvalid),
     (OpUnknown235, entry OpUnknown235 ''OP_UNKNOWN235'' 1 f_opcodeInvalid),
     (OpUnknown236, entry OpUnknown236 ''OP_UNKNOWN236'' 1 f_opcodeInvalid),
     (OpUnknown237, entry OpUnknown237 ''OP_UNKNOWN237'' 1 f_opcodeInvalid),
     (OpUnknown238, entry OpUnknown238 ''OP_UNKNOWN238'' 1 f_opcodeInvalid),
     (OpUnknown239, entry OpUnknown239 ''OP_UNKNOWN239'' 1 f_opcodeInvalid),
     (OpUnknown240, entry OpUnknown240 ''OP_UNKNOWN240'' 1 f_opcodeInvalid),
     (OpUnknown241, entry OpUnknown241 ''OP_UNKNOWN241'' 1 f_opcodeInvalid),
     (OpUnknown242, entry OpUnknown242 ''OP_UNKNOWN242'' 1 f_opcodeInvalid),
     (OpUnknown243, entry OpUnknown243 ''OP_UNKNOWN243'' 1 f_opcodeInvalid),
     (OpUnknown244, entry OpUnknown244 ''OP_UNKNOWN244'' 1 f_opcodeInvalid),
     (OpUnknown245, entry OpUnknown245 ''OP_UNKNOWN245'' 1 f_opcodeInvalid),
     (OpUnknown246, entry OpUnknown246 ''OP_UNKNOWN246'' 1 f_opcodeInvalid),
     (OpUnknown247, entry OpUnknown247 ''OP_UNKNOWN247'' 1 f_opcodeInvalid),
     (OpUnknown248, entry OpUnknown248 ''OP_UNKNOWN248'' 1 f_opcodeInvalid),
     (OpUnknown249, entry OpUnknown249 ''OP_UNKNOWN249'' 1 f_opcodeInvalid),
     (OpSmallInteger, entry OpSmallInteger ''OP_SMALLINTEGER'' 1 f_opcodeInvalid),
     (OpPubKeys, entry OpPubKeys ''OP_PUBKEYS'' 1 f_opcodeInvalid),
     (OpUnknown252, entry OpUnknown252 ''OP_UNKNOWN252'' 1 f_opcodeInvalid),
     (OpPubKeyHash, entry OpPubKeyHash ''OP_PUBKEYHASH'' 1 f_opcodeInvalid),
     (OpPubKey, entry OpPubKey ''OP_PUBKEY'' 1 f_opcodeInvalid),
     (OpInvalidOpCode, entry OpInvalidOpCode ''OP_INVALIDOPCODE'' 1 f_opcodeInvalid)]"

lemmas opcode_groups = push_opcodes_def control_opcodes_def stack_opcodes_def splice_opcodes_def
  bitwise_opcodes_def numeric_opcodes_def crypto_opcodes_def reserved_opcodes_def undefined_opcodes_def

definition opcode_table :: "(byte \<times> opcode) list" where
  "opcode_table = push_opcodes @ control_opcodes @ stack_opcodes @ splice_opcodes @ bitwise_opcodes @
     numeric_opcodes @ crypto_opcodes @ reserved_opcodes @ undefined_opcodes"

text \<open>The array has an entry for every byte; the elements of a Go array that are not listed are zero.\<close>

definition opcodeArray :: "byte \<Rightarrow> opcode" where
  "opcodeArray b = (case map_of opcode_table b of Some op \<Rightarrow> op | None \<Rightarrow> entry 0 [] 0 f_opcodeInvalid)"

section \<open>Facts of the table\<close>

definition length_of_opcode :: "byte \<Rightarrow> int" where
  "length_of_opcode b =
    (if 1 \<le> b \<and> b \<le> 75 then int (unat b) + 1
     else if b = OpPushData1 then - 1 else if b = OpPushData2 then - 2
     else if b = OpPushData4 then - 4 else 1)"

lemma opcode_table_entries:
  "list_all (\<lambda>(k, op). op_value op = k \<and> op_length op = length_of_opcode k) opcode_table"
  by (simp add: opcode_table_def opcode_groups length_of_opcode_def)

lemma opcode_table_keys: "sort (map (unat \<circ> fst) opcode_table) = [0..<256]"
  by (simp add: opcode_table_def opcode_groups upt_rec)

lemma opcode_table_complete: "\<exists>op. map_of opcode_table b = Some op"
proof -
  have "unat b \<in> set [0..<256]" using unsigned_less [of b, where 'a=nat] by simp
  then have "unat b \<in> set (map (unat \<circ> fst) opcode_table)" by (metis opcode_table_keys set_sort)
  then have "b \<in> fst ` set opcode_table" by (force simp: image_iff word_unat_eq_iff)
  then show ?thesis by (metis domD dom_map_of_conv_image_fst)
qed

lemma opcodeArray_entry: "(b, opcodeArray b) \<in> set opcode_table"
  using opcode_table_complete [of b] by (auto simp: opcodeArray_def dest: map_of_SomeD)

lemma opcodeArray_value [simp]: "op_value (opcodeArray b) = b"
  and opcodeArray_length: "op_length (opcodeArray b) = length_of_opcode b"
  using opcode_table_entries opcodeArray_entry [of b] by (auto simp: list_all_iff)

lemma opcode_table_distinct: "distinct (map fst opcode_table)"
proof -
  have "distinct (map (unat \<circ> fst) opcode_table)"
    by (metis distinct_sort distinct_upt opcode_table_keys)
  then show ?thesis by (auto simp: distinct_map dest: inj_on_imageI2)
qed

lemma opcodeArray_eq: "(b, op) \<in> set opcode_table \<Longrightarrow> opcodeArray b = op"
  using opcode_table_distinct by (simp add: opcodeArray_def)

lemma opcodeArray_crypto:
  "opcodeArray OpBlake2b = entry OpBlake2b ''OP_BLAKE2B'' 1 f_opcodeBlake2b"
  "opcodeArray OpCheckSig = entry OpCheckSig ''OP_CHECKSIG'' 1 f_opcodeCheckSig"
  "opcodeArray OpCheckSigECDSA = entry OpCheckSigECDSA ''OP_CHECKSIGECDSA'' 1 f_opcodeCheckSigECDSA"
  by (rule opcodeArray_eq; simp add: opcode_table_def crypto_opcodes_def)+

lemma opcodeArray_equal: "opcodeArray OpEqual = entry OpEqual ''OP_EQUAL'' 1 f_opcodeEqual"
  by (rule opcodeArray_eq) (simp add: opcode_table_def bitwise_opcodes_def)

lemma opcodeArray_data:
  "opcodeArray OpData32 = entry OpData32 ''OP_DATA_32'' 33 f_opcodePushData"
  "opcodeArray OpData33 = entry OpData33 ''OP_DATA_33'' 34 f_opcodePushData"
  "opcodeArray OpData65 = entry OpData65 ''OP_DATA_65'' 66 f_opcodePushData"
  by (rule opcodeArray_eq; simp add: opcode_table_def push_opcodes_def)+

lemmas opcodeArray_templates = opcodeArray_crypto opcodeArray_equal opcodeArray_data

end
