(* ===== verification/Script_Parser.thy ===== *)
theory Script_Parser
  imports Script_Opcodes Domain_Types Little_Endian
begin

text \<open>
  Parsing of scripts, \<^verbatim>\<open>domain/consensus/utils/txscript/script.go\<close>, and the methods of
  \<^verbatim>\<open>parsedOpcode\<close> in \<^verbatim>\<open>opcode.go\<close>.  \<^verbatim>\<open>parseScriptTemplate\<close> is modelled with the table it is called
  with outside of tests, \<^verbatim>\<open>opcodeArray\<close>; the parser walks over the rest of the script instead of an
  index.  A parse error comes with the opcodes parsed before it.
\<close>

section \<open>Parsed opcodes\<close>

record parsedOpcode =
  pop_opcode :: opcode
  pop_data :: "byte list"

abbreviation pop_value :: "parsedOpcode \<Rightarrow> byte" where
  "pop_value pop \<equiv> op_value (pop_opcode pop)"

definition isUpgradableNop :: "parsedOpcode \<Rightarrow> bool" where
  "isUpgradableNop pop \<longleftrightarrow>
     pop_value pop \<in> {OpNop1, OpNop2, OpNop3, OpNop4, OpNop5, OpNop6, OpNop7, OpNop8, OpNop9, OpNop10}"

definition isDisabled :: "parsedOpcode \<Rightarrow> bool" where
  "isDisabled pop \<longleftrightarrow>
     pop_value pop \<in> {OpCat, OpSubStr, OpLeft, OpRight, OpInvert, OpAnd, OpOr, OpXor, Op2Mul, Op2Div,
       OpMul, OpDiv, OpMod, OpLShift, OpRShift}"

definition alwaysIllegal :: "parsedOpcode \<Rightarrow> bool" where
  "alwaysIllegal pop \<longleftrightarrow> pop_value pop \<in> {OpVerIf, OpVerNotIf}"

definition isConditional :: "parsedOpcode \<Rightarrow> bool" where
  "isConditional pop \<longleftrightarrow> pop_value pop \<in> {OpIf, OpNotIf, OpElse, OpEndIf}"

definition checkMinimalDataPush :: "parsedOpcode \<Rightarrow> unit script_result" where
  "checkMinimalDataPush pop =
    (let data = pop_data pop;
         dataLen = length data;
         opcode = pop_value pop
     in if dataLen = 0 \<and> opcode \<noteq> Op0 then scriptError ErrMinimalData
        else if dataLen = 1 \<and> data ! 0 \<ge> 1 \<and> data ! 0 \<le> 16 then
          (if opcode \<noteq> Op1 + data ! 0 - 1 then scriptError ErrMinimalData else Inr ())
        else if dataLen = 1 \<and> data ! 0 = 0x81 then
          (if opcode \<noteq> Op1Negate then scriptError ErrMinimalData else Inr ())
        else if dataLen \<le> 75 then
          (if unat opcode \<noteq> dataLen then scriptError ErrMinimalData else Inr ())
        else if dataLen \<le> 255 then
          (if opcode \<noteq> OpPushData1 then scriptError ErrMinimalData else Inr ())
        else if dataLen \<le> 65535 then
          (if opcode \<noteq> OpPushData2 then scriptError ErrMinimalData else Inr ())
        else Inr ())"

text \<open>\<^verbatim>\<open>bytes\<close> serializes a parsed opcode.\<close>

definition pop_bytes :: "parsedOpcode \<Rightarrow> byte list script_result" where
  "pop_bytes pop =
    (let op = pop_opcode pop;
         retbytes = [op_value op]
     in if op_length op = 1 then
          (if length (pop_data pop) \<noteq> 0 then scriptError ErrInternal else Inr retbytes)
        else
          let l = length (pop_data pop);
              (retbytes, nbytes) =
                (if op_length op = - 1 then
                   (let retbytes = retbytes @ [of_nat l]
                    in (retbytes, int (unat (retbytes ! 1)) + int (length retbytes)))
                 else if op_length op = - 2 then
                   (let retbytes = retbytes @ put_le 2 (of_nat l :: u16)
                    in (retbytes, int (unat (get_le (drop 1 retbytes) :: u16)) + int (length retbytes)))
                 else if op_length op = - 4 then
                   (let retbytes = retbytes @ put_le 4 (of_nat l :: u32)
                    in (retbytes, int (unat (get_le (drop 1 retbytes) :: u32)) + int (length retbytes)))
                 else (retbytes, op_length op));
              retbytes = retbytes @ pop_data pop
          in if int (length retbytes) \<noteq> nbytes then scriptError ErrInternal else Inr retbytes)"

section \<open>The parser\<close>

text \<open>The length of the data of \<^verbatim>\<open>OP_PUSHDATA\<close>, in the bytes \<open>off\<close> after the opcode.\<close>

definition pushLength :: "opcode \<Rightarrow> byte list \<Rightarrow> u64 script_result" where
  "pushLength op off =
    (if op_length op = - 1 then Inr (ucast (off ! 0))
     else if op_length op = - 2 then Inr (push_bit 8 (ucast (off ! 1)) OR ucast (off ! 0))
     else if op_length op = - 4 then
       Inr (push_bit 24 (ucast (off ! 3)) OR push_bit 16 (ucast (off ! 2)) OR
            push_bit 8 (ucast (off ! 1)) OR ucast (off ! 0))
     else scriptError ErrMalformedPush)"

text \<open>
  One iteration of the loop, on the rest of the script.  No opcode of the table has length 0, so
  the last case is the one of a negative length.
\<close>

definition parseOpcode :: "byte list \<Rightarrow> (parsedOpcode \<times> byte list) script_result" where
  "parseOpcode script =
    (let instr = script ! 0;
         op = opcodeArray instr
     in if op_length op = 1 then Inr (\<lparr>pop_opcode = op, pop_data = []\<rparr>, drop 1 script)
        else if op_length op > 1 then
          (if int (length script) < op_length op then scriptError ErrMalformedPush
           else Inr (\<lparr>pop_opcode = op, pop_data = take (nat (op_length op) - 1) (drop 1 script)\<rparr>,
                     drop (nat (op_length op)) script))
        else
          let off = drop 1 script
          in if int (length off) < - op_length op then scriptError ErrMalformedPush
             else
               rbind (pushLength op off)
                (\<lambda>l.
                  let off = drop (nat (- op_length op)) off
                  in if sint l > int (length off) \<or> sint l < 0 then scriptError ErrMalformedPush
                     else Inr (\<lparr>pop_opcode = op, pop_data = take (nat (sint l)) off\<rparr>,
                               drop (nat (sint l)) off)))"

lemma parseOpcode_shorter:
  assumes "parseOpcode script = Inr (pop, rest)" "script \<noteq> []"
  shows "length rest < length script"
proof -
  from assms(2) have "0 < length script" by simp
  with assms(1) show ?thesis
    by (auto simp: parseOpcode_def Let_def rbind_Inr_iff split: if_splits)
qed

function parseScript :: "byte list \<Rightarrow> parsedOpcode list \<times> ErrorCode fault option" where
  "parseScript script =
    (if script = [] then ([], None)
     else case parseOpcode script of
            Inl err \<Rightarrow> ([], Some err)
          | Inr (pop, rest) \<Rightarrow>
              let (retScript, err) = parseScript rest in (pop # retScript, err))"
  by auto
termination
  by (relation "measure length") (auto intro: parseOpcode_shorter)

declare parseScript.simps [simp del]

definition parseScript_result :: "byte list \<Rightarrow> parsedOpcode list script_result" where
  "parseScript_result script =
    (case parseScript script of (pops, None) \<Rightarrow> Inr pops | (pops, Some err) \<Rightarrow> Inl err)"

fun unparseScript :: "parsedOpcode list \<Rightarrow> byte list script_result" where
  "unparseScript [] = Inr []"
| "unparseScript (pop # pops) = rbind (pop_bytes pop) (\<lambda>b. rbind (unparseScript pops) (\<lambda>bs. Inr (b @ bs)))"

section \<open>Classification of scripts\<close>

definition MaxScriptPublicKeyVersion :: u16 where "MaxScriptPublicKeyVersion = 0"
definition MaxOpsPerScript :: int where "MaxOpsPerScript = 201"
definition MaxPubKeysPerMultiSig :: int where "MaxPubKeysPerMultiSig = 20"
definition MaxScriptElementSize :: nat where "MaxScriptElementSize = 520"

definition isSmallInt :: "opcode \<Rightarrow> bool" where
  "isSmallInt op \<longleftrightarrow> op_value op = Op0 \<or> (op_value op \<ge> Op1 \<and> op_value op \<le> Op16)"

definition asSmallInt :: "opcode \<Rightarrow> int" where
  "asSmallInt op = (if op_value op = Op0 then 0 else int (unat (op_value op - (Op1 - 1))))"

definition isScriptHash :: "parsedOpcode list \<Rightarrow> bool" where
  "isScriptHash pops \<longleftrightarrow> length pops = 3 \<and> pop_value (pops ! 0) = OpBlake2b \<and>
     pop_value (pops ! 1) = OpData32 \<and> pop_value (pops ! 2) = OpEqual"

definition IsPayToScriptHash :: "ScriptPublicKey \<Rightarrow> bool" where
  "IsPayToScriptHash script =
    (case parseScript (spk_Script script) of
       (pops, Some err) \<Rightarrow> False
     | (pops, None) \<Rightarrow> isScriptHash pops)"

fun isPushOnly :: "parsedOpcode list \<Rightarrow> bool" where
  "isPushOnly [] = True"
| "isPushOnly (pop # pops) = (if pop_value pop > Op16 then False else isPushOnly pops)"

definition canonicalPush :: "parsedOpcode \<Rightarrow> bool" where
  "canonicalPush pop =
    (let opcode = pop_value pop;
         data = pop_data pop;
         dataLen = length data
     in if opcode > Op16 then True
        else if opcode < OpPushData1 \<and> opcode > Op0 \<and> (dataLen = 1 \<and> data ! 0 \<le> 16) then False
        else if opcode = OpPushData1 \<and> dataLen < unat OpPushData1 then False
        else if opcode = OpPushData2 \<and> dataLen \<le> 0xff then False
        else if opcode = OpPushData4 \<and> dataLen \<le> 0xffff then False
        else True)"

text \<open>The loop of \<^verbatim>\<open>getSigOpCount\<close>; \<open>prev\<close> is the opcode before the current one, if any.\<close>

fun getSigOpCount_from :: "parsedOpcode option \<Rightarrow> parsedOpcode list \<Rightarrow> bool \<Rightarrow> int \<Rightarrow> int" where
  "getSigOpCount_from prev [] precise nSigs = nSigs"
| "getSigOpCount_from prev (pop # pops) precise nSigs =
     getSigOpCount_from (Some pop) pops precise
       (if pop_value pop = OpCheckSig \<or> pop_value pop = OpCheckSigVerify then nSigs + 1
        else if pop_value pop = OpCheckMultiSig \<or> pop_value pop = OpCheckMultiSigVerify then
          (case prev of
             Some p \<Rightarrow> if precise \<and> pop_value p \<ge> Op1 \<and> pop_value p \<le> Op16
                       then nSigs + asSmallInt (pop_opcode p) else nSigs + MaxPubKeysPerMultiSig
           | None \<Rightarrow> nSigs + MaxPubKeysPerMultiSig)
        else nSigs)"

definition getSigOpCount :: "parsedOpcode list \<Rightarrow> bool \<Rightarrow> int" where
  "getSigOpCount pops precise = getSigOpCount_from None pops precise 0"

definition GetSigOpCount :: "byte list \<Rightarrow> int" where
  "GetSigOpCount script = (let (pops, _) = parseScript script in getSigOpCount pops False)"

definition GetPreciseSigOpCount :: "byte list \<Rightarrow> ScriptPublicKey \<Rightarrow> bool \<Rightarrow> int" where
  "GetPreciseSigOpCount scriptSig scriptPubKey isP2SH =
    (let (pops, _) = parseScript (spk_Script scriptPubKey)
     in if \<not> (isP2SH \<and> isScriptHash pops) then getSigOpCount pops True
        else case parseScript scriptSig of
          (sigPops, Some err) \<Rightarrow> 0
        | (sigPops, None) \<Rightarrow>
            if \<not> isPushOnly sigPops \<or> length sigPops = 0 then 0
            else
              let shScript = pop_data (sigPops ! (length sigPops - 1))
              in if length shScript = 0 then 0
                 else let (shPops, _) = parseScript shScript in getSigOpCount shPops True)"

definition IsUnspendable :: "byte list \<Rightarrow> bool" where
  "IsUnspendable scriptPubKey =
    (case parseScript scriptPubKey of
       (pops, Some err) \<Rightarrow> True
     | (pops, None) \<Rightarrow> length pops > 0 \<and> pop_value (pops ! 0) = OpReturn)"

section \<open>Parsing and unparsing\<close>

lemma ucast_le:
  "(ucast (a::byte) :: u64) = word_of_int (le_val [a])"
  "push_bit 8 (ucast (b::byte)) OR (ucast a :: u64) = word_of_int (le_val [a, b])"
  "push_bit 24 (ucast (d::byte)) OR push_bit 16 (ucast (c::byte)) OR push_bit 8 (ucast b) OR (ucast a :: u64) =
     word_of_int (le_val [a, b, c, d])"
proof -
  have n: "le_val (x # xs) = uint x OR push_bit 8 (le_val xs)" for x xs by (rule le_val_Cons_or)
  show "(ucast a :: u64) = word_of_int (le_val [a])" by simp
  show "push_bit 8 (ucast b) OR (ucast a :: u64) = word_of_int (le_val [a, b])"
    unfolding n by (simp add: of_int_or_eq of_int_push_bit or.commute)
  show "push_bit 24 (ucast d) OR push_bit 16 (ucast c) OR push_bit 8 (ucast b) OR (ucast a :: u64) =
     word_of_int (le_val [a, b, c, d])"
    unfolding n by (simp add: of_int_or_eq of_int_push_bit push_bit_or or.commute or.left_commute)
qed

lemma sint_le_val:
  assumes "length bs \<le> 4"
  shows "sint (word_of_int (le_val bs) :: u64) = le_val bs"
proof -
  have "(256::int) ^ length bs \<le> 256 ^ 4" using assms by (intro power_increasing) simp_all
  with le_val_bound [of bs] have "le_val bs < 256 ^ 4" by linarith
  then have "le_val bs < 2 ^ 63" by simp
  moreover have "- (2 ^ 63) \<le> le_val bs" using le_val_nonneg [of bs] by (rule order_trans [rotated]) simp
  ultimately show ?thesis by (intro sint_of_int_id) simp_all
qed

lemma take_4: "4 \<le> length xs \<Longrightarrow> take 4 xs = [xs ! 0, xs ! 1, xs ! 2, xs ! 3]"
  by (cases xs; cases "tl xs"; cases "tl (tl xs)"; cases "tl (tl (tl xs))") (auto simp: numeral_eq_Suc)

lemma take_2: "2 \<le> length xs \<Longrightarrow> take 2 xs = [xs ! 0, xs ! 1]"
  by (cases xs; cases "tl xs") (auto simp: numeral_eq_Suc)

lemma take_1: "1 \<le> length xs \<Longrightarrow> take 1 xs = [xs ! 0]"
  by (cases xs) auto

text \<open>The loop body, by the three shapes of an opcode.\<close>

lemma parseOpcode_single:
  "op_length (opcodeArray b) = 1 \<Longrightarrow> parseOpcode (b # s) = Inr (\<lparr>pop_opcode = opcodeArray b, pop_data = []\<rparr>, s)"
  by (simp add: parseOpcode_def Let_def)

lemma parseOpcode_data:
  assumes "op_length (opcodeArray b) = int n + 1" "0 < n"
  shows "parseOpcode (b # s) =
    (if length s < n then scriptError ErrMalformedPush
     else Inr (\<lparr>pop_opcode = opcodeArray b, pop_data = take n s\<rparr>, drop n s))"
proof -
  have "nat (int n + 1) = Suc n" by simp
  with assms show ?thesis by (simp add: parseOpcode_def Let_def)
qed

lemma parseOpcode_pushdata:
  assumes "op_length (opcodeArray b) = - int k" "k \<in> {1, 2, 4}"
  shows "parseOpcode (b # s) =
    (if length s < k \<or> int (length s - k) < le_val (take k s) then scriptError ErrMalformedPush
     else Inr (\<lparr>pop_opcode = opcodeArray b, pop_data = take (nat (le_val (take k s))) (drop k s)\<rparr>,
               drop (nat (le_val (take k s))) (drop k s)))"
proof (cases "length s < k")
  case True
  then show ?thesis using assms by (auto simp: parseOpcode_def Let_def)
next
  case False
  have nn: "\<not> le_val (take k s) < 0" by (simp add: not_less)
  have si: "sint (word_of_int (le_val (take k s)) :: u64) = le_val (take k s)"
    using assms by (intro sint_le_val) auto
  from assms(2) consider "k = 1" | "k = 2" | "k = 4" by blast
  then have l: "pushLength (opcodeArray b) s = Inr (word_of_int (le_val (take k s)))"
  proof cases
    case 1
    with assms(1) False show ?thesis by (cases s) (simp_all add: pushLength_def)
  next
    case 2
    with assms(1) False show ?thesis
      using ucast_le(2) [of "s ! 1" "s ! 0"] by (simp add: pushLength_def take_2 del: le_val.simps)
  next
    case 3
    with assms(1) False show ?thesis
      using ucast_le(3) [of "s ! 3" "s ! 2" "s ! 1" "s ! 0"] by (simp add: pushLength_def take_4 del: le_val.simps)
  qed
  have "nat (- op_length (opcodeArray b)) = k" "op_length (opcodeArray b) < 0" using assms by auto
  then show ?thesis
    using False nn si by (simp add: parseOpcode_def Let_def l assms(1))
qed


lemma opcode_shapes:
  obtains (single) "op_length (opcodeArray b) = 1"
  | (data) "op_length (opcodeArray b) = int (unat b) + 1" "0 < unat b" "unat b \<le> 75"
  | (pushdata) k where "op_length (opcodeArray b) = - int k" "k \<in> {1, 2, 4}"
proof -
  consider "1 \<le> b \<and> b \<le> 75" | "b = 76" | "b = 77" | "b = 78"
    | "\<not> (1 \<le> b \<and> b \<le> 75)" "b \<noteq> 76" "b \<noteq> 77" "b \<noteq> 78" by blast
  then show thesis
  proof cases
    case 1
    then show thesis by (intro data) (simp_all add: opcodeArray_length length_of_opcode_def word_le_nat_alt)
  next
    case 2
    then show thesis by (intro pushdata [of 1]) (simp_all add: opcodeArray_length length_of_opcode_def)
  next
    case 3
    then show thesis by (intro pushdata [of 2]) (simp_all add: opcodeArray_length length_of_opcode_def)
  next
    case 4
    then show thesis by (intro pushdata [of 4]) (simp_all add: opcodeArray_length length_of_opcode_def)
  next
    case 5
    then show thesis by (intro single) (auto simp: opcodeArray_length length_of_opcode_def)
  qed
qed

lemma pop_bytes_single:
  "op_length op = 1 \<Longrightarrow> pop_bytes \<lparr>pop_opcode = op, pop_data = []\<rparr> = Inr [op_value op]"
  by (simp add: pop_bytes_def Let_def)

lemma pop_bytes_data:
  "op_length op = int (length d) + 1 \<Longrightarrow> d \<noteq> [] \<Longrightarrow>
   pop_bytes \<lparr>pop_opcode = op, pop_data = d\<rparr> = Inr (op_value op # d)"
  by (simp add: pop_bytes_def Let_def)

lemma of_nat_le_val: "(of_nat (nat (le_val bs)) :: 'a::len word) = get_le bs"
  by (simp add: get_le_def)

lemma uint_get_le:
  "le_val bs < 2 ^ LENGTH('a::len) \<Longrightarrow> uint (get_le bs :: 'a word) = le_val bs"
  by (simp add: get_le_def uint_word_of_int_eq take_bit_int_eq_self)

lemma pop_bytes_pushdata:
  assumes "op_length op = - int k" "k \<in> {1, 2, 4}" "length bs = k" "length d = nat (le_val bs)"
  shows "pop_bytes \<lparr>pop_opcode = op, pop_data = d\<rparr> = Inr (op_value op # bs @ d)"
proof -
  have bound: "le_val bs < 256 ^ k" using le_val_bound [of bs] assms(3) by simp
  from assms(2) consider "k = 1" | "k = 2" | "k = 4" by blast
  then show ?thesis
  proof cases
    case 1
    then obtain x where "bs = [x]" using assms(3) by (cases bs) auto
    with 1 assms show ?thesis by (simp add: pop_bytes_def Let_def)
  next
    case 2
    have p: "put_le 2 (of_nat (length d) :: u16) = bs"
      using assms 2 by (simp add: of_nat_le_val put_le_get_le)
    have "uint (get_le bs :: u16) = int (length d)"
      using bound 2 assms(4) uint_get_le [of bs, where 'a=16] by simp
    with 2 assms(1,3) p show ?thesis by (simp add: pop_bytes_def Let_def)
  next
    case 3
    have p: "put_le 4 (of_nat (length d) :: u32) = bs"
      using assms 3 by (simp add: of_nat_le_val put_le_get_le)
    have "uint (get_le bs :: u32) = int (length d)"
      using bound 3 assms(4) uint_get_le [of bs, where 'a=32] by simp
    with 3 assms(1,3) p show ?thesis by (simp add: pop_bytes_def Let_def)
  qed
qed

lemma parseOpcode_bytes:
  assumes "parseOpcode (b # s) = Inr (pop, rest)"
  shows "\<exists>bs. pop_bytes pop = Inr bs \<and> b # s = bs @ rest \<and> pop_opcode pop = opcodeArray b"
proof (cases rule: opcode_shapes [of b])
  case single
  with assms show ?thesis by (auto simp: parseOpcode_single pop_bytes_single)
next
  case data
  have "pop_bytes \<lparr>pop_opcode = opcodeArray b, pop_data = take (unat b) s\<rparr> = Inr (b # take (unat b) s)"
    if "unat b \<le> length s"
    using data that pop_bytes_data [of "opcodeArray b" "take (unat b) s"] by (cases s) auto
  with assms show ?thesis by (auto simp: parseOpcode_data [OF data(1,2)] split: if_splits)
next
  case (pushdata k)
  let ?d = "take (nat (le_val (take k s))) (drop k s)"
  from assms have c: "\<not> length s < k" "\<not> int (length s - k) < le_val (take k s)"
    and pop: "pop = \<lparr>pop_opcode = opcodeArray b, pop_data = ?d\<rparr>"
    and rest: "rest = drop (nat (le_val (take k s))) (drop k s)"
    unfolding parseOpcode_pushdata [OF pushdata] by (auto split: if_splits)
  have "pop_bytes pop = Inr (b # take k s @ ?d)"
    using pop_bytes_pushdata [OF pushdata, of "take k s" ?d] c by (simp add: pop)
  moreover have "b # s = (b # take k s @ ?d) @ rest" unfolding rest by (simp del: drop_drop)
  ultimately show ?thesis using pop by simp
qed

lemma parseScript_Nil [simp]: "parseScript [] = ([], None)"
  by (subst parseScript.simps) simp

lemma parseScript_Cons:
  "parseScript (b # s) = (case parseOpcode (b # s) of
     Inl err \<Rightarrow> ([], Some err)
   | Inr (pop, rest) \<Rightarrow> let (retScript, err) = parseScript rest in (pop # retScript, err))"
  by (subst parseScript.simps) simp

lemma unparse_parse:
  "parseScript script = (pops, None) \<Longrightarrow> unparseScript pops = Inr script"
proof (induction script arbitrary: pops rule: parseScript.induct)
  case (1 script)
  show ?case
  proof (cases script)
    case Nil
    with 1 show ?thesis by simp
  next
    case (Cons b s)
    with 1(2) obtain pop rest ps where p: "parseOpcode (b # s) = Inr (pop, rest)"
      "parseScript rest = (ps, None)" "pops = pop # ps"
      by (auto simp: parseScript_Cons split: sum.splits prod.splits)
    have "unparseScript ps = Inr rest" using 1(1) Cons p by simp
    moreover obtain bs where "pop_bytes pop = Inr bs" "b # s = bs @ rest"
      using parseOpcode_bytes [OF p(1)] by blast
    ultimately show ?thesis using p Cons by simp
  qed
qed


lemma parseOpcode_pop_bytes:
  assumes pop: "pop_opcode pop = opcodeArray b" and bs: "pop_bytes pop = Inr bs"
  shows "parseOpcode (bs @ r) = Inr (pop, r)"
proof (cases rule: opcode_shapes [of b])
  case single
  with assms have "bs = [b]" "pop = \<lparr>pop_opcode = opcodeArray b, pop_data = []\<rparr>"
    by (cases pop; auto simp: pop_bytes_def Let_def split: if_splits)+
  then show ?thesis using single by (simp add: parseOpcode_single)
next
  case data
  have "2 + uint b \<noteq> 0" "3 + uint b \<noteq> 0" "5 + uint b \<noteq> 0"
    using uint_ge_0 [of b] by linarith+
  with data assms have bs: "bs = b # pop_data pop" and "int (length (pop_data pop)) = int (unat b)"
    by (auto simp: pop_bytes_def Let_def split: if_splits)
  then have "length (pop_data pop) = unat b" by linarith
  moreover have "pop = \<lparr>pop_opcode = opcodeArray b, pop_data = pop_data pop\<rparr>" using pop by simp
  ultimately show ?thesis using bs by (simp add: parseOpcode_data [OF data(1,2)])
next
  case (pushdata k)
  have "\<exists>ls. length ls = k \<and> bs = b # ls @ pop_data pop \<and> le_val ls = int (length (pop_data pop))"
  proof -
    from pushdata(2) consider "k = 1" | "k = 2" | "k = 4" by blast
    then show ?thesis
    proof cases
      case 1
      with pushdata(1) assms show ?thesis
        by (intro exI [of _ "[of_nat (length (pop_data pop))]"])
          (auto simp: pop_bytes_def Let_def split: if_splits)
    next
      case 2
      let ?ls = "put_le 2 (of_nat (length (pop_data pop)) :: u16)"
      from 2 pushdata(1) assms have "bs = b # ?ls @ pop_data pop" "uint (get_le ?ls :: u16) = int (length (pop_data pop))"
        by (auto simp: pop_bytes_def Let_def split: if_splits)
      with 2 show ?thesis
        using uint_get_le [of ?ls, where 'a=16] le_val_bound [of ?ls] by (intro exI [of _ ?ls]) simp
    next
      case 3
      let ?ls = "put_le 4 (of_nat (length (pop_data pop)) :: u32)"
      from 3 pushdata(1) assms have "bs = b # ?ls @ pop_data pop" "uint (get_le ?ls :: u32) = int (length (pop_data pop))"
        by (auto simp: pop_bytes_def Let_def split: if_splits)
      with 3 show ?thesis
        using uint_get_le [of ?ls, where 'a=32] le_val_bound [of ?ls] by (intro exI [of _ ?ls]) simp
    qed
  qed
  then obtain ls where ls: "length ls = k" "bs = b # ls @ pop_data pop" "le_val ls = int (length (pop_data pop))"
    by blast
  have "pop = \<lparr>pop_opcode = opcodeArray b, pop_data = pop_data pop\<rparr>" using pop by simp
  with ls show ?thesis by (simp add: parseOpcode_pushdata [OF pushdata])
qed

lemma parse_unparse:
  "unparseScript pops = Inr script \<Longrightarrow> \<forall>pop \<in> set pops. pop_opcode pop = opcodeArray (pop_value pop) \<Longrightarrow>
   parseScript script = (pops, None)"
proof (induction pops arbitrary: script)
  case (Cons pop pops)
  then obtain b bs where b: "pop_bytes pop = Inr b" "unparseScript pops = Inr bs" "script = b @ bs"
    by (auto simp: rbind_Inr_iff)
  have "parseOpcode (b @ bs) = Inr (pop, bs)"
    using Cons.prems(2) b by (intro parseOpcode_pop_bytes [of pop "pop_value pop"]) simp_all
  moreover have "b \<noteq> []" using b(1) by (auto simp: pop_bytes_def Let_def split: if_splits)
  ultimately show ?case
    using Cons.IH [OF b(2)] Cons.prems(2) b(3) by (subst parseScript.simps) simp
qed simp

lemma parseScript_ops:
  "parseScript script = (pops, err) \<Longrightarrow> pop \<in> set pops \<Longrightarrow> pop_opcode pop = opcodeArray (pop_value pop)"
proof (induction script arbitrary: pops rule: parseScript.induct)
  case (1 script)
  show ?case
  proof (cases script)
    case Nil
    with 1 show ?thesis by simp
  next
    case (Cons b s)
    show ?thesis
    proof (cases "parseOpcode (b # s)")
      case (Inl e)
      with 1(2,3) Cons show ?thesis by (simp add: parseScript_Cons)
    next
      case (Inr pr)
      then obtain p rest where p: "parseOpcode (b # s) = Inr (p, rest)" by (cases pr) auto
      obtain ps e where ps: "parseScript rest = (ps, e)" by (cases "parseScript rest")
      have "pops = p # ps" using 1(2) Cons p ps by (simp add: parseScript_Cons)
      moreover have "pop_opcode p = opcodeArray (pop_value p)"
        using parseOpcode_bytes [OF p] by auto
      moreover have "e = err" using 1(2) Cons p ps by (simp add: parseScript_Cons)
      ultimately show ?thesis using 1(1) [OF _ p [folded Cons] refl, of ps] 1(3) Cons ps by auto
    qed
  qed
qed

section \<open>Counting signature operations\<close>

text \<open>What one opcode contributes to the count, after the opcode \<open>prev\<close>.\<close>

definition sigops :: "bool \<Rightarrow> parsedOpcode option \<Rightarrow> parsedOpcode \<Rightarrow> int" where
  "sigops precise prev pop =
     (if pop_value pop \<in> {OpCheckSig, OpCheckSigVerify} then 1 else 0)
     + (if pop_value pop \<in> {OpCheckMultiSig, OpCheckMultiSigVerify}
        then case prev of
               Some p \<Rightarrow> if precise \<and> Op1 \<le> pop_value p \<and> pop_value p \<le> Op16 then uint (pop_value p) - 80 else 20
             | None \<Rightarrow> 20
        else 0)"

lemma asSmallInt_Op:
  assumes "Op1 \<le> op_value op" "op_value op \<le> Op16"
  shows "asSmallInt op = uint (op_value op) - 80" "1 \<le> asSmallInt op" "asSmallInt op \<le> 16"
proof -
  have b: "81 \<le> unat (op_value op)" "unat (op_value op) \<le> 96" using assms by (simp_all add: word_le_nat_alt)
  have "op_value op \<noteq> Op0" using b(1) by auto
  then have "asSmallInt op = int (unat (op_value op - 80))" by (simp add: asSmallInt_def)
  also have "unat (op_value op - 80) = unat (op_value op) - 80" using b(1) by (simp add: unat_sub word_le_nat_alt)
  finally have a: "asSmallInt op = int (unat (op_value op)) - 80" using b(1) by linarith
  show "asSmallInt op = uint (op_value op) - 80" unfolding a uint_nat ..
  show "1 \<le> asSmallInt op" "asSmallInt op \<le> 16" unfolding a using b by linarith+
qed

lemma getSigOpCount_from_Cons:
  "getSigOpCount_from prev (pop # pops) precise n = getSigOpCount_from (Some pop) pops precise (n + sigops precise prev pop)"
  by (cases prev) (simp_all add: sigops_def MaxPubKeysPerMultiSig_def asSmallInt_Op(1))

lemma getSigOpCount_from_sum:
  "getSigOpCount_from prev pops precise n
    = n + (\<Sum>i\<leftarrow>[0..<length pops]. sigops precise (if i = 0 then prev else Some (pops ! (i - 1))) (pops ! i))"
proof (induction pops arbitrary: prev n)
  case (Cons pop pops)
  have "[0..<length (pop # pops)] = 0 # map Suc [0..<length pops]" by (simp only: length_Cons upt_conv_Cons map_Suc_upt zero_less_Suc)
  moreover have "sigops precise (Some ((pop # pops) ! i)) (pops ! i) = sigops precise (if i = 0 then Some pop else Some (pops ! (i - 1))) (pops ! i)" for i
    by (cases i) simp_all
  ultimately show ?case unfolding getSigOpCount_from_Cons Cons.IH by (simp add: o_def del: upt_Suc)
qed simp

lemma getSigOpCount_sum:
  "getSigOpCount pops precise =
     int (length (filter (\<lambda>pop. pop_value pop \<in> {OpCheckSig, OpCheckSigVerify}) pops))
     + (\<Sum>i\<leftarrow>filter (\<lambda>i. pop_value (pops ! i) \<in> {OpCheckMultiSig, OpCheckMultiSigVerify}) [0..<length pops].
          if precise \<and> 0 < i \<and> Op1 \<le> pop_value (pops ! (i - 1)) \<and> pop_value (pops ! (i - 1)) \<le> Op16
          then uint (pop_value (pops ! (i - 1))) - 80 else 20)"
proof -
  let ?A = "\<lambda>pop. pop_value pop \<in> {OpCheckSig, OpCheckSigVerify}" and ?M = "\<lambda>pop. pop_value pop \<in> {OpCheckMultiSig, OpCheckMultiSigVerify}"
  let ?c = "\<lambda>i. if precise \<and> 0 < i \<and> Op1 \<le> pop_value (pops ! (i - 1)) \<and> pop_value (pops ! (i - 1)) \<le> Op16
          then uint (pop_value (pops ! (i - 1))) - 80 else (20 :: int)"
  have "sigops precise (if i = 0 then None else Some (pops ! (i - 1))) (pops ! i)
      = (if ?A (pops ! i) then 1 else 0) + (if ?M (pops ! i) then ?c i else 0)" for i
    by (simp add: sigops_def)
  then have "getSigOpCount pops precise = (\<Sum>i\<leftarrow>[0..<length pops]. (if ?A (pops ! i) then 1 else 0) + (if ?M (pops ! i) then ?c i else 0))"
    by (simp add: getSigOpCount_def getSigOpCount_from_sum)
  also have "\<dots> = (\<Sum>pop\<leftarrow>map ((!) pops) [0..<length pops]. if ?A pop then 1 else 0) + (\<Sum>i\<leftarrow>[0..<length pops]. if ?M (pops ! i) then ?c i else 0)"
    by (simp add: sum_list_addf o_def)
  also have "(\<Sum>pop\<leftarrow>map ((!) pops) [0..<length pops]. if ?A pop then 1 else 0) = int (length (filter ?A pops))"
    unfolding map_nth by (induction pops) simp_all
  also have "(\<Sum>i\<leftarrow>[0..<length pops]. if ?M (pops ! i) then ?c i else 0) = (\<Sum>i\<leftarrow>filter (\<lambda>i. ?M (pops ! i)) [0..<length pops]. ?c i)"
    by (simp only: sum_list_map_filter')
  finally show ?thesis .
qed

lemma getSigOpCount_precise_le: "getSigOpCount pops True \<le> getSigOpCount pops False"
proof -
  have s: "sigops True prev pop \<le> sigops False prev pop" for prev pop
    using asSmallInt_Op [of "pop_opcode (the prev)"] by (auto simp: sigops_def split: option.splits)
  have "getSigOpCount_from prev pops True n \<le> getSigOpCount_from prev pops False n" for prev n
    unfolding getSigOpCount_from_sum by (intro add_left_mono sum_list_mono s)
  then show ?thesis by (simp add: getSigOpCount_def)
qed

lemma getSigOpCount_ecdsa:
  "getSigOpCount (filter (\<lambda>pop. pop_value pop \<notin> {OpCheckSigECDSA, OpCheckMultiSigECDSA}) pops) False = getSigOpCount pops False"
proof -
  let ?other = "\<lambda>pop. pop_value pop \<notin> {OpCheckSigECDSA, OpCheckMultiSigECDSA}"
  have p: "sigops False prev pop = sigops False prev' pop" for prev prev' pop by (simp add: sigops_def split: option.splits)
  have z: "pop_value pop \<in> {OpCheckSigECDSA, OpCheckMultiSigECDSA} \<Longrightarrow> sigops False prev pop = 0" for prev pop
    by (auto simp: sigops_def)
  have "getSigOpCount_from prev (filter ?other pops) False n
      = getSigOpCount_from prev' pops False n" for prev prev' n
  proof (induction pops arbitrary: prev prev' n)
    case (Cons pop pops)
    show ?case
    proof (cases "pop_value pop \<in> {OpCheckSigECDSA, OpCheckMultiSigECDSA}")
      case True
      then have "filter ?other (pop # pops) = filter ?other pops" by simp
      then show ?thesis unfolding getSigOpCount_from_Cons z [OF True] by (simp only: Cons.IH add_0_right)
    next
      case False
      then have "filter ?other (pop # pops) = pop # filter ?other pops" by simp
      then show ?thesis by (simp only: getSigOpCount_from_Cons p [of prev pop prev'] Cons.IH [of _ _ "Some pop"])
    qed
  qed simp
  then show ?thesis by (simp add: getSigOpCount_def)
qed

section \<open>Properties\<close>

text \<open>
  C30: \<^verbatim>\<open>parseScript\<close> and \<^verbatim>\<open>unparseScript\<close> are inverse.  A script parses without error into \<open>pops\<close>
  exactly when \<open>pops\<close> are opcodes of the table that unparse to the script.
\<close>

theorem parse_unparse_roundtrip:
  "parseScript script = (pops, None) \<longleftrightarrow>
   unparseScript pops = Inr script \<and> list_all (\<lambda>pop. pop_opcode pop = opcodeArray (pop_value pop)) pops"
proof
  assume p: "parseScript script = (pops, None)"
  show "unparseScript pops = Inr script \<and> list_all (\<lambda>pop. pop_opcode pop = opcodeArray (pop_value pop)) pops"
    using unparse_parse [OF p] parseScript_ops [OF p] by (simp add: list_all_iff)
next
  assume "unparseScript pops = Inr script \<and> list_all (\<lambda>pop. pop_opcode pop = opcodeArray (pop_value pop)) pops"
  then show "parseScript script = (pops, None)"
    by (intro parse_unparse) (simp_all add: list_all_iff)
qed

text \<open>
  C37: What the count of signature operations is.  A script counts one for each \<^verbatim>\<open>OpCheckSig\<close> and
  \<^verbatim>\<open>OpCheckSigVerify\<close>, and for each \<^verbatim>\<open>OpCheckMultiSig\<close> and \<^verbatim>\<open>OpCheckMultiSigVerify\<close> the number that the
  opcode right before pushes, if the count is precise and that opcode is \<^verbatim>\<open>Op1\<close> to \<^verbatim>\<open>Op16\<close>, and 20 otherwise.  A precise
  count is never larger than the other one.  The ECDSA checks \<^verbatim>\<open>OpCheckSigECDSA\<close> and
  \<^verbatim>\<open>OpCheckMultiSigECDSA\<close>, which verify signatures as well, do not count: a script has the count of
  the script without them.
\<close>

theorem sigop_count_exact:
  "getSigOpCount pops precise =
     int (length (filter (\<lambda>pop. pop_value pop \<in> {OpCheckSig, OpCheckSigVerify}) pops))
     + (\<Sum>i\<leftarrow>filter (\<lambda>i. pop_value (pops ! i) \<in> {OpCheckMultiSig, OpCheckMultiSigVerify}) [0..<length pops].
          if precise \<and> 0 < i \<and> Op1 \<le> pop_value (pops ! (i - 1)) \<and> pop_value (pops ! (i - 1)) \<le> Op16
          then uint (pop_value (pops ! (i - 1))) - 80 else 20)
   \<and> getSigOpCount pops True \<le> getSigOpCount pops False
   \<and> getSigOpCount (filter (\<lambda>pop. pop_value pop \<notin> {OpCheckSigECDSA, OpCheckMultiSigECDSA}) pops) False
     = getSigOpCount pops False"
  by (intro conjI getSigOpCount_sum getSigOpCount_precise_le getSigOpCount_ecdsa)

end
