(* ===== verification/Script_Num.thy ===== *)
theory Script_Num
  imports Script_Errors Little_Endian
begin

text \<open>
  Script numbers, \<^verbatim>\<open>domain/consensus/utils/txscript/scriptnum.go\<close>: little-endian magnitudes with a
  sign bit in the last byte.  A \<^verbatim>\<open>scriptNum\<close> is an \<^verbatim>\<open>int64\<close>, here an integer with the
  wrap-around \<open>i64\<close> written out.  \<open>num_of\<close> is the number a minimal encoding stands for;
  \<^verbatim>\<open>makeScriptNum\<close> computes it and \<^verbatim>\<open>Bytes\<close> inverts it.
\<close>

section \<open>Definitions\<close>

definition maxInt32 :: int where "maxInt32 = 2 ^ 31 - 1"

definition minInt32 :: int where "minInt32 = - (2 ^ 31)"

definition defaultScriptNumLen :: nat where "defaultScriptNumLen = 4"

definition checkMinimalDataEncoding :: "byte list \<Rightarrow> unit script_result" where
  "checkMinimalDataEncoding v =
    (if length v = 0 then Inr ()
     else if v ! (length v - 1) AND 0x7f = 0 \<and>
             (length v = 1 \<or> v ! (length v - 2) AND 0x80 = 0)
     then scriptError ErrMinimalData
     else Inr ())"

function encode_le :: "int \<Rightarrow> byte list" where
  "encode_le n = (if n > 0 then word_of_int (n AND 0xff) # encode_le (drop_bit 8 n) else [])"
  by auto
termination
  by (relation "measure nat") (auto simp: drop_bit_eq_div nat_mono_iff)

declare encode_le.simps [simp del]

definition scriptNum_Bytes :: "int \<Rightarrow> byte list script_result" where
  "scriptNum_Bytes n =
    (if n = 0 then Inr []
     else
       let isNegative = n < 0;
           n = (if isNegative then i64 (- n) else n);
           result = encode_le n
       in if result = [] then Inl Panic
          else if result ! (length result - 1) AND 0x80 \<noteq> 0
          then Inr (result @ [if isNegative then 0x80 else 0x00])
          else if isNegative
          then Inr (result[length result - 1 := result ! (length result - 1) OR 0x80])
          else Inr result)"

definition scriptNum_Int32 :: "int \<Rightarrow> int" where
  "scriptNum_Int32 n = (if n > maxInt32 then maxInt32 else if n < minInt32 then minInt32 else i32 n)"

fun decode_le :: "nat \<Rightarrow> int \<Rightarrow> byte list \<Rightarrow> int" where
  "decode_le i result [] = result"
| "decode_le i result (val # rest) =
     decode_le (Suc i) (result OR i64 (push_bit (8 * i mod 256) (uint val))) rest"

definition makeScriptNum :: "byte list \<Rightarrow> nat \<Rightarrow> int script_result" where
  "makeScriptNum v scriptNumLen =
    (if length v > scriptNumLen then scriptError ErrNumberTooBig
     else rbind (checkMinimalDataEncoding v) (\<lambda>_.
       if length v = 0 then Inr 0
       else
         let result = decode_le 0 0 v
         in if v ! (length v - 1) AND 0x80 \<noteq> 0
            then Inr (i64 (- (result AND NOT (i64 (push_bit (8 * (length v - 1) mod 256) 0x80)))))
            else Inr result))"

section \<open>Little-endian magnitudes\<close>

lemma i64_or: "i64 (a OR b) = i64 a OR i64 b"
  by (auto simp: i64_def bit_eq_iff bit_signed_take_bit_iff bit_or_iff)

lemma i64_and_not: "i64 (a AND NOT b) = i64 a AND NOT (i64 b)"
  by (auto simp: i64_def bit_eq_iff bit_signed_take_bit_iff bit_and_iff bit_not_iff)

lemma decode_le_val:
  "i + length v \<le> 8 \<Longrightarrow> decode_le i (i64 r) v = i64 (r OR push_bit (8 * i) (le_val v))"
proof (induction v arbitrary: i r)
  case (Cons b v)
  have "8 * i mod 256 = 8 * i" using Cons.prems by simp
  then have "decode_le i (i64 r) (b # v) = decode_le (Suc i) (i64 (r OR push_bit (8 * i) (uint b))) v"
    by (simp add: i64_or)
  also have "\<dots> = i64 ((r OR push_bit (8 * i) (uint b)) OR push_bit (8 * Suc i) (le_val v))"
    using Cons by simp
  also have "(r OR push_bit (8 * i) (uint b)) OR push_bit (8 * Suc i) (le_val v) =
      r OR push_bit (8 * i) (le_val (b # v))"
    by (simp only: le_val_Cons_or push_bit_or push_bit_push_bit or.assoc mult_Suc_right add.commute)
  finally show ?case .
qed simp

lemma decode_le_0: "length v \<le> 8 \<Longrightarrow> decode_le 0 0 v = i64 (le_val v)"
  using decode_le_val [of 0 v 0] by (simp add: i64_def)

lemma and_0xff: "(n::int) AND 0xff = n mod 256"
  using take_bit_eq_mask [of 8 n] by (simp add: mask_eq_exp_minus_1 take_bit_eq_mod)

lemma le_val_encode_le: "0 \<le> n \<Longrightarrow> le_val (encode_le n) = n"
proof (induction n rule: encode_le.induct)
  case (1 n)
  show ?case
  proof (cases "n > 0")
    case True
    have "0 \<le> drop_bit 8 n" using True by simp
    with 1 True have "le_val (encode_le (drop_bit 8 n)) = drop_bit 8 n" by blast
    moreover have "uint (word_of_int (n AND 0xff) :: byte) = n mod 256"
      by (simp add: and_0xff uint_word_of_int)
    ultimately show ?thesis using True
      by (subst encode_le.simps) (simp add: drop_bit_eq_div)
  next
    case False
    with 1 show ?thesis by (subst encode_le.simps) simp
  qed
qed

lemma encode_le_eq_Nil_iff: "encode_le n = [] \<longleftrightarrow> n \<le> 0"
  by (subst encode_le.simps) auto

lemma encode_le_le_val:
  "v = [] \<or> last v \<noteq> 0 \<Longrightarrow> encode_le (le_val v) = v"
proof (induction v)
  case Nil
  then show ?case by (simp add: encode_le_eq_Nil_iff)
next
  case (Cons b v)
  have b: "0 \<le> uint b" "uint b < 256" using uint_lt2p [of b] by simp_all
  have pos: "le_val (b # v) > 0"
  proof (cases "v = []")
    case True
    with Cons.prems have "uint b \<noteq> 0" by (auto simp: uint_0_iff)
    with True b show ?thesis by (simp add: order_less_le)
  next
    case False
    with Cons have "encode_le (le_val v) \<noteq> []" by auto
    then have "le_val v > 0" by (simp add: encode_le_eq_Nil_iff)
    with b show ?thesis unfolding le_val.simps by linarith
  qed
  have d: "drop_bit 8 (le_val (b # v)) = le_val v" using b by (simp add: drop_bit_eq_div)
  have m: "word_of_int (le_val (b # v) AND 0xff) = b"
    using b by (simp add: and_0xff mod_add_eq)
  have "encode_le (le_val v) = v" using Cons by (cases "v = []") (auto simp: encode_le_eq_Nil_iff)
  with pos d m show ?case by (subst encode_le.simps) (simp del: le_val.simps)
qed


section \<open>The sign bit\<close>

lemma byte_and_0x80: "(b::byte) AND 0x80 = 0 \<longleftrightarrow> \<not> bit b 7"
  using and_exp_eq_0_iff_not_bit [of b 7] by simp

lemma byte_and_0x7f: "(b::byte) AND 0x7f = take_bit 7 b"
  using take_bit_eq_mask [of 7 b] by (simp add: mask_eq_exp_minus_1)

lemma bit_0x80: "bit (0x80::byte) n \<longleftrightarrow> n = 7"
  using bit_exp_iff [of 7 n, where 'a=byte] by auto

lemma byte_bits: "bit (b::byte) n \<Longrightarrow> n = 7 \<or> n < 7"
  using bit_imp_le_length [of b n] by auto

lemma byte_split:
  "bit (b::byte) 7 \<Longrightarrow> take_bit 7 b OR 0x80 = b"
  "\<not> bit (b::byte) 7 \<Longrightarrow> take_bit 7 b = b"
proof -
  assume b: "bit b 7"
  show "take_bit 7 b OR 0x80 = b"
  proof (rule bit_eqI)
    fix n
    have "bit (take_bit 7 b OR 0x80) n \<longleftrightarrow> n < 7 \<and> bit b n \<or> n = 7"
      unfolding bit_or_iff bit_take_bit_iff bit_0x80 ..
    then show "bit (take_bit 7 b OR 0x80) n \<longleftrightarrow> bit b n" using b byte_bits [of b n] by blast
  qed
next
  assume "\<not> bit b 7"
  with byte_bits [of b] show "take_bit 7 b = b"
    by (intro bit_eqI) (metis bit_take_bit_iff)
qed

lemma uint_byte_sign:
  "uint (b::byte) = uint (take_bit 7 b) + (if bit b 7 then 128 else 0)"
proof (cases "bit b 7")
  case True
  have "uint b = uint (take_bit 7 b OR 0x80 :: byte)" using byte_split(1) [OF True] by simp
  also have "\<dots> = uint (take_bit 7 b) OR 0x80" by (simp add: uint_or)
  also have "\<dots> = uint (take_bit 7 b) + 0x80"
  proof (rule disjunctive_add [symmetric])
    fix n show "\<not> bit (uint (take_bit 7 b)) n \<or> \<not> bit (0x80::int) n"
      using bit_exp_iff [of 7 n, where 'a=int] by (auto simp: bit_uint_iff bit_take_bit_iff)
  qed
  finally show ?thesis using True by simp
next
  case False
  then show ?thesis using byte_split(2) [OF False] by simp
qed

lemma uint_take7: "0 \<le> uint (take_bit 7 (b::byte))" "uint (take_bit 7 (b::byte)) < 128"
  using take_bit_int_less_exp [of 7 "uint b"] by (simp_all add: unsigned_take_bit_eq)

lemma le_val_sign:
  assumes "v \<noteq> []"
  shows "le_val v = le_val (butlast v @ [take_bit 7 (last v)]) + (if bit (last v) 7 then 2 ^ (8 * length v - 1) else 0)"
    and "le_val (butlast v @ [take_bit 7 (last v)]) < 2 ^ (8 * length v - 1)"
proof -
  from assms obtain w b where v: "v = w @ [b]" by (metis rev_exhaust)
  have e: "(2::int) ^ (8 * length v - 1) = 256 ^ length w * 128"
  proof -
    have "8 * length v - 1 = 8 * length w + 7" by (simp add: v)
    then show ?thesis by (simp add: power_add power_mult)
  qed
  show "le_val v = le_val (butlast v @ [take_bit 7 (last v)]) + (if bit (last v) 7 then 2 ^ (8 * length v - 1) else 0)"
    unfolding e using uint_byte_sign [of b] by (simp add: v le_val_append algebra_simps)
  have "256 ^ length w * (uint (take_bit 7 b) + 1) \<le> 256 ^ length w * (128::int)"
    using uint_take7 [of b] by (intro mult_left_mono) simp_all
  with le_val_bound [of w] have "le_val w + 256 ^ length w * uint (take_bit 7 b) < 256 ^ length w * 128"
    unfolding distrib_left by linarith
  then show "le_val (butlast v @ [take_bit 7 (last v)]) < 2 ^ (8 * length v - 1)"
    unfolding e by (simp add: v le_val_append)
qed


section \<open>Minimal encodings\<close>

definition minimal :: "byte list \<Rightarrow> bool" where
  "minimal v \<longleftrightarrow> checkMinimalDataEncoding v = Inr ()"

lemma nth_last: "v \<noteq> [] \<Longrightarrow> v ! (length v - 1) = last v"
  by (simp add: last_conv_nth)

lemma minimal_Nil: "minimal []"
  by (simp add: minimal_def checkMinimalDataEncoding_def)

lemma minimal_snoc:
  "minimal (w @ [b]) \<longleftrightarrow> take_bit 7 b \<noteq> 0 \<or> (w \<noteq> [] \<and> bit (last w) 7)"
proof (cases "w = []")
  case True
  then show ?thesis by (simp add: minimal_def checkMinimalDataEncoding_def byte_and_0x7f)
next
  case False
  then have "(w @ [b]) ! (length w - 1) = last w" by (simp add: nth_append last_conv_nth)
  with False show ?thesis
    by (simp add: minimal_def checkMinimalDataEncoding_def byte_and_0x7f byte_and_0x80)
qed

lemma checkMinimalDataEncoding_cases:
  "checkMinimalDataEncoding v = (if minimal v then Inr () else scriptError ErrMinimalData)"
  by (auto simp: minimal_def checkMinimalDataEncoding_def)

text \<open>The number a minimal encoding stands for: magnitude without the sign bit, and sign.\<close>

definition num_of :: "byte list \<Rightarrow> int" where
  "num_of v = (if v = [] then 0
     else let m = le_val (butlast v @ [take_bit 7 (last v)]) in if bit (last v) 7 then - m else m)"

lemma makeScriptNum_eq:
  assumes "scriptNumLen \<le> 8"
  shows "makeScriptNum v scriptNumLen =
    (if length v > scriptNumLen then scriptError ErrNumberTooBig
     else if \<not> minimal v then scriptError ErrMinimalData
     else Inr (num_of v))"
proof (cases "v = [] \<or> scriptNumLen < length v \<or> \<not> minimal v")
  case True
  then show ?thesis
    by (auto simp: makeScriptNum_def checkMinimalDataEncoding_cases num_of_def minimal_Nil)
next
  case False
  then have v: "v \<noteq> []" "length v \<le> 8" "length v \<le> scriptNumLen" "minimal v"
    using assms by auto
  let ?m = "le_val (butlast v @ [take_bit 7 (last v)])"
  let ?k = "8 * length v - 1"
  have k: "?k \<le> 63" using v by simp
  then have "(2::int) ^ ?k \<le> 2 ^ 63" by (intro power_increasing) simp_all
  with le_val_sign(2) [OF v(1)] have m: "?m < 2 ^ 63" by linarith
  have d: "decode_le 0 0 v = i64 (le_val v)" using decode_le_0 v by blast
  have "?k = 7 + 8 * (length v - 1)" using v by (cases v) auto
  then have sh: "push_bit (8 * (length v - Suc 0)) (0x80::int) = 2 ^ (8 * length v - Suc 0)"
    by (simp add: push_bit_eq_mult power_add)
  show ?thesis
  proof (cases "bit (last v) 7")
    case True
    have "le_val v AND NOT (2 ^ ?k) = ?m"
    proof -
      have b: "\<not> bit ?m ?k" "\<And>n. bit ?m n \<Longrightarrow> n < ?k"
        using le_val_sign(2) [OF v(1)] take_bit_int_eq_self [of ?m ?k] bit_take_bit_iff [of ?k ?m]
        by auto
      then have "?m + 2 ^ ?k = ?m OR 2 ^ ?k"
        by (intro disjunctive_add) (auto simp: bit_exp_iff)
      then have "le_val v = ?m OR 2 ^ ?k" using le_val_sign(1) [OF v(1)] True by simp
      moreover have "(?m OR 2 ^ ?k) AND NOT (2 ^ ?k) = ?m"
        using b(1) by (intro bit_eqI) (auto simp: bit_and_iff bit_or_iff bit_not_iff bit_exp_iff)
      ultimately show ?thesis by simp
    qed
    then have "i64 (le_val v) AND NOT (i64 (2 ^ ?k)) = i64 ?m" by (simp flip: i64_and_not)
    also have "\<dots> = ?m" using m by (intro i64_id) (auto intro: order_trans [of _ 0])
    finally have "i64 (- (i64 (le_val v) AND NOT (i64 (2 ^ ?k)))) = - ?m"
      using m le_val_nonneg [of "butlast v @ [take_bit 7 (last v)]"] by (simp only: i64_id)
    with True v show ?thesis
      by (simp add: makeScriptNum_def checkMinimalDataEncoding_cases nth_last [simplified] byte_and_0x80
          d sh num_of_def Let_def)
  next
    case False
    then have "le_val v = ?m" using le_val_sign(1) [OF v(1)] by simp
    with m have "i64 (le_val v) = ?m" by (auto intro!: i64_id intro: order_trans [of _ 0])
    with False v show ?thesis
      by (simp add: makeScriptNum_def checkMinimalDataEncoding_cases nth_last [simplified] byte_and_0x80
          d num_of_def Let_def)
  qed
qed


section \<open>Encoding and decoding\<close>

lemma scriptNum_Bytes_sign:
  assumes "0 < m" "m < 2 ^ 63"
  shows "scriptNum_Bytes m = Inr (if bit (last (encode_le m)) 7 then encode_le m @ [0x00] else encode_le m)"
    and "scriptNum_Bytes (- m) =
      Inr (if bit (last (encode_le m)) 7 then encode_le m @ [0x80]
           else butlast (encode_le m) @ [last (encode_le m) OR 0x80])"
proof -
  have ne: "encode_le m \<noteq> []" using assms by (simp add: encode_le_eq_Nil_iff)
  have neg: "i64 m = m" using assms by (intro i64_id) auto
  note nl = nth_last [OF ne, simplified]
  show "scriptNum_Bytes m = Inr (if bit (last (encode_le m)) 7 then encode_le m @ [0x00] else encode_le m)"
    using assms ne by (simp add: scriptNum_Bytes_def nl byte_and_0x80 Let_def)
  have "xs[length xs - Suc 0 := y] = butlast xs @ [y]" if "xs \<noteq> []" for xs and y :: byte
    using that by (cases xs rule: rev_cases) auto
  then show "scriptNum_Bytes (- m) =
      Inr (if bit (last (encode_le m)) 7 then encode_le m @ [0x80]
           else butlast (encode_le m) @ [last (encode_le m) OR 0x80])"
    using assms ne by (simp add: scriptNum_Bytes_def nl byte_and_0x80 Let_def neg)
qed

lemma encode_le_pos: "0 < m \<Longrightarrow> encode_le m = word_of_int (m AND 0xff) # encode_le (drop_bit 8 m)"
  by (subst encode_le.simps) simp

lemma last_encode_le: "0 < m \<Longrightarrow> last (encode_le m) \<noteq> 0"
proof (induction m rule: encode_le.induct)
  case (1 m)
  note e = encode_le_pos [OF 1(2)]
  show ?case
  proof (cases "0 < drop_bit 8 m")
    case True
    with 1 show ?thesis by (simp add: e encode_le_eq_Nil_iff)
  next
    case False
    then have d: "drop_bit 8 m = 0" using 1(2) by (simp add: order_antisym)
    then have "m < 256" using 1(2) by (simp add: drop_bit_eq_div div_eq_0_iff)
    then have "word_of_int (m AND 0xff) \<noteq> (0::byte)"
      using 1(2) by (simp add: and_0xff word_of_int_eq_0_iff zdvd_not_zless)
    moreover have "encode_le 0 = []" by (simp add: encode_le_eq_Nil_iff)
    ultimately show ?thesis by (simp add: e d)
  qed
qed

lemma length_encode_le: "m < 256 ^ k \<Longrightarrow> length (encode_le m) \<le> k"
proof (induction k arbitrary: m)
  case 0
  then show ?case by (simp add: encode_le_eq_Nil_iff)
next
  case (Suc k)
  have "drop_bit 8 m < 256 ^ k" using Suc.prems by (simp add: drop_bit_eq_div div_less_iff_less_mult mult.commute)
  with Suc.IH show ?case by (cases "0 < m") (simp_all add: encode_le_pos encode_le_eq_Nil_iff [THEN iffD2])
qed

lemma bytes_of_num_of:
  assumes "minimal v" "length v \<le> 8"
  shows "scriptNum_Bytes (num_of v) = Inr v"
proof (cases v rule: rev_cases)
  case Nil
  then show ?thesis by (simp add: num_of_def scriptNum_Bytes_def)
next
  case (snoc w b)
  define m where "m = le_val (w @ [take_bit 7 b])"
  have "(2::int) ^ (8 * length v - 1) \<le> 2 ^ 63" using assms(2) by (intro power_increasing) simp_all
  then have m63: "m < 2 ^ 63" using le_val_sign(2) [of v] snoc by (simp add: m_def)
  have t7: "\<not> bit (take_bit 7 b) 7" by (simp add: bit_take_bit_iff)
  have enc: "encode_le m = (if take_bit 7 b = 0 then w else w @ [take_bit 7 b])"
  proof (cases "take_bit 7 b = 0")
    case True
    with assms(1) snoc have "last w \<noteq> 0" by (auto simp: minimal_snoc)
    moreover have "m = le_val w" using True by (simp add: m_def le_val_append)
    ultimately show ?thesis using True encode_le_le_val [of w] by simp
  qed (simp add: m_def encode_le_le_val)
  have "encode_le m \<noteq> []" using assms(1) snoc by (auto simp: enc minimal_snoc)
  then have m0: "0 < m" by (simp add: encode_le_eq_Nil_iff)
  have num: "num_of v = (if bit b 7 then - m else m)" by (simp add: num_of_def snoc m_def)
  show ?thesis
  proof (cases "take_bit 7 b = 0")
    case True
    with assms(1) snoc have "bit (last w) 7" by (simp add: minimal_snoc)
    with True show ?thesis
      using scriptNum_Bytes_sign [OF m0 m63] byte_split [of b]
      by (auto simp: num [unfolded snoc] enc snoc)
  next
    case False
    then show ?thesis
      using scriptNum_Bytes_sign [OF m0 m63] byte_split [of b] t7
      by (auto simp: num [unfolded snoc] enc snoc)
  qed
qed

lemma num_of_bytes:
  assumes n: "- (2 ^ 63) < n" "n < 2 ^ 63"
  obtains v where "scriptNum_Bytes n = Inr v" "minimal v" "num_of v = n"
    "\<And>k. \<bar>n\<bar> < 2 ^ (8 * k - 1) \<Longrightarrow> 0 < k \<Longrightarrow> length v \<le> k"
proof (cases "n = 0")
  case True
  then show thesis by (intro that [of "[]"]) (simp_all add: scriptNum_Bytes_def minimal_Nil num_of_def)
next
  case False
  define m where "m = \<bar>n\<bar>"
  have m: "0 < m" "m < 2 ^ 63" using False n by (auto simp: m_def)
  define w where "w = encode_le m"
  have ne: "w \<noteq> []" and lw: "last w \<noteq> 0"
    using m last_encode_le by (simp_all add: w_def encode_le_eq_Nil_iff)
  have wv: "le_val w = m" using m by (simp add: w_def le_val_encode_le)
  define v where "v = (if bit (last w) 7 then w @ [if n < 0 then 0x80 else 0x00]
     else if n < 0 then butlast w @ [last w OR 0x80] else w)"
  have 1: "scriptNum_Bytes n = Inr v"
    using scriptNum_Bytes_sign [OF m] False by (cases "n < 0") (simp_all add: m_def v_def w_def)
  have t: "take_bit 7 (last w OR 0x80) = last w" "bit (last w OR 0x80) 7" if "\<not> bit (last w) 7"
  proof -
    have "take_bit 7 (last w OR 0x80) = take_bit 7 (last w)" by (simp add: take_bit_or)
    then show "take_bit 7 (last w OR 0x80) = last w" using byte_split(2) [OF that] by simp
    show "bit (last w OR 0x80) 7" by (simp add: bit_or_iff)
  qed
  have wl: "butlast w @ [last w] = w" using ne by simp
  have 2: "minimal v"
    using lw byte_split(2) [of "last w"] ne t
    by (auto simp: v_def minimal_snoc) (metis minimal_snoc wl)
  have 3: "num_of v = n"
    using ne byte_split(2) [of "last w"] t wl wv
    by (auto simp: v_def num_of_def m_def le_val_append [of w])
  have 4: "length v \<le> k" if k: "\<bar>n\<bar> < 2 ^ (8 * k - 1)" "0 < k" for k
  proof -
    have "(2::int) ^ (8 * k - 1) \<le> 2 ^ (8 * k)" by (intro power_increasing) simp_all
    then have "m < 256 ^ k" using k by (simp add: m_def power_mult)
    then have lk: "length w \<le> k" using length_encode_le by (simp add: w_def)
    have "length w \<noteq> k" if b: "bit (last w) 7"
    proof
      assume "length w = k"
      then have "2 ^ (8 * k - 1) \<le> le_val w" using le_val_sign(1) [OF ne] b by simp
      with k wv show False by (simp add: m_def)
    qed
    with lk ne show ?thesis by (auto simp: v_def)
  qed
  show thesis using that 1 2 3 4 by blast
qed

lemma num_of_range:
  assumes "length v \<le> k" "0 < k"
  shows "\<bar>num_of v\<bar> < 2 ^ (8 * k - 1)"
proof (cases "v = []")
  case False
  have "(2::int) ^ (8 * length v - 1) \<le> 2 ^ (8 * k - 1)"
    using assms by (intro power_increasing) simp_all
  with le_val_sign(2) [OF False] have "le_val (butlast v @ [take_bit 7 (last v)]) < 2 ^ (8 * k - 1)"
    by linarith
  then show ?thesis using False by (auto simp: num_of_def Let_def)
qed (simp add: num_of_def)

lemma makeScriptNum_iff_Bytes:
  assumes l: "0 < scriptNumLen" "scriptNumLen \<le> 8"
  shows "makeScriptNum v scriptNumLen = Inr n \<longleftrightarrow>
    \<bar>n\<bar> < 2 ^ (8 * scriptNumLen - 1) \<and> scriptNum_Bytes n = Inr v"
proof
  assume "makeScriptNum v scriptNumLen = Inr n"
  then have v: "length v \<le> scriptNumLen" "minimal v" "n = num_of v"
    using l(2) by (simp_all add: makeScriptNum_eq split: if_splits)
  then show "\<bar>n\<bar> < 2 ^ (8 * scriptNumLen - 1) \<and> scriptNum_Bytes n = Inr v"
    using num_of_range [OF v(1) l(1)] bytes_of_num_of [of v] l(2) by simp
next
  assume n: "\<bar>n\<bar> < 2 ^ (8 * scriptNumLen - 1) \<and> scriptNum_Bytes n = Inr v"
  have "(2::int) ^ (8 * scriptNumLen - 1) \<le> 2 ^ 63" using l by (intro power_increasing) simp_all
  with n have "- (2 ^ 63) < n" "n < 2 ^ 63" by linarith+
  then obtain w where w: "scriptNum_Bytes n = Inr w" "minimal w" "num_of w = n"
    "\<And>k. \<bar>n\<bar> < 2 ^ (8 * k - 1) \<Longrightarrow> 0 < k \<Longrightarrow> length w \<le> k"
    using num_of_bytes by blast
  with n have "w = v" by simp
  with w n l(1) have "minimal v" "num_of v = n" "length v \<le> scriptNumLen" by blast+
  then show "makeScriptNum v scriptNumLen = Inr n" using l(2) by (simp add: makeScriptNum_eq)
qed

section \<open>Properties\<close>

text \<open>
  C31: Decoding and encoding of script numbers are inverse.  With a limit of at most eight bytes,
  \<^verbatim>\<open>makeScriptNum\<close> accepts the bytes \<open>v\<close> with value \<open>n\<close> exactly when \<open>n\<close> is in the range of the
  limit and \<^verbatim>\<open>Bytes\<close> encodes it as \<open>v\<close>: every number in range has one accepted encoding.
\<close>

theorem scriptNum_roundtrip:
  assumes "0 < scriptNumLen" "scriptNumLen \<le> 8"
  shows "makeScriptNum v scriptNumLen = Inr n \<longleftrightarrow>
    \<bar>n\<bar> < 2 ^ (8 * scriptNumLen - 1) \<and> scriptNum_Bytes n = Inr v"
  using makeScriptNum_iff_Bytes [OF assms] .

theorem scriptNum_roundtrip_witness: "scriptNum_Bytes (- 255) = Inr [0xff, 0x80]"
proof -
  have "makeScriptNum [0xff, 0x80] 4 = Inr (- 255)"
    by (simp add: makeScriptNum_def checkMinimalDataEncoding_def i64_def)
  with scriptNum_roundtrip [of 4 "[0xff, 0x80]" "- 255"] show ?thesis by simp
qed

text \<open>
  C32: \<^verbatim>\<open>Bytes\<close> on the whole range of \<^verbatim>\<open>int64\<close>: it panics on the least value, whose negation
  overflows, and on no other.
\<close>

theorem scriptNum_Bytes_panics:
  assumes "- (2 ^ 63) \<le> n" "n < 2 ^ 63"
  shows "scriptNum_Bytes n = Inl Panic \<longleftrightarrow> n = - (2 ^ 63)"
proof (cases "n = - (2 ^ 63)")
  case True
  have "i64 (2 ^ 63) = - (2 ^ 63)" by (simp add: i64_def)
  moreover have "encode_le (- (2 ^ 63)) = []" by (simp add: encode_le_eq_Nil_iff)
  ultimately show ?thesis using True by (simp add: scriptNum_Bytes_def)
next
  case False
  with assms have "- (2 ^ 63) < n" by simp
  then obtain w where "scriptNum_Bytes n = Inr w" using num_of_bytes [OF _ assms(2)] by metis
  with False show ?thesis by simp
qed

theorem scriptNum_Bytes_panics_witness: "scriptNum_Bytes (- (2 ^ 63)) = Inl Panic"
  using scriptNum_Bytes_panics [of "- (2 ^ 63)"] by simp


end
