(* ===== verification/Script_Stack.thy ===== *)
theory Script_Stack
  imports Script_Num
begin

text \<open>
  The data stack of the script engine, \<^verbatim>\<open>domain/consensus/utils/txscript/stack.go\<close>.  A stack is
  a list of byte strings whose last element is the top, as in the slice of the source.  Indices
  and depths are \<^verbatim>\<open>int32\<close> values; the conversions of the source wrap around, which \<open>small\<close>
  rules out (the engine keeps at most \<^verbatim>\<open>MaxStackSize\<close> items).  An operation that fails after some
  pops leaves a stack nobody reads, so a failure carries no stack.
\<close>

section \<open>Definitions\<close>

type_synonym stack = "byte list list"

fun asBool_from :: "nat \<Rightarrow> byte list \<Rightarrow> byte list \<Rightarrow> bool" where
  "asBool_from i t [] = False"
| "asBool_from i t (b # rest) =
     (if b \<noteq> 0
      then (if i = length t - 1 \<and> b = 0x80 then False else True)
      else asBool_from (Suc i) t rest)"

definition asBool :: "byte list \<Rightarrow> bool" where
  "asBool t = asBool_from 0 t t"

definition fromBool :: "bool \<Rightarrow> byte list" where
  "fromBool v = (if v then [1] else [])"

definition Depth :: "stack \<Rightarrow> int" where
  "Depth s = i32 (int (length s))"

definition PushByteArray :: "stack \<Rightarrow> byte list \<Rightarrow> stack" where
  "PushByteArray s so = s @ [so]"

definition PushInt :: "stack \<Rightarrow> int \<Rightarrow> stack script_result" where
  "PushInt s val = rbind (scriptNum_Bytes val) (\<lambda>bs. Inr (PushByteArray s bs))"

definition PushBool :: "stack \<Rightarrow> bool \<Rightarrow> stack" where
  "PushBool s val = PushByteArray s (fromBool val)"

definition nipN :: "stack \<Rightarrow> int \<Rightarrow> (byte list \<times> stack) script_result" where
  "nipN s idx =
    (let sz = i32 (int (length s))
     in if idx < 0 \<or> idx > i32 (sz - 1) then scriptError ErrInvalidStackOperation
        else
          let so = s ! nat (sz - idx - 1)
          in if idx = 0 then Inr (so, take (nat (sz - 1)) s)
             else if idx = sz - 1 then Inr (so, take (nat (sz - 1)) (drop 1 s))
             else Inr (so, take (nat (sz - idx - 1)) s @ take (nat idx) (drop (nat (sz - idx)) s)))"

definition PopByteArray :: "stack \<Rightarrow> (byte list \<times> stack) script_result" where
  "PopByteArray s = nipN s 0"

definition PopInt :: "stack \<Rightarrow> (int \<times> stack) script_result" where
  "PopInt s = rbind (PopByteArray s) (\<lambda>(so, s).
     rbind (makeScriptNum so defaultScriptNumLen) (\<lambda>n. Inr (n, s)))"

definition PopBool :: "stack \<Rightarrow> (bool \<times> stack) script_result" where
  "PopBool s = rbind (PopByteArray s) (\<lambda>(so, s). Inr (asBool so, s))"

definition PeekByteArray :: "stack \<Rightarrow> int \<Rightarrow> byte list script_result" where
  "PeekByteArray s idx =
    (let sz = i32 (int (length s))
     in if idx < 0 \<or> idx \<ge> sz then scriptError ErrInvalidStackOperation
        else Inr (s ! nat (sz - idx - 1)))"

definition PeekInt :: "stack \<Rightarrow> int \<Rightarrow> int script_result" where
  "PeekInt s idx = rbind (PeekByteArray s idx) (\<lambda>so. makeScriptNum so defaultScriptNumLen)"

definition PeekBool :: "stack \<Rightarrow> int \<Rightarrow> bool script_result" where
  "PeekBool s idx = rbind (PeekByteArray s idx) (\<lambda>so. Inr (asBool so))"

definition NipN :: "stack \<Rightarrow> int \<Rightarrow> stack script_result" where
  "NipN s idx = rbind (nipN s idx) (\<lambda>(_, s). Inr s)"

definition Tuck :: "stack \<Rightarrow> stack script_result" where
  "Tuck s = rbind (PopByteArray s) (\<lambda>(so2, s). rbind (PopByteArray s) (\<lambda>(so1, s).
     let s = PushByteArray s so2;
         s = PushByteArray s so1;
         s = PushByteArray s so2
     in Inr s))"

text \<open>The loops of the operations on several items count down from \<open>n\<close>.\<close>

fun DropN_loop :: "nat \<Rightarrow> stack \<Rightarrow> stack script_result" where
  "DropN_loop 0 s = Inr s"
| "DropN_loop (Suc n) s = rbind (PopByteArray s) (\<lambda>(_, s). DropN_loop n s)"

definition DropN :: "stack \<Rightarrow> int \<Rightarrow> stack script_result" where
  "DropN s n = (if n < 1 then scriptError ErrInvalidStackOperation else DropN_loop (nat n) s)"

fun peek_loop :: "int \<Rightarrow> nat \<Rightarrow> stack \<Rightarrow> stack script_result" where
  "peek_loop entry 0 s = Inr s"
| "peek_loop entry (Suc i) s =
     rbind (PeekByteArray s entry) (\<lambda>so. peek_loop entry i (PushByteArray s so))"

fun nip_loop :: "int \<Rightarrow> nat \<Rightarrow> stack \<Rightarrow> stack script_result" where
  "nip_loop entry 0 s = Inr s"
| "nip_loop entry (Suc i) s =
     rbind (nipN s entry) (\<lambda>(so, s). nip_loop entry i (PushByteArray s so))"

definition DupN :: "stack \<Rightarrow> int \<Rightarrow> stack script_result" where
  "DupN s n = (if n < 1 then scriptError ErrInvalidStackOperation
     else peek_loop (i32 (n - 1)) (nat n) s)"

definition RotN :: "stack \<Rightarrow> int \<Rightarrow> stack script_result" where
  "RotN s n = (if n < 1 then scriptError ErrInvalidStackOperation
     else nip_loop (i32 (3 * n - 1)) (nat n) s)"

definition SwapN :: "stack \<Rightarrow> int \<Rightarrow> stack script_result" where
  "SwapN s n = (if n < 1 then scriptError ErrInvalidStackOperation
     else nip_loop (i32 (2 * n - 1)) (nat n) s)"

definition OverN :: "stack \<Rightarrow> int \<Rightarrow> stack script_result" where
  "OverN s n = (if n < 1 then scriptError ErrInvalidStackOperation
     else peek_loop (i32 (2 * n - 1)) (nat n) s)"

definition PickN :: "stack \<Rightarrow> int \<Rightarrow> stack script_result" where
  "PickN s n = rbind (PeekByteArray s n) (\<lambda>so. Inr (PushByteArray s so))"

definition RollN :: "stack \<Rightarrow> int \<Rightarrow> stack script_result" where
  "RollN s n = rbind (nipN s n) (\<lambda>(so, s). Inr (PushByteArray s so))"

section \<open>Stacks whose depth fits into 31 bits\<close>

definition small :: "stack \<Rightarrow> bool" where
  "small s \<longleftrightarrow> length s < 2 ^ 31"

lemma small_len: "small s \<Longrightarrow> i32 (int (length s)) = int (length s)"
  "small s \<Longrightarrow> i32 (int (length s) - 1) = int (length s) - 1"
  by (simp_all add: small_def i32_id)

named_theorems stack_simps "stack operations on lists"

lemma Depth_small [stack_simps]: "small s \<Longrightarrow> Depth s = int (length s)"
  by (simp add: Depth_def small_len)

lemma nipN_small:
  assumes "small s"
  shows "nipN s idx =
    (if idx < 0 \<or> int (length s) \<le> idx then scriptError ErrInvalidStackOperation
     else Inr (s ! (length s - 1 - nat idx),
               take (length s - 1 - nat idx) s @ drop (length s - nat idx) s))"
proof (cases "idx < 0 \<or> int (length s) \<le> idx")
  case False
  then have n: "nat (int (length s) - idx - 1) = length s - 1 - nat idx"
    "nat (int (length s) - idx) = length s - nat idx" "nat (int (length s) - 1) = length s - 1"
    by linarith+
  have t: "take (nat idx) (drop (length s - nat idx) s) = drop (length s - nat idx) s"
    using False by simp
  have d: "take (length s - 1) (drop 1 s) = drop 1 s" by simp
  have l: "length s - 1 - nat idx = 0" "length s - nat idx = 1" if "idx = int (length s) - 1" "idx \<noteq> 0"
    using that False by linarith+
  show ?thesis
    using False l unfolding nipN_def Let_def small_len [OF assms] n t d by auto
qed (auto simp: nipN_def small_len [OF assms] Let_def)

lemma nipN_at: "small (xs @ x # w) \<Longrightarrow> nipN (xs @ x # w) (int (length w)) = Inr (x, xs @ w)"
  by (simp add: nipN_small)

lemma PeekByteArray_small:
  assumes "small s"
  shows "PeekByteArray s idx =
    (if idx < 0 \<or> int (length s) \<le> idx then scriptError ErrInvalidStackOperation
     else Inr (s ! (length s - 1 - nat idx)))"
proof (cases "idx < 0 \<or> int (length s) \<le> idx")
  case False
  then have "nat (int (length s) - idx - 1) = length s - 1 - nat idx" by linarith
  with False show ?thesis by (simp add: PeekByteArray_def small_len [OF assms] Let_def)
qed (auto simp: PeekByteArray_def small_len [OF assms] Let_def)

lemma PeekByteArray_at: "small (xs @ x # w) \<Longrightarrow> PeekByteArray (xs @ x # w) (int (length w)) = Inr x"
  by (simp add: PeekByteArray_small)

lemma split_at:
  assumes "0 \<le> idx" "idx < int (length s)"
  obtains xs x w where "s = xs @ x # w" "idx = int (length w)"
proof
  let ?i = "length s - 1 - nat idx"
  show "s = take ?i s @ s ! ?i # drop (Suc ?i) s"
    using assms by (intro id_take_nth_drop) auto
  show "idx = int (length (drop (Suc ?i) s))" using assms by auto
qed

lemma nip_loop_roll:
  "small (xs @ a @ w) \<Longrightarrow> entry = int (length a + length w) - 1 \<Longrightarrow>
   nip_loop entry (length a) (xs @ a @ w) = Inr (xs @ w @ a)"
proof (induction a arbitrary: w)
  case (Cons x a)
  have e: "entry = int (length (a @ w))" using Cons.prems by simp
  have "nipN (xs @ x # (a @ w)) entry = Inr (x, xs @ (a @ w))"
    using Cons.prems unfolding e by (intro nipN_at) simp
  moreover have "nip_loop entry (length a) (xs @ a @ (w @ [x])) = Inr (xs @ (w @ [x]) @ a)"
    using Cons.prems by (intro Cons.IH) (simp_all add: small_def)
  ultimately show ?case by (simp add: PushByteArray_def)
qed simp

lemma peek_loop_copy:
  "small (xs @ a @ w @ a) \<Longrightarrow> entry = int (length a + length w) - 1 \<Longrightarrow>
   peek_loop entry (length a) (xs @ a @ w) = Inr (xs @ a @ w @ a)"
proof (induction a arbitrary: xs w)
  case (Cons x a)
  have e: "entry = int (length (a @ w))" using Cons.prems by simp
  have "PeekByteArray (xs @ x # (a @ w)) entry = Inr x"
    using Cons.prems unfolding e by (intro PeekByteArray_at) (simp add: small_def)
  moreover have "peek_loop entry (length a) ((xs @ [x]) @ a @ (w @ [x])) =
      Inr ((xs @ [x]) @ a @ (w @ [x]) @ a)"
    using Cons.prems by (intro Cons.IH) (simp_all add: small_def)
  ultimately show ?case by (simp add: PushByteArray_def)
qed simp


section \<open>Success, failure and size of the results\<close>

lemma nipN_facts:
  assumes "small s" "nipN s idx = Inr (x, s')"
  shows "0 \<le> idx" "idx < int (length s)" "Suc (length s') = length s" "set s = insert x (set s')"
proof -
  from assms show r: "0 \<le> idx" "idx < int (length s)" by (simp_all add: nipN_small split: if_splits)
  then obtain xs y w where s: "s = xs @ y # w" "idx = int (length w)" by (rule split_at)
  with assms nipN_at [of xs y w] show "Suc (length s') = length s" "set s = insert x (set s')" by auto
qed

lemma nipN_ex:
  assumes "small s" "0 \<le> idx" "idx < int (length s)"
  shows "\<exists>x s'. nipN s idx = Inr (x, s')"
  using assms by (simp add: nipN_small)

lemma nipN_no_panic: "nipN s idx \<noteq> Inl Panic"
  by (simp add: nipN_def Let_def)

lemma PopByteArray_snoc [simp]: "small (s @ [x]) \<Longrightarrow> PopByteArray (s @ [x]) = Inr (x, s)"
  using nipN_at [of s x "[]"] by (simp add: PopByteArray_def)

lemma PopByteArray_Nil [simp]: "PopByteArray [] = scriptError ErrInvalidStackOperation"
  by (simp add: PopByteArray_def nipN_small small_def)

lemma PopByteArray_iff:
  "small s \<Longrightarrow> PopByteArray s = Inr (x, s') \<longleftrightarrow> s = s' @ [x]"
  by (cases s rule: rev_cases) auto

lemma DropN_loop_append:
  "small (xs @ ys) \<Longrightarrow> DropN_loop (length ys) (xs @ ys) = Inr xs"
proof (induction ys rule: rev_induct)
  case (snoc y ys)
  then have "PopByteArray ((xs @ ys) @ [y]) = Inr (y, xs @ ys)" by (intro PopByteArray_snoc) simp
  moreover have "DropN_loop (length ys) (xs @ ys) = Inr xs" using snoc by (simp add: small_def)
  ultimately show ?case by simp
qed simp

lemma DropN_loop_short:
  "length s < n \<Longrightarrow> small s \<Longrightarrow> DropN_loop n s = scriptError ErrInvalidStackOperation"
proof (induction n arbitrary: s)
  case (Suc n)
  then show ?case by (cases s rule: rev_cases) (auto simp: small_def)
qed simp

lemma nip_loop_short: "small s \<Longrightarrow> int (length s) \<le> entry \<Longrightarrow> 0 < n \<Longrightarrow>
   nip_loop entry n s = scriptError ErrInvalidStackOperation"
  by (cases n) (simp_all add: nipN_small)

lemma peek_loop_short: "small s \<Longrightarrow> int (length s) \<le> entry \<Longrightarrow> 0 < n \<Longrightarrow>
   peek_loop entry n s = scriptError ErrInvalidStackOperation"
  by (cases n) (simp_all add: PeekByteArray_small)

text \<open>The operations on the top of a stack, in the notation of their comments.\<close>

lemma stack_ops_at:
  assumes "small (xs @ a @ b @ c @ a @ b)" "length a = n" "length b = n" "length c = n" "0 < n"
  shows "DropN (xs @ a) (int n) = Inr xs"
    and "DupN (xs @ a) (int n) = Inr (xs @ a @ a)"
    and "SwapN (xs @ a @ b) (int n) = Inr (xs @ b @ a)"
    and "RotN (xs @ a @ b @ c) (int n) = Inr (xs @ b @ c @ a)"
    and "OverN (xs @ a @ b) (int n) = Inr (xs @ a @ b @ a)"
proof -
  have sm: "small (xs @ a)" "small (xs @ a @ [] @ a)" "small (xs @ a @ b)" "small (xs @ a @ b @ c)" "small (xs @ a @ b @ a)"
    and n: "3 * n < 2 ^ 31"
    using assms by (simp_all add: small_def)
  show "DropN (xs @ a) (int n) = Inr xs"
    using DropN_loop_append [OF sm(1)] assms by (simp add: DropN_def)
  show "DupN (xs @ a) (int n) = Inr (xs @ a @ a)"
    using peek_loop_copy [OF sm(2) refl] assms n by (simp add: DupN_def i32_id)
  show "SwapN (xs @ a @ b) (int n) = Inr (xs @ b @ a)"
    using nip_loop_roll [OF sm(3) refl] assms n by (simp add: SwapN_def i32_id)
  show "RotN (xs @ a @ b @ c) (int n) = Inr (xs @ b @ c @ a)"
    using nip_loop_roll [OF sm(4) refl] assms n by (simp add: RotN_def i32_id)
  show "OverN (xs @ a @ b) (int n) = Inr (xs @ a @ b @ a)"
    using peek_loop_copy [OF sm(5) refl] assms n by (simp add: OverN_def i32_id)
qed

lemma PickN_at: "small (xs @ x # w) \<Longrightarrow> PickN (xs @ x # w) (int (length w)) = Inr (xs @ x # w @ [x])"
  by (simp add: PickN_def PeekByteArray_at PushByteArray_def)

lemma RollN_at: "small (xs @ x # w) \<Longrightarrow> RollN (xs @ x # w) (int (length w)) = Inr (xs @ w @ [x])"
  by (simp add: RollN_def nipN_at PushByteArray_def)

lemma Tuck_at: "small (xs @ [x1, x2]) \<Longrightarrow> Tuck (xs @ [x1, x2]) = Inr (xs @ [x2, x1, x2])"
  using PopByteArray_snoc [of "xs @ [x1]" x2] PopByteArray_snoc [of xs x1]
  by (simp add: Tuck_def PushByteArray_def small_def Let_def)

section \<open>Truth values\<close>

lemma asBool_from_iff:
  "i + length rest = length t \<Longrightarrow>
   asBool_from i t rest \<longleftrightarrow> (\<exists>b \<in> set (butlast rest). b \<noteq> 0) \<or>
     (rest \<noteq> [] \<and> last rest \<noteq> 0 \<and> last rest \<noteq> 0x80)"
proof (induction i t rest rule: asBool_from.induct)
  case (2 i t b rest)
  then show ?case by (cases rest) auto
qed simp

lemma asBool_iff:
  "asBool t \<longleftrightarrow> (\<exists>b \<in> set (butlast t). b \<noteq> 0) \<or> (t \<noteq> [] \<and> last t \<noteq> 0 \<and> last t \<noteq> 0x80)"
  by (simp add: asBool_def asBool_from_iff)

lemma asBool_fromBool [simp]: "asBool (fromBool b) = b"
  by (simp add: asBool_iff fromBool_def)

lemma le_val_eq_0_iff: "le_val v = 0 \<longleftrightarrow> (\<forall>b \<in> set v. b = 0)"
proof (induction v)
  case (Cons b v)
  have "uint b + 256 * le_val v = 0 \<longleftrightarrow> uint b = 0 \<and> le_val v = 0"
    using le_val_nonneg [of v] uint_ge_0 [of b] by linarith
  with Cons show ?case by (simp add: uint_0_iff)
qed simp

lemma take7_eq_0_iff: "take_bit 7 (b::byte) = 0 \<longleftrightarrow> b = 0 \<or> b = 0x80"
  using byte_split [of b] by (cases "bit b 7") auto

lemma asBool_num: "asBool v \<longleftrightarrow> num_of v \<noteq> 0"
  by (cases v rule: rev_cases)
    (auto simp: asBool_iff num_of_def le_val_eq_0_iff take7_eq_0_iff Let_def)


section \<open>Properties\<close>

text \<open>
  C33: The operations on several items of a stack do what their comments say, for every number of
  items: \<^verbatim>\<open>DropN\<close>, \<^verbatim>\<open>DupN\<close>, \<^verbatim>\<open>SwapN\<close>, \<^verbatim>\<open>RotN\<close> and \<^verbatim>\<open>OverN\<close> on blocks of \<open>n\<close> items at
  the top of the stack, while its depth fits into an \<^verbatim>\<open>int32\<close>.
\<close>

theorem stack_block_operations:
  assumes "small (xs @ a @ b @ c @ a @ b)" "length a = n" "length b = n" "length c = n" "0 < n"
  shows "DropN (xs @ a) (int n) = Inr xs \<and>
    DupN (xs @ a) (int n) = Inr (xs @ a @ a) \<and>
    SwapN (xs @ a @ b) (int n) = Inr (xs @ b @ a) \<and>
    RotN (xs @ a @ b @ c) (int n) = Inr (xs @ b @ c @ a) \<and>
    OverN (xs @ a @ b) (int n) = Inr (xs @ a @ b @ a)"
  using stack_ops_at [OF assms] by blast

theorem stack_block_operations_witness:
  "RotN [[1], [2], [3], [4], [5], [6]] 2 = Inr [[3], [4], [5], [6], [1], [2]]"
  using stack_block_operations [of "[]" "[[1], [2]]" "[[3], [4]]" "[[5], [6]]" 2]
  by (simp add: small_def)

end
