(* ===== verification/Script_Engine.thy ===== *)
theory Script_Engine
  imports Sig_Cache Script_Parser Script_Stack
begin

text \<open>
  The state of the script engine, \<^verbatim>\<open>txscript/engine.go\<close>, and the handlers of the opcodes that do not
  check signatures, \<^verbatim>\<open>txscript/opcode.go\<close>.  A handler changes the engine in place and returns an
  error or nil; its model returns the new engine or the error.  After an error the source leaves the
  engine undefined, so an error carries no engine.  Indices of scripts and inputs are natural
  numbers: \<^verbatim>\<open>NewEngine\<close> refuses negative ones.
\<close>

section \<open>State\<close>

type_synonym ScriptFlags = u32

definition ScriptNoFlags :: ScriptFlags where "ScriptNoFlags = 0"

definition ScriptDiscourageUpgradableNops :: ScriptFlags where
  "ScriptDiscourageUpgradableNops = push_bit 1 1"

definition MaxStackSize :: int where "MaxStackSize = 244"
definition MaxScriptSize :: nat where "MaxScriptSize = 10000"

record Engine =
  scriptVersion :: u16
  scripts :: "parsedOpcode list list"
  scriptIdx :: nat
  scriptOff :: nat
  dstack :: stack
  astack :: stack
  tx :: DomainTransaction
  txIdx :: nat
  condStack :: "int list"
  numOps :: int
  flags :: ScriptFlags
  sigCache :: "SigCache option"
  sigCacheECDSA :: "SigCacheECDSA option"
  sigHashReusedValues :: SighashReusedValues
  isP2SH :: bool
  savedFirstStack :: stack

type_synonym handler = "parsedOpcode \<Rightarrow> Engine \<Rightarrow> Engine script_result"

definition hasFlag :: "Engine \<Rightarrow> ScriptFlags \<Rightarrow> bool" where
  "hasFlag vm flag \<longleftrightarrow> flags vm AND flag = flag"

definition isBranchExecuting :: "Engine \<Rightarrow> bool" where
  "isBranchExecuting vm \<longleftrightarrow>
     (if length (condStack vm) = 0 then True else condStack vm ! (length (condStack vm) - 1) = OpCondTrue)"

text \<open>Shared shapes of the handlers: one operation on the data stack, a pop, a push.\<close>

definition on_dstack :: "(stack \<Rightarrow> stack script_result) \<Rightarrow> Engine \<Rightarrow> Engine script_result" where
  "on_dstack f vm = rbind (f (dstack vm)) (\<lambda>s. Inr (vm\<lparr>dstack := s\<rparr>))"

definition pop_with :: "(stack \<Rightarrow> ('a \<times> stack) script_result) \<Rightarrow> Engine \<Rightarrow> ('a \<times> Engine) script_result" where
  "pop_with f vm = rbind (f (dstack vm)) (\<lambda>(x, s). Inr (x, vm\<lparr>dstack := s\<rparr>))"

definition popBytes :: "Engine \<Rightarrow> (byte list \<times> Engine) script_result" where
  "popBytes = pop_with PopByteArray"

definition popInt :: "Engine \<Rightarrow> (int \<times> Engine) script_result" where
  "popInt = pop_with PopInt"

definition popBool :: "Engine \<Rightarrow> (bool \<times> Engine) script_result" where
  "popBool = pop_with PopBool"

definition pushBytes :: "byte list \<Rightarrow> Engine \<Rightarrow> Engine script_result" where
  "pushBytes so vm = Inr (vm\<lparr>dstack := PushByteArray (dstack vm) so\<rparr>)"

definition pushInt :: "int \<Rightarrow> Engine \<Rightarrow> Engine script_result" where
  "pushInt n = on_dstack (\<lambda>s. PushInt s n)"

definition pushBool :: "bool \<Rightarrow> Engine \<Rightarrow> Engine script_result" where
  "pushBool b vm = Inr (vm\<lparr>dstack := PushBool (dstack vm) b\<rparr>)"

definition curInput :: "Engine \<Rightarrow> DomainTransactionInput script_result" where
  "curInput vm = (if txIdx vm < length (Inputs (tx vm)) then Inr (Inputs (tx vm) ! txIdx vm) else Inl Panic)"

section \<open>Constants, conditionals and flow control\<close>

definition opcodeDisabled :: handler where
  "opcodeDisabled op vm = scriptError ErrDisabledOpcode"

definition opcodeReserved :: handler where
  "opcodeReserved op vm = scriptError ErrReservedOpcode"

definition opcodeInvalid :: handler where
  "opcodeInvalid op vm = scriptError ErrReservedOpcode"

definition opcodeFalse :: handler where
  "opcodeFalse op vm = pushBytes [] vm"

definition opcodePushData :: handler where
  "opcodePushData op vm = pushBytes (pop_data op) vm"

definition opcode1Negate :: handler where
  "opcode1Negate op vm = pushInt (- 1) vm"

definition opcodeN :: handler where
  "opcodeN op vm = pushInt (int (unat (pop_value op - (Op1 - 1)))) vm"

definition opcodeNop :: handler where
  "opcodeNop op vm =
    (if isUpgradableNop op \<and> hasFlag vm ScriptDiscourageUpgradableNops
     then scriptError ErrDiscourageUpgradableNOPs else Inr vm)"

definition popIfBool :: "Engine \<Rightarrow> (bool \<times> Engine) script_result" where
  "popIfBool vm = rbind (popBytes vm) (\<lambda>(so, vm).
     if length so = 1 \<and> so ! 0 = 0x01 then Inr (True, vm)
     else if length so = 0 then Inr (False, vm)
     else scriptError ErrMinimalIf)"

definition opcodeIf :: handler where
  "opcodeIf op vm =
    (if isBranchExecuting vm then
       rbind (popIfBool vm) (\<lambda>(ok, vm).
         let condVal = (if ok then OpCondTrue else OpCondFalse)
         in Inr (vm\<lparr>condStack := condStack vm @ [condVal]\<rparr>))
     else Inr (vm\<lparr>condStack := condStack vm @ [OpCondSkip]\<rparr>))"

definition opcodeNotIf :: handler where
  "opcodeNotIf op vm =
    (if isBranchExecuting vm then
       rbind (popIfBool vm) (\<lambda>(ok, vm).
         let condVal = (if \<not> ok then OpCondTrue else OpCondFalse)
         in Inr (vm\<lparr>condStack := condStack vm @ [condVal]\<rparr>))
     else Inr (vm\<lparr>condStack := condStack vm @ [OpCondSkip]\<rparr>))"

definition opcodeElse :: handler where
  "opcodeElse op vm =
    (if length (condStack vm) = 0 then scriptError ErrUnbalancedConditional
     else
       let conditionalIdx = length (condStack vm) - 1;
           c = condStack vm ! conditionalIdx
       in Inr (if c = OpCondTrue then vm\<lparr>condStack := (condStack vm)[conditionalIdx := OpCondFalse]\<rparr>
               else if c = OpCondFalse then vm\<lparr>condStack := (condStack vm)[conditionalIdx := OpCondTrue]\<rparr>
               else vm))"

definition opcodeEndif :: handler where
  "opcodeEndif op vm =
    (if length (condStack vm) = 0 then scriptError ErrUnbalancedConditional
     else Inr (vm\<lparr>condStack := take (length (condStack vm) - 1) (condStack vm)\<rparr>))"

definition abstractVerify :: "parsedOpcode \<Rightarrow> Engine \<Rightarrow> ErrorCode \<Rightarrow> Engine script_result" where
  "abstractVerify op vm c = rbind (popBool vm) (\<lambda>(verified, vm).
     if \<not> verified then scriptError c else Inr vm)"

definition opcodeVerify :: handler where
  "opcodeVerify op vm = abstractVerify op vm ErrVerify"

definition opcodeReturn :: handler where
  "opcodeReturn op vm = scriptError ErrEarlyReturn"

section \<open>Lock times\<close>

definition LockTimeThreshold :: u64 where "LockTimeThreshold = 500000000"
definition MaxTxInSequenceNum :: u64 where "MaxTxInSequenceNum = - 1"
definition SequenceLockTimeDisabled :: u64 where "SequenceLockTimeDisabled = push_bit 31 1"
definition SequenceLockTimeIsSeconds :: u64 where "SequenceLockTimeIsSeconds = push_bit 22 1"
definition SequenceLockTimeMask :: u64 where "SequenceLockTimeMask = 0x0000ffff"

definition verifyLockTime :: "u64 \<Rightarrow> u64 \<Rightarrow> u64 \<Rightarrow> unit script_result" where
  "verifyLockTime txLockTime threshold lockTime =
    (if \<not> ((txLockTime < threshold \<and> lockTime < threshold) \<or>
            (txLockTime \<ge> threshold \<and> lockTime \<ge> threshold)) then scriptError ErrUnsatisfiedLockTime
     else if lockTime > txLockTime then scriptError ErrUnsatisfiedLockTime
     else Inr ())"

definition opcodeCheckLockTimeVerify :: handler where
  "opcodeCheckLockTimeVerify op vm =
    rbind (popBytes vm) (\<lambda>(so, vm).
    rbind (makeScriptNum so 5) (\<lambda>lockTime.
      if lockTime < 0 then scriptError ErrNegativeLockTime
      else
        rbind (verifyLockTime (LockTime (tx vm)) LockTimeThreshold (word_of_int lockTime)) (\<lambda>_.
        rbind (curInput vm) (\<lambda>input.
          if Sequence input = MaxTxInSequenceNum then scriptError ErrUnsatisfiedLockTime
          else Inr vm))))"

definition opcodeCheckSequenceVerify :: handler where
  "opcodeCheckSequenceVerify op vm =
    rbind (popBytes vm) (\<lambda>(so, vm).
    rbind (makeScriptNum so 5) (\<lambda>stackSequence.
      if stackSequence < 0 then scriptError ErrNegativeLockTime
      else
        let sequence = (word_of_int stackSequence :: u64)
        in if sequence AND SequenceLockTimeDisabled \<noteq> 0 then Inr vm
           else
             rbind (curInput vm) (\<lambda>input.
               let txSequence = Sequence input
               in if txSequence AND SequenceLockTimeDisabled \<noteq> 0 then scriptError ErrUnsatisfiedLockTime
                  else
                    let lockTimeMask = SequenceLockTimeIsSeconds OR SequenceLockTimeMask
                    in rbind (verifyLockTime (txSequence AND lockTimeMask) SequenceLockTimeIsSeconds
                                (sequence AND lockTimeMask)) (\<lambda>_. Inr vm))))"

end
