(* ===== verification/Script_Handlers.thy ===== *)
theory Script_Handlers
  imports Script_Engine
begin

text \<open>
  The handlers of \<^verbatim>\<open>txscript/opcode.go\<close> that work on the data and alt stacks: stack manipulation,
  comparison of byte strings, arithmetic on script numbers, and hashing.  Script numbers are
  \<^verbatim>\<open>int64\<close> values, so the results of the arithmetic are wrapped by \<open>i64\<close>.
\<close>

section \<open>Stack manipulation\<close>

definition opcodeToAltStack :: handler where
  "opcodeToAltStack op vm = rbind (popBytes vm) (\<lambda>(so, vm). Inr (vm\<lparr>astack := PushByteArray (astack vm) so\<rparr>))"

definition opcodeFromAltStack :: handler where
  "opcodeFromAltStack op vm = rbind (PopByteArray (astack vm)) (\<lambda>(so, s). pushBytes so (vm\<lparr>astack := s\<rparr>))"

definition opcode2Drop :: handler where
  "opcode2Drop op vm = on_dstack (\<lambda>s. DropN s 2) vm"

definition opcode2Dup :: handler where
  "opcode2Dup op vm = on_dstack (\<lambda>s. DupN s 2) vm"

definition opcode3Dup :: handler where
  "opcode3Dup op vm = on_dstack (\<lambda>s. DupN s 3) vm"

definition opcode2Over :: handler where
  "opcode2Over op vm = on_dstack (\<lambda>s. OverN s 2) vm"

definition opcode2Rot :: handler where
  "opcode2Rot op vm = on_dstack (\<lambda>s. RotN s 2) vm"

definition opcode2Swap :: handler where
  "opcode2Swap op vm = on_dstack (\<lambda>s. SwapN s 2) vm"

definition opcodeIfDup :: handler where
  "opcodeIfDup op vm = rbind (PeekByteArray (dstack vm) 0) (\<lambda>so.
     if asBool so then pushBytes so vm else Inr vm)"

definition opcodeDepth :: handler where
  "opcodeDepth op vm = pushInt (Depth (dstack vm)) vm"

definition opcodeDrop :: handler where
  "opcodeDrop op vm = on_dstack (\<lambda>s. DropN s 1) vm"

definition opcodeDup :: handler where
  "opcodeDup op vm = on_dstack (\<lambda>s. DupN s 1) vm"

definition opcodeNip :: handler where
  "opcodeNip op vm = on_dstack (\<lambda>s. NipN s 1) vm"

definition opcodeOver :: handler where
  "opcodeOver op vm = on_dstack (\<lambda>s. OverN s 1) vm"

definition opcodePick :: handler where
  "opcodePick op vm = rbind (popInt vm) (\<lambda>(val, vm). on_dstack (\<lambda>s. PickN s (scriptNum_Int32 val)) vm)"

definition opcodeRoll :: handler where
  "opcodeRoll op vm = rbind (popInt vm) (\<lambda>(val, vm). on_dstack (\<lambda>s. RollN s (scriptNum_Int32 val)) vm)"

definition opcodeRot :: handler where
  "opcodeRot op vm = on_dstack (\<lambda>s. RotN s 1) vm"

definition opcodeSwap :: handler where
  "opcodeSwap op vm = on_dstack (\<lambda>s. SwapN s 1) vm"

definition opcodeTuck :: handler where
  "opcodeTuck op vm = on_dstack (\<lambda>s. Tuck s) vm"

section \<open>Sizes and comparison of byte strings\<close>

definition opcodeSize :: handler where
  "opcodeSize op vm = rbind (PeekByteArray (dstack vm) 0) (\<lambda>so. pushInt (int (length so)) vm)"

definition opcodeEqual :: handler where
  "opcodeEqual op vm = rbind (popBytes vm) (\<lambda>(a, vm). rbind (popBytes vm) (\<lambda>(b, vm). pushBool (a = b) vm))"

definition opcodeEqualVerify :: handler where
  "opcodeEqualVerify op vm = rbind (opcodeEqual op vm) (\<lambda>vm. abstractVerify op vm ErrEqualVerify)"

section \<open>Arithmetic\<close>

definition opcode1Add :: handler where
  "opcode1Add op vm = rbind (popInt vm) (\<lambda>(m, vm). pushInt (i64 (m + 1)) vm)"

definition opcode1Sub :: handler where
  "opcode1Sub op vm = rbind (popInt vm) (\<lambda>(m, vm). pushInt (i64 (m - 1)) vm)"

definition opcodeNegate :: handler where
  "opcodeNegate op vm = rbind (popInt vm) (\<lambda>(m, vm). pushInt (i64 (- m)) vm)"

definition opcodeAbs :: handler where
  "opcodeAbs op vm = rbind (popInt vm) (\<lambda>(m, vm). pushInt (if m < 0 then i64 (- m) else m) vm)"

definition opcodeNot :: handler where
  "opcodeNot op vm = rbind (popInt vm) (\<lambda>(m, vm). if m = 0 then pushInt 1 vm else pushInt 0 vm)"

definition opcode0NotEqual :: handler where
  "opcode0NotEqual op vm = rbind (popInt vm) (\<lambda>(m, vm). pushInt (if m \<noteq> 0 then 1 else m) vm)"

definition opcodeAdd :: handler where
  "opcodeAdd op vm = rbind (popInt vm) (\<lambda>(v0, vm). rbind (popInt vm) (\<lambda>(v1, vm).
     pushInt (i64 (v0 + v1)) vm))"

definition opcodeSub :: handler where
  "opcodeSub op vm = rbind (popInt vm) (\<lambda>(v0, vm). rbind (popInt vm) (\<lambda>(v1, vm).
     pushInt (i64 (v1 - v0)) vm))"

definition opcodeBoolAnd :: handler where
  "opcodeBoolAnd op vm = rbind (popInt vm) (\<lambda>(v0, vm). rbind (popInt vm) (\<lambda>(v1, vm).
     if v0 \<noteq> 0 \<and> v1 \<noteq> 0 then pushInt 1 vm else pushInt 0 vm))"

definition opcodeBoolOr :: handler where
  "opcodeBoolOr op vm = rbind (popInt vm) (\<lambda>(v0, vm). rbind (popInt vm) (\<lambda>(v1, vm).
     if v0 \<noteq> 0 \<or> v1 \<noteq> 0 then pushInt 1 vm else pushInt 0 vm))"

definition opcodeNumEqual :: handler where
  "opcodeNumEqual op vm = rbind (popInt vm) (\<lambda>(v0, vm). rbind (popInt vm) (\<lambda>(v1, vm).
     if v0 = v1 then pushInt 1 vm else pushInt 0 vm))"

definition opcodeNumEqualVerify :: handler where
  "opcodeNumEqualVerify op vm = rbind (opcodeNumEqual op vm) (\<lambda>vm. abstractVerify op vm ErrNumEqualVerify)"

definition opcodeNumNotEqual :: handler where
  "opcodeNumNotEqual op vm = rbind (popInt vm) (\<lambda>(v0, vm). rbind (popInt vm) (\<lambda>(v1, vm).
     if v0 \<noteq> v1 then pushInt 1 vm else pushInt 0 vm))"

definition opcodeLessThan :: handler where
  "opcodeLessThan op vm = rbind (popInt vm) (\<lambda>(v0, vm). rbind (popInt vm) (\<lambda>(v1, vm).
     if v1 < v0 then pushInt 1 vm else pushInt 0 vm))"

definition opcodeGreaterThan :: handler where
  "opcodeGreaterThan op vm = rbind (popInt vm) (\<lambda>(v0, vm). rbind (popInt vm) (\<lambda>(v1, vm).
     if v1 > v0 then pushInt 1 vm else pushInt 0 vm))"

definition opcodeLessThanOrEqual :: handler where
  "opcodeLessThanOrEqual op vm = rbind (popInt vm) (\<lambda>(v0, vm). rbind (popInt vm) (\<lambda>(v1, vm).
     if v1 \<le> v0 then pushInt 1 vm else pushInt 0 vm))"

definition opcodeGreaterThanOrEqual :: handler where
  "opcodeGreaterThanOrEqual op vm = rbind (popInt vm) (\<lambda>(v0, vm). rbind (popInt vm) (\<lambda>(v1, vm).
     if v1 \<ge> v0 then pushInt 1 vm else pushInt 0 vm))"

definition opcodeMin :: handler where
  "opcodeMin op vm = rbind (popInt vm) (\<lambda>(v0, vm). rbind (popInt vm) (\<lambda>(v1, vm).
     if v1 < v0 then pushInt v1 vm else pushInt v0 vm))"

definition opcodeMax :: handler where
  "opcodeMax op vm = rbind (popInt vm) (\<lambda>(v0, vm). rbind (popInt vm) (\<lambda>(v1, vm).
     if v1 > v0 then pushInt v1 vm else pushInt v0 vm))"

definition opcodeWithin :: handler where
  "opcodeWithin op vm = rbind (popInt vm) (\<lambda>(maxVal, vm). rbind (popInt vm) (\<lambda>(minVal, vm).
     rbind (popInt vm) (\<lambda>(x, vm).
       if x \<ge> minVal \<and> x < maxVal then pushInt 1 vm else pushInt 0 vm)))"

section \<open>Hashing\<close>

definition opcodeSha256 :: "crypto \<Rightarrow> handler" where
  "opcodeSha256 C op vm = rbind (popBytes vm) (\<lambda>(buf, vm). pushBytes (sha256_256 (hashes C) buf) vm)"

text \<open>\<^verbatim>\<open>blake2b.Sum256\<close> is the unkeyed hash.\<close>

definition opcodeBlake2b :: "crypto \<Rightarrow> handler" where
  "opcodeBlake2b C op vm = rbind (popBytes vm) (\<lambda>(buf, vm). pushBytes (blake2b_256 (hashes C) [] buf) vm)"

end
