(* ===== verification/Check_Sig.thy ===== *)
theory Check_Sig
  imports Script_Handlers
begin

text \<open>
  The handlers of \<^verbatim>\<open>txscript/opcode.go\<close> that check signatures.  The Schnorr and the ECDSA
  handlers have the same code over different functions of \<^verbatim>\<open>go-secp256k1\<close>, different length
  checks and different caches; a \<open>scheme\<close> is the record of what differs, and the code is written
  once over it.
\<close>

section \<open>Encoding checks\<close>

definition checkPubKeyEncoding :: "byte list \<Rightarrow> unit script_result" where
  "checkPubKeyEncoding pubKey = (if length pubKey = 32 then Inr () else scriptError ErrPubKeyFormat)"

definition checkPubKeyEncodingECDSA :: "byte list \<Rightarrow> unit script_result" where
  "checkPubKeyEncodingECDSA pubKey = (if length pubKey = 33 then Inr () else scriptError ErrPubKeyFormat)"

definition checkSignatureLength :: "byte list \<Rightarrow> unit script_result" where
  "checkSignatureLength sig = (if length sig \<noteq> 64 then scriptError ErrSigLength else Inr ())"

definition checkSignatureLengthECDSA :: "byte list \<Rightarrow> unit script_result" where
  "checkSignatureLengthECDSA sig = (if length sig \<noteq> 64 then scriptError ErrSigLength else Inr ())"

section \<open>Verification through the cache\<close>

definition verifySchnorr ::
  "crypto \<Rightarrow> Engine \<Rightarrow> secpHash \<Rightarrow> parsedSignature \<Rightarrow> parsedPubKey \<Rightarrow> bool \<times> Engine" where
  "verifySchnorr C vm secpHash signature pubKey =
    (case sigCache vm of
       Some cache \<Rightarrow>
         if Exists cache secpHash signature pubKey then (True, vm)
         else if SchnorrVerify C pubKey secpHash signature
         then (True, vm\<lparr>sigCache := Some (Add C cache secpHash signature pubKey)\<rparr>)
         else (False, vm)
     | None \<Rightarrow> (SchnorrVerify C pubKey secpHash signature, vm))"

definition verifyECDSA ::
  "crypto \<Rightarrow> Engine \<Rightarrow> secpHash \<Rightarrow> parsedSignature \<Rightarrow> parsedPubKey \<Rightarrow> bool \<times> Engine" where
  "verifyECDSA C vm secpHash signature pubKey =
    (case sigCacheECDSA vm of
       Some cache \<Rightarrow>
         if ExistsECDSA cache secpHash signature pubKey then (True, vm)
         else if ECDSAVerify C pubKey secpHash signature
         then (True, vm\<lparr>sigCacheECDSA := Some (AddECDSA C cache secpHash signature pubKey)\<rparr>)
         else (False, vm)
     | None \<Rightarrow> (ECDSAVerify C pubKey secpHash signature, vm))"

record scheme =
  s_checkSignatureLength :: "byte list \<Rightarrow> unit script_result"
  s_checkPubKeyEncoding :: "byte list \<Rightarrow> unit script_result"
  s_parsePubKey :: "byte list \<Rightarrow> parsedPubKey option"
  s_parseSignature :: "byte list \<Rightarrow> parsedSignature option"
  s_sigHash :: "DomainTransaction \<Rightarrow> nat \<Rightarrow> SigHashType \<Rightarrow> SighashReusedValues
     \<Rightarrow> (sighash_error, DomainHash \<times> SighashReusedValues) result"
  s_verify :: "Engine \<Rightarrow> secpHash \<Rightarrow> parsedSignature \<Rightarrow> parsedPubKey \<Rightarrow> bool \<times> Engine"

definition schnorr :: "crypto \<Rightarrow> scheme" where
  "schnorr C =
    \<lparr>s_checkSignatureLength = checkSignatureLength, s_checkPubKeyEncoding = checkPubKeyEncoding,
     s_parsePubKey = DeserializeSchnorrPubKey C,
     s_parseSignature = DeserializeSchnorrSignatureFromSlice C,
     s_sigHash = CalculateSignatureHashSchnorr (hashes C), s_verify = verifySchnorr C\<rparr>"

definition ecdsa :: "crypto \<Rightarrow> scheme" where
  "ecdsa C =
    \<lparr>s_checkSignatureLength = checkSignatureLengthECDSA, s_checkPubKeyEncoding = checkPubKeyEncodingECDSA,
     s_parsePubKey = DeserializeECDSAPubKey C,
     s_parseSignature = DeserializeECDSASignatureFromSlice C,
     s_sigHash = CalculateSignatureHashECDSA (hashes C), s_verify = verifyECDSA C\<rparr>"

section \<open>Single signatures\<close>

text \<open>The check of a public key and a signature that have been popped.\<close>

definition checkSig_popped :: "scheme \<Rightarrow> byte list \<Rightarrow> byte list \<Rightarrow> Engine \<Rightarrow> Engine script_result" where
  "checkSig_popped S pkBytes fullSigBytes vm =
    (if length fullSigBytes < 1 then pushBool False vm
     else
       let hashType = fullSigBytes ! (length fullSigBytes - 1);
           sigBytes = take (length fullSigBytes - 1) fullSigBytes
       in if \<not> IsStandardSigHashType hashType then scriptError ErrInvalidSigHashType
          else
            rbind (s_checkSignatureLength S sigBytes) (\<lambda>_.
            rbind (s_checkPubKeyEncoding S pkBytes) (\<lambda>_.
              case s_sigHash S (tx vm) (txIdx vm) hashType (sigHashReusedValues vm) of
                Inl Panic \<Rightarrow> Inl Panic
              | Inl (Err e) \<Rightarrow> pushBool False vm
              | Inr (sigHash, reusedValues) \<Rightarrow>
                  let vm = vm\<lparr>sigHashReusedValues := reusedValues\<rparr>
                  in case s_parsePubKey S pkBytes of
                       None \<Rightarrow> pushBool False vm
                     | Some pubKey \<Rightarrow>
                         case s_parseSignature S sigBytes of
                           None \<Rightarrow> pushBool False vm
                         | Some signature \<Rightarrow>
                             let (valid, vm) = s_verify S vm sigHash signature pubKey
                             in if \<not> valid \<and> length sigBytes > 0 then scriptError ErrNullFail
                                else pushBool valid vm)))"

definition checkSig_with :: "scheme \<Rightarrow> handler" where
  "checkSig_with S op vm =
    rbind (popBytes vm) (\<lambda>(pkBytes, vm).
    rbind (popBytes vm) (\<lambda>(fullSigBytes, vm). checkSig_popped S pkBytes fullSigBytes vm))"

definition opcodeCheckSig :: "crypto \<Rightarrow> handler" where
  "opcodeCheckSig C = checkSig_with (schnorr C)"

definition opcodeCheckSigECDSA :: "crypto \<Rightarrow> handler" where
  "opcodeCheckSigECDSA C = checkSig_with (ecdsa C)"

definition opcodeCheckSigVerify :: "crypto \<Rightarrow> handler" where
  "opcodeCheckSigVerify C op vm = rbind (opcodeCheckSig C op vm) (\<lambda>vm. abstractVerify op vm ErrCheckSigVerify)"

section \<open>Several signatures\<close>

record parsedSigInfo =
  psi_signature :: "byte list"
  psi_parsedSignature :: "parsedSignature option"
  psi_parsed :: bool

text \<open>The loops that pop the keys and the signatures.\<close>

fun popN :: "nat \<Rightarrow> Engine \<Rightarrow> (byte list list \<times> Engine) script_result" where
  "popN 0 vm = Inr ([], vm)"
| "popN (Suc n) vm = rbind (popBytes vm) (\<lambda>(so, vm). rbind (popN n vm) (\<lambda>(sos, vm). Inr (so # sos, vm)))"

text \<open>
  The part of the loop body that looks at one signature and one public key.  Its result is
  whether the signature is valid, a \<^verbatim>\<open>continue\<close> being one way not to be; the parsed signature is
  kept for the next key.  An error of the hash function would be returned as it is; it cannot occur,
  because the type of the hash is checked when the signature is parsed.
\<close>

definition trySig ::
  "scheme \<Rightarrow> Engine \<Rightarrow> parsedSigInfo \<Rightarrow> byte list \<Rightarrow> (bool \<times> Engine \<times> parsedSigInfo) script_result" where
  "trySig S vm sigInfo pubKey =
    (let rawSig = psi_signature sigInfo
     in if length rawSig = 0 then Inr (False, vm, sigInfo)
        else
          let hashType = rawSig ! (length rawSig - 1);
              signature = take (length rawSig - 1) rawSig
          in rbind
               (if \<not> psi_parsed sigInfo then
                  (if \<not> IsStandardSigHashType hashType then scriptError ErrInvalidSigHashType
                   else rbind (s_checkSignatureLength S signature) (\<lambda>_.
                     Inr (sigInfo\<lparr>psi_parsed := True, psi_parsedSignature := s_parseSignature S signature\<rparr>)))
                else Inr sigInfo)
               (\<lambda>sigInfo. case psi_parsedSignature sigInfo of
                  None \<Rightarrow> Inr (False, vm, sigInfo)
                | Some parsedSig \<Rightarrow>
                    rbind (s_checkPubKeyEncoding S pubKey) (\<lambda>_.
                      case s_parsePubKey S pubKey of
                        None \<Rightarrow> Inr (False, vm, sigInfo)
                      | Some parsedPubKey \<Rightarrow>
                          case s_sigHash S (tx vm) (txIdx vm) hashType (sigHashReusedValues vm) of
                            Inl Panic \<Rightarrow> Inl Panic
                          | Inl (Err e) \<Rightarrow> scriptError ErrInvalidSigHashType
                          | Inr (sigHash, reusedValues) \<Rightarrow>
                              let vm = vm\<lparr>sigHashReusedValues := reusedValues\<rparr>;
                                  (valid, vm) = s_verify S vm sigHash parsedSig parsedPubKey
                              in Inr (valid, vm, sigInfo))))"

text \<open>
  The loop over the public keys.  \<open>numPubKeys\<close> is the counter before it is decremented at the top of
  the body and \<open>pubKeyIdx\<close> the index after it is incremented there; with \<open>numPubKeys = 0\<close> the
  decremented counter is negative and the loop ends without success.
\<close>

fun multiSig_loop ::
  "scheme \<Rightarrow> byte list list \<Rightarrow> Engine \<Rightarrow> parsedSigInfo list \<Rightarrow> nat \<Rightarrow> nat \<Rightarrow> nat \<Rightarrow> nat
   \<Rightarrow> (bool \<times> Engine) script_result" where
  "multiSig_loop S pubKeys vm signatures signatureIdx numSignatures pubKeyIdx 0 =
     (if numSignatures > 0 then Inr (False, vm) else Inr (True, vm))"
| "multiSig_loop S pubKeys vm signatures signatureIdx numSignatures pubKeyIdx (Suc numPubKeys) =
     (if numSignatures > 0 then
        (if numSignatures > numPubKeys then Inr (False, vm)
         else if signatureIdx < length signatures \<and> pubKeyIdx < length pubKeys then
           rbind (trySig S vm (signatures ! signatureIdx) (pubKeys ! pubKeyIdx)) (\<lambda>(valid, vm, sigInfo).
             let signatures = signatures[signatureIdx := sigInfo]
             in if valid
                then multiSig_loop S pubKeys vm signatures (signatureIdx + 1) (numSignatures - 1) (pubKeyIdx + 1) numPubKeys
                else multiSig_loop S pubKeys vm signatures signatureIdx numSignatures (pubKeyIdx + 1) numPubKeys)
         else Inl Panic)
      else Inr (True, vm))"

definition checkMultiSig_with :: "scheme \<Rightarrow> handler" where
  "checkMultiSig_with S op vm =
    rbind (popInt vm) (\<lambda>(numKeys, vm).
      let numPubKeys = scriptNum_Int32 numKeys
      in if numPubKeys < 0 then scriptError ErrInvalidPubKeyCount
         else if numPubKeys > MaxPubKeysPerMultiSig then scriptError ErrInvalidPubKeyCount
         else
           let vm = vm\<lparr>numOps := numOps vm + numPubKeys\<rparr>
           in if numOps vm > MaxOpsPerScript then scriptError ErrTooManyOperations
              else
                rbind (popN (nat numPubKeys) vm) (\<lambda>(pubKeys, vm).
                rbind (popInt vm) (\<lambda>(numSigs, vm).
                  let numSignatures = scriptNum_Int32 numSigs
                  in if numSignatures < 0 then scriptError ErrInvalidSignatureCount
                     else if numSignatures > numPubKeys then scriptError ErrInvalidSignatureCount
                     else
                       rbind (popN (nat numSignatures) vm) (\<lambda>(sigs, vm).
                         let signatures = map (\<lambda>signature. \<lparr>psi_signature = signature,
                               psi_parsedSignature = None, psi_parsed = False\<rparr>) sigs
                         in rbind (multiSig_loop S pubKeys vm signatures 0 (nat numSignatures) 0 (nat numPubKeys + 1))
                              (\<lambda>(success, vm).
                                if \<not> success \<and> (\<exists>sig \<in> set sigs. length sig > 0) then scriptError ErrNullFail
                                else pushBool success vm)))))"

definition opcodeCheckMultiSig :: "crypto \<Rightarrow> handler" where
  "opcodeCheckMultiSig C = checkMultiSig_with (schnorr C)"

definition opcodeCheckMultiSigECDSA :: "crypto \<Rightarrow> handler" where
  "opcodeCheckMultiSigECDSA C = checkMultiSig_with (ecdsa C)"

definition opcodeCheckMultiSigVerify :: "crypto \<Rightarrow> handler" where
  "opcodeCheckMultiSigVerify C op vm =
     rbind (opcodeCheckMultiSig C op vm) (\<lambda>vm. abstractVerify op vm ErrCheckMultiSigVerify)"

end
