(* ===== verification/Engine_Run.thy ===== *)
theory Engine_Run
  imports Check_Sig
begin

text \<open>
  Execution of scripts, \<^verbatim>\<open>txscript/engine.go\<close>: one opcode, one step of the program counter, the loop
  of \<^verbatim>\<open>Execute\<close> with its termination proof, and the construction of an engine.
\<close>

section \<open>One opcode\<close>

text \<open>The call through the function pointer of the opcode table.\<close>

fun call_opfunc :: "crypto \<Rightarrow> opfunc \<Rightarrow> handler" where
  "call_opfunc C f_opcodeFalse = opcodeFalse"
| "call_opfunc C f_opcodePushData = opcodePushData"
| "call_opfunc C f_opcode1Negate = opcode1Negate"
| "call_opfunc C f_opcodeReserved = opcodeReserved"
| "call_opfunc C f_opcodeN = opcodeN"
| "call_opfunc C f_opcodeNop = opcodeNop"
| "call_opfunc C f_opcodeIf = opcodeIf"
| "call_opfunc C f_opcodeNotIf = opcodeNotIf"
| "call_opfunc C f_opcodeElse = opcodeElse"
| "call_opfunc C f_opcodeEndif = opcodeEndif"
| "call_opfunc C f_opcodeVerify = opcodeVerify"
| "call_opfunc C f_opcodeReturn = opcodeReturn"
| "call_opfunc C f_opcodeCheckLockTimeVerify = opcodeCheckLockTimeVerify"
| "call_opfunc C f_opcodeCheckSequenceVerify = opcodeCheckSequenceVerify"
| "call_opfunc C f_opcodeToAltStack = opcodeToAltStack"
| "call_opfunc C f_opcodeFromAltStack = opcodeFromAltStack"
| "call_opfunc C f_opcode2Drop = opcode2Drop"
| "call_opfunc C f_opcode2Dup = opcode2Dup"
| "call_opfunc C f_opcode3Dup = opcode3Dup"
| "call_opfunc C f_opcode2Over = opcode2Over"
| "call_opfunc C f_opcode2Rot = opcode2Rot"
| "call_opfunc C f_opcode2Swap = opcode2Swap"
| "call_opfunc C f_opcodeIfDup = opcodeIfDup"
| "call_opfunc C f_opcodeDepth = opcodeDepth"
| "call_opfunc C f_opcodeDrop = opcodeDrop"
| "call_opfunc C f_opcodeDup = opcodeDup"
| "call_opfunc C f_opcodeNip = opcodeNip"
| "call_opfunc C f_opcodeOver = opcodeOver"
| "call_opfunc C f_opcodePick = opcodePick"
| "call_opfunc C f_opcodeRoll = opcodeRoll"
| "call_opfunc C f_opcodeRot = opcodeRot"
| "call_opfunc C f_opcodeSwap = opcodeSwap"
| "call_opfunc C f_opcodeTuck = opcodeTuck"
| "call_opfunc C f_opcodeDisabled = opcodeDisabled"
| "call_opfunc C f_opcodeSize = opcodeSize"
| "call_opfunc C f_opcodeEqual = opcodeEqual"
| "call_opfunc C f_opcodeEqualVerify = opcodeEqualVerify"
| "call_opfunc C f_opcode1Add = opcode1Add"
| "call_opfunc C f_opcode1Sub = opcode1Sub"
| "call_opfunc C f_opcodeNegate = opcodeNegate"
| "call_opfunc C f_opcodeAbs = opcodeAbs"
| "call_opfunc C f_opcodeNot = opcodeNot"
| "call_opfunc C f_opcode0NotEqual = opcode0NotEqual"
| "call_opfunc C f_opcodeAdd = opcodeAdd"
| "call_opfunc C f_opcodeSub = opcodeSub"
| "call_opfunc C f_opcodeBoolAnd = opcodeBoolAnd"
| "call_opfunc C f_opcodeBoolOr = opcodeBoolOr"
| "call_opfunc C f_opcodeNumEqual = opcodeNumEqual"
| "call_opfunc C f_opcodeNumEqualVerify = opcodeNumEqualVerify"
| "call_opfunc C f_opcodeNumNotEqual = opcodeNumNotEqual"
| "call_opfunc C f_opcodeLessThan = opcodeLessThan"
| "call_opfunc C f_opcodeGreaterThan = opcodeGreaterThan"
| "call_opfunc C f_opcodeLessThanOrEqual = opcodeLessThanOrEqual"
| "call_opfunc C f_opcodeGreaterThanOrEqual = opcodeGreaterThanOrEqual"
| "call_opfunc C f_opcodeMin = opcodeMin"
| "call_opfunc C f_opcodeMax = opcodeMax"
| "call_opfunc C f_opcodeWithin = opcodeWithin"
| "call_opfunc C f_opcodeCheckMultiSigECDSA = opcodeCheckMultiSigECDSA C"
| "call_opfunc C f_opcodeSha256 = opcodeSha256 C"
| "call_opfunc C f_opcodeBlake2b = opcodeBlake2b C"
| "call_opfunc C f_opcodeCheckSigECDSA = opcodeCheckSigECDSA C"
| "call_opfunc C f_opcodeCheckSig = opcodeCheckSig C"
| "call_opfunc C f_opcodeCheckSigVerify = opcodeCheckSigVerify C"
| "call_opfunc C f_opcodeCheckMultiSig = opcodeCheckMultiSig C"
| "call_opfunc C f_opcodeCheckMultiSigVerify = opcodeCheckMultiSigVerify C"
| "call_opfunc C f_opcodeInvalid = opcodeInvalid"

definition executeOpcode :: "crypto \<Rightarrow> parsedOpcode \<Rightarrow> Engine \<Rightarrow> Engine script_result" where
  "executeOpcode C pop vm =
    (if isDisabled pop then scriptError ErrDisabledOpcode
     else if alwaysIllegal pop then scriptError ErrReservedOpcode
     else
       rbind
         (if pop_value pop > Op16 then
            (let vm = vm\<lparr>numOps := numOps vm + 1\<rparr>
             in if numOps vm > MaxOpsPerScript then scriptError ErrTooManyOperations else Inr vm)
          else if length (pop_data pop) > MaxScriptElementSize then scriptError ErrElementTooBig
          else Inr vm)
         (\<lambda>vm.
           if \<not> isBranchExecuting vm \<and> \<not> isConditional pop then Inr vm
           else
             rbind
               (if isBranchExecuting vm \<and> pop_value pop \<noteq> 0 \<and> pop_value pop \<le> OpPushData4
                then checkMinimalDataPush pop else Inr ())
               (\<lambda>_. call_opfunc C (op_opfunc (pop_opcode pop)) pop vm)))"

section \<open>Program counter and stacks\<close>

definition validPC :: "Engine \<Rightarrow> unit script_result" where
  "validPC vm =
    (if scriptIdx vm \<ge> length (scripts vm) then scriptError ErrInvalidProgramCounter
     else if scriptOff vm \<ge> length (scripts vm ! scriptIdx vm) then scriptError ErrInvalidProgramCounter
     else Inr ())"

definition curPC :: "Engine \<Rightarrow> (nat \<times> nat) script_result" where
  "curPC vm = rbind (validPC vm) (\<lambda>_. Inr (scriptIdx vm, scriptOff vm))"

definition CheckErrorCondition :: "Engine \<Rightarrow> bool \<Rightarrow> Engine script_result" where
  "CheckErrorCondition vm finalScript =
    (if scriptIdx vm < length (scripts vm) then scriptError ErrScriptUnfinished
     else if finalScript \<and> Depth (dstack vm) > 1 then scriptError ErrCleanStack
     else if finalScript \<and> Depth (dstack vm) < 1 then scriptError ErrEmptyStack
     else rbind (popBool vm) (\<lambda>(v, vm). if \<not> v then scriptError ErrEvalFalse else Inr vm))"

definition getStack :: "stack \<Rightarrow> stack" where
  "getStack s =
     rev (map (\<lambda>i. case PeekByteArray s (int i) of Inr x \<Rightarrow> x | Inl _ \<Rightarrow> []) [0..<nat (Depth s)])"

text \<open>
  The error of \<^verbatim>\<open>DropN\<close> is ignored; it occurs for an empty stack, which stays as it is.
\<close>

definition dropAll :: "stack \<Rightarrow> stack" where
  "dropAll s = (case DropN s (Depth s) of Inr s' \<Rightarrow> s' | Inl _ \<Rightarrow> s)"

definition setStack :: "stack \<Rightarrow> stack \<Rightarrow> stack" where
  "setStack s data = fold (\<lambda>d s. PushByteArray s d) data (dropAll s)"

definition GetStack :: "Engine \<Rightarrow> stack" where
  "GetStack vm = getStack (dstack vm)"

definition SetStack :: "Engine \<Rightarrow> stack \<Rightarrow> Engine" where
  "SetStack vm data = vm\<lparr>dstack := setStack (dstack vm) data\<rparr>"

definition GetAltStack :: "Engine \<Rightarrow> stack" where
  "GetAltStack vm = getStack (astack vm)"

definition SetAltStack :: "Engine \<Rightarrow> stack \<Rightarrow> Engine" where
  "SetAltStack vm data = vm\<lparr>astack := setStack (astack vm) data\<rparr>"

section \<open>One step\<close>

text \<open>The part of \<^verbatim>\<open>Step\<close> that goes on to the next script.\<close>

definition nextScript :: "Engine \<Rightarrow> Engine script_result" where
  "nextScript vm =
    (if scriptIdx vm = 0 \<and> isP2SH vm then
       (let vm = vm\<lparr>scriptIdx := scriptIdx vm + 1\<rparr>
        in Inr (vm\<lparr>savedFirstStack := GetStack vm\<rparr>))
     else if scriptIdx vm = 1 \<and> isP2SH vm then
       (let vm = vm\<lparr>scriptIdx := scriptIdx vm + 1\<rparr>
        in rbind (CheckErrorCondition vm False) (\<lambda>vm.
             if savedFirstStack vm = [] then Inl Panic
             else
               let n = length (savedFirstStack vm);
                   script = savedFirstStack vm ! (n - 1)
               in rbind (parseScript_result script) (\<lambda>pops.
                    let vm = vm\<lparr>scripts := scripts vm @ [pops]\<rparr>
                    in Inr (SetStack vm (take (n - 1) (savedFirstStack vm))))))
     else Inr (vm\<lparr>scriptIdx := scriptIdx vm + 1\<rparr>))"

text \<open>The branch of \<^verbatim>\<open>Step\<close> at the end of a script.\<close>

definition endScript :: "Engine \<Rightarrow> (bool \<times> Engine) script_result" where
  "endScript vm =
    (if length (condStack vm) \<noteq> 0 then scriptError ErrUnbalancedConditional
     else
       let vm = vm\<lparr>astack := dropAll (astack vm)\<rparr>;
           vm = vm\<lparr>numOps := 0, scriptOff := 0\<rparr>
       in rbind (nextScript vm) (\<lambda>vm.
            let vm = (if scriptIdx vm < length (scripts vm) \<and>
                         scriptOff vm \<ge> length (scripts vm ! scriptIdx vm)
                      then vm\<lparr>scriptIdx := scriptIdx vm + 1\<rparr> else vm)
            in if scriptIdx vm \<ge> length (scripts vm) then Inr (True, vm)
               else Inr (False, vm)))"

definition Step :: "crypto \<Rightarrow> Engine \<Rightarrow> (bool \<times> Engine) script_result" where
  "Step C vm =
    rbind (validPC vm) (\<lambda>_.
      let opcode = scripts vm ! scriptIdx vm ! scriptOff vm;
          vm = vm\<lparr>scriptOff := scriptOff vm + 1\<rparr>
      in rbind (executeOpcode C opcode vm) (\<lambda>vm.
           let combinedStackSize = Depth (dstack vm) + Depth (astack vm)
           in if combinedStackSize > MaxStackSize then scriptError ErrStackOverflow
              else if scriptOff vm \<ge> length (scripts vm ! scriptIdx vm) then endScript vm
              else Inr (False, vm)))"

section \<open>Termination\<close>

text \<open>
  No handler changes the scripts, the program counter or the transaction.
\<close>

definition fixed :: "Engine \<Rightarrow> _" where
  "fixed vm = (scriptVersion vm, scripts vm, scriptIdx vm, scriptOff vm, tx vm, txIdx vm, flags vm, isP2SH vm,
     savedFirstStack vm)"

lemma fixed_update [simp]:
  "fixed (vm\<lparr>dstack := a\<rparr>) = fixed vm"
  "fixed (vm\<lparr>astack := a\<rparr>) = fixed vm"
  "fixed (vm\<lparr>condStack := c\<rparr>) = fixed vm"
  "fixed (vm\<lparr>numOps := n\<rparr>) = fixed vm"
  "fixed (vm\<lparr>sigCache := sc\<rparr>) = fixed vm"
  "fixed (vm\<lparr>sigCacheECDSA := sc\<rparr>) = fixed vm"
  "fixed (vm\<lparr>sigHashReusedValues := rv\<rparr>) = fixed vm"
  by (simp_all add: fixed_def)

lemmas pop_push_defs = on_dstack_def pop_with_def popBytes_def popInt_def popBool_def pushBytes_def
  pushInt_def pushBool_def

lemmas control_defs = opcodeDisabled_def opcodeReserved_def opcodeInvalid_def opcodeFalse_def
  opcodePushData_def opcode1Negate_def opcodeN_def opcodeNop_def opcodeIf_def opcodeNotIf_def
  opcodeElse_def opcodeEndif_def opcodeVerify_def opcodeReturn_def opcodeCheckLockTimeVerify_def
  opcodeCheckSequenceVerify_def popIfBool_def abstractVerify_def

lemmas stack_op_defs = opcodeToAltStack_def opcodeFromAltStack_def opcode2Drop_def opcode2Dup_def
  opcode3Dup_def opcode2Over_def opcode2Rot_def opcode2Swap_def opcodeIfDup_def opcodeDepth_def
  opcodeDrop_def opcodeDup_def opcodeNip_def opcodeOver_def opcodePick_def opcodeRoll_def opcodeRot_def
  opcodeSwap_def opcodeTuck_def opcodeSize_def opcodeEqual_def opcodeEqualVerify_def opcodeSha256_def
  opcodeBlake2b_def

lemmas arith_defs = opcode1Add_def opcode1Sub_def opcodeNegate_def opcodeAbs_def opcodeNot_def
  opcode0NotEqual_def opcodeAdd_def opcodeSub_def opcodeBoolAnd_def opcodeBoolOr_def opcodeNumEqual_def
  opcodeNumEqualVerify_def opcodeNumNotEqual_def opcodeLessThan_def opcodeGreaterThan_def
  opcodeLessThanOrEqual_def opcodeGreaterThanOrEqual_def opcodeMin_def opcodeMax_def opcodeWithin_def

lemma fixed_pops [simp]:
  "ret (popBytes vm) (\<lambda>(x, vm'). fixed vm' = fixed vm)"
  "ret (popInt vm) (\<lambda>(x, vm'). fixed vm' = fixed vm)"
  "ret (popBool vm) (\<lambda>(x, vm'). fixed vm' = fixed vm)"
  by (simp_all add: pop_push_defs ret_simps)

lemma fixed_handlers:
  "ret (call_opfunc C f pop vm) (\<lambda>vm'. fixed vm' = fixed vm)"
  if "f \<notin> {f_opcodeCheckSig, f_opcodeCheckSigECDSA, f_opcodeCheckSigVerify, f_opcodeCheckMultiSig,
    f_opcodeCheckMultiSigECDSA, f_opcodeCheckMultiSigVerify}"
  using that
  by (cases f) (simp_all add: control_defs stack_op_defs arith_defs pop_push_defs ret_simps Let_def)

lemma fixed_verify: "fixed vm = v \<Longrightarrow> ret (abstractVerify op vm c) (\<lambda>vm'. fixed vm' = v)"
  by (simp add: control_defs pop_push_defs ret_simps)

text \<open>
  What the handlers that check signatures rely on: the functions of a scheme do not panic, and
  verification changes nothing but the caches.
\<close>

locale signature_scheme =
  fixes S :: scheme
  assumes verify_frame: "\<exists>c e. snd (s_verify S vm h s k) = vm\<lparr>sigCache := c, sigCacheECDSA := e\<rparr>"
    and sigHash_no_panic: "i < length (Inputs t) \<Longrightarrow> in_UTXOEntry (Inputs t ! i) \<noteq> None \<Longrightarrow>
      s_sigHash S t i ht rv \<noteq> Inl Panic"
    and checks_no_panic: "s_checkSignatureLength S sig \<noteq> Inl Panic" "s_checkPubKeyEncoding S pk \<noteq> Inl Panic"
begin

lemma fixed_s_verify [simp]: "fixed (snd (s_verify S vm h s k)) = fixed vm"
proof -
  obtain c e where "snd (s_verify S vm h s k) = vm\<lparr>sigCache := c, sigCacheECDSA := e\<rparr>"
    using verify_frame by blast
  then show ?thesis by simp
qed

lemma fixed_s_verify_pair [simp]: "s_verify S vm h s k = (b, vm') \<Longrightarrow> fixed vm' = fixed vm"
  using fixed_s_verify [of vm h s k] by simp

lemma fixed_checkSig: "ret (checkSig_with S op vm) (\<lambda>vm'. fixed vm' = fixed vm)"
  by (auto simp: checkSig_with_def checkSig_popped_def pop_push_defs ret_simps Let_def split: prod.splits option.splits sum.splits fault.splits)

lemma fixed_popN: "ret (popN n vm) (\<lambda>(x, vm'). fixed vm' = fixed vm)"
proof (induction n arbitrary: vm)
  case (Suc n)
  have "ret (popN n (vm\<lparr>dstack := s\<rparr>)) (\<lambda>(x, vm'). fixed vm' = fixed vm)" for s
    using Suc [of "vm\<lparr>dstack := s\<rparr>"] by simp
  then show ?case by (simp add: pop_push_defs ret_simps)
qed simp

lemma fixed_trySig: "ret (trySig S vm info pk) (\<lambda>(v, vm', i). fixed vm' = fixed vm)"
  by (auto simp: trySig_def ret_simps Let_def split: prod.splits option.splits sum.splits fault.splits)

lemma fixed_multiSig_loop:
  "ret (multiSig_loop S pks vm sigs si ns ki n) (\<lambda>(b, vm'). fixed vm' = fixed vm)"
proof (induction n arbitrary: vm sigs si ns ki)
  case (Suc n)
  have "ret (multiSig_loop S pks vm' sigs' si' ns' ki' n) (\<lambda>(b, vm''). fixed vm'' = fixed vm)"
    if "fixed vm' = fixed vm" for vm' sigs' si' ns' ki'
    using Suc [of vm'] that by simp
  then show ?case
    by (auto simp: ret_simps Let_def intro!: ret_mono [OF fixed_trySig])
qed simp

lemma fixed_checkMultiSig: "ret (checkMultiSig_with S op vm) (\<lambda>vm'. fixed vm' = fixed vm)"
proof -
  have i: "ret (popInt vm') (\<lambda>(x, vm''). P x vm'')" if "\<And>x vm''. fixed vm'' = fixed vm' \<Longrightarrow> P x vm''" for vm' P
    by (rule ret_mono [OF fixed_pops(2)]) (use that in auto)
  have p: "ret (popN n vm') (\<lambda>(x, vm''). P x vm'')" if "\<And>x vm''. fixed vm'' = fixed vm' \<Longrightarrow> P x vm''" for n vm' P
    by (rule ret_mono [OF fixed_popN]) (use that in auto)
  have l: "ret (multiSig_loop S pks vm' sigs si ns ki n) (\<lambda>(x, vm''). P x vm'')"
    if "\<And>x vm''. fixed vm'' = fixed vm' \<Longrightarrow> P x vm''" for pks vm' sigs si ns ki n P
    by (rule ret_mono [OF fixed_multiSig_loop]) (use that in auto)
  show ?thesis
    by (auto simp: checkMultiSig_with_def pushBool_def ret_simps Let_def simp del: multiSig_loop.simps intro!: i p l)
qed

end

lemma CalculateSignatureHash_no_panic:
  assumes "i < length (Inputs t)" "in_UTXOEntry (Inputs t ! i) \<noteq> None"
  shows "CalculateSignatureHashSchnorr H t i ht rv \<noteq> Inl Panic" "CalculateSignatureHashECDSA H t i ht rv \<noteq> Inl Panic"
  using assms by (auto simp: CalculateSignatureHashSchnorr_def CalculateSignatureHashECDSA_def Let_def
    rbind_Inl_iff split: option.splits prod.splits if_splits)

lemma verify_frame:
  "snd (verifySchnorr C vm h s k) = vm\<lparr>sigCache := sigCache (snd (verifySchnorr C vm h s k)),
     sigCacheECDSA := sigCacheECDSA (snd (verifySchnorr C vm h s k))\<rparr>"
  "snd (verifyECDSA C vm h s k) = vm\<lparr>sigCache := sigCache (snd (verifyECDSA C vm h s k)),
     sigCacheECDSA := sigCacheECDSA (snd (verifyECDSA C vm h s k))\<rparr>"
  by (simp_all add: verifySchnorr_def verifyECDSA_def split: option.split)

lemma verify_frames:
  "\<exists>c e. snd (verifySchnorr C vm h s k) = vm\<lparr>sigCache := c, sigCacheECDSA := e\<rparr>"
  "\<exists>c e. snd (verifyECDSA C vm h s k) = vm\<lparr>sigCache := c, sigCacheECDSA := e\<rparr>"
  using verify_frame by blast+

interpretation schnorr: signature_scheme "schnorr C" for C
  by unfold_locales
    (simp_all add: schnorr_def verify_frames CalculateSignatureHash_no_panic checkSignatureLength_def checkPubKeyEncoding_def)

interpretation ecdsa: signature_scheme "ecdsa C" for C
  by unfold_locales
    (simp_all add: ecdsa_def verify_frames CalculateSignatureHash_no_panic checkSignatureLengthECDSA_def checkPubKeyEncodingECDSA_def)

lemma fixed_call_opfunc: "ret (call_opfunc C f pop vm) (\<lambda>vm'. fixed vm' = fixed vm)"
proof -
  have v: "ret (rbind m (\<lambda>vm'. abstractVerify pop vm' c)) (\<lambda>vm'. fixed vm' = fixed vm)"
    if "ret m (\<lambda>vm'. fixed vm' = fixed vm)" for m c
    unfolding ret_rbind by (rule ret_mono [OF that]) (rule fixed_verify)
  show ?thesis
  proof (cases "f \<in> {f_opcodeCheckSig, f_opcodeCheckSigECDSA, f_opcodeCheckSigVerify, f_opcodeCheckMultiSig,
    f_opcodeCheckMultiSigECDSA, f_opcodeCheckMultiSigVerify}")
    case True
    then show ?thesis
      by (elim insertE emptyE) (simp_all add: opcodeCheckSig_def opcodeCheckSigECDSA_def opcodeCheckSigVerify_def
        opcodeCheckMultiSig_def opcodeCheckMultiSigECDSA_def opcodeCheckMultiSigVerify_def v
        schnorr.fixed_checkSig schnorr.fixed_checkMultiSig ecdsa.fixed_checkSig ecdsa.fixed_checkMultiSig)
  next
    case False
    then show ?thesis by (rule fixed_handlers)
  qed
qed

lemma fixed_executeOpcode: "ret (executeOpcode C pop vm) (\<lambda>vm'. fixed vm' = fixed vm)"
  using fixed_call_opfunc [of C "op_opfunc (pop_opcode pop)" pop "vm\<lparr>numOps := numOps vm + 1\<rparr>"]
    fixed_call_opfunc [of C "op_opfunc (pop_opcode pop)" pop vm]
  by (auto simp: executeOpcode_def ret_simps Let_def intro: ret_mono [OF ret_basic(3)])

definition remaining :: "Engine \<Rightarrow> nat" where
  "remaining vm = sum_list (map length (drop (scriptIdx vm) (scripts vm))) - scriptOff vm"

definition pendingScripts :: "Engine \<Rightarrow> nat" where
  "pendingScripts vm = (if isP2SH vm then 2 - scriptIdx vm else 0)"

lemma fixed_fields:
  "fixed vm = fixed vm' \<Longrightarrow> scripts vm = scripts vm' \<and> scriptIdx vm = scriptIdx vm' \<and> scriptOff vm = scriptOff vm' \<and>
     isP2SH vm = isP2SH vm' \<and> savedFirstStack vm = savedFirstStack vm' \<and> tx vm = tx vm' \<and> txIdx vm = txIdx vm' \<and>
     flags vm = flags vm' \<and> scriptVersion vm = scriptVersion vm'"
  by (simp add: fixed_def)

text \<open>The two ways a step ends, and what the branch at the end of a script does.\<close>

lemma Step_cases:
  assumes "Step C vm = Inr (done, vm')"
  obtains vm1 where "scriptIdx vm < length (scripts vm)" "scriptOff vm < length (scripts vm ! scriptIdx vm)"
    "executeOpcode C (scripts vm ! scriptIdx vm ! scriptOff vm) (vm\<lparr>scriptOff := scriptOff vm + 1\<rparr>) = Inr vm1"
    "Depth (dstack vm1) + Depth (astack vm1) \<le> MaxStackSize"
    "fixed vm1 = fixed (vm\<lparr>scriptOff := scriptOff vm + 1\<rparr>)"
    "scriptOff vm + 1 < length (scripts vm ! scriptIdx vm) \<and> \<not> done \<and> vm' = vm1 \<or>
     scriptOff vm + 1 = length (scripts vm ! scriptIdx vm) \<and> endScript vm1 = Inr (done, vm')"
proof -
  let ?vm = "vm\<lparr>scriptOff := scriptOff vm + 1\<rparr>"
  from assms obtain vm1 where
    e: "executeOpcode C (scripts vm ! scriptIdx vm ! scriptOff vm) ?vm = Inr vm1" and
    pc: "scriptIdx vm < length (scripts vm)" "scriptOff vm < length (scripts vm ! scriptIdx vm)" and
    d: "Depth (dstack vm1) + Depth (astack vm1) \<le> MaxStackSize" and
    r: "(if scriptOff vm1 \<ge> length (scripts vm1 ! scriptIdx vm1) then endScript vm1 else Inr (False, vm1)) = Inr (done, vm')"
    by (auto simp: Step_def Let_def rbind_Inr_iff validPC_def not_le split: if_splits)
  have f: "fixed vm1 = fixed ?vm" using retD [OF fixed_executeOpcode e] .
  from fixed_fields [OF f] r pc have "scriptOff vm + 1 < length (scripts vm ! scriptIdx vm) \<and> \<not> done \<and> vm' = vm1 \<or>
     scriptOff vm + 1 = length (scripts vm ! scriptIdx vm) \<and> endScript vm1 = Inr (done, vm')"
    by (auto split: if_splits)
  with pc e d f show ?thesis by (rule that)
qed

lemma endScript_cases:
  assumes "endScript vm = Inr (done, vm')"
  obtains vm2 where "condStack vm = []"
    "nextScript (vm\<lparr>astack := dropAll (astack vm), numOps := 0, scriptOff := 0\<rparr>) = Inr vm2"
    "vm' = (if scriptIdx vm2 < length (scripts vm2) \<and> scriptOff vm2 \<ge> length (scripts vm2 ! scriptIdx vm2)
            then vm2\<lparr>scriptIdx := scriptIdx vm2 + 1\<rparr> else vm2)"
    "done \<longleftrightarrow> length (scripts vm') \<le> scriptIdx vm'"
proof -
  from assms obtain vm2 where n: "condStack vm = []"
    "nextScript (vm\<lparr>astack := dropAll (astack vm), numOps := 0, scriptOff := 0\<rparr>) = Inr vm2" and
    r: "(let vm = (if scriptIdx vm2 < length (scripts vm2) \<and> scriptOff vm2 \<ge> length (scripts vm2 ! scriptIdx vm2)
                  then vm2\<lparr>scriptIdx := scriptIdx vm2 + 1\<rparr> else vm2)
         in if scriptIdx vm \<ge> length (scripts vm) then Inr (True, vm) else Inr (False, vm)) = Inr (done, vm')"
    unfolding endScript_def by (auto simp: Let_def rbind_Inr_iff split: if_split_asm)
  from r have "vm' = (if scriptIdx vm2 < length (scripts vm2) \<and> scriptOff vm2 \<ge> length (scripts vm2 ! scriptIdx vm2)
            then vm2\<lparr>scriptIdx := scriptIdx vm2 + 1\<rparr> else vm2) \<and> (done \<longleftrightarrow> length (scripts vm') \<le> scriptIdx vm')"
    unfolding Let_def by (auto split: if_split_asm)
  with n that show ?thesis by blast
qed

lemma nextScript_cases:
  assumes "nextScript vm = Inr vm'"
  obtains (plain) "\<not> isP2SH vm \<or> scriptIdx vm > 1" "vm' = vm\<lparr>scriptIdx := scriptIdx vm + 1\<rparr>"
  | (save) "isP2SH vm" "scriptIdx vm = 0" "vm' = vm\<lparr>scriptIdx := 1, savedFirstStack := getStack (dstack vm)\<rparr>"
  | (redeem) s pops where "isP2SH vm" "scriptIdx vm = 1" "length (scripts vm) \<le> 2"
      "PopBool (dstack vm) = Inr (True, s)" "savedFirstStack vm \<noteq> []"
      "parseScript (last (savedFirstStack vm)) = (pops, None)"
      "vm' = vm\<lparr>scriptIdx := 2, scripts := scripts vm @ [pops],
         dstack := setStack s (butlast (savedFirstStack vm))\<rparr>"
proof (cases "isP2SH vm \<and> scriptIdx vm \<le> 1")
  case False
  with assms show ?thesis by (intro plain) (auto simp: nextScript_def split: if_splits)
next
  case True
  show ?thesis
  proof (cases "scriptIdx vm = 0")
    case t: True
    with assms True show ?thesis by (intro save) (auto simp: nextScript_def GetStack_def Let_def)
  next
    case f: False
    with True have 1: "scriptIdx vm = 1" by linarith
    from assms True 1 obtain s pops where "length (scripts vm) \<le> 2" "PopBool (dstack vm) = Inr (True, s)"
      and ne: "savedFirstStack vm \<noteq> []"
      and p: "parseScript_result (savedFirstStack vm ! (length (savedFirstStack vm) - 1)) = Inr pops"
      and v: "vm' = vm\<lparr>scriptIdx := 2, scripts := scripts vm @ [pops],
        dstack := setStack s (take (length (savedFirstStack vm) - 1) (savedFirstStack vm))\<rparr>"
      unfolding nextScript_def
      by (auto simp: CheckErrorCondition_def popBool_def pop_with_def SetStack_def Let_def rbind_Inr_iff split: if_split_asm)
    moreover from p ne have "parseScript (last (savedFirstStack vm)) = (pops, None)"
      by (auto simp: parseScript_result_def last_conv_nth split: prod.splits option.splits)
    ultimately show ?thesis using True 1 by (intro redeem) (simp_all add: butlast_conv_take)
  qed
qed

lemma remaining_drop_le: "sum_list (map length (drop (Suc n) ss)) \<le> sum_list (map length (drop n ss))"
  by (cases "n < length ss") (simp_all add: Cons_nth_drop_Suc [symmetric])

lemma nextScript_decreases:
  assumes n: "nextScript vm = Inr vm2" and vm: "scriptIdx vm < length (scripts vm)" "scriptOff vm = 0"
  shows "pendingScripts vm2 < pendingScripts vm \<or>
    pendingScripts vm2 = pendingScripts vm \<and> scripts vm2 = scripts vm \<and> scriptIdx vm2 = scriptIdx vm + 1 \<and> scriptOff vm2 = 0"
  using n by (cases rule: nextScript_cases) (use vm in \<open>auto simp: pendingScripts_def\<close>)

lemma Step_decreases:
  assumes "Step C vm = Inr (done, vm')"
  shows "(vm', vm) \<in> measures [pendingScripts, remaining]"
proof -
  from assms obtain vm1 where
    pc: "scriptIdx vm < length (scripts vm)" "scriptOff vm < length (scripts vm ! scriptIdx vm)" and
    f: "fixed vm1 = fixed (vm\<lparr>scriptOff := scriptOff vm + 1\<rparr>)" and
    c: "scriptOff vm + 1 < length (scripts vm ! scriptIdx vm) \<and> \<not> done \<and> vm' = vm1 \<or>
     scriptOff vm + 1 = length (scripts vm ! scriptIdx vm) \<and> endScript vm1 = Inr (done, vm')"
    by (rule Step_cases)
  note ff = fixed_fields [OF f]
  have rem: "remaining vm = length (scripts vm ! scriptIdx vm) + sum_list (map length (drop (Suc (scriptIdx vm)) (scripts vm))) - scriptOff vm"
    using pc by (simp add: remaining_def Cons_nth_drop_Suc [symmetric])
  from c show ?thesis
  proof
    assume m: "scriptOff vm + 1 < length (scripts vm ! scriptIdx vm) \<and> \<not> done \<and> vm' = vm1"
    have "remaining vm1 = length (scripts vm ! scriptIdx vm) + sum_list (map length (drop (Suc (scriptIdx vm)) (scripts vm))) - (scriptOff vm + 1)"
      using ff pc by (simp add: remaining_def Cons_nth_drop_Suc [symmetric])
    with m rem have "remaining vm1 < remaining vm" by linarith
    with m ff show ?thesis by (simp add: pendingScripts_def)
  next
    assume e: "scriptOff vm + 1 = length (scripts vm ! scriptIdx vm) \<and> endScript vm1 = Inr (done, vm')"
    let ?vm1 = "vm1\<lparr>astack := dropAll (astack vm1), numOps := 0, scriptOff := 0\<rparr>"
    from e obtain vm2 where n: "nextScript ?vm1 = Inr vm2" and
      v: "vm' = (if scriptIdx vm2 < length (scripts vm2) \<and> scriptOff vm2 \<ge> length (scripts vm2 ! scriptIdx vm2)
            then vm2\<lparr>scriptIdx := scriptIdx vm2 + 1\<rparr> else vm2)"
      using endScript_cases by blast
    have p1: "pendingScripts ?vm1 = pendingScripts vm" using ff by (simp add: pendingScripts_def)
    have p2: "pendingScripts vm' \<le> pendingScripts vm2" using v by (auto simp: pendingScripts_def)
    have r2: "remaining vm' \<le> remaining vm2"
      using v remaining_drop_le [of "scriptIdx vm2" "scripts vm2"] by (simp add: remaining_def diff_le_mono)
    from nextScript_decreases [OF n] ff pc have
      "pendingScripts vm2 < pendingScripts vm \<or>
       pendingScripts vm2 = pendingScripts vm \<and> scripts vm2 = scripts vm \<and> scriptIdx vm2 = scriptIdx vm + 1 \<and> scriptOff vm2 = 0"
      using p1 by simp
    then show ?thesis
    proof
      assume "pendingScripts vm2 < pendingScripts vm"
      with p2 show ?thesis by simp
    next
      assume a: "pendingScripts vm2 = pendingScripts vm \<and> scripts vm2 = scripts vm \<and> scriptIdx vm2 = scriptIdx vm + 1 \<and> scriptOff vm2 = 0"
      then have "remaining vm2 = sum_list (map length (drop (Suc (scriptIdx vm)) (scripts vm)))"
        by (simp add: remaining_def)
      with rem e pc have "remaining vm2 < remaining vm" by linarith
      with p2 r2 a show ?thesis by auto
    qed
  qed
qed

section \<open>Running an engine\<close>

text \<open>The loop of \<^verbatim>\<open>Execute\<close>.\<close>

function run :: "crypto \<Rightarrow> Engine \<Rightarrow> Engine script_result" where
  "run C vm = rbind (Step C vm) (\<lambda>(done, vm'). if done then Inr vm' else run C vm')"
  by auto
termination
  by (relation "inv_image (measures [pendingScripts, remaining]) snd") (auto dest: Step_decreases)

declare run.simps [simp del]

definition Execute :: "crypto \<Rightarrow> Engine \<Rightarrow> unit script_result" where
  "Execute C vm =
    (if scriptVersion vm > MaxScriptPublicKeyVersion then Inr ()
     else rbind (run C vm) (\<lambda>vm. rbind (CheckErrorCondition vm True) (\<lambda>_. Inr ())))"

definition parseScriptAndVerifySize :: "byte list \<Rightarrow> parsedOpcode list script_result" where
  "parseScriptAndVerifySize script =
    (if length script > MaxScriptSize then scriptError ErrScriptTooBig else parseScript_result script)"

text \<open>An engine with the zero values of Go in its fields.\<close>

definition zeroTx :: DomainTransaction where
  "zeroTx = \<lparr>tx_Version = 0, Inputs = [], Outputs = [], LockTime = 0, tx_SubnetworkID = SubnetworkIDNative, Gas = 0,
     Payload = [], Fee = 0, Mass = 0, tx_ID = None\<rparr>"

definition zeroEngine :: Engine where
  "zeroEngine = \<lparr>scriptVersion = 0, scripts = [], scriptIdx = 0, scriptOff = 0, dstack = [], astack = [],
     tx = zeroTx, txIdx = 0, condStack = [], numOps = 0, flags = 0, sigCache = None, sigCacheECDSA = None,
     sigHashReusedValues = emptyReusedValues, isP2SH = False, savedFirstStack = []\<rparr>"

definition NewEngine ::
  "ScriptPublicKey \<Rightarrow> DomainTransaction \<Rightarrow> int \<Rightarrow> ScriptFlags \<Rightarrow> SigCache option \<Rightarrow> SigCacheECDSA option
   \<Rightarrow> SighashReusedValues \<Rightarrow> Engine script_result" where
  "NewEngine scriptPubKey t idx fl cache cacheECDSA reusedValues =
    (if idx < 0 \<or> idx \<ge> int (length (Inputs t)) then scriptError ErrInvalidIndex
     else
       let scriptSig = SignatureScript (Inputs t ! nat idx)
       in if length scriptSig = 0 \<and> length (spk_Script scriptPubKey) = 0 then scriptError ErrEvalFalse
          else
            let vm = zeroEngine\<lparr>scriptVersion := spk_Version scriptPubKey, flags := fl, sigCache := cache,
                       sigCacheECDSA := cacheECDSA\<rparr>
            in if scriptVersion vm > MaxScriptPublicKeyVersion then Inr vm
               else
                 rbind (parseScriptAndVerifySize scriptSig) (\<lambda>parsedScriptSig.
                   if \<not> isPushOnly parsedScriptSig then scriptError ErrNotPushOnly
                   else
                     rbind (parseScriptAndVerifySize (spk_Script scriptPubKey)) (\<lambda>parsedScriptPubKey.
                       let vm = vm\<lparr>scripts := [parsedScriptSig, parsedScriptPubKey]\<rparr>;
                           vm = (if length scriptSig = 0 then vm\<lparr>scriptIdx := scriptIdx vm + 1\<rparr> else vm)
                       in rbind
                            (if isScriptHash (scripts vm ! 1) then
                               (if \<not> isPushOnly (scripts vm ! 0) then scriptError ErrNotPushOnly
                                else Inr (vm\<lparr>isP2SH := True\<rparr>))
                             else Inr vm)
                            (\<lambda>vm. Inr (vm\<lparr>tx := t, txIdx := nat idx, sigHashReusedValues := reusedValues\<rparr>)))))"

end
