(* ===== verification/Engine_Safety.thy ===== *)
theory Engine_Safety
  imports Engine_Run
begin

text \<open>
  Safety of the script engine: every handler that is called on bounded stacks ends without a
  panic and leaves stacks that are larger by three items at most, so that the check of
  \<^verbatim>\<open>Step\<close> restores the bound; the invariant of the engine between steps; and the properties of
  \<^verbatim>\<open>NewEngine\<close> and \<^verbatim>\<open>Execute\<close> that follow.
\<close>

section \<open>Operations on bounded stacks\<close>

definition roomy :: "stack \<Rightarrow> bool" where
  "roomy s \<longleftrightarrow> length s \<le> 1000"

lemma roomy_small: "roomy s \<Longrightarrow> small s"
  by (simp add: roomy_def small_def)

lemma spec_nipN: "small s \<Longrightarrow> spec (nipN s i) (\<lambda>(x, s'). Suc (length s') = length s \<and> set s = insert x (set s'))"
  using nipN_no_panic [of s i] nipN_facts [of s i]
  by (auto simp: spec_def split: sum.splits fault.splits)

lemma spec_PopByteArray:
  assumes "small s" "\<And>s' x. s = s' @ [x] \<Longrightarrow> Q (x, s')"
  shows "spec (PopByteArray s) Q"
  using assms by (cases s rule: rev_cases) auto

lemma spec_PeekByteArray: "small s \<Longrightarrow> spec (PeekByteArray s i) (\<lambda>x. x \<in> set s)"
  by (auto simp: PeekByteArray_small)

lemma makeScriptNum_no_panic: "makeScriptNum v n \<noteq> Inl Panic"
  by (auto simp: makeScriptNum_def checkMinimalDataEncoding_def Let_def rbind_def split: if_splits sum.splits)

lemma spec_PopInt:
  assumes "small s" "\<And>s' x n. s = s' @ [x] \<Longrightarrow> \<bar>n\<bar> < 2 ^ 31 \<Longrightarrow> Q (n, s')"
  shows "spec (PopInt s) Q"
proof (cases s rule: rev_cases)
  case (snoc s' x)
  have "spec (makeScriptNum x 4) (\<lambda>n. \<bar>n\<bar> < 2 ^ 31)"
    using makeScriptNum_no_panic [of x 4] makeScriptNum_iff_Bytes [of 4 x]
    by (auto simp: spec_def split: sum.splits fault.splits)
  then show ?thesis
    using assms snoc by (auto simp: PopInt_def defaultScriptNumLen_def spec_rbind_iff intro: spec_mono)
qed (simp add: PopInt_def)

lemma spec_PushInt:
  assumes "\<bar>n\<bar> < 2 ^ 62" "\<And>x. length x \<le> 8 \<Longrightarrow> Q (s @ [x])"
  shows "spec (PushInt s n) Q"
proof -
  have "- (2 ^ 63) < n" "n < 2 ^ 63" using assms(1) by (simp_all add: abs_less_iff)
  then obtain v where "scriptNum_Bytes n = Inr v" "\<And>k. \<bar>n\<bar> < 2 ^ (8 * k - 1) \<Longrightarrow> 0 < k \<Longrightarrow> length v \<le> k"
    by (rule num_of_bytes) blast
  moreover from this(2) [of 8] assms(1) have "length v \<le> 8" by simp
  ultimately show ?thesis using assms(2) by (simp add: PushInt_def PushByteArray_def)
qed

lemma spec_peek_loop:
  "length s + n \<le> 2000 \<Longrightarrow> spec (peek_loop e n s) (\<lambda>s'. length s' = length s + n \<and> set s' = set s)"
proof (induction n arbitrary: s)
  case (Suc n)
  have "spec (PeekByteArray s e) (\<lambda>x. x \<in> set s)" using Suc.prems by (intro spec_PeekByteArray) (simp add: small_def)
  then show ?case
  proof (simp add: spec_rbind_iff, rule spec_mono)
    fix x assume "x \<in> set s"
    then show "spec (peek_loop e n (PushByteArray s x)) (\<lambda>s'. length s' = Suc (length s + n) \<and> set s' = set s)"
      using Suc.IH [of "PushByteArray s x"] Suc.prems by (auto simp: PushByteArray_def intro: spec_mono)
  qed
qed simp

lemma spec_nip_loop:
  "length s \<le> 2000 \<Longrightarrow> spec (nip_loop e n s) (\<lambda>s'. length s' = length s \<and> set s' = set s)"
proof (induction n arbitrary: s)
  case (Suc n)
  have "spec (nipN s e) (\<lambda>(x, s'). Suc (length s') = length s \<and> set s = insert x (set s'))"
    using Suc.prems by (intro spec_nipN) (simp add: small_def)
  then show ?case
  proof (simp add: spec_rbind_iff, rule spec_mono, clarify)
    fix x s' assume "Suc (length s') = length s" "set s = insert x (set s')"
    then show "spec (nip_loop e n (PushByteArray s' x)) (\<lambda>s'. length s' = length s \<and> set s' = set s)"
      using Suc.IH [of "PushByteArray s' x"] Suc.prems by (auto simp: PushByteArray_def intro: spec_mono)
  qed
qed simp

lemma spec_DropN_loop:
  "small s \<Longrightarrow> spec (DropN_loop n s) (\<lambda>s'. length s' \<le> length s \<and> set s' \<subseteq> set s)"
proof (induction n arbitrary: s)
  case (Suc n)
  have "spec (DropN_loop n s') (\<lambda>s''. length s'' \<le> length s \<and> set s'' \<subseteq> set s)" if "s = s' @ [x]" for s' x
    using Suc.IH [of s'] Suc.prems that by (auto simp: small_def intro: spec_mono)
  then show ?case by (simp add: spec_rbind_iff) (rule spec_PopByteArray, use Suc.prems in auto)
qed simp

text \<open>\<open>within k s s'\<close>: at most \<open>k\<close> items more, all of them items of \<open>s\<close>.\<close>

definition within :: "nat \<Rightarrow> stack \<Rightarrow> stack \<Rightarrow> bool" where
  "within k s s' \<longleftrightarrow> length s' \<le> length s + k \<and> set s' \<subseteq> set s"

lemma spec_stack_ops:
  assumes "roomy s" "n \<le> 3"
  shows "spec (DropN s n) (within 3 s)" "spec (DupN s n) (within 3 s)" "spec (OverN s n) (within 3 s)"
    "spec (RotN s n) (within 3 s)" "spec (SwapN s n) (within 3 s)"
proof -
  have l: "length s \<le> 2000" "length s + nat n \<le> 2000" and sm: "small s"
    using assms by (auto simp: roomy_def small_def)
  show "spec (DropN s n) (within 3 s)"
    using spec_DropN_loop [OF sm, of "nat n"] by (auto simp: DropN_def within_def intro: spec_mono)
  show "spec (DupN s n) (within 3 s)" "spec (OverN s n) (within 3 s)"
    using spec_peek_loop [OF l(2), of "i32 (n - 1)"] spec_peek_loop [OF l(2), of "i32 (2 * n - 1)"] assms(2)
    by (auto simp: DupN_def OverN_def within_def elim!: spec_mono)
  show "spec (RotN s n) (within 3 s)" "spec (SwapN s n) (within 3 s)"
    using spec_nip_loop [OF l(1), of "i32 (3 * n - 1)" "nat n"] spec_nip_loop [OF l(1), of "i32 (2 * n - 1)" "nat n"]
    by (auto simp: RotN_def SwapN_def within_def elim!: spec_mono)
qed

lemma spec_stack_ops_at:
  assumes "roomy s"
  shows "spec (NipN s m) (within 3 s)" "spec (PickN s m) (within 3 s)" "spec (RollN s m) (within 3 s)"
    "spec (Tuck s) (within 3 s)"
proof -
  note sm = roomy_small [OF assms]
  show "spec (NipN s m) (within 3 s)" "spec (RollN s m) (within 3 s)"
    using spec_nipN [OF sm, of m] by (auto simp: NipN_def RollN_def spec_rbind_iff within_def PushByteArray_def elim!: spec_mono)
  show "spec (PickN s m) (within 3 s)"
    using spec_PeekByteArray [OF sm, of m] by (auto simp: PickN_def spec_rbind_iff within_def PushByteArray_def elim!: spec_mono)
  show "spec (Tuck s) (within 3 s)"
    using sm by (auto simp: Tuck_def spec_rbind_iff within_def PushByteArray_def small_def Let_def intro!: spec_PopByteArray)
qed

section \<open>Pops and pushes of the engine\<close>

lemma spec_pop_engine:
  assumes "roomy (dstack vm)" "\<And>s x. dstack vm = s @ [x] \<Longrightarrow> Q (x, vm\<lparr>dstack := s\<rparr>)"
  shows "spec (popBytes vm) Q"
  unfolding popBytes_def pop_with_def spec_rbind_iff
  by (rule spec_PopByteArray) (use assms roomy_small in auto)

lemma spec_popBool:
  assumes "roomy (dstack vm)" "\<And>s x. dstack vm = s @ [x] \<Longrightarrow> Q (asBool x, vm\<lparr>dstack := s\<rparr>)"
  shows "spec (popBool vm) Q"
  unfolding popBool_def pop_with_def spec_rbind_iff PopBool_def
  by (rule spec_PopByteArray) (use assms roomy_small in auto)

lemma spec_popInt:
  assumes "roomy (dstack vm)" "\<And>s x n. dstack vm = s @ [x] \<Longrightarrow> \<bar>n\<bar> < 2 ^ 31 \<Longrightarrow> Q (n, vm\<lparr>dstack := s\<rparr>)"
  shows "spec (popInt vm) Q"
  unfolding popInt_def pop_with_def spec_rbind_iff
  by (rule spec_PopInt) (use assms roomy_small in auto)

lemma spec_pushInt:
  assumes "\<bar>n\<bar> < 2 ^ 62" "\<And>x. length x \<le> 8 \<Longrightarrow> Q (vm\<lparr>dstack := dstack vm @ [x]\<rparr>)"
  shows "spec (pushInt n vm) Q"
  unfolding pushInt_def on_dstack_def spec_rbind_iff
  by (rule spec_PushInt) (use assms in auto)

lemma spec_on_dstack:
  assumes "spec (f (dstack vm)) (within k (dstack vm))" "\<And>s. within k (dstack vm) s \<Longrightarrow> Q (vm\<lparr>dstack := s\<rparr>)"
  shows "spec (on_dstack f vm) Q"
  unfolding on_dstack_def spec_rbind_iff by (rule spec_mono [OF assms(1)]) (use assms(2) in auto)

section \<open>Every handler keeps the stacks bounded and does not panic\<close>

text \<open>
  \<open>bounded n vm\<close>: at most \<open>n\<close> items on both stacks, none longer than \<^verbatim>\<open>MaxScriptElementSize\<close>, and
  at most \<^verbatim>\<open>MaxOpsPerScript\<close> operations counted.
\<close>

definition bounded :: "nat \<Rightarrow> Engine \<Rightarrow> bool" where
  "bounded n vm \<longleftrightarrow> length (dstack vm) + length (astack vm) \<le> n \<and>
     (\<forall>x \<in> set (dstack vm). length x \<le> MaxScriptElementSize) \<and>
     (\<forall>x \<in> set (astack vm). length x \<le> MaxScriptElementSize) \<and> numOps vm \<le> MaxOpsPerScript"

definition has_entry :: "Engine \<Rightarrow> bool" where
  "has_entry vm \<longleftrightarrow> txIdx vm < length (Inputs (tx vm)) \<and> in_UTXOEntry (Inputs (tx vm) ! txIdx vm) \<noteq> None"

lemma i64_small: "\<bar>x\<bar> < 2 ^ 62 \<Longrightarrow> i64 x = x"
  by (rule i64_id) (simp_all add: abs_less_iff)

lemmas spec_rules = spec_pop_engine spec_popInt spec_popBool spec_pushInt

lemma spec_pushBytes: "Q (vm\<lparr>dstack := dstack vm @ [x]\<rparr>) \<Longrightarrow> spec (pushBytes x vm) Q"
  by (simp add: pushBytes_def PushByteArray_def)

lemma spec_pushBool: "(\<And>x. length x \<le> 1 \<Longrightarrow> Q (vm\<lparr>dstack := dstack vm @ [x]\<rparr>)) \<Longrightarrow> spec (pushBool b vm) Q"
  by (simp add: pushBool_def PushBool_def PushByteArray_def fromBool_def)

lemma pushInt_if: "(if b then pushInt x vm else pushInt y vm) = pushInt (if b then x else y) vm"
  by simp

lemmas bounded_defs = bounded_def roomy_def MaxScriptElementSize_def

lemma spec_unary:
  assumes "bounded 244 vm" "\<And>m. \<bar>m\<bar> < 2 ^ 31 \<Longrightarrow> \<bar>g m\<bar> < 2 ^ 62"
  shows "spec (rbind (popInt vm) (\<lambda>(m, vm). pushInt (g m) vm)) (bounded 247)"
  using assms by (auto simp: spec_rbind_iff bounded_defs intro!: spec_rules)

lemma spec_binary:
  assumes "bounded 244 vm" "\<And>m n. \<bar>m\<bar> < 2 ^ 31 \<Longrightarrow> \<bar>n\<bar> < 2 ^ 31 \<Longrightarrow> \<bar>g m n\<bar> < 2 ^ 62"
  shows "spec (rbind (popInt vm) (\<lambda>(m, vm). rbind (popInt vm) (\<lambda>(n, vm). pushInt (g m n) vm))) (bounded 247)"
  using assms by (auto simp: spec_rbind_iff bounded_defs intro!: spec_rules)

lemma spec_abstractVerify: "bounded 247 vm \<Longrightarrow> spec (abstractVerify op vm c) (bounded 247)"
  by (auto simp: abstractVerify_def spec_rbind_iff bounded_defs intro!: spec_popBool)

lemma spec_then_verify:
  "spec m (bounded 247) \<Longrightarrow> spec (rbind m (\<lambda>vm. abstractVerify op vm c)) (bounded 247)"
  unfolding spec_rbind_iff by (erule spec_mono) (rule spec_abstractVerify)

lemma spec_within: "bounded 244 vm \<Longrightarrow> spec (opcodeWithin op vm) (bounded 247)"
  unfolding opcodeWithin_def pushInt_if
  by (auto simp: spec_rbind_iff bounded_defs intro!: spec_rules)

lemma spec_arith:
  assumes "bounded 244 vm"
    "f \<in> {f_opcode1Add, f_opcode1Sub, f_opcodeNegate, f_opcodeAbs, f_opcodeNot, f_opcode0NotEqual,
     f_opcodeAdd, f_opcodeSub, f_opcodeBoolAnd, f_opcodeBoolOr, f_opcodeNumEqual, f_opcodeNumEqualVerify, f_opcodeNumNotEqual,
     f_opcodeLessThan, f_opcodeGreaterThan, f_opcodeLessThanOrEqual, f_opcodeGreaterThanOrEqual, f_opcodeMin, f_opcodeMax}"
  shows "spec (call_opfunc C f op vm) (bounded 247)"
proof -
  note [simp] = i64_small [unfolded abs_less_iff]
  show ?thesis
    using assms(2)
    by (elim insertE emptyE; hypsubst; unfold call_opfunc.simps arith_defs pushInt_if;
        intro spec_then_verify spec_unary [OF assms(1)] spec_binary [OF assms(1)]; force simp: abs_less_iff)
qed

lemma spec_stack_handlers:
  assumes "bounded 244 vm"
    "f \<in> {f_opcode2Drop, f_opcode2Dup, f_opcode3Dup, f_opcode2Over, f_opcode2Rot, f_opcode2Swap, f_opcodeDrop, f_opcodeDup,
      f_opcodeNip, f_opcodeOver, f_opcodeRot, f_opcodeSwap, f_opcodeTuck}"
  shows "spec (call_opfunc C f op vm) (bounded 247)"
proof -
  have r: "roomy (dstack vm)" using assms(1) by (simp add: bounded_defs)
  have w: "bounded 247 (vm\<lparr>dstack := s\<rparr>)" if "within 3 (dstack vm) s" for s
    using that assms(1) by (auto simp: bounded_defs within_def)
  show ?thesis
    using assms(2) r
    by (elim insertE emptyE; hypsubst; unfold call_opfunc.simps stack_op_defs;
        intro spec_on_dstack [where k=3] spec_stack_ops spec_stack_ops_at w; simp)
qed

lemma spec_stack_handlers2:
  assumes b: "bounded 244 vm" and "digests_32 C"
    "f \<in> {f_opcodeToAltStack, f_opcodeFromAltStack, f_opcodeIfDup, f_opcodeDepth, f_opcodePick, f_opcodeRoll, f_opcodeSize,
      f_opcodeEqual, f_opcodeEqualVerify, f_opcodeSha256, f_opcodeBlake2b}"
  shows "spec (call_opfunc C f op vm) (bounded 247)"
proof -
  have r: "roomy (dstack vm)" "roomy (astack vm)" using b by (simp_all add: bounded_defs)
  have eq: "spec (opcodeEqual op vm) (bounded 247)"
    using b by (auto simp: opcodeEqual_def spec_rbind_iff bounded_defs intro!: spec_rules spec_pushBool)
  have peek: "spec (PeekByteArray (dstack vm) 0) (\<lambda>x. x \<in> set (dstack vm))"
    using r by (intro spec_PeekByteArray roomy_small)
  have w: "bounded 247 (vm'\<lparr>dstack := s\<rparr>)" if "within 3 (dstack vm') s" "bounded 244 vm'" for s vm'
    using that by (auto simp: bounded_defs within_def)
  have d: "length (sha256_256 (hashes C) m) = 32" "length (blake2b_256 (hashes C) k m) = 32" for k m
    using assms(2) by (simp_all add: digests_32_def)
  have pick: "spec (opcodePick op vm) (bounded 247)" "spec (opcodeRoll op vm) (bounded 247)"
    unfolding stack_op_defs using b
    by (auto simp: spec_rbind_iff bounded_defs intro!: spec_popInt spec_on_dstack [where k=3] spec_stack_ops_at w)
  have dup: "spec (opcodeIfDup op vm) (bounded 247)" "spec (opcodeSize op vm) (bounded 247)"
    unfolding stack_op_defs using b peek
    by (auto simp: spec_rbind_iff bounded_defs intro!: spec_pushInt spec_pushBytes elim!: spec_mono)
  have alt: "spec (opcodeToAltStack op vm) (bounded 247)" "spec (opcodeFromAltStack op vm) (bounded 247)"
    unfolding stack_op_defs using b roomy_small [OF r(2)]
    by (auto simp: spec_rbind_iff bounded_defs PushByteArray_def intro!: spec_pop_engine spec_pushBytes spec_PopByteArray)
  have hash: "spec (opcodeSha256 C op vm) (bounded 247)" "spec (opcodeBlake2b C op vm) (bounded 247)"
    unfolding stack_op_defs using b
    by (auto simp: spec_rbind_iff bounded_defs d intro!: spec_pop_engine spec_pushBytes)
  have depth: "spec (opcodeDepth op vm) (bounded 247)"
    unfolding stack_op_defs using b
    by (auto simp: bounded_defs Depth_small roomy_small [OF r(1)] intro!: spec_pushInt)
  from assms(3) show ?thesis
    by (elim insertE emptyE; hypsubst; unfold call_opfunc.simps)
      (rule alt dup depth pick eq hash | simp add: opcodeEqualVerify_def spec_then_verify [OF eq])+
qed

lemma spec_curInput: "has_entry vm \<Longrightarrow> spec (curInput vm) (\<lambda>_. True)"
  by (simp add: curInput_def has_entry_def)

lemma spec_no_panic: "m \<noteq> Inl Panic \<Longrightarrow> spec m (\<lambda>_. True)"
  by (auto simp: spec_def split: sum.splits fault.splits)

lemma spec_locktime:
  assumes "bounded 244 vm" "has_entry vm"
  shows "spec (opcodeCheckLockTimeVerify op vm) (bounded 247)" "spec (opcodeCheckSequenceVerify op vm) (bounded 247)"
proof -
  have v: "spec (verifyLockTime a b c) (\<lambda>_. True)" for a b c by (simp add: verifyLockTime_def)
  have m: "spec (makeScriptNum x n) (\<lambda>_. True)" for x n by (rule spec_no_panic [OF makeScriptNum_no_panic])
  have [simp]: "spec r (\<lambda>_. True) \<Longrightarrow> P \<Longrightarrow> spec r (\<lambda>_. P)" for r :: "unit script_result" and P
    by (erule spec_mono)
  have c: "spec (curInput (vm\<lparr>dstack := s\<rparr>)) (\<lambda>_. True)" for s
    using assms by (intro spec_curInput) (simp add: has_entry_def)
  show "spec (opcodeCheckLockTimeVerify op vm) (bounded 247)"
    unfolding opcodeCheckLockTimeVerify_def using assms
    by (auto simp: spec_rbind_iff bounded_defs intro!: spec_pop_engine spec_mono [OF m] spec_mono [OF v] spec_mono [OF c])
  show "spec (opcodeCheckSequenceVerify op vm) (bounded 247)"
    unfolding opcodeCheckSequenceVerify_def using assms
    by (auto simp: spec_rbind_iff Let_def bounded_defs intro!: spec_pop_engine spec_mono [OF m] spec_mono [OF v] spec_mono [OF c])
qed

lemma spec_control:
  assumes "bounded 244 vm" "length (pop_data op) \<le> MaxScriptElementSize"
    "f \<in> {f_opcodeDisabled, f_opcodeReserved, f_opcodeInvalid, f_opcodeFalse, f_opcodePushData,
   f_opcode1Negate, f_opcodeN, f_opcodeNop, f_opcodeIf, f_opcodeNotIf, f_opcodeElse, f_opcodeEndif,
   f_opcodeVerify, f_opcodeReturn}"
  shows "spec (call_opfunc C f op vm) (bounded 247)"
proof -
  have n: "\<bar>uint (w :: byte)\<bar> < 2 ^ 62" for w
    using uint_lt2p [of w] by (simp add: abs_less_iff)
  have i: "spec (opcodeIf op vm) (bounded 247)" "spec (opcodeNotIf op vm) (bounded 247)"
    unfolding control_defs using assms(1)
    by (auto simp: spec_rbind_iff Let_def bounded_defs intro!: spec_pop_engine)
  have e: "spec (opcodeElse op vm) (bounded 247)" "spec (opcodeEndif op vm) (bounded 247)" "spec (opcodeNop op vm) (bounded 247)"
    unfolding control_defs using assms(1) by (auto simp: Let_def bounded_defs)
  have p: "spec (opcodeFalse op vm) (bounded 247)" "spec (opcodePushData op vm) (bounded 247)"
     "spec (opcode1Negate op vm) (bounded 247)" "spec (opcodeN op vm) (bounded 247)"
    unfolding control_defs using assms(1,2) n
    by (auto simp: bounded_defs intro!: spec_pushInt spec_pushBytes)
  have b: "bounded 247 vm" using assms(1) by (simp add: bounded_def)
  from assms(3) show ?thesis
    by (elim insertE emptyE; hypsubst; unfold call_opfunc.simps)
      (rule i e p | simp add: opcodeVerify_def spec_abstractVerify [OF b] opcodeDisabled_def opcodeReserved_def
         opcodeInvalid_def opcodeReturn_def)+
qed

text \<open>Checking signatures leaves everything but the caches and the reused hash values alone.\<close>

definition same_stacks :: "Engine \<Rightarrow> Engine \<Rightarrow> bool" where
  "same_stacks vm vm' \<longleftrightarrow> dstack vm' = dstack vm \<and> astack vm' = astack vm \<and> numOps vm' = numOps vm \<and>
     condStack vm' = condStack vm \<and> tx vm' = tx vm \<and> txIdx vm' = txIdx vm"

lemma same_stacks_bounded: "same_stacks vm vm' \<Longrightarrow> bounded n vm' = bounded n vm"
  by (simp add: same_stacks_def bounded_def)

lemma same_stacks_trans: "same_stacks vm vm' \<Longrightarrow> same_stacks vm' vm'' \<Longrightarrow> same_stacks vm vm''"
  by (simp add: same_stacks_def)

lemma same_stacks_has_entry: "same_stacks vm vm' \<Longrightarrow> has_entry vm' = has_entry vm"
  by (simp add: same_stacks_def has_entry_def)

lemma spec_popN:
  "roomy (dstack vm) \<Longrightarrow> spec (popN n vm) (\<lambda>(xs, vm'). length xs = n \<and> dstack vm = dstack vm' @ rev xs \<and> vm' = vm\<lparr>dstack := dstack vm'\<rparr>)"
proof (induction n arbitrary: vm)
  case (Suc n)
  have "spec (popN n (vm\<lparr>dstack := s\<rparr>))
     (\<lambda>(xs, vm'). length xs = n \<and> s = dstack vm' @ rev xs \<and> vm' = vm\<lparr>dstack := dstack vm'\<rparr>)"
    if "dstack vm = s @ [x]" for s x
    using Suc.IH [of "vm\<lparr>dstack := s\<rparr>"] Suc.prems that by (simp add: roomy_def)
  then show ?case
    using Suc.prems by (auto simp: spec_rbind_iff intro!: spec_pop_engine elim!: spec_mono)
qed simp

context signature_scheme
begin

lemma verify_same_stacks: "same_stacks vm (snd (s_verify S vm h s k))"
proof -
  obtain c e where "snd (s_verify S vm h s k) = vm\<lparr>sigCache := c, sigCacheECDSA := e\<rparr>"
    using verify_frame by blast
  then show ?thesis by (simp add: same_stacks_def)
qed

lemma spec_trySig:
  assumes "has_entry vm"
  shows "spec (trySig S vm info pk) (\<lambda>(v, vm', i). same_stacks vm vm')"
proof -
  have v: "same_stacks vm vm'" if "s_verify S (vm\<lparr>sigHashReusedValues := rv\<rparr>) h s k = (b, vm')" for rv h s k b vm'
    using verify_same_stacks [of "vm\<lparr>sigHashReusedValues := rv\<rparr>" h s k] that by (simp add: same_stacks_def)
  have h: "s_sigHash S (tx vm) (txIdx vm) ht rv \<noteq> Inl Panic" for ht rv
    using assms by (intro sigHash_no_panic) (simp_all add: has_entry_def)
  have c: "spec (s_checkSignatureLength S x) (\<lambda>_. True)" "spec (s_checkPubKeyEncoding S x) (\<lambda>_. True)" for x
    using checks_no_panic spec_no_panic by blast+
  have [simp]: "same_stacks vm vm" by (simp add: same_stacks_def)
  show ?thesis
    unfolding trySig_def Let_def
    by (auto simp: spec_rbind_iff h v split: option.split sum.split fault.split prod.split intro!: spec_mono [OF c(1)] spec_mono [OF c(2)])
qed

lemma spec_multiSig_loop:
  "has_entry vm \<Longrightarrow> si + ns \<le> length sigs \<Longrightarrow> ki + n = Suc (length pks) \<Longrightarrow>
   spec (multiSig_loop S pks vm sigs si ns ki n) (\<lambda>(b, vm'). same_stacks vm vm')"
proof (induction n arbitrary: vm sigs si ns ki)
  case 0
  then show ?case by (simp add: same_stacks_def)
next
  case (Suc n)
  have IH: "spec (multiSig_loop S pks vm' sigs' si' ns' (Suc ki) n) (\<lambda>(b, vm''). same_stacks vm vm'')"
    if "same_stacks vm vm'" "si' + ns' \<le> length sigs'" for vm' sigs' si' ns'
    using Suc.IH [of vm' si' ns' sigs' "Suc ki"] Suc.prems that
    by (auto simp: same_stacks_has_entry elim!: spec_mono intro: same_stacks_trans)
  show ?case
  proof (cases "0 < ns \<and> ns \<le> n")
    case True
    with Suc.prems have "si < length sigs" "ki < length pks" by linarith+
    with True show ?thesis
      using Suc.prems
      by (auto simp: spec_rbind_iff Let_def intro!: spec_mono [OF spec_trySig] IH)
  qed (auto simp: same_stacks_def)
qed

lemma spec_checkSig:
  assumes "bounded 244 vm" "has_entry vm"
  shows "spec (checkSig_with S op vm) (bounded 247)"
proof -
  have h: "s_sigHash S (tx vm) (txIdx vm) ht rv \<noteq> Inl Panic" for ht rv
    using assms by (intro sigHash_no_panic) (simp_all add: has_entry_def)
  have c: "spec (s_checkSignatureLength S x) (\<lambda>_. True)" "spec (s_checkPubKeyEncoding S x) (\<lambda>_. True)" for x
    using checks_no_panic spec_no_panic by blast+
  have push: "spec (pushBool b vm') (bounded 247)" if "bounded 246 vm'" for b vm'
    using that by (auto simp: bounded_defs intro!: spec_pushBool)
  have b: "bounded 246 (vm\<lparr>dstack := s\<rparr>)" "bounded 246 (vm\<lparr>dstack := s, sigHashReusedValues := rv\<rparr>)"
    if "dstack vm = s @ [x, y]" for s x y rv
    using that assms by (simp_all add: bounded_def)
  have v: "bounded 246 vm'" if "s_verify S (vm\<lparr>dstack := s, sigHashReusedValues := rv\<rparr>) h' s' k = (b, vm')"
    "dstack vm = s @ [x, y]" for s rv h' s' k b vm' x y
    using verify_same_stacks [of "vm\<lparr>dstack := s, sigHashReusedValues := rv\<rparr>" h' s' k] that b(2) [OF that(2)]
    by (auto dest: same_stacks_bounded)
  have r: "length (dstack vm) \<le> 1000" using assms by (simp add: bounded_def)
  show ?thesis
    unfolding checkSig_with_def checkSig_popped_def Let_def using r
    by (auto simp: spec_rbind_iff h roomy_def split: option.split sum.split fault.split prod.split
       intro!: spec_pop_engine spec_mono [OF c(1)] spec_mono [OF c(2)] push intro: v b)
qed

lemma spec_checkMultiSig:
  assumes "bounded 244 vm" "has_entry vm"
  shows "spec (checkMultiSig_with S op vm) (bounded 247)"
proof -
  let ?I = "\<lambda>vm. bounded 244 vm \<and> has_entry vm"
  have i: "spec (popInt vm') (\<lambda>(x, vm''). ?I vm'')" if "?I vm'" for vm'
    using that by (auto simp: bounded_defs has_entry_def intro!: spec_popInt)
  have n: "spec (popN n vm') (\<lambda>(xs, vm''). length xs = n \<and> ?I vm'')" if "?I vm'" for n vm'
  proof (rule spec_mono [OF spec_popN], goal_cases)
    case 1
    show ?case using that by (simp add: bounded_defs)
  next
    case (2 x)
    then obtain xs vm'' where x: "x = (xs, vm'')" and v: "dstack vm' = dstack vm'' @ rev xs" "length xs = n"
      "vm'' = vm'\<lparr>dstack := dstack vm''\<rparr>" by (cases x) auto
    have "astack vm'' = astack vm'" "numOps vm'' = numOps vm'" "tx vm'' = tx vm'" "txIdx vm'' = txIdx vm'"
      by (subst v(3), simp)+
    with that v(1,2) show ?case by (simp add: x bounded_defs has_entry_def)
  qed
  have l: "spec (multiSig_loop S pks vm' (map f xs) 0 m 0 (Suc k)) (\<lambda>(b, vm''). ?I vm'')"
    if "?I vm'" "length xs = m" "length pks = k" for pks vm' m k xs f
    by (rule spec_mono [OF spec_multiSig_loop])
      (use that in \<open>auto simp: same_stacks_bounded same_stacks_has_entry\<close>)
  have push: "spec (pushBool b vm') (bounded 247)" if "?I vm'" for b vm'
    using that by (auto simp: bounded_defs intro!: spec_pushBool)
  have num: "?I (vm'\<lparr>numOps := numOps vm' + k\<rparr>)" if "?I vm'" "\<not> MaxOpsPerScript < numOps vm' + k" for vm' k
    using that by (auto simp: bounded_def has_entry_def)
  have g: "spec (checkMultiSig_with S op vm) (bounded 247)" if "?I vm"
    unfolding checkMultiSig_with_def Let_def spec_rbind_iff
  proof (rule spec_mono [OF i [OF that]], clarify)
    fix numKeys vm1 assume I1: "bounded 244 vm1" "has_entry vm1"
    let ?k = "scriptNum_Int32 numKeys"
    let ?vm = "vm1\<lparr>numOps := numOps vm1 + ?k\<rparr>"
    let ?rest = "\<lambda>pubKeys (numSigs, vm). if scriptNum_Int32 numSigs < 0 then scriptError ErrInvalidSignatureCount
       else if ?k < scriptNum_Int32 numSigs then scriptError ErrInvalidSignatureCount
       else rbind (popN (nat (scriptNum_Int32 numSigs)) vm) (\<lambda>(sigs, vm).
         rbind (multiSig_loop S pubKeys vm (map (\<lambda>signature. \<lparr>psi_signature = signature, psi_parsedSignature = None, psi_parsed = False\<rparr>) sigs)
             0 (nat (scriptNum_Int32 numSigs)) 0 (nat ?k + 1))
          (\<lambda>(success, vm). if \<not> success \<and> (\<exists>sig\<in>set sigs. 0 < length sig) then scriptError ErrNullFail
                           else pushBool success vm))"
    have rest: "spec (?rest pubKeys (numSigs, vm3)) (bounded 247)" if "?I vm3" "length pubKeys = nat ?k" for pubKeys numSigs vm3
      using that by (auto simp: spec_rbind_iff intro!: spec_mono [OF n] spec_mono [OF l] push simp del: multiSig_loop.simps)
    have "spec (popN (nat ?k) ?vm) (\<lambda>(pubKeys, vm). spec (popInt vm) (\<lambda>p. spec (?rest pubKeys p) (bounded 247)))"
      if "\<not> MaxOpsPerScript < numOps ?vm"
      using num I1 that rest by (auto intro!: spec_mono [OF n] spec_mono [OF i])
    then show "spec (if ?k < 0 then scriptError ErrInvalidPubKeyCount
        else if MaxPubKeysPerMultiSig < ?k then scriptError ErrInvalidPubKeyCount
        else if MaxOpsPerScript < numOps ?vm then scriptError ErrTooManyOperations
        else rbind (popN (nat ?k) ?vm) (\<lambda>(pubKeys, vm). rbind (popInt vm) (?rest pubKeys))) (bounded 247)"
      by (auto simp: spec_rbind_iff split_def)
  qed
  with assms show ?thesis by blast
qed

end

lemma spec_call_opfunc:
  assumes "bounded 244 vm" "has_entry vm" "digests_32 C" "length (pop_data op) \<le> MaxScriptElementSize"
  shows "spec (call_opfunc C f op vm) (bounded 247)"
proof -
  note sig = opcodeCheckSig_def opcodeCheckSigECDSA_def opcodeCheckSigVerify_def
    opcodeCheckMultiSig_def opcodeCheckMultiSigECDSA_def opcodeCheckMultiSigVerify_def
  show ?thesis
    using spec_arith [OF assms(1), of f C op] spec_stack_handlers [OF assms(1), of f C op]
      spec_stack_handlers2 [OF assms(1,3), of f op] spec_control [OF assms(1,4), of f C] spec_within [OF assms(1)]
      spec_locktime [OF assms(1,2)]
      schnorr.spec_checkSig [OF assms(1,2)] schnorr.spec_checkMultiSig [OF assms(1,2)]
      ecdsa.spec_checkSig [OF assms(1,2)] ecdsa.spec_checkMultiSig [OF assms(1,2)]
    by (cases f) (simp_all add: sig spec_then_verify)
qed

section \<open>The invariant between steps\<close>

definition parsed :: "parsedOpcode list \<Rightarrow> bool" where
  "parsed pops \<longleftrightarrow> (\<forall>pop \<in> set pops. pop_opcode pop = opcodeArray (pop_value pop) \<and>
     (pop_value pop > Op16 \<longrightarrow> pop_data pop = []))"

lemma op_length_high: "b > Op16 \<Longrightarrow> op_length (opcodeArray b) = 1"
  by (auto simp: opcodeArray_length length_of_opcode_def word_less_nat_alt word_le_nat_alt)

lemma unparse_high:
  "unparseScript pops = Inr script \<Longrightarrow> pop \<in> set pops \<Longrightarrow> pop_opcode pop = opcodeArray b \<Longrightarrow> b > Op16 \<Longrightarrow> pop_data pop = []"
proof (induction pops arbitrary: script)
  case (Cons p pops)
  then show ?case
    by (auto simp: rbind_Inr_iff pop_bytes_def op_length_high Let_def split: if_splits)
qed simp

lemma parsed_parseScript:
  assumes "parseScript script = (pops, None)"
  shows "parsed pops"
  unfolding parsed_def
proof
  fix pop assume "pop \<in> set pops"
  with assms show "pop_opcode pop = opcodeArray (pop_value pop) \<and> (pop_value pop > Op16 \<longrightarrow> pop_data pop = [])"
    using parseScript_ops [OF assms] unparse_high [OF unparse_parse [OF assms], of pop "pop_value pop"] by simp
qed

definition atPC :: "Engine \<Rightarrow> bool" where
  "atPC vm \<longleftrightarrow> scriptIdx vm < length (scripts vm) \<and> scriptOff vm < length (scripts vm ! scriptIdx vm)"

text \<open>
  The engine runs two scripts, and a third one for pay-to-script-hash.  There the second script is
  the template that starts with a hash of the top item, so the saved stack is not empty once that
  opcode has run.
\<close>

definition p2sh_ok :: "Engine \<Rightarrow> bool" where
  "p2sh_ok vm \<longleftrightarrow>
     (if isP2SH vm then length (scripts vm) = (if scriptIdx vm \<le> 1 then 2 else 3) \<and> isScriptHash (scripts vm ! 1) \<and>
        length (savedFirstStack vm) \<le> 244 \<and> (\<forall>x \<in> set (savedFirstStack vm). length x \<le> MaxScriptElementSize) \<and>
        (scriptIdx vm = 1 \<longrightarrow> (if scriptOff vm = 0 then savedFirstStack vm = dstack vm else savedFirstStack vm \<noteq> []))
      else length (scripts vm) = 2)"

definition engine_inv :: "Engine \<Rightarrow> bool" where
  "engine_inv vm \<longleftrightarrow> bounded 244 vm \<and> has_entry vm \<and> (\<forall>s \<in> set (scripts vm). parsed s) \<and>
     (scriptOff vm = 0 \<longrightarrow> condStack vm = [] \<and> astack vm = [] \<and> numOps vm = 0) \<and> p2sh_ok vm"

lemma spec_executeOpcode:
  assumes "bounded 244 vm" "has_entry vm" "digests_32 C" "parsed pops" "pop \<in> set pops"
  shows "spec (executeOpcode C pop vm) (bounded 247)"
proof -
  let ?vm = "vm\<lparr>numOps := numOps vm + 1\<rparr>"
  have b: "bounded 244 ?vm" if "\<not> MaxOpsPerScript < numOps vm + 1"
    using that assms(1) by (simp add: bounded_def)
  have h: "has_entry ?vm" using assms(2) by (simp add: has_entry_def)
  have d: "pop_value pop > Op16 \<Longrightarrow> length (pop_data pop) \<le> MaxScriptElementSize"
    using assms(4,5) by (auto simp: parsed_def)
  have m: "spec (checkMinimalDataPush pop) (\<lambda>_. True)" by (simp add: checkMinimalDataPush_def Let_def)
  have w: "bounded 247 vm'" if "bounded 244 vm'" for vm' using that by (simp add: bounded_def)
  show ?thesis
    using spec_call_opfunc [OF assms(1-3), of pop] spec_call_opfunc [OF b h assms(3), of pop] d m
    by (auto simp: executeOpcode_def spec_rbind_iff Let_def not_less b w assms(1) elim!: spec_mono)
qed

lemma isBranchExecuting_start: "condStack vm = [] \<Longrightarrow> isBranchExecuting vm"
  by (simp add: isBranchExecuting_def)

lemma opfunc_blake2b: "op_opfunc (opcodeArray OpBlake2b) = f_opcodeBlake2b"
  by (simp add: opcodeArray_templates)

text \<open>The first opcode of the template needs an item on the stack.\<close>

lemma blake2b_needs_item:
  assumes "executeOpcode C pop vm = Inr vm'" "pop_opcode pop = opcodeArray OpBlake2b" "condStack vm = []"
  shows "dstack vm \<noteq> []"
proof
  assume "dstack vm = []"
  with assms show False
    by (auto simp: executeOpcode_def isBranchExecuting_def opfunc_blake2b opcodeBlake2b_def popBytes_def pop_with_def
      rbind_Inr_iff Let_def split: if_splits)
qed

lemma getStack_small:
  assumes "small s"
  shows "getStack s = s"
proof -
  have "map (\<lambda>i. case PeekByteArray s (int i) of Inr x \<Rightarrow> x | Inl _ \<Rightarrow> []) [0..<length s] = rev s"
    by (rule nth_equalityI) (auto simp: PeekByteArray_small [OF assms] rev_nth)
  then show ?thesis by (simp add: getStack_def Depth_small [OF assms])
qed

lemma dropAll_small:
  assumes "small s"
  shows "dropAll s = []"
  using DropN_loop_append [of "[]" s] assms
  by (cases "s = []") (simp_all add: dropAll_def DropN_def Depth_small Suc_le_eq)

lemma setStack_small:
  assumes "small s"
  shows "setStack s data = data"
proof -
  have "fold (\<lambda>d s. PushByteArray s d) data t = t @ data" for t
    by (induction data arbitrary: t) (simp_all add: PushByteArray_def)
  then show ?thesis by (simp add: setStack_def dropAll_small [OF assms])
qed

lemma parseOpcode_no_panic: "parseOpcode s \<noteq> Inl Panic"
  by (auto simp: parseOpcode_def pushLength_def rbind_Inl_iff Let_def split: if_splits)

lemma parseScript_no_panic: "parseScript script = (pops, Some err) \<Longrightarrow> err \<noteq> Panic"
proof (induction script arbitrary: pops rule: parseScript.induct)
  case (1 script)
  from 1(2) parseOpcode_no_panic [of script] show ?case
    by (subst (asm) parseScript.simps) (auto split: if_splits sum.splits prod.splits dest: 1(1))
qed

lemma parseScript_result_no_panic: "parseScript_result script \<noteq> Inl Panic"
  by (auto simp: parseScript_result_def split: prod.splits option.splits dest: parseScript_no_panic)

lemma bounded_small: "bounded n vm \<Longrightarrow> n \<le> 1000 \<Longrightarrow> roomy (dstack vm) \<and> small (dstack vm) \<and> small (astack vm)"
  by (simp add: bounded_defs small_def)

lemma CheckErrorCondition_no_panic: "bounded n vm \<Longrightarrow> n \<le> 1000 \<Longrightarrow> CheckErrorCondition vm fin \<noteq> Inl Panic"
proof -
  assume "bounded n vm" "n \<le> 1000"
  then have "spec (popBool vm) (\<lambda>_. True)" using bounded_small by (intro spec_popBool) auto
  then show ?thesis by (auto simp: CheckErrorCondition_def rbind_Inl_iff dest: spec_not_panic split: if_splits)
qed

lemma nextScript_no_panic:
  assumes "bounded 244 vm" "isP2SH vm \<and> scriptIdx vm = 1 \<longrightarrow> savedFirstStack vm \<noteq> []"
  shows "nextScript vm \<noteq> Inl Panic"
proof -
  have "bounded 244 (vm\<lparr>scriptIdx := i\<rparr>)" for i using assms(1) by (simp add: bounded_def)
  then have c: "CheckErrorCondition (vm\<lparr>scriptIdx := i\<rparr>) False \<noteq> Inl Panic" for i
    by (rule CheckErrorCondition_no_panic) simp
  have s: "savedFirstStack vm' = savedFirstStack vm" if "CheckErrorCondition (vm\<lparr>scriptIdx := i\<rparr>) False = Inr vm'" for i vm'
    using that by (auto simp: CheckErrorCondition_def popBool_def pop_with_def rbind_Inr_iff split: if_splits)
  show ?thesis
    using assms(2) c s by (auto simp: nextScript_def rbind_Inl_iff Let_def parseScript_result_no_panic split: if_splits)
qed

text \<open>One step from a state that satisfies the invariant.\<close>

lemma inv_parts:
  assumes "engine_inv vm"
  shows "bounded 244 vm" "has_entry vm" "\<And>s. s \<in> set (scripts vm) \<Longrightarrow> parsed s"
    "scriptOff vm = 0 \<Longrightarrow> condStack vm = []" "p2sh_ok vm"
  using assms by (simp_all add: engine_inv_def)

lemma saved_nonempty:
  assumes inv: "engine_inv vm" and pc: "atPC vm" and p: "isP2SH vm" "scriptIdx vm = 1"
    and e: "executeOpcode C (scripts vm ! scriptIdx vm ! scriptOff vm) (vm\<lparr>scriptOff := scriptOff vm + 1\<rparr>) = Inr vm1"
  shows "savedFirstStack vm \<noteq> []"
proof (cases "scriptOff vm = 0")
  case True
  from inv_parts(5) [OF inv] p have h: "isScriptHash (scripts vm ! 1)" and s: "savedFirstStack vm = dstack vm"
    using True by (auto simp: p2sh_ok_def)
  from h pc p have m: "scripts vm ! 1 ! 0 \<in> set (scripts vm ! 1)" "scripts vm ! 1 \<in> set (scripts vm)"
    by (auto simp: isScriptHash_def atPC_def)
  from inv_parts(3) [OF inv m(2)] m(1) have "pop_opcode (scripts vm ! 1 ! 0) = opcodeArray (pop_value (scripts vm ! 1 ! 0))"
    unfolding parsed_def by blast
  with h have "pop_opcode (scripts vm ! 1 ! 0) = opcodeArray OpBlake2b" by (simp add: isScriptHash_def)
  from blake2b_needs_item [OF e, unfolded p True, OF this] inv_parts(4) [OF inv True] s show ?thesis by simp
next
  case False
  with inv_parts(5) [OF inv] p show ?thesis by (simp add: p2sh_ok_def)
qed

lemma after_opcode:
  assumes inv: "engine_inv vm" and pc: "atPC vm" and C: "digests_32 C"
    and e: "executeOpcode C (scripts vm ! scriptIdx vm ! scriptOff vm) (vm\<lparr>scriptOff := scriptOff vm + 1\<rparr>) = Inr vm1"
    and d: "Depth (dstack vm1) + Depth (astack vm1) \<le> MaxStackSize"
  shows "bounded 244 vm1" "has_entry vm1"
proof -
  let ?vm = "vm\<lparr>scriptOff := scriptOff vm + 1\<rparr>"
  have "parsed (scripts vm ! scriptIdx vm)" "scripts vm ! scriptIdx vm ! scriptOff vm \<in> set (scripts vm ! scriptIdx vm)"
    using inv_parts(3) [OF inv] pc by (simp_all add: atPC_def)
  moreover have "bounded 244 ?vm" "has_entry ?vm"
    using inv_parts(1,2) [OF inv] by (simp_all add: bounded_def has_entry_def)
  ultimately have b: "bounded 247 vm1" using specD [OF spec_executeOpcode e] C by blast
  from bounded_small [OF b] d have "length (dstack vm1) + length (astack vm1) \<le> 244"
    by (simp add: Depth_small MaxStackSize_def)
  with b show "bounded 244 vm1" by (simp add: bounded_def)
  from fixed_fields [OF retD [OF fixed_executeOpcode e]] inv_parts(2) [OF inv] show "has_entry vm1"
    by (simp add: has_entry_def)
qed

lemma Step_no_panic:
  assumes inv: "engine_inv vm" and pc: "atPC vm" and C: "digests_32 C"
  shows "Step C vm \<noteq> Inl Panic"
proof
  let ?vm = "vm\<lparr>scriptOff := scriptOff vm + 1\<rparr>"
  let ?pop = "scripts vm ! scriptIdx vm ! scriptOff vm"
  have m: "parsed (scripts vm ! scriptIdx vm)" "?pop \<in> set (scripts vm ! scriptIdx vm)" "bounded 244 ?vm" "has_entry ?vm"
    using inv_parts [OF inv] pc by (simp_all add: atPC_def bounded_def has_entry_def)
  assume "Step C vm = Inl Panic"
  then obtain vm1 where e: "executeOpcode C ?pop ?vm = Inr vm1"
    and d: "Depth (dstack vm1) + Depth (astack vm1) \<le> MaxStackSize" and p: "endScript vm1 = Inl Panic"
    using pc spec_not_panic [OF spec_executeOpcode [OF m(3,4) C m(1,2)]]
    by (auto simp: Step_def rbind_Inl_iff validPC_def atPC_def Let_def split: if_splits)
  let ?vm1 = "vm1\<lparr>astack := dropAll (astack vm1), numOps := 0, scriptOff := 0\<rparr>"
  note b = after_opcode [OF inv pc C e d]
  have "bounded 244 ?vm1" using b(1) dropAll_small bounded_small [OF b(1)] by (simp add: bounded_def MaxOpsPerScript_def)
  moreover have "isP2SH ?vm1 \<and> scriptIdx ?vm1 = 1 \<longrightarrow> savedFirstStack ?vm1 \<noteq> []"
    using saved_nonempty [OF inv pc _ _ e] fixed_fields [OF retD [OF fixed_executeOpcode e]] by simp
  ultimately have "nextScript ?vm1 \<noteq> Inl Panic" by (rule nextScript_no_panic)
  with p show False by (auto simp: endScript_def rbind_Inl_iff Let_def split: if_splits)
qed

definition p2sh_base :: "Engine \<Rightarrow> bool" where
  "p2sh_base vm \<longleftrightarrow>
     (if isP2SH vm then length (scripts vm) = (if scriptIdx vm \<le> 1 then 2 else 3) \<and> isScriptHash (scripts vm ! 1) \<and>
        length (savedFirstStack vm) \<le> 244 \<and> (\<forall>x \<in> set (savedFirstStack vm). length x \<le> MaxScriptElementSize)
      else length (scripts vm) = 2)"

definition at_start :: "Engine \<Rightarrow> bool" where
  "at_start vm \<longleftrightarrow> bounded 244 vm \<and> has_entry vm \<and> (\<forall>s \<in> set (scripts vm). parsed s) \<and>
     condStack vm = [] \<and> astack vm = [] \<and> numOps vm = 0 \<and> scriptOff vm = 0"

lemma nextScript_inv:
  assumes "nextScript vm = Inr vm2" and s: "at_start vm" "p2sh_base vm"
  shows "engine_inv vm2 \<and> scriptOff vm2 = 0 \<and> scriptIdx vm2 = scriptIdx vm + 1"
  using assms(1)
proof (cases rule: nextScript_cases)
  case plain
  with s show ?thesis
    by (auto simp: at_start_def p2sh_base_def engine_inv_def p2sh_ok_def bounded_def has_entry_def split: if_splits)
next
  case save
  have "getStack (dstack vm) = dstack vm"
    using s(1) bounded_small [of 244 vm] by (intro getStack_small) (simp add: at_start_def)
  with save s show ?thesis
    by (auto simp: at_start_def p2sh_base_def engine_inv_def p2sh_ok_def bounded_def has_entry_def)
next
  case (redeem st pops)
  have "small st"
  proof -
    from redeem(4) s(1) have "dstack vm = st @ [fst (the (Some (last (dstack vm), ())))]"
      using bounded_small [of 244 vm] PopByteArray_iff [of "dstack vm"]
      by (auto simp: at_start_def PopBool_def rbind_Inr_iff)
    then have "length st < length (dstack vm)" by (metis length_append_singleton lessI)
    with s(1) show ?thesis by (simp add: at_start_def bounded_def small_def)
  qed
  then have d: "setStack st (butlast (savedFirstStack vm)) = butlast (savedFirstStack vm)"
    by (rule setStack_small)
  from s(2) redeem(1,2) have l: "length (scripts vm) = 2" "isScriptHash (scripts vm ! 1)" by (simp_all add: p2sh_base_def)
  with redeem d s parsed_parseScript [OF redeem(6)] show ?thesis
    by (auto simp: at_start_def p2sh_base_def engine_inv_def p2sh_ok_def bounded_def has_entry_def nth_append
      dest: in_set_butlastD)
qed

lemma Step_inv:
  assumes inv: "engine_inv vm" and pc: "atPC vm" and C: "digests_32 C" and s: "Step C vm = Inr (done, vm')"
  shows "bounded 244 vm' \<and> (if done then length (scripts vm') \<le> scriptIdx vm' else engine_inv vm' \<and> atPC vm')"
proof -
  from s obtain vm1 where
    e: "executeOpcode C (scripts vm ! scriptIdx vm ! scriptOff vm) (vm\<lparr>scriptOff := scriptOff vm + 1\<rparr>) = Inr vm1" and
    d: "Depth (dstack vm1) + Depth (astack vm1) \<le> MaxStackSize" and
    f: "fixed vm1 = fixed (vm\<lparr>scriptOff := scriptOff vm + 1\<rparr>)" and
    c: "scriptOff vm + 1 < length (scripts vm ! scriptIdx vm) \<and> \<not> done \<and> vm' = vm1 \<or>
     scriptOff vm + 1 = length (scripts vm ! scriptIdx vm) \<and> endScript vm1 = Inr (done, vm')"
    by (rule Step_cases)
  note ff = fixed_fields [OF f] and b = after_opcode [OF inv pc C e d]
  have saved: "isP2SH vm \<Longrightarrow> scriptIdx vm = 1 \<Longrightarrow> savedFirstStack vm \<noteq> []"
    using saved_nonempty [OF inv pc _ _ e] by blast
  from c show ?thesis
  proof
    assume m: "scriptOff vm + 1 < length (scripts vm ! scriptIdx vm) \<and> \<not> done \<and> vm' = vm1"
    have "engine_inv vm1"
      using inv b saved ff by (auto simp: engine_inv_def p2sh_ok_def)
    moreover have "atPC vm1" using m pc ff by (simp add: atPC_def)
    ultimately show ?thesis using m b by simp
  next
    assume "scriptOff vm + 1 = length (scripts vm ! scriptIdx vm) \<and> endScript vm1 = Inr (done, vm')"
    then obtain vm2 where co: "condStack vm1 = []"
      and n: "nextScript (vm1\<lparr>astack := dropAll (astack vm1), numOps := 0, scriptOff := 0\<rparr>) = Inr vm2"
      and v: "vm' = (if scriptIdx vm2 < length (scripts vm2) \<and> scriptOff vm2 \<ge> length (scripts vm2 ! scriptIdx vm2)
            then vm2\<lparr>scriptIdx := scriptIdx vm2 + 1\<rparr> else vm2)"
      and dn: "done \<longleftrightarrow> length (scripts vm') \<le> scriptIdx vm'"
      using endScript_cases by blast
    let ?vm1 = "vm1\<lparr>astack := dropAll (astack vm1), numOps := 0, scriptOff := 0\<rparr>"
    have "at_start ?vm1"
      using b co ff inv_parts(3) [OF inv] dropAll_small bounded_small [OF b(1)]
      by (simp add: at_start_def bounded_def has_entry_def MaxOpsPerScript_def)
    moreover have "p2sh_base ?vm1" using inv_parts(5) [OF inv] ff by (simp add: p2sh_ok_def p2sh_base_def split: if_splits)
    ultimately have i2: "engine_inv vm2" "scriptOff vm2 = 0" "scriptIdx vm2 = scriptIdx vm1 + 1"
      using nextScript_inv [OF n] by auto
    show ?thesis
    proof (cases "scriptIdx vm2 < length (scripts vm2) \<and> scripts vm2 ! scriptIdx vm2 = []")
      case False
      with v i2 have "vm' = vm2" by auto
      with False i2 v dn show ?thesis by (auto simp: atPC_def engine_inv_def)
    next
      case True
      with v i2 have v': "vm' = vm2\<lparr>scriptIdx := scriptIdx vm2 + 1\<rparr>" "scriptIdx vm2 < length (scripts vm2)"
        "scripts vm2 ! scriptIdx vm2 = []" by auto
      have "bounded 244 vm'" using i2 v' by (simp add: engine_inv_def bounded_def)
      moreover have "length (scripts vm') \<le> scriptIdx vm'"
        using inv_parts(5) [OF i2(1)] v' i2(3)
        by (cases "scriptIdx vm2 = 1") (auto simp: p2sh_ok_def isScriptHash_def split: if_splits)
      ultimately show ?thesis using dn by simp
    qed
  qed
qed

section \<open>Whole runs\<close>

lemma spec_run:
  assumes "engine_inv vm" "atPC vm" "digests_32 C"
  shows "spec (run C vm) (\<lambda>vm'. bounded 244 vm' \<and> length (scripts vm') \<le> scriptIdx vm')"
  using assms
proof (induction C vm rule: run.induct)
  case (1 C vm)
  show ?case
  proof (cases "Step C vm")
    case (Inl e)
    then show ?thesis using Step_no_panic [OF 1(2,3,4)] by (cases e) (simp_all add: run.simps)
  next
    case (Inr r)
    obtain d vm' where r: "r = (d, vm')" by (cases r)
    note step = Step_inv [OF 1(2,3,4) Inr [unfolded r]]
    show ?thesis
    proof (cases d)
      case True
      with step Inr r show ?thesis by (subst run.simps) simp
    next
      case False
      with step have "spec (run C vm') (\<lambda>vm'. bounded 244 vm' \<and> length (scripts vm') \<le> scriptIdx vm')"
        using 1(1) [OF Inr r [symmetric]] 1(4) by simp
      with Inr r False show ?thesis by (subst run.simps) simp
    qed
  qed
qed

lemma NewEngine_cases:
  assumes "NewEngine spk t idx fl c ce rv = Inr vm"
  obtains (future) "spk_Version spk > MaxScriptPublicKeyVersion" "scriptVersion vm = spk_Version spk"
  | (run) sig pk where "spk_Version spk = 0" "0 \<le> idx" "idx < int (length (Inputs t))"
      "parseScript (SignatureScript (Inputs t ! nat idx)) = (sig, None)" "isPushOnly sig"
      "length (SignatureScript (Inputs t ! nat idx)) \<le> MaxScriptSize" "length (spk_Script spk) \<le> MaxScriptSize"
      "parseScript (spk_Script spk) = (pk, None)"
      "SignatureScript (Inputs t ! nat idx) \<noteq> [] \<or> spk_Script spk \<noteq> []"
      "vm = zeroEngine\<lparr>scriptVersion := spk_Version spk, flags := fl, sigCache := c, sigCacheECDSA := ce,
         scripts := [sig, pk], scriptIdx := (if SignatureScript (Inputs t ! nat idx) = [] then 1 else 0),
         isP2SH := isScriptHash pk, tx := t, txIdx := nat idx, sigHashReusedValues := rv\<rparr>"
proof (cases "spk_Version spk > MaxScriptPublicKeyVersion")
  case True
  with assms show ?thesis by (intro future) (auto simp: NewEngine_def Let_def zeroEngine_def split: if_splits)
next
  case False
  then have v: "spk_Version spk = 0" by (simp add: MaxScriptPublicKeyVersion_def word_gt_0)
  from assms False obtain sig pk where
    "0 \<le> idx" "idx < int (length (Inputs t))"
    "SignatureScript (Inputs t ! nat idx) \<noteq> [] \<or> spk_Script spk \<noteq> []"
    "parseScriptAndVerifySize (SignatureScript (Inputs t ! nat idx)) = Inr sig" "isPushOnly sig"
    "parseScriptAndVerifySize (spk_Script spk) = Inr pk"
    "vm = zeroEngine\<lparr>scriptVersion := spk_Version spk, flags := fl, sigCache := c, sigCacheECDSA := ce,
         scripts := [sig, pk], scriptIdx := (if SignatureScript (Inputs t ! nat idx) = [] then 1 else 0),
         isP2SH := isScriptHash pk, tx := t, txIdx := nat idx, sigHashReusedValues := rv\<rparr>"
    unfolding NewEngine_def Let_def
    by (auto simp: rbind_Inr_iff not_le zeroEngine_def split: if_split_asm)
  with v show ?thesis
    by (intro run [of sig pk])
      (auto simp: parseScriptAndVerifySize_def parseScript_result_def split: if_splits prod.splits option.splits)
qed

lemma NewEngine_inv:
  assumes n: "NewEngine spk t idx fl c ce rv = Inr vm" and v: "spk_Version spk = 0"
    and e: "in_UTXOEntry (Inputs t ! nat idx) \<noteq> None"
  shows "engine_inv vm \<and> atPC vm"
  using n
proof (cases rule: NewEngine_cases)
  case future
  with v show ?thesis by (simp add: MaxScriptPublicKeyVersion_def)
next
  case (run sig pk)
  have ne: "parseScript s = ([], None) \<Longrightarrow> s = []" for s using unparse_parse [of s "[]"] by simp
  from run parsed_parseScript show ?thesis using e ne
    by (auto simp: engine_inv_def atPC_def zeroEngine_def bounded_def has_entry_def p2sh_ok_def MaxOpsPerScript_def
      split: if_splits)
qed

end
