(* ===== verification/Engine_Limits.thy ===== *)
theory Engine_Limits
  imports Engine_Safety
begin

text \<open>
  The properties of whole runs of the script engine: it does not panic, its limits hold in every
  state of a run, and the number of steps is bounded by the lengths of the scripts.
\<close>

section \<open>The number of steps\<close>

text \<open>
  The states of a run, as a step relation.  \<open>budget\<close> bounds the steps that are left: the opcodes
  that remain in the scripts, and one per byte of the script that pay-to-script-hash may add.
\<close>

inductive engine_step :: "crypto \<Rightarrow> Engine \<Rightarrow> Engine \<Rightarrow> bool" for C where
  step: "Step C vm = Inr (False, vm') \<Longrightarrow> engine_step C vm vm'"

inductive_cases engine_stepE: "engine_step C vm vm'"

definition budget :: "Engine \<Rightarrow> nat" where
  "budget vm = remaining vm + (if isP2SH vm \<and> scriptIdx vm \<le> 1 then MaxScriptElementSize else 0)"

lemma pop_bytes_nonempty: "pop_bytes pop = Inr bs \<Longrightarrow> bs \<noteq> []"
  by (auto simp: pop_bytes_def Let_def split: if_splits)

lemma length_unparse: "unparseScript pops = Inr script \<Longrightarrow> length pops \<le> length script"
proof (induction pops arbitrary: script)
  case (Cons pop pops)
  then obtain b bs where "pop_bytes pop = Inr b" "unparseScript pops = Inr bs" "script = b @ bs"
    by (auto simp: rbind_Inr_iff)
  with Cons.IH [of bs] pop_bytes_nonempty [of pop b] show ?case by (cases b) auto
qed simp

lemma nextScript_budget:
  assumes n: "nextScript vm = Inr vm2" and s: "at_start vm" "p2sh_base vm"
  shows "budget vm2 + sum_list (map length (take 1 (drop (scriptIdx vm) (scripts vm)))) \<le> budget vm"
  using n
proof (cases rule: nextScript_cases)
  case plain
  have "remaining vm2 + sum_list (map length (take 1 (drop (scriptIdx vm) (scripts vm)))) \<le> remaining vm"
    using plain s by (cases "scriptIdx vm < length (scripts vm)")
      (simp_all add: remaining_def at_start_def Cons_nth_drop_Suc [symmetric])
  with plain show ?thesis by (auto simp: budget_def)
next
  case save
  have "0 < length (scripts vm)" using s(2) save by (simp add: p2sh_base_def split: if_splits)
  with save s show ?thesis
    by (simp add: budget_def remaining_def at_start_def Cons_nth_drop_Suc [of 0, symmetric] del: drop0)
next
  case (redeem st pops)
  have l: "length (scripts vm) = 2" using s(2) redeem by (simp add: p2sh_base_def)
  have "length (last (savedFirstStack vm)) \<le> MaxScriptElementSize"
    using s(2) redeem by (simp add: p2sh_base_def)
  with length_unparse [OF unparse_parse [OF redeem(6)]] have "length pops \<le> MaxScriptElementSize" by linarith
  with redeem l s show ?thesis
    by (simp add: budget_def remaining_def at_start_def Cons_nth_drop_Suc [of 1, symmetric])
qed

lemma Step_budget:
  assumes inv: "engine_inv vm" and pc: "atPC vm" and C: "digests_32 C" and s: "Step C vm = Inr (done, vm')"
  shows "budget vm' < budget vm"
proof -
  from s obtain vm1 where
    e: "executeOpcode C (scripts vm ! scriptIdx vm ! scriptOff vm) (vm\<lparr>scriptOff := scriptOff vm + 1\<rparr>) = Inr vm1" and
    d: "Depth (dstack vm1) + Depth (astack vm1) \<le> MaxStackSize" and
    f: "fixed vm1 = fixed (vm\<lparr>scriptOff := scriptOff vm + 1\<rparr>)" and
    c: "scriptOff vm + 1 < length (scripts vm ! scriptIdx vm) \<and> \<not> done \<and> vm' = vm1 \<or>
     scriptOff vm + 1 = length (scripts vm ! scriptIdx vm) \<and> endScript vm1 = Inr (done, vm')"
    by (rule Step_cases)
  note ff = fixed_fields [OF f] and b = after_opcode [OF inv pc C e d]
  let ?rest = "sum_list (map length (drop (Suc (scriptIdx vm)) (scripts vm)))"
  let ?k = "if isP2SH vm \<and> scriptIdx vm \<le> 1 then MaxScriptElementSize else 0"
  have rem: "budget vm = length (scripts vm ! scriptIdx vm) + ?rest - scriptOff vm + ?k"
    using pc by (simp add: budget_def remaining_def atPC_def Cons_nth_drop_Suc [symmetric])
  from c show ?thesis
  proof
    assume m: "scriptOff vm + 1 < length (scripts vm ! scriptIdx vm) \<and> \<not> done \<and> vm' = vm1"
    have "budget vm1 = length (scripts vm ! scriptIdx vm) + ?rest - (scriptOff vm + 1) + ?k"
      using ff pc by (simp add: budget_def remaining_def atPC_def Cons_nth_drop_Suc [symmetric])
    with m rem have "budget vm1 < budget vm" by linarith
    with m show ?thesis by simp
  next
    assume en: "scriptOff vm + 1 = length (scripts vm ! scriptIdx vm) \<and> endScript vm1 = Inr (done, vm')"
    then obtain vm2 where co: "condStack vm1 = []"
      and n: "nextScript (vm1\<lparr>astack := dropAll (astack vm1), numOps := 0, scriptOff := 0\<rparr>) = Inr vm2"
      and v: "vm' = (if scriptIdx vm2 < length (scripts vm2) \<and> scriptOff vm2 \<ge> length (scripts vm2 ! scriptIdx vm2)
            then vm2\<lparr>scriptIdx := scriptIdx vm2 + 1\<rparr> else vm2)"
      using endScript_cases by blast
    let ?vm1 = "vm1\<lparr>astack := dropAll (astack vm1), numOps := 0, scriptOff := 0\<rparr>"
    have st: "at_start ?vm1"
      using b co ff inv_parts(3) [OF inv] dropAll_small bounded_small [OF b(1)]
      by (simp add: at_start_def bounded_def has_entry_def MaxOpsPerScript_def)
    have p: "p2sh_base ?vm1" using inv_parts(5) [OF inv] ff by (simp add: p2sh_ok_def p2sh_base_def split: if_splits)
    have "budget vm2 + length (scripts vm ! scriptIdx vm) \<le> budget ?vm1"
      using nextScript_budget [OF n st p] ff pc by (simp add: atPC_def Cons_nth_drop_Suc [symmetric])
    moreover have "budget ?vm1 = length (scripts vm ! scriptIdx vm) + ?rest + ?k"
      using ff pc by (simp add: budget_def remaining_def atPC_def Cons_nth_drop_Suc [symmetric])
    moreover have "budget vm' \<le> budget vm2"
      using v remaining_drop_le [of "scriptIdx vm2" "scripts vm2"]
      by (auto simp: budget_def remaining_def intro: diff_le_mono)
    ultimately show ?thesis using rem en by linarith
  qed
qed

lemma reachable_inv:
  assumes "(engine_step C ^^ n) vm vm'" "engine_inv vm" "atPC vm" "digests_32 C"
  shows "engine_inv vm' \<and> atPC vm' \<and> n + budget vm' \<le> budget vm"
  using assms
proof (induction n arbitrary: vm')
  case (Suc n)
  then obtain vm1 where n: "(engine_step C ^^ n) vm vm1" and s: "Step C vm1 = Inr (False, vm')"
    by (auto elim: engine_stepE)
  from Suc.IH [OF n] Suc.prems have 1: "engine_inv vm1" "atPC vm1" "n + budget vm1 \<le> budget vm" by simp_all
  from Step_inv [OF 1(1,2) Suc.prems(4) s] Step_budget [OF 1(1,2) Suc.prems(4) s] 1(3) show ?case by simp
qed simp

lemma parseScript_length: "parseScript script = (pops, None) \<Longrightarrow> length pops \<le> length script"
  using length_unparse unparse_parse by blast

lemma NewEngine_budget:
  assumes "NewEngine spk t idx fl c ce rv = Inr vm" "spk_Version spk = 0"
  shows "budget vm \<le> length (SignatureScript (Inputs t ! nat idx)) + length (spk_Script spk) + MaxScriptElementSize \<and>
    length (SignatureScript (Inputs t ! nat idx)) + length (spk_Script spk) \<le> 2 * MaxScriptSize"
  using assms(1)
proof (cases rule: NewEngine_cases)
  case future
  with assms(2) show ?thesis by (simp add: MaxScriptPublicKeyVersion_def)
next
  case (run sig pk)
  with parseScript_length [OF run(4)] parseScript_length [OF run(8)] show ?thesis
    by (auto simp: budget_def remaining_def zeroEngine_def)
qed

section \<open>Properties\<close>

definition sample_crypto :: crypto where
  "sample_crypto = \<lparr>hashes = \<lparr>blake2b_256 = (\<lambda>k m. replicate 31 0 @ [of_nat (length m)]), sha256_256 = (\<lambda>m. replicate 32 0)\<rparr>,
     DeserializeSchnorrPubKey = Some, DeserializeSchnorrSignatureFromSlice = Some,
     SchnorrVerify = (\<lambda>k h s. take 32 s = k), DeserializeECDSAPubKey = Some,
     DeserializeECDSASignatureFromSlice = Some, ECDSAVerify = (\<lambda>k h s. take 32 s = k), rangeFirst = hd\<rparr>"

lemma sample_digests: "digests_32 sample_crypto"
  by (simp add: digests_32_def sample_crypto_def)

definition op1_script :: ScriptPublicKey where
  "op1_script = \<lparr>spk_Script = [0x51], spk_Version = 0\<rparr>"

lemma op1_engine:
  "NewEngine op1_script signed_tx 0 ScriptNoFlags None None emptyReusedValues =
     Inr (zeroEngine\<lparr>scripts := [[], [\<lparr>pop_opcode = opcodeArray Op1, pop_data = []\<rparr>]], scriptIdx := 1, tx := signed_tx\<rparr>)"
proof -
  have "parseScript [0x51] = ([\<lparr>pop_opcode = opcodeArray Op1, pop_data = []\<rparr>], None)"
    by (simp add: parseScript_Cons parseOpcode_single opcodeArray_length length_of_opcode_def)
  then show ?thesis
    by (simp add: NewEngine_def op1_script_def signed_tx_def zeroEngine_def MaxScriptPublicKeyVersion_def
        parseScriptAndVerifySize_def parseScript_result_def isScriptHash_def MaxScriptSize_def ScriptNoFlags_def Let_def)
qed

text \<open>
  C5: The script engine never panics.  An engine that \<^verbatim>\<open>NewEngine\<close> returns for an input whose UTXO
  entry is filled in executes to success or to a script error, whatever the scripts of the input
  and of the entry are.  In particular the item that pay-to-script-hash takes from the saved stack
  is always there.
\<close>

theorem Execute_never_panics:
  assumes "NewEngine spk t idx fl c ce rv = Inr vm" "in_UTXOEntry (Inputs t ! nat idx) \<noteq> None" "digests_32 C"
  shows "Execute C vm \<noteq> Inl Panic"
proof (cases "scriptVersion vm > MaxScriptPublicKeyVersion")
  case False
  have "spk_Version spk = 0"
    using assms(1) by (cases rule: NewEngine_cases) (use False in simp_all)
  with NewEngine_inv assms spec_run have "spec (run C vm) (\<lambda>vm'. bounded 244 vm' \<and> length (scripts vm') \<le> scriptIdx vm')"
    by blast
  then have "spec (run C vm) (\<lambda>vm. CheckErrorCondition vm True \<noteq> Inl Panic)"
    by (rule spec_mono) (use CheckErrorCondition_no_panic in auto)
  with False show ?thesis
    by (auto simp: Execute_def rbind_Inl_iff dest: specD spec_not_panic)
qed (simp add: Execute_def)

theorem Execute_never_panics_witness:
  "\<exists>vm. NewEngine op1_script signed_tx 0 ScriptNoFlags None None emptyReusedValues = Inr vm \<and>
     Execute sample_crypto vm \<noteq> Inl Panic"
proof -
  have "in_UTXOEntry (Inputs signed_tx ! nat 0) \<noteq> None" by (simp add: signed_tx_def)
  from Execute_never_panics [OF op1_engine this sample_digests] op1_engine show ?thesis by blast
qed

text \<open>
  C11: The limits of the engine hold in every state of a run.  After any number of steps from an
  engine of \<^verbatim>\<open>NewEngine\<close> the two stacks have at most \<^verbatim>\<open>MaxStackSize\<close> items together, no item is
  longer than \<^verbatim>\<open>MaxScriptElementSize\<close>, at most \<^verbatim>\<open>MaxOpsPerScript\<close> operations are counted, and the
  program counter points to an opcode.
\<close>

theorem engine_limits:
  assumes "NewEngine spk t idx fl c ce rv = Inr vm" "spk_Version spk = 0"
    and "in_UTXOEntry (Inputs t ! nat idx) \<noteq> None" "digests_32 C" "(engine_step C)\<^sup>*\<^sup>* vm vm'"
  shows "int (length (dstack vm') + length (astack vm')) \<le> MaxStackSize \<and>
    (\<forall>x \<in> set (dstack vm') \<union> set (astack vm'). length x \<le> MaxScriptElementSize) \<and>
    numOps vm' \<le> MaxOpsPerScript \<and> validPC vm' = Inr ()"
proof -
  from assms(5) obtain n where "(engine_step C ^^ n) vm vm'" by (auto dest: rtranclp_imp_relpowp)
  with reachable_inv NewEngine_inv [OF assms(1-3)] assms(4) have "engine_inv vm' \<and> atPC vm'" by blast
  then show ?thesis
    by (auto simp: engine_inv_def bounded_def MaxStackSize_def atPC_def validPC_def)
qed

theorem engine_limits_witness:
  "\<exists>vm. NewEngine op1_script signed_tx 0 ScriptNoFlags None None emptyReusedValues = Inr vm \<and>
     numOps vm \<le> MaxOpsPerScript \<and> validPC vm = Inr ()"
proof -
  have "in_UTXOEntry (Inputs signed_tx ! nat 0) \<noteq> None" by (simp add: signed_tx_def)
  moreover have "spk_Version op1_script = 0" by (simp add: op1_script_def)
  ultimately show ?thesis
    using engine_limits [OF op1_engine _ _ sample_digests rtranclp.rtrancl_refl] op1_engine by blast
qed

text \<open>
  C12: The loop of \<^verbatim>\<open>Execute\<close> is short.  Every run from an engine of \<^verbatim>\<open>NewEngine\<close> makes fewer steps
  than the two scripts have bytes, plus one for each byte that a script of pay-to-script-hash may
  have; that is never more than 20,520.
\<close>

theorem Execute_steps_bounded:
  assumes "NewEngine spk t idx fl c ce rv = Inr vm" "spk_Version spk = 0"
    and "in_UTXOEntry (Inputs t ! nat idx) \<noteq> None" "digests_32 C" "(engine_step C ^^ n) vm vm'"
  shows "n \<le> length (SignatureScript (Inputs t ! nat idx)) + length (spk_Script spk) + MaxScriptElementSize \<and> n \<le> 20520"
proof -
  have "n \<le> budget vm"
    using reachable_inv [OF assms(5)] NewEngine_inv [OF assms(1-3)] assms(4) by simp
  with NewEngine_budget [OF assms(1,2)] show ?thesis by (simp add: MaxScriptElementSize_def MaxScriptSize_def)
qed

theorem Execute_steps_bounded_witness:
  "\<exists>vm. NewEngine op1_script signed_tx 0 ScriptNoFlags None None emptyReusedValues = Inr vm \<and>
     (\<forall>n vm'. \<not> (20520 < n \<and> (engine_step sample_crypto ^^ n) vm vm'))"
proof -
  have "in_UTXOEntry (Inputs signed_tx ! nat 0) \<noteq> None" "spk_Version op1_script = 0"
    by (simp_all add: signed_tx_def op1_script_def)
  then show ?thesis
    using Execute_steps_bounded [OF op1_engine _ _ sample_digests] op1_engine by (metis not_less)
qed

end
