(* ===== verification/Signature_Checks.thy ===== *)
theory Signature_Checks
  imports Engine_Limits "HOL-Library.Sublist"
begin

text \<open>
  What the signature opcodes decide.  The caches of the engine and the hash values it reuses only save
  work: relative to an invariant of the caches, \<^verbatim>\<open>opcodeCheckSig\<close> and \<^verbatim>\<open>opcodeCheckMultiSig\<close> of either
  scheme compute what a scheme without them computes.  The contract is the locale \<open>correct_scheme\<close>,
  interpreted for the Schnorr and the ECDSA opcodes.  For several signatures the loop of
  \<^verbatim>\<open>opcodeCheckMultiSig\<close> is an order-preserving matching of signatures with keys.
\<close>

section \<open>Handlers that do not look at the caches\<close>

text \<open>
  \<open>with_caches a b r vm\<close> replaces the parts of an engine that only save work: the two signature
  caches and the reused hash values.
\<close>

definition with_caches :: "SigCache option \<Rightarrow> SigCacheECDSA option \<Rightarrow> SighashReusedValues \<Rightarrow> Engine \<Rightarrow> Engine" where
  "with_caches a b r vm = vm\<lparr>sigCache := a, sigCacheECDSA := b, sigHashReusedValues := r\<rparr>"

definition core :: "Engine \<Rightarrow> Engine" where
  "core = with_caches None None emptyReusedValues"

abbreviation rmap :: "('a \<Rightarrow> 'b) \<Rightarrow> 'a script_result \<Rightarrow> 'b script_result" where
  "rmap \<equiv> map_sum id"

lemma rmap_rbind: "rmap f (rbind m g) = rbind m (\<lambda>x. rmap f (g x))"
  by (cases m) simp_all

lemma rbind_rmap: "rbind (rmap f m) g = rbind m (\<lambda>x. g (f x))"
  by (cases m) simp_all

lemma rbind_assoc: "rbind (rbind m f) g = rbind m (\<lambda>x. rbind (f x) g)"
  by (cases m) simp_all

lemma rbind_if: "rbind (if b then x else y) g = (if b then rbind x g else rbind y g)"
  by simp

lemma rmap_if: "rmap f (if b then x else y) = (if b then rmap f x else rmap f y)"
  by simp

lemma with_caches_simps [simp]:
  "dstack (with_caches a b r vm) = dstack vm" "astack (with_caches a b r vm) = astack vm"
  "condStack (with_caches a b r vm) = condStack vm" "numOps (with_caches a b r vm) = numOps vm"
  "tx (with_caches a b r vm) = tx vm" "txIdx (with_caches a b r vm) = txIdx vm" "flags (with_caches a b r vm) = flags vm"
  "scripts (with_caches a b r vm) = scripts vm" "scriptIdx (with_caches a b r vm) = scriptIdx vm"
  "scriptOff (with_caches a b r vm) = scriptOff vm" "isP2SH (with_caches a b r vm) = isP2SH vm"
  "savedFirstStack (with_caches a b r vm) = savedFirstStack vm" "scriptVersion (with_caches a b r vm) = scriptVersion vm"
  by (simp_all add: with_caches_def)

lemma with_caches_upd [simp]:
  "(with_caches a b r vm)\<lparr>dstack := s\<rparr> = with_caches a b r (vm\<lparr>dstack := s\<rparr>)"
  "(with_caches a b r vm)\<lparr>astack := s\<rparr> = with_caches a b r (vm\<lparr>astack := s\<rparr>)"
  "(with_caches a b r vm)\<lparr>condStack := c\<rparr> = with_caches a b r (vm\<lparr>condStack := c\<rparr>)"
  "(with_caches a b r vm)\<lparr>numOps := n\<rparr> = with_caches a b r (vm\<lparr>numOps := n\<rparr>)"
  "(with_caches a b r vm)\<lparr>scriptOff := i\<rparr> = with_caches a b r (vm\<lparr>scriptOff := i\<rparr>)"
  "(with_caches a b r vm)\<lparr>scriptIdx := i\<rparr> = with_caches a b r (vm\<lparr>scriptIdx := i\<rparr>)"
  "(with_caches a b r vm)\<lparr>scripts := ss\<rparr> = with_caches a b r (vm\<lparr>scripts := ss\<rparr>)"
  "(with_caches a b r vm)\<lparr>savedFirstStack := s\<rparr> = with_caches a b r (vm\<lparr>savedFirstStack := s\<rparr>)"
  by (simp_all add: with_caches_def)

lemma call_opfunc_with_caches:
  "f \<notin> {f_opcodeCheckSig, f_opcodeCheckSigECDSA, f_opcodeCheckSigVerify, f_opcodeCheckMultiSig,
    f_opcodeCheckMultiSigECDSA, f_opcodeCheckMultiSigVerify} \<Longrightarrow>
   call_opfunc C f op (with_caches a b r vm) = rmap (with_caches a b r) (call_opfunc C f op vm)"
  by (cases f) (simp_all add: control_defs stack_op_defs arith_defs pop_push_defs rmap_rbind rmap_if rbind_assoc rbind_if split_def
     hasFlag_def isBranchExecuting_def curInput_def Let_def cong: if_cong)

section \<open>Schemes whose caches are sound\<close>

lemma core_fields:
  assumes "core vm = core vm'"
  shows "dstack vm = dstack vm'" "astack vm = astack vm'" "condStack vm = condStack vm'" "numOps vm = numOps vm'"
    "tx vm = tx vm'" "txIdx vm = txIdx vm'" "flags vm = flags vm'" "scripts vm = scripts vm'"
    "scriptIdx vm = scriptIdx vm'" "scriptOff vm = scriptOff vm'" "isP2SH vm = isP2SH vm'"
    "savedFirstStack vm = savedFirstStack vm'" "scriptVersion vm = scriptVersion vm'"
  using arg_cong [OF assms, of dstack] arg_cong [OF assms, of astack] arg_cong [OF assms, of condStack]
    arg_cong [OF assms, of numOps] arg_cong [OF assms, of tx] arg_cong [OF assms, of txIdx] arg_cong [OF assms, of flags]
    arg_cong [OF assms, of scripts] arg_cong [OF assms, of scriptIdx] arg_cong [OF assms, of scriptOff]
    arg_cong [OF assms, of isP2SH] arg_cong [OF assms, of savedFirstStack] arg_cong [OF assms, of scriptVersion]
  by (simp_all add: core_def)

lemma core_upd:
  "core (vm\<lparr>dstack := s\<rparr>) = (core vm)\<lparr>dstack := s\<rparr>"
  "core (vm\<lparr>numOps := n\<rparr>) = (core vm)\<lparr>numOps := n\<rparr>"
  "core (vm\<lparr>sigCache := a\<rparr>) = core vm" "core (vm\<lparr>sigCacheECDSA := b\<rparr>) = core vm"
  "core (vm\<lparr>sigHashReusedValues := r\<rparr>) = core vm"
  by (simp_all add: core_def with_caches_def)

text \<open>The contract of a scheme, relative to an invariant of the engine that its caches satisfy.\<close>

definition pure ::
  "scheme \<Rightarrow> (parsedPubKey \<Rightarrow> secpHash \<Rightarrow> parsedSignature \<Rightarrow> bool) \<Rightarrow>
   (DomainTransaction \<Rightarrow> nat \<Rightarrow> SigHashType \<Rightarrow> DomainHash) \<Rightarrow> scheme" where
  "pure S verifies digest = S\<lparr>s_verify := (\<lambda>vm h s k. (verifies k h s, vm)),
     s_sigHash := (\<lambda>t i ht rv. if IsStandardSigHashType ht then Inr (digest t i ht, rv)
                             else Inl (Err (InvalidSigHashType ht)))\<rparr>"

definition refines :: "(Engine \<Rightarrow> bool) \<Rightarrow> Engine script_result \<Rightarrow> Engine script_result \<Rightarrow> bool" where
  "refines J m m' \<longleftrightarrow> rmap core m = m' \<and> ret m J"

text \<open>
  Order-preserving matching of signatures and keys: every signature has its own key, and the keys
  are in the order of the signatures.
\<close>

fun matches :: "('a \<Rightarrow> 'b \<Rightarrow> bool) \<Rightarrow> 'a list \<Rightarrow> 'b list \<Rightarrow> bool" where
  "matches v [] ks = True"
| "matches v (s # ss) [] = False"
| "matches v (s # ss) (k # ks) = (if v s k then matches v ss ks else matches v (s # ss) ks)"

lemma matches_iff: "matches v ss ks \<longleftrightarrow> (\<exists>ks'. subseq ks' ks \<and> list_all2 v ss ks')"
proof (induction v ss ks rule: matches.induct)
  case (2 v s ss)
  show ?case by (auto simp: list_all2_Cons1)
next
  case (3 v s ss k ks)
  have "(\<exists>ks'. subseq ks' (k # ks) \<and> list_all2 v (s # ss) ks') \<longleftrightarrow>
      (v s k \<and> (\<exists>ks'. subseq ks' ks \<and> list_all2 v ss ks')) \<or> (\<exists>ks'. subseq ks' ks \<and> list_all2 v (s # ss) ks')"
    (is "?l \<longleftrightarrow> ?a \<or> ?b")
  proof
    assume ?l
    then obtain z zs where z: "subseq (z # zs) (k # ks)" "v s z" "list_all2 v ss zs" by (auto simp: list_all2_Cons1)
    show "?a \<or> ?b"
    proof (cases "z = k")
      case True
      with z show ?thesis by auto
    next
      case False
      with z show ?thesis by (intro disjI2 exI [of _ "z # zs"]) simp
    qed
  next
    assume "?a \<or> ?b"
    then show ?l
    proof
      assume ?a
      then obtain zs where "v s k" "subseq zs ks" "list_all2 v ss zs" by blast
      then show ?l by (intro exI [of _ "k # zs"]) simp
    next
      assume ?b
      then show ?l by (auto intro: list_emb_Cons)
    qed
  qed
  moreover have "(\<exists>ks'. subseq ks' ks \<and> list_all2 v (s # ss) ks') \<Longrightarrow> (\<exists>ks'. subseq ks' ks \<and> list_all2 v ss ks')"
    by (auto simp: list_all2_Cons1 dest: subseq_Cons')
  ultimately show ?case using 3 by (cases "v s k") auto
qed simp

lemma matches_length: "matches v ss ks \<Longrightarrow> length ss \<le> length ks"
  by (induction v ss ks rule: matches.induct) (auto split: if_splits)

definition sig_valid ::
  "scheme \<Rightarrow> (parsedPubKey \<Rightarrow> secpHash \<Rightarrow> parsedSignature \<Rightarrow> bool) \<Rightarrow> (SigHashType \<Rightarrow> DomainHash) \<Rightarrow>
   byte list \<Rightarrow> byte list \<Rightarrow> bool" where
  "sig_valid S verifies digest sig pk =
    (case (s_parsePubKey S pk, s_parseSignature S (butlast sig)) of
       (Some k, Some s) \<Rightarrow> verifies k (digest (last sig)) s
     | _ \<Rightarrow> False)"

lemma popN_rev: "small (s @ rev xs) \<Longrightarrow> dstack vm = s @ rev xs \<Longrightarrow> popN (length xs) vm = Inr (xs, vm\<lparr>dstack := s\<rparr>)"
proof (induction xs arbitrary: vm)
  case (Cons x xs)
  then have "PopByteArray (dstack vm) = Inr (x, s @ rev xs)"
    using PopByteArray_snoc [of "s @ rev xs" x] by simp
  moreover have "popN (length xs) (vm\<lparr>dstack := s @ rev xs\<rparr>) = Inr (xs, vm\<lparr>dstack := s\<rparr>)"
    using Cons.IH [of "vm\<lparr>dstack := s @ rev xs\<rparr>"] Cons.prems by (simp add: small_def)
  ultimately show ?case by (simp add: popBytes_def pop_with_def)
qed (auto intro: Engine.equality)

lemma popInt_num:
  assumes "small (s @ [b])" "dstack vm = s @ [b]" "scriptNum_Bytes n = Inr b" "\<bar>n\<bar> < 2 ^ 31"
  shows "popInt vm = Inr (n, vm\<lparr>dstack := s\<rparr>)"
proof -
  have "makeScriptNum b 4 = Inr n" using makeScriptNum_iff_Bytes [of 4 b n] assms(3,4) by simp
  with assms(1,2) show ?thesis by (simp add: popInt_def pop_with_def PopInt_def defaultScriptNumLen_def)
qed

lemma scriptNum_Int32_small: "\<bar>n\<bar> < 2 ^ 31 \<Longrightarrow> scriptNum_Int32 n = n"
  by (auto simp: scriptNum_Int32_def maxInt32_def minInt32_def i32_id)

text \<open>Signatures of the right length and hash type, and what the check knows of them.\<close>

definition sig_wf :: "byte list \<Rightarrow> bool" where
  "sig_wf sig \<longleftrightarrow> length sig = 65 \<and> IsStandardSigHashType (last sig)"

definition info_ok :: "scheme \<Rightarrow> parsedSigInfo \<Rightarrow> byte list \<Rightarrow> bool" where
  "info_ok S info sig \<longleftrightarrow> psi_signature info = sig \<and> (psi_parsed info \<longrightarrow> psi_parsedSignature info = s_parseSignature S (butlast sig))"

locale correct_scheme = signature_scheme +
  fixes inv :: "Engine \<Rightarrow> bool"
    and verifies :: "parsedPubKey \<Rightarrow> secpHash \<Rightarrow> parsedSignature \<Rightarrow> bool"
    and digest :: "DomainTransaction \<Rightarrow> nat \<Rightarrow> SigHashType \<Rightarrow> DomainHash"
    and keySize :: nat
  assumes verify_value: "inv vm \<Longrightarrow> fst (s_verify S vm h s k) = verifies k h s"
    and verify_inv: "inv vm \<Longrightarrow> inv (snd (s_verify S vm h s k))"
    and sigHash_value: "inv vm \<Longrightarrow> IsStandardSigHashType ht \<Longrightarrow>
      \<exists>rv. s_sigHash S (tx vm) (txIdx vm) ht (sigHashReusedValues vm) = Inr (digest (tx vm) (txIdx vm) ht, rv) \<and>
        inv (vm\<lparr>sigHashReusedValues := rv\<rparr>)"
    and sigHash_error: "\<not> IsStandardSigHashType ht \<Longrightarrow> s_sigHash S t i ht rv = Inl (Err (InvalidSigHashType ht))"
    and check_length: "s_checkSignatureLength S sig = (if length sig \<noteq> 64 then scriptError ErrSigLength else Inr ())"
    and check_key: "s_checkPubKeyEncoding S pk = (if length pk = keySize then Inr () else scriptError ErrPubKeyFormat)"
    and inv_upd [simp]: "inv (vm\<lparr>dstack := st\<rparr>) = inv vm" "inv (vm\<lparr>numOps := n\<rparr>) = inv vm"
begin

lemma verify_core: "core (snd (s_verify S vm h s k)) = core vm"
proof -
  obtain c e where "snd (s_verify S vm h s k) = vm\<lparr>sigCache := c, sigCacheECDSA := e\<rparr>"
    using verify_frame by blast
  then show ?thesis by (simp add: core_upd)
qed

lemma verify_cases:
  assumes "inv vm"
  obtains vm' where "s_verify S vm h s k = (verifies k h s, vm')" "inv vm'" "core vm' = core vm"
  using verify_value [OF assms, of h s k] verify_inv [OF assms, of h s k] verify_core [of vm h s k]
  by (cases "s_verify S vm h s k") auto

text \<open>The hash and the verification together.\<close>

lemma hash_verify:
  assumes "inv vm" "IsStandardSigHashType ht"
  obtains rv vm' where
    "s_sigHash S (tx vm) (txIdx vm) ht (sigHashReusedValues vm) = Inr (digest (tx vm) (txIdx vm) ht, rv)"
    "s_verify S (vm\<lparr>sigHashReusedValues := rv\<rparr>) (digest (tx vm) (txIdx vm) ht) s k = (verifies k (digest (tx vm) (txIdx vm) ht) s, vm')"
    "inv vm'" "core vm' = core vm"
proof -
  obtain rv where rv: "s_sigHash S (tx vm) (txIdx vm) ht (sigHashReusedValues vm) = Inr (digest (tx vm) (txIdx vm) ht, rv)"
    "inv (vm\<lparr>sigHashReusedValues := rv\<rparr>)" using sigHash_value [OF assms] by blast
  obtain vm' where "s_verify S (vm\<lparr>sigHashReusedValues := rv\<rparr>) (digest (tx vm) (txIdx vm) ht) s k =
     (verifies k (digest (tx vm) (txIdx vm) ht) s, vm')" "inv vm'" "core vm' = core (vm\<lparr>sigHashReusedValues := rv\<rparr>)"
    using verify_cases [OF rv(2)] by blast
  with rv that show ?thesis by (simp add: core_upd)
qed

text \<open>
  The same scheme without caches: a signature is verified each time and its hash is computed
  from the transaction.
\<close>

lemma pure_simps [simp]:
  "s_checkSignatureLength (pure S verifies digest) = s_checkSignatureLength S"
  "s_checkPubKeyEncoding (pure S verifies digest) = s_checkPubKeyEncoding S"
  "s_parsePubKey (pure S verifies digest) = s_parsePubKey S"
  "s_parseSignature (pure S verifies digest) = s_parseSignature S"
  "s_verify (pure S verifies digest) = (\<lambda>vm h s k. (verifies k h s, vm))"
  by (simp_all add: pure_def)

lemma pure_sigHash:
  "s_sigHash (pure S verifies digest) t i ht rv =
    (if IsStandardSigHashType ht then Inr (digest t i ht, rv) else Inl (Err (InvalidSigHashType ht)))"
  by (simp add: pure_def)

abbreviation P :: scheme where "P \<equiv> pure S verifies digest"

lemma core_core [simp]: "core (core vm) = core vm" "(core vm)\<lparr>sigHashReusedValues := sigHashReusedValues (core vm)\<rparr> = core vm"
  by (simp_all add: core_def with_caches_def)

lemma hash_verify_fun:
  assumes "inv vm"
  shows "\<exists>RV V. \<forall>ht. IsStandardSigHashType ht \<longrightarrow>
      s_sigHash S (tx vm) (txIdx vm) ht (sigHashReusedValues vm) = Inr (digest (tx vm) (txIdx vm) ht, RV ht) \<and>
      inv (vm\<lparr>sigHashReusedValues := RV ht\<rparr>) \<and>
      (\<forall>s k. s_verify S (vm\<lparr>sigHashReusedValues := RV ht\<rparr>) (digest (tx vm) (txIdx vm) ht) s k =
          (verifies k (digest (tx vm) (txIdx vm) ht) s, V ht s k) \<and> inv (V ht s k) \<and> core (V ht s k) = core vm)"
proof -
  obtain RV where RV: "\<And>ht. IsStandardSigHashType ht \<Longrightarrow>
      s_sigHash S (tx vm) (txIdx vm) ht (sigHashReusedValues vm) = Inr (digest (tx vm) (txIdx vm) ht, RV ht) \<and>
      inv (vm\<lparr>sigHashReusedValues := RV ht\<rparr>)"
    using sigHash_value [OF assms] by metis
  let ?V = "\<lambda>ht s k. snd (s_verify S (vm\<lparr>sigHashReusedValues := RV ht\<rparr>) (digest (tx vm) (txIdx vm) ht) s k)"
  show ?thesis
    by (rule exI [of _ RV], rule exI [of _ ?V])
      (use RV verify_value verify_inv verify_core in \<open>auto simp: core_upd prod_eq_iff\<close>)
qed

lemma trySig_pure:
  assumes "inv vm"
  shows "rmap (\<lambda>(b, v, i). (b, core v, i)) (trySig S vm info pk) = trySig P (core vm) info pk \<and>
    ret (trySig S vm info pk) (\<lambda>(b, v, i). inv v)"
proof -
  obtain RV V where h: "\<forall>ht. IsStandardSigHashType ht \<longrightarrow>
      s_sigHash S (tx vm) (txIdx vm) ht (sigHashReusedValues vm) = Inr (digest (tx vm) (txIdx vm) ht, RV ht) \<and>
      inv (vm\<lparr>sigHashReusedValues := RV ht\<rparr>) \<and>
      (\<forall>s k. s_verify S (vm\<lparr>sigHashReusedValues := RV ht\<rparr>) (digest (tx vm) (txIdx vm) ht) s k =
          (verifies k (digest (tx vm) (txIdx vm) ht) s, V ht s k) \<and> inv (V ht s k) \<and> core (V ht s k) = core vm)"
    using hash_verify_fun [OF assms] by blast
  have f: "tx (core vm) = tx vm" "txIdx (core vm) = txIdx vm" by (simp_all add: core_def)
  show ?thesis
    using assms
    by (cases "IsStandardSigHashType (psi_signature info ! (length (psi_signature info) - 1))")
      (auto simp: trySig_def Let_def h sigHash_error pure_sigHash f check_length check_key rmap_rbind rbind_assoc rbind_if
        ret_simps split: option.split)
qed

lemma checkSig_popped_pure:
  assumes "inv vm"
  shows "rmap core (checkSig_popped S pk sig vm) = checkSig_popped P pk sig (core vm) \<and>
    ret (checkSig_popped S pk sig vm) inv"
proof -
  obtain RV V where h: "\<forall>ht. IsStandardSigHashType ht \<longrightarrow>
      s_sigHash S (tx vm) (txIdx vm) ht (sigHashReusedValues vm) = Inr (digest (tx vm) (txIdx vm) ht, RV ht) \<and>
      inv (vm\<lparr>sigHashReusedValues := RV ht\<rparr>) \<and>
      (\<forall>s k. s_verify S (vm\<lparr>sigHashReusedValues := RV ht\<rparr>) (digest (tx vm) (txIdx vm) ht) s k =
          (verifies k (digest (tx vm) (txIdx vm) ht) s, V ht s k) \<and> inv (V ht s k) \<and> core (V ht s k) = core vm)"
    using hash_verify_fun [OF assms] by blast
  have push: "rmap core (pushBool b v) = pushBool b (core v)" "inv v \<Longrightarrow> ret (pushBool b v) inv" for b v
    by (simp_all add: pushBool_def core_def)
  show ?thesis
    using assms
    by (auto simp: checkSig_popped_def Let_def h pure_sigHash core_fields(5,6) [OF core_core(1)] core_upd check_length check_key rmap_rbind rbind_assoc
        rbind_if push ret_simps split: option.split)
qed

lemma checkSig_pure:
  assumes "inv vm"
  shows "rmap core (checkSig_with S op vm) = checkSig_with P op (core vm) \<and> ret (checkSig_with S op vm) inv"
proof -
  have p: "popBytes (core vm) = rmap (\<lambda>(x, v). (x, core v)) (popBytes vm)" for vm
    by (simp add: popBytes_def pop_with_def rmap_rbind core_def split_def)
  have i: "ret (popBytes vm) (\<lambda>(x, v). inv v)" if "inv vm" for vm
    using that by (simp add: popBytes_def pop_with_def ret_simps)
  have "rmap core (rbind (popBytes v) (\<lambda>(sig, v). checkSig_popped S pk sig v)) =
       rbind (popBytes (core v)) (\<lambda>(sig, v). checkSig_popped P pk sig v) \<and>
     ret (rbind (popBytes v) (\<lambda>(sig, v). checkSig_popped S pk sig v)) inv" if "inv v" for v pk
    using i [OF that] checkSig_popped_pure
    by (cases "popBytes v") (auto simp: p rmap_rbind)
  with i [OF assms] show ?thesis
    by (cases "popBytes vm") (auto simp: checkSig_with_def p rmap_rbind)
qed

lemma multiSig_loop_pure:
  "inv vm \<Longrightarrow> rmap (\<lambda>(b, v). (b, core v)) (multiSig_loop S pks vm sigs si ns ki n) = multiSig_loop P pks (core vm) sigs si ns ki n \<and>
   ret (multiSig_loop S pks vm sigs si ns ki n) (\<lambda>(b, v). inv v)"
proof (induction n arbitrary: vm sigs si ns ki)
  case (Suc n)
  show ?case
  proof (cases "0 < ns \<and> ns \<le> n \<and> si < length sigs \<and> ki < length pks")
    case True
    note t = trySig_pure [OF Suc.prems, of "sigs ! si" "pks ! ki"]
    show ?thesis
    proof (cases "trySig S vm (sigs ! si) (pks ! ki)")
      case (Inl err)
      with t have "trySig P (core vm) (sigs ! si) (pks ! ki) = Inl err" by (metis map_sum.simps(1) id_apply)
      with Inl True show ?thesis by simp
    next
      case (Inr r)
      obtain b v i where r: "r = (b, v, i)" by (cases r)
      with t Inr have "trySig P (core vm) (sigs ! si) (pks ! ki) = Inr (b, core v, i)" "inv v" by auto
      with True Inr r Suc.IH [OF \<open>inv v\<close>] show ?thesis by (auto simp: Let_def)
    qed
  qed (use Suc.prems in auto)
qed simp

lemma popN_core: "popN n (core vm) = rmap (\<lambda>(xs, v). (xs, core v)) (popN n vm)"
proof (induction n arbitrary: vm)
  case (Suc n)
  have p: "popBytes (core vm) = rmap (\<lambda>(x, v). (x, core v)) (popBytes vm)" for vm
    by (simp add: popBytes_def pop_with_def rmap_rbind core_def split_def)
  show ?case by (cases "popBytes vm") (auto simp: p Suc rmap_rbind split_def rbind_def split: sum.split)
qed simp

lemma popN_inv: "inv vm \<Longrightarrow> ret (popN n vm) (\<lambda>(xs, v). inv v)"
proof (induction n arbitrary: vm)
  case (Suc n)
  then have "ret (popN n (vm\<lparr>dstack := s\<rparr>)) (\<lambda>(xs, v). inv v)" for s by simp
  then show ?case by (simp add: popBytes_def pop_with_def ret_simps split_def)
qed simp

lemma refines_seq:
  assumes "m' = rmap (\<lambda>(x, v). (x, core v)) m" "ret m (\<lambda>(x, v). inv v)"
    "\<And>x v. inv v \<Longrightarrow> refines inv (f (x, v)) (g (x, core v))"
  shows "refines inv (rbind m f) (rbind m' g)"
  using assms by (cases m) (auto simp: refines_def)

lemma checkMultiSig_pure:
  assumes "inv vm"
  shows "refines inv (checkMultiSig_with S op vm) (checkMultiSig_with P op (core vm))"
proof -
  have p: "popInt (core vm) = rmap (\<lambda>(x, v). (x, core v)) (popInt vm)" for vm
    by (simp add: popInt_def pop_with_def rmap_rbind core_def split_def)
  have i: "ret (popInt vm) (\<lambda>(x, v). inv v)" if "inv vm" for vm
    using that by (simp add: popInt_def pop_with_def ret_simps)
  have push: "refines inv (pushBool b v) (pushBool b (core v))" if "inv v" for b v
    using that by (simp add: pushBool_def core_def refines_def)
  have n: "numOps (core v) = numOps v" "(core v)\<lparr>numOps := k\<rparr> = core (v\<lparr>numOps := k\<rparr>)" for v k
    by (simp_all add: core_def)
  have err: "refines inv (scriptError c) (scriptError c)" for c by (simp add: refines_def)
  have ite: "refines inv (if b then m1 else m2) (if b then m1' else m2')"
    if "b \<Longrightarrow> refines inv m1 m1'" "\<not> b \<Longrightarrow> refines inv m2 m2'" for b m1 m2 m1' m2'
    using that by simp
  have loop: "multiSig_loop P pks (core v) sigs si ns ki k = rmap (\<lambda>(b, v). (b, core v)) (multiSig_loop S pks v sigs si ns ki k)"
    "ret (multiSig_loop S pks v sigs si ns ki k) (\<lambda>(b, v). inv v)" if "inv v" for v pks sigs si ns ki k
    using multiSig_loop_pure [OF that] by metis+
  show ?thesis
    unfolding checkMultiSig_with_def Let_def
    by (rule refines_seq [OF p i [OF assms]], unfold prod.case n, intro ite err,
        rule refines_seq [OF popN_core popN_inv], simp, unfold prod.case,
        rule refines_seq [OF p i], assumption, unfold prod.case, intro ite err,
        rule refines_seq [OF popN_core popN_inv], assumption, unfold prod.case,
        rule refines_seq [OF loop], assumption, assumption, unfold prod.case, intro ite err push, assumption)
qed

text \<open>On well-formed signatures and keys the loop of the multi-signature check finds a matching.\<close>

lemma trySig_value:
  assumes "sig_wf sig" "info_ok S info sig" "length pk = keySize"
  obtains info' where
    "trySig P w info pk = Inr (sig_valid S verifies (digest (tx w) (txIdx w)) sig pk, w, info')" "info_ok S info' sig"
proof -
  have ne: "sig \<noteq> []" "length sig = 65" using assms(1) by (auto simp: sig_wf_def)
  have l: "sig ! 64 = last sig" "take 64 sig = butlast sig"
    using last_conv_nth [OF ne(1)] butlast_conv_take [of sig] by (simp_all add: ne)
  note l = l ne
  have "\<exists>info'. trySig P w info pk = Inr (sig_valid S verifies (digest (tx w) (txIdx w)) sig pk, w, info') \<and> info_ok S info' sig"
    using assms l
    by (auto simp: trySig_def Let_def info_ok_def sig_wf_def sig_valid_def pure_sigHash check_length check_key split: option.split)
  with that show ?thesis by blast
qed

lemma multiSig_loop_matches:
  "list_all2 (info_ok S) infos sigs \<Longrightarrow> (\<forall>s \<in> set sigs. sig_wf s) \<Longrightarrow> (\<forall>k \<in> set pks. length k = keySize) \<Longrightarrow>
   si \<le> length sigs \<Longrightarrow> ki \<le> length pks \<Longrightarrow> n = Suc (length pks - ki) \<Longrightarrow>
   multiSig_loop P pks w infos si (length sigs - si) ki n =
     Inr (matches (sig_valid S verifies (digest (tx w) (txIdx w))) (drop si sigs) (drop ki pks), w)"
proof (induction n arbitrary: infos si ki)
  case (Suc n)
  let ?v = "sig_valid S verifies (digest (tx w) (txIdx w))"
  consider "si = length sigs" | "length pks - ki < length sigs - si" "si < length sigs"
    | "si < length sigs" "length sigs - si \<le> length pks - ki" using Suc.prems by linarith
  then show ?case
  proof cases
    case 2
    then have "\<not> matches ?v (drop si sigs) (drop ki pks)" using matches_length by fastforce
    with 2 Suc.prems show ?thesis by simp
  next
    case 3
    then have k: "ki < length pks" by linarith
    have w: "sig_wf (sigs ! si)" "info_ok S (infos ! si) (sigs ! si)" "length (pks ! ki) = keySize" "length infos = length sigs"
      using Suc.prems 3 k by (auto simp: list_all2_conv_all_nth)
    obtain info' where t: "trySig P w (infos ! si) (pks ! ki) = Inr (?v (sigs ! si) (pks ! ki), w, info')" "info_ok S info' (sigs ! si)"
      using trySig_value [OF w(1-3)] by blast
    have i: "list_all2 (info_ok S) (infos[si := info']) sigs"
      using Suc.prems(1) t(2) w(4) 3(1) by (auto simp: list_all2_conv_all_nth nth_list_update)
    have d: "drop si sigs = sigs ! si # drop (Suc si) sigs" "drop ki pks = pks ! ki # drop (Suc ki) pks"
      using 3 k by (simp_all add: Cons_nth_drop_Suc)
    have n: "n = Suc (length pks - Suc ki)" using Suc.prems k by linarith
    have ih: "multiSig_loop P pks w (infos[si := info']) si' (length sigs - si') (Suc ki) n =
       Inr (matches ?v (drop si' sigs) (drop (Suc ki) pks), w)" if "si' \<le> length sigs" for si'
      using Suc.IH [OF i Suc.prems(2,3) that _ n] k by simp
    show ?thesis
    proof (cases "?v (sigs ! si) (pks ! ki)")
      case True
      have l: "length sigs - si - 1 = length sigs - Suc si" by simp
      from True 3 k w t n Suc.prems ih [of "Suc si"] show ?thesis by (simp add: d Let_def)
    next
      case False
      with 3 k w t n Suc.prems ih [of si] show ?thesis by (simp add: Let_def d)
    qed
  qed (use Suc.prems in simp)
qed simp

lemma checkMultiSig_matches:
  assumes st: "dstack w = base @ rev sigs @ ns # rev pks @ [nk]" "length (dstack w) \<le> 1000"
    and num: "scriptNum_Bytes (int (length sigs)) = Inr ns" "scriptNum_Bytes (int (length pks)) = Inr nk"
    and len: "length pks \<le> 20" "length sigs \<le> length pks" "numOps w + int (length pks) \<le> MaxOpsPerScript"
    and wf: "\<forall>s \<in> set sigs. sig_wf s" "\<forall>k \<in> set pks. length k = keySize"
  shows "checkMultiSig_with P op w =
    (if matches (sig_valid S verifies (digest (tx w) (txIdx w))) sigs pks
     then Inr (w\<lparr>dstack := base @ [[1]], numOps := numOps w + int (length pks)\<rparr>) else scriptError ErrNullFail)"
proof -
  let ?v = "sig_valid S verifies (digest (tx w) (txIdx w))"
  let ?n = "numOps w + int (length pks)"
  have i32: "scriptNum_Int32 (int (length pks)) = int (length pks)" "scriptNum_Int32 (int (length sigs)) = int (length sigs)"
    using len by (intro scriptNum_Int32_small; simp)+
  have p1: "popInt w = Inr (int (length pks), w\<lparr>dstack := base @ rev sigs @ ns # rev pks\<rparr>)"
    using st num(2) len(1) by (intro popInt_num) (simp_all add: small_def)
  have p2: "popN (length pks) (w\<lparr>dstack := base @ rev sigs @ ns # rev pks, numOps := ?n\<rparr>) =
      Inr (pks, w\<lparr>dstack := base @ rev sigs @ [ns], numOps := ?n\<rparr>)"
    using popN_rev [of "base @ rev sigs @ [ns]" pks "w\<lparr>dstack := base @ rev sigs @ ns # rev pks, numOps := ?n\<rparr>"] st
    by (simp add: small_def)
  have p3: "popInt (w\<lparr>dstack := base @ rev sigs @ [ns], numOps := ?n\<rparr>) =
      Inr (int (length sigs), w\<lparr>dstack := base @ rev sigs, numOps := ?n\<rparr>)"
    using popInt_num [of "base @ rev sigs" ns "w\<lparr>dstack := base @ rev sigs @ [ns], numOps := ?n\<rparr>"] st num(1) len
    by (simp add: small_def)
  have p4: "popN (length sigs) (w\<lparr>dstack := base @ rev sigs, numOps := ?n\<rparr>) =
      Inr (sigs, w\<lparr>dstack := base, numOps := ?n\<rparr>)"
    using popN_rev [of base sigs "w\<lparr>dstack := base @ rev sigs, numOps := ?n\<rparr>"] st by (simp add: small_def)
  let ?infos = "map (\<lambda>signature. \<lparr>psi_signature = signature, psi_parsedSignature = None, psi_parsed = False\<rparr>) sigs"
  have "list_all2 (info_ok S) ?infos sigs" by (simp add: list_all2_conv_all_nth info_ok_def)
  from multiSig_loop_matches [OF this wf, of 0 0 _ "w\<lparr>dstack := base, numOps := ?n\<rparr>"]
  have l: "multiSig_loop P pks (w\<lparr>dstack := base, numOps := ?n\<rparr>) ?infos 0 (length sigs) 0 (Suc (length pks)) =
      Inr (matches ?v sigs pks, w\<lparr>dstack := base, numOps := ?n\<rparr>)" by simp
  have ne: "\<exists>s \<in> set sigs. s \<noteq> []" if "\<not> matches ?v sigs pks"
    using that wf(1) by (cases sigs) (auto simp: sig_wf_def)
  show ?thesis
    using len ne
    by (auto simp: checkMultiSig_with_def p1 p2 p3 p4 l i32 Let_def MaxPubKeysPerMultiSig_def pushBool_def PushBool_def
      PushByteArray_def fromBool_def simp del: multiSig_loop.simps)
qed

end

section \<open>The schemes of the engine\<close>

definition schnorr_digest :: "crypto \<Rightarrow> DomainTransaction \<Rightarrow> nat \<Rightarrow> SigHashType \<Rightarrow> DomainHash" where
  "schnorr_digest C t i ht =
     signing_hash (hashes C) (sig_preimage (hashes C) t i (Inputs t ! i) (the (in_UTXOEntry (Inputs t ! i))) ht)"

definition ecdsa_digest :: "crypto \<Rightarrow> DomainTransaction \<Rightarrow> nat \<Rightarrow> SigHashType \<Rightarrow> DomainHash" where
  "ecdsa_digest C t i ht =
     Finalize (InfallibleWrite (NewTransactionSigningHashECDSAWriter (hashes C)) (schnorr_digest C t i ht))"

text \<open>
  An engine whose caches hold only signatures that verify and whose reused values belong to its
  transaction.
\<close>

definition sound :: "crypto \<Rightarrow> Engine \<Rightarrow> bool" where
  "sound C vm \<longleftrightarrow> has_entry vm \<and> reuse_ok (hashes C) (tx vm) (sigHashReusedValues vm) \<and>
     (\<forall>c. sigCache vm = Some c \<longrightarrow> holds_only Exists (SchnorrVerify C) c) \<and>
     (\<forall>c. sigCacheECDSA vm = Some c \<longrightarrow> holds_only ExistsECDSA (ECDSAVerify C) c)"

lemma sound_schnorr_hash:
  assumes "sound C vm" "IsStandardSigHashType ht"
  shows "\<exists>rv. CalculateSignatureHashSchnorr (hashes C) (tx vm) (txIdx vm) ht (sigHashReusedValues vm) =
      Inr (schnorr_digest C (tx vm) (txIdx vm) ht, rv) \<and> reuse_ok (hashes C) (tx vm) rv"
proof -
  from assms(1) obtain e where e: "txIdx vm < length (Inputs (tx vm))" "in_UTXOEntry (Inputs (tx vm) ! txIdx vm) = Some e"
    by (auto simp: sound_def has_entry_def)
  obtain h rv where "CalculateSignatureHashSchnorr (hashes C) (tx vm) (txIdx vm) ht (sigHashReusedValues vm) = Inr (h, rv)"
    using CalculateSignatureHashSchnorr_ex [OF assms(2) e] by blast
  with CalculateSignatureHashSchnorr_value [OF _ this e(2)] assms(1) e(2) show ?thesis
    by (auto simp: sound_def schnorr_digest_def)
qed

lemma sound_verify:
  assumes "sound C vm"
  shows "fst (verifySchnorr C vm h s k) = SchnorrVerify C k h s" "sound C (snd (verifySchnorr C vm h s k))"
    "fst (verifyECDSA C vm h s k) = ECDSAVerify C k h s" "sound C (snd (verifyECDSA C vm h s k))"
  using assms schnorr_cache.sound_exists [of "SchnorrVerify C"] schnorr_cache.sound_add [of "SchnorrVerify C"]
    ecdsa_cache.sound_exists [of "ECDSAVerify C"] ecdsa_cache.sound_add [of "ECDSAVerify C"]
  by (auto simp: verifySchnorr_def verifyECDSA_def sound_def has_entry_def split: option.split)

lemma sound_upd [simp]:
  "sound C (vm\<lparr>dstack := st\<rparr>) = sound C vm" "sound C (vm\<lparr>numOps := n\<rparr>) = sound C vm"
  by (simp_all add: sound_def has_entry_def)

lemma sound_reuse: "sound C vm \<Longrightarrow> reuse_ok (hashes C) (tx vm) rv \<Longrightarrow> sound C (vm\<lparr>sigHashReusedValues := rv\<rparr>)"
  by (simp add: sound_def has_entry_def)

lemma sound_ecdsa_hash:
  assumes "sound C vm" "IsStandardSigHashType ht"
  shows "\<exists>rv. CalculateSignatureHashECDSA (hashes C) (tx vm) (txIdx vm) ht (sigHashReusedValues vm) =
      Inr (ecdsa_digest C (tx vm) (txIdx vm) ht, rv) \<and> reuse_ok (hashes C) (tx vm) rv"
  using sound_schnorr_hash [OF assms] by (auto simp: CalculateSignatureHashECDSA_def ecdsa_digest_def)

lemma sighash_nonstandard:
  "\<not> IsStandardSigHashType ht \<Longrightarrow> CalculateSignatureHashSchnorr H t i ht rv = Inl (Err (InvalidSigHashType ht))"
  "\<not> IsStandardSigHashType ht \<Longrightarrow> CalculateSignatureHashECDSA H t i ht rv = Inl (Err (InvalidSigHashType ht))"
  by (simp_all add: CalculateSignatureHashSchnorr_def CalculateSignatureHashECDSA_def)

interpretation schnorr_ok: correct_scheme "schnorr C" "sound C" "SchnorrVerify C" "schnorr_digest C" 32 for C
  by unfold_locales
    (use sound_schnorr_hash sound_reuse in \<open>fastforce simp: schnorr_def sound_verify checkSignatureLength_def
      checkPubKeyEncoding_def sighash_nonstandard\<close>)+

interpretation ecdsa_ok: correct_scheme "ecdsa C" "sound C" "ECDSAVerify C" "ecdsa_digest C" 33 for C
  by unfold_locales
    (use sound_ecdsa_hash sound_reuse in \<open>fastforce simp: ecdsa_def sound_verify checkSignatureLengthECDSA_def
      checkPubKeyEncodingECDSA_def sighash_nonstandard\<close>)+

end
