(* ===== verification/Cache_Free_Runs.thy ===== *)
theory Cache_Free_Runs
  imports Signature_Checks
begin

text \<open>
  Whole runs of the engine and its caches: the steps of two engines that differ only in their caches
  and reused hash values give outcomes that differ only there, so \<^verbatim>\<open>Execute\<close> does not depend on them.
\<close>

section \<open>Runs do not depend on the caches\<close>

lemma sound_with_caches:
  assumes "sound C vm" "fixed vm' = fixed vm"
  shows "sound C (with_caches (sigCache vm) (sigCacheECDSA vm) (sigHashReusedValues vm) vm')"
  using assms fixed_fields [OF assms(2)] by (simp add: sound_def has_entry_def with_caches_def)

lemma sound_core: "sound C vm \<Longrightarrow> sound C (core vm)"
  by (simp add: sound_def has_entry_def core_def with_caches_def reuse_ok_empty)

lemma core_restore: "with_caches (sigCache vm) (sigCacheECDSA vm) (sigHashReusedValues vm) (core vm) = vm"
  by (simp add: core_def with_caches_def)

lemma core_with_caches [simp]: "core (with_caches a b r vm) = core vm"
  by (simp add: core_def with_caches_def)

lemma core_idem [simp]: "core (core vm) = core vm"
  by (simp add: core_def with_caches_def)

lemma fixed_core: "fixed (core vm) = fixed vm"
  by (simp add: fixed_def core_def)

text \<open>\<open>tracks C m m'\<close>: the two outcomes are the same up to the caches, and the first one is sound.\<close>

definition tracks :: "crypto \<Rightarrow> Engine script_result \<Rightarrow> Engine script_result \<Rightarrow> bool" where
  "tracks C m m' \<longleftrightarrow> rmap core m = rmap core m' \<and> ret m (sound C)"

lemma tracks_plain:
  assumes "\<And>a b r v. h (with_caches a b r v) = rmap (with_caches a b r) (h v)" "\<And>v. ret (h v) (\<lambda>v'. fixed v' = fixed v)" "sound C vm"
  shows "tracks C (h vm) (h (core vm))"
proof -
  let ?w = "with_caches (sigCache vm) (sigCacheECDSA vm) (sigHashReusedValues vm)"
  have h: "h vm = rmap ?w (h (core vm))" using assms(1) [of _ _ _ "core vm"] by (metis core_restore)
  have "sound C (?w v)" if "h (core vm) = Inr v" for v
    using sound_with_caches [OF assms(3)] retD [OF assms(2) that] by (simp add: fixed_core)
  with h show ?thesis by (cases "h (core vm)") (auto simp: tracks_def)
qed

lemma tracks_seq:
  assumes "tracks C m m'" "\<And>v. sound C v \<Longrightarrow> tracks C (f v) (f (core v))"
    and "ret m' (sound C)"
  shows "tracks C (rbind m f) (rbind m' f)"
proof (cases m)
  case (Inl err)
  with assms(1) show ?thesis by (cases m') (auto simp: tracks_def)
next
  case (Inr v)
  with assms(1) obtain v' where v': "m' = Inr v'" "core v = core v'" "sound C v" by (cases m') (auto simp: tracks_def)
  with assms(3) have "sound C v'" by simp
  from assms(2) [OF v'(3)] assms(2) [OF this] v'(2) Inr v'(1) show ?thesis by (simp add: tracks_def)
qed

lemma tracks_refl: "sound C vm \<Longrightarrow> tracks C (Inr vm) (Inr (core vm))" "tracks C (Inl err) (Inl err)"
  by (simp_all add: tracks_def)

lemma tracks_pure:
  assumes "\<And>v. sound C v \<Longrightarrow> rmap core (h v) = g (core v) \<and> ret (h v) (sound C)" "sound C vm"
  shows "tracks C (h vm) (h (core vm))"
  using assms(1) [OF assms(2)] assms(1) [OF sound_core [OF assms(2)]] by (simp add: tracks_def)

lemma tracks_then_verify:
  assumes "\<And>v. sound C v \<Longrightarrow> tracks C (h v) (h (core v))" "sound C vm"
  shows "tracks C (rbind (h vm) (\<lambda>v. abstractVerify op v c)) (rbind (h (core vm)) (\<lambda>v. abstractVerify op v c))"
proof (rule tracks_seq)
  show "tracks C (h vm) (h (core vm))" using assms by blast
  show "ret (h (core vm)) (sound C)" using assms(1) [OF sound_core [OF assms(2)]] by (simp add: tracks_def)
  show "tracks C (abstractVerify op v c) (abstractVerify op (core v) c)" if "sound C v" for v
    using that
    by (intro tracks_plain) (simp_all add: abstractVerify_def pop_push_defs rmap_rbind rmap_if split_def ret_simps rbind_assoc cong: if_cong)
qed

lemma call_opfunc_tracks:
  assumes "sound C vm"
  shows "tracks C (call_opfunc C f op vm) (call_opfunc C f op (core vm))"
proof -
  note defs = opcodeCheckSig_def opcodeCheckSigECDSA_def opcodeCheckSigVerify_def
    opcodeCheckMultiSig_def opcodeCheckMultiSigECDSA_def opcodeCheckMultiSigVerify_def
  have s: "tracks C (checkSig_with (schnorr C) op v) (checkSig_with (schnorr C) op (core v))"
    "tracks C (checkSig_with (ecdsa C) op v) (checkSig_with (ecdsa C) op (core v))"
    "tracks C (checkMultiSig_with (schnorr C) op v) (checkMultiSig_with (schnorr C) op (core v))"
    "tracks C (checkMultiSig_with (ecdsa C) op v) (checkMultiSig_with (ecdsa C) op (core v))" if "sound C v" for v
    using that schnorr_ok.checkSig_pure ecdsa_ok.checkSig_pure schnorr_ok.checkMultiSig_pure ecdsa_ok.checkMultiSig_pure
    unfolding refines_def by (blast intro: tracks_pure)+
  show ?thesis
  proof (cases "f \<in> {f_opcodeCheckSig, f_opcodeCheckSigECDSA, f_opcodeCheckSigVerify, f_opcodeCheckMultiSig,
    f_opcodeCheckMultiSigECDSA, f_opcodeCheckMultiSigVerify}")
    case True
    then show ?thesis
      by (elim insertE emptyE) (use assms s in \<open>auto simp: defs intro: tracks_then_verify\<close>)
  next
    case False
    show ?thesis
      by (rule tracks_plain [OF call_opfunc_with_caches [OF False] fixed_call_opfunc assms])
  qed
qed

lemma core_isBranchExecuting [simp]: "isBranchExecuting (core vm) = isBranchExecuting vm"
  by (simp add: isBranchExecuting_def core_def)

lemma executeOpcode_tracks:
  assumes "sound C vm"
  shows "tracks C (executeOpcode C pop vm) (executeOpcode C pop (core vm))"
proof -
  have n: "numOps (core v) = numOps v" "(core v)\<lparr>numOps := k\<rparr> = core (v\<lparr>numOps := k\<rparr>)" for v k
    by (simp_all add: core_def)
  have m: "checkMinimalDataPush pop = Inr () \<or> (\<exists>err. checkMinimalDataPush pop = Inl err)"
    by (cases "checkMinimalDataPush pop") auto
  have b: "isBranchExecuting (vm\<lparr>numOps := k\<rparr>) = isBranchExecuting vm" for k by (simp add: isBranchExecuting_def)
  show ?thesis
    using m assms
    by (auto simp: executeOpcode_def Let_def n b tracks_refl call_opfunc_tracks)
qed

text \<open>The steps and the whole run.\<close>

definition tracks2 :: "crypto \<Rightarrow> (bool \<times> Engine) script_result \<Rightarrow> (bool \<times> Engine) script_result \<Rightarrow> bool" where
  "tracks2 C m m' \<longleftrightarrow> rmap (apsnd core) m = rmap (apsnd core) m' \<and> ret m (\<lambda>(d, v). sound C v)"

lemma CheckErrorCondition_with_caches:
  "CheckErrorCondition (with_caches a b r vm) fin = rmap (with_caches a b r) (CheckErrorCondition vm fin)"
  by (simp add: CheckErrorCondition_def popBool_def pop_with_def rmap_rbind rmap_if rbind_assoc split_def cong: if_cong)

lemma nextScript_with_caches: "nextScript (with_caches a b r vm) = rmap (with_caches a b r) (nextScript vm)"
  unfolding nextScript_def Let_def
  by (simp add: CheckErrorCondition_with_caches GetStack_def SetStack_def rmap_rbind rbind_rmap rmap_if cong: if_cong)

lemma endScript_with_caches: "endScript (with_caches a b r vm) = rmap (apsnd (with_caches a b r)) (endScript vm)"
  unfolding endScript_def Let_def
  by (simp add: nextScript_with_caches rmap_rbind rbind_rmap rmap_if cong: if_cong)
    (auto simp: fun_eq_iff intro!: arg_cong [where f = "rbind _"])

lemma CheckErrorCondition_tx: "ret (CheckErrorCondition vm fin) (\<lambda>v. tx v = tx vm \<and> txIdx v = txIdx vm)"
  by (simp add: CheckErrorCondition_def popBool_def pop_with_def ret_simps)

lemma endScript_tx: "ret (endScript vm) (\<lambda>(d, v). tx v = tx vm \<and> txIdx v = txIdx vm)"
proof -
  have "ret (nextScript vm) (\<lambda>v. tx v = tx vm \<and> txIdx v = txIdx vm)" for vm
    using CheckErrorCondition_tx [of "vm\<lparr>scriptIdx := scriptIdx vm + 1\<rparr>" False]
    by (auto simp: nextScript_def Let_def ret_simps SetStack_def elim!: ret_mono intro: ret_mono [OF ret_basic(3)])
  from this [of "vm\<lparr>astack := dropAll (astack vm), numOps := 0, scriptOff := 0\<rparr>"] show ?thesis
    by (auto simp: endScript_def Let_def ret_simps elim!: ret_mono)
qed

lemma tracks2_endScript:
  assumes "sound C vm"
  shows "tracks2 C (endScript vm) (endScript (core vm))"
proof -
  let ?w = "with_caches (sigCache vm) (sigCacheECDSA vm) (sigHashReusedValues vm)"
  have e: "endScript vm = rmap (apsnd ?w) (endScript (core vm))"
    using endScript_with_caches [of _ _ _ "core vm"] by (metis core_restore)
  have "sound C (?w v)" if "endScript (core vm) = Inr (d, v)" for d v
    using retD [OF endScript_tx that] assms by (simp add: sound_def has_entry_def with_caches_def core_def)
  with e show ?thesis by (cases "endScript (core vm)") (auto simp: tracks2_def)
qed

lemma tracks2_seq:
  assumes "tracks C m m'" "\<And>v. sound C v \<Longrightarrow> tracks2 C (f v) (f (core v))"
    and "ret m' (sound C)"
  shows "tracks2 C (rbind m f) (rbind m' f)"
proof (cases m)
  case (Inl err)
  with assms(1) show ?thesis by (cases m') (auto simp: tracks_def tracks2_def)
next
  case (Inr v)
  with assms(1) obtain v' where v': "m' = Inr v'" "core v = core v'" "sound C v" by (cases m') (auto simp: tracks_def)
  with assms(3) have "sound C v'" by simp
  from assms(2) [OF v'(3)] assms(2) [OF this] v'(2) Inr v'(1) show ?thesis by (simp add: tracks2_def)
qed

lemma Step_tracks:
  assumes "sound C vm"
  shows "tracks2 C (Step C vm) (Step C (core vm))"
proof -
  have c: "validPC (core vm) = validPC vm" by (simp add: validPC_def core_def)
  let ?o = "scripts vm ! scriptIdx vm ! scriptOff vm" and ?v = "vm\<lparr>scriptOff := scriptOff vm + 1\<rparr>"
  have s: "sound C ?v" using assms by (simp add: sound_def has_entry_def)
  have f: "(core vm)\<lparr>scriptOff := Suc (scriptOff (core vm))\<rparr> = core (vm\<lparr>scriptOff := Suc (scriptOff vm)\<rparr>)"
    "scripts (core vm) ! scriptIdx (core vm) ! scriptOff (core vm) = ?o" by (simp_all add: core_def)
  let ?f = "\<lambda>vm. let combinedStackSize = Depth (dstack vm) + Depth (astack vm)
           in if combinedStackSize > MaxStackSize then scriptError ErrStackOverflow
              else if scriptOff vm \<ge> length (scripts vm ! scriptIdx vm) then endScript vm
              else Inr (False, vm)"
  have "tracks2 C (?f v) (?f (core v))" if "sound C v" for v
    using that tracks2_endScript [OF that]
    by (auto simp: Let_def core_fields [OF core_idem] tracks2_def)
  with executeOpcode_tracks [OF s] executeOpcode_tracks [OF sound_core [OF s]]
  have "tracks2 C (rbind (executeOpcode C ?o ?v) ?f) (rbind (executeOpcode C ?o (core ?v)) ?f)"
    by (intro tracks2_seq) (auto simp: tracks_def)
  then show ?thesis
    by (cases "validPC vm") (simp_all add: Step_def c f Let_def tracks2_def)
qed

lemma Step_tracks_pair:
  assumes "sound C vm" "sound C vm'" "core vm = core vm'"
  shows "tracks2 C (Step C vm) (Step C vm')"
  using Step_tracks [OF assms(1)] Step_tracks [OF assms(2)] assms(3) by (simp add: tracks2_def)

lemma run_tracks: "sound C vm \<Longrightarrow> sound C vm' \<Longrightarrow> core vm = core vm' \<Longrightarrow> tracks C (run C vm) (run C vm')"
proof (induction C vm arbitrary: vm' rule: run.induct)
  case (1 C vm)
  note t = Step_tracks_pair [OF 1(2-4)]
  note t' = Step_tracks_pair [OF 1(3) 1(2) 1(4) [symmetric]]
  note r = run.simps [of C vm] run.simps [of C vm']
  show ?case
  proof (cases "Step C vm")
    case (Inl err)
    with t show ?thesis by (cases "Step C vm'") (auto simp: r tracks2_def tracks_def)
  next
    case (Inr dv)
    then obtain d v where dv: "Step C vm = Inr (d, v)" by (cases dv) auto
    with t obtain v' where v': "Step C vm' = Inr (d, v')" "core v = core v'" "sound C v"
      by (cases "Step C vm'") (auto simp: tracks2_def)
    from t' v'(1) have s: "sound C v'" by (simp add: tracks2_def)
    show ?thesis
    proof (cases d)
      case True
      with dv v' show ?thesis by (simp add: r tracks_def)
    next
      case False
      from 1(1) [OF dv refl False v'(3) s v'(2)] False show ?thesis by (simp only: r dv v'(1) rbind_simps prod.case if_False)
    qed
  qed
qed

lemma Execute_core:
  assumes "sound C vm" "sound C vm'" "core vm = core vm'"
  shows "Execute C vm = Execute C vm'"
proof -
  have c: "rmap (\<lambda>_. ()) (CheckErrorCondition v True) = rmap (\<lambda>_. ()) (CheckErrorCondition v' True)" if "core v = core v'" for v v'
    using core_fields [OF that]
    by (simp add: CheckErrorCondition_def popBool_def pop_with_def rmap_rbind rmap_if rbind_assoc split_def cong: if_cong)
  have e: "rbind m (\<lambda>_. Inr ()) = rmap (\<lambda>_. ()) m" for m :: "Engine script_result" by (cases m) auto
  let ?k = "\<lambda>v. rmap (\<lambda>_. ()) (CheckErrorCondition v True)"
  have t: "rmap core (run C vm) = rmap core (run C vm')" using run_tracks [OF assms] by (simp only: tracks_def)
  have "rbind (run C vm) ?k = rbind (run C vm') ?k"
  proof (cases "run C vm")
    case (Inl err)
    with t have "run C vm' = Inl err" by (cases "run C vm'") simp_all
    with Inl show ?thesis by simp
  next
    case (Inr v)
    with t obtain v' where v': "run C vm' = Inr v'" "core v = core v'" by (cases "run C vm'") simp_all
    show ?thesis by (simp only: Inr v'(1) rbind_simps c [OF v'(2)])
  qed
  then show ?thesis using core_fields(13) [OF assms(3)] by (simp add: Execute_def e)
qed

section \<open>Properties\<close>

lemma NewEngine_sound:
  assumes "NewEngine spk t idx fl c ce rv = Inr vm" "in_UTXOEntry (Inputs t ! nat idx) \<noteq> None" "spk_Version spk = 0"
    and "reuse_ok (hashes C) t rv" "\<forall>x. c = Some x \<longrightarrow> holds_only Exists (SchnorrVerify C) x"
    and "\<forall>x. ce = Some x \<longrightarrow> holds_only ExistsECDSA (ECDSAVerify C) x"
  shows "sound C vm"
  using assms(1)
proof (cases rule: NewEngine_cases)
  case future
  with assms(3) show ?thesis by (simp add: MaxScriptPublicKeyVersion_def)
next
  case (run sig pk)
  with assms show ?thesis by (auto simp: sound_def has_entry_def)
qed

lemma NewEngine_core:
  "rmap core (NewEngine spk t idx fl c ce rv) = rmap core (NewEngine spk t idx fl None None emptyReusedValues)"
proof -
  have c: "core (zeroEngine\<lparr>scriptVersion := v, flags := fl, sigCache := c, sigCacheECDSA := ce\<rparr>) =
      core (zeroEngine\<lparr>scriptVersion := v, flags := fl, sigCache := None, sigCacheECDSA := None\<rparr>)" for v
    by (simp add: core_def with_caches_def)
  show ?thesis
    unfolding NewEngine_def Let_def
    by (cases "SignatureScript (Inputs t ! nat idx) = []")
      (simp_all add: rmap_rbind rmap_if rbind_if c core_def with_caches_def cong: if_cong)
qed

lemma NewEngine_caches:
  assumes "NewEngine spk t idx fl c ce rv = Inr vm"
  shows "\<exists>vm'. NewEngine spk t idx fl None None emptyReusedValues = Inr vm' \<and> core vm = core vm'"
  using NewEngine_core [of spk t idx fl c ce rv] assms
  by (cases "NewEngine spk t idx fl None None emptyReusedValues") simp_all

text \<open>
  C15: The signature caches and the reused hash values only save work.  If every signature the two
  caches hold verifies and the reused values belong to the transaction, executing the engine gives
  the same outcome, success or error, as executing it without caches and with empty reused values.
\<close>

theorem Execute_ignores_caches:
  assumes "NewEngine spk t idx fl c ce rv = Inr vm" "in_UTXOEntry (Inputs t ! nat idx) \<noteq> None"
    and "reuse_ok (hashes C) t rv" "\<forall>x. c = Some x \<longrightarrow> holds_only Exists (SchnorrVerify C) x"
    and "\<forall>x. ce = Some x \<longrightarrow> holds_only ExistsECDSA (ECDSAVerify C) x"
  shows "\<exists>vm'. NewEngine spk t idx fl None None emptyReusedValues = Inr vm' \<and> Execute C vm = Execute C vm'"
proof -
  obtain vm' where v: "NewEngine spk t idx fl None None emptyReusedValues = Inr vm'" "core vm = core vm'"
    using NewEngine_caches [OF assms(1)] by blast
  have "Execute C vm = Execute C vm'"
  proof (cases "spk_Version spk = 0")
    case True
    show ?thesis
      by (rule Execute_core [OF NewEngine_sound [OF assms(1,2) True assms(3-5)] NewEngine_sound [OF v(1) assms(2) True] v(2)])
        (simp_all add: reuse_ok_empty)
  next
    case False
    from assms(1) have "scriptVersion vm > MaxScriptPublicKeyVersion" by (cases rule: NewEngine_cases) (use False in auto)
    moreover from v(1) have "scriptVersion vm' > MaxScriptPublicKeyVersion" by (cases rule: NewEngine_cases) (use False in auto)
    ultimately show ?thesis by (simp add: Execute_def)
  qed
  with v(1) show ?thesis by blast
qed

theorem Execute_ignores_caches_witness:
  "\<exists>vm vm'. NewEngine op1_script signed_tx 0 ScriptNoFlags
       (Some (Add sample_crypto (NewSigCache 1) (replicate 32 1) (replicate 64 2) (replicate 32 2))) (Some (NewSigCacheECDSA 4))
       (emptyReusedValues\<lparr>sequencesHash := Some (signing_hash (hashes sample_crypto) (sequences_bytes signed_tx))\<rparr>) = Inr vm \<and>
     NewEngine op1_script signed_tx 0 ScriptNoFlags None None emptyReusedValues = Inr vm' \<and>
     Execute sample_crypto vm = Execute sample_crypto vm'"
proof -
  let ?c = "Add sample_crypto (NewSigCache 1) (replicate 32 1) (replicate 64 2) (replicate 32 2)"
  let ?rv = "emptyReusedValues\<lparr>sequencesHash := Some (signing_hash (hashes sample_crypto) (sequences_bytes signed_tx))\<rparr>"
  have e: "in_UTXOEntry (Inputs signed_tx ! nat 0) \<noteq> None" by (simp add: signed_tx_def)
  have r: "reuse_ok (hashes sample_crypto) signed_tx ?rv" by (simp add: reuse_ok_def emptyReusedValues_def)
  have c: "\<forall>x. Some ?c = Some x \<longrightarrow> holds_only Exists (SchnorrVerify sample_crypto) x"
    using schnorr_cache.sound_add [OF schnorr_cache.sound_new, of "SchnorrVerify sample_crypto" "replicate 32 2"]
    by (simp add: sample_crypto_def)
  have ce: "\<forall>x. Some (NewSigCacheECDSA 4) = Some x \<longrightarrow> holds_only ExistsECDSA (ECDSAVerify sample_crypto) x"
    using ecdsa_cache.sound_new by blast
  have "\<exists>vm. NewEngine op1_script signed_tx 0 ScriptNoFlags (Some ?c) (Some (NewSigCacheECDSA 4)) ?rv = Inr vm"
    using NewEngine_core [of op1_script signed_tx 0 ScriptNoFlags "Some ?c" "Some (NewSigCacheECDSA 4)" ?rv]
    by (cases "NewEngine op1_script signed_tx 0 ScriptNoFlags (Some ?c) (Some (NewSigCacheECDSA 4)) ?rv") (simp_all add: op1_engine)
  then obtain vm where vm: "NewEngine op1_script signed_tx 0 ScriptNoFlags (Some ?c) (Some (NewSigCacheECDSA 4)) ?rv = Inr vm" ..
  from Execute_ignores_caches [OF vm e r c ce] vm show ?thesis by blast
qed

text \<open>
  C14: The signature check of several signatures, \<^verbatim>\<open>OP_CHECKMULTISIG\<close>, is an order-preserving
  matching.  With well-formed signatures and keys on the stack it pushes true if there is a
  subsequence of the keys such that every signature verifies under its own key, in the order of the
  signatures, and fails with \<^verbatim>\<open>ErrNullFail\<close> otherwise; the caches make no difference.
\<close>

theorem opcodeCheckMultiSig_matches:
  assumes "sound C vm" "dstack vm = base @ rev sigs @ ns # rev pks @ [nk]" "length (dstack vm) \<le> 1000"
    and "scriptNum_Bytes (int (length sigs)) = Inr ns" "scriptNum_Bytes (int (length pks)) = Inr nk"
    and "length pks \<le> 20" "length sigs \<le> length pks" "numOps vm + int (length pks) \<le> MaxOpsPerScript"
    and "\<forall>s \<in> set sigs. sig_wf s" "\<forall>k \<in> set pks. length k = 32"
  shows "map_sum id dstack (opcodeCheckMultiSig C op vm) =
    (if \<exists>ks. subseq ks pks \<and>
          list_all2 (sig_valid (schnorr C) (SchnorrVerify C) (schnorr_digest C (tx vm) (txIdx vm))) sigs ks
     then Inr (base @ [[1]]) else scriptError ErrNullFail)"
proof -
  have c: "dstack (core vm) = dstack vm" "numOps (core vm) = numOps vm" "tx (core vm) = tx vm" "txIdx (core vm) = txIdx vm"
    by (simp_all add: core_def)
  have "rmap core (opcodeCheckMultiSig C op vm) =
      checkMultiSig_with (pure (schnorr C) (SchnorrVerify C) (schnorr_digest C)) op (core vm)"
    using schnorr_ok.checkMultiSig_pure [OF assms(1)] by (simp add: refines_def opcodeCheckMultiSig_def)
  moreover have "map_sum id dstack (opcodeCheckMultiSig C op vm) = map_sum id dstack (rmap core (opcodeCheckMultiSig C op vm))"
    by (cases "opcodeCheckMultiSig C op vm") (simp_all add: core_def)
  ultimately show ?thesis
    using schnorr_ok.checkMultiSig_matches [of "core vm", unfolded c, OF assms(2-10)]
    by (simp add: matches_iff)
qed

definition multisig_engine :: Engine where
  "multisig_engine = zeroEngine\<lparr>tx := signed_tx,
     dstack := [replicate 64 2 @ [1], [1], replicate 32 3, replicate 32 2, [2]]\<rparr>"

theorem opcodeCheckMultiSig_matches_witness:
  "map_sum id dstack (opcodeCheckMultiSig sample_crypto \<lparr>pop_opcode = opcodeArray OpCheckMultiSig, pop_data = []\<rparr>
     multisig_engine) = Inr [[1]]"
proof -
  let ?s = "replicate 64 2 @ [1 :: byte]" and ?k = "replicate 32 2 :: byte list"
  have s: "sound sample_crypto multisig_engine"
    by (simp add: sound_def multisig_engine_def zeroEngine_def has_entry_def signed_tx_def reuse_ok_empty)
  have st: "dstack multisig_engine = [] @ rev [?s] @ [1] # rev [?k, replicate 32 3] @ [[2]]"
    by (simp add: multisig_engine_def)
  have n: "scriptNum_Bytes (int (length [?s])) = Inr [1]" "scriptNum_Bytes (int (length [?k, replicate 32 3])) = Inr [2]"
    by code_simp+
  have wf: "\<forall>s \<in> set [?s]. sig_wf s" "\<forall>k \<in> set [?k, replicate 32 3]. length k = 32"
    by (simp_all add: sig_wf_def IsStandardSigHashType_def sht_defs)
  have "sig_valid (schnorr sample_crypto) (SchnorrVerify sample_crypto) d ?s ?k" for d
    by (simp add: sig_valid_def schnorr_def sample_crypto_def butlast_append)
  then have v: "\<exists>ks. subseq ks [?k, replicate 32 3] \<and>
      list_all2 (sig_valid (schnorr sample_crypto) (SchnorrVerify sample_crypto)
        (schnorr_digest sample_crypto (tx multisig_engine) (txIdx multisig_engine))) [?s] ks"
    by (intro exI [of _ "[?k]"]) simp
  show ?thesis
    using opcodeCheckMultiSig_matches [OF s st _ n _ _ _ wf] v
    by (simp add: multisig_engine_def zeroEngine_def MaxOpsPerScript_def)
qed

end
