(* ===== verification/Script_Builder.thy ===== *)
theory Script_Builder
  imports Script_Engine
begin

text \<open>
  The builder of scripts, \<^verbatim>\<open>txscript/scriptbuilder.go\<close>.  A method that changes the builder returns the
  changed record.  The error of the builder is the reason of \<^verbatim>\<open>ErrScriptNotCanonical\<close>.
\<close>

section \<open>The builder\<close>

datatype ErrScriptNotCanonical =
    OpcodeExceedsSize
  | OpcodesExceedSize
  | DataExceedsSize nat
  | ElementTooBig nat
  | IntegerExceedsSize

record ScriptBuilder =
  sb_script :: "byte list"
  sb_err :: "ErrScriptNotCanonical option"

definition NewScriptBuilder :: ScriptBuilder where
  "NewScriptBuilder = \<lparr>sb_script = [], sb_err = None\<rparr>"

definition AddOp :: "ScriptBuilder \<Rightarrow> byte \<Rightarrow> ScriptBuilder" where
  "AddOp b opcode =
    (if sb_err b \<noteq> None then b
     else if length (sb_script b) + 1 > MaxScriptSize then b\<lparr>sb_err := Some OpcodeExceedsSize\<rparr>
     else b\<lparr>sb_script := sb_script b @ [opcode]\<rparr>)"

definition AddOps :: "ScriptBuilder \<Rightarrow> byte list \<Rightarrow> ScriptBuilder" where
  "AddOps b opcodes =
    (if sb_err b \<noteq> None then b
     else if length (sb_script b) + length opcodes > MaxScriptSize then b\<lparr>sb_err := Some OpcodesExceedSize\<rparr>
     else b\<lparr>sb_script := sb_script b @ opcodes\<rparr>)"

definition canonicalDataSize :: "byte list \<Rightarrow> nat" where
  "canonicalDataSize data =
    (let dataLen = length data
     in if dataLen = 0 then 1
        else if dataLen = 1 \<and> data ! 0 \<le> 16 then 1
        else if dataLen = 1 \<and> data ! 0 = 0x81 then 1
        else if dataLen < unat OpPushData1 then 1 + dataLen
        else if dataLen \<le> 0xff then 2 + dataLen
        else if dataLen \<le> 0xffff then 3 + dataLen
        else 5 + dataLen)"

definition addData :: "ScriptBuilder \<Rightarrow> byte list \<Rightarrow> ScriptBuilder" where
  "addData b data =
    (let dataLen = length data
     in if dataLen = 0 \<or> dataLen = 1 \<and> data ! 0 = 0 then b\<lparr>sb_script := sb_script b @ [Op0]\<rparr>
        else if dataLen = 1 \<and> data ! 0 \<le> 16 then b\<lparr>sb_script := sb_script b @ [(Op1 - 1) + data ! 0]\<rparr>
        else if dataLen = 1 \<and> data ! 0 = 0x81 then b\<lparr>sb_script := sb_script b @ [Op1Negate]\<rparr>
        else
          let b = (if dataLen < unat OpPushData1 then b\<lparr>sb_script := sb_script b @ [(OpData1 - 1) + of_nat dataLen]\<rparr>
                   else if dataLen \<le> 0xff then b\<lparr>sb_script := sb_script b @ [OpPushData1, of_nat dataLen]\<rparr>
                   else if dataLen \<le> 0xffff then
                     b\<lparr>sb_script := sb_script b @ [OpPushData2] @ put_le 2 (of_nat dataLen :: u16)\<rparr>
                   else b\<lparr>sb_script := sb_script b @ [OpPushData4] @ put_le 4 (of_nat dataLen :: u32)\<rparr>)
          in b\<lparr>sb_script := sb_script b @ data\<rparr>)"

definition AddFullData :: "ScriptBuilder \<Rightarrow> byte list \<Rightarrow> ScriptBuilder" where
  "AddFullData b data = (if sb_err b \<noteq> None then b else addData b data)"

definition AddData :: "ScriptBuilder \<Rightarrow> byte list \<Rightarrow> ScriptBuilder" where
  "AddData b data =
    (if sb_err b \<noteq> None then b
     else
       let dataSize = canonicalDataSize data
       in if length (sb_script b) + dataSize > MaxScriptSize then b\<lparr>sb_err := Some (DataExceedsSize dataSize)\<rparr>
          else
            let dataLen = length data
            in if dataLen > MaxScriptElementSize then b\<lparr>sb_err := Some (ElementTooBig dataLen)\<rparr>
               else addData b data)"

text \<open>\<open>val\<close> is an \<^verbatim>\<open>int64\<close>; the conversion of the small integers to a byte cannot wrap around.\<close>

definition AddInt64 :: "ScriptBuilder \<Rightarrow> int \<Rightarrow> ScriptBuilder script_result" where
  "AddInt64 b val =
    (if sb_err b \<noteq> None then Inr b
     else if length (sb_script b) + 1 > MaxScriptSize then Inr (b\<lparr>sb_err := Some IntegerExceedsSize\<rparr>)
     else if val = 0 then Inr (b\<lparr>sb_script := sb_script b @ [Op0]\<rparr>)
     else if val = - 1 \<or> (val \<ge> 1 \<and> val \<le> 16) then
       Inr (b\<lparr>sb_script := sb_script b @ [word_of_int (uint (Op1 - 1) + val)]\<rparr>)
     else rbind (scriptNum_Bytes val) (\<lambda>bytes. Inr (AddData b bytes)))"

definition Reset :: "ScriptBuilder \<Rightarrow> ScriptBuilder" where
  "Reset b = b\<lparr>sb_script := [], sb_err := None\<rparr>"

definition Script :: "ScriptBuilder \<Rightarrow> byte list \<times> ErrScriptNotCanonical option" where
  "Script b = (sb_script b, sb_err b)"

section \<open>What the builder appends\<close>

text \<open>The opcode that \<^verbatim>\<open>addData\<close> writes, as the parser reads it.\<close>

definition data_pop :: "byte list \<Rightarrow> parsedOpcode" where
  "data_pop data =
    (if data = [] \<or> data = [0] then \<lparr>pop_opcode = opcodeArray Op0, pop_data = []\<rparr>
     else if length data = 1 \<and> data ! 0 \<le> 16 then \<lparr>pop_opcode = opcodeArray ((Op1 - 1) + data ! 0), pop_data = []\<rparr>
     else if data = [0x81] then \<lparr>pop_opcode = opcodeArray Op1Negate, pop_data = []\<rparr>
     else \<lparr>pop_opcode = opcodeArray (if length data < 76 then of_nat (length data) else if length data \<le> 255 then OpPushData1
             else if length data \<le> 65535 then OpPushData2 else OpPushData4), pop_data = data\<rparr>)"

lemma byte_le_16:
  assumes "x \<le> (16 :: byte)" "x \<noteq> 0"
  shows "x \<in> {1, 2, 3, 4, 5, 6, 7, 8, 9, 10, 11, 12, 13, 14, 15, 16}"
proof -
  have "unat x \<le> 16" "unat x \<noteq> 0" using assms by (simp_all add: word_le_nat_alt unat_eq_0)
  then have "unat x \<in> set [1..<17]" by auto
  then have "unat x \<in> {1, 2, 3, 4, 5, 6, 7, 8, 9, 10, 11, 12, 13, 14, 15, 16}" by (simp add: upt_rec eval_nat_numeral del: set_upt)
  moreover have "x = of_nat (unat x)" by simp
  ultimately show ?thesis by (elim insertE emptyE) (simp_all only: of_nat_numeral of_nat_1 insert_iff simp_thms)
qed

lemma small_op_length:
  assumes "x \<le> 16" "x \<noteq> 0"
  shows "op_length (opcodeArray (80 + x)) = 1"
  using byte_le_16 [OF assms] by (elim insertE emptyE) (simp_all add: opcodeArray_length length_of_opcode_def)

lemma get_put_le:
  "n < 256 \<Longrightarrow> le_val [of_nat n] = int n" "n < 65536 \<Longrightarrow> le_val (put_le 2 (of_nat n :: u16)) = int n"
  "n < 4294967296 \<Longrightarrow> le_val (put_le 4 (of_nat n :: u32)) = int n"
  by (simp_all add: le_val_put_le unsigned_of_nat take_bit_nat_eq_self take_bit_int_eq_self)

lemma addData_bytes:
  assumes "length data < 2 ^ 32"
  shows "\<exists>bs. pop_bytes (data_pop data) = Inr bs \<and> addData b data = b\<lparr>sb_script := sb_script b @ bs\<rparr>"
proof -
  consider (zero) "data = [] \<or> data = [0]" | (small) x where "data = [x]" "x \<le> 16" "x \<noteq> 0" | (neg) "data = [0x81]"
    | (push) "data \<noteq> []" "\<not> (length data = 1 \<and> data ! 0 \<le> 16)" "data \<noteq> [0x81]"
    by (cases data; cases "tl data") auto
  then show ?thesis
  proof cases
    case zero
    then show ?thesis by (auto simp: data_pop_def addData_def pop_bytes_single opcodeArray_length length_of_opcode_def)
  next
    case small
    then show ?thesis
      by (simp add: data_pop_def addData_def pop_bytes_single small_op_length)
  next
    case neg
    then show ?thesis by (auto simp: data_pop_def addData_def pop_bytes_single opcodeArray_length length_of_opcode_def)
  next
    case push
    have p: "data_pop data = \<lparr>pop_opcode = opcodeArray (if length data < 76 then of_nat (length data) else if length data \<le> 255 then OpPushData1
             else if length data \<le> 65535 then OpPushData2 else OpPushData4), pop_data = data\<rparr>"
      using push by (cases data) (auto simp: data_pop_def)
    have np: "data ! 0 \<noteq> 0" "\<not> data ! 0 \<le> 16" "data ! 0 \<noteq> 0x81" if "length data = Suc 0"
      using push that by (cases data; auto)+
    consider "length data < 76" | "76 \<le> length data" "length data \<le> 255" | "255 < length data" "length data \<le> 65535"
      | "65535 < length data" by linarith
    then show ?thesis
    proof cases
      case 1
      have u: "unat (of_nat (length data) :: byte) = length data" using 1 by (simp add: unsigned_of_nat take_bit_nat_eq_self)
      then have "(1 :: byte) \<le> of_nat (length data)" "(of_nat (length data) :: byte) \<le> 75"
        using 1 push(1) by (simp_all add: word_le_nat_alt Suc_le_eq)
      with u have "op_length (opcodeArray (of_nat (length data))) = int (length data) + 1"
        by (simp add: opcodeArray_length length_of_opcode_def)
      with 1 push np show ?thesis by (auto simp: p pop_bytes_data addData_def Let_def)
    next
      case 2
      have L: "op_length (opcodeArray OpPushData1) = - int 1" by (simp add: opcodeArray_length length_of_opcode_def)
      have V: "length data = nat (le_val ([of_nat (length data)]))"
        by (subst get_put_le(1)) (use 2 assms in simp_all)
      have "pop_bytes \<lparr>pop_opcode = opcodeArray OpPushData1, pop_data = data\<rparr> =
          Inr (OpPushData1 # ([of_nat (length data)]) @ data)"
        using pop_bytes_pushdata [OF L _ _ V] by simp
      with 2 push np show ?thesis by (auto simp: p addData_def Let_def)
    next
      case 3
      have L: "op_length (opcodeArray OpPushData2) = - int 2" by (simp add: opcodeArray_length length_of_opcode_def)
      have V: "length data = nat (le_val (put_le 2 (of_nat (length data) :: u16)))"
        by (subst get_put_le(2)) (use 3 assms in simp_all)
      have "pop_bytes \<lparr>pop_opcode = opcodeArray OpPushData2, pop_data = data\<rparr> =
          Inr (OpPushData2 # (put_le 2 (of_nat (length data) :: u16)) @ data)"
        using pop_bytes_pushdata [OF L _ _ V] by simp
      with 3 push np show ?thesis by (auto simp: p addData_def Let_def)
    next
      case 4
      have L: "op_length (opcodeArray OpPushData4) = - int 4" by (simp add: opcodeArray_length length_of_opcode_def)
      have V: "length data = nat (le_val (put_le 4 (of_nat (length data) :: u32)))"
        by (subst get_put_le(3)) (use 4 assms in simp_all)
      have "pop_bytes \<lparr>pop_opcode = opcodeArray OpPushData4, pop_data = data\<rparr> =
          Inr (OpPushData4 # (put_le 4 (of_nat (length data) :: u32)) @ data)"
        using pop_bytes_pushdata [OF L _ _ V] by simp
      with 4 push np show ?thesis by (auto simp: p addData_def Let_def)
    qed
  qed
qed

lemma data_pop_opcode: "pop_opcode (data_pop data) = opcodeArray (pop_value (data_pop data))"
  by (simp add: data_pop_def)

lemma canonicalDataSize_exact:
  assumes "length data < 2 ^ 32"
  shows "length (sb_script (addData b data)) = length (sb_script b) + canonicalDataSize data"
proof (cases "length data = 1")
  case True
  then obtain x where "data = [x]" by (cases data) simp_all
  then show ?thesis by (auto simp: addData_def canonicalDataSize_def Let_def)
qed (auto simp: addData_def canonicalDataSize_def Let_def)

lemma unparseScript_append:
  "unparseScript pops = Inr s \<Longrightarrow> pop_bytes p = Inr bs \<Longrightarrow> unparseScript (pops @ [p]) = Inr (s @ bs)"
  by (induction pops arbitrary: s) (auto simp: rbind_Inr_iff)

lemma parseScript_snoc:
  assumes "parseScript s = (pops, None)" "pop_bytes p = Inr bs" "pop_opcode p = opcodeArray (pop_value p)"
  shows "parseScript (s @ bs) = (pops @ [p], None)"
  using unparseScript_append [OF unparse_parse [OF assms(1)] assms(2)] parseScript_ops [OF assms(1)] assms(3)
  by (intro parse_unparse) auto

lemma addData_parses:
  assumes "parseScript (sb_script b) = (pops, None)" "length data < 2 ^ 32"
  shows "parseScript (sb_script (addData b data)) = (pops @ [data_pop data], None)" "sb_err (addData b data) = sb_err b"
  using addData_bytes [OF assms(2), of b] parseScript_snoc [OF assms(1) _ data_pop_opcode, of data] by auto

lemma AddData_cases:
  assumes "sb_err b = None" "parseScript (sb_script b) = (pops, None)" "length (sb_script b) \<le> MaxScriptSize"
  shows "length (sb_script (AddData b data)) \<le> MaxScriptSize \<and>
    (if length data \<le> MaxScriptElementSize \<and> length (sb_script b) + canonicalDataSize data \<le> MaxScriptSize
     then sb_err (AddData b data) = None \<and> parseScript (sb_script (AddData b data)) = (pops @ [data_pop data], None)
     else sb_err (AddData b data) \<noteq> None \<and> sb_script (AddData b data) = sb_script b)"
proof (cases "length data \<le> MaxScriptElementSize \<and> length (sb_script b) + canonicalDataSize data \<le> MaxScriptSize")
  case True
  then have "length data < 2 ^ 32" by (simp add: MaxScriptElementSize_def)
  with True assms canonicalDataSize_exact [of data b] addData_parses [OF assms(2), of data] show ?thesis
    by (simp add: AddData_def Let_def)
next
  case False
  with assms show ?thesis by (auto simp: AddData_def Let_def)
qed

lemma AddOp_cases:
  assumes "sb_err b = None" "parseScript (sb_script b) = (pops, None)" "op_length (opcodeArray opcode) = 1"
  shows "if length (sb_script b) < MaxScriptSize
     then sb_err (AddOp b opcode) = None \<and> length (sb_script (AddOp b opcode)) \<le> MaxScriptSize \<and>
       parseScript (sb_script (AddOp b opcode)) = (pops @ [\<lparr>pop_opcode = opcodeArray opcode, pop_data = []\<rparr>], None)
     else sb_err (AddOp b opcode) \<noteq> None \<and> sb_script (AddOp b opcode) = sb_script b"
  using assms parseScript_snoc [OF assms(2) pop_bytes_single [OF assms(3)]] by (simp add: AddOp_def)

text \<open>The handlers of the opcodes that push data.\<close>

definition push_opfunc :: "byte \<Rightarrow> opfunc" where
  "push_opfunc k = (if k = 0 then f_opcodeFalse else if k \<le> 78 then f_opcodePushData else if k = 79 then f_opcode1Negate
     else if k = 80 then f_opcodeReserved else f_opcodeN)"

lemma push_opcodes_opfunc: "list_all (\<lambda>(k, op). k \<le> 96 \<longrightarrow> op_opfunc op = push_opfunc k) opcode_table"
  by (simp add: opcode_table_def opcode_groups push_opfunc_def)

lemma opcodeArray_opfunc: "k \<le> 96 \<Longrightarrow> op_opfunc (opcodeArray k) = push_opfunc k"
  using push_opcodes_opfunc opcodeArray_entry [of k] by (auto simp: list_all_iff)

end
