(* ===== verification/Bech32.thy ===== *)
theory Bech32
  imports Prelude
begin

text \<open>
  The encoding of addresses, \<^verbatim>\<open>util/bech32/bech32.go\<close>: a version byte and a payload are regrouped
  into groups of five bits, a checksum of eight groups is appended, and every group is written as a
  character.  The lemmas show that regrouping keeps the bits, that the checksum is linear and
  detects bursts of eight groups, and that \<^verbatim>\<open>Decode\<close> inverts \<^verbatim>\<open>Encode\<close>.
\<close>


section \<open>Regrouping of bits\<close>

record conversionType =
  fromBits :: nat
  toBits :: nat
  pad :: bool

definition fiveToEightBits :: conversionType where
  "fiveToEightBits = \<lparr>fromBits = 5, toBits = 8, pad = False\<rparr>"

definition eightToFiveBits :: conversionType where
  "eightToFiveBits = \<lparr>fromBits = 8, toBits = 5, pad = True\<rparr>"

text \<open>
  The state of \<^verbatim>\<open>convertBits\<close>: the finished bytes, the byte in progress and the number of bits in it.
\<close>

type_synonym regroup_state = "byte list \<times> byte \<times> nat"

text \<open>
  The inner loop, on the byte \<open>b\<close> with \<open>r\<close> bits left.  Every iteration extracts at least one bit, so
  \<open>r\<close> iterations are enough.
\<close>

primrec extract_loop :: "nat \<Rightarrow> nat \<Rightarrow> byte \<Rightarrow> nat \<Rightarrow> regroup_state \<Rightarrow> regroup_state" where
  "extract_loop to 0 b r st = st"
| "extract_loop to (Suc fuel) b r st =
    (case st of (regrouped, nextByte, filledBits) \<Rightarrow>
       if r = 0 then (regrouped, nextByte, filledBits)
       else
         let remainingToBits = to - filledBits;
             toExtract = (if remainingToBits < r then remainingToBits else r);
             nextByte = push_bit toExtract nextByte OR drop_bit (8 - toExtract) b;
             b = push_bit toExtract b;
             r = r - toExtract;
             filledBits = filledBits + toExtract
         in extract_loop to fuel b r
              (if filledBits = to then (regrouped @ [nextByte], 0, 0) else (regrouped, nextByte, filledBits)))"

definition convertBits :: "byte list \<Rightarrow> conversionType \<Rightarrow> byte list" where
  "convertBits data ct =
    (let (regrouped, nextByte, filledBits) =
           fold (\<lambda>b. extract_loop (toBits ct) (fromBits ct) (push_bit (8 - fromBits ct) b) (fromBits ct)) data ([], 0, 0)
     in if pad ct \<and> filledBits > 0
        then regrouped @ [push_bit (toBits ct - filledBits) nextByte]
        else regrouped)"

section \<open>Checksum\<close>

definition generator :: "int list" where
  "generator = [0x98f2bc8e61, 0x79b76d99e2, 0xf33e5fb3c4, 0xae2eabe2a8, 0x1e4f43e470]"

definition polyMod_step :: "int \<Rightarrow> int \<Rightarrow> int" where
  "polyMod_step checksum value =
    (let topBits = drop_bit 35 checksum;
         checksum = i64 (push_bit 5 (checksum AND 0x07ffffffff)) XOR value
     in fold (\<lambda>i checksum. if drop_bit i topBits AND 1 = 1 then checksum XOR generator ! i else checksum)
          [0..<length generator] checksum)"

definition polyMod :: "int list \<Rightarrow> int" where
  "polyMod values = fold (\<lambda>value checksum. polyMod_step checksum value) values 1 XOR 1"

definition ints :: "byte list \<Rightarrow> int list" where
  "ints payload = map uint payload"

definition prefixToUint5Array :: "string \<Rightarrow> int list" where
  "prefixToUint5Array prefix = map (\<lambda>char. of_char char AND 31) prefix"

definition verifyChecksum :: "string \<Rightarrow> byte list \<Rightarrow> bool" where
  "verifyChecksum prefix payload \<longleftrightarrow> polyMod (prefixToUint5Array prefix @ [0] @ ints payload) = 0"

definition checksumLength :: nat where "checksumLength = 8"

definition calculateChecksum :: "string \<Rightarrow> byte list \<Rightarrow> byte list" where
  "calculateChecksum prefix payload =
    (let polyModResult = polyMod (prefixToUint5Array prefix @ [0] @ ints payload @ replicate 8 0)
     in map (\<lambda>i. word_of_int (drop_bit (5 * (checksumLength - 1 - i)) polyModResult AND 31)) [0..<checksumLength])"

section \<open>Characters\<close>

definition charset :: string where "charset = ''qpzry9x8gf2tvdw0s3jn54khce6mua7l''"

fun IndexByte :: "string \<Rightarrow> char \<Rightarrow> nat option" where
  "IndexByte [] c = None"
| "IndexByte (x # xs) c = (if x = c then Some 0 else map_option Suc (IndexByte xs c))"

fun LastIndexByte :: "string \<Rightarrow> char \<Rightarrow> nat option" where
  "LastIndexByte [] c = None"
| "LastIndexByte (x # xs) c =
     (case LastIndexByte xs c of Some i \<Rightarrow> Some (Suc i) | None \<Rightarrow> if x = c then Some 0 else None)"

definition toLower :: "char \<Rightarrow> char" where
  "toLower c = (if 65 \<le> (of_char c :: nat) \<and> (of_char c :: nat) \<le> 90 then char_of ((of_char c :: nat) + 32) else c)"

definition toUpper :: "char \<Rightarrow> char" where
  "toUpper c = (if 97 \<le> (of_char c :: nat) \<and> (of_char c :: nat) \<le> 122 then char_of ((of_char c :: nat) - 32) else c)"

datatype Bech32Error =
    InvalidLength nat
  | InvalidCharacter char
  | MixedCase
  | InvalidColon
  | NotInCharset char
  | ChecksumFailed string string

type_synonym 'a bech32_result = "(Bech32Error, 'a) result"

fun decodeFromBase32 :: "string \<Rightarrow> byte list bech32_result" where
  "decodeFromBase32 [] = Inr []"
| "decodeFromBase32 (c # cs) =
    (case IndexByte charset c of
       None \<Rightarrow> Inl (Err (NotInCharset c))
     | Some index \<Rightarrow> rbind (decodeFromBase32 cs) (\<lambda>decoded. Inr (of_nat index # decoded)))"

definition encodeToBase32 :: "byte list \<Rightarrow> string" where
  "encodeToBase32 data =
    (if \<exists>b \<in> set data. unat b \<ge> length charset then '''' else map (\<lambda>b. charset ! unat b) data)"

definition encode :: "string \<Rightarrow> byte list \<Rightarrow> string" where
  "encode prefix data =
    (let checksum = calculateChecksum prefix data;
         combined = data @ checksum
     in prefix @ '':'' @ encodeToBase32 combined)"

definition decode :: "string \<Rightarrow> (string \<times> byte list) bech32_result" where
  "decode encoded =
    (if length encoded < checksumLength + 2 then Inl (Err (InvalidLength (length encoded)))
     else case find (\<lambda>c. (of_char c :: nat) < 33 \<or> (of_char c :: nat) > 126) encoded of
       Some c \<Rightarrow> Inl (Err (InvalidCharacter c))
     | None \<Rightarrow>
         let lower = map toLower encoded;
             upper = map toUpper encoded
         in if encoded \<noteq> lower \<and> encoded \<noteq> upper then Inl (Err MixedCase)
            else
              let encoded = lower
              in case LastIndexByte encoded CHR '':'' of
                   None \<Rightarrow> Inl (Err InvalidColon)
                 | Some colonIndex \<Rightarrow>
                     if colonIndex < 1 \<or> colonIndex + checksumLength + 1 > length encoded then Inl (Err InvalidColon)
                     else
                       let prefix = take colonIndex encoded;
                           data = drop (colonIndex + 1) encoded
                       in rbind (decodeFromBase32 data) (\<lambda>decoded.
                            if \<not> verifyChecksum prefix decoded then
                              (let checksum = drop (length encoded - checksumLength) encoded;
                                   expected = encodeToBase32 (calculateChecksum prefix (take (length decoded - checksumLength) decoded))
                               in Inl (Err (ChecksumFailed expected checksum)))
                            else Inr (prefix, take (length decoded - checksumLength) decoded)))"

definition Encode :: "string \<Rightarrow> byte list \<Rightarrow> byte \<Rightarrow> string" where
  "Encode prefix payload version = encode prefix (convertBits (version # payload) eightToFiveBits)"

definition Decode :: "string \<Rightarrow> (string \<times> byte list \<times> byte) bech32_result" where
  "Decode encoded =
    rbind (decode encoded) (\<lambda>(prefix, decoded).
      let converted = convertBits decoded fiveToEightBits
      in if converted = [] then Inl Panic else Inr (prefix, tl converted, hd converted))"

section \<open>The checksum is linear\<close>

definition pm_top :: "int \<Rightarrow> int" where
  "pm_top t = fold (\<lambda>i x. if drop_bit i t AND 1 = 1 then x XOR generator ! i else x) [0..<length generator] 0"

definition pm_lin :: "int \<Rightarrow> int" where
  "pm_lin c = push_bit 5 (take_bit 35 c) XOR pm_top (drop_bit 35 c)"

lemma pm_top_eq:
  "pm_top t = (if bit t 0 then generator ! 0 else 0) XOR (if bit t 1 then generator ! 1 else 0) XOR
     (if bit t 2 then generator ! 2 else 0) XOR (if bit t 3 then generator ! 3 else 0) XOR (if bit t 4 then generator ! 4 else 0)"
proof -
  have b: "drop_bit i t AND 1 = 1 \<longleftrightarrow> bit t i" for i
    by (simp add: and_one_eq bit_iff_odd_drop_bit mod_2_eq_odd)
  have "[0..<length generator] = [0, 1, 2, 3, 4]" by (simp add: generator_def upt_rec)
  then show ?thesis unfolding pm_top_def b by (simp add: xor.assoc)
qed

lemma polyMod_step_eq: "polyMod_step c v = pm_lin c XOR v"
proof -
  have f: "fold (\<lambda>i x. if P i then x XOR g i else x) ks y = y XOR fold (\<lambda>i x. if P i then x XOR g i else x) ks 0"
    for P and g :: "nat \<Rightarrow> int" and ks y
  proof (induction ks arbitrary: y)
    case (Cons i ks)
    from Cons [of "if P i then y XOR g i else y"] Cons [of "if P i then g i else 0"] show ?case
      by (auto simp: xor.assoc)
  qed simp
  have m: "c AND 0x07ffffffff = take_bit 35 c" by (simp add: take_bit_eq_mask mask_eq_exp_minus_1)
  have "i64 (push_bit 5 r) = push_bit 5 r" if "0 \<le> r" "r < 2 ^ 35" for r
    using that by (intro i64_id) (simp_all add: push_bit_eq_mult)
  from this [OF take_bit_nonnegative take_bit_int_less_exp]
  have "i64 (push_bit 5 (take_bit 35 c)) = push_bit 5 (take_bit 35 c)" .
  then show ?thesis
    unfolding polyMod_step_def Let_def m by (subst f) (simp add: pm_lin_def pm_top_def xor.assoc xor.commute xor.left_commute)
qed

lemma pm_top_xor: "pm_top (a XOR b) = pm_top a XOR pm_top b"
proof -
  have x: "(if bit (a XOR b) i then g else 0) = (if bit a i then g else 0) XOR (if bit b i then g else 0)" for i and g :: int
    by (simp add: bit_xor_iff)
  show ?thesis unfolding pm_top_eq x by (simp only: xor.assoc xor.commute xor.left_commute)
qed

lemma pm_lin_xor: "pm_lin (a XOR b) = pm_lin a XOR pm_lin b"
  unfolding pm_lin_def by (simp only: take_bit_xor push_bit_xor drop_bit_xor pm_top_xor xor.assoc xor.commute xor.left_commute)

lemma pm_zero [simp]: "pm_top 0 = 0" "pm_lin 0 = 0"
  by (simp_all add: pm_top_eq pm_lin_def)

section \<open>States of the checksum\<close>

definition pm_ok :: "int \<Rightarrow> bool" where
  "pm_ok c \<longleftrightarrow> take_bit 40 c = c"

lemma pm_ok_iff: "pm_ok c \<longleftrightarrow> 0 \<le> c \<and> c < 2 ^ 40"
  unfolding pm_ok_def by (rule take_bit_int_eq_self_iff)

lemma pm_ok_xor: "pm_ok a \<Longrightarrow> pm_ok b \<Longrightarrow> pm_ok (a XOR b)"
  by (simp add: pm_ok_def)

lemma pm_ok_top: "pm_ok (pm_top t)"
  unfolding pm_top_eq by (intro pm_ok_xor) (simp_all add: pm_ok_iff generator_def)

lemma pm_ok_lin: "pm_ok (pm_lin c)"
proof -
  have "take_bit 35 c < 2 ^ 35" by (rule take_bit_int_less_exp)
  then have "pm_ok (push_bit 5 (take_bit 35 c))" by (simp add: pm_ok_iff push_bit_eq_mult)
  then show ?thesis unfolding pm_lin_def by (intro pm_ok_xor pm_ok_top)
qed

lemma pm_top_low:
  assumes "0 \<le> t" "t < 32"
  shows "take_bit 5 (pm_top t) = t"
proof -
  have i: "take_bit 5 (if P then x else 0) = (if P then take_bit 5 x else 0)" for P and x :: int by simp
  have "take_bit 5 (pm_top t) = (if bit t 0 then 1 else 0) XOR (if bit t 1 then 2 else 0) XOR
      (if bit t 2 then 4 else 0) XOR (if bit t 3 then 8 else 0) XOR (if bit t 4 then 16 else 0)"
    unfolding pm_top_eq take_bit_xor i by (simp add: generator_def take_bit_eq_mod)
  also have "\<dots> = t"
  proof -
    have "t \<in> set [0..31]" using assms by simp
    then show ?thesis by (simp add: upto_rec1, elim disjE) simp_all
  qed
  finally show ?thesis .
qed

lemma pm_lin_inj:
  assumes "pm_ok d" "pm_lin d = 0"
  shows "d = 0"
proof -
  have d: "d = push_bit 35 (drop_bit 35 d) + take_bit 35 d" by (simp add: bits_ident)
  have t: "0 \<le> drop_bit 35 d" "drop_bit 35 d < 32"
    using assms(1) by (auto simp: pm_ok_iff drop_bit_eq_div pos_imp_zdiv_nonneg_iff)
  have "take_bit 5 (pm_lin d) = take_bit 5 (pm_top (drop_bit 35 d))"
    by (simp add: pm_lin_def take_bit_push_bit)
  with t assms(2) have h: "drop_bit 35 d = 0" by (simp add: pm_top_low)
  with assms(2) have "take_bit 35 d = 0" by (simp add: pm_lin_def push_bit_eq_mult)
  with h d show ?thesis by simp
qed

abbreviation pm_fold :: "int \<Rightarrow> int list \<Rightarrow> int" where
  "pm_fold c vs \<equiv> fold (\<lambda>v c. polyMod_step c v) vs c"

lemma pm_fold_ok: "pm_ok c \<Longrightarrow> \<forall>v \<in> set vs. pm_ok v \<Longrightarrow> pm_ok (pm_fold c vs)"
  by (induction vs arbitrary: c) (simp_all add: polyMod_step_eq pm_ok_xor pm_ok_lin)

lemma pm_fold_xor: "pm_fold (a XOR b) vs = pm_fold a (replicate (length vs) 0) XOR pm_fold b vs"
proof (induction vs arbitrary: a b)
  case (Cons v vs)
  from Cons [of "pm_lin a" "pm_lin b XOR v"] show ?case
    by (simp add: polyMod_step_eq pm_lin_xor xor.assoc)
qed simp

lemma pm_fold_split: "pm_fold c vs = pm_fold c (replicate (length vs) 0) XOR pm_fold 0 vs"
  using pm_fold_xor [where a = c and b = 0 and vs = vs] by simp

lemma pm_fold_inj:
  assumes "pm_ok a" "pm_ok b" "\<forall>v \<in> set vs. pm_ok v" "pm_fold a vs = pm_fold b vs"
  shows "a = b"
  using assms
proof (induction vs arbitrary: a b)
  case (Cons v vs)
  have "pm_lin a XOR v = pm_lin b XOR v"
    by (rule Cons.IH) (use Cons.prems in \<open>simp_all add: polyMod_step_eq pm_ok_xor pm_ok_lin\<close>)
  then have "(pm_lin a XOR v) XOR (pm_lin b XOR v) = 0" by simp
  moreover have "(pm_lin a XOR v) XOR (pm_lin b XOR v) = pm_lin (a XOR b)"
    by (simp add: pm_lin_xor xor.assoc xor.left_commute [of v])
  ultimately have "a XOR b = 0" using pm_lin_inj [of "a XOR b"] Cons.prems by (simp add: pm_ok_xor)
  then show "a = b" by (metis xor.assoc xor_self_eq xor.right_neutral xor.left_neutral)
qed simp

lemma pm_lin_small: "0 \<le> c \<Longrightarrow> c < 2 ^ 35 \<Longrightarrow> pm_lin c = push_bit 5 c"
  by (simp add: pm_lin_def take_bit_int_eq_self drop_bit_eq_div)

lemma pm_fold_small:
  assumes "length ds \<le> 8" "\<forall>d \<in> set ds. 0 \<le> d \<and> d < 32"
  shows "pm_fold 0 ds = foldl (\<lambda>x d. 32 * x + d) 0 ds \<and> 0 \<le> pm_fold 0 ds \<and> pm_fold 0 ds < 32 ^ length ds"
  using assms
proof (induction ds rule: rev_induct)
  case (snoc d ds)
  let ?x = "foldl (\<lambda>x d. 32 * x + d) 0 ds"
  from snoc have x: "pm_fold 0 ds = ?x" "0 \<le> ?x" "?x < 32 ^ length ds" and d: "0 \<le> d" "d < 32" by simp_all
  have "(32::int) ^ length ds \<le> 32 ^ 7" using snoc.prems(1) by (intro power_increasing) simp_all
  with x have "?x < 2 ^ 35" by simp
  with x have l: "pm_lin ?x = push_bit 5 ?x" by (intro pm_lin_small) simp_all
  have "push_bit 5 ?x XOR d = 32 * ?x + d"
  proof -
    let ?y = "push_bit 5 ?x XOR d"
    have "take_bit 5 ?y = d" using d by (simp add: take_bit_push_bit take_bit_int_eq_self)
    moreover have "drop_bit 5 (push_bit 5 ?x) = ?x" by (simp add: drop_bit_eq_div push_bit_eq_mult)
    moreover have "drop_bit 5 d = 0" using d by (simp add: drop_bit_eq_div)
    ultimately show ?thesis using bits_ident [of 5 ?y] by (simp only: drop_bit_xor xor.right_neutral) (simp add: push_bit_eq_mult)
  qed
  with x l d show ?case by (simp add: polyMod_step_eq)
qed simp

lemma horner_inj:
  assumes "length ds = length ds'" "\<forall>d \<in> set ds. 0 \<le> d \<and> d < 32" "\<forall>d \<in> set ds'. 0 \<le> d \<and> d < (32 :: int)"
    and "foldl (\<lambda>x d. 32 * x + d) 0 ds = foldl (\<lambda>x d. 32 * x + d) 0 ds'"
  shows "ds = ds'"
  using assms
proof (induction ds arbitrary: ds' rule: rev_induct)
  case (snoc d ds)
  then obtain e es where e: "ds' = es @ [e]" by (cases ds' rule: rev_cases) simp_all
  let ?x = "foldl (\<lambda>x d. 32 * x + d) 0 ds" and ?y = "foldl (\<lambda>x d. 32 * x + d) 0 es"
  have eq: "32 * ?x + d = 32 * ?y + e" "0 \<le> d" "d < 32" "0 \<le> e" "e < 32" using snoc.prems e by simp_all
  have "d = e" using arg_cong [OF eq(1), of "\<lambda>z. z mod 32"] eq(2-5) by simp
  with eq(1) have "?x = ?y" by simp
  with snoc.IH [of es] snoc.prems e \<open>d = e\<close> show ?case by simp
qed simp

lemma horner_digits:
  assumes "0 \<le> r" "r < (32 :: int) ^ k"
  shows "foldl (\<lambda>x d. 32 * x + d) 0 (map (\<lambda>i. drop_bit (5 * (k - 1 - i)) r AND 31) [0..<k]) = r"
  using assms
proof (induction k arbitrary: r)
  case (Suc k)
  have q: "0 \<le> drop_bit 5 r" "drop_bit 5 r < 32 ^ k" using Suc.prems by (auto simp: drop_bit_eq_div pos_imp_zdiv_nonneg_iff div_less_iff_less_mult)
  have m: "map (\<lambda>i. drop_bit (5 * (k - i)) r AND 31) [0..<k] =
      map (\<lambda>i. drop_bit (5 * (k - 1 - i)) (drop_bit 5 r) AND 31) [0..<k]"
  proof (rule map_cong [OF refl])
    fix i assume "i \<in> set [0..<k]"
    then have "5 * (k - i) = 5 * (k - 1 - i) + 5" by auto
    then show "drop_bit (5 * (k - i)) r AND 31 = drop_bit (5 * (k - 1 - i)) (drop_bit 5 r) AND 31"
      by (simp add: add.commute)
  qed
  have "r AND 31 = take_bit 5 r" by (simp add: take_bit_eq_mask mask_eq_exp_minus_1)
  moreover have "map (\<lambda>i. drop_bit (5 * (Suc k - 1 - i)) r AND 31) [0..<Suc k] =
      map (\<lambda>i. drop_bit (5 * (k - i)) r AND 31) [0..<k] @ [r AND 31]" by simp
  ultimately show ?case using bits_ident [of 5 r] by (simp only: m foldl_append Suc.IH [OF q]) (simp add: push_bit_eq_mult)
qed simp

lemma polyMod_eq: "polyMod vs = pm_fold 1 vs XOR 1"
  by (simp add: polyMod_def)

lemma xor_eq_one: "(x :: int) XOR 1 = 0 \<longleftrightarrow> x = 1"
  by (metis xor.assoc xor_self_eq xor.right_neutral xor.left_neutral)

lemma pm_ok_ints: "\<forall>v \<in> set (ints payload). pm_ok v"
proof
  fix v assume "v \<in> set (ints payload)"
  then obtain b :: byte where "v = uint b" by (auto simp: ints_def)
  then show "pm_ok v" using uint_lt2p [of b] by (simp add: pm_ok_iff)
qed

lemma pm_ok_prefix: "\<forall>v \<in> set (prefixToUint5Array prefix @ [0]). pm_ok v"
proof -
  have "pm_ok (x AND 31)" for x :: int
    using AND_upper2 [of 31 x] by (simp add: pm_ok_iff)
  then show ?thesis by (auto simp: prefixToUint5Array_def pm_ok_iff)
qed

lemma pm_ok_start: "pm_ok (pm_fold 1 (prefixToUint5Array prefix @ [0]))"
  by (rule pm_fold_ok [OF _ pm_ok_prefix]) (simp add: pm_ok_iff)

lemma verify_append:
  "verifyChecksum prefix (a @ b) \<longleftrightarrow>
   pm_fold (pm_fold (pm_fold 1 (prefixToUint5Array prefix @ [0])) (ints a)) (ints b) = 1"
  by (simp add: verifyChecksum_def polyMod_eq xor_eq_one ints_def)

lemma calculateChecksum_eq:
  "ints (calculateChecksum prefix payload) =
   map (\<lambda>i. drop_bit (5 * (8 - 1 - i)) (pm_fold (pm_fold (pm_fold 1 (prefixToUint5Array prefix @ [0])) (ints payload)) (replicate 8 0)
      XOR 1) AND 31) [0..<8]"
proof -
  have "uint (word_of_int (x AND 31) :: byte) = x AND 31" for x :: int
    using AND_upper2 [of 31 x] by (simp add: uint_word_of_int)
  then show ?thesis
    by (simp add: calculateChecksum_def ints_def polyMod_eq checksumLength_def Let_def)
qed

lemma calculateChecksum_verifies: "verifyChecksum prefix (data @ calculateChecksum prefix data)"
proof -
  define c where "c = pm_fold (pm_fold 1 (prefixToUint5Array prefix @ [0])) (ints data)"
  define r where "r = pm_fold c (replicate 8 0) XOR 1"
  have "pm_ok c" unfolding c_def by (rule pm_fold_ok [OF pm_ok_start pm_ok_ints])
  then have "pm_ok r" unfolding r_def by (intro pm_ok_xor pm_fold_ok) (simp_all add: pm_ok_iff)
  let ?d = "map (\<lambda>i. drop_bit (5 * (8 - 1 - i)) r AND 31) [0..<8]"
  have d: "ints (calculateChecksum prefix data) = ?d"
    by (simp only: calculateChecksum_eq c_def [symmetric] r_def [symmetric])
  have "\<forall>x \<in> set ?d. 0 \<le> x \<and> x < 32"
  proof -
    have "0 \<le> x AND 31 \<and> x AND 31 < (32::int)" for x using AND_upper2 [of 31 x] by simp
    then show ?thesis by auto
  qed
  with pm_fold_small [of ?d] have "pm_fold 0 ?d = foldl (\<lambda>x d. 32 * x + d) 0 ?d" by simp
  also have "\<dots> = r" using \<open>pm_ok r\<close> by (intro horner_digits) (simp_all add: pm_ok_iff)
  finally have "pm_fold c ?d = pm_fold c (replicate 8 0) XOR r"
    using pm_fold_split [of ?d c] by simp
  also have "\<dots> = 1" by (simp add: r_def flip: xor.assoc)
  finally show ?thesis by (simp only: verify_append d c_def [symmetric])
qed

text \<open>
  C24: The checksum of an address detects every burst of up to eight changed characters: if two data
  parts of the same length differ only in at most eight consecutive characters, at most one of them
  passes the check.
\<close>

theorem checksum_detects_bursts:
  assumes "verifyChecksum prefix (a @ b @ c)" "verifyChecksum prefix (a @ b' @ c)" "length b = length b'" "length b \<le> 8"
    and "\<forall>x \<in> set b \<union> set b'. x < 32"
  shows "b = b'"
proof -
  define s where "s = pm_fold (pm_fold 1 (prefixToUint5Array prefix @ [0])) (ints a)"
  have s: "pm_ok s" unfolding s_def by (rule pm_fold_ok [OF pm_ok_start pm_ok_ints])
  have i: "ints (x @ y) = ints x @ ints y" for x y by (simp add: ints_def)
  have "pm_fold (pm_fold s (ints b)) (ints c) = pm_fold (pm_fold s (ints b')) (ints c)"
    using assms(1,2) by (simp add: verify_append s_def i)
  then have "pm_fold s (ints b) = pm_fold s (ints b')"
    by (rule pm_fold_inj [OF pm_fold_ok [OF s pm_ok_ints] pm_fold_ok [OF s pm_ok_ints] pm_ok_ints])
  moreover have l: "length (ints b) = length (ints b')" using assms(3) by (simp add: ints_def)
  ultimately have "pm_fold s (replicate (length (ints b)) 0) XOR pm_fold 0 (ints b) =
      pm_fold s (replicate (length (ints b)) 0) XOR pm_fold 0 (ints b')"
    using pm_fold_split [of "ints b" s] pm_fold_split [of "ints b'" s] by simp
  then have "pm_fold 0 (ints b) = pm_fold 0 (ints b')" by (metis xor.assoc xor_self_eq xor.left_neutral)
  moreover have d: "\<forall>d \<in> set (ints x). 0 \<le> d \<and> d < 32" if "\<forall>y \<in> set x. y < 32" for x :: "byte list"
    using that by (auto simp: ints_def word_less_def)
  ultimately have "ints b = ints b'"
    using pm_fold_small [of "ints b"] pm_fold_small [of "ints b'"] horner_inj [OF l] assms(3-5) d [of b] d [of b']
    by (simp add: ints_def)
  moreover have "inj (uint :: byte \<Rightarrow> int)" by (rule injI) (metis word_of_int_uint)
  ultimately show ?thesis by (simp add: ints_def inj_map_eq_map)
qed

theorem checksum_detects_bursts_witness:
  "verifyChecksum ''kaspa'' (calculateChecksum ''kaspa'' []) \<and> \<not> verifyChecksum ''kaspa'' (replicate 8 31)"
proof -
  let ?c = "calculateChecksum ''kaspa'' []"
  have c: "length ?c = 8" "\<forall>x \<in> set ?c \<union> set (replicate 8 31). x < 32" "?c \<noteq> replicate 8 31"
    by code_simp+
  have v: "verifyChecksum ''kaspa'' ([] @ ?c @ [])" using calculateChecksum_verifies [of "''kaspa''" "[]"] by simp
  have "\<not> verifyChecksum ''kaspa'' ([] @ replicate 8 31 @ [])"
    using checksum_detects_bursts [OF v] c by fastforce
  with v show ?thesis by simp
qed

section \<open>Regrouping keeps the bits\<close>

text \<open>The lowest \<open>n\<close> bits of a byte, the highest first, and the bits of a list of such groups.\<close>

definition low_bits :: "nat \<Rightarrow> byte \<Rightarrow> bool list" where
  "low_bits n b = map (\<lambda>i. bit b (n - 1 - i)) [0..<n]"

definition top_bits :: "nat \<Rightarrow> byte \<Rightarrow> bool list" where
  "top_bits n b = map (\<lambda>i. bit b (7 - i)) [0..<n]"

lemma length_bits [simp]: "length (low_bits n b) = n" "length (top_bits n b) = n"
  by (simp_all add: low_bits_def top_bits_def)

lemma low_bits_append:
  assumes "f + k \<le> 8"
  shows "low_bits (f + k) (push_bit k a OR drop_bit (8 - k) b) = low_bits f a @ top_bits k b"
proof (rule nth_equalityI)
  fix i assume i: "i < length (low_bits (f + k) (push_bit k a OR drop_bit (8 - k) b))"
  show "low_bits (f + k) (push_bit k a OR drop_bit (8 - k) b) ! i = (low_bits f a @ top_bits k b) ! i"
  proof (cases "i < f")
    case True
    with i assms show ?thesis
      by (auto simp: low_bits_def nth_append bit_simps dest: bit_imp_le_length)
  next
    case False
    with i assms show ?thesis
      by (auto simp: low_bits_def top_bits_def nth_append bit_simps dest: bit_imp_le_length)
  qed
qed simp

lemma top_bits_push:
  assumes "k + r \<le> 8"
  shows "top_bits (k + r) b = top_bits k b @ top_bits r (push_bit k b)"
  using assms
  by (intro nth_equalityI) (auto simp: top_bits_def nth_append bit_simps)

fun state_bits :: "nat \<Rightarrow> regroup_state \<Rightarrow> bool list" where
  "state_bits n (rg, nb, f) = concat (map (low_bits n) rg) @ low_bits f nb"

fun state_ok :: "nat \<Rightarrow> regroup_state \<Rightarrow> bool" where
  "state_ok n (rg, nb, f) \<longleftrightarrow> f < n \<and> (\<forall>x \<in> set rg. take_bit n x = x) \<and> take_bit f nb = nb"

lemma extract_loop_bits:
  assumes "0 < n" "n \<le> 8" "r \<le> 8" "r \<le> fuel" "state_ok n st"
  shows "state_ok n (extract_loop n fuel b r st) \<and> state_bits n (extract_loop n fuel b r st) = state_bits n st @ top_bits r b"
  using assms(3-5)
proof (induction fuel arbitrary: b r st)
  case 0
  then show ?case by (simp add: top_bits_def)
next
  case (Suc fuel)
  obtain rg nb f where st: "st = (rg, nb, f)" by (cases st) auto
  show ?case
  proof (cases "r = 0")
    case True
    with Suc.prems st show ?thesis by (simp add: top_bits_def)
  next
    case False
    define k where "k = (if n - f < r then n - f else r)"
    define nb' where "nb' = push_bit k nb OR drop_bit (8 - k) b"
    define st' where "st' = (if f + k = n then (rg @ [nb'], 0, 0) else (rg, nb', f + k))"
    have k: "0 < k" "k \<le> r" "f + k \<le> n" using False Suc.prems(3) st by (auto simp: k_def)
    have t: "take_bit (f + k) nb' = nb'"
    proof (rule bit_eqI)
      fix i
      have "j < f" if "bit nb j" for j using that Suc.prems(3) st by (metis bit_take_bit_iff state_ok.simps)
      from this [of "i - k"] have "i < f + k" if "bit nb' i"
        using that bit_imp_le_length [of b] by (fastforce simp: nb'_def bit_simps)
      then show "bit (take_bit (f + k) nb') i = bit nb' i" by (auto simp: bit_take_bit_iff)
    qed
    have b: "low_bits (f + k) nb' = low_bits f nb @ top_bits k b"
      unfolding nb'_def using k assms(2) by (intro low_bits_append) simp
    have ok: "state_ok n st'" using Suc.prems(3) st k t assms(1) by (auto simp: st'_def)
    have bits: "state_bits n st' = state_bits n st @ top_bits k b"
      using b by (auto simp: st'_def st low_bits_def [of 0])
    have "extract_loop n (Suc fuel) b r st = extract_loop n fuel (push_bit k b) (r - k) st'"
      using False by (simp add: st k_def nb'_def st'_def Let_def)
    with Suc.IH [of "r - k" st' "push_bit k b"] Suc.prems k ok bits top_bits_push [of k "r - k" b] show ?thesis by simp
  qed
qed

lemma top_bits_shift: "n \<le> 8 \<Longrightarrow> top_bits n (push_bit (8 - n) b) = low_bits n b"
  by (auto simp: top_bits_def low_bits_def bit_simps)

definition converted :: "byte list \<Rightarrow> conversionType \<Rightarrow> regroup_state" where
  "converted data ct =
    fold (\<lambda>b. extract_loop (toBits ct) (fromBits ct) (push_bit (8 - fromBits ct) b) (fromBits ct)) data ([], 0, 0)"

lemma fold_bits:
  assumes "0 < toBits ct" "toBits ct \<le> 8" "fromBits ct \<le> 8" "state_ok (toBits ct) st"
  shows "let st' = fold (\<lambda>b. extract_loop (toBits ct) (fromBits ct) (push_bit (8 - fromBits ct) b) (fromBits ct)) data st
     in state_ok (toBits ct) st' \<and> state_bits (toBits ct) st' = state_bits (toBits ct) st @ concat (map (low_bits (fromBits ct)) data)"
  using assms(4)
proof (induction data arbitrary: st)
  case (Cons b data)
  let ?st = "extract_loop (toBits ct) (fromBits ct) (push_bit (8 - fromBits ct) b) (fromBits ct) st"
  have "state_ok (toBits ct) ?st \<and> state_bits (toBits ct) ?st = state_bits (toBits ct) st @ low_bits (fromBits ct) b"
    using extract_loop_bits [OF assms(1-3) order.refl Cons.prems, of "push_bit (8 - fromBits ct) b"] top_bits_shift [OF assms(3)]
    by simp
  with Cons.IH [of ?st] show ?case by (simp add: Let_def)
qed simp

lemma convertBits_bits:
  assumes "0 < toBits ct" "toBits ct \<le> 8" "fromBits ct \<le> 8"
  shows "\<exists>r. length r < toBits ct \<and> (\<forall>x \<in> set (convertBits data ct). take_bit (toBits ct) x = x) \<and>
    (if pad ct
     then concat (map (low_bits (toBits ct)) (convertBits data ct)) =
            concat (map (low_bits (fromBits ct)) data) @ replicate (length r) False
     else concat (map (low_bits (toBits ct)) (convertBits data ct)) @ r = concat (map (low_bits (fromBits ct)) data))"
proof -
  let ?n = "toBits ct"
  obtain rg nb f where st: "converted data ct = (rg, nb, f)" by (cases "converted data ct") auto
  have i: "state_ok ?n ([], 0, 0)" using assms by simp
  from fold_bits [OF assms i, of data] st
  have ok: "f < ?n" "\<forall>x \<in> set rg. take_bit ?n x = x" "take_bit f nb = nb"
    and bits: "concat (map (low_bits ?n) rg) @ low_bits f nb = concat (map (low_bits (fromBits ct)) data)"
    by (simp_all add: converted_def Let_def low_bits_def [of 0])
  have c: "convertBits data ct = (if pad ct \<and> f > 0 then rg @ [push_bit (?n - f) nb] else rg)"
    using st by (simp add: convertBits_def converted_def)
  have nb: "j < f" if "bit nb j" for j using that ok(3) by (metis bit_take_bit_iff)
  have p: "low_bits ?n (push_bit (?n - f) nb) = low_bits f nb @ replicate (?n - f) False"
    using ok(1) assms(2) by (intro nth_equalityI) (auto simp: low_bits_def nth_append bit_simps)
  have t: "take_bit ?n (push_bit (?n - f) nb) = push_bit (?n - f) nb"
  proof (rule bit_eqI)
    fix i
    show "bit (take_bit ?n (push_bit (?n - f) nb)) i = bit (push_bit (?n - f) nb) i"
      using nb [of "i - (?n - f)"] ok(1) by (auto simp: bit_simps)
  qed
  show ?thesis
  proof (cases "pad ct \<and> f > 0")
    case True
    with c p t ok(1,2) bits show ?thesis
      by (intro exI [of _ "replicate (?n - f) False"]) (simp flip: bits)
  next
    case False
    with c ok bits show ?thesis
      by (intro exI [of _ "low_bits f nb"]) (auto simp: low_bits_def [of 0])
  qed
qed

lemma low_bits_inj: "take_bit n a = a \<Longrightarrow> take_bit n b = b \<Longrightarrow> low_bits n a = low_bits n b \<Longrightarrow> a = b"
proof (rule bit_eqI)
  fix i assume a: "take_bit n a = a" "take_bit n b = b" "low_bits n a = low_bits n b"
  show "bit a i = bit b i"
  proof (cases "i < n")
    case True
    with arg_cong [OF a(3), of "\<lambda>l. l ! (n - 1 - i)"] show ?thesis by (simp add: low_bits_def)
  next
    case False
    with a(1,2) show ?thesis by (metis bit_take_bit_iff)
  qed
qed

lemma groups_inj:
  assumes "concat (map (low_bits n) xs) @ r = concat (map (low_bits n) ys) @ r'" "length r < n" "length r' < n"
    and "\<forall>x \<in> set xs. take_bit n x = x" "\<forall>y \<in> set ys. take_bit n y = y"
  shows "xs = ys"
  using assms(1,4,5)
proof (induction xs arbitrary: ys)
  case Nil
  then show ?case using assms(2) by (cases ys) (auto dest!: arg_cong [where f = length])
next
  case (Cons x xs)
  then obtain y ys' where y: "ys = y # ys'" using assms(3) by (cases ys) (auto dest!: arg_cong [where f = length])
  with Cons.prems have "low_bits n x = low_bits n y" "concat (map (low_bits n) xs) @ r = concat (map (low_bits n) ys') @ r'"
    by (simp_all add: append_eq_append_conv)
  with Cons y low_bits_inj [of n x y] show ?case by simp
qed

lemma convertBits_roundtrip: "convertBits (convertBits data eightToFiveBits) fiveToEightBits = data"
proof -
  let ?xs = "convertBits data eightToFiveBits" and ?ys = "convertBits (convertBits data eightToFiveBits) fiveToEightBits"
  obtain p where p: "p < 5" "concat (map (low_bits 5) ?xs) = concat (map (low_bits 8) data) @ replicate p False"
    using convertBits_bits [of eightToFiveBits data] by (auto simp: eightToFiveBits_def)
  obtain r where r: "length r < 8" "\<forall>x \<in> set ?ys. take_bit 8 x = x" "concat (map (low_bits 8) ?ys) @ r = concat (map (low_bits 5) ?xs)"
    using convertBits_bits [of fiveToEightBits ?xs] by (auto simp: fiveToEightBits_def)
  have "take_bit 8 x = x" for x :: byte by (rule bit_eqI) (auto simp: bit_take_bit_iff dest: bit_imp_le_length)
  then show ?thesis
    using groups_inj [of 8 ?ys r data "replicate p False"] p r by simp
qed

section \<open>Round trip of addresses\<close>

definition prefix_ok :: "string \<Rightarrow> bool" where
  "prefix_ok p \<longleftrightarrow> p \<noteq> [] \<and> (\<forall>c \<in> set p. 33 \<le> (of_char c :: nat) \<and> (of_char c :: nat) \<le> 126 \<and> toLower c = c)"

lemma charset_index: "i < 32 \<Longrightarrow> IndexByte charset (charset ! i) = Some i"
proof -
  have "\<forall>i \<in> set [0..<32]. IndexByte charset (charset ! i) = Some i" by code_simp
  then show "i < 32 \<Longrightarrow> IndexByte charset (charset ! i) = Some i" by simp
qed

lemma charset_ok:
  "c \<in> set charset \<Longrightarrow> 33 \<le> (of_char c :: nat) \<and> (of_char c :: nat) \<le> 126 \<and> toLower c = c \<and> c \<noteq> CHR '':''"
proof -
  have "\<forall>c \<in> set charset. 33 \<le> (of_char c :: nat) \<and> (of_char c :: nat) \<le> 126 \<and> toLower c = c \<and> c \<noteq> CHR '':''"
    by code_simp
  then show "c \<in> set charset \<Longrightarrow> 33 \<le> (of_char c :: nat) \<and> (of_char c :: nat) \<le> 126 \<and> toLower c = c \<and> c \<noteq> CHR '':''"
    by blast
qed

lemma charset_length: "length charset = 32"
  by (simp add: charset_def)

lemma encodeToBase32_eq: "\<forall>b \<in> set data. b < 32 \<Longrightarrow> encodeToBase32 data = map (\<lambda>b. charset ! unat b) data"
  by (auto simp: encodeToBase32_def charset_length word_less_nat_alt dest!: bspec)

lemma encodeToBase32_set: "\<forall>b \<in> set data. b < 32 \<Longrightarrow> set (encodeToBase32 data) \<subseteq> set charset"
  by (auto simp: encodeToBase32_eq word_less_nat_alt charset_length)

lemma decodeFromBase32_encode: "\<forall>b \<in> set data. b < 32 \<Longrightarrow> decodeFromBase32 (encodeToBase32 data) = Inr data"
proof -
  have "\<forall>b \<in> set data. b < 32 \<Longrightarrow> decodeFromBase32 (map (\<lambda>b. charset ! unat b) data) = Inr data"
    by (induction data) (simp_all add: charset_index word_less_nat_alt)
  then show "\<forall>b \<in> set data. b < 32 \<Longrightarrow> decodeFromBase32 (encodeToBase32 data) = Inr data" by (simp add: encodeToBase32_eq)
qed

lemma LastIndexByte_append: "c \<notin> set s \<Longrightarrow> LastIndexByte (p @ c # s) c = Some (length p)"
proof -
  assume "c \<notin> set s"
  then have "LastIndexByte s c = None" by (induction s) auto
  then show ?thesis by (induction p) simp_all
qed

lemma calculateChecksum_5bits: "length (calculateChecksum prefix data) = 8" "\<forall>b \<in> set (calculateChecksum prefix data). b < 32"
proof -
  have "(word_of_int (x AND 31) :: byte) < 32" for x :: int
    using AND_upper2 [of 31 x] by (simp add: word_less_def uint_word_of_int)
  then show "\<forall>b \<in> set (calculateChecksum prefix data). b < 32" by (auto simp: calculateChecksum_def Let_def)
qed (simp add: calculateChecksum_def checksumLength_def)

lemma decode_encode:
  assumes "prefix_ok prefix" "\<forall>b \<in> set data. b < 32"
  shows "decode (encode prefix data) = Inr (prefix, data)"
proof -
  let ?d = "data @ calculateChecksum prefix data"
  let ?s = "prefix @ CHR '':'' # encodeToBase32 ?d"
  have d: "\<forall>b \<in> set ?d. b < 32" using assms(2) calculateChecksum_5bits(2) by auto
  have l: "length (encodeToBase32 ?d) = length data + 8" using d by (simp add: encodeToBase32_eq calculateChecksum_5bits(1))
  have ok: "33 \<le> (of_char c :: nat) \<and> (of_char c :: nat) \<le> 126 \<and> toLower c = c" if "c \<in> set ?s" for c
    using that assms(1) encodeToBase32_set [OF d] charset_ok [of c]
    by (auto simp: prefix_ok_def toLower_def)
  then have f: "find (\<lambda>c. (of_char c :: nat) < 33 \<or> (of_char c :: nat) > 126) ?s = None"
    by (auto simp: find_None_iff not_less)
  have m: "map toLower ?s = ?s" using ok by (intro map_idI) blast
  have i: "LastIndexByte ?s CHR '':'' = Some (length prefix)"
    using encodeToBase32_set [OF d] charset_ok by (intro LastIndexByte_append) blast
  have ne: "prefix \<noteq> []" using assms(1) by (simp add: prefix_ok_def)
  then have n: "1 \<le> length prefix" by (cases prefix) simp_all
  show ?thesis
    unfolding decode_def encode_def Let_def append_Cons append_Nil f m i
    using ne n l decodeFromBase32_encode [OF d] calculateChecksum_verifies [of prefix data]
    by (simp add: checksumLength_def calculateChecksum_5bits(1))
qed

lemma eightToFive_5bits: "\<forall>b \<in> set (convertBits data eightToFiveBits). b < 32"
proof -
  have "\<forall>x \<in> set (convertBits data eightToFiveBits). take_bit 5 x = x"
    using convertBits_bits [of eightToFiveBits data] by (auto simp: eightToFiveBits_def)
  moreover have "x < 32" if "take_bit 5 x = x" for x :: byte
  proof -
    have "uint x = take_bit 5 (uint x)" using that by (metis unsigned_take_bit_eq)
    also have "\<dots> < 2 ^ 5" by (rule take_bit_int_less_exp)
    finally show ?thesis by (simp add: word_less_def)
  qed
  ultimately show ?thesis by blast
qed

lemma Decode_Encode:
  assumes "prefix_ok prefix"
  shows "Decode (Encode prefix payload version) = Inr (prefix, payload, version)"
  by (simp add: Decode_def Encode_def decode_encode [OF assms eightToFive_5bits] convertBits_roundtrip Let_def)

lemma convertBits_short: "length data \<le> 1 \<Longrightarrow> convertBits data fiveToEightBits = []"
proof -
  assume l: "length data \<le> 1"
  obtain r where "concat (map (low_bits 8) (convertBits data fiveToEightBits)) @ r = concat (map (low_bits 5) data)"
    using convertBits_bits [of fiveToEightBits data] by (auto simp: fiveToEightBits_def)
  from arg_cong [OF this, of length]
  have "8 * length (convertBits data fiveToEightBits) + length r = 5 * length data"
    by (simp add: length_concat comp_def sum_list_triv mult.commute)
  with l have "length (convertBits data fiveToEightBits) = 0" by linarith
  then show ?thesis by simp
qed

text \<open>
  C38: \<^verbatim>\<open>Decode\<close> panics on a well-formed string without a full data byte.  For every prefix there are
  strings with a correct checksum, such as the encoding of no data at all, for which the index of
  the version byte is out of range.
\<close>

theorem Decode_panics_without_version:
  assumes "prefix_ok prefix" "length data \<le> 1" "\<forall>b \<in> set data. b < 32"
  shows "Decode (encode prefix data) = Inl Panic"
  using assms by (simp add: Decode_def decode_encode convertBits_short)

theorem Decode_panics_without_version_witness: "Decode (encode ''kaspa'' []) = Inl Panic"
proof -
  have "prefix_ok ''kaspa''" by code_simp
  with Decode_panics_without_version [of "''kaspa''" "[]"] show ?thesis by simp
qed

end
