(* ===== verification/Addresses.thy ===== *)
theory Addresses
  imports Bech32 Consensus_Hashing
begin

text \<open>
  Addresses, \<^verbatim>\<open>util/address.go\<close>.  The three structures that implement the interface \<^verbatim>\<open>Address\<close> are the
  constructors of a datatype, their methods functions by cases.  A \<^verbatim>\<open>copy\<close> into an array of the size
  that was checked before is the copied list.
\<close>

section \<open>Prefixes\<close>

datatype Bech32Prefix =
    Bech32PrefixUnknown
  | Bech32PrefixKaspa
  | Bech32PrefixKaspaDev
  | Bech32PrefixKaspaTest
  | Bech32PrefixKaspaSim

definition stringsToBech32Prefixes :: "(string \<times> Bech32Prefix) list" where
  "stringsToBech32Prefixes =
    [(''kaspa'', Bech32PrefixKaspa), (''kaspadev'', Bech32PrefixKaspaDev), (''kaspatest'', Bech32PrefixKaspaTest),
     (''kaspasim'', Bech32PrefixKaspaSim)]"

datatype AddressError =
    UnknownFormat Bech32Error
  | PrefixNotParsed string
  | WrongNetwork Bech32Prefix Bech32Prefix
  | WrongPublicKeySize nat
  | WrongScriptHashSize nat
  | ErrUnknownAddressType

type_synonym 'a address_result = "(AddressError, 'a) result"

definition ParsePrefix :: "string \<Rightarrow> Bech32Prefix address_result" where
  "ParsePrefix prefixString =
    (case map_of stringsToBech32Prefixes prefixString of
       None \<Rightarrow> Inl (Err (PrefixNotParsed prefixString))
     | Some prefix \<Rightarrow> Inr prefix)"

text \<open>The map has one key for a value, so the order of the loop does not matter.\<close>

definition prefix_String :: "Bech32Prefix \<Rightarrow> string" where
  "prefix_String prefix =
    (case find (\<lambda>(key, value). prefix = value) stringsToBech32Prefixes of
       Some (key, value) \<Rightarrow> key
     | None \<Rightarrow> '''')"

section \<open>The three types of addresses\<close>

definition pubKeyAddrID :: byte where "pubKeyAddrID = 0x00"
definition pubKeyECDSAAddrID :: byte where "pubKeyECDSAAddrID = 0x01"
definition scriptHashAddrID :: byte where "scriptHashAddrID = 0x08"

definition PublicKeySize :: nat where "PublicKeySize = 32"
definition PublicKeySizeECDSA :: nat where "PublicKeySizeECDSA = 33"
definition ScriptHashSize :: nat where "ScriptHashSize = 32"

datatype Address =
    AddressPublicKey Bech32Prefix "byte list"
  | AddressPublicKeyECDSA Bech32Prefix "byte list"
  | AddressScriptHash Bech32Prefix "byte list"

definition encodeAddress :: "Bech32Prefix \<Rightarrow> byte list \<Rightarrow> byte \<Rightarrow> string" where
  "encodeAddress prefix payload version = Encode (prefix_String prefix) payload version"

definition newAddressPubKey :: "Bech32Prefix \<Rightarrow> byte list \<Rightarrow> Address address_result" where
  "newAddressPubKey prefix publicKey =
    (if length publicKey \<noteq> PublicKeySize then Inl (Err (WrongPublicKeySize PublicKeySize))
     else Inr (AddressPublicKey prefix publicKey))"

definition NewAddressPublicKey :: "byte list \<Rightarrow> Bech32Prefix \<Rightarrow> Address address_result" where
  "NewAddressPublicKey publicKey prefix = newAddressPubKey prefix publicKey"

definition newAddressPubKeyECDSA :: "Bech32Prefix \<Rightarrow> byte list \<Rightarrow> Address address_result" where
  "newAddressPubKeyECDSA prefix publicKey =
    (if length publicKey \<noteq> PublicKeySizeECDSA then Inl (Err (WrongPublicKeySize PublicKeySizeECDSA))
     else Inr (AddressPublicKeyECDSA prefix publicKey))"

definition NewAddressPublicKeyECDSA :: "byte list \<Rightarrow> Bech32Prefix \<Rightarrow> Address address_result" where
  "NewAddressPublicKeyECDSA publicKey prefix = newAddressPubKeyECDSA prefix publicKey"

definition newAddressScriptHashFromHash :: "Bech32Prefix \<Rightarrow> byte list \<Rightarrow> Address address_result" where
  "newAddressScriptHashFromHash prefix scriptHash =
    (if length scriptHash \<noteq> ScriptHashSize then Inl (Err (WrongScriptHashSize ScriptHashSize))
     else Inr (AddressScriptHash prefix scriptHash))"

definition NewAddressScriptHashFromHash :: "byte list \<Rightarrow> Bech32Prefix \<Rightarrow> Address address_result" where
  "NewAddressScriptHashFromHash scriptHash prefix = newAddressScriptHashFromHash prefix scriptHash"

text \<open>\<^verbatim>\<open>HashBlake2b\<close> of \<^verbatim>\<open>util/blake2b.go\<close> is the unkeyed hash of the library.\<close>

definition HashBlake2b :: "hash_functions \<Rightarrow> byte list \<Rightarrow> byte list" where
  "HashBlake2b H buf = blake2b_256 H [] buf"

definition NewAddressScriptHash :: "hash_functions \<Rightarrow> byte list \<Rightarrow> Bech32Prefix \<Rightarrow> Address address_result" where
  "NewAddressScriptHash H serializedScript prefix =
    newAddressScriptHashFromHash prefix (HashBlake2b H serializedScript)"

fun EncodeAddress :: "Address \<Rightarrow> string" where
  "EncodeAddress (AddressPublicKey prefix publicKey) = encodeAddress prefix publicKey pubKeyAddrID"
| "EncodeAddress (AddressPublicKeyECDSA prefix publicKey) = encodeAddress prefix publicKey pubKeyECDSAAddrID"
| "EncodeAddress (AddressScriptHash prefix hash) = encodeAddress prefix hash scriptHashAddrID"

fun ScriptAddress :: "Address \<Rightarrow> byte list" where
  "ScriptAddress (AddressPublicKey prefix publicKey) = publicKey"
| "ScriptAddress (AddressPublicKeyECDSA prefix publicKey) = publicKey"
| "ScriptAddress (AddressScriptHash prefix hash) = hash"

fun addr_Prefix :: "Address \<Rightarrow> Bech32Prefix" where
  "addr_Prefix (AddressPublicKey prefix publicKey) = prefix"
| "addr_Prefix (AddressPublicKeyECDSA prefix publicKey) = prefix"
| "addr_Prefix (AddressScriptHash prefix hash) = prefix"

definition IsForPrefix :: "Address \<Rightarrow> Bech32Prefix \<Rightarrow> bool" where
  "IsForPrefix a prefix \<longleftrightarrow> addr_Prefix a = prefix"

definition addr_String :: "Address \<Rightarrow> string" where
  "addr_String a = EncodeAddress a"

definition DecodeAddress :: "string \<Rightarrow> Bech32Prefix \<Rightarrow> Address address_result" where
  "DecodeAddress addr expectedPrefix =
    (case Decode addr of
       Inl Panic \<Rightarrow> Inl Panic
     | Inl (Err err) \<Rightarrow> Inl (Err (UnknownFormat err))
     | Inr (prefixString, decoded, version) \<Rightarrow>
         rbind (ParsePrefix prefixString) (\<lambda>prefix.
           if expectedPrefix \<noteq> Bech32PrefixUnknown \<and> expectedPrefix \<noteq> prefix
           then Inl (Err (WrongNetwork expectedPrefix prefix))
           else if version = pubKeyAddrID then newAddressPubKey prefix decoded
           else if version = pubKeyECDSAAddrID then newAddressPubKeyECDSA prefix decoded
           else if version = scriptHashAddrID then newAddressScriptHashFromHash prefix decoded
           else Inl (Err ErrUnknownAddressType)))"

section \<open>Properties\<close>

text \<open>The addresses of a known network with a payload of the size of their type.\<close>

fun payload_ok :: "Address \<Rightarrow> bool" where
  "payload_ok (AddressPublicKey prefix publicKey) \<longleftrightarrow> length publicKey = PublicKeySize"
| "payload_ok (AddressPublicKeyECDSA prefix publicKey) \<longleftrightarrow> length publicKey = PublicKeySizeECDSA"
| "payload_ok (AddressScriptHash prefix hash) \<longleftrightarrow> length hash = ScriptHashSize"

lemma prefix_roundtrip:
  assumes "prefix \<noteq> Bech32PrefixUnknown"
  shows "prefix_ok (prefix_String prefix)" "ParsePrefix (prefix_String prefix) = Inr prefix"
proof -
  have "list_all (\<lambda>p. prefix_ok (prefix_String p) \<and> map_of stringsToBech32Prefixes (prefix_String p) = Some p)
      [Bech32PrefixKaspa, Bech32PrefixKaspaDev, Bech32PrefixKaspaTest, Bech32PrefixKaspaSim]" by code_simp
  with assms show "prefix_ok (prefix_String prefix)" "ParsePrefix (prefix_String prefix) = Inr prefix"
    by (cases prefix; simp add: ParsePrefix_def)+
qed

text \<open>
  C25: Addresses survive printing and parsing.  \<^verbatim>\<open>DecodeAddress\<close> of the string of an address of a known
  network gives back the same address, of the same type and with the same payload, if the expected
  prefix is unknown or the one of the address, and rejects it as one of a wrong network otherwise.
\<close>

theorem DecodeAddress_EncodeAddress:
  assumes "payload_ok a" "addr_Prefix a \<noteq> Bech32PrefixUnknown"
  shows "DecodeAddress (EncodeAddress a) expected =
    (if expected = Bech32PrefixUnknown \<or> IsForPrefix a expected then Inr a
     else Inl (Err (WrongNetwork expected (addr_Prefix a))))"
  using assms prefix_roundtrip [OF assms(2)]
  by (cases a) (simp_all add: DecodeAddress_def encodeAddress_def Decode_Encode newAddressPubKey_def
      newAddressPubKeyECDSA_def newAddressScriptHashFromHash_def pubKeyAddrID_def pubKeyECDSAAddrID_def scriptHashAddrID_def
      IsForPrefix_def)

theorem DecodeAddress_EncodeAddress_witness:
  "DecodeAddress (EncodeAddress (AddressScriptHash Bech32PrefixKaspaTest (replicate 32 7))) Bech32PrefixKaspaTest =
     Inr (AddressScriptHash Bech32PrefixKaspaTest (replicate 32 7)) \<and>
   DecodeAddress (EncodeAddress (AddressPublicKeyECDSA Bech32PrefixKaspa (replicate 33 7))) Bech32PrefixKaspaTest =
     Inl (Err (WrongNetwork Bech32PrefixKaspaTest Bech32PrefixKaspa))"
  using DecodeAddress_EncodeAddress [of "AddressScriptHash Bech32PrefixKaspaTest (replicate 32 7)" Bech32PrefixKaspaTest]
    DecodeAddress_EncodeAddress [of "AddressPublicKeyECDSA Bech32PrefixKaspa (replicate 33 7)" Bech32PrefixKaspaTest]
  by (simp add: IsForPrefix_def ScriptHashSize_def PublicKeySizeECDSA_def)

end
