(* ===== verification/Standard_Scripts.thy ===== *)
theory Standard_Scripts
  imports Script_Builder Addresses
begin

text \<open>
  Standard scripts, \<^verbatim>\<open>txscript/standard.go\<close>: the classes of scripts, the scripts that pay to an address,
  and the address a script pays to.  The parser leaves the data of an opcode without data nil and
  makes it a slice, possibly an empty one, for every opcode with data; \<open>dataNotNil\<close> is the comparison
  with nil.
\<close>

section \<open>Classes of scripts\<close>

datatype ScriptClass = NonStandardTy | PubKeyTy | PubKeyECDSATy | ScriptHashTy

definition isPayToPubkey :: "parsedOpcode list \<Rightarrow> bool" where
  "isPayToPubkey pops \<longleftrightarrow> length pops = 2 \<and> pop_value (pops ! 0) = OpData32 \<and> pop_value (pops ! 1) = OpCheckSig"

definition isPayToPubkeyECDSA :: "parsedOpcode list \<Rightarrow> bool" where
  "isPayToPubkeyECDSA pops \<longleftrightarrow>
     length pops = 2 \<and> pop_value (pops ! 0) = OpData33 \<and> pop_value (pops ! 1) = OpCheckSigECDSA"

definition typeOfScript :: "parsedOpcode list \<Rightarrow> ScriptClass" where
  "typeOfScript pops =
    (if isPayToPubkey pops then PubKeyTy
     else if isPayToPubkeyECDSA pops then PubKeyECDSATy
     else if isScriptHash pops then ScriptHashTy
     else NonStandardTy)"

definition GetScriptClass :: "byte list \<Rightarrow> ScriptClass" where
  "GetScriptClass script =
    (case parseScript script of
       (pops, Some err) \<Rightarrow> NonStandardTy
     | (pops, None) \<Rightarrow> typeOfScript pops)"

definition scriptClassToName :: "string list" where
  "scriptClassToName = [''nonstandard'', ''pubkey'', ''pubkeyecdsa'', ''scripthash'']"

text \<open>The method \<^verbatim>\<open>String\<close>, on the byte that represents the class; indexing out of range panics.\<close>

definition ScriptClass_String :: "byte \<Rightarrow> (unit, string) result" where
  "ScriptClass_String t =
    (if unat t > length scriptClassToName then Inr ''Invalid''
     else if unat t \<ge> length scriptClassToName then Inl Panic
     else Inr (scriptClassToName ! unat t))"

definition expectedInputs :: "parsedOpcode list \<Rightarrow> ScriptClass \<Rightarrow> int" where
  "expectedInputs pops class =
    (case class of
       PubKeyTy \<Rightarrow> 1
     | ScriptHashTy \<Rightarrow> 1
     | _ \<Rightarrow> - 1)"

record ScriptInfo =
  ScriptPubKeyClass :: ScriptClass
  NumInputs :: int
  ExpectedInputs :: int
  SigOps :: int

definition CalcScriptInfo :: "byte list \<Rightarrow> byte list \<Rightarrow> bool \<Rightarrow> ScriptInfo script_result" where
  "CalcScriptInfo sigScript scriptPubKey bip16 =
    rbind (parseScript_result sigScript) (\<lambda>sigPops.
    rbind (parseScript_result scriptPubKey) (\<lambda>scriptPubKeyPops.
      let class = typeOfScript scriptPubKeyPops
      in if \<not> isPushOnly sigPops then scriptError ErrNotPushOnly
         else
           let si = \<lparr>ScriptPubKeyClass = class, NumInputs = int (length sigPops),
                     ExpectedInputs = expectedInputs scriptPubKeyPops class, SigOps = 0\<rparr>
           in if class = ScriptHashTy \<and> bip16 then
                (if sigPops = [] then Inl Panic
                 else
                   let script = pop_data (sigPops ! (length sigPops - 1))
                   in rbind (parseScript_result script) (\<lambda>shPops.
                        let shInputs = expectedInputs shPops (typeOfScript shPops);
                            si = (if shInputs = - 1 then si\<lparr>ExpectedInputs := - 1\<rparr>
                                  else si\<lparr>ExpectedInputs := ExpectedInputs si + shInputs\<rparr>)
                        in Inr (si\<lparr>SigOps := getSigOpCount shPops True\<rparr>)))
              else Inr (si\<lparr>SigOps := getSigOpCount scriptPubKeyPops True\<rparr>)))"

section \<open>Scripts that pay to an address\<close>

definition payToPubKeyScript :: "byte list \<Rightarrow> byte list \<times> ErrScriptNotCanonical option" where
  "payToPubKeyScript pubKey = Script (AddOp (AddData NewScriptBuilder pubKey) OpCheckSig)"

definition payToPubKeyScriptECDSA :: "byte list \<Rightarrow> byte list \<times> ErrScriptNotCanonical option" where
  "payToPubKeyScriptECDSA pubKey = Script (AddOp (AddData NewScriptBuilder pubKey) OpCheckSigECDSA)"

definition payToScriptHashScript :: "byte list \<Rightarrow> byte list \<times> ErrScriptNotCanonical option" where
  "payToScriptHashScript scriptHash =
    Script (AddOp (AddData (AddOp NewScriptBuilder OpBlake2b) scriptHash) OpEqual)"

datatype StandardError =
    StdScriptError ErrorCode
  | StdNotCanonical ErrScriptNotCanonical
  | UnknownScriptVersion

type_synonym 'a std_result = "(StandardError, 'a) result"

text \<open>
  \<^verbatim>\<open>PayToAddrScript\<close>: the argument is nil or one of the three implementations of the interface; a
  value of another type gives the same error as nil.
\<close>

definition addressPublicKeyScriptPublicKeyVersion :: u16 where "addressPublicKeyScriptPublicKeyVersion = 0"
definition addressPublicKeyECDSAScriptPublicKeyVersion :: u16 where "addressPublicKeyECDSAScriptPublicKeyVersion = 0"
definition addressScriptHashScriptPublicKeyVersion :: u16 where "addressScriptHashScriptPublicKeyVersion = 0"

definition PayToAddrScript :: "Address option \<Rightarrow> ScriptPublicKey std_result" where
  "PayToAddrScript addr =
    (case addr of
       None \<Rightarrow> Inl (Err (StdScriptError ErrUnsupportedAddress))
     | Some a \<Rightarrow>
         let ((script, err), version) =
               (case a of
                  AddressPublicKey _ _ \<Rightarrow> (payToPubKeyScript (ScriptAddress a), addressPublicKeyScriptPublicKeyVersion)
                | AddressPublicKeyECDSA _ _ \<Rightarrow>
                    (payToPubKeyScriptECDSA (ScriptAddress a), addressPublicKeyECDSAScriptPublicKeyVersion)
                | AddressScriptHash _ _ \<Rightarrow> (payToScriptHashScript (ScriptAddress a), addressScriptHashScriptPublicKeyVersion))
         in case err of
              Some e \<Rightarrow> Inl (Err (StdNotCanonical e))
            | None \<Rightarrow> Inr \<lparr>spk_Script = script, spk_Version = version\<rparr>)"

definition PayToScriptHashScript :: "hash_functions \<Rightarrow> byte list \<Rightarrow> byte list std_result" where
  "PayToScriptHashScript H redeemScript =
    (let redeemScriptHash = HashBlake2b H redeemScript;
         (script, err) = Script (AddOp (AddData (AddOp NewScriptBuilder OpBlake2b) redeemScriptHash) OpEqual)
     in case err of Some e \<Rightarrow> Inl (Err (StdNotCanonical e)) | None \<Rightarrow> Inr script)"

definition PayToScriptHashSignatureScript :: "byte list \<Rightarrow> byte list \<Rightarrow> byte list std_result" where
  "PayToScriptHashSignatureScript redeemScript signature =
    (let (redeemScriptAsData, err) = Script (AddData NewScriptBuilder redeemScript)
     in case err of Some e \<Rightarrow> Inl (Err (StdNotCanonical e)) | None \<Rightarrow> Inr (signature @ redeemScriptAsData))"

section \<open>Reading scripts\<close>

definition dataNotNil :: "parsedOpcode \<Rightarrow> bool" where
  "dataNotNil pop \<longleftrightarrow> op_length (pop_opcode pop) \<noteq> 1"

definition PushedData :: "byte list \<Rightarrow> byte list list script_result" where
  "PushedData script =
    rbind (parseScript_result script) (\<lambda>pops.
      Inr (concat (map (\<lambda>pop. if dataNotNil pop then [pop_data pop]
                              else if pop_value pop = Op0 then [[]] else []) pops)))"

definition ExtractScriptPubKeyAddress ::
  "ScriptPublicKey \<Rightarrow> Bech32Prefix \<Rightarrow> (ScriptClass \<times> Address option) std_result" where
  "ExtractScriptPubKeyAddress scriptPubKey prefix =
    (if spk_Version scriptPubKey > MaxScriptPublicKeyVersion then Inl (Err UnknownScriptVersion)
     else case parseScript (spk_Script scriptPubKey) of
       (pops, Some (Err err)) \<Rightarrow> Inl (Err (StdScriptError err))
     | (pops, Some Panic) \<Rightarrow> Inl Panic
     | (pops, None) \<Rightarrow>
         let scriptClass = typeOfScript pops
         in case scriptClass of
              PubKeyTy \<Rightarrow>
                (case NewAddressPublicKey (pop_data (pops ! 0)) prefix of
                   Inl _ \<Rightarrow> Inr (scriptClass, None) | Inr addr \<Rightarrow> Inr (scriptClass, Some addr))
            | PubKeyECDSATy \<Rightarrow>
                (case NewAddressPublicKeyECDSA (pop_data (pops ! 0)) prefix of
                   Inl _ \<Rightarrow> Inr (scriptClass, None) | Inr addr \<Rightarrow> Inr (scriptClass, Some addr))
            | ScriptHashTy \<Rightarrow>
                (case NewAddressScriptHashFromHash (pop_data (pops ! 1)) prefix of
                   Inl _ \<Rightarrow> Inr (scriptClass, None) | Inr addr \<Rightarrow> Inr (scriptClass, Some addr))
            | NonStandardTy \<Rightarrow> Inr (NonStandardTy, None))"

record AtomicSwapDataPushes =
  RecipientBlake2b :: "byte list"
  RefundBlake2b :: "byte list"
  SecretHash :: "byte list"
  SecretSize :: int
  asw_LockTime :: u64

text \<open>\<^verbatim>\<open>copy\<close> of a slice into an array of 32 bytes.\<close>

definition copy32 :: "byte list \<Rightarrow> byte list" where
  "copy32 data = take 32 data @ replicate (32 - length data) 0"

text \<open>The number that an opcode of the contract pushes, if it has one; \<open>None\<close> ends the extraction.\<close>

definition swapNumber :: "parsedOpcode \<Rightarrow> int option" where
  "swapNumber pop =
    (if dataNotNil pop then
       (case makeScriptNum (pop_data pop) 5 of Inl _ \<Rightarrow> None | Inr locktime \<Rightarrow> Some locktime)
     else if isSmallInt (pop_opcode pop) then Some (asSmallInt (pop_opcode pop))
     else None)"

definition ExtractAtomicSwapDataPushes :: "u16 \<Rightarrow> byte list \<Rightarrow> AtomicSwapDataPushes option script_result" where
  "ExtractAtomicSwapDataPushes version scriptPubKey =
    rbind (parseScript_result scriptPubKey) (\<lambda>pops.
      if length pops \<noteq> 20 then Inr None
      else
        let isAtomicSwap =
              pop_value (pops ! 0) = OpIf \<and> pop_value (pops ! 1) = OpSize \<and> canonicalPush (pops ! 2) \<and>
              pop_value (pops ! 3) = OpEqualVerify \<and> pop_value (pops ! 4) = OpSHA256 \<and> pop_value (pops ! 5) = OpData32 \<and>
              pop_value (pops ! 6) = OpEqualVerify \<and> pop_value (pops ! 7) = OpDup \<and> pop_value (pops ! 8) = OpBlake2b \<and>
              pop_value (pops ! 9) = OpData32 \<and> pop_value (pops ! 10) = OpElse \<and> canonicalPush (pops ! 11) \<and>
              pop_value (pops ! 12) = OpCheckLockTimeVerify \<and> pop_value (pops ! 13) = OpDrop \<and>
              pop_value (pops ! 14) = OpDup \<and> pop_value (pops ! 15) = OpBlake2b \<and> pop_value (pops ! 16) = OpData32 \<and>
              pop_value (pops ! 17) = OpEndIf \<and> pop_value (pops ! 18) = OpEqualVerify \<and> pop_value (pops ! 19) = OpCheckSig
        in if \<not> isAtomicSwap then Inr None
           else case swapNumber (pops ! 2) of
             None \<Rightarrow> Inr None
           | Some secretSize \<Rightarrow>
               (case swapNumber (pops ! 11) of
                  None \<Rightarrow> Inr None
                | Some lockTime \<Rightarrow>
                    Inr (Some \<lparr>RecipientBlake2b = copy32 (pop_data (pops ! 9)), RefundBlake2b = copy32 (pop_data (pops ! 16)),
                      SecretHash = copy32 (pop_data (pops ! 5)), SecretSize = secretSize, asw_LockTime = word_of_int lockTime\<rparr>)))"

section \<open>Payment and extraction\<close>

fun class_of :: "Address \<Rightarrow> ScriptClass" where
  "class_of (AddressPublicKey prefix publicKey) = PubKeyTy"
| "class_of (AddressPublicKeyECDSA prefix publicKey) = PubKeyECDSATy"
| "class_of (AddressScriptHash prefix hash) = ScriptHashTy"

lemma AddData_fresh:
  assumes "length data = 32 \<or> length data = 33" "length s \<le> 1"
  shows "AddData \<lparr>sb_script = s, sb_err = None\<rparr> data = \<lparr>sb_script = s @ of_nat (length data) # data, sb_err = None\<rparr>"
  using assms
  by (auto simp: AddData_def addData_def canonicalDataSize_def Let_def MaxScriptSize_def MaxScriptElementSize_def)

lemma AddOp_short: "length s < 100 \<Longrightarrow> AddOp \<lparr>sb_script = s, sb_err = None\<rparr> opcode = \<lparr>sb_script = s @ [opcode], sb_err = None\<rparr>"
  by (simp add: AddOp_def MaxScriptSize_def)

lemma pay_scripts:
  "length pk = 32 \<Longrightarrow> payToPubKeyScript pk = (OpData32 # pk @ [OpCheckSig], None)"
  "length pk' = 33 \<Longrightarrow> payToPubKeyScriptECDSA pk' = (OpData33 # pk' @ [OpCheckSigECDSA], None)"
  "length h = 32 \<Longrightarrow> payToScriptHashScript h = (OpBlake2b # OpData32 # h @ [OpEqual], None)"
  by (simp_all add: payToPubKeyScript_def payToPubKeyScriptECDSA_def payToScriptHashScript_def NewScriptBuilder_def
      AddData_fresh AddOp_short Script_def)

lemma parse_pay_scripts:
  "length pk = 32 \<Longrightarrow> parseScript (OpData32 # pk @ [OpCheckSig]) =
     ([\<lparr>pop_opcode = opcodeArray OpData32, pop_data = pk\<rparr>, \<lparr>pop_opcode = opcodeArray OpCheckSig, pop_data = []\<rparr>], None)"
  "length pk' = 33 \<Longrightarrow> parseScript (OpData33 # pk' @ [OpCheckSigECDSA]) =
     ([\<lparr>pop_opcode = opcodeArray OpData33, pop_data = pk'\<rparr>, \<lparr>pop_opcode = opcodeArray OpCheckSigECDSA, pop_data = []\<rparr>], None)"
  "length h = 32 \<Longrightarrow> parseScript (OpBlake2b # OpData32 # h @ [OpEqual]) =
     ([\<lparr>pop_opcode = opcodeArray OpBlake2b, pop_data = []\<rparr>, \<lparr>pop_opcode = opcodeArray OpData32, pop_data = h\<rparr>,
       \<lparr>pop_opcode = opcodeArray OpEqual, pop_data = []\<rparr>], None)"
  by (simp_all add: parseScript_Cons parseOpcode_data [of _ 32] parseOpcode_data [of _ 33] parseOpcode_single opcodeArray_templates)

lemma PayToAddrScript_eq:
  "payload_ok (AddressPublicKey p pk) \<Longrightarrow>
     PayToAddrScript (Some (AddressPublicKey p pk)) = Inr \<lparr>spk_Script = OpData32 # pk @ [OpCheckSig], spk_Version = 0\<rparr>"
  "payload_ok (AddressPublicKeyECDSA p pk) \<Longrightarrow>
     PayToAddrScript (Some (AddressPublicKeyECDSA p pk)) = Inr \<lparr>spk_Script = OpData33 # pk @ [OpCheckSigECDSA], spk_Version = 0\<rparr>"
  "payload_ok (AddressScriptHash p h) \<Longrightarrow>
     PayToAddrScript (Some (AddressScriptHash p h)) = Inr \<lparr>spk_Script = OpBlake2b # OpData32 # h @ [OpEqual], spk_Version = 0\<rparr>"
  by (simp_all add: PayToAddrScript_def pay_scripts PublicKeySize_def PublicKeySizeECDSA_def ScriptHashSize_def
      addressPublicKeyScriptPublicKeyVersion_def addressPublicKeyECDSAScriptPublicKeyVersion_def
      addressScriptHashScriptPublicKeyVersion_def)

lemma Extract_PayToAddrScript:
  assumes "payload_ok a" "PayToAddrScript (Some a) = Inr spk"
  shows "ExtractScriptPubKeyAddress spk (addr_Prefix a) = Inr (class_of a, Some a)"
  using assms
  by (cases a)
    (auto simp: PayToAddrScript_eq PublicKeySize_def PublicKeySizeECDSA_def ScriptHashSize_def ExtractScriptPubKeyAddress_def MaxScriptPublicKeyVersion_def
      parse_pay_scripts typeOfScript_def isPayToPubkey_def isPayToPubkeyECDSA_def isScriptHash_def
      NewAddressPublicKey_def newAddressPubKey_def NewAddressPublicKeyECDSA_def newAddressPubKeyECDSA_def
      NewAddressScriptHashFromHash_def newAddressScriptHashFromHash_def)

lemma pop_bytes_dataD:
  "op_length (pop_opcode p) = int n + 1 \<Longrightarrow> 0 < n \<Longrightarrow> pop_bytes p = Inr bs \<Longrightarrow>
   length (pop_data p) = n \<and> bs = pop_value p # pop_data p"
  by (auto simp: pop_bytes_def Let_def split: if_splits)

lemma pop_bytes_singleD: "op_length (pop_opcode p) = 1 \<Longrightarrow> pop_bytes p = Inr bs \<Longrightarrow> bs = [pop_value p]"
  by (auto simp: pop_bytes_def Let_def split: if_splits)

lemma length_2_3:
  "length xs = 2 \<Longrightarrow> \<exists>a b. xs = [a, b]" "length xs = 3 \<Longrightarrow> \<exists>a b c. xs = [a, b, c]"
  by (cases xs; cases "tl xs"; cases "tl (tl xs)"; auto)+

text \<open>The scripts of the three classes, read back from their opcodes.\<close>

lemma classified_script:
  assumes "parseScript script = (pops, None)"
  shows "typeOfScript pops = PubKeyTy \<Longrightarrow> length (pop_data (pops ! 0)) = 32 \<and> script = OpData32 # pop_data (pops ! 0) @ [OpCheckSig]"
    and "typeOfScript pops = PubKeyECDSATy \<Longrightarrow>
      length (pop_data (pops ! 0)) = 33 \<and> script = OpData33 # pop_data (pops ! 0) @ [OpCheckSigECDSA]"
    and "typeOfScript pops = ScriptHashTy \<Longrightarrow>
      length (pop_data (pops ! 1)) = 32 \<and> script = OpBlake2b # OpData32 # pop_data (pops ! 1) @ [OpEqual]"
proof -
  note u = unparse_parse [OF assms]
  have l: "op_length (pop_opcode p) = length_of_opcode (pop_value p)" if "p \<in> set pops" for p
    using parseScript_ops [OF assms that] by (metis opcodeArray_length)
  {
    assume "typeOfScript pops = PubKeyTy"
    then have c: "isPayToPubkey pops" by (simp add: typeOfScript_def split: if_splits)
    then obtain a b where p: "pops = [a, b]" using length_2_3(1) [of pops] by (auto simp: isPayToPubkey_def)
    with c have v: "pop_value a = OpData32" "pop_value b = OpCheckSig" by (simp_all add: isPayToPubkey_def)
    with l p have "op_length (pop_opcode a) = int 32 + 1" "op_length (pop_opcode b) = 1"
      by (simp_all add: length_of_opcode_def)
    with u p v show "length (pop_data (pops ! 0)) = 32 \<and> script = OpData32 # pop_data (pops ! 0) @ [OpCheckSig]"
      by (auto simp: rbind_Inr_iff dest!: pop_bytes_dataD [of _ 32, simplified] pop_bytes_dataD [of _ 33, simplified] pop_bytes_singleD)
  next
    assume "typeOfScript pops = PubKeyECDSATy"
    then have c: "isPayToPubkeyECDSA pops" by (simp add: typeOfScript_def split: if_splits)
    then obtain a b where p: "pops = [a, b]" using length_2_3(1) [of pops] by (auto simp: isPayToPubkeyECDSA_def)
    with c have v: "pop_value a = OpData33" "pop_value b = OpCheckSigECDSA" by (simp_all add: isPayToPubkeyECDSA_def)
    with l p have "op_length (pop_opcode a) = int 33 + 1" "op_length (pop_opcode b) = 1"
      by (simp_all add: length_of_opcode_def)
    with u p v show "length (pop_data (pops ! 0)) = 33 \<and> script = OpData33 # pop_data (pops ! 0) @ [OpCheckSigECDSA]"
      by (auto simp: rbind_Inr_iff dest!: pop_bytes_dataD [of _ 32, simplified] pop_bytes_dataD [of _ 33, simplified] pop_bytes_singleD)
  next
    assume "typeOfScript pops = ScriptHashTy"
    then have c: "isScriptHash pops" by (simp add: typeOfScript_def split: if_splits)
    then obtain a b d where p: "pops = [a, b, d]" using length_2_3(2) [of pops] by (auto simp: isScriptHash_def)
    with c have v: "pop_value a = OpBlake2b" "pop_value b = OpData32" "pop_value d = OpEqual" by (simp_all add: isScriptHash_def)
    with l p have "op_length (pop_opcode a) = 1" "op_length (pop_opcode b) = int 32 + 1" "op_length (pop_opcode d) = 1"
      by (simp_all add: length_of_opcode_def)
    with u p v show "length (pop_data (pops ! 1)) = 32 \<and> script = OpBlake2b # OpData32 # pop_data (pops ! 1) @ [OpEqual]"
      by (auto simp: rbind_Inr_iff dest!: pop_bytes_dataD [of _ 32, simplified] pop_bytes_dataD [of _ 33, simplified] pop_bytes_singleD)
  }
qed

text \<open>
  C26: The scripts that pay to addresses and the addresses extracted from scripts correspond exactly.
  \<^verbatim>\<open>ExtractScriptPubKeyAddress\<close> returns an address for a script if and only if the address has the
  prefix asked for and a payload of the right size, and the script is the one \<^verbatim>\<open>PayToAddrScript\<close>
  creates for it; the class is the one of the type of the address.
\<close>

theorem extract_address_iff_pay:
  "ExtractScriptPubKeyAddress spk prefix = Inr (class, Some a) \<longleftrightarrow>
   addr_Prefix a = prefix \<and> payload_ok a \<and> PayToAddrScript (Some a) = Inr spk \<and> class = class_of a"
proof
  assume "addr_Prefix a = prefix \<and> payload_ok a \<and> PayToAddrScript (Some a) = Inr spk \<and> class = class_of a"
  then show "ExtractScriptPubKeyAddress spk prefix = Inr (class, Some a)"
    using Extract_PayToAddrScript by blast
next
  assume e: "ExtractScriptPubKeyAddress spk prefix = Inr (class, Some a)"
  then have v: "spk_Version spk = 0" by (auto simp: ExtractScriptPubKeyAddress_def MaxScriptPublicKeyVersion_def word_gt_0 split: if_splits)
  obtain pops err where p: "parseScript (spk_Script spk) = (pops, err)" by (cases "parseScript (spk_Script spk)")
  have "err = None"
    using e p by (auto simp: ExtractScriptPubKeyAddress_def split: if_splits option.splits fault.splits)
  with p have ps: "parseScript (spk_Script spk) = (pops, None)" by simp
  have s: "spk = \<lparr>spk_Script = spk_Script spk, spk_Version = 0\<rparr>" using v by (cases spk) simp
  note defs = ExtractScriptPubKeyAddress_def NewAddressPublicKey_def newAddressPubKey_def NewAddressPublicKeyECDSA_def
    newAddressPubKeyECDSA_def NewAddressScriptHashFromHash_def newAddressScriptHashFromHash_def
  show "addr_Prefix a = prefix \<and> payload_ok a \<and> PayToAddrScript (Some a) = Inr spk \<and> class = class_of a"
  proof (cases "typeOfScript pops")
    case NonStandardTy
    with e ps show ?thesis by (auto simp: defs split: if_splits)
  next
    case PubKeyTy
    with e ps have a: "a = AddressPublicKey prefix (pop_data (pops ! 0))" "class = PubKeyTy"
      by (auto simp: defs split: if_splits sum.splits)
    with classified_script(1) [OF ps PubKeyTy] have ok: "payload_ok a" by (simp add: PublicKeySize_def)
    with a PayToAddrScript_eq(1) classified_script(1) [OF ps PubKeyTy] s show ?thesis by simp
  next
    case PubKeyECDSATy
    with e ps have a: "a = AddressPublicKeyECDSA prefix (pop_data (pops ! 0))" "class = PubKeyECDSATy"
      by (auto simp: defs split: if_splits sum.splits)
    with classified_script(2) [OF ps PubKeyECDSATy] have ok: "payload_ok a" by (simp add: PublicKeySizeECDSA_def)
    with a PayToAddrScript_eq(2) classified_script(2) [OF ps PubKeyECDSATy] s show ?thesis by simp
  next
    case ScriptHashTy
    with e ps have a: "a = AddressScriptHash prefix (pop_data (pops ! 1))" "class = ScriptHashTy"
      by (auto simp: defs split: if_splits sum.splits)
    with classified_script(3) [OF ps ScriptHashTy] have ok: "payload_ok a" by (simp add: ScriptHashSize_def)
    with a PayToAddrScript_eq(3) classified_script(3) [OF ps ScriptHashTy] s show ?thesis by simp
  qed
qed

end
