(* ===== verification/Pay_To_PubKey.thy ===== *)
theory Pay_To_PubKey
  imports Cache_Free_Runs Standard_Scripts
begin

text \<open>
  The script of a payment to a public key, executed: the engine, step by step, from \<^verbatim>\<open>NewEngine\<close> to the
  outcome of \<^verbatim>\<open>Execute\<close>, for an arbitrary key, signature and transaction.
\<close>

section \<open>Pay to public key\<close>

abbreviation push_pop :: "byte \<Rightarrow> byte list \<Rightarrow> parsedOpcode" where
  "push_pop b d \<equiv> \<lparr>pop_opcode = opcodeArray b, pop_data = d\<rparr>"

lemma parse_push65: "length sig = 65 \<Longrightarrow> parseScript (OpData65 # sig) = ([push_pop OpData65 sig], None)"
  by (simp add: parseScript_Cons parseOpcode_data [of _ 65] opcodeArray_data)

lemma push_ops:
  assumes "b \<in> {OpData32, OpData33, OpData65}"
  shows "\<not> isDisabled (push_pop b d)" "\<not> alwaysIllegal (push_pop b d)" "op_opfunc (opcodeArray b) = f_opcodePushData"
    "op_value (opcodeArray b) = b"
  using assms by (auto simp: isDisabled_def alwaysIllegal_def opcodeArray_data)

lemma push_minimal:
  "length d = 32 \<Longrightarrow> checkMinimalDataPush (push_pop OpData32 d) = Inr ()"
  "length d = 33 \<Longrightarrow> checkMinimalDataPush (push_pop OpData33 d) = Inr ()"
  "length d = 65 \<Longrightarrow> checkMinimalDataPush (push_pop OpData65 d) = Inr ()"
  by (auto simp: checkMinimalDataPush_def opcodeArray_data)

lemma execute_push:
  assumes "condStack vm = []" "b \<in> {OpData32, OpData33, OpData65}" "length d = unat b"
  shows "executeOpcode C (push_pop b d) vm = Inr (vm\<lparr>dstack := dstack vm @ [d]\<rparr>)"
proof -
  have m: "checkMinimalDataPush (push_pop b d) = Inr ()" using assms(2,3) push_minimal by auto
  have b: "\<not> b > Op16" "\<not> length d > MaxScriptElementSize" using assms(2,3) by (auto simp: MaxScriptElementSize_def)
  show ?thesis
    using assms(1)
    by (simp add: executeOpcode_def push_ops [OF assms(2)] m b isBranchExecuting_def opcodePushData_def pushBytes_def PushByteArray_def)
qed

lemma execute_checkSig:
  assumes "condStack vm = []" "numOps vm = 0"
  shows "executeOpcode C (push_pop OpCheckSig []) vm = opcodeCheckSig C (push_pop OpCheckSig []) (vm\<lparr>numOps := 1\<rparr>)"
  using assms
  by (simp add: executeOpcode_def isDisabled_def alwaysIllegal_def opcodeArray_crypto isBranchExecuting_def MaxOpsPerScript_def)

text \<open>The value of \<^verbatim>\<open>opcodeCheckSig\<close> for a well-formed signature and key.\<close>

lemma checkSig_value:
  assumes "sound C vm" "dstack vm = s @ [sig, pk]" "length (dstack vm) \<le> 1000" "sig_wf sig" "length pk = 32"
  shows "rmap core (opcodeCheckSig C op vm) =
    (if sig_valid (schnorr C) (SchnorrVerify C) (schnorr_digest C (tx vm) (txIdx vm)) sig pk
     then Inr (core (vm\<lparr>dstack := s @ [[1]]\<rparr>))
     else if DeserializeSchnorrPubKey C pk = None \<or> DeserializeSchnorrSignatureFromSlice C (butlast sig) = None
     then Inr (core (vm\<lparr>dstack := s @ [[]]\<rparr>)) else scriptError ErrNullFail)"
proof -
  let ?P = "pure (schnorr C) (SchnorrVerify C) (schnorr_digest C)"
  have c: "dstack (core vm) = dstack vm" "tx (core vm) = tx vm" "txIdx (core vm) = txIdx vm"
    by (simp_all add: core_def)
  have l: "length sig = 65" and n: "sig \<noteq> []" using assms(4) by (auto simp: sig_wf_def)
  have w: "last sig = sig ! 64" "butlast sig = take 64 sig" using last_conv_nth [OF n] l by (simp_all add: butlast_conv_take)
  have h: "IsStandardSigHashType (sig ! 64)" using assms(4) w by (simp add: sig_wf_def)
  have "rmap core (opcodeCheckSig C op vm) = checkSig_with ?P op (core vm)"
    using schnorr_ok.checkSig_pure [OF assms(1)] by (simp add: opcodeCheckSig_def)
  also have "\<dots> = checkSig_popped ?P pk sig ((core vm)\<lparr>dstack := s\<rparr>)"
    using assms(2,3) PopByteArray_snoc [of "s @ [sig]" pk] PopByteArray_snoc [of s sig]
    by (simp add: checkSig_with_def popBytes_def pop_with_def c small_def)
  finally show ?thesis
    using w l n h assms(5)
    by (auto simp: checkSig_popped_def pure_def schnorr_def sig_valid_def checkSignatureLength_def checkPubKeyEncoding_def c
      pushBool_def PushBool_def PushByteArray_def fromBool_def core_upd split: option.split)
qed

lemma p2pk_steps:
  assumes "scripts vm = [[push_pop OpData65 sig], [push_pop OpData32 pk, push_pop OpCheckSig []]]"
    and "scriptIdx vm = 0" "scriptOff vm = 0" "condStack vm = []" "dstack vm = []" "astack vm = []" "isP2SH vm = False"
    and "numOps vm = 0" "length sig = 65" "length pk = 32"
  shows "Step C vm = Inr (False, vm\<lparr>dstack := [sig], scriptIdx := 1\<rparr>)"
    and "Step C (vm\<lparr>dstack := [sig], scriptIdx := 1\<rparr>) = Inr (False, vm\<lparr>dstack := [sig, pk], scriptIdx := 1, scriptOff := 1\<rparr>)"
proof -
  have d: "dropAll [] = []" "Depth [] = 0" "Depth [x] = 1" "Depth [x, y] = 2" for x y by (simp_all add: dropAll_def DropN_def Depth_def i32_def)
  have v: "vm\<lparr>numOps := 0, scriptOff := 0, astack := [], dstack := s, scriptIdx := k\<rparr> = vm\<lparr>dstack := s, scriptIdx := k\<rparr>" for s k
    using assms by (cases vm) simp
  show "Step C vm = Inr (False, vm\<lparr>dstack := [sig], scriptIdx := 1\<rparr>)"
    using assms v
    by (simp add: Step_def validPC_def execute_push d MaxStackSize_def endScript_def nextScript_def Let_def d)
  show "Step C (vm\<lparr>dstack := [sig], scriptIdx := 1\<rparr>) = Inr (False, vm\<lparr>dstack := [sig, pk], scriptIdx := 1, scriptOff := 1\<rparr>)"
    using assms by (simp add: Step_def validPC_def execute_push d MaxStackSize_def)
qed

lemma run_continue: "Step C vm = Inr (False, v) \<Longrightarrow> run C vm = run C v"
  by (simp add: run.simps [of C vm])

lemma p2pk_execute:
  assumes "scripts vm = [[push_pop OpData65 sig], [push_pop OpData32 pk, push_pop OpCheckSig []]]"
    and "scriptIdx vm = 0" "scriptOff vm = 0" "condStack vm = []" "dstack vm = []" "astack vm = []" "isP2SH vm = False"
    and "numOps vm = 0" "scriptVersion vm = 0" "sound C vm" "sig_wf sig" "length pk = 32"
  shows "Execute C vm = Inr () \<longleftrightarrow>
    sig_valid (schnorr C) (SchnorrVerify C) (schnorr_digest C (tx vm) (txIdx vm)) sig pk" (is "_ \<longleftrightarrow> ?valid")
proof -
  let ?x = "push_pop OpCheckSig []" and ?v = "vm\<lparr>dstack := [sig, pk], scriptIdx := 1, scriptOff := 2, numOps := 1\<rparr>"
  have l: "length sig = 65" using assms(11) by (simp add: sig_wf_def)
  note steps = p2pk_steps [OF assms(1-8) l assms(12), of C]
  have s: "sound C ?v" using assms(10) by (simp add: sound_def has_entry_def)
  have r: "run C vm = rbind (Step C (vm\<lparr>dstack := [sig, pk], scriptIdx := 1, scriptOff := 1\<rparr>))
      (\<lambda>(done, vm'). if done then Inr vm' else run C vm')"
    using run_continue [OF steps(1)] run_continue [OF steps(2)]
      run.simps [of C "vm\<lparr>dstack := [sig, pk], scriptIdx := 1, scriptOff := 1\<rparr>"] by (rule trans [OF trans])
  have e: "Step C (vm\<lparr>dstack := [sig, pk], scriptIdx := 1, scriptOff := 1\<rparr>) =
      rbind (opcodeCheckSig C ?x ?v) (\<lambda>vm. if Depth (dstack vm) + Depth (astack vm) > MaxStackSize
        then scriptError ErrStackOverflow
        else if scriptOff vm \<ge> length (scripts vm ! scriptIdx vm) then endScript vm else Inr (False, vm))"
    using assms(1-8) by (simp add: Step_def validPC_def execute_checkSig Let_def numeral_2_eq_2)
  have val: "rmap core (opcodeCheckSig C ?x ?v) =
    (if ?valid then Inr (core (?v\<lparr>dstack := [[1]]\<rparr>))
     else if DeserializeSchnorrPubKey C pk = None \<or> DeserializeSchnorrSignatureFromSlice C (butlast sig) = None
     then Inr (core (?v\<lparr>dstack := [[]]\<rparr>)) else scriptError ErrNullFail)"
    using checkSig_value [OF s, of "[]"] assms(11,12) by simp
  show ?thesis
  proof (cases "opcodeCheckSig C ?x ?v")
    case (Inl err)
    with val have "\<not> ?valid" by (auto split: if_splits)
    moreover have "run C vm = Inl err" by (simp only: r e Inl rbind_simps)
    ultimately show ?thesis using assms(9) by (simp add: Execute_def MaxScriptPublicKeyVersion_def)
  next
    case (Inr w)
    let ?d = "if ?valid then [[1]] else [[]]"
    from val Inr have w: "core w = core (?v\<lparr>dstack := ?d\<rparr>)" by (auto split: if_splits)
    have f: "dstack w = ?d" "astack w = []" "condStack w = []" "scriptOff w = 2" "scriptIdx w = 1" "length (scripts w) = 2"
      "length (scripts w ! 1) = 2" "isP2SH w = False"
      using assms(1-8) core_fields [OF w] by simp_all
    have d: "dropAll [] = []" "Depth [] = 0" "Depth [x] = 1" for x by (simp_all add: dropAll_def DropN_def Depth_def i32_def)
    let ?w = "w\<lparr>astack := [], numOps := 0, scriptOff := 0, scriptIdx := 2\<rparr>"
    have "endScript w = Inr (True, ?w)" using f by (simp add: endScript_def nextScript_def Let_def d numeral_2_eq_2)
    moreover have "Depth (dstack w) + Depth (astack w) = 1" using f by (simp add: d)
    ultimately have "run C vm = Inr ?w" using f by (simp only: r e Inr rbind_simps) (simp add: MaxStackSize_def)
    moreover have "CheckErrorCondition ?w True = (if ?valid then Inr (?w\<lparr>dstack := []\<rparr>) else scriptError ErrEvalFalse)"
      using f PopByteArray_snoc [of "[]" "[1]"] PopByteArray_snoc [of "[]" "[]"]
      by (auto simp: CheckErrorCondition_def d popBool_def pop_with_def PopBool_def asBool_def small_def)
    ultimately show ?thesis using assms(9) by (simp add: Execute_def MaxScriptPublicKeyVersion_def)
  qed
qed

definition p2pk_script :: "byte list \<Rightarrow> ScriptPublicKey" where
  "p2pk_script pk = \<lparr>spk_Script = OpData32 # pk @ [OpCheckSig], spk_Version = 0\<rparr>"

lemma p2pk_pay: "length pk = 32 \<Longrightarrow> PayToAddrScript (Some (AddressPublicKey Bech32PrefixKaspa pk)) = Inr (p2pk_script pk)"
  using PayToAddrScript_eq(1) [of Bech32PrefixKaspa pk] by (simp add: PublicKeySize_def p2pk_script_def)

lemma p2pk_engine:
  assumes "0 \<le> idx" "idx < int (length (Inputs t))" "SignatureScript (Inputs t ! nat idx) = OpData65 # sig"
    and "length sig = 65" "length pk = 32"
  shows "NewEngine (p2pk_script pk) t idx fl c ce rv = Inr (zeroEngine\<lparr>flags := fl, sigCache := c, sigCacheECDSA := ce,
      scripts := [[push_pop OpData65 sig], [push_pop OpData32 pk, push_pop OpCheckSig []]], tx := t, txIdx := nat idx,
      sigHashReusedValues := rv\<rparr>)"
proof -
  have "isPushOnly [push_pop OpData65 sig]" by (simp add: opcodeArray_data)
  then show ?thesis
    using assms
    by (simp add: NewEngine_def p2pk_script_def Let_def MaxScriptPublicKeyVersion_def parseScriptAndVerifySize_def
      parseScript_result_def MaxScriptSize_def parse_push65 parse_pay_scripts isScriptHash_def zeroEngine_def)
qed

lemma schnorr_digest_eq:
  assumes "i < length (Inputs t)" "in_UTXOEntry (Inputs t ! i) \<noteq> None" "IsStandardSigHashType ht"
  shows "\<exists>rv. CalculateSignatureHashSchnorr (hashes C) t i ht emptyReusedValues = Inr (schnorr_digest C t i ht, rv)"
proof -
  have "sound C (zeroEngine\<lparr>tx := t, txIdx := i\<rparr>)"
    using assms by (simp add: sound_def has_entry_def zeroEngine_def reuse_ok_empty)
  from sound_schnorr_hash [OF this assms(3)] show ?thesis by (auto simp: zeroEngine_def)
qed

text \<open>
  C13: A payment to a public key is spent exactly by a valid signature.  For an input whose
  signature script pushes 65 bytes, a 64-byte signature and a standard hash type, and an output
  script that pushes a 32-byte key and checks the signature, the engine succeeds if and only if key
  and signature parse and the signature verifies for the signature hash of this transaction, input
  and hash type, whatever the caches hold.
\<close>

theorem p2pk_accepts_iff_valid:
  assumes "PayToAddrScript (Some (AddressPublicKey net pk)) = Inr spk" "length pk = 32"
    and "0 \<le> idx" "idx < int (length (Inputs t))" "in_UTXOEntry (Inputs t ! nat idx) \<noteq> None"
    and "SignatureScript (Inputs t ! nat idx) = OpData65 # sig" "length sig = 65" "IsStandardSigHashType (last sig)"
    and "reuse_ok (hashes C) t rv" "\<forall>x. c = Some x \<longrightarrow> holds_only Exists (SchnorrVerify C) x"
    and "\<forall>x. ce = Some x \<longrightarrow> holds_only ExistsECDSA (ECDSAVerify C) x"
  shows "\<exists>vm. NewEngine spk t idx fl c ce rv = Inr vm \<and>
    (Execute C vm = Inr () \<longleftrightarrow>
     (\<exists>k s h rv'. DeserializeSchnorrPubKey C pk = Some k \<and> DeserializeSchnorrSignatureFromSlice C (butlast sig) = Some s \<and>
        CalculateSignatureHashSchnorr (hashes C) t (nat idx) (last sig) emptyReusedValues = Inr (h, rv') \<and>
        SchnorrVerify C k h s))"
proof -
  have spk: "spk = p2pk_script pk"
    using assms(1,2) PayToAddrScript_eq(1) [of net pk] by (simp add: PublicKeySize_def p2pk_script_def)
  note n = p2pk_engine [OF assms(3,4,6,7,2), of fl c ce rv]
  let ?vm = "zeroEngine\<lparr>flags := fl, sigCache := c, sigCacheECDSA := ce,
      scripts := [[push_pop OpData65 sig], [push_pop OpData32 pk, push_pop OpCheckSig []]], tx := t, txIdx := nat idx,
      sigHashReusedValues := rv\<rparr>"
  have "nat idx < length (Inputs t)" using assms(3,4) by simp
  with schnorr_digest_eq [of "nat idx" t "last sig"] assms(5,8)
  obtain rv' where h: "CalculateSignatureHashSchnorr (hashes C) t (nat idx) (last sig) emptyReusedValues =
      Inr (schnorr_digest C t (nat idx) (last sig), rv')" by blast
  have "spk_Version (p2pk_script pk) = 0" by (simp add: p2pk_script_def)
  from NewEngine_sound [OF n assms(5) this assms(9-11)] have s: "sound C ?vm" .
  have "Execute C ?vm = Inr () \<longleftrightarrow>
      sig_valid (schnorr C) (SchnorrVerify C) (schnorr_digest C t (nat idx)) sig pk"
    using p2pk_execute [of ?vm sig pk C] s assms(2,7,8) by (simp add: zeroEngine_def sig_wf_def)
  then show ?thesis
    using n h spk by (auto simp: sig_valid_def schnorr_def split: option.splits)
qed

definition p2pk_tx :: DomainTransaction where
  "p2pk_tx = signed_tx\<lparr>Inputs := [(Inputs signed_tx ! 0)\<lparr>SignatureScript := OpData65 # replicate 64 2 @ [1]\<rparr>]\<rparr>"

theorem p2pk_accepts_iff_valid_witness:
  "\<exists>vm vm'. NewEngine (p2pk_script (replicate 32 2)) p2pk_tx 0 ScriptNoFlags None None emptyReusedValues = Inr vm \<and>
     Execute sample_crypto vm = Inr () \<and>
     NewEngine (p2pk_script (replicate 32 3)) p2pk_tx 0 ScriptNoFlags None None emptyReusedValues = Inr vm' \<and>
     Execute sample_crypto vm' \<noteq> Inr ()"
proof -
  let ?s = "replicate 64 2 @ [1 :: byte]"
  have t: "0 < int (length (Inputs p2pk_tx))" "in_UTXOEntry (Inputs p2pk_tx ! nat 0) \<noteq> None"
    "SignatureScript (Inputs p2pk_tx ! nat 0) = OpData65 # ?s" "IsStandardSigHashType (last ?s)" "length ?s = 65"
    by (simp_all add: p2pk_tx_def signed_tx_def IsStandardSigHashType_def sht_defs)
  from schnorr_digest_eq [of 0 p2pk_tx "last ?s" sample_crypto] t
  obtain h rv where h: "CalculateSignatureHashSchnorr (hashes sample_crypto) p2pk_tx 0 (last ?s) emptyReusedValues = Inr (h, rv)"
    by auto
  have k: "DeserializeSchnorrPubKey sample_crypto = Some" "DeserializeSchnorrSignatureFromSlice sample_crypto = Some"
    "SchnorrVerify sample_crypto k' h' s = (take 32 s = k')" for k' h' s
    by (simp_all add: sample_crypto_def)
  have p: "\<exists>vm. NewEngine (p2pk_script pk) p2pk_tx 0 ScriptNoFlags None None emptyReusedValues = Inr vm \<and>
      (Execute sample_crypto vm = Inr () \<longleftrightarrow> take 32 (butlast ?s) = pk)" if "length pk = 32" for pk
    using p2pk_accepts_iff_valid [OF p2pk_pay [OF that] that order.refl t(1-3,5,4) reuse_ok_empty,
        where C = sample_crypto and c = None and ce = None and fl = ScriptNoFlags] h
    by (simp only: k h nat_0 option.inject) auto
  from p [of "replicate 32 2"] p [of "replicate 32 3"] h show ?thesis
    by (auto simp: butlast_append)
qed

end
