(* ===== verification/Float64.thy ===== *)
theory Float64
  imports Prelude Complex_Main
begin

text \<open>
  The part of Go's \<^verbatim>\<open>float64\<close> that the reachability code uses: non-negative IEEE 754 binary64
  numbers with rounding to the nearest even, and the functions \<^verbatim>\<open>math.Ceil\<close>, \<^verbatim>\<open>math.Round\<close>
  and \<^verbatim>\<open>math.Pow(2, _)\<close>.  A finite value is the rational number it stands for, and every
  operation rounds its exact result.  The conversion of a value outside the range of
  \<^verbatim>\<open>uint64\<close> is left to the platform by the language, so it is a parameter of the conversion.
\<close>

datatype float64 = Fin rat | Inf | NaN

section \<open>Rounding\<close>

fun bit_length :: "nat \<Rightarrow> nat" where
  "bit_length n = (if n = 0 then 0 else Suc (bit_length (n div 2)))"

declare bit_length.simps [simp del]

definition floor_log2 :: "rat \<Rightarrow> int" where
  "floor_log2 x = (let (n, d) = quotient_of x;
                       k = int (bit_length (nat n)) - int (bit_length (nat d))
                   in if 2 powi k \<le> x then k else k - 1)"

definition half_even :: "rat \<Rightarrow> int" where
  "half_even x = (let f = \<lfloor>x\<rfloor>; r = x - of_int f
                  in if r < 1 / 2 then f else if r > 1 / 2 then f + 1
                     else if even f then f else f + 1)"

definition f64_round :: "rat \<Rightarrow> float64" where
  "f64_round x = (if x = 0 then Fin 0
                  else let e = max (floor_log2 x - 52) (- 1074);
                           y = of_int (half_even (x / 2 powi e)) * 2 powi e
                       in if 2 ^ 1024 \<le> y then Inf else Fin y)"

section \<open>Operations\<close>

definition f64_of_uint64 :: "u64 \<Rightarrow> float64" where
  "f64_of_uint64 n = f64_round (of_nat (unat n))"

fun f64_add :: "float64 \<Rightarrow> float64 \<Rightarrow> float64" where
  "f64_add (Fin x) (Fin y) = f64_round (x + y)"
| "f64_add NaN _ = NaN"
| "f64_add _ NaN = NaN"
| "f64_add _ _ = Inf"

fun f64_mul :: "float64 \<Rightarrow> float64 \<Rightarrow> float64" where
  "f64_mul (Fin x) (Fin y) = f64_round (x * y)"
| "f64_mul NaN _ = NaN"
| "f64_mul _ NaN = NaN"
| "f64_mul (Fin x) Inf = (if x = 0 then NaN else Inf)"
| "f64_mul Inf (Fin y) = (if y = 0 then NaN else Inf)"
| "f64_mul Inf Inf = Inf"

fun f64_div :: "float64 \<Rightarrow> float64 \<Rightarrow> float64" where
  "f64_div (Fin x) (Fin y) =
     (if y = 0 then (if x = 0 then NaN else Inf) else f64_round (x / y))"
| "f64_div (Fin x) Inf = Fin 0"
| "f64_div Inf (Fin y) = Inf"
| "f64_div _ _ = NaN"

fun f64_less :: "float64 \<Rightarrow> float64 \<Rightarrow> bool" where
  "f64_less (Fin x) (Fin y) = (x < y)"
| "f64_less (Fin x) Inf = True"
| "f64_less _ _ = False"

fun math_Ceil :: "float64 \<Rightarrow> float64" where
  "math_Ceil (Fin x) = Fin (of_int \<lceil>x\<rceil>)"
| "math_Ceil v = v"

fun math_Round :: "float64 \<Rightarrow> float64" where
  "math_Round (Fin x) = Fin (of_int \<lfloor>x + 1 / 2\<rfloor>)"
| "math_Round v = v"

text \<open>\<open>math_Pow2 y\<close> is \<^verbatim>\<open>math.Pow(2, y)\<close> for a non-negative integral \<open>y\<close>.\<close>

fun math_Pow2 :: "float64 \<Rightarrow> float64" where
  "math_Pow2 (Fin y) = (if 1024 \<le> y then Inf else Fin (2 ^ nat \<lfloor>y\<rfloor>))"
| "math_Pow2 v = v"

text \<open>
  \<open>uint64_of_f64 conv v\<close> truncates a value that fits; for any other value it returns what the
  platform's conversion \<open>conv\<close> makes of it.
\<close>

definition uint64_of_f64 :: "(float64 \<Rightarrow> u64) \<Rightarrow> float64 \<Rightarrow> u64" where
  "uint64_of_f64 conv v = (case v of
       Fin x \<Rightarrow> if 0 \<le> x \<and> x < 2 ^ 64 then of_nat (nat \<lfloor>x\<rfloor>) else conv v
     | _ \<Rightarrow> conv v)"

section \<open>Half of a 64-bit integer\<close>

lemma bit_length_pos: "0 < n \<Longrightarrow> 0 < bit_length n"
  by (subst bit_length.simps) simp

lemma bit_length_bounds: "0 < n \<Longrightarrow> 2 ^ (bit_length n - 1) \<le> n \<and> n < 2 ^ bit_length n"
proof (induction n rule: bit_length.induct)
  case (1 n)
  have b: "bit_length n = Suc (bit_length (n div 2))"
    using 1(2) by (subst bit_length.simps) simp
  show ?case
  proof (cases "n div 2 = 0")
    case True
    then show ?thesis using 1(2) b by (auto simp: bit_length.simps)
  next
    case False
    then have ih: "2 ^ (bit_length (n div 2) - 1) \<le> n div 2" "n div 2 < 2 ^ bit_length (n div 2)"
      using 1 by auto
    obtain k where k: "bit_length (n div 2) = Suc k"
      using False bit_length_pos [of "n div 2"] by (cases "bit_length (n div 2)") auto
    define p :: nat where "p = 2 ^ k"
    from ih show ?thesis unfolding b k by (simp add: p_def [symmetric]) linarith
  qed
qed

lemma bit_length_powi:
  assumes "0 < n"
  shows "2 powi (int (bit_length n) - 1) \<le> (of_nat n :: rat)" "(of_nat n :: rat) < 2 powi int (bit_length n)"
proof -
  obtain k where k: "bit_length n = Suc k"
    using assms bit_length_pos [of n] by (cases "bit_length n") auto
  have "2 ^ k \<le> n" "n < 2 ^ Suc k" using bit_length_bounds [OF assms] by (auto simp: k)
  then have "of_nat (2 ^ k) \<le> (of_nat n :: rat)" "(of_nat n :: rat) < of_nat (2 ^ Suc k)"
    by (simp_all only: of_nat_le_iff of_nat_less_iff)
  then show "2 powi (int (bit_length n) - 1) \<le> (of_nat n :: rat)" "(of_nat n :: rat) < 2 powi int (bit_length n)"
    by (simp_all add: k power_int_add)
qed

lemma floor_log2_bounds:
  assumes "0 < x"
  shows "2 powi floor_log2 x \<le> x" "x < 2 powi (floor_log2 x + 1)"
proof -
  obtain n d where q: "quotient_of x = (n, d)" by fastforce
  have d: "0 < d" by (rule quotient_of_denom_pos [OF q])
  have x: "x = of_int n / of_int d" by (rule quotient_of_div [OF q])
  have n: "0 < n" using assms d unfolding x by (simp add: zero_less_divide_iff)
  define N D where "N = bit_length (nat n)" and "D = bit_length (nat d)"
  have nb: "2 powi (int N - 1) \<le> (of_int n :: rat)" "(of_int n :: rat) < 2 powi int N"
    using bit_length_powi [of "nat n"] n by (simp_all add: N_def)
  have db: "2 powi (int D - 1) \<le> (of_int d :: rat)" "(of_int d :: rat) < 2 powi int D"
    using bit_length_powi [of "nat d"] d by (simp_all add: D_def)
  have rd: "(0::rat) < of_int d" using d by simp
  have "2 powi (int N - int D - 1) * of_int d \<le> 2 powi (int N - int D - 1) * (2::rat) powi int D"
    using db by (intro mult_left_mono) auto
  also have "\<dots> = 2 powi (int N - 1)"
    using power_int_add [of "2::rat" "int N - int D - 1" "int D"] by (simp del: power_int_of_nat)
  finally have lo: "2 powi (int N - int D - 1) \<le> x"
    unfolding x using nb rd by (simp add: pos_le_divide_eq)
  have "2 powi int N = 2 powi (int N - int D + 1) * (2::rat) powi (int D - 1)"
    using power_int_add [of "2::rat" "int N - int D + 1" "int D - 1"] by (simp del: power_int_of_nat)
  also have "\<dots> \<le> 2 powi (int N - int D + 1) * of_int d"
    using db by (intro mult_left_mono) auto
  finally have "of_int n < 2 powi (int N - int D + 1) * (of_int d :: rat)"
    using nb(2) by linarith
  then have hi: "x < 2 powi (int N - int D + 1)"
    unfolding x using rd by (simp add: pos_divide_less_eq)
  have f: "floor_log2 x = (if 2 powi (int N - int D) \<le> x then int N - int D else int N - int D - 1)"
    by (simp add: floor_log2_def q N_def D_def Let_def)
  show "2 powi floor_log2 x \<le> x" "x < 2 powi (floor_log2 x + 1)"
    using lo hi unfolding f by (auto simp: not_le)
qed

lemma half_even_bounds:
  assumes "of_int a \<le> x" "x \<le> of_int b"
  shows "a \<le> half_even x" "half_even x \<le> b"
proof -
  have f: "of_int \<lfloor>x\<rfloor> \<le> x" "x < of_int \<lfloor>x\<rfloor> + 1" by linarith+
  have "a \<le> \<lfloor>x\<rfloor>" using assms(1) by (simp add: le_floor_iff)
  then show "a \<le> half_even x" by (auto simp: half_even_def Let_def)
  show "half_even x \<le> b"
  proof (cases "x - of_int \<lfloor>x\<rfloor> < 1 / 2")
    case True
    then show ?thesis using f assms(2) by (simp add: half_even_def Let_def) linarith
  next
    case False
    then have "of_int \<lfloor>x\<rfloor> < x" by linarith
    then have "\<lfloor>x\<rfloor> + 1 \<le> b" using assms(2) by linarith
    then show ?thesis by (auto simp: half_even_def Let_def)
  qed
qed

lemma f64_round_bounds:
  assumes lo: "2 powi k \<le> r" and hi: "r \<le> 2 powi (k + 1)" and k: "- 1000 \<le> k" "k \<le> 1000"
  shows "\<exists>y. f64_round r = Fin y \<and> 2 powi k \<le> y \<and> y \<le> 2 powi (k + 1)"
proof -
  have r: "0 < r" using lo zero_less_power_int [of "2::rat" k] by linarith
  define l where "l = floor_log2 r"
  have l: "2 powi l \<le> r" "r < 2 powi (l + 1)" using floor_log2_bounds [OF r] by (simp_all add: l_def)
  have "(2::rat) powi k < 2 powi (l + 1)" "(2::rat) powi l \<le> 2 powi (k + 1)"
    using l lo hi by linarith+
  then have kl: "k \<le> l" "l \<le> k + 1"
    using power_int_increasing [of "l + 1" k "2::rat"] power_int_strict_increasing [of "k + 1" l "2::rat"]
    by linarith+
  define p where "p = (2::rat) powi (l - 52)"
  have p: "0 < p" by (simp add: p_def)
  have a: "(2::rat) powi k = of_int (2 ^ nat (k - l + 52)) * p"
    using kl by (simp add: p_def flip: power_int_add power_int_of_nat)
  have b: "(2::rat) powi (k + 1) = of_int (2 ^ nat (k + 1 - l + 52)) * p"
    using kl by (simp add: p_def add.commute flip: power_int_add power_int_of_nat)
  define h where "h = half_even (r / p)"
  have "of_int (2 ^ nat (k - l + 52)) \<le> r / p" "r / p \<le> of_int (2 ^ nat (k + 1 - l + 52))"
    using lo hi p unfolding a b by (simp_all add: pos_le_divide_eq pos_divide_le_eq)
  then have "2 ^ nat (k - l + 52) \<le> h" "h \<le> 2 ^ nat (k + 1 - l + 52)"
    unfolding h_def by (rule half_even_bounds)+
  then have "(of_int (2 ^ nat (k - l + 52)) :: rat) \<le> of_int h" "(of_int h :: rat) \<le> of_int (2 ^ nat (k + 1 - l + 52))"
    by (simp_all only: of_int_le_iff)
  then have y: "2 powi k \<le> of_int h * p" "of_int h * p \<le> 2 powi (k + 1)"
    unfolding a b using p by (auto simp only: mult_le_cancel_right)
  have "(2::rat) powi (k + 1) < 2 powi 1024" using k by (intro power_int_strict_increasing) auto
  then have "\<not> 2 ^ 1024 \<le> of_int h * p" using y(2) by (simp add: not_le)
  then have "f64_round r = Fin (of_int h * p)"
    using r k kl by (simp add: f64_round_def l_def [symmetric] max_def p_def h_def Let_def)
  then show ?thesis using y by blast
qed

text \<open>Splitting a non-empty range in half leaves a non-empty left part that fits the range.\<close>

lemma half_bounds:
  assumes "0 < n" and a: "a = uint64_of_f64 conv (math_Ceil (f64_mul (f64_of_uint64 n) (Fin (1 / 2))))"
  shows "0 < a" "a \<le> n"
proof -
  define m where "m = unat n"
  have m: "0 < m" "m < 2 ^ 64"
    using assms unsigned_less [of n] by (auto simp: m_def unat_gt_0)
  obtain k where k: "bit_length m = Suc k"
    using m bit_length_pos [of m] by (cases "bit_length m") auto
  have lo: "2 powi int k \<le> (of_nat m :: rat)" and hi: "(of_nat m :: rat) < 2 powi (int k + 1)"
    using bit_length_powi [OF m(1)] by (simp_all add: k add.commute)
  have "2 ^ k \<le> m" using bit_length_bounds [OF m(1)] k by simp
  then have k64: "k < 64"
    using m(2) by (meson le_less_trans nat_power_less_imp_less pos2)
  obtain y where y: "f64_of_uint64 n = Fin y" "2 powi int k \<le> y" "y \<le> 2 powi (int k + 1)"
    using f64_round_bounds [OF lo less_imp_le [OF hi]] k64 by (auto simp: f64_of_uint64_def m_def)
  have "2 powi (int k - 1) \<le> y / 2" "y / 2 \<le> 2 powi (int k - 1 + 1)"
    using y by (simp_all add: power_int_diff power_int_add)
  from f64_round_bounds [OF this] k64 obtain z
    where z: "f64_round (y / 2) = Fin z" "2 powi (int k - 1) \<le> z" "z \<le> 2 powi (int k - 1 + 1)"
    by auto
  have "(0::rat) < 2 powi (int k - 1)" by simp
  then have z0: "0 < z" using z(2) by linarith
  have zm: "z \<le> of_int (2 ^ k)" using z(3) by simp
  define c where "c = \<lceil>z\<rceil>"
  have c: "0 < c" "c \<le> 2 ^ k" using z0 zm by (auto simp: c_def ceiling_le_iff)
  have "2 ^ k \<le> int m" using \<open>2 ^ k \<le> m\<close> by (metis of_nat_le_iff of_nat_numeral of_nat_power)
  moreover have "int m < 2 ^ 64" using m(2) by simp
  ultimately have cm: "c \<le> int m" and c64: "c < 2 ^ 64" using c(2) by linarith+
  have "(of_int c :: rat) < of_int (2 ^ 64)" using c64 by (simp only: of_int_less_iff)
  then have "a = of_nat (nat c)"
    using c(1) by (simp add: a y z uint64_of_f64_def c_def [symmetric])
  then have "unat a = nat c"
    using c c64 by (simp only: unsigned_of_nat) (simp add: take_bit_nat_eq_self nat_less_iff)
  moreover have "nat c \<le> m" using cm by linarith
  ultimately show "0 < a" "a \<le> n"
    using c(1) by (simp_all add: word_less_nat_alt word_le_nat_alt m_def)
qed

end
