(* ===== verification/Rule_Errors.thy ===== *)
theory Rule_Errors
  imports Domain_Types
begin

text \<open>
  \<^verbatim>\<open>ruleerrors/rule_error.go\<close>: the violations of consensus rules.  \<^verbatim>\<open>ErrMissingTxOut\<close> and
  \<^verbatim>\<open>ErrMissingParents\<close> carry what is missing.
\<close>

datatype ruleError =
    ErrDuplicateBlock
  | ErrBlockVersionTooOld
  | ErrTimeTooOld
  | ErrTimeTooMuchInTheFuture
  | ErrNoParents
  | ErrUnexpectedDifficulty
  | ErrTargetTooHigh
  | ErrNegativeTarget
  | ErrInvalidPoW
  | ErrBadMerkleRoot
  | ErrBadUTXOCommitment
  | ErrFinalityPointTimeTooOld
  | ErrNoTransactions
  | ErrNoTxInputs
  | ErrBadTxOutValue
  | ErrDuplicateTxInputs
  | ErrDoubleSpendInSameBlock
  | ErrUnfinalizedTx
  | ErrDuplicateTx
  | ErrImmatureSpend
  | ErrSpendTooHigh
  | ErrFirstTxNotCoinbase
  | ErrMultipleCoinbases
  | ErrBadCoinbasePayloadLen
  | ErrBadCoinbaseTransaction
  | ErrScriptMalformed
  | ErrScriptValidation
  | ErrInvalidAncestorBlock
  | ErrTransactionsNotSorted
  | ErrInvalidGas
  | ErrInvalidPayload
  | ErrSubnetworkRegistry
  | ErrInvalidParentsRelation
  | ErrTooManyParents
  | ErrViolatingBoundedMergeDepth
  | ErrViolatingMergeLimit
  | ErrChainedTransactions
  | ErrBlockSizeTooHigh
  | ErrKnownInvalid
  | ErrSubnetworksDisabled
  | ErrBadPruningPointUTXOSet
  | ErrMalformedUTXO
  | ErrWrongPruningPointHash
  | ErrPruningPointViolation
  | ErrUnexpectedPruningPoint
  | ErrSuggestedPruningViolatesFinality
  | ErrBlockVersionIsUnknown
  | ErrTransactionVersionIsUnknown
  | ErrPrunedBlock
  | ErrGetVirtualUTXOsWrongVirtualParents
  | ErrMissingTxOut "DomainOutpoint list"
  | ErrMissingParents "DomainHash list"

end
