(* ===== verification/Reachability_Interval.thy ===== *)
theory Reachability_Interval
  imports Float64 Rule_Errors
begin

text \<open>
  \<^verbatim>\<open>processes/reachabilitymanager/interval.go\<close>: the intervals of the reachability tree, their
  arithmetic on wrapping \<^verbatim>\<open>uint64\<close> values and the three ways of splitting one.  \<open>chained\<close> is
  the layout that the tree relies on (non-empty intervals, in order, inside given bounds); the
  lemmas show that every split produces it and gives each part the size it asked for.  Floating
  point only decides how slack is shared out, never whether the parts fit.
\<close>

section \<open>Errors of the DAG managers\<close>

text \<open>
  \<open>NotFound\<close> is \<^verbatim>\<open>database.ErrNotFound\<close>; \<open>RuleError\<close> is a violation of a consensus rule; \<open>NoFuel\<close> stands for a loop that does not end on the
  given (malformed) data.
\<close>

datatype dag_error =
    NotFound
  | FractionOutOfRange
  | SplitOfEmptyInterval
  | SizesSumNotEqual
  | SizesSumTooLarge
  | NotAnAncestorOfDescendant
  | NotAPivotOfNode
  | MissingTreeParent
  | ReindexRootOutOfCapacity
  | BlueScoreOfChosenChild
  | BlueAnticoneLargerThanK
  | NotInBlueSet
  | NotInSelectedParentChain
  | EmptyBlockWindow
  | RuleError ruleError
  | NoFuel

section \<open>Intervals\<close>

record ReachabilityInterval =
  Start :: u64
  End :: u64

definition newReachabilityInterval :: "u64 \<Rightarrow> u64 \<Rightarrow> ReachabilityInterval" where
  "newReachabilityInterval start end' = \<lparr>Start = start, End = end'\<rparr>"

definition intervalSize :: "ReachabilityInterval \<Rightarrow> u64" where
  "intervalSize ri = End ri - Start ri + 1"

definition intervalIncrease :: "ReachabilityInterval \<Rightarrow> u64 \<Rightarrow> ReachabilityInterval" where
  "intervalIncrease ri offset = \<lparr>Start = Start ri + offset, End = End ri + offset\<rparr>"

definition intervalDecrease :: "ReachabilityInterval \<Rightarrow> u64 \<Rightarrow> ReachabilityInterval" where
  "intervalDecrease ri offset = \<lparr>Start = Start ri - offset, End = End ri - offset\<rparr>"

definition intervalIncreaseStart :: "ReachabilityInterval \<Rightarrow> u64 \<Rightarrow> ReachabilityInterval" where
  "intervalIncreaseStart ri offset = \<lparr>Start = Start ri + offset, End = End ri\<rparr>"

definition intervalDecreaseStart :: "ReachabilityInterval \<Rightarrow> u64 \<Rightarrow> ReachabilityInterval" where
  "intervalDecreaseStart ri offset = \<lparr>Start = Start ri - offset, End = End ri\<rparr>"

definition intervalIncreaseEnd :: "ReachabilityInterval \<Rightarrow> u64 \<Rightarrow> ReachabilityInterval" where
  "intervalIncreaseEnd ri offset = \<lparr>Start = Start ri, End = End ri + offset\<rparr>"

definition intervalDecreaseEnd :: "ReachabilityInterval \<Rightarrow> u64 \<Rightarrow> ReachabilityInterval" where
  "intervalDecreaseEnd ri offset = \<lparr>Start = Start ri, End = End ri - offset\<rparr>"

definition intervalContains :: "ReachabilityInterval \<Rightarrow> ReachabilityInterval \<Rightarrow> bool" where
  "intervalContains ri other \<longleftrightarrow> Start ri \<le> Start other \<and> End other \<le> End ri"

section \<open>Splitting\<close>

definition intervalSplitFraction ::
    "(float64 \<Rightarrow> u64) \<Rightarrow> ReachabilityInterval \<Rightarrow> float64
     \<Rightarrow> (dag_error, ReachabilityInterval \<times> ReachabilityInterval) result" where
  "intervalSplitFraction conv ri fraction =
     (if f64_less fraction (Fin 0) \<or> f64_less (Fin 1) fraction then Inl (Err FractionOutOfRange)
      else if intervalSize ri = 0 then Inl (Err SplitOfEmptyInterval)
      else let allocationSize =
                 uint64_of_f64 conv (math_Ceil (f64_mul (f64_of_uint64 (intervalSize ri)) fraction))
           in Inr (newReachabilityInterval (Start ri) (Start ri + allocationSize - 1),
                   newReachabilityInterval (Start ri + allocationSize) (End ri)))"

definition intervalSplitInHalf ::
    "(float64 \<Rightarrow> u64) \<Rightarrow> ReachabilityInterval
     \<Rightarrow> (dag_error, ReachabilityInterval \<times> ReachabilityInterval) result" where
  "intervalSplitInHalf conv ri = intervalSplitFraction conv ri (Fin (1 / 2))"

definition sumSizes :: "u64 list \<Rightarrow> u64" where
  "sumSizes sizes = foldl (+) 0 sizes"

primrec splitExact_from :: "u64 \<Rightarrow> u64 list \<Rightarrow> ReachabilityInterval list" where
  "splitExact_from start [] = []"
| "splitExact_from start (sz # sizes) =
     newReachabilityInterval start (start + sz - 1) # splitExact_from (start + sz) sizes"

definition intervalSplitExact ::
    "ReachabilityInterval \<Rightarrow> u64 list \<Rightarrow> (dag_error, ReachabilityInterval list) result" where
  "intervalSplitExact ri sizes =
     (if sumSizes sizes \<noteq> intervalSize ri then Inl (Err SizesSumNotEqual)
      else Inr (splitExact_from (Start ri) sizes))"

definition exponentialFractions :: "u64 list \<Rightarrow> float64 list" where
  "exponentialFractions sizes =
     (let maxSize = foldl (\<lambda>m sz. if sz > m then sz else m) 0 sizes;
          fractions = map (\<lambda>sz. f64_div (Fin 1) (math_Pow2 (f64_of_uint64 (maxSize - sz)))) sizes;
          fractionsSum = foldl f64_add (Fin 0) fractions
      in map (\<lambda>fraction. f64_div fraction fractionsSum) fractions)"

fun addBias :: "(float64 \<Rightarrow> u64) \<Rightarrow> u64 \<Rightarrow> u64 \<Rightarrow> float64 list \<Rightarrow> u64 list \<Rightarrow> u64 list" where
  "addBias conv totalBias remainingBias (fraction # fractions) (sz # sizes) =
     (let bias = (if fractions = [] then remainingBias
                  else let b = uint64_of_f64 conv (math_Round (f64_mul (f64_of_uint64 totalBias) fraction))
                       in if b > remainingBias then remainingBias else b)
      in (sz + bias) # addBias conv totalBias (remainingBias - bias) fractions sizes)"
| "addBias conv totalBias remainingBias _ _ = []"

definition intervalSplitWithExponentialBias ::
    "(float64 \<Rightarrow> u64) \<Rightarrow> ReachabilityInterval \<Rightarrow> u64 list
     \<Rightarrow> (dag_error, ReachabilityInterval list) result" where
  "intervalSplitWithExponentialBias conv ri sizes =
     (let sizesSum = sumSizes sizes
      in if sizesSum > intervalSize ri then Inl (Err SizesSumTooLarge)
         else if sizesSum = intervalSize ri then intervalSplitExact ri sizes
         else let totalBias = intervalSize ri - sizesSum
              in intervalSplitExact ri
                   (addBias conv totalBias totalBias (exponentialFractions sizes) sizes))"

section \<open>Layout of consecutive intervals\<close>

abbreviation ilo :: "ReachabilityInterval \<Rightarrow> int" where
  "ilo i \<equiv> uint (Start i)"

abbreviation ihi :: "ReachabilityInterval \<Rightarrow> int" where
  "ihi i \<equiv> uint (End i)"

text \<open>\<open>chained a b is\<close>: non-empty intervals, each to the right of its predecessor, within \<open>[a, b]\<close>.\<close>

fun chained :: "int \<Rightarrow> int \<Rightarrow> ReachabilityInterval list \<Rightarrow> bool" where
  "chained a b [] = True"
| "chained a b (i # is) = (a \<le> ilo i \<and> ilo i \<le> ihi i \<and> ihi i \<le> b \<and> chained (ihi i + 1) b is)"

lemma intervalContains_iff: "intervalContains i j \<longleftrightarrow> ilo i \<le> ilo j \<and> ihi j \<le> ihi i"
  by (simp add: intervalContains_def word_le_def)

lemma chained_mono: "chained a b is \<Longrightarrow> a' \<le> a \<Longrightarrow> b \<le> b' \<Longrightarrow> chained a' b' is"
  by (induction "is" arbitrary: a a') force+

lemma chained_mem:
  "chained a b is \<Longrightarrow> i \<in> set is \<Longrightarrow> a \<le> ilo i \<and> ilo i \<le> ihi i \<and> ihi i \<le> b"
  by (induction "is" arbitrary: a) (auto intro: order_trans, fastforce)

lemma chained_append:
  "chained a b (xs @ ys) \<longleftrightarrow> chained a b xs \<and> chained (if xs = [] then a else ihi (last xs) + 1) b ys"
  by (induction xs arbitrary: a) auto

lemma chained_nth_less:
  "chained a b is \<Longrightarrow> j < k \<Longrightarrow> k < length is \<Longrightarrow> ihi (is ! j) < ilo (is ! k)"
proof (induction "is" arbitrary: a j k)
  case (Cons i "is")
  show ?case
  proof (cases j)
    case 0
    obtain k' where k: "k = Suc k'" using Cons.prems 0 by (cases k) auto
    then have "is ! k' \<in> set is" using Cons.prems by simp
    then show ?thesis using Cons.prems 0 k chained_mem [of "ihi i + 1" b "is" "is ! k'"] by simp
  next
    case (Suc j')
    then show ?thesis using Cons.prems Cons.IH [of "ihi i + 1" j' "k - 1"] by (cases k) auto
  qed
qed simp

text \<open>The number of values in an interval, without wrap-around.\<close>

definition width :: "ReachabilityInterval \<Rightarrow> int" where
  "width i = ihi i - ilo i + 1"

lemma intervalSize_width: "ilo i \<le> ihi i + 1 \<Longrightarrow> uint (intervalSize i) = width i mod 2 ^ 64"
  by (simp add: intervalSize_def width_def uint_word_ariths mod_simps)

lemma intervalSize_width_small:
  "ilo i \<le> ihi i + 1 \<Longrightarrow> width i < 2 ^ 64 \<Longrightarrow> uint (intervalSize i) = width i"
  by (simp add: intervalSize_width) (simp add: width_def)

section \<open>Splits produce chained intervals\<close>

lemma uint_plus_small: "uint a + uint b < 2 ^ 64 \<Longrightarrow> uint (a + b :: u64) = uint a + uint b"
  by (simp add: uint_word_ariths)

lemma uint_plus_minus_one:
  assumes "0 < uint b" "uint a + uint b \<le> 2 ^ 64"
  shows "uint (a + b - 1 :: u64) = uint a + uint b - 1"
proof -
  have "0 \<le> uint a + uint b - 1" using assms(1) uint_ge_0 [of a] by linarith
  then have "(uint a + uint b - 1) mod 2 ^ 64 = uint a + uint b - 1"
    using assms(2) by (intro mod_pos_pos_trivial) auto
  then show ?thesis by (simp add: uint_word_ariths mod_simps)
qed

lemma splitInHalf_ok:
  assumes w: "0 < width ri" "width ri < 2 ^ 64"
  shows "\<exists>l r. intervalSplitInHalf conv ri = Inr (l, r) \<and> Start l = Start ri
           \<and> ilo l \<le> ihi l \<and> ihi l \<le> ihi ri"
proof -
  have sz: "uint (intervalSize ri) = width ri"
    using w by (intro intervalSize_width_small) (auto simp: width_def)
  have pos: "0 < intervalSize ri"
    using w sz by (simp add: word_less_def)
  define a where
    "a = uint64_of_f64 conv (math_Ceil (f64_mul (f64_of_uint64 (intervalSize ri)) (Fin (1 / 2))))"
  have a: "0 < uint a" "uint a \<le> width ri"
    using half_bounds [OF pos a_def] sz by (auto simp: word_less_def word_le_def)
  have e: "uint (Start ri + a - 1) = ilo ri + uint a - 1"
    using a uint_lt2p [of "End ri"] by (intro uint_plus_minus_one) (auto simp: width_def)
  have "intervalSplitInHalf conv ri
        = Inr (newReachabilityInterval (Start ri) (Start ri + a - 1), newReachabilityInterval (Start ri + a) (End ri))"
    using pos by (simp add: intervalSplitInHalf_def intervalSplitFraction_def a_def [symmetric])
  then show ?thesis
    using a e by (auto simp: newReachabilityInterval_def width_def)
qed

text \<open>The mathematical sum of the sizes.\<close>

definition isum :: "u64 list \<Rightarrow> int" where
  "isum sizes = sum_list (map uint sizes)"

lemma isum_simps [simp]:
  "isum [] = 0"
  "isum (s # sizes) = uint s + isum sizes"
  by (simp_all add: isum_def)

lemma isum_nonneg: "0 \<le> isum sizes"
  by (induction sizes) (auto intro: add_nonneg_nonneg)

lemma uint_foldl_sum: "uint (foldl (+) a sizes) = (uint (a :: u64) + isum sizes) mod 2 ^ 64"
proof (induction sizes arbitrary: a)
  case Nil
  then show ?case using uint_lt2p [of a] by (simp del: mod_mod_trivial)
next
  case (Cons s sizes)
  then show ?case by (simp add: uint_word_ariths mod_simps add.assoc)
qed

lemma uint_sumSizes: "isum sizes < 2 ^ 64 \<Longrightarrow> uint (sumSizes sizes) = isum sizes"
  using uint_foldl_sum [of 0 sizes] isum_nonneg [of sizes] by (simp add: sumSizes_def)

lemma splitExact_from_ok:
  "(\<forall>s \<in> set sizes. 0 < s) \<Longrightarrow> uint start + isum sizes \<le> 2 ^ 64 \<Longrightarrow>
   chained (uint start) (uint start + isum sizes - 1) (splitExact_from start sizes)
   \<and> map width (splitExact_from start sizes) = map uint sizes"
proof (induction sizes arbitrary: start)
  case (Cons s sizes)
  have s: "0 < uint s" using Cons.prems by (simp add: word_less_def)
  have t: "0 \<le> isum sizes" by (rule isum_nonneg)
  have e: "uint (start + s - 1) = uint start + uint s - 1"
    using Cons.prems(2) s t by (intro uint_plus_minus_one) auto
  show ?case
  proof (cases "sizes = []")
    case True
    then show ?thesis using e s by (simp add: newReachabilityInterval_def width_def)
  next
    case False
    then have "0 < isum sizes"
      using Cons.prems(1) isum_nonneg by (cases sizes) (auto simp: word_less_def intro: add_pos_nonneg)
    then have n: "uint (start + s) = uint start + uint s"
      using Cons.prems(2) by (intro uint_plus_small) simp
    have "uint (start + s) + isum sizes \<le> 2 ^ 64" using Cons.prems(2) n by simp
    then have ih: "chained (uint start + uint s) (uint start + uint s + isum sizes - 1) (splitExact_from (start + s) sizes)"
      "map width (splitExact_from (start + s) sizes) = map uint sizes"
      using Cons.IH [of "start + s"] Cons.prems(1) n by auto
    show ?thesis
      using ih e s t
      by (simp add: newReachabilityInterval_def width_def [of "\<lparr>Start = start, End = start + s - 1\<rparr>"] add.assoc)
  qed
qed simp

lemma splitExact_ok:
  assumes "\<forall>s \<in> set sizes. 0 < s" "isum sizes = width ri" "width ri < 2 ^ 64"
  shows "\<exists>is. intervalSplitExact ri sizes = Inr is \<and> chained (ilo ri) (ihi ri) is \<and> map width is = map uint sizes"
proof -
  have "uint (sumSizes sizes) = uint (intervalSize ri)"
    using assms isum_nonneg [of sizes] by (simp add: uint_sumSizes intervalSize_width_small width_def)
  then have "intervalSplitExact ri sizes = Inr (splitExact_from (Start ri) sizes)"
    by (simp add: intervalSplitExact_def word_uint_eq_iff)
  moreover have "ilo ri + isum sizes - 1 = ihi ri" "ilo ri + isum sizes \<le> 2 ^ 64"
    using assms(2) uint_lt2p [of "End ri"] by (simp_all add: width_def)
  ultimately show ?thesis
    using splitExact_from_ok [OF assms(1), of "Start ri"] by simp
qed

lemma addBias_ok:
  "length fr = length sizes \<Longrightarrow> sizes \<noteq> [] \<Longrightarrow> isum sizes + uint rem < 2 ^ 64 \<Longrightarrow>
   isum (addBias conv t rem fr sizes) = isum sizes + uint rem
   \<and> list_all2 (\<lambda>b s. uint s \<le> uint b) (addBias conv t rem fr sizes) sizes"
proof (induction conv t rem fr sizes rule: addBias.induct)
  case (1 conv t rem f fr s sizes)
  define bias where "bias = (if fr = [] then rem
                  else let b = uint64_of_f64 conv (math_Round (f64_mul (f64_of_uint64 t) f))
                       in if b > rem then rem else b)"
  have b: "bias \<le> rem" by (auto simp: bias_def Let_def)
  then have ub: "uint bias \<le> uint rem" by (rule iffD1 [OF word_le_def])
  have t: "0 \<le> isum sizes" by (rule isum_nonneg)
  have r: "uint (rem - bias) = uint rem - uint bias" using ub by (simp add: uint_sub_if')
  have s: "uint (s + bias) = uint s + uint bias"
    using 1(4) ub t by (intro uint_plus_small) simp
  have eq: "addBias conv t rem (f # fr) (s # sizes) = (s + bias) # addBias conv t (rem - bias) fr sizes"
    by (simp add: bias_def Let_def)
  show ?case
  proof (cases "sizes = []")
    case True
    then have "bias = rem" using 1(2) by (simp add: bias_def)
    then show ?thesis using True 1(2) s unfolding eq by simp
  next
    case False
    have "isum sizes + uint (rem - bias) < 2 ^ 64"
      using 1(4) r uint_ge_0 [of s] uint_ge_0 [of bias] unfolding isum_simps by linarith
    then have ih: "isum (addBias conv t (rem - bias) fr sizes) = isum sizes + uint (rem - bias)"
      "list_all2 (\<lambda>b s. uint s \<le> uint b) (addBias conv t (rem - bias) fr sizes) sizes"
      using 1(1) [OF bias_def] 1(2) False by auto
    show ?thesis unfolding eq using ih s r by simp
  qed
qed auto

lemma length_exponentialFractions [simp]: "length (exponentialFractions sizes) = length sizes"
  by (simp add: exponentialFractions_def Let_def)

lemma splitBias_ok:
  assumes pos: "\<forall>s \<in> set sizes. 0 < s" and ne: "sizes \<noteq> []"
    and fit: "isum sizes \<le> width ri" and w: "width ri < 2 ^ 64"
  shows "\<exists>is. intervalSplitWithExponentialBias conv ri sizes = Inr is \<and> chained (ilo ri) (ihi ri) is
           \<and> list_all2 (\<lambda>i s. uint s \<le> width i) is sizes"
proof -
  have t: "0 \<le> isum sizes" by (rule isum_nonneg)
  have su: "uint (sumSizes sizes) = isum sizes" using fit w by (intro uint_sumSizes) simp
  have wi: "uint (intervalSize ri) = width ri" using fit t w by (intro intervalSize_width_small) (auto simp: width_def)
  show ?thesis
  proof (cases "isum sizes = width ri")
    case True
    then have "intervalSplitWithExponentialBias conv ri sizes = intervalSplitExact ri sizes"
      using su wi by (simp add: intervalSplitWithExponentialBias_def word_less_def word_uint_eq_iff)
    moreover obtain "is" where i: "intervalSplitExact ri sizes = Inr is" "chained (ilo ri) (ihi ri) is"
      "map width is = map uint sizes"
      using splitExact_ok [OF pos True w] by blast
    moreover have "list_all2 (\<lambda>i s. uint s \<le> width i) is sizes"
      using i(3) by (auto simp: list_all2_conv_all_nth list_eq_iff_nth_eq)
    ultimately show ?thesis by simp
  next
    case False
    define bias where "bias = intervalSize ri - sumSizes sizes"
    have ub: "uint bias = width ri - isum sizes"
      using fit su wi by (simp add: bias_def uint_sub_if')
    define bs where "bs = addBias conv bias bias (exponentialFractions sizes) sizes"
    have bs: "isum bs = width ri" "list_all2 (\<lambda>b s. uint s \<le> uint b) bs sizes"
      using addBias_ok [of "exponentialFractions sizes" sizes bias conv bias] ne ub w by (auto simp: bs_def)
    have "\<forall>b \<in> set bs. 0 < b"
    proof
      fix b
      assume "b \<in> set bs"
      then obtain s where "s \<in> set sizes" "uint s \<le> uint b"
        using bs(2) by (metis list_all2_conv_all_nth in_set_conv_nth)
      then show "0 < b" using pos by (metis le_less_trans not_le word_le_def)
    qed
    then obtain "is" where i: "intervalSplitExact ri bs = Inr is" "chained (ilo ri) (ihi ri) is"
      "map width is = map uint bs"
      using splitExact_ok [OF _ bs(1) w] by blast
    have "intervalSplitWithExponentialBias conv ri sizes = intervalSplitExact ri bs"
      using su wi fit False
      by (simp add: intervalSplitWithExponentialBias_def bs_def bias_def word_less_def word_uint_eq_iff Let_def)
    moreover have "list_all2 (\<lambda>i s. uint s \<le> width i) is sizes"
      using i(3) bs(2) by (auto simp: list_all2_conv_all_nth list_eq_iff_nth_eq)
    ultimately show ?thesis using i by simp
  qed
qed

end
