(* ===== verification/Ghostdag_Data.thy ===== *)
theory Ghostdag_Data
  imports Domain_Types
begin

text \<open>
  \<^verbatim>\<open>domain/consensus/model/ghostdag.go\<close>: the GHOSTDAG data of a block.  \<^verbatim>\<open>big.Int\<close> blue work is an
  unbounded integer, the map of anticone sizes an association list.
\<close>

type_synonym KType = byte

record BlockGHOSTDAGData =
  BlueScore :: u64
  BlueWork :: int
  SelectedParent :: "DomainHash option"
  MergeSetBlues :: "DomainHash list"
  MergeSetReds :: "DomainHash list"
  BluesAnticoneSizes :: "(DomainHash \<times> KType) list"

definition NewBlockGHOSTDAGData ::
    "u64 \<Rightarrow> int \<Rightarrow> DomainHash option \<Rightarrow> DomainHash list \<Rightarrow> DomainHash list
     \<Rightarrow> (DomainHash \<times> KType) list \<Rightarrow> BlockGHOSTDAGData" where
  "NewBlockGHOSTDAGData blueScore blueWork selectedParent mergeSetBlues mergeSetReds bluesAnticoneSizes =
     \<lparr>BlueScore = blueScore, BlueWork = blueWork, SelectedParent = selectedParent,
      MergeSetBlues = mergeSetBlues, MergeSetReds = mergeSetReds,
      BluesAnticoneSizes = bluesAnticoneSizes\<rparr>"

definition MergeSet :: "BlockGHOSTDAGData \<Rightarrow> DomainHash list" where
  "MergeSet bgd = MergeSetBlues bgd @ (if length (MergeSetReds bgd) > 0 then MergeSetReds bgd else [])"

lemma MergeSet_eq: "MergeSet bgd = MergeSetBlues bgd @ MergeSetReds bgd"
  by (simp add: MergeSet_def)

end
