(* ===== verification/Reachability_Data.thy ===== *)
theory Reachability_Data
  imports Reachability_Interval Ghostdag_Data
begin

text \<open>
  The state of the reachability manager and its accessors: the per-block data of
  \<^verbatim>\<open>utils/reachabilitydata\<close>, and \<^verbatim>\<open>fetch.go\<close> and \<^verbatim>\<open>stage.go\<close> of
  \<^verbatim>\<open>processes/reachabilitymanager\<close>.  The manager's record holds what its stores return through
  the current staging area: reading a block gives the value staged last for it, or the committed
  one, or \<^verbatim>\<open>ErrNotFound\<close>.  A nil pointer is \<open>None\<close>, and following one is a panic.
\<close>

section \<open>Data of a block\<close>

record reachabilityData =
  rd_children :: "DomainHash list"
  rd_parent :: "DomainHash option"
  rd_interval :: "ReachabilityInterval option"
  rd_futureCoveringSet :: "DomainHash list"

definition EmptyReachabilityData :: reachabilityData where
  "EmptyReachabilityData =
     \<lparr>rd_children = [], rd_parent = None, rd_interval = None, rd_futureCoveringSet = []\<rparr>"

definition deref :: "'a option \<Rightarrow> (dag_error, 'a) result" where
  "deref p = (case p of None \<Rightarrow> Inl Panic | Some x \<Rightarrow> Inr x)"

definition CloneMutable :: "reachabilityData \<Rightarrow> (dag_error, reachabilityData) result" where
  "CloneMutable rd =
     rbind (deref (rd_interval rd)) (\<lambda>i.
       Inr \<lparr>rd_children = rd_children rd, rd_parent = rd_parent rd,
            rd_interval = Some \<lparr>Start = Start i, End = End i\<rparr>,
            rd_futureCoveringSet = rd_futureCoveringSet rd\<rparr>)"

definition rd_AddChild :: "DomainHash \<Rightarrow> reachabilityData \<Rightarrow> reachabilityData" where
  "rd_AddChild child rd = rd\<lparr>rd_children := rd_children rd @ [child]\<rparr>"

definition rd_SetParent :: "DomainHash \<Rightarrow> reachabilityData \<Rightarrow> reachabilityData" where
  "rd_SetParent parent' rd = rd\<lparr>rd_parent := Some parent'\<rparr>"

definition rd_SetInterval :: "ReachabilityInterval \<Rightarrow> reachabilityData \<Rightarrow> reachabilityData" where
  "rd_SetInterval i rd = rd\<lparr>rd_interval := Some i\<rparr>"

definition rd_SetFutureCoveringSet :: "DomainHash list \<Rightarrow> reachabilityData \<Rightarrow> reachabilityData" where
  "rd_SetFutureCoveringSet fcs rd = rd\<lparr>rd_futureCoveringSet := fcs\<rparr>"

section \<open>The manager\<close>

record reachabilityManager =
  rm_data :: "(DomainHash \<times> reachabilityData) list"
  rm_reindexRoot :: "DomainHash option"
  rm_ghostdag :: "(DomainHash \<times> BlockGHOSTDAGData) list"
  reindexSlack :: u64
  reindexWindow :: u64
  rm_conv :: "float64 \<Rightarrow> u64"

definition defaultReindexWindow :: u64 where
  "defaultReindexWindow = 200"

definition defaultReindexSlack :: u64 where
  "defaultReindexSlack = push_bit 12 1"

definition newReachabilityManager :: "(float64 \<Rightarrow> u64) \<Rightarrow> reachabilityManager" where
  "newReachabilityManager conv =
     \<lparr>rm_data = [], rm_reindexRoot = None, rm_ghostdag = [], reindexSlack = defaultReindexSlack,
      reindexWindow = defaultReindexWindow, rm_conv = conv\<rparr>"

definition ReachabilityData :: "reachabilityManager \<Rightarrow> DomainHash \<Rightarrow> (dag_error, reachabilityData) result" where
  "ReachabilityData rt blockHash =
     (case map_of (rm_data rt) blockHash of None \<Rightarrow> Inl (Err NotFound) | Some d \<Rightarrow> Inr d)"

definition ghostdagData :: "reachabilityManager \<Rightarrow> DomainHash \<Rightarrow> (dag_error, BlockGHOSTDAGData) result" where
  "ghostdagData rt blockHash =
     (case map_of (rm_ghostdag rt) blockHash of None \<Rightarrow> Inl (Err NotFound) | Some d \<Rightarrow> Inr d)"

section \<open>fetch.go\<close>

definition reachabilityDataForInsertion ::
    "reachabilityManager \<Rightarrow> DomainHash \<Rightarrow> (dag_error, reachabilityData) result" where
  "reachabilityDataForInsertion rt blockHash =
     (case ReachabilityData rt blockHash of
        Inr d \<Rightarrow> CloneMutable d
      | Inl e \<Rightarrow> if e = Err NotFound then Inr EmptyReachabilityData else Inl e)"

definition futureCoveringSet :: "reachabilityManager \<Rightarrow> DomainHash \<Rightarrow> (dag_error, DomainHash list) result" where
  "futureCoveringSet rt blockHash =
     rbind (ReachabilityData rt blockHash) (\<lambda>d. Inr (rd_futureCoveringSet d))"

definition interval ::
    "reachabilityManager \<Rightarrow> DomainHash \<Rightarrow> (dag_error, ReachabilityInterval option) result" where
  "interval rt blockHash = rbind (ReachabilityData rt blockHash) (\<lambda>d. Inr (rd_interval d))"

definition children :: "reachabilityManager \<Rightarrow> DomainHash \<Rightarrow> (dag_error, DomainHash list) result" where
  "children rt blockHash = rbind (ReachabilityData rt blockHash) (\<lambda>d. Inr (rd_children d))"

definition parent :: "reachabilityManager \<Rightarrow> DomainHash \<Rightarrow> (dag_error, DomainHash option) result" where
  "parent rt blockHash = rbind (ReachabilityData rt blockHash) (\<lambda>d. Inr (rd_parent d))"

definition reindexRoot :: "reachabilityManager \<Rightarrow> (dag_error, DomainHash) result" where
  "reindexRoot rt = (case rm_reindexRoot rt of None \<Rightarrow> Inl (Err NotFound) | Some h \<Rightarrow> Inr h)"

section \<open>stage.go\<close>

definition stageData ::
    "reachabilityManager \<Rightarrow> DomainHash \<Rightarrow> reachabilityData \<Rightarrow> reachabilityManager" where
  "stageData rt blockHash d = rt\<lparr>rm_data := AList.update blockHash d (rm_data rt)\<rparr>"

definition stageFutureCoveringSet ::
    "reachabilityManager \<Rightarrow> DomainHash \<Rightarrow> DomainHash list \<Rightarrow> (dag_error, reachabilityManager) result" where
  "stageFutureCoveringSet rt blockHash s =
     rbind (reachabilityDataForInsertion rt blockHash) (\<lambda>d.
       Inr (stageData rt blockHash (rd_SetFutureCoveringSet s d)))"

definition stageReindexRoot :: "reachabilityManager \<Rightarrow> DomainHash \<Rightarrow> reachabilityManager" where
  "stageReindexRoot rt blockHash = rt\<lparr>rm_reindexRoot := Some blockHash\<rparr>"

definition stageAddChild ::
    "reachabilityManager \<Rightarrow> DomainHash \<Rightarrow> DomainHash \<Rightarrow> (dag_error, reachabilityManager) result" where
  "stageAddChild rt node child =
     rbind (reachabilityDataForInsertion rt node) (\<lambda>nodeData.
       Inr (stageData rt node (rd_AddChild child nodeData)))"

definition stageParent ::
    "reachabilityManager \<Rightarrow> DomainHash \<Rightarrow> DomainHash \<Rightarrow> (dag_error, reachabilityManager) result" where
  "stageParent rt node parent' =
     rbind (reachabilityDataForInsertion rt node) (\<lambda>nodeData.
       Inr (stageData rt node (rd_SetParent parent' nodeData)))"

definition stageInterval ::
    "reachabilityManager \<Rightarrow> DomainHash \<Rightarrow> ReachabilityInterval \<Rightarrow> (dag_error, reachabilityManager) result" where
  "stageInterval rt node i =
     rbind (reachabilityDataForInsertion rt node) (\<lambda>nodeData.
       Inr (stageData rt node (rd_SetInterval i nodeData)))"

section \<open>Reading after staging\<close>

text \<open>\<open>data_of rt\<close> is the map that the manager reads; the lemmas below compute it.\<close>

definition data_of :: "reachabilityManager \<Rightarrow> DomainHash \<Rightarrow> reachabilityData option" where
  "data_of rt = map_of (rm_data rt)"

named_theorems reach_simps "accessors of a block whose data is known"

lemma data_of_stageData [simp]: "data_of (stageData rt h d) = (data_of rt)(h \<mapsto> d)"
  by (simp add: data_of_def stageData_def)

lemma stageData_fields [simp]:
  "rm_reindexRoot (stageData rt h d) = rm_reindexRoot rt"
  "rm_ghostdag (stageData rt h d) = rm_ghostdag rt"
  "reindexSlack (stageData rt h d) = reindexSlack rt"
  "reindexWindow (stageData rt h d) = reindexWindow rt"
  "rm_conv (stageData rt h d) = rm_conv rt"
  by (simp_all add: stageData_def)

lemma data_of_stageReindexRoot [simp]: "data_of (stageReindexRoot rt h) = data_of rt"
  by (simp add: data_of_def stageReindexRoot_def)

lemma deref_Some [simp]: "deref (Some x) = Inr x"
  by (simp add: deref_def)

lemma CloneMutable_Some: "rd_interval d = Some i \<Longrightarrow> CloneMutable d = Inr d"
  by (simp add: CloneMutable_def)

lemma fetch_Some [reach_simps]:
  assumes "data_of rt h = Some d"
  shows "ReachabilityData rt h = Inr d" "children rt h = Inr (rd_children d)"
    "parent rt h = Inr (rd_parent d)" "interval rt h = Inr (rd_interval d)"
    "futureCoveringSet rt h = Inr (rd_futureCoveringSet d)"
  using assms by (simp_all add: data_of_def ReachabilityData_def children_def parent_def interval_def futureCoveringSet_def)

lemma forInsertion_Some [reach_simps]:
  "data_of rt h = Some d \<Longrightarrow> rd_interval d = Some i \<Longrightarrow> reachabilityDataForInsertion rt h = Inr d"
  by (simp add: reachabilityDataForInsertion_def fetch_Some CloneMutable_Some)

lemma stage_Some [reach_simps]:
  assumes "data_of rt h = Some d" "rd_interval d = Some i"
  shows "stageInterval rt h j = Inr (stageData rt h (rd_SetInterval j d))"
    "stageParent rt h p = Inr (stageData rt h (rd_SetParent p d))"
    "stageAddChild rt h c = Inr (stageData rt h (rd_AddChild c d))"
    "stageFutureCoveringSet rt h s = Inr (stageData rt h (rd_SetFutureCoveringSet s d))"
  using forInsertion_Some [OF assms]
  by (simp_all add: stageInterval_def stageParent_def stageAddChild_def stageFutureCoveringSet_def)

lemma rd_set_simps [simp]:
  "rd_children (rd_SetInterval i d) = rd_children d"
  "rd_parent (rd_SetInterval i d) = rd_parent d"
  "rd_interval (rd_SetInterval i d) = Some i"
  "rd_futureCoveringSet (rd_SetInterval i d) = rd_futureCoveringSet d"
  "rd_children (rd_SetParent p d) = rd_children d"
  "rd_parent (rd_SetParent p d) = Some p"
  "rd_interval (rd_SetParent p d) = rd_interval d"
  "rd_futureCoveringSet (rd_SetParent p d) = rd_futureCoveringSet d"
  "rd_children (rd_AddChild c d) = rd_children d @ [c]"
  "rd_parent (rd_AddChild c d) = rd_parent d"
  "rd_interval (rd_AddChild c d) = rd_interval d"
  "rd_futureCoveringSet (rd_AddChild c d) = rd_futureCoveringSet d"
  "rd_children (rd_SetFutureCoveringSet s d) = rd_children d"
  "rd_parent (rd_SetFutureCoveringSet s d) = rd_parent d"
  "rd_interval (rd_SetFutureCoveringSet s d) = rd_interval d"
  "rd_futureCoveringSet (rd_SetFutureCoveringSet s d) = s"
  by (simp_all add: rd_SetInterval_def rd_SetParent_def rd_AddChild_def rd_SetFutureCoveringSet_def)

end
