(* ===== verification/Reachability_Tree.thy ===== *)
theory Reachability_Tree
  imports Reachability_Data
begin

text \<open>
  The queries of the reachability manager: the interval helpers and tree queries of
  \<^verbatim>\<open>tree.go\<close>, the binary search of \<^verbatim>\<open>ordered_tree_node_set.go\<close>, the future covering sets of
  \<^verbatim>\<open>future_covering_set.go\<close> and \<^verbatim>\<open>IsDAGAncestorOf\<close> of \<^verbatim>\<open>reachability.go\<close>.  Loops up the parent
  chain carry fuel; \<open>tree_fuel\<close>, one more than the number of blocks, is enough on every tree.
\<close>

definition tree_fuel :: "reachabilityManager \<Rightarrow> nat" where
  "tree_fuel rt = Suc (length (rm_data rt))"

section \<open>Interval helper functions\<close>

definition newReachabilityTreeData :: reachabilityData where
  "newReachabilityTreeData =
     rd_SetInterval (newReachabilityInterval 1 (- 1 - 1)) EmptyReachabilityData"

definition intervalRangeForChildAllocation ::
    "reachabilityManager \<Rightarrow> DomainHash \<Rightarrow> (dag_error, ReachabilityInterval) result" where
  "intervalRangeForChildAllocation rt node =
     rbind (interval rt node) (\<lambda>p. rbind (deref p) (\<lambda>i.
       Inr (newReachabilityInterval (Start i) (End i - 1))))"

definition remainingIntervalBefore ::
    "reachabilityManager \<Rightarrow> DomainHash \<Rightarrow> (dag_error, ReachabilityInterval) result" where
  "remainingIntervalBefore rt node =
     rbind (intervalRangeForChildAllocation rt node) (\<lambda>childrenRange.
     rbind (children rt node) (\<lambda>chs.
       if length chs = 0 then Inr childrenRange
       else rbind (interval rt (chs ! 0)) (\<lambda>p. rbind (deref p) (\<lambda>firstChildInterval.
         Inr (newReachabilityInterval (Start childrenRange) (Start firstChildInterval - 1))))))"

definition remainingIntervalAfter ::
    "reachabilityManager \<Rightarrow> DomainHash \<Rightarrow> (dag_error, ReachabilityInterval) result" where
  "remainingIntervalAfter rt node =
     rbind (intervalRangeForChildAllocation rt node) (\<lambda>childrenRange.
     rbind (children rt node) (\<lambda>chs.
       if length chs = 0 then Inr childrenRange
       else rbind (interval rt (chs ! (length chs - 1))) (\<lambda>p. rbind (deref p) (\<lambda>lastChildInterval.
         Inr (newReachabilityInterval (End lastChildInterval + 1) (End childrenRange))))))"

definition remainingSlackBefore :: "reachabilityManager \<Rightarrow> DomainHash \<Rightarrow> (dag_error, u64) result" where
  "remainingSlackBefore rt node =
     rbind (remainingIntervalBefore rt node) (\<lambda>i. Inr (intervalSize i))"

definition remainingSlackAfter :: "reachabilityManager \<Rightarrow> DomainHash \<Rightarrow> (dag_error, u64) result" where
  "remainingSlackAfter rt node =
     rbind (remainingIntervalAfter rt node) (\<lambda>i. Inr (intervalSize i))"

definition hasSlackIntervalBefore :: "reachabilityManager \<Rightarrow> DomainHash \<Rightarrow> (dag_error, bool) result" where
  "hasSlackIntervalBefore rt node =
     rbind (remainingIntervalBefore rt node) (\<lambda>i. Inr (intervalSize i > 0))"

definition hasSlackIntervalAfter :: "reachabilityManager \<Rightarrow> DomainHash \<Rightarrow> (dag_error, bool) result" where
  "hasSlackIntervalAfter rt node =
     rbind (remainingIntervalAfter rt node) (\<lambda>i. Inr (intervalSize i > 0))"

section \<open>Tree queries\<close>

definition IsReachabilityTreeAncestorOf ::
    "reachabilityManager \<Rightarrow> DomainHash \<Rightarrow> DomainHash \<Rightarrow> (dag_error, bool) result" where
  "IsReachabilityTreeAncestorOf rt node other =
     rbind (interval rt node) (\<lambda>nodeInterval.
     rbind (interval rt other) (\<lambda>otherInterval.
     rbind (deref nodeInterval) (\<lambda>i. rbind (deref otherInterval) (\<lambda>j.
       Inr (intervalContains i j)))))"

function searchAncestorIndex ::
    "reachabilityManager \<Rightarrow> DomainHash list \<Rightarrow> u64 \<Rightarrow> nat \<Rightarrow> nat \<Rightarrow> (dag_error, nat) result" where
  "searchAncestorIndex rt tns end' low high =
     (if low < high
      then let middle = (low + high) div 2
           in rbind (interval rt (tns ! middle)) (\<lambda>p. rbind (deref p) (\<lambda>middleInterval.
                if end' < Start middleInterval
                then searchAncestorIndex rt tns end' low middle
                else searchAncestorIndex rt tns end' (middle + 1) high))
      else Inr low)"
  by pat_completeness auto
termination
  by (relation "measure (\<lambda>(_, _, _, low, high). high - low)") auto

declare searchAncestorIndex.simps [simp del]

definition findAncestorIndexOfNode ::
    "reachabilityManager \<Rightarrow> DomainHash list \<Rightarrow> DomainHash \<Rightarrow> (dag_error, nat option) result" where
  "findAncestorIndexOfNode rt tns node =
     rbind (interval rt node) (\<lambda>p. rbind (deref p) (\<lambda>blockInterval.
     rbind (searchAncestorIndex rt tns (End blockInterval) 0 (length tns)) (\<lambda>low.
       if low = 0 then Inr None else Inr (Some (low - 1)))))"

definition findAncestorOfNode ::
    "reachabilityManager \<Rightarrow> DomainHash list \<Rightarrow> DomainHash \<Rightarrow> (dag_error, DomainHash option) result" where
  "findAncestorOfNode rt tns node =
     (case findAncestorIndexOfNode rt tns node of
        Inl Panic \<Rightarrow> Inl Panic
      | Inl (Err e) \<Rightarrow> Inr None
      | Inr None \<Rightarrow> Inr None
      | Inr (Some ancestorIndex) \<Rightarrow> Inr (Some (tns ! ancestorIndex)))"

definition FindNextAncestor ::
    "reachabilityManager \<Rightarrow> DomainHash \<Rightarrow> DomainHash \<Rightarrow> (dag_error, DomainHash) result" where
  "FindNextAncestor rt descendant ancestor =
     rbind (children rt ancestor) (\<lambda>childrenOfAncestor.
     rbind (findAncestorOfNode rt childrenOfAncestor descendant) (\<lambda>nextAncestor.
       case nextAncestor of
         None \<Rightarrow> Inl (Err NotAnAncestorOfDescendant)
       | Some h \<Rightarrow> Inr h))"

definition isStrictAncestorOf ::
    "reachabilityManager \<Rightarrow> DomainHash \<Rightarrow> DomainHash \<Rightarrow> (dag_error, bool) result" where
  "isStrictAncestorOf rt node other =
     (if node = other then Inr False else IsReachabilityTreeAncestorOf rt node other)"

primrec findCommonAncestor_from ::
    "nat \<Rightarrow> reachabilityManager \<Rightarrow> DomainHash option \<Rightarrow> DomainHash \<Rightarrow> (dag_error, DomainHash) result" where
  "findCommonAncestor_from 0 rt current rootHash = Inl (Err NoFuel)"
| "findCommonAncestor_from (Suc fuel) rt current rootHash =
     rbind (deref current) (\<lambda>h.
     rbind (IsReachabilityTreeAncestorOf rt h rootHash) (\<lambda>isAncestorOf.
       if isAncestorOf then Inr h
       else rbind (parent rt h) (\<lambda>p. findCommonAncestor_from fuel rt p rootHash)))"

definition findCommonAncestor ::
    "reachabilityManager \<Rightarrow> DomainHash \<Rightarrow> DomainHash \<Rightarrow> (dag_error, DomainHash) result" where
  "findCommonAncestor rt node rootHash = findCommonAncestor_from (tree_fuel rt) rt (Some node) rootHash"

primrec splitAtPivot :: "DomainHash list \<Rightarrow> DomainHash list \<Rightarrow> DomainHash
     \<Rightarrow> (dag_error, DomainHash list \<times> DomainHash list) result" where
  "splitAtPivot earlier [] pivot = Inl (Err NotAPivotOfNode)"
| "splitAtPivot earlier (child # chs) pivot =
     (if child = pivot then Inr (earlier, chs) else splitAtPivot (earlier @ [child]) chs pivot)"

definition splitChildren ::
    "reachabilityManager \<Rightarrow> DomainHash \<Rightarrow> DomainHash
     \<Rightarrow> (dag_error, DomainHash list \<times> DomainHash list) result" where
  "splitChildren rt node pivot = rbind (children rt node) (\<lambda>chs. splitAtPivot [] chs pivot)"

section \<open>Future covering sets\<close>

definition insertToFutureCoveringSet ::
    "reachabilityManager \<Rightarrow> DomainHash \<Rightarrow> DomainHash \<Rightarrow> (dag_error, reachabilityManager) result" where
  "insertToFutureCoveringSet rt node futureNode =
     rbind (reachabilityDataForInsertion rt node) (\<lambda>d.
       let fcs = rd_futureCoveringSet d
       in rbind (findAncestorIndexOfNode rt fcs futureNode) (\<lambda>idx.
            case idx of
              None \<Rightarrow> Inr (stageData rt node (rd_SetFutureCoveringSet (futureNode # fcs) d))
            | Some ancestorIndex \<Rightarrow>
                let candidate = fcs ! ancestorIndex
                in rbind (IsReachabilityTreeAncestorOf rt candidate futureNode) (\<lambda>candidateIsAncestorOfFutureNode.
                     if candidateIsAncestorOfFutureNode then Inr rt
                     else rbind (IsReachabilityTreeAncestorOf rt futureNode candidate)
                       (\<lambda>futureNodeIsAncestorOfCandidate.
                         if futureNodeIsAncestorOfCandidate
                         then stageFutureCoveringSet rt node (fcs[ancestorIndex := futureNode])
                         else Inr (stageData rt node
                                (rd_SetFutureCoveringSet
                                   (take (ancestorIndex + 1) fcs @ futureNode # drop (ancestorIndex + 1) fcs) d))))))"

definition futureCoveringSetHasAncestorOf ::
    "reachabilityManager \<Rightarrow> DomainHash \<Rightarrow> DomainHash \<Rightarrow> (dag_error, bool) result" where
  "futureCoveringSetHasAncestorOf rt this other =
     rbind (futureCoveringSet rt this) (\<lambda>fcs.
     rbind (findAncestorIndexOfNode rt fcs other) (\<lambda>idx.
       case idx of
         None \<Rightarrow> Inr False
       | Some ancestorIndex \<Rightarrow> IsReachabilityTreeAncestorOf rt (fcs ! ancestorIndex) other))"

definition IsDAGAncestorOf ::
    "reachabilityManager \<Rightarrow> DomainHash \<Rightarrow> DomainHash \<Rightarrow> (dag_error, bool) result" where
  "IsDAGAncestorOf rt blockHashA blockHashB =
     rbind (IsReachabilityTreeAncestorOf rt blockHashA blockHashB) (\<lambda>isReachabilityTreeAncestor.
       if isReachabilityTreeAncestor then Inr True
       else futureCoveringSetHasAncestorOf rt blockHashA blockHashB)"

end
