(* ===== verification/Reachability_Reindex.thy ===== *)
theory Reachability_Reindex
  imports Reachability_Tree
begin

text \<open>
  \<^verbatim>\<open>processes/reachabilitymanager/reindex_context.go\<close>: counting subtrees, propagating intervals and
  reclaiming slack.  A \<^verbatim>\<open>reindexContext\<close> is the manager together with the cache of subtree sizes;
  every operation returns both updated.  Every loop carries the fuel \<open>tree_fuel\<close>: a breadth-first
  search takes each block of a tree from its queue once, and a walk along the tree visits each block
  at most once.
\<close>

record reindexContext =
  manager :: reachabilityManager
  subTreeSizesCache :: "(DomainHash \<times> u64) list"

definition newReindexContext :: "reachabilityManager \<Rightarrow> reindexContext" where
  "newReindexContext rt = \<lparr>manager = rt, subTreeSizesCache = []\<rparr>"

text \<open>Reading a Go map at a key that is absent gives the zero value.\<close>

definition count_at :: "(DomainHash \<times> u64) list \<Rightarrow> DomainHash \<Rightarrow> u64" where
  "count_at m h = (case map_of m h of None \<Rightarrow> 0 | Some n \<Rightarrow> n)"

definition rc_fuel :: "reindexContext \<Rightarrow> nat" where
  "rc_fuel rc = tree_fuel (manager rc)"

text \<open>\<^verbatim>\<open>rc.manager.stageInterval\<close>.\<close>

definition rc_stageInterval ::
    "reindexContext \<Rightarrow> DomainHash \<Rightarrow> ReachabilityInterval \<Rightarrow> (dag_error, reindexContext) result" where
  "rc_stageInterval rc node i =
     rbind (stageInterval (manager rc) node i) (\<lambda>rt. Inr (rc\<lparr>manager := rt\<rparr>))"

section \<open>Counting subtrees\<close>

type_synonym counters = "(DomainHash \<times> u64) list \<times> (DomainHash \<times> u64) list"

text \<open>\<open>pushSizesUp\<close> is the inner loop, which pushes the size of a finished subtree up to its parents.\<close>

primrec pushSizesUp ::
    "nat \<Rightarrow> reachabilityManager \<Rightarrow> DomainHash \<Rightarrow> DomainHash \<Rightarrow> counters \<Rightarrow> (dag_error, counters) result" where
  "pushSizesUp 0 rt node current cs = Inl (Err NoFuel)"
| "pushSizesUp (Suc fuel) rt node current cs =
     (if current = node then Inr cs
      else rbind (parent rt current) (\<lambda>p.
        case p of
          None \<Rightarrow> Inr cs
        | Some current' \<Rightarrow>
            let sizes = fst cs;
                calculated = AList.update current' (count_at (snd cs) current' + 1) (snd cs)
            in rbind (children rt current') (\<lambda>chs.
                 if count_at calculated current' \<noteq> of_nat (length chs) then Inr (sizes, calculated)
                 else let childSubtreeSizeSum = foldl (\<lambda>s child. s + count_at sizes child) 0 chs
                      in pushSizesUp fuel rt node current'
                           (AList.update current' (childSubtreeSizeSum + 1) sizes, calculated))))"

primrec countSubtrees_loop ::
    "nat \<Rightarrow> reachabilityManager \<Rightarrow> DomainHash \<Rightarrow> DomainHash list \<Rightarrow> counters \<Rightarrow> (dag_error, counters) result" where
  "countSubtrees_loop 0 rt node queue cs = Inl (Err NoFuel)"
| "countSubtrees_loop (Suc fuel) rt node queue cs =
     (case queue of
        [] \<Rightarrow> Inr cs
      | current # queue' \<Rightarrow>
          rbind (children rt current) (\<lambda>chs.
            if length chs = 0
            then rbind (pushSizesUp (tree_fuel rt) rt node current (AList.update current 1 (fst cs), snd cs))
                   (countSubtrees_loop fuel rt node queue')
            else if map_of (fst cs) current = None
            then countSubtrees_loop fuel rt node (queue' @ chs) cs
            else rbind (pushSizesUp (tree_fuel rt) rt node current cs)
                   (countSubtrees_loop fuel rt node queue')))"

definition countSubtrees :: "reindexContext \<Rightarrow> DomainHash \<Rightarrow> (dag_error, reindexContext) result" where
  "countSubtrees rc node =
     (if map_of (subTreeSizesCache rc) node \<noteq> None then Inr rc
      else rbind (countSubtrees_loop (rc_fuel rc) (manager rc) node [node] (subTreeSizesCache rc, []))
        (\<lambda>cs. Inr (rc\<lparr>subTreeSizesCache := fst cs\<rparr>)))"

section \<open>Propagating intervals\<close>

primrec stageIntervals ::
    "reindexContext \<Rightarrow> DomainHash list \<Rightarrow> ReachabilityInterval list \<Rightarrow> (dag_error, reindexContext) result" where
  "stageIntervals rc [] intervals = Inr rc"
| "stageIntervals rc (child # chs) intervals =
     (case intervals of
        [] \<Rightarrow> Inl Panic
      | childInterval # intervals' \<Rightarrow>
          rbind (rc_stageInterval rc child childInterval) (\<lambda>rc'. stageIntervals rc' chs intervals'))"

primrec propagateInterval_loop ::
    "nat \<Rightarrow> reindexContext \<Rightarrow> DomainHash list \<Rightarrow> (dag_error, reindexContext) result" where
  "propagateInterval_loop 0 rc queue = Inl (Err NoFuel)"
| "propagateInterval_loop (Suc fuel) rc queue =
     (case queue of
        [] \<Rightarrow> Inr rc
      | current # queue' \<Rightarrow>
          rbind (children (manager rc) current) (\<lambda>chs.
            if length chs > 0
            then let sizes = map (count_at (subTreeSizesCache rc)) chs
                 in rbind (intervalRangeForChildAllocation (manager rc) current) (\<lambda>i.
                    rbind (intervalSplitWithExponentialBias (rm_conv (manager rc)) i sizes) (\<lambda>intervals.
                    rbind (stageIntervals rc chs intervals) (\<lambda>rc'.
                      propagateInterval_loop fuel rc' (queue' @ chs))))
            else propagateInterval_loop fuel rc queue'))"

definition propagateInterval :: "reindexContext \<Rightarrow> DomainHash \<Rightarrow> (dag_error, reindexContext) result" where
  "propagateInterval rc node =
     rbind (countSubtrees rc node) (\<lambda>rc'. propagateInterval_loop (rc_fuel rc') rc' [node])"

section \<open>Reclaiming slack along the chain to the reindex root\<close>

primrec offsetSiblingsBefore_loop ::
    "reindexContext \<Rightarrow> DomainHash \<Rightarrow> DomainHash list \<Rightarrow> u64 \<Rightarrow> (dag_error, reindexContext) result" where
  "offsetSiblingsBefore_loop rc allocationNode [] offset = Inr rc"
| "offsetSiblingsBefore_loop rc allocationNode (sibling # siblings) offset =
     (if sibling = allocationNode
      then rbind (interval (manager rc) allocationNode) (\<lambda>p. rbind (deref p) (\<lambda>previousInterval.
           rbind (rc_stageInterval rc allocationNode (intervalIncreaseEnd previousInterval offset)) (\<lambda>rc'.
             propagateInterval rc' allocationNode)))
      else rbind (interval (manager rc) sibling) (\<lambda>p. rbind (deref p) (\<lambda>previousInterval.
           rbind (rc_stageInterval rc sibling (intervalIncrease previousInterval offset)) (\<lambda>rc'.
           rbind (propagateInterval rc' sibling) (\<lambda>rc''.
             offsetSiblingsBefore_loop rc'' allocationNode siblings offset)))))"

definition offsetSiblingsBefore ::
    "reindexContext \<Rightarrow> DomainHash \<Rightarrow> DomainHash \<Rightarrow> u64 \<Rightarrow> (dag_error, reindexContext) result" where
  "offsetSiblingsBefore rc allocationNode current offset =
     rbind (parent (manager rc) current) (\<lambda>p. rbind (deref p) (\<lambda>parent'.
     rbind (splitChildren (manager rc) parent' current) (\<lambda>(siblingsBefore, _).
       offsetSiblingsBefore_loop rc allocationNode (rev siblingsBefore) offset)))"

primrec offsetSiblingsAfter_loop ::
    "reindexContext \<Rightarrow> DomainHash \<Rightarrow> DomainHash list \<Rightarrow> u64 \<Rightarrow> (dag_error, reindexContext) result" where
  "offsetSiblingsAfter_loop rc allocationNode [] offset = Inr rc"
| "offsetSiblingsAfter_loop rc allocationNode (sibling # siblings) offset =
     (if sibling = allocationNode
      then rbind (interval (manager rc) allocationNode) (\<lambda>p. rbind (deref p) (\<lambda>previousInterval.
           rbind (rc_stageInterval rc allocationNode (intervalDecreaseStart previousInterval offset)) (\<lambda>rc'.
             propagateInterval rc' allocationNode)))
      else rbind (interval (manager rc) sibling) (\<lambda>p. rbind (deref p) (\<lambda>previousInterval.
           rbind (rc_stageInterval rc sibling (intervalDecrease previousInterval offset)) (\<lambda>rc'.
           rbind (propagateInterval rc' sibling) (\<lambda>rc''.
             offsetSiblingsAfter_loop rc'' allocationNode siblings offset)))))"

definition offsetSiblingsAfter ::
    "reindexContext \<Rightarrow> DomainHash \<Rightarrow> DomainHash \<Rightarrow> u64 \<Rightarrow> (dag_error, reindexContext) result" where
  "offsetSiblingsAfter rc allocationNode current offset =
     rbind (parent (manager rc) current) (\<lambda>p. rbind (deref p) (\<lambda>parent'.
     rbind (splitChildren (manager rc) parent' current) (\<lambda>(_, siblingsAfter).
       offsetSiblingsAfter_loop rc allocationNode siblingsAfter offset)))"

text \<open>
  The first loop of \<^verbatim>\<open>reclaimIntervalBefore\<close> and \<^verbatim>\<open>reclaimIntervalAfter\<close> walks towards the reindex
  root and returns the block at which it stops and the slack to leave on the way back; the second
  one walks back to the common ancestor.
\<close>

primrec reclaimBefore_up ::
    "nat \<Rightarrow> reindexContext \<Rightarrow> DomainHash \<Rightarrow> DomainHash \<Rightarrow> u64 \<Rightarrow> DomainHash \<Rightarrow> u64 \<Rightarrow> u64
     \<Rightarrow> (dag_error, reindexContext \<times> DomainHash \<times> u64) result" where
  "reclaimBefore_up 0 rc allocationNode reindexRoot' requiredAllocation current slackSum pathLen = Inl (Err NoFuel)"
| "reclaimBefore_up (Suc fuel) rc allocationNode reindexRoot' requiredAllocation current slackSum pathLen =
     (if current = reindexRoot'
      then rbind (interval (manager rc) current) (\<lambda>p. rbind (deref p) (\<lambda>previousInterval.
           let offset = requiredAllocation + reindexSlack (manager rc) * pathLen - slackSum
           in rbind (rc_stageInterval rc current (intervalIncreaseStart previousInterval offset)) (\<lambda>rc1.
              rbind (propagateInterval rc1 current) (\<lambda>rc2.
              rbind (offsetSiblingsBefore rc2 allocationNode current offset) (\<lambda>rc3.
                Inr (rc3, current, reindexSlack (manager rc3)))))))
      else rbind (remainingSlackBefore (manager rc) current) (\<lambda>slackBeforeCurrent.
           let slackSum' = slackSum + slackBeforeCurrent
           in if slackSum' \<ge> requiredAllocation
              then rbind (interval (manager rc) current) (\<lambda>p. rbind (deref p) (\<lambda>previousInterval.
                   let offset = slackBeforeCurrent - (slackSum' - requiredAllocation)
                   in rbind (rc_stageInterval rc current (intervalIncreaseStart previousInterval offset)) (\<lambda>rc1.
                      rbind (offsetSiblingsBefore rc1 allocationNode current offset) (\<lambda>rc2.
                        Inr (rc2, current, 0)))))
              else rbind (FindNextAncestor (manager rc) reindexRoot' current) (\<lambda>next.
                   reclaimBefore_up fuel rc allocationNode reindexRoot' requiredAllocation next slackSum' (pathLen + 1))))"

primrec reclaimBefore_down ::
    "nat \<Rightarrow> reindexContext \<Rightarrow> DomainHash \<Rightarrow> DomainHash \<Rightarrow> u64 \<Rightarrow> DomainHash
     \<Rightarrow> (dag_error, reindexContext) result" where
  "reclaimBefore_down 0 rc allocationNode commonAncestor pathSlackAlloc current = Inl (Err NoFuel)"
| "reclaimBefore_down (Suc fuel) rc allocationNode commonAncestor pathSlackAlloc current =
     rbind (parent (manager rc) current) (\<lambda>p.
       if p = Some commonAncestor then Inr rc
       else rbind (deref p) (\<lambda>current'.
            rbind (interval (manager rc) current') (\<lambda>originalInterval.
            rbind (remainingSlackBefore (manager rc) current') (\<lambda>slackBeforeCurrent.
            let offset = slackBeforeCurrent - pathSlackAlloc
            in rbind (deref originalInterval) (\<lambda>i.
               rbind (rc_stageInterval rc current' (intervalIncreaseStart i offset)) (\<lambda>rc1.
               rbind (offsetSiblingsBefore rc1 allocationNode current' offset) (\<lambda>rc2.
                 reclaimBefore_down fuel rc2 allocationNode commonAncestor pathSlackAlloc current')))))))"

definition reclaimIntervalBefore ::
    "reindexContext \<Rightarrow> DomainHash \<Rightarrow> DomainHash \<Rightarrow> DomainHash \<Rightarrow> DomainHash \<Rightarrow> u64
     \<Rightarrow> (dag_error, reindexContext) result" where
  "reclaimIntervalBefore rc allocationNode commonAncestor chosenChild reindexRoot' requiredAllocation =
     rbind (reclaimBefore_up (rc_fuel rc) rc allocationNode reindexRoot' requiredAllocation chosenChild 0 0)
       (\<lambda>(rc', current, pathSlackAlloc).
          reclaimBefore_down (rc_fuel rc) rc' allocationNode commonAncestor pathSlackAlloc current)"

primrec reclaimAfter_up ::
    "nat \<Rightarrow> reindexContext \<Rightarrow> DomainHash \<Rightarrow> DomainHash \<Rightarrow> u64 \<Rightarrow> DomainHash \<Rightarrow> u64 \<Rightarrow> u64
     \<Rightarrow> (dag_error, reindexContext \<times> DomainHash \<times> u64) result" where
  "reclaimAfter_up 0 rc allocationNode reindexRoot' requiredAllocation current slackSum pathLen = Inl (Err NoFuel)"
| "reclaimAfter_up (Suc fuel) rc allocationNode reindexRoot' requiredAllocation current slackSum pathLen =
     (if current = reindexRoot'
      then rbind (interval (manager rc) current) (\<lambda>p. rbind (deref p) (\<lambda>previousInterval.
           let offset = requiredAllocation + reindexSlack (manager rc) * pathLen - slackSum
           in rbind (rc_stageInterval rc current (intervalDecreaseEnd previousInterval offset)) (\<lambda>rc1.
              rbind (propagateInterval rc1 current) (\<lambda>rc2.
              rbind (offsetSiblingsAfter rc2 allocationNode current offset) (\<lambda>rc3.
                Inr (rc3, current, reindexSlack (manager rc3)))))))
      else rbind (remainingSlackAfter (manager rc) current) (\<lambda>slackAfterCurrent.
           let slackSum' = slackSum + slackAfterCurrent
           in if slackSum' \<ge> requiredAllocation
              then rbind (interval (manager rc) current) (\<lambda>p. rbind (deref p) (\<lambda>previousInterval.
                   let offset = slackAfterCurrent - (slackSum' - requiredAllocation)
                   in rbind (rc_stageInterval rc current (intervalDecreaseEnd previousInterval offset)) (\<lambda>rc1.
                      rbind (offsetSiblingsAfter rc1 allocationNode current offset) (\<lambda>rc2.
                        Inr (rc2, current, 0)))))
              else rbind (FindNextAncestor (manager rc) reindexRoot' current) (\<lambda>next.
                   reclaimAfter_up fuel rc allocationNode reindexRoot' requiredAllocation next slackSum' (pathLen + 1))))"

primrec reclaimAfter_down ::
    "nat \<Rightarrow> reindexContext \<Rightarrow> DomainHash \<Rightarrow> DomainHash \<Rightarrow> u64 \<Rightarrow> DomainHash
     \<Rightarrow> (dag_error, reindexContext) result" where
  "reclaimAfter_down 0 rc allocationNode commonAncestor pathSlackAlloc current = Inl (Err NoFuel)"
| "reclaimAfter_down (Suc fuel) rc allocationNode commonAncestor pathSlackAlloc current =
     rbind (parent (manager rc) current) (\<lambda>p.
       if p = Some commonAncestor then Inr rc
       else rbind (deref p) (\<lambda>current'.
            rbind (interval (manager rc) current') (\<lambda>originalInterval.
            rbind (remainingSlackAfter (manager rc) current') (\<lambda>slackAfterCurrent.
            let offset = slackAfterCurrent - pathSlackAlloc
            in rbind (deref originalInterval) (\<lambda>i.
               rbind (rc_stageInterval rc current' (intervalDecreaseEnd i offset)) (\<lambda>rc1.
               rbind (offsetSiblingsAfter rc1 allocationNode current' offset) (\<lambda>rc2.
                 reclaimAfter_down fuel rc2 allocationNode commonAncestor pathSlackAlloc current')))))))"

definition reclaimIntervalAfter ::
    "reindexContext \<Rightarrow> DomainHash \<Rightarrow> DomainHash \<Rightarrow> DomainHash \<Rightarrow> DomainHash \<Rightarrow> u64
     \<Rightarrow> (dag_error, reindexContext) result" where
  "reclaimIntervalAfter rc allocationNode commonAncestor chosenChild reindexRoot' requiredAllocation =
     rbind (reclaimAfter_up (rc_fuel rc) rc allocationNode reindexRoot' requiredAllocation chosenChild 0 0)
       (\<lambda>(rc', current, pathSlackAlloc).
          reclaimAfter_down (rc_fuel rc) rc' allocationNode commonAncestor pathSlackAlloc current)"

definition reindexIntervalsEarlierThanRoot ::
    "reindexContext \<Rightarrow> DomainHash \<Rightarrow> DomainHash \<Rightarrow> DomainHash \<Rightarrow> u64 \<Rightarrow> (dag_error, reindexContext) result" where
  "reindexIntervalsEarlierThanRoot rc allocationNode reindexRoot' commonAncestor requiredAllocation =
     rbind (FindNextAncestor (manager rc) reindexRoot' commonAncestor) (\<lambda>chosenChild.
     rbind (interval (manager rc) allocationNode) (\<lambda>p.
     rbind (interval (manager rc) chosenChild) (\<lambda>q.
     rbind (deref p) (\<lambda>nodeInterval. rbind (deref q) (\<lambda>chosenInterval.
       if Start nodeInterval < Start chosenInterval
       then reclaimIntervalBefore rc allocationNode commonAncestor chosenChild reindexRoot' requiredAllocation
       else reclaimIntervalAfter rc allocationNode commonAncestor chosenChild reindexRoot' requiredAllocation)))))"

primrec reindexIntervals_loop ::
    "nat \<Rightarrow> reindexContext \<Rightarrow> DomainHash \<Rightarrow> DomainHash \<Rightarrow> (dag_error, reindexContext) result" where
  "reindexIntervals_loop 0 rc reindexRoot' current = Inl (Err NoFuel)"
| "reindexIntervals_loop (Suc fuel) rc reindexRoot' current =
     rbind (interval (manager rc) current) (\<lambda>p. rbind (deref p) (\<lambda>currentInterval.
     let currentIntervalSize = intervalSize currentInterval
     in rbind (countSubtrees rc current) (\<lambda>rc'.
        let currentSubtreeSize = count_at (subTreeSizesCache rc') current
        in if currentIntervalSize \<ge> currentSubtreeSize then propagateInterval rc' current
           else rbind (parent (manager rc') current) (\<lambda>q.
             case q of
               None \<Rightarrow> Inl (Err MissingTreeParent)
             | Some parent' \<Rightarrow>
                 if current = reindexRoot' then Inl (Err ReindexRootOutOfCapacity)
                 else rbind (isStrictAncestorOf (manager rc') parent' reindexRoot') (\<lambda>isParentStrictAncestorOfRoot.
                   if isParentStrictAncestorOfRoot
                   then reindexIntervalsEarlierThanRoot rc' current reindexRoot' parent' currentSubtreeSize
                   else reindexIntervals_loop fuel rc' reindexRoot' parent')))))"

definition reindexIntervals ::
    "reindexContext \<Rightarrow> DomainHash \<Rightarrow> DomainHash \<Rightarrow> (dag_error, reindexContext) result" where
  "reindexIntervals rc newChild reindexRoot' = reindexIntervals_loop (rc_fuel rc) rc reindexRoot' newChild"

section \<open>Concentrating the interval of the reindex root\<close>

text \<open>
  An error of \<^verbatim>\<open>countSubtrees\<close> is dropped, and no sizes are returned.  Go keeps what the failed count has put
  into the cache, the model the cache before it; without sizes the callers do not return a new context, so
  it is not read again.
\<close>

primrec countChildrenSubtrees_loop ::
    "reindexContext \<Rightarrow> DomainHash list \<Rightarrow> u64 list \<Rightarrow> u64 \<Rightarrow> (dag_error, reindexContext \<times> u64 list \<times> u64) result" where
  "countChildrenSubtrees_loop rc [] sizes sizesSum = Inr (rc, sizes, sizesSum)"
| "countChildrenSubtrees_loop rc (node # nodes) sizes sizesSum =
     (case countSubtrees rc node of
        Inl Panic \<Rightarrow> Inl Panic
      | Inl (Err e) \<Rightarrow> Inr (rc, [], 0)
      | Inr rc' \<Rightarrow>
          let subtreeSize = count_at (subTreeSizesCache rc') node
          in countChildrenSubtrees_loop rc' nodes (sizes @ [subtreeSize]) (sizesSum + subtreeSize))"

definition countChildrenSubtrees ::
    "reindexContext \<Rightarrow> DomainHash list \<Rightarrow> (dag_error, reindexContext \<times> u64 list \<times> u64) result" where
  "countChildrenSubtrees rc nodes = countChildrenSubtrees_loop rc nodes [] 0"

primrec propagateChildren ::
    "reindexContext \<Rightarrow> DomainHash list \<Rightarrow> ReachabilityInterval list \<Rightarrow> (dag_error, reindexContext) result" where
  "propagateChildren rc [] childIntervals = Inr rc"
| "propagateChildren rc (child # chs) childIntervals =
     (case childIntervals of
        [] \<Rightarrow> Inl Panic
      | childInterval # childIntervals' \<Rightarrow>
          rbind (rc_stageInterval rc child childInterval) (\<lambda>rc1.
          rbind (propagateInterval rc1 child) (\<lambda>rc2. propagateChildren rc2 chs childIntervals')))"

definition propagateChildrenIntervals ::
    "reindexContext \<Rightarrow> ReachabilityInterval \<Rightarrow> DomainHash list \<Rightarrow> u64 list \<Rightarrow> (dag_error, reindexContext) result" where
  "propagateChildrenIntervals rc i chs sizes =
     rbind (intervalSplitExact i sizes) (\<lambda>childIntervals. propagateChildren rc chs childIntervals)"

definition tightenIntervalsBefore ::
    "reindexContext \<Rightarrow> DomainHash \<Rightarrow> DomainHash list \<Rightarrow> (dag_error, reindexContext \<times> u64) result" where
  "tightenIntervalsBefore rc reindexRoot' siblingsBeforeChosen =
     rbind (countChildrenSubtrees rc siblingsBeforeChosen) (\<lambda>(rc1, siblingSubtreeSizes, sizesSum).
     rbind (interval (manager rc1) reindexRoot') (\<lambda>p. rbind (deref p) (\<lambda>rootInterval.
     let slack = reindexSlack (manager rc1);
         intervalBeforeChosen = newReachabilityInterval
           (Start rootInterval + slack) (Start rootInterval + slack + sizesSum - 1)
     in rbind (propagateChildrenIntervals rc1 intervalBeforeChosen siblingsBeforeChosen siblingSubtreeSizes)
          (\<lambda>rc2. Inr (rc2, sizesSum)))))"

definition tightenIntervalsAfter ::
    "reindexContext \<Rightarrow> DomainHash \<Rightarrow> DomainHash list \<Rightarrow> (dag_error, reindexContext \<times> u64) result" where
  "tightenIntervalsAfter rc reindexRoot' siblingsAfterChosen =
     rbind (countChildrenSubtrees rc siblingsAfterChosen) (\<lambda>(rc1, siblingSubtreeSizes, sizesSum).
     rbind (interval (manager rc1) reindexRoot') (\<lambda>p. rbind (deref p) (\<lambda>rootInterval.
     let slack = reindexSlack (manager rc1);
         intervalAfterChosen = newReachabilityInterval
           (End rootInterval - slack - sizesSum) (End rootInterval - slack - 1)
     in rbind (propagateChildrenIntervals rc1 intervalAfterChosen siblingsAfterChosen siblingSubtreeSizes)
          (\<lambda>rc2. Inr (rc2, sizesSum)))))"

definition expandIntervalToChosen ::
    "reindexContext \<Rightarrow> DomainHash \<Rightarrow> DomainHash \<Rightarrow> u64 \<Rightarrow> u64 \<Rightarrow> bool \<Rightarrow> (dag_error, reindexContext) result" where
  "expandIntervalToChosen rc reindexRoot' chosenChild sizesSumBefore sizesSumAfter isFinalReindexRoot =
     rbind (interval (manager rc) reindexRoot') (\<lambda>p. rbind (deref p) (\<lambda>rootInterval.
     let slack = reindexSlack (manager rc);
         newChosenInterval = newReachabilityInterval
           (Start rootInterval + sizesSumBefore + slack) (End rootInterval - sizesSumAfter - slack - 1)
     in rbind (interval (manager rc) chosenChild) (\<lambda>currentChosenInterval.
        rbind (if isFinalReindexRoot
               then rbind (deref currentChosenInterval) (\<lambda>i.
                 if \<not> intervalContains newChosenInterval i
                 then rbind (rc_stageInterval rc chosenChild
                        (newReachabilityInterval (Start newChosenInterval + slack) (End newChosenInterval - slack)))
                        (\<lambda>rc1. propagateInterval rc1 chosenChild)
                 else Inr rc)
               else Inr rc)
          (\<lambda>rc2. rc_stageInterval rc2 chosenChild newChosenInterval))))"

definition concentrateInterval ::
    "reindexContext \<Rightarrow> DomainHash \<Rightarrow> DomainHash \<Rightarrow> bool \<Rightarrow> (dag_error, reindexContext) result" where
  "concentrateInterval rc reindexRoot' chosenChild isFinalReindexRoot =
     rbind (splitChildren (manager rc) reindexRoot' chosenChild) (\<lambda>(siblingsBeforeChosen, siblingsAfterChosen).
     rbind (tightenIntervalsBefore rc reindexRoot' siblingsBeforeChosen) (\<lambda>(rc1, siblingsBeforeSizesSum).
     rbind (tightenIntervalsAfter rc1 reindexRoot' siblingsAfterChosen) (\<lambda>(rc2, siblingsAfterSizesSum).
       expandIntervalToChosen rc2 reindexRoot' chosenChild siblingsBeforeSizesSum siblingsAfterSizesSum
         isFinalReindexRoot)))"

end
