(* ===== verification/Reachability_Manager.thy ===== *)
theory Reachability_Manager
  imports Reachability_Reindex
begin

text \<open>
  The operations that change the reachability tree: \<^verbatim>\<open>addChild\<close>, \<^verbatim>\<open>findNextReindexRoot\<close> and
  \<^verbatim>\<open>updateReindexRoot\<close> of \<^verbatim>\<open>tree.go\<close>, and \<^verbatim>\<open>AddBlock\<close> of \<^verbatim>\<open>reachabilitymanager.go\<close>.
\<close>

definition addChild ::
    "reachabilityManager \<Rightarrow> DomainHash \<Rightarrow> DomainHash \<Rightarrow> DomainHash \<Rightarrow> (dag_error, reachabilityManager) result" where
  "addChild rt node child reindexRoot' =
     rbind (remainingIntervalAfter rt node) (\<lambda>remaining.
     rbind (stageAddChild rt node child) (\<lambda>rt1.
     rbind (stageParent rt1 child node) (\<lambda>rt2.
       if intervalSize remaining = 0
       then rbind (stageInterval rt2 child remaining) (\<lambda>rt3.
            rbind (reindexIntervals (newReindexContext rt3) child reindexRoot') (\<lambda>rc. Inr (manager rc)))
       else rbind (intervalSplitInHalf (rm_conv rt2) remaining) (\<lambda>(allocated, _).
            stageInterval rt2 child allocated))))"

primrec findNextReindexRoot_loop ::
    "nat \<Rightarrow> reachabilityManager \<Rightarrow> BlockGHOSTDAGData \<Rightarrow> DomainHash \<Rightarrow> DomainHash \<Rightarrow> (dag_error, DomainHash) result" where
  "findNextReindexRoot_loop 0 rt selectedTipGHOSTDAGData selectedTip newReindexRoot = Inl (Err NoFuel)"
| "findNextReindexRoot_loop (Suc fuel) rt selectedTipGHOSTDAGData selectedTip newReindexRoot =
     rbind (FindNextAncestor rt selectedTip newReindexRoot) (\<lambda>chosenChild.
     rbind (ghostdagData rt chosenChild) (\<lambda>chosenChildGHOSTDAGData.
       if BlueScore selectedTipGHOSTDAGData < BlueScore chosenChildGHOSTDAGData
       then Inl (Err BlueScoreOfChosenChild)
       else if BlueScore selectedTipGHOSTDAGData - BlueScore chosenChildGHOSTDAGData < reindexWindow rt
       then Inr newReindexRoot
       else findNextReindexRoot_loop fuel rt selectedTipGHOSTDAGData selectedTip chosenChild))"

definition findNextReindexRoot ::
    "reachabilityManager \<Rightarrow> DomainHash \<Rightarrow> DomainHash \<Rightarrow> (dag_error, DomainHash \<times> DomainHash) result" where
  "findNextReindexRoot rt currentReindexRoot selectedTip =
     rbind (ghostdagData rt selectedTip) (\<lambda>selectedTipGHOSTDAGData.
     rbind (IsReachabilityTreeAncestorOf rt currentReindexRoot selectedTip) (\<lambda>isCurrentAncestorOfTip.
       if \<not> isCurrentAncestorOfTip
       then rbind (ghostdagData rt currentReindexRoot) (\<lambda>currentRootGHOSTDAGData.
            if BlueScore selectedTipGHOSTDAGData < BlueScore currentRootGHOSTDAGData
               \<or> BlueScore selectedTipGHOSTDAGData - BlueScore currentRootGHOSTDAGData < reindexSlack rt
            then Inr (currentReindexRoot, currentReindexRoot)
            else rbind (findCommonAncestor rt selectedTip currentReindexRoot) (\<lambda>commonAncestor.
                 rbind (findNextReindexRoot_loop (tree_fuel rt) rt selectedTipGHOSTDAGData selectedTip commonAncestor)
                   (\<lambda>newReindexRoot. Inr (commonAncestor, newReindexRoot))))
       else rbind (findNextReindexRoot_loop (tree_fuel rt) rt selectedTipGHOSTDAGData selectedTip currentReindexRoot)
              (\<lambda>newReindexRoot. Inr (currentReindexRoot, newReindexRoot))))"

primrec concentrate_loop ::
    "nat \<Rightarrow> reindexContext \<Rightarrow> DomainHash \<Rightarrow> DomainHash \<Rightarrow> DomainHash \<Rightarrow> (dag_error, reindexContext) result" where
  "concentrate_loop 0 rc selectedTip newReindexRoot reindexRootAncestor = Inl (Err NoFuel)"
| "concentrate_loop (Suc fuel) rc selectedTip newReindexRoot reindexRootAncestor =
     rbind (FindNextAncestor (manager rc) selectedTip reindexRootAncestor) (\<lambda>chosenChild.
     let isFinalReindexRoot = (chosenChild = newReindexRoot)
     in rbind (concentrateInterval rc reindexRootAncestor chosenChild isFinalReindexRoot) (\<lambda>rc'.
          if isFinalReindexRoot then Inr rc'
          else concentrate_loop fuel rc' selectedTip newReindexRoot chosenChild))"

definition updateReindexRoot ::
    "reachabilityManager \<Rightarrow> DomainHash \<Rightarrow> (dag_error, reachabilityManager) result" where
  "updateReindexRoot rt selectedTip =
     rbind (reindexRoot rt) (\<lambda>currentReindexRoot.
     rbind (findNextReindexRoot rt currentReindexRoot selectedTip) (\<lambda>(reindexRootAncestor, newReindexRoot).
       if currentReindexRoot = newReindexRoot then Inr rt
       else rbind (if newReindexRoot \<noteq> reindexRootAncestor
                   then concentrate_loop (tree_fuel rt) (newReindexContext rt) selectedTip newReindexRoot reindexRootAncestor
                   else Inr (newReindexContext rt))
              (\<lambda>rc. Inr (stageReindexRoot (manager rc) newReindexRoot))))"

definition UpdateReindexRoot ::
    "reachabilityManager \<Rightarrow> DomainHash \<Rightarrow> (dag_error, reachabilityManager) result" where
  "UpdateReindexRoot rt selectedTip = updateReindexRoot rt selectedTip"

primrec insertToFutureCoveringSets ::
    "reachabilityManager \<Rightarrow> DomainHash list \<Rightarrow> DomainHash \<Rightarrow> (dag_error, reachabilityManager) result" where
  "insertToFutureCoveringSets rt [] blockHash = Inr rt"
| "insertToFutureCoveringSets rt (current # mergeSet) blockHash =
     rbind (insertToFutureCoveringSet rt current blockHash) (\<lambda>rt'.
       insertToFutureCoveringSets rt' mergeSet blockHash)"

definition AddBlock :: "reachabilityManager \<Rightarrow> DomainHash \<Rightarrow> (dag_error, reachabilityManager) result" where
  "AddBlock rt blockHash =
     (let rt1 = stageData rt blockHash newReachabilityTreeData
      in rbind (ghostdagData rt1 blockHash) (\<lambda>ghostdagData'.
           case SelectedParent ghostdagData' of
             None \<Rightarrow> Inr (stageReindexRoot rt1 blockHash)
           | Some selectedParent \<Rightarrow>
               rbind (reindexRoot rt1) (\<lambda>reindexRoot'.
               rbind (addChild rt1 selectedParent blockHash reindexRoot') (\<lambda>rt2.
                 insertToFutureCoveringSets rt2
                   (MergeSetBlues ghostdagData' @ MergeSetReds ghostdagData') blockHash))))"

end
