(* ===== verification/Reachability_Validity.thy ===== *)
theory Reachability_Validity
  imports Reachability_Manager
begin

text \<open>
  What the reachability tree is: the structure of parents and children is a tree
  (\<open>tree_wf\<close>), and the intervals of the blocks are laid out along it (\<open>node_ok\<close>).  The lemmas
  show that on such a tree interval containment is exactly tree ancestry, that intervals of
  unrelated blocks are disjoint and ordered by the tree alone, and that the binary searches of the
  manager find what they look for.
\<close>

type_synonym tree = "DomainHash \<Rightarrow> reachabilityData option"

section \<open>Trees\<close>

definition kids :: "tree \<Rightarrow> DomainHash \<Rightarrow> DomainHash list" where
  "kids m h = (case m h of None \<Rightarrow> [] | Some d \<Rightarrow> rd_children d)"

definition par :: "tree \<Rightarrow> DomainHash \<Rightarrow> DomainHash option" where
  "par m h = Option.bind (m h) rd_parent"

definition fcs_of :: "tree \<Rightarrow> DomainHash \<Rightarrow> DomainHash list" where
  "fcs_of m h = (case m h of None \<Rightarrow> [] | Some d \<Rightarrow> rd_futureCoveringSet d)"

definition ivl :: "tree \<Rightarrow> DomainHash \<Rightarrow> ReachabilityInterval" where
  "ivl m h = the (rd_interval (the (m h)))"

definition edges :: "tree \<Rightarrow> (DomainHash \<times> DomainHash) set" where
  "edges m = {(p, c). c \<in> set (kids m p)}"

definition anc :: "tree \<Rightarrow> DomainHash \<Rightarrow> DomainHash \<Rightarrow> bool" where
  "anc m a b \<longleftrightarrow> (a, b) \<in> (edges m)\<^sup>*"

definition tree_wf :: "tree \<Rightarrow> DomainHash \<Rightarrow> bool" where
  "tree_wf m r \<longleftrightarrow>
     finite (dom m) \<and> r \<in> dom m
     \<and> (\<forall>h \<in> dom m. rd_interval (the (m h)) \<noteq> None \<and> distinct (kids m h) \<and> set (kids m h) \<subseteq> dom m
          \<and> anc m r h)
     \<and> (\<forall>p c. (p, c) \<in> edges m \<longleftrightarrow> par m c = Some p)
     \<and> par m r = None"

definition node_ok :: "tree \<Rightarrow> DomainHash \<Rightarrow> bool" where
  "node_ok m h \<longleftrightarrow> ilo (ivl m h) \<le> ihi (ivl m h)
     \<and> chained (ilo (ivl m h)) (ihi (ivl m h) - 1) (map (ivl m) (kids m h))"

text \<open>
  \<open>valid m r\<close>: a tree with root \<open>r\<close>, laid out, inside the range \<open>[1, 2 ^ 64 - 2]\<close> that
  \<^verbatim>\<open>newReachabilityTreeData\<close> gives to the first block.
\<close>

definition valid :: "tree \<Rightarrow> DomainHash \<Rightarrow> bool" where
  "valid m r \<longleftrightarrow> tree_wf m r \<and> (\<forall>h \<in> dom m. node_ok m h)
     \<and> 1 \<le> ilo (ivl m r) \<and> ihi (ivl m r) \<le> 2 ^ 64 - 2"

lemma kids_Some [simp]: "m h = Some d \<Longrightarrow> kids m h = rd_children d"
  by (simp add: kids_def)

lemma fcs_of_Some [simp]: "m h = Some d \<Longrightarrow> fcs_of m h = rd_futureCoveringSet d"
  by (simp add: fcs_of_def)

lemma par_Some [simp]: "m h = Some d \<Longrightarrow> par m h = rd_parent d"
  by (simp add: par_def)

lemma edges_iff: "(p, c) \<in> edges m \<longleftrightarrow> c \<in> set (kids m p)"
  by (simp add: edges_def)

lemma anc_refl [simp, intro]: "anc m a a"
  by (simp add: anc_def)

lemma anc_trans: "anc m a b \<Longrightarrow> anc m b c \<Longrightarrow> anc m a c"
  unfolding anc_def by (rule rtrancl_trans)

lemma anc_edge: "(a, b) \<in> edges m \<Longrightarrow> anc m a b"
  by (auto simp: anc_def)

lemma edge_dom: "(p, c) \<in> edges m \<Longrightarrow> p \<in> dom m"
  by (cases "m p") (auto simp: edges_iff kids_def)

lemma tree_wfD:
  assumes "tree_wf m r"
  shows "finite (dom m)" "r \<in> dom m" "par m r = None"
    "\<And>h. h \<in> dom m \<Longrightarrow> distinct (kids m h)"
    "\<And>p c. (p, c) \<in> edges m \<Longrightarrow> c \<in> dom m"
    "\<And>p c. (p, c) \<in> edges m \<longleftrightarrow> par m c = Some p"
    "\<And>h. h \<in> dom m \<Longrightarrow> anc m r h"
proof -
  note w = assms [unfolded tree_wf_def]
  show "finite (dom m)" "r \<in> dom m" "par m r = None" using w by blast+
  show "\<And>h. h \<in> dom m \<Longrightarrow> distinct (kids m h)" "\<And>h. h \<in> dom m \<Longrightarrow> anc m r h" using w by blast+
  show "\<And>p c. (p, c) \<in> edges m \<longleftrightarrow> par m c = Some p" using w by blast
  fix p c
  assume e: "(p, c) \<in> edges m"
  then have "p \<in> dom m" by (rule edge_dom)
  then have "set (kids m p) \<subseteq> dom m" using w by blast
  then show "c \<in> dom m" using e by (auto simp: edges_iff)
qed

lemma anc_dom:
  assumes "tree_wf m r" "anc m a b" "a \<in> dom m"
  shows "b \<in> dom m"
  using assms(2,3) unfolding anc_def
  by (induction rule: rtrancl_induct) (auto dest: tree_wfD(5) [OF assms(1)])

lemma ivl_Some:
  assumes "tree_wf m r" "h \<in> dom m"
  shows "\<exists>d. m h = Some d \<and> rd_interval d = Some (ivl m h)"
  using assms by (auto simp: tree_wf_def ivl_def)

lemma validD:
  assumes "valid m r"
  shows "tree_wf m r" "\<And>h. h \<in> dom m \<Longrightarrow> node_ok m h"
    "1 \<le> ilo (ivl m r)" "ihi (ivl m r) \<le> 2 ^ 64 - 2"
  using assms by (auto simp: valid_def)

lemma node_ok_edge:
  "node_ok m p \<Longrightarrow> (p, c) \<in> edges m \<Longrightarrow>
   ilo (ivl m p) \<le> ilo (ivl m c) \<and> ihi (ivl m c) < ihi (ivl m p)"
  using chained_mem [of "ilo (ivl m p)" "ihi (ivl m p) - 1" "map (ivl m) (kids m p)" "ivl m c"]
  by (force simp: node_ok_def edges_iff)

lemma anc_contains:
  assumes v: "valid m r" and "anc m a b" "a \<in> dom m"
  shows "ilo (ivl m a) \<le> ilo (ivl m b) \<and> ihi (ivl m b) \<le> ihi (ivl m a) \<and> (a \<noteq> b \<longrightarrow> ihi (ivl m b) < ihi (ivl m a))"
  using assms(2,3) unfolding anc_def
proof (induction rule: rtrancl_induct)
  case (step b c)
  have "b \<in> dom m" using step.hyps(2) by (rule edge_dom)
  then have "node_ok m b" using v by (auto simp: valid_def)
  then show ?case using node_ok_edge [OF _ step.hyps(2)] step by auto
qed simp

lemma ivl_bounds:
  assumes v: "valid m r" and "h \<in> dom m"
  shows "1 \<le> ilo (ivl m h)" "ilo (ivl m h) \<le> ihi (ivl m h)" "ihi (ivl m h) \<le> 2 ^ 64 - 2"
proof -
  have "anc m r h" "r \<in> dom m" using tree_wfD(2,7) [OF validD(1) [OF v]] assms(2) by auto
  then show "1 \<le> ilo (ivl m h)" "ihi (ivl m h) \<le> 2 ^ 64 - 2"
    using anc_contains [OF v] validD(3,4) [OF v] by fastforce+
  show "ilo (ivl m h) \<le> ihi (ivl m h)"
    using validD(2) [OF v assms(2)] by (simp add: node_ok_def)
qed

text \<open>Two unrelated blocks lie below two different children of some block.\<close>

lemma fork:
  assumes "anc m r a" "anc m r b" "\<not> anc m a b" "\<not> anc m b a"
  shows "\<exists>p i j. i < length (kids m p) \<and> j < length (kids m p) \<and> i \<noteq> j
           \<and> anc m (kids m p ! i) a \<and> anc m (kids m p ! j) b"
  using assms unfolding anc_def
proof (induction rule: converse_rtrancl_induct)
  case base
  then show ?case by simp
next
  case (step x y)
  show ?case
  proof (cases "(y, b) \<in> (edges m)\<^sup>*")
    case True
    then show ?thesis using step by blast
  next
    case False
    have "x \<noteq> b" using step by (meson converse_rtrancl_into_rtrancl)
    then obtain z where z: "(x, z) \<in> edges m" "(z, b) \<in> (edges m)\<^sup>*"
      using step.prems(1) by (meson converse_rtranclE)
    then have "z \<noteq> y" using False by auto
    moreover obtain i j where "i < length (kids m x)" "kids m x ! i = y" "j < length (kids m x)" "kids m x ! j = z"
      using step.hyps(1) z(1) by (auto simp: edges_iff in_set_conv_nth)
    ultimately show ?thesis using step.hyps(2) z(2) by blast
  qed
qed

lemma fork_order:
  assumes v: "valid m r" and p: "i < j" "j < length (kids m p)"
    and a: "anc m (kids m p ! i) a" and b: "anc m (kids m p ! j) b"
  shows "ihi (ivl m a) < ilo (ivl m b)"
proof -
  let ?x = "kids m p ! i" and ?y = "kids m p ! j"
  have e: "(p, ?x) \<in> edges m" "(p, ?y) \<in> edges m" using p by (auto simp: edges_iff)
  have d: "p \<in> dom m" "?x \<in> dom m" "?y \<in> dom m"
    using e edge_dom tree_wfD(5) [OF validD(1) [OF v]] by blast+
  have "chained (ilo (ivl m p)) (ihi (ivl m p) - 1) (map (ivl m) (kids m p))"
    using validD(2) [OF v d(1)] by (simp add: node_ok_def)
  then have "ihi (ivl m ?x) < ilo (ivl m ?y)"
    using chained_nth_less [of _ _ "map (ivl m) (kids m p)" i j] p by simp
  then show ?thesis
    using anc_contains [OF v a d(2)] anc_contains [OF v b d(3)] by linarith
qed

lemma unrelated_disjoint:
  assumes v: "valid m r" and "a \<in> dom m" "b \<in> dom m" "\<not> anc m a b" "\<not> anc m b a"
  shows "ihi (ivl m a) < ilo (ivl m b) \<or> ihi (ivl m b) < ilo (ivl m a)"
proof -
  have "anc m r a" "anc m r b" using tree_wfD(7) [OF validD(1) [OF v]] assms by auto
  from fork [OF this assms(4,5)] obtain p i j where
    "i < length (kids m p)" "j < length (kids m p)" "i \<noteq> j"
    "anc m (kids m p ! i) a" "anc m (kids m p ! j) b"
    by blast
  then show ?thesis using fork_order [OF v] by (metis nat_neq_iff)
qed

lemma contains_iff_anc:
  assumes v: "valid m r" and "a \<in> dom m" "b \<in> dom m"
  shows "intervalContains (ivl m a) (ivl m b) \<longleftrightarrow> anc m a b"
proof
  assume c: "intervalContains (ivl m a) (ivl m b)"
  show "anc m a b"
  proof (rule ccontr)
    assume n: "\<not> anc m a b"
    then have "a \<noteq> b" by auto
    show False
    proof (cases "anc m b a")
      case True
      then show ?thesis using anc_contains [OF v True assms(3)] c \<open>a \<noteq> b\<close> by (auto simp: intervalContains_iff)
    next
      case False
      then show ?thesis
        using unrelated_disjoint [OF v assms(2,3) n False] c ivl_bounds [OF v assms(2)] ivl_bounds [OF v assms(3)]
        by (auto simp: intervalContains_iff)
    qed
  qed
next
  assume "anc m a b"
  then show "intervalContains (ivl m a) (ivl m b)"
    using anc_contains [OF v _ assms(2)] by (auto simp: intervalContains_iff)
qed

text \<open>The order of two disjoint blocks is determined by the tree, whatever the intervals are.\<close>

definition same_shape :: "tree \<Rightarrow> tree \<Rightarrow> bool" where
  "same_shape m m' \<longleftrightarrow> dom m = dom m' \<and> (\<forall>h. kids m h = kids m' h \<and> par m h = par m' h \<and> fcs_of m h = fcs_of m' h)"

lemma same_shape_edges: "same_shape m m' \<Longrightarrow> edges m = edges m'"
  by (auto simp: same_shape_def edges_def)

lemma same_shape_anc: "same_shape m m' \<Longrightarrow> anc m = anc m'"
  by (auto simp: anc_def same_shape_edges fun_eq_iff)

text \<open>\<open>grows m m'\<close>: children are only appended, so the order of the blocks is kept.\<close>

definition grows :: "tree \<Rightarrow> tree \<Rightarrow> bool" where
  "grows m m' \<longleftrightarrow> (\<forall>p. \<exists>zs. kids m' p = kids m p @ zs)"

lemma grows_anc: "grows m m' \<Longrightarrow> anc m a b \<Longrightarrow> anc m' a b"
proof -
  assume g: "grows m m'" and "anc m a b"
  have "edges m \<subseteq> edges m'"
  proof
    fix e
    assume "e \<in> edges m"
    moreover obtain p c where "e = (p, c)" by (cases e)
    moreover obtain zs where "kids m' p = kids m p @ zs" using g by (auto simp: grows_def)
    ultimately show "e \<in> edges m'" by (simp add: edges_iff)
  qed
  then show "anc m' a b" using \<open>anc m a b\<close> rtrancl_mono unfolding anc_def by blast
qed

lemma order_grows:
  assumes s: "grows m m'" and v: "valid m r" "valid m' r'" and d: "a \<in> dom m" "b \<in> dom m"
    and ab: "ihi (ivl m a) < ilo (ivl m b)"
  shows "ihi (ivl m' a) < ilo (ivl m' b)"
proof -
  have "\<not> anc m a b" "\<not> anc m b a"
    using ab anc_contains [OF v(1) _ d(1), of b] anc_contains [OF v(1) _ d(2), of a]
      ivl_bounds [OF v(1) d(1)] ivl_bounds [OF v(1) d(2)] by auto
  moreover have "anc m r a" "anc m r b" using tree_wfD(7) [OF validD(1) [OF v(1)]] d by auto
  ultimately obtain p i j where f:
    "i < length (kids m p)" "j < length (kids m p)" "i \<noteq> j"
    "anc m (kids m p ! i) a" "anc m (kids m p ! j) b"
    using fork [of m r a b] by blast
  have "i < j"
  proof (rule ccontr)
    assume "\<not> i < j"
    then have "j < i" using f by simp
    then have "ihi (ivl m b) < ilo (ivl m a)" using fork_order [OF v(1)] f by blast
    then show False using ab ivl_bounds [OF v(1) d(1)] ivl_bounds [OF v(1) d(2)] by simp
  qed
  moreover obtain zs where "kids m' p = kids m p @ zs" using s by (auto simp: grows_def)
  ultimately show ?thesis
    using fork_order [OF v(2), of i j p a b] f grows_anc [OF s] by (simp add: nth_append)
qed

section \<open>Queries on a valid tree\<close>

lemma interval_ivl:
  assumes "tree_wf (data_of rt) r" "h \<in> dom (data_of rt)"
  shows "interval rt h = Inr (Some (ivl (data_of rt) h))"
  using ivl_Some [OF assms] by (auto simp: fetch_Some)

lemma children_kids:
  "h \<in> dom (data_of rt) \<Longrightarrow> children rt h = Inr (kids (data_of rt) h)"
  by (auto simp: fetch_Some)

lemma parent_par:
  "h \<in> dom (data_of rt) \<Longrightarrow> parent rt h = Inr (par (data_of rt) h)"
  by (auto simp: fetch_Some)

lemma IsReachabilityTreeAncestorOf_anc:
  assumes "valid (data_of rt) r" "a \<in> dom (data_of rt)" "b \<in> dom (data_of rt)"
  shows "IsReachabilityTreeAncestorOf rt a b = Inr (anc (data_of rt) a b)"
  using interval_ivl [OF validD(1) [OF assms(1)]] assms contains_iff_anc [OF assms]
  by (simp add: IsReachabilityTreeAncestorOf_def)

text \<open>The binary search stops behind the last block that starts at or before \<open>e\<close>.\<close>

lemma searchAncestorIndex_ok:
  assumes iv: "\<And>k. k < length tns \<Longrightarrow> interval rt (tns ! k) = Inr (Some (f (tns ! k)))"
    and srt: "\<And>i j. i < j \<Longrightarrow> j < length tns \<Longrightarrow> ilo (f (tns ! i)) \<le> ilo (f (tns ! j))"
  shows "low \<le> high \<Longrightarrow> high \<le> length tns \<Longrightarrow>
     (\<forall>k < low. ilo (f (tns ! k)) \<le> uint e) \<Longrightarrow>
     (\<forall>k < length tns. high \<le> k \<longrightarrow> uint e < ilo (f (tns ! k))) \<Longrightarrow>
     \<exists>n \<le> length tns. searchAncestorIndex rt tns e low high = Inr n
        \<and> (\<forall>k < n. ilo (f (tns ! k)) \<le> uint e)
        \<and> (\<forall>k < length tns. n \<le> k \<longrightarrow> uint e < ilo (f (tns ! k)))"
proof (induction "high - low" arbitrary: low high rule: less_induct)
  case less
  show ?case
  proof (cases "low < high")
    case False
    then show ?thesis using less.prems by (subst searchAncestorIndex.simps) auto
  next
    case True
    define mid where "mid = (low + high) div 2"
    have mid: "low \<le> mid" "mid < high" using True by (auto simp: mid_def)
    then have i: "interval rt (tns ! mid) = Inr (Some (f (tns ! mid)))" using iv less.prems by simp
    have eq: "searchAncestorIndex rt tns e low high =
       (if e < Start (f (tns ! mid)) then searchAncestorIndex rt tns e low mid
        else searchAncestorIndex rt tns e (mid + 1) high)"
      using True i by (subst searchAncestorIndex.simps) (simp add: mid_def Let_def)
    show ?thesis
    proof (cases "e < Start (f (tns ! mid))")
      case True
      then have h: "uint e < ilo (f (tns ! mid))" by (simp add: word_less_def)
      have "\<forall>k < length tns. mid \<le> k \<longrightarrow> uint e < ilo (f (tns ! k))"
      proof (intro allI impI)
        fix k
        assume k: "k < length tns" "mid \<le> k"
        show "uint e < ilo (f (tns ! k))"
          using srt [of mid k] h k by (cases "k = mid") auto
      qed
      then show ?thesis using less.hyps [of mid low] less.prems mid eq True by simp
    next
      case False
      then have h: "ilo (f (tns ! mid)) \<le> uint e" by (simp add: word_le_def not_less)
      have "\<forall>k < mid + 1. ilo (f (tns ! k)) \<le> uint e"
      proof (intro allI impI)
        fix k
        assume k: "k < mid + 1"
        show "ilo (f (tns ! k)) \<le> uint e"
          using srt [of k mid] h k mid less.prems by (cases "k = mid") auto
      qed
      then show ?thesis using less.hyps [of high "mid + 1"] less.prems mid eq False by simp
    qed
  qed
qed

text \<open>\<open>ordered m tns\<close>: blocks of the tree with disjoint intervals, from left to right.\<close>

definition ordered :: "tree \<Rightarrow> DomainHash list \<Rightarrow> bool" where
  "ordered m tns \<longleftrightarrow> set tns \<subseteq> dom m
     \<and> sorted_wrt (\<lambda>x y. ihi (ivl m x) < ilo (ivl m y)) tns"

lemma ordered_mem: "ordered m tns \<Longrightarrow> h \<in> set tns \<Longrightarrow> h \<in> dom m"
  unfolding ordered_def by blast

lemma ordered_nth: "ordered m tns \<Longrightarrow> k < length tns \<Longrightarrow> tns ! k \<in> dom m"
  by (rule ordered_mem) auto

lemma ordered_less:
  "ordered m tns \<Longrightarrow> i < j \<Longrightarrow> j < length tns \<Longrightarrow> ihi (ivl m (tns ! i)) < ilo (ivl m (tns ! j))"
  unfolding ordered_def by (blast dest: sorted_wrt_nth_less)

lemma ordered_kids:
  assumes v: "valid m r" and h: "h \<in> dom m"
  shows "ordered m (kids m h)"
proof -
  have "set (kids m h) \<subseteq> dom m" using tree_wfD(5) [OF validD(1) [OF v]] by (auto simp: edges_iff)
  moreover have "chained (ilo (ivl m h)) (ihi (ivl m h) - 1) (map (ivl m) (kids m h))"
    using validD(2) [OF v h] by (simp add: node_ok_def)
  ultimately show ?thesis
    using chained_nth_less [of "ilo (ivl m h)" "ihi (ivl m h) - 1" "map (ivl m) (kids m h)"]
    by (auto simp: ordered_def sorted_wrt_iff_nth_less)
qed

lemma findAncestorIndexOfNode_ok:
  assumes v: "valid (data_of rt) r" and o: "ordered (data_of rt) tns" and h: "h \<in> dom (data_of rt)"
  shows "\<exists>n \<le> length tns. findAncestorIndexOfNode rt tns h = Inr (if n = 0 then None else Some (n - 1))
     \<and> (\<forall>k < n. ilo (ivl (data_of rt) (tns ! k)) \<le> ihi (ivl (data_of rt) h))
     \<and> (\<forall>k < length tns. n \<le> k \<longrightarrow> ihi (ivl (data_of rt) h) < ilo (ivl (data_of rt) (tns ! k)))"
proof -
  let ?m = "data_of rt"
  have d: "\<And>k. k < length tns \<Longrightarrow> tns ! k \<in> dom ?m" by (rule ordered_nth [OF o])
  have iv: "\<And>k. k < length tns \<Longrightarrow> interval rt (tns ! k) = Inr (Some (ivl ?m (tns ! k)))"
    using interval_ivl [OF validD(1) [OF v]] d by blast
  have srt: "\<And>i j. i < j \<Longrightarrow> j < length tns \<Longrightarrow> ilo (ivl ?m (tns ! i)) \<le> ilo (ivl ?m (tns ! j))"
    using ordered_less [OF o] ivl_bounds(2) [OF v d] by (meson less_imp_le less_trans order_trans)
  obtain n where n: "n \<le> length tns"
    "searchAncestorIndex rt tns (End (ivl ?m h)) 0 (length tns) = Inr n"
    "\<forall>k < n. ilo (ivl ?m (tns ! k)) \<le> ihi (ivl ?m h)"
    "\<forall>k < length tns. n \<le> k \<longrightarrow> ihi (ivl ?m h) < ilo (ivl ?m (tns ! k))"
    using searchAncestorIndex_ok [OF iv srt, where low = 0 and high = "length tns" and e = "End (ivl ?m h)"] by auto
  have "findAncestorIndexOfNode rt tns h = Inr (if n = 0 then None else Some (n - 1))"
    using n(2) by (simp add: findAncestorIndexOfNode_def interval_ivl [OF validD(1) [OF v] h])
  then show ?thesis using n by blast
qed

text \<open>If some block of the list is an ancestor of \<open>h\<close>, the search finds it.\<close>

lemma findAncestorIndexOfNode_ancestor:
  assumes v: "valid (data_of rt) r" and o: "ordered (data_of rt) tns" and h: "h \<in> dom (data_of rt)"
    and i: "i < length tns" "anc (data_of rt) (tns ! i) h"
  shows "findAncestorIndexOfNode rt tns h = Inr (Some i)"
proof -
  let ?m = "data_of rt"
  obtain n where n: "n \<le> length tns"
    "findAncestorIndexOfNode rt tns h = Inr (if n = 0 then None else Some (n - 1))"
    "\<forall>k < n. ilo (ivl ?m (tns ! k)) \<le> ihi (ivl ?m h)"
    "\<forall>k < length tns. n \<le> k \<longrightarrow> ihi (ivl ?m h) < ilo (ivl ?m (tns ! k))"
    using findAncestorIndexOfNode_ok [OF v o h] by blast
  have d: "\<And>k. k < length tns \<Longrightarrow> tns ! k \<in> dom ?m" by (rule ordered_nth [OF o])
  have c: "ilo (ivl ?m (tns ! i)) \<le> ilo (ivl ?m h)" "ihi (ivl ?m h) \<le> ihi (ivl ?m (tns ! i))"
    using anc_contains [OF v i(2) d [OF i(1)]] by auto
  have "i < n" using n(4) i(1) c ivl_bounds(2) [OF v h] by fastforce
  moreover have "n \<le> Suc i"
  proof (rule ccontr)
    assume "\<not> n \<le> Suc i"
    then have "ihi (ivl ?m (tns ! i)) < ilo (ivl ?m (tns ! Suc i))" "ilo (ivl ?m (tns ! Suc i)) \<le> ihi (ivl ?m h)"
      using ordered_less [OF o, of i "Suc i"] n(1,3) by auto
    then show False using c by simp
  qed
  ultimately have "n = Suc i" by simp
  then show ?thesis using n(2) by simp
qed

lemma FindNextAncestor_ok:
  assumes v: "valid (data_of rt) r" and a: "a \<in> dom (data_of rt)"
    and d: "anc (data_of rt) a d" "a \<noteq> d"
  shows "\<exists>c. FindNextAncestor rt d a = Inr c \<and> (a, c) \<in> edges (data_of rt) \<and> anc (data_of rt) c d"
proof -
  let ?m = "data_of rt"
  obtain c where c: "(a, c) \<in> edges ?m" "anc ?m c d"
    using d unfolding anc_def by (meson converse_rtranclE)
  then obtain i where i: "i < length (kids ?m a)" "kids ?m a ! i = c"
    by (auto simp: edges_iff in_set_conv_nth)
  have "d \<in> dom ?m" using anc_dom [OF validD(1) [OF v] d(1) a] .
  then have "findAncestorIndexOfNode rt (kids ?m a) d = Inr (Some i)"
    using findAncestorIndexOfNode_ancestor [OF v ordered_kids [OF v a]] i c by simp
  then have "FindNextAncestor rt d a = Inr c"
    using i by (simp add: FindNextAncestor_def findAncestorOfNode_def children_kids [OF a])
  then show ?thesis using c by blast
qed

lemma futureCoveringSetHasAncestorOf_ok:
  assumes v: "valid (data_of rt) r" and a: "a \<in> dom (data_of rt)" and b: "b \<in> dom (data_of rt)"
    and o: "ordered (data_of rt) (fcs_of (data_of rt) a)"
  shows "futureCoveringSetHasAncestorOf rt a b = Inr (\<exists>c \<in> set (fcs_of (data_of rt) a). anc (data_of rt) c b)"
proof -
  let ?m = "data_of rt" and ?f = "fcs_of (data_of rt) a"
  have f: "futureCoveringSet rt a = Inr ?f" using a by (auto simp: fetch_Some)
  show ?thesis
  proof (cases "\<exists>c \<in> set ?f. anc ?m c b")
    case True
    then obtain i where i: "i < length ?f" "anc ?m (?f ! i) b" by (auto simp: in_set_conv_nth)
    then have "?f ! i \<in> dom ?m" using ordered_nth [OF o] by blast
    then show ?thesis
      using findAncestorIndexOfNode_ancestor [OF v o b i] IsReachabilityTreeAncestorOf_anc [OF v _ b] i True f
      by (simp add: futureCoveringSetHasAncestorOf_def)
  next
    case False
    obtain n where n: "n \<le> length ?f"
      "findAncestorIndexOfNode rt ?f b = Inr (if n = 0 then None else Some (n - 1))"
      using findAncestorIndexOfNode_ok [OF v o b] by blast
    show ?thesis
    proof (cases "n = 0")
      case True
      then show ?thesis using n f False by (simp add: futureCoveringSetHasAncestorOf_def)
    next
      case n0: False
      then have "?f ! (n - 1) \<in> set ?f" using n(1) by (intro nth_mem) simp
      then have "IsReachabilityTreeAncestorOf rt (?f ! (n - 1)) b = Inr False"
        using IsReachabilityTreeAncestorOf_anc [OF v ordered_mem [OF o] b] False by auto
      then show ?thesis using n n0 f False by (simp add: futureCoveringSetHasAncestorOf_def)
    qed
  qed
qed

lemma IsDAGAncestorOf_ok:
  assumes v: "valid (data_of rt) r" and a: "a \<in> dom (data_of rt)" and b: "b \<in> dom (data_of rt)"
    and o: "ordered (data_of rt) (fcs_of (data_of rt) a)"
  shows "IsDAGAncestorOf rt a b
     = Inr (anc (data_of rt) a b \<or> (\<exists>c \<in> set (fcs_of (data_of rt) a). anc (data_of rt) c b))"
  using IsReachabilityTreeAncestorOf_anc [OF v a b] futureCoveringSetHasAncestorOf_ok [OF assms]
  by (simp add: IsDAGAncestorOf_def)

section \<open>Insertion into a future covering set\<close>

definition upd_fcs :: "tree \<Rightarrow> DomainHash \<Rightarrow> DomainHash list \<Rightarrow> tree" where
  "upd_fcs m a s = m(a \<mapsto> rd_SetFutureCoveringSet s (the (m a)))"

lemma upd_fcs_simps [simp]:
  assumes "a \<in> dom m"
  shows "dom (upd_fcs m a s) = dom m" "kids (upd_fcs m a s) = kids m" "par (upd_fcs m a s) = par m"
    "ivl (upd_fcs m a s) = ivl m" "edges (upd_fcs m a s) = edges m" "anc (upd_fcs m a s) = anc m"
    "fcs_of (upd_fcs m a s) = (fcs_of m)(a := s)"
proof -
  show "dom (upd_fcs m a s) = dom m" using assms by (auto simp: upd_fcs_def)
  show k: "kids (upd_fcs m a s) = kids m" using assms by (auto simp: upd_fcs_def kids_def fun_eq_iff)
  show "par (upd_fcs m a s) = par m" using assms by (auto simp: upd_fcs_def par_def fun_eq_iff)
  show "ivl (upd_fcs m a s) = ivl m" using assms by (auto simp: upd_fcs_def ivl_def fun_eq_iff)
  show e: "edges (upd_fcs m a s) = edges m" by (simp add: edges_def k)
  show "anc (upd_fcs m a s) = anc m" by (simp add: anc_def e fun_eq_iff)
  show "fcs_of (upd_fcs m a s) = (fcs_of m)(a := s)" by (auto simp: upd_fcs_def fcs_of_def fun_eq_iff)
qed

lemma upd_fcs_valid:
  assumes v: "valid m r" and a: "a \<in> dom m"
  shows "valid (upd_fcs m a s) r"
proof -
  have "\<forall>h \<in> dom m. rd_interval (the (upd_fcs m a s h)) = rd_interval (the (m h))"
    using a by (auto simp: upd_fcs_def)
  then show ?thesis
    using v a by (simp add: valid_def tree_wf_def node_ok_def)
qed

lemma upd_fcs_ordered [simp]: "a \<in> dom m \<Longrightarrow> ordered (upd_fcs m a s) = ordered m"
  by (simp add: ordered_def fun_eq_iff)

lemma ordered_insert:
  assumes "ordered m (xs @ ys)" "f \<in> dom m"
    and "\<And>x. x \<in> set xs \<Longrightarrow> ihi (ivl m x) < ilo (ivl m f)"
    and "\<And>y. y \<in> set ys \<Longrightarrow> ihi (ivl m f) < ilo (ivl m y)"
  shows "ordered m (xs @ f # ys)"
  using assms by (auto simp: ordered_def sorted_wrt_append)

lemma leaf_anc: "kids m f = [] \<Longrightarrow> anc m f b \<longleftrightarrow> b = f"
  unfolding anc_def by (metis converse_rtranclE edges_iff empty_iff list.set(1) rtrancl.rtrancl_refl)

lemma insertToFutureCoveringSet_ok:
  assumes v: "valid (data_of rt) r" and a: "a \<in> dom (data_of rt)" and f: "f \<in> dom (data_of rt)"
    and leaf: "kids (data_of rt) f = []" and o: "ordered (data_of rt) (fcs_of (data_of rt) a)"
  shows "\<exists>rt' s. insertToFutureCoveringSet rt a f = Inr rt' \<and> data_of rt' = upd_fcs (data_of rt) a s
     \<and> rm_ghostdag rt' = rm_ghostdag rt \<and> rm_reindexRoot rt' = rm_reindexRoot rt \<and> reindexSlack rt' = reindexSlack rt
     \<and> ordered (data_of rt) s \<and> set s \<subseteq> insert f (set (fcs_of (data_of rt) a))
     \<and> (\<forall>b. (\<exists>c \<in> set s. anc (data_of rt) c b) \<longleftrightarrow> (\<exists>c \<in> set (fcs_of (data_of rt) a). anc (data_of rt) c b) \<or> b = f)"
proof -
  let ?m = "data_of rt" and ?f = "fcs_of (data_of rt) a"
  obtain d where d: "?m a = Some d" "rd_interval d = Some (ivl ?m a)"
    using ivl_Some [OF validD(1) [OF v] a] by blast
  have fd: "rd_futureCoveringSet d = ?f" using d by simp
  have fi: "reachabilityDataForInsertion rt a = Inr d" using forInsertion_Some [OF d] .
  have st: "data_of (stageData rt a (rd_SetFutureCoveringSet s d)) = upd_fcs ?m a s" for s
    using d by (simp add: upd_fcs_def)
  obtain n where n: "n \<le> length ?f"
    "findAncestorIndexOfNode rt ?f f = Inr (if n = 0 then None else Some (n - 1))"
    "\<forall>k < n. ilo (ivl ?m (?f ! k)) \<le> ihi (ivl ?m f)"
    "\<forall>k < length ?f. n \<le> k \<longrightarrow> ihi (ivl ?m f) < ilo (ivl ?m (?f ! k))"
    using findAncestorIndexOfNode_ok [OF v o f] by blast
  have right: "\<And>y. y \<in> set (drop n ?f) \<Longrightarrow> ihi (ivl ?m f) < ilo (ivl ?m y)"
    using n(4) by (auto simp: in_set_conv_nth)
  show ?thesis
  proof (cases "n = 0")
    case True
    have "ordered ?m (f # ?f)" using ordered_insert [of ?m "[]" ?f f] o f right True by simp
    moreover have "insertToFutureCoveringSet rt a f = Inr (stageData rt a (rd_SetFutureCoveringSet (f # ?f) d))"
      using True n fi fd by (simp add: insertToFutureCoveringSet_def Let_def)
    moreover have "\<forall>b. (\<exists>c \<in> set (f # ?f). anc ?m c b) \<longleftrightarrow> (\<exists>c \<in> set ?f. anc ?m c b) \<or> b = f"
      using leaf_anc [OF leaf] by auto
    ultimately show ?thesis using st by fastforce
  next
    case False
    let ?c = "?f ! (n - 1)"
    have c: "?c \<in> set ?f" using False n(1) by (intro nth_mem) simp
    have cd: "?c \<in> dom ?m" using ordered_mem [OF o c] .
    show ?thesis
    proof (cases "anc ?m ?c f")
      case True
      have "insertToFutureCoveringSet rt a f = Inr rt"
        using True False n fi fd IsReachabilityTreeAncestorOf_anc [OF v cd f]
        by (simp add: insertToFutureCoveringSet_def Let_def)
      moreover have "upd_fcs ?m a ?f = ?m"
        using d fd by (auto simp: upd_fcs_def rd_SetFutureCoveringSet_def fun_eq_iff)
      moreover have "\<forall>b. (\<exists>c \<in> set ?f. anc ?m c b) \<longleftrightarrow> (\<exists>c \<in> set ?f. anc ?m c b) \<or> b = f"
        using True c by blast
      ultimately show ?thesis
        using o by (intro exI [of _ rt] exI [of _ ?f] conjI) (auto simp del: upd_fcs_simps)
    next
      case nc: False
      have nf: "\<not> anc ?m f ?c" using nc leaf_anc [OF leaf] by auto
      have "ihi (ivl ?m ?c) < ilo (ivl ?m f)"
        using unrelated_disjoint [OF v cd f nc nf] n(3) [rule_format, of "n - 1"] False by simp
      then have left: "ihi (ivl ?m x) < ilo (ivl ?m f)" if x: "x \<in> set (take n ?f)" for x
      proof -
        obtain k where k: "k < n" "x = ?f ! k" using x by (auto simp: in_set_conv_nth)
        show ?thesis
        proof (cases "k = n - 1")
          case False
          then have "ihi (ivl ?m x) < ilo (ivl ?m ?c)"
            using ordered_less [OF o, of k "n - 1"] k n(1) by simp
          then show ?thesis
            using \<open>ihi (ivl ?m ?c) < ilo (ivl ?m f)\<close> ivl_bounds(2) [OF v cd] by linarith
        qed (use k \<open>ihi (ivl ?m ?c) < ilo (ivl ?m f)\<close> in simp)
      qed
      let ?s = "take n ?f @ f # drop n ?f"
      have "ordered ?m ?s"
        using ordered_insert [of ?m "take n ?f" "drop n ?f" f] o f left right by simp
      moreover have "insertToFutureCoveringSet rt a f = Inr (stageData rt a (rd_SetFutureCoveringSet ?s d))"
        using nc nf False n fi fd IsReachabilityTreeAncestorOf_anc [OF v cd f]
          IsReachabilityTreeAncestorOf_anc [OF v f cd]
        by (simp add: insertToFutureCoveringSet_def Let_def)
      moreover have "set ?s = insert f (set ?f)"
        by (metis append_take_drop_id list.simps(15) set_append Un_insert_right)
      ultimately show ?thesis
        using st leaf_anc [OF leaf]
        by (intro exI [of _ "stageData rt a (rd_SetFutureCoveringSet ?s d)"] exI [of _ ?s]) auto
    qed
  qed
qed

end
