(* ===== verification/Reachability_Subtrees.thy ===== *)
theory Reachability_Subtrees
  imports Reachability_Validity
begin

text \<open>
  Subtrees of the reachability tree and their sizes.  \<^verbatim>\<open>countSubtrees\<close> of
  \<^verbatim>\<open>reindex_context.go\<close> ends with the number of blocks of every subtree it was asked for, and the
  staging of new intervals changes nothing else (\<open>relab\<close>).
\<close>

section \<open>Subtrees\<close>

lemma acyclic_tree:
  assumes w: "tree_wf m r" and h: "h \<in> dom m"
  shows "(h, h) \<notin> (edges m)\<^sup>+"
proof -
  have "(r, h) \<in> (edges m)\<^sup>*" using tree_wfD(7) [OF w h] by (simp add: anc_def)
  then show ?thesis
  proof (induction rule: rtrancl_induct)
    case base
    then show ?case
      using tree_wfD(3,6) [OF w] by (metis option.distinct(1) tranclE)
  next
    case (step x y)
    show ?case
    proof
      assume "(y, y) \<in> (edges m)\<^sup>+"
      then obtain z where z: "(y, z) \<in> (edges m)\<^sup>*" "(z, y) \<in> edges m"
        by (meson tranclD2)
      then have "z = x" using step.hyps(2) tree_wfD(6) [OF w] by (metis option.inject)
      then have "(x, x) \<in> (edges m)\<^sup>+" using z(1) step.hyps(2) by (meson rtrancl_into_trancl2)
      then show False using step.IH by simp
    qed
  qed
qed

lemma anc_chain:
  assumes w: "tree_wf m r" and "anc m a x" "anc m b x"
  shows "anc m a b \<or> anc m b a"
  using assms(2,3) unfolding anc_def
proof (induction arbitrary: b rule: rtrancl_induct)
  case (step y z)
  show ?case
  proof (cases "b = z")
    case True
    then show ?thesis using step.hyps by (meson rtrancl.rtrancl_into_rtrancl)
  next
    case False
    then obtain y' where "(b, y') \<in> (edges m)\<^sup>*" "(y', z) \<in> edges m"
      using step.prems by (meson rtranclE)
    then have "(b, y) \<in> (edges m)\<^sup>*" using step.hyps(2) tree_wfD(6) [OF w] by (metis option.inject)
    then show ?thesis using step.IH by blast
  qed
qed simp

lemma anc_antisym:
  assumes w: "tree_wf m r" and "a \<in> dom m" "anc m a b" "anc m b a"
  shows "a = b"
  using assms(3,4) acyclic_tree [OF w assms(2)] unfolding anc_def
  by (metis rtranclD trancl_rtrancl_trancl)

definition sub :: "tree \<Rightarrow> DomainHash \<Rightarrow> DomainHash set" where
  "sub m h = {x. anc m h x}"

definition siz :: "tree \<Rightarrow> DomainHash \<Rightarrow> nat" where
  "siz m h = card (sub m h)"

lemma sub_self [simp]: "h \<in> sub m h"
  by (simp add: sub_def)

lemma sub_dom: "tree_wf m r \<Longrightarrow> h \<in> dom m \<Longrightarrow> sub m h \<subseteq> dom m"
  using anc_dom [of m r h] by (metis sub_def mem_Collect_eq subsetI)

lemma finite_sub: "tree_wf m r \<Longrightarrow> h \<in> dom m \<Longrightarrow> finite (sub m h)"
  by (meson finite_subset sub_dom tree_wfD(1))

lemma sub_unfold: "sub m h = insert h (\<Union>c \<in> set (kids m h). sub m c)"
proof -
  have "anc m h x \<longleftrightarrow> x = h \<or> (\<exists>c \<in> set (kids m h). anc m c x)" for x
    unfolding anc_def edges_iff [symmetric]
    by (metis converse_rtranclE converse_rtrancl_into_rtrancl edges_iff rtrancl.rtrancl_refl)
  then show ?thesis by (auto simp: sub_def)
qed

lemma sub_not_above:
  assumes w: "tree_wf m r" and "(h, c) \<in> edges m"
  shows "h \<notin> sub m c"
  using acyclic_tree [OF w edge_dom [OF assms(2)]] assms(2)
  by (auto simp: sub_def anc_def intro: rtrancl_into_trancl2)

lemma sub_disjoint:
  assumes w: "tree_wf m r" and e: "(h, c) \<in> edges m" "(h, c') \<in> edges m" "c \<noteq> c'"
  shows "sub m c \<inter> sub m c' = {}"
proof -
  have no: False if t: "anc m a b" "a \<noteq> b" "(h, a) \<in> edges m" "(h, b) \<in> edges m" for a b
  proof -
    obtain z where "anc m a z" "(z, b) \<in> edges m"
      using t(1,2) unfolding anc_def by (meson rtranclE)
    then have "anc m a h" using t(4) tree_wfD(6) [OF w] by (metis option.inject)
    then show False using sub_not_above [OF w t(3)] by (simp add: sub_def)
  qed
  show ?thesis
  proof (rule ccontr)
    assume "sub m c \<inter> sub m c' \<noteq> {}"
    then obtain x where "anc m c x" "anc m c' x" by (auto simp: sub_def)
    then show False using anc_chain [OF w] no e by metis
  qed
qed

lemma siz_unfold:
  assumes w: "tree_wf m r" and h: "h \<in> dom m"
  shows "siz m h = Suc (\<Sum>c\<leftarrow>kids m h. siz m c)"
proof -
  have ke: "\<And>c. c \<in> set (kids m h) \<Longrightarrow> (h, c) \<in> edges m" by (simp add: edges_iff)
  have fin: "\<And>c. c \<in> set (kids m h) \<Longrightarrow> finite (sub m c)"
    using finite_sub [OF w tree_wfD(5) [OF w ke]] .
  have "card (\<Union>c \<in> set (kids m h). sub m c) = (\<Sum>c \<in> set (kids m h). siz m c)"
    unfolding siz_def using fin sub_disjoint [OF w ke ke] by (intro card_UN_disjoint) auto
  also have "\<dots> = (\<Sum>c\<leftarrow>kids m h. siz m c)"
    using tree_wfD(4) [OF w h] by (simp add: sum_list_distinct_conv_sum_set)
  finally have "card (\<Union>c \<in> set (kids m h). sub m c) = (\<Sum>c\<leftarrow>kids m h. siz m c)" .
  moreover have "h \<notin> (\<Union>c \<in> set (kids m h). sub m c)" using sub_not_above [OF w ke] by auto
  ultimately show ?thesis
    unfolding siz_def [of m h] by (subst sub_unfold) (use fin in \<open>simp add: card_insert_disjoint\<close>)
qed

lemma siz_pos: "tree_wf m r \<Longrightarrow> h \<in> dom m \<Longrightarrow> 0 < siz m h"
  by (simp add: siz_unfold)

lemma siz_le: "tree_wf m r \<Longrightarrow> h \<in> dom m \<Longrightarrow> siz m h \<le> card (dom m)"
  unfolding siz_def by (intro card_mono tree_wfD(1) sub_dom)

lemma sub_induct [consumes 2, case_names node]:
  assumes w: "tree_wf m r" and h: "h \<in> dom m"
    and step: "\<And>h. h \<in> dom m \<Longrightarrow> (\<And>c. c \<in> set (kids m h) \<Longrightarrow> P c) \<Longrightarrow> P h"
  shows "P h"
  using h
proof (induction "siz m h" arbitrary: h rule: less_induct)
  case less
  have "siz m c < siz m h" if c: "c \<in> set (kids m h)" for c
  proof -
    have "siz m c \<le> (\<Sum>c\<leftarrow>kids m h. siz m c)" using c by (simp add: member_le_sum_list)
    then show ?thesis using siz_unfold [OF w less.prems] by simp
  qed
  moreover have "\<And>c. c \<in> set (kids m h) \<Longrightarrow> c \<in> dom m"
    using tree_wfD(5) [OF w] by (simp add: edges_iff)
  ultimately show ?case using step less by blast
qed

section \<open>Counting subtrees\<close>

text \<open>A cache of correct sizes that is closed under descendants.\<close>

definition cache_ok :: "tree \<Rightarrow> (DomainHash \<times> u64) list \<Rightarrow> bool" where
  "cache_ok m S \<longleftrightarrow> (\<forall>h n. map_of S h = Some n \<longrightarrow>
     h \<in> dom m \<and> n = of_nat (siz m h) \<and> sub m h \<subseteq> dom (map_of S))"

lemma cache_okD:
  "cache_ok m S \<Longrightarrow> map_of S h = Some n \<Longrightarrow> h \<in> dom m"
  "cache_ok m S \<Longrightarrow> map_of S h = Some n \<Longrightarrow> n = of_nat (siz m h)"
  "cache_ok m S \<Longrightarrow> map_of S h = Some n \<Longrightarrow> sub m h \<subseteq> dom (map_of S)"
  unfolding cache_ok_def by blast+

lemma cache_ok_update:
  assumes c: "cache_ok m S" and p: "p \<in> dom m" "sub m p \<subseteq> insert p (dom (map_of S))"
  shows "cache_ok m (AList.update p (of_nat (siz m p)) S)"
  unfolding cache_ok_def
proof (intro allI impI)
  fix h n
  assume h: "map_of (AList.update p (of_nat (siz m p)) S) h = Some n"
  have d: "dom (map_of (AList.update p (of_nat (siz m p)) S)) = insert p (dom (map_of S))" by simp
  show "h \<in> dom m \<and> n = of_nat (siz m h) \<and> sub m h \<subseteq> dom (map_of (AList.update p (of_nat (siz m p)) S))"
  proof (cases "h = p")
    case True
    then show ?thesis using h p unfolding d by simp
  next
    case False
    then have "map_of S h = Some n" using h by simp
    then show ?thesis unfolding d using cache_okD [OF c] by (meson subset_insertI2)
  qed
qed

lemma cache_ok_count: "cache_ok m S \<Longrightarrow> h \<in> dom (map_of S) \<Longrightarrow> count_at S h = of_nat (siz m h)"
  by (auto simp: count_at_def dest: cache_okD(2))

text \<open>
  The state of the search: \<open>E\<close> are the blocks whose children were queued, \<open>P\<close> the leaves and cached
  blocks taken from the queue.  A block is \<open>finished\<close> when its size is known; the counter of a block
  of \<open>E\<close> is the number of its finished children, except those in \<open>X\<close> that are still to be counted.
\<close>

definition finished :: "DomainHash set \<Rightarrow> DomainHash set \<Rightarrow> (DomainHash \<times> u64) list \<Rightarrow> DomainHash \<Rightarrow> bool" where
  "finished E P S c \<longleftrightarrow> c \<in> P \<or> c \<in> E \<and> c \<in> dom (map_of S)"

definition ready :: "tree \<Rightarrow> DomainHash set \<Rightarrow> DomainHash set \<Rightarrow> (DomainHash \<times> u64) list
    \<Rightarrow> DomainHash set \<Rightarrow> DomainHash \<Rightarrow> DomainHash set" where
  "ready m E P S X x = {c \<in> set (kids m x). finished E P S c \<and> c \<notin> X}"

definition count_inv ::
    "tree \<Rightarrow> DomainHash \<Rightarrow> DomainHash set \<Rightarrow> DomainHash set \<Rightarrow> DomainHash set
     \<Rightarrow> (DomainHash \<times> u64) list \<Rightarrow> (DomainHash \<times> u64) list \<Rightarrow> DomainHash set \<Rightarrow> bool" where
  "count_inv m node Q E P S C X \<longleftrightarrow>
     cache_ok m S
     \<and> Q \<union> E \<union> P = insert node (\<Union>x \<in> E. set (kids m x))
     \<and> Q \<inter> E = {} \<and> Q \<inter> P = {} \<and> E \<inter> P = {}
     \<and> P \<subseteq> dom (map_of S) \<and> E \<subseteq> sub m node
     \<and> (\<forall>x \<in> E. kids m x \<noteq> []
          \<and> (x \<in> dom (map_of S) \<longleftrightarrow> ready m E P S X x = set (kids m x))
          \<and> count_at C x = of_nat (card (ready m E P S X x)))
     \<and> (\<forall>x. x \<notin> E \<longrightarrow> count_at C x = 0)"

lemma count_invD:
  assumes "count_inv m node Q E P S C X"
  shows "cache_ok m S" "Q \<union> E \<union> P = insert node (\<Union>x \<in> E. set (kids m x))"
    "Q \<inter> E = {}" "Q \<inter> P = {}" "E \<inter> P = {}" "P \<subseteq> dom (map_of S)" "E \<subseteq> sub m node"
    "\<And>x. x \<in> E \<Longrightarrow> kids m x \<noteq> []"
    "\<And>x. x \<in> E \<Longrightarrow> x \<in> dom (map_of S) \<longleftrightarrow> ready m E P S X x = set (kids m x)"
    "\<And>x. x \<in> E \<Longrightarrow> count_at C x = of_nat (card (ready m E P S X x))"
    "\<And>x. x \<notin> E \<Longrightarrow> count_at C x = 0"
  using assms unfolding count_inv_def by (elim conjE; simp)+

lemma count_at_update: "count_at (AList.update k v m) x = (if x = k then v else count_at m x)"
  by (simp add: count_at_def)

lemma siz_edge:
  assumes w: "tree_wf m r" and e: "(p, c) \<in> edges m"
  shows "siz m c < siz m p"
proof -
  have "siz m c \<le> (\<Sum>c\<leftarrow>kids m p. siz m c)" using e by (simp add: member_le_sum_list edges_iff)
  then show ?thesis using siz_unfold [OF w edge_dom [OF e]] by simp
qed

lemma siz_anc:
  assumes w: "tree_wf m r" and a: "anc m a b"
  shows "siz m b \<le> siz m a"
  using a unfolding anc_def by (induction rule: rtrancl_induct) (auto dest!: siz_edge [OF w])

lemma foldl_count:
  "(\<And>c. c \<in> set cs \<Longrightarrow> count_at S c = of_nat (f c)) \<Longrightarrow>
   foldl (\<lambda>s c. s + count_at S c) a cs = a + of_nat (\<Sum>c\<leftarrow>cs. f c)"
  by (induction cs arbitrary: a) (simp_all add: algebra_simps)

lemma count_step:
  assumes w: "tree_wf m r" and node: "node \<in> dom m" and big: "card (dom m) < 2 ^ 64"
    and I: "count_inv m node Q E P S C {cur}" and cur: "cur \<noteq> node" "finished E P S cur"
  shows "\<exists>p. par m cur = Some p \<and> p \<in> E \<and> p \<in> dom m \<and> cur \<in> set (kids m p) \<and>
    (let C' = AList.update p (count_at C p + 1) C
     in if count_at C' p \<noteq> of_nat (length (kids m p)) then count_inv m node Q E P S C' {}
        else (\<forall>c \<in> set (kids m p). count_at S c = of_nat (siz m c))
           \<and> count_inv m node Q E P (AList.update p (of_nat (siz m p)) S) C' {p}
           \<and> finished E P (AList.update p (of_nat (siz m p)) S) p)"
proof -
  note D = count_invD [OF I]
  have "cur \<in> insert node (\<Union>x \<in> E. set (kids m x))"
    using cur(2) D(2) by (auto simp: finished_def)
  then obtain p where p: "p \<in> E" "cur \<in> set (kids m p)" using cur(1) by blast
  have pe: "(p, cur) \<in> edges m" using p by (simp add: edges_iff)
  have par: "par m cur = Some p" using pe tree_wfD(6) [OF w] by simp
  have pd: "p \<in> dom m" using edge_dom [OF pe] .
  define C' where "C' = AList.update p (count_at C p + 1) C"
  have unique: "cur \<notin> set (kids m x)" if "x \<noteq> p" for x
    using that par tree_wfD(6) [OF w, of x cur] by (simp add: edges_iff)
  have other: "ready m E P S {cur} x = ready m E P S {} x" if "x \<noteq> p" for x
    using unique [OF that] by (auto simp: ready_def)
  have here: "ready m E P S {} p = insert cur (ready m E P S {cur} p)" "cur \<notin> ready m E P S {cur} p"
    using p(2) cur(2) by (auto simp: ready_def)
  have fin: "finite (ready m E P S {cur} p)" by (simp add: ready_def)
  have cnt: "count_at C p = of_nat (card (ready m E P S {cur} p))" using D(10) p(1) by blast
  have c': "count_at C' x = (if x = p then of_nat (card (ready m E P S {} p)) else count_at C x)" for x
    using cnt fin here by (simp add: C'_def count_at_update)
  have pS: "p \<notin> dom (map_of S)" using D(9) [OF p(1)] p(2) here(2) by blast
  have len: "length (kids m p) = card (set (kids m p))"
    using tree_wfD(4) [OF w pd] by (simp add: distinct_card)
  have sub_dm: "set (kids m p) \<subseteq> dom m" using tree_wfD(5) [OF w] by (auto simp: edges_iff)
  have le: "card (ready m E P S {} p) \<le> card (set (kids m p))"
    by (rule card_mono) (auto simp: ready_def)
  have "card (set (kids m p)) \<le> card (dom m)" using sub_dm tree_wfD(1) [OF w] by (rule card_mono [rotated])
  then have wd: "(of_nat (card (ready m E P S {} p)) :: u64) = of_nat (length (kids m p))
      \<longleftrightarrow> card (ready m E P S {} p) = card (set (kids m p))"
    using le big len by (simp add: word_of_nat_eq_iff take_bit_nat_eq_self)
  show ?thesis
  proof (cases "count_at C' p = of_nat (length (kids m p))")
    case False
    then have "ready m E P S {} p \<noteq> set (kids m p)" using c' [of p] wd by auto
    moreover have "ready m E P S {cur} p \<noteq> set (kids m p)" using here(2) p(2) by blast
    ultimately have "count_inv m node Q E P S C' {}"
      unfolding count_inv_def using D c' other pS p(1) by auto
    then show ?thesis using False par p pd by (auto simp: C'_def [symmetric] Let_def)
  next
    case True
    then have all: "ready m E P S {} p = set (kids m p)"
      using c' [of p] wd le by (intro card_subset_eq) (auto simp: ready_def)
    then have fk: "\<And>c. c \<in> set (kids m p) \<Longrightarrow> finished E P S c" by (auto simp: ready_def)
    then have kS: "\<And>c. c \<in> set (kids m p) \<Longrightarrow> c \<in> dom (map_of S)"
      using D(6) by (auto simp: finished_def)
    have ks: "\<forall>c \<in> set (kids m p). count_at S c = of_nat (siz m c)"
      using cache_ok_count [OF D(1)] kS by blast
    define S' where "S' = AList.update p (of_nat (siz m p)) S"
    have S': "dom (map_of S') = insert p (dom (map_of S))" by (simp add: S'_def)
    have "sub m c \<subseteq> dom (map_of S)" if "c \<in> set (kids m p)" for c
      using cache_okD(3) [OF D(1)] kS [OF that] by blast
    then have "sub m p \<subseteq> insert p (dom (map_of S))" by (subst sub_unfold) blast
    then have "cache_ok m S'" unfolding S'_def by (rule cache_ok_update [OF D(1) pd])
    moreover have f': "finished E P S' c \<longleftrightarrow> finished E P S c \<or> c = p" for c
      using p(1) by (auto simp: finished_def S')
    have "\<not> finished E P S p" using pS D(5,6) by (auto simp: finished_def)
    have pp: "p \<notin> set (kids m p)" using sub_not_above [OF w, of p p] by (auto simp: edges_iff)
    have r': "ready m E P S' {p} x = ready m E P S {} x" for x
      using f' \<open>\<not> finished E P S p\<close> by (auto simp: ready_def)
    have "x \<in> dom (map_of S') \<longleftrightarrow> ready m E P S' {p} x = set (kids m x)" if "x \<in> E" for x
      using D(9) [OF that] other [of x] all r' S' by (cases "x = p") auto
    moreover have "count_at C' x = of_nat (card (ready m E P S' {p} x))" if "x \<in> E" for x
      using D(10) [OF that] other [of x] c' [of x] r' by (cases "x = p") auto
    ultimately have "count_inv m node Q E P S' C' {p}"
      unfolding count_inv_def using D c' p(1) S' by auto
    moreover have "finished E P S' p" using f' by blast
    ultimately show ?thesis using True par p pd ks by (auto simp: C'_def [symmetric] S'_def [symmetric] Let_def)
  qed
qed

lemma visited_sub:
  assumes "count_inv m node Q E P S C X"
  shows "Q \<union> E \<union> P \<subseteq> sub m node"
proof -
  have "set (kids m x) \<subseteq> sub m node" if "x \<in> E" for x
  proof -
    have "anc m node x" using count_invD(7) [OF assms] that by (auto simp: sub_def)
    then show ?thesis
      unfolding sub_def using anc_trans anc_edge by (auto simp: edges_iff [symmetric])
  qed
  then show ?thesis unfolding count_invD(2) [OF assms] by auto
qed

lemma pushSizesUp_ok:
  assumes w: "tree_wf (data_of rt) r" and node: "node \<in> dom (data_of rt)" and big: "card (dom (data_of rt)) < 2 ^ 64"
  shows "count_inv (data_of rt) node Q E P S C {cur} \<Longrightarrow> finished E P S cur \<Longrightarrow>
     siz (data_of rt) node - siz (data_of rt) cur < fuel \<Longrightarrow>
     \<exists>S' C'. pushSizesUp fuel rt node cur (S, C) = Inr (S', C') \<and> count_inv (data_of rt) node Q E P S' C' {}"
proof (induction fuel arbitrary: cur S C)
  case (Suc fuel)
  let ?m = "data_of rt"
  show ?case
  proof (cases "cur = node")
    case True
    have "ready ?m E P S {node} x = ready ?m E P S {} x" if "x \<in> E" for x
    proof -
      have "node \<notin> set (kids ?m x)"
        using sub_not_above [OF w, of x node] count_invD(7) [OF Suc.prems(1)] that by (auto simp: edges_iff)
      then show ?thesis by (auto simp: ready_def)
    qed
    then have "count_inv ?m node Q E P S C {}"
      using Suc.prems(1) True unfolding count_inv_def by simp
    then show ?thesis using True by auto
  next
    case False
    obtain p where p: "par ?m cur = Some p" "p \<in> E" "p \<in> dom ?m" "cur \<in> set (kids ?m p)" and
      step: "let C' = AList.update p (count_at C p + 1) C
       in if count_at C' p \<noteq> of_nat (length (kids ?m p)) then count_inv ?m node Q E P S C' {}
          else (\<forall>c \<in> set (kids ?m p). count_at S c = of_nat (siz ?m c))
             \<and> count_inv ?m node Q E P (AList.update p (of_nat (siz ?m p)) S) C' {p}
             \<and> finished E P (AList.update p (of_nat (siz ?m p)) S) p"
      using count_step [OF w node big Suc.prems(1) False Suc.prems(2)] by blast
    define C' where "C' = AList.update p (count_at C p + 1) C"
    have pe: "(p, cur) \<in> edges ?m" using p(4) by (simp add: edges_iff)
    have "cur \<in> dom ?m" using tree_wfD(5) [OF w pe] .
    then have eq: "pushSizesUp (Suc fuel) rt node cur (S, C) =
       (if count_at C' p \<noteq> of_nat (length (kids ?m p)) then Inr (S, C')
        else pushSizesUp fuel rt node p
          (AList.update p (foldl (\<lambda>s child. s + count_at S child) 0 (kids ?m p) + 1) S, C'))"
      using False p by (simp add: parent_par children_kids C'_def Let_def)
    show ?thesis
    proof (cases "count_at C' p = of_nat (length (kids ?m p))")
      case True
      then have st: "\<forall>c \<in> set (kids ?m p). count_at S c = of_nat (siz ?m c)"
        "count_inv ?m node Q E P (AList.update p (of_nat (siz ?m p)) S) C' {p}"
        "finished E P (AList.update p (of_nat (siz ?m p)) S) p"
        using step by (simp_all add: C'_def [symmetric] Let_def)
      have "foldl (\<lambda>s child. s + count_at S child) 0 (kids ?m p) + 1 = of_nat (siz ?m p)"
        using foldl_count [of "kids ?m p" S "siz ?m" 0] st(1) siz_unfold [OF w p(3)] by simp
      moreover have "siz ?m node - siz ?m p < fuel"
        using Suc.prems(3) siz_edge [OF w pe] siz_anc [OF w, of node p] count_invD(7) [OF Suc.prems(1)] p(2)
        by (auto simp: sub_def)
      ultimately show ?thesis using Suc.IH [OF st(2,3)] eq True by simp
    next
      case F: False
      then have "count_inv ?m node Q E P S C' {}" using step by (simp add: C'_def [symmetric] Let_def)
      then show ?thesis using eq F by simp
    qed
  qed
qed simp

lemma count_inv_pop:
  assumes w: "tree_wf m r" and I: "count_inv m node (insert cur Q) E P S C {}" and cur: "cur \<notin> Q"
    and S': "cache_ok m S'" "dom (map_of S') = insert cur (dom (map_of S))"
  shows "count_inv m node Q E (insert cur P) S' C {cur}" "finished E (insert cur P) S' cur"
proof -
  note D = count_invD [OF I]
  have cE: "cur \<notin> E" "cur \<notin> P" using D(3,4) by auto
  have f: "finished E (insert cur P) S' c \<longleftrightarrow> finished E P S c \<or> c = cur" for c
    using cE S' by (auto simp: finished_def)
  have nf: "\<not> finished E P S cur" using cE by (auto simp: finished_def)
  have r: "ready m E (insert cur P) S' {cur} x = ready m E P S {} x" for x
    using f nf by (auto simp: ready_def)
  have dS: "x \<in> dom (map_of S') \<longleftrightarrow> x \<in> dom (map_of S)" if "x \<in> E" for x
    using that cE S' by auto
  show "count_inv m node Q E (insert cur P) S' C {cur}"
    unfolding count_inv_def
  proof (intro conjI)
    show "cache_ok m S'" "E \<subseteq> sub m node" by (fact S'(1), fact D(7))
    show "Q \<union> E \<union> insert cur P = insert node (\<Union>x \<in> E. set (kids m x))" using D(2) by blast
    show "Q \<inter> E = {}" "Q \<inter> insert cur P = {}" "E \<inter> insert cur P = {}"
      using D(3,4,5) cur cE by auto
    show "insert cur P \<subseteq> dom (map_of S')" using D(6) unfolding S'(2) by blast
    show "\<forall>x \<in> E. kids m x \<noteq> [] \<and> (x \<in> dom (map_of S')) = (ready m E (insert cur P) S' {cur} x = set (kids m x))
        \<and> count_at C x = of_nat (card (ready m E (insert cur P) S' {cur} x))"
      unfolding r using D(8,9,10) dS by blast
    show "\<forall>x. x \<notin> E \<longrightarrow> count_at C x = 0" using D(11) by blast
  qed
  show "finished E (insert cur P) S' cur" using f by blast
qed

lemma count_inv_expand:
  assumes w: "tree_wf m r" and I: "count_inv m node (insert cur Q) E P S C {}" and cur: "cur \<notin> Q"
    and k: "kids m cur \<noteq> []" "cur \<notin> dom (map_of S)"
  shows "count_inv m node (Q \<union> set (kids m cur)) (insert cur E) P S C {}"
    "Q \<inter> set (kids m cur) = {}"
proof -
  note D = count_invD [OF I]
  have cE: "cur \<notin> E" "cur \<notin> P" using D(3,4) by auto
  have cs: "cur \<in> sub m node" using visited_sub [OF I] by blast
  have new: "c \<notin> insert cur Q \<union> E \<union> P" if "c \<in> set (kids m cur)" for c
  proof -
    have e: "(cur, c) \<in> edges m" using that by (simp add: edges_iff)
    have "c \<noteq> node" using sub_not_above [OF w e] cs by auto
    moreover have "c \<notin> set (kids m x)" if "x \<in> E" for x
    proof
      assume "c \<in> set (kids m x)"
      then have "x = cur" using e tree_wfD(6) [OF w] by (metis edges_iff option.inject)
      then show False using that cE by simp
    qed
    ultimately show ?thesis unfolding D(2) by blast
  qed
  then show "Q \<inter> set (kids m cur) = {}" by blast
  have f: "finished (insert cur E) P S c \<longleftrightarrow> finished E P S c" for c
    using k(2) by (auto simp: finished_def)
  have r: "ready m (insert cur E) P S {} x = ready m E P S {} x" for x
    by (simp add: ready_def f)
  have nc: "ready m E P S {} cur = {}" using new by (auto simp: ready_def finished_def)
  show "count_inv m node (Q \<union> set (kids m cur)) (insert cur E) P S C {}"
    unfolding count_inv_def
  proof (intro conjI)
    show "cache_ok m S" "P \<subseteq> dom (map_of S)" by (rule D)+
    show "Q \<union> set (kids m cur) \<union> insert cur E \<union> P = insert node (\<Union>x \<in> insert cur E. set (kids m x))"
      using D(2) by blast
    show "(Q \<union> set (kids m cur)) \<inter> insert cur E = {}" "(Q \<union> set (kids m cur)) \<inter> P = {}" "insert cur E \<inter> P = {}"
      using D(3,4,5) new cur cE by auto
    show "insert cur E \<subseteq> sub m node" using D(7) cs by blast
    show "\<forall>x \<in> insert cur E. kids m x \<noteq> [] \<and> (x \<in> dom (map_of S)) = (ready m (insert cur E) P S {} x = set (kids m x))
        \<and> count_at C x = of_nat (card (ready m (insert cur E) P S {} x))"
      unfolding r using D(8,9,10) D(11) [OF cE(1)] k nc by auto
    show "\<forall>x. x \<notin> insert cur E \<longrightarrow> count_at C x = 0" using D(11) by blast
  qed
qed

lemma card_dom_fuel: "card (dom (data_of rt)) < tree_fuel rt"
proof -
  have "card (dom (data_of rt)) = card (fst ` set (rm_data rt))"
    by (simp add: data_of_def dom_map_of_conv_image_fst)
  also have "\<dots> \<le> length (rm_data rt)"
    by (metis card_length length_map list.set_map)
  finally show ?thesis by (simp add: tree_fuel_def)
qed

lemma countSubtrees_loop_ok:
  assumes w: "tree_wf (data_of rt) r" and node: "node \<in> dom (data_of rt)" and big: "card (dom (data_of rt)) < 2 ^ 64"
  shows "count_inv (data_of rt) node (set q) E P S C {} \<Longrightarrow> distinct q \<Longrightarrow>
     siz (data_of rt) node - card (E \<union> P) < fuel \<Longrightarrow>
     \<exists>S' C' E' P'. countSubtrees_loop fuel rt node q (S, C) = Inr (S', C')
        \<and> count_inv (data_of rt) node {} E' P' S' C' {}"
proof (induction fuel arbitrary: q E P S C)
  case (Suc fuel)
  let ?m = "data_of rt"
  show ?case
  proof (cases q)
    case Nil
    then show ?thesis using Suc.prems(1) by auto
  next
    case (Cons cur q')
    have I: "count_inv ?m node (insert cur (set q')) E P S C {}" and cq: "cur \<notin> set q'" "distinct q'"
      using Suc.prems Cons by auto
    note D = count_invD [OF I]
    have cs: "cur \<in> sub ?m node" and vs: "E \<union> P \<subseteq> sub ?m node" using visited_sub [OF I] by auto
    have cd: "cur \<in> dom ?m" using cs sub_dom [OF w node] by blast
    have fs: "finite (sub ?m node)" by (rule finite_sub [OF w node])
    have new: "cur \<notin> E \<union> P" using D(3,4) by auto
    have "card (insert cur (E \<union> P)) = Suc (card (E \<union> P))"
      using new fs vs by (meson card_insert_disjoint finite_subset)
    moreover have "card (insert cur (E \<union> P)) \<le> siz ?m node"
      unfolding siz_def using cs vs fs by (intro card_mono) auto
    ultimately have fuel: "siz ?m node - card (insert cur (E \<union> P)) < fuel" using Suc.prems(3) by simp
    have fuel': "siz ?m node - siz ?m cur < tree_fuel rt"
      using siz_le [OF w node] card_dom_fuel [of rt] by linarith
    show ?thesis
    proof (cases "kids ?m cur = [] \<or> cur \<in> dom (map_of S)")
      case True
      define S1 where "S1 = (if kids ?m cur = [] then AList.update cur 1 S else S)"
      have dS1: "dom (map_of S1) = insert cur (dom (map_of S))" using True by (auto simp: S1_def)
      have cS1: "cache_ok ?m S1"
      proof (cases "kids ?m cur = []")
        case True
        then have "siz ?m cur = 1" "sub ?m cur = {cur}"
          using siz_unfold [OF w cd] sub_unfold [of ?m cur] by auto
        then show ?thesis using cache_ok_update [OF D(1) cd] True by (simp add: S1_def)
      next
        case False
        then show ?thesis using D(1) by (simp add: S1_def)
      qed
      obtain S2 C2 where s2: "pushSizesUp (tree_fuel rt) rt node cur (S1, C) = Inr (S2, C2)"
        "count_inv ?m node (set q') E (insert cur P) S2 C2 {}"
        using pushSizesUp_ok [OF w node big count_inv_pop [OF w I cq(1) cS1 dS1] fuel'] by blast
      have "countSubtrees_loop (Suc fuel) rt node q (S, C) = countSubtrees_loop fuel rt node q' (S2, C2)"
        using s2(1) True Cons by (auto simp: children_kids [OF cd] S1_def split: if_splits)
      moreover have "siz ?m node - card (E \<union> insert cur P) < fuel" using fuel by simp
      ultimately show ?thesis using Suc.IH [OF s2(2) cq(2)] by simp
    next
      case False
      then have k: "kids ?m cur \<noteq> []" "cur \<notin> dom (map_of S)" by auto
      have "countSubtrees_loop (Suc fuel) rt node q (S, C) = countSubtrees_loop fuel rt node (q' @ kids ?m cur) (S, C)"
        using k Cons by (auto simp: children_kids [OF cd])
      moreover have "distinct (q' @ kids ?m cur)"
        using count_inv_expand(2) [OF w I cq(1) k] cq tree_wfD(4) [OF w cd] by simp
      moreover have "siz ?m node - card (insert cur E \<union> P) < fuel" using fuel by simp
      moreover have "count_inv ?m node (set (q' @ kids ?m cur)) (insert cur E) P S C {}"
        using count_inv_expand(1) [OF w I cq(1) k] by simp
      ultimately show ?thesis using Suc.IH [of "q' @ kids ?m cur" "insert cur E" P S C] by simp
    qed
  qed
qed simp

text \<open>When the queue is empty every block that was reached is finished.\<close>

lemma count_inv_done:
  assumes w: "tree_wf m r" and I: "count_inv m node {} E P S C {}" and node: "node \<in> dom m"
  shows "node \<in> dom (map_of S)"
proof -
  note D = count_invD [OF I]
  have "x \<in> E \<union> P \<Longrightarrow> x \<in> dom (map_of S)" if "x \<in> dom m" for x
    using w that
  proof (induction rule: sub_induct)
    case (node x)
    show ?case
    proof (cases "x \<in> P")
      case True
      then show ?thesis using D(6) by blast
    next
      case False
      then have xE: "x \<in> E" using node.prems by blast
      have "finished E P S c" if "c \<in> set (kids m x)" for c
      proof -
        have "c \<in> E \<union> P" using D(2) xE that by blast
        then show ?thesis using node.IH [OF that] by (auto simp: finished_def)
      qed
      then have "ready m E P S {} x = set (kids m x)" by (auto simp: ready_def)
      then show ?thesis using D(9) [OF xE] by blast
    qed
  qed
  moreover have "node \<in> E \<union> P" using D(2) by blast
  ultimately show ?thesis using node by blast
qed

lemma countSubtrees_ok:
  assumes w: "tree_wf (data_of (manager rc)) r" and node: "node \<in> dom (data_of (manager rc))"
    and big: "card (dom (data_of (manager rc))) < 2 ^ 64"
    and c: "cache_ok (data_of (manager rc)) (subTreeSizesCache rc)"
  shows "\<exists>S. countSubtrees rc node = Inr (rc\<lparr>subTreeSizesCache := S\<rparr>)
     \<and> cache_ok (data_of (manager rc)) S \<and> node \<in> dom (map_of S)"
proof (cases "node \<in> dom (map_of (subTreeSizesCache rc))")
  case True
  then show ?thesis using c by (intro exI [of _ "subTreeSizesCache rc"]) (auto simp: countSubtrees_def)
next
  case False
  let ?m = "data_of (manager rc)"
  have "count_inv ?m node (set [node]) {} {} (subTreeSizesCache rc) [] {}"
    using c by (simp add: count_inv_def count_at_def)
  moreover have "siz ?m node - card ({} \<union> {} :: DomainHash set) < rc_fuel rc"
    using siz_le [OF w node] card_dom_fuel [of "manager rc"] by (simp add: rc_fuel_def)
  ultimately obtain S C E P where l:
    "countSubtrees_loop (rc_fuel rc) (manager rc) node [node] (subTreeSizesCache rc, []) = Inr (S, C)"
    "count_inv ?m node {} E P S C {}"
    using countSubtrees_loop_ok [OF w node big, of "[node]" "{}" "{}" "subTreeSizesCache rc" "[]" "rc_fuel rc"] by auto
  have "countSubtrees rc node = Inr (rc\<lparr>subTreeSizesCache := S\<rparr>)"
    using l(1) False by (auto simp: countSubtrees_def)
  then show ?thesis using count_invD(1) [OF l(2)] count_inv_done [OF w l(2) node] by blast
qed

section \<open>Relabelling\<close>

text \<open>\<open>relab m m' A\<close>: \<open>m'\<close> is \<open>m\<close> with other intervals for the blocks of \<open>A\<close>.\<close>

definition relab :: "tree \<Rightarrow> tree \<Rightarrow> DomainHash set \<Rightarrow> bool" where
  "relab m m' A \<longleftrightarrow> same_shape m m' \<and> (\<forall>h \<in> dom m'. rd_interval (the (m' h)) \<noteq> None)
     \<and> (\<forall>h. h \<notin> A \<longrightarrow> ivl m' h = ivl m h)"

definition frame :: "reachabilityManager \<Rightarrow> reachabilityManager \<Rightarrow> bool" where
  "frame rt rt' \<longleftrightarrow> rm_reindexRoot rt' = rm_reindexRoot rt \<and> rm_ghostdag rt' = rm_ghostdag rt
     \<and> reindexSlack rt' = reindexSlack rt \<and> reindexWindow rt' = reindexWindow rt \<and> rm_conv rt' = rm_conv rt"

lemma frame_refl [simp]: "frame rt rt"
  by (simp add: frame_def)

lemma frame_trans: "frame a b \<Longrightarrow> frame b c \<Longrightarrow> frame a c"
  by (simp add: frame_def)

lemma frame_stageData [simp]: "frame rt (stageData rt h d)"
  by (simp add: frame_def)

lemma same_shape_refl [simp]: "same_shape m m"
  by (simp add: same_shape_def)

lemma same_shape_trans: "same_shape a b \<Longrightarrow> same_shape b c \<Longrightarrow> same_shape a c"
  by (simp add: same_shape_def)

lemma same_shapeD:
  assumes "same_shape m m'"
  shows "dom m' = dom m" "kids m' = kids m" "par m' = par m" "fcs_of m' = fcs_of m"
    "edges m' = edges m" "anc m' = anc m" "sub m' = sub m" "siz m' = siz m" "cache_ok m' = cache_ok m"
proof -
  show 1: "dom m' = dom m" "kids m' = kids m" "par m' = par m" "fcs_of m' = fcs_of m"
    using assms by (auto simp: same_shape_def)
  show 2: "edges m' = edges m" "anc m' = anc m"
    using same_shape_edges [OF assms] same_shape_anc [OF assms] by simp_all
  show 3: "sub m' = sub m" by (simp add: sub_def fun_eq_iff 2)
  show 4: "siz m' = siz m" by (simp add: siz_def fun_eq_iff 3)
  show "cache_ok m' = cache_ok m" by (simp add: cache_ok_def fun_eq_iff 1 3 4)
qed

lemma relabD:
  assumes "relab m m' A"
  shows "same_shape m m'" "\<And>h. h \<notin> A \<Longrightarrow> ivl m' h = ivl m h"
  using assms by (auto simp: relab_def)

lemma relab_refl: "tree_wf m r \<Longrightarrow> relab m m A"
  by (simp add: relab_def tree_wf_def)

lemma relab_mono: "relab m m' A \<Longrightarrow> A \<subseteq> B \<Longrightarrow> relab m m' B"
  unfolding relab_def by blast

lemma relab_trans: "relab m m' A \<Longrightarrow> relab m' m'' B \<Longrightarrow> relab m m'' (A \<union> B)"
  unfolding relab_def by (auto intro: same_shape_trans)

lemma relab_wf:
  assumes "relab m m' A" "tree_wf m r"
  shows "tree_wf m' r"
  using assms same_shapeD [OF relabD(1) [OF assms(1)]]
  by (simp add: tree_wf_def relab_def)

lemma node_ok_frame:
  assumes "relab m m' A" "node_ok m x" "x \<notin> A" "set (kids m x) \<inter> A = {}"
  shows "node_ok m' x"
proof -
  have "map (ivl m') (kids m x) = map (ivl m) (kids m x)"
    using relabD(2) [OF assms(1)] assms(4) by (intro map_cong) auto
  then show ?thesis
    using assms(2) unfolding node_ok_def relabD(2) [OF assms(1) assms(3)] same_shapeD(2) [OF relabD(1) [OF assms(1)]]
    by (simp only:)
qed

lemma rc_stageInterval_ok:
  assumes w: "tree_wf (data_of (manager rc)) r" and h: "h \<in> dom (data_of (manager rc))"
  shows "\<exists>rt'. rc_stageInterval rc h i = Inr (rc\<lparr>manager := rt'\<rparr>) \<and> frame (manager rc) rt'
     \<and> relab (data_of (manager rc)) (data_of rt') {h} \<and> ivl (data_of rt') h = i"
proof -
  let ?m = "data_of (manager rc)"
  obtain d where d: "?m h = Some d" "rd_interval d = Some (ivl ?m h)" using ivl_Some [OF w h] by blast
  have some: "\<forall>h \<in> dom ?m. rd_interval (the (?m h)) \<noteq> None" using w unfolding tree_wf_def by blast
  let ?rt = "stageData (manager rc) h (rd_SetInterval i d)"
  have "rc_stageInterval rc h i = Inr (rc\<lparr>manager := ?rt\<rparr>)"
    by (simp add: rc_stageInterval_def stage_Some [OF d])
  moreover have "relab ?m (data_of ?rt) {h}"
    using d some by (auto simp: relab_def same_shape_def kids_def par_def fcs_of_def ivl_def)
  moreover have "ivl (data_of ?rt) h = i" by (simp add: ivl_def)
  ultimately show ?thesis by (intro exI [of _ ?rt]) simp
qed

lemma stageIntervals_ok:
  "tree_wf (data_of (manager rc)) r \<Longrightarrow> set hs \<subseteq> dom (data_of (manager rc)) \<Longrightarrow> distinct hs \<Longrightarrow>
   length is = length hs \<Longrightarrow>
   \<exists>rt'. stageIntervals rc hs is = Inr (rc\<lparr>manager := rt'\<rparr>) \<and> frame (manager rc) rt'
     \<and> relab (data_of (manager rc)) (data_of rt') (set hs) \<and> map (ivl (data_of rt')) hs = is"
proof (induction hs arbitrary: rc "is")
  case Nil
  then show ?case using relab_refl [of "data_of (manager rc)" r "{}"] by (intro exI [of _ "manager rc"]) auto
next
  case (Cons h hs)
  obtain i is' where i: "is = i # is'" using Cons.prems(4) by (cases "is") auto
  obtain rt1 where s1: "rc_stageInterval rc h i = Inr (rc\<lparr>manager := rt1\<rparr>)" "frame (manager rc) rt1"
    "relab (data_of (manager rc)) (data_of rt1) {h}" "ivl (data_of rt1) h = i"
    using rc_stageInterval_ok [OF Cons.prems(1), of h i] Cons.prems(2) by auto
  let ?rc = "rc\<lparr>manager := rt1\<rparr>"
  have "tree_wf (data_of (manager ?rc)) r" using relab_wf [OF s1(3) Cons.prems(1)] by simp
  moreover have "set hs \<subseteq> dom (data_of (manager ?rc))"
    using Cons.prems(2) same_shapeD(1) [OF relabD(1) [OF s1(3)]] by auto
  ultimately obtain rt2 where s2: "stageIntervals ?rc hs is' = Inr (?rc\<lparr>manager := rt2\<rparr>)" "frame rt1 rt2"
    "relab (data_of rt1) (data_of rt2) (set hs)" "map (ivl (data_of rt2)) hs = is'"
    using Cons.IH [of ?rc is'] Cons.prems(3,4) i by auto
  have "ivl (data_of rt2) h = i" using relabD(2) [OF s2(3), of h] s1(4) Cons.prems(3) by simp
  moreover have "relab (data_of (manager rc)) (data_of rt2) (set (h # hs))"
    using relab_trans [OF s1(3) s2(3)] by simp
  ultimately show ?case
    using s1 s2 i frame_trans [OF s1(2) s2(2)] by (intro exI [of _ rt2]) simp
qed

end
