(* ===== verification/Reachability_Propagation.thy ===== *)
theory Reachability_Propagation
  imports Reachability_Subtrees
begin

text \<open>
  \<^verbatim>\<open>propagateInterval\<close> of \<^verbatim>\<open>reindex_context.go\<close>: when the interval of a block is at least as large
  as its subtree, the whole subtree is laid out again inside that interval and nothing else changes.
\<close>

lemma uint_of_nat64: "n < 2 ^ 64 \<Longrightarrow> uint (of_nat n :: u64) = int n"
  by (simp only: unsigned_of_nat) (simp add: take_bit_nat_eq_self)

lemma uint_minus_one: "0 < uint (a :: u64) \<Longrightarrow> uint (a - 1) = uint a - 1"
  by (simp add: uint_sub_if')

lemma sum_list_int: "(\<Sum>x\<leftarrow>xs. int (f x)) = int (\<Sum>x\<leftarrow>xs. f x)"
  by (induction xs) simp_all

text \<open>
  The state of the search: \<open>E\<close> are the blocks already taken from the queue, \<open>Q\<close> those in it.
\<close>

definition prop_inv :: "tree \<Rightarrow> tree \<Rightarrow> DomainHash \<Rightarrow> DomainHash set \<Rightarrow> DomainHash set \<Rightarrow> bool" where
  "prop_inv m0 m node Q E \<longleftrightarrow>
     relab m0 m (sub m0 node - {node})
     \<and> Q \<union> E = insert node (\<Union>x \<in> E. set (kids m0 x)) \<and> Q \<inter> E = {} \<and> E \<subseteq> sub m0 node
     \<and> (\<forall>x \<in> E. node_ok m x)
     \<and> (\<forall>x \<in> Q. int (siz m0 x) \<le> width (ivl m x)
          \<and> ilo (ivl m0 node) \<le> ilo (ivl m x) \<and> ihi (ivl m x) \<le> ihi (ivl m0 node))"

lemma prop_invD:
  assumes "prop_inv m0 m node Q E"
  shows "relab m0 m (sub m0 node - {node})" "Q \<union> E = insert node (\<Union>x \<in> E. set (kids m0 x))"
    "Q \<inter> E = {}" "E \<subseteq> sub m0 node" "\<And>x. x \<in> E \<Longrightarrow> node_ok m x"
    "\<And>x. x \<in> Q \<Longrightarrow> int (siz m0 x) \<le> width (ivl m x)"
    "\<And>x. x \<in> Q \<Longrightarrow> ilo (ivl m0 node) \<le> ilo (ivl m x)"
    "\<And>x. x \<in> Q \<Longrightarrow> ihi (ivl m x) \<le> ihi (ivl m0 node)"
  using assms unfolding prop_inv_def by (elim conjE; simp)+

lemma prop_visited_sub:
  assumes "prop_inv m0 m node Q E"
  shows "Q \<union> E \<subseteq> sub m0 node"
proof -
  have "set (kids m0 x) \<subseteq> sub m0 node" if "x \<in> E" for x
  proof -
    have "anc m0 node x" using prop_invD(4) [OF assms] that by (auto simp: sub_def)
    then show ?thesis
      unfolding sub_def using anc_trans anc_edge by (auto simp: edges_iff [symmetric])
  qed
  then show ?thesis unfolding prop_invD(2) [OF assms] by auto
qed

lemma prop_new_kids:
  assumes w: "tree_wf m0 r" and I: "prop_inv m0 m node (insert cur Q) E" and c: "c \<in> set (kids m0 cur)"
  shows "c \<notin> insert cur Q \<union> E" "c \<in> sub m0 node - {node}" "\<And>x. x \<in> E \<Longrightarrow> c \<notin> set (kids m0 x)"
proof -
  note D = prop_invD [OF I]
  have e: "(cur, c) \<in> edges m0" using c by (simp add: edges_iff)
  have cs: "cur \<in> sub m0 node" using prop_visited_sub [OF I] by blast
  have cE: "cur \<notin> E" using D(3) by blast
  have n: "c \<noteq> node" using sub_not_above [OF w e] cs by auto
  show k: "c \<notin> set (kids m0 x)" if "x \<in> E" for x
  proof
    assume "c \<in> set (kids m0 x)"
    then have "x = cur" using e tree_wfD(6) [OF w] by (metis edges_iff option.inject)
    then show False using that cE by simp
  qed
  then show "c \<notin> insert cur Q \<union> E" unfolding D(2) using n by blast
  have "anc m0 node c" using cs anc_edge [OF e] anc_trans by (auto simp: sub_def)
  then show "c \<in> sub m0 node - {node}" using n by (simp add: sub_def)
qed

text \<open>Laying out the children of one block.\<close>

lemma split_children:
  assumes w: "tree_wf m r" and cur: "cur \<in> dom m" and ne: "kids m cur \<noteq> []"
    and c: "cache_ok m S" "cur \<in> dom (map_of S)" and big: "card (dom m) < 2 ^ 64"
    and fit: "int (siz m cur) \<le> width i" and wd: "width i < 2 ^ 64"
  shows "\<exists>is. intervalSplitWithExponentialBias conv (newReachabilityInterval (Start i) (End i - 1))
                (map (count_at S) (kids m cur)) = Inr is
     \<and> chained (ilo i) (ihi i - 1) is \<and> length is = length (kids m cur)
     \<and> (\<forall>k < length (kids m cur). int (siz m (kids m cur ! k)) \<le> width (is ! k))"
proof -
  let ?cs = "kids m cur"
  have kd: "set ?cs \<subseteq> dom m" using tree_wfD(5) [OF w] by (auto simp: edges_iff)
  have "sub m cur \<subseteq> dom (map_of S)" using c cache_okD(3) by blast
  moreover have "set ?cs \<subseteq> sub m cur" by (subst sub_unfold) auto
  ultimately have kS: "\<And>x. x \<in> set ?cs \<Longrightarrow> count_at S x = of_nat (siz m x)"
    using cache_ok_count [OF c(1)] by blast
  have small: "siz m x < 2 ^ 64" if "x \<in> set ?cs" for x
    using siz_le [OF w, of x] big that kd by fastforce
  have us: "uint (count_at S x) = int (siz m x)" if "x \<in> set ?cs" for x
    using kS [OF that] small [OF that] by (simp add: uint_of_nat64)
  let ?sizes = "map (count_at S) ?cs"
  have tot: "isum ?sizes = int (siz m cur) - 1"
  proof -
    have "map uint ?sizes = map (\<lambda>x. int (siz m x)) ?cs" using us by simp
    then have "isum ?sizes = (\<Sum>x\<leftarrow>?cs. int (siz m x))" by (simp only: isum_def)
    then show ?thesis using siz_unfold [OF w cur] by (simp add: sum_list_int)
  qed
  have pos: "\<forall>s \<in> set ?sizes. 0 < s"
  proof
    fix s
    assume "s \<in> set ?sizes"
    then obtain x where x: "x \<in> set ?cs" "s = count_at S x" by auto
    then have "0 < uint s" using us [OF x(1)] siz_pos [OF w, of x] kd by auto
    then show "0 < s" by (simp add: word_less_def)
  qed
  have "0 < isum ?sizes"
    using ne pos isum_nonneg [of "map (count_at S) (tl ?cs)"]
    by (cases ?cs) (auto simp: word_less_def intro: add_pos_nonneg)
  then have sz2: "2 \<le> int (siz m cur)" using tot by simp
  have "0 < ihi i" using fit sz2 uint_ge_0 [of "Start i"] unfolding width_def by linarith
  then have e: "uint (End i - 1) = ihi i - 1" by (rule uint_minus_one)
  let ?j = "newReachabilityInterval (Start i) (End i - 1)"
  have j: "Start ?j = Start i" "ihi ?j = ihi i - 1" "width ?j = width i - 1"
    using e by (simp_all add: newReachabilityInterval_def width_def)
  obtain "is" where r: "intervalSplitWithExponentialBias conv ?j ?sizes = Inr is"
    "chained (ilo ?j) (ihi ?j) is" "list_all2 (\<lambda>i s. uint s \<le> width i) is ?sizes"
    using splitBias_ok [OF pos, of ?j conv] ne tot fit wd j by auto
  have "length is = length ?cs" using r(3) by (simp add: list_all2_lengthD)
  moreover have "int (siz m (?cs ! k)) \<le> width (is ! k)" if "k < length ?cs" for k
    using list_all2_nthD2 [OF r(3), of k] us [of "?cs ! k"] that by simp
  ultimately show ?thesis using r(1,2) j by auto
qed

lemma prop_inv_leaf:
  assumes w: "tree_wf m0 r" and node: "node \<in> dom m0" and I: "prop_inv m0 m node (insert cur Q) E"
    and cur: "cur \<notin> Q" and k: "kids m0 cur = []"
  shows "prop_inv m0 m node Q (insert cur E)"
proof -
  note D = prop_invD [OF I]
  have "cur \<in> dom m0" using prop_visited_sub [OF I] sub_dom [OF w node] by blast
  then have "0 < int (siz m0 cur)" using siz_pos [OF w] by simp
  moreover have "int (siz m0 cur) \<le> width (ivl m cur)" using D(6) by blast
  ultimately have "node_ok m cur"
    using k same_shapeD(2) [OF relabD(1) [OF D(1)]] by (simp add: node_ok_def width_def)
  then show ?thesis
    unfolding prop_inv_def
    using D(1,5,6,7,8) prop_visited_sub [OF I] D(2,3) cur k by auto
qed

lemma prop_inv_node:
  assumes w: "tree_wf m0 r" and node: "node \<in> dom m0" and I: "prop_inv m0 m node (insert cur Q) E"
    and cur: "cur \<notin> Q" and rl: "relab m m' (set (kids m0 cur))"
    and ch: "chained (ilo (ivl m cur)) (ihi (ivl m cur) - 1) (map (ivl m') (kids m0 cur))"
    and sz: "\<forall>c \<in> set (kids m0 cur). int (siz m0 c) \<le> width (ivl m' c)"
  shows "prop_inv m0 m' node (Q \<union> set (kids m0 cur)) (insert cur E)"
proof -
  note D = prop_invD [OF I]
  note new = prop_new_kids [OF w I]
  have cd: "cur \<in> dom m0" using prop_visited_sub [OF I] sub_dom [OF w node] by blast
  have k: "kids m = kids m0" "kids m' = kids m0"
    using same_shapeD(2) [OF relabD(1) [OF D(1)]] same_shapeD(2) [OF relabD(1) [OF rl]] by simp_all
  have old: "ivl m' x = ivl m x" if "x \<in> insert cur Q \<union> E" for x
    using relabD(2) [OF rl] new(1) that by blast
  have "0 < int (siz m0 cur)" using siz_pos [OF w cd] by simp
  moreover have "int (siz m0 cur) \<le> width (ivl m cur)" using D(6) by blast
  ultimately have le: "ilo (ivl m cur) \<le> ihi (ivl m cur)" by (simp add: width_def)
  have ok: "node_ok m' x" if "x \<in> insert cur E" for x
  proof (cases "x = cur")
    case True
    then show ?thesis using ch le old [of cur] k by (simp add: node_ok_def)
  next
    case False
    then have x: "x \<in> E" using that by blast
    have "x \<notin> set (kids m0 cur)" using new(1) x by blast
    moreover have "set (kids m x) \<inter> set (kids m0 cur) = {}" unfolding k(1) using new(3) [OF _ x] by blast
    ultimately show ?thesis by (rule node_ok_frame [OF rl D(5) [OF x]])
  qed
  have in_cur: "ilo (ivl m cur) \<le> ilo (ivl m' c) \<and> ihi (ivl m' c) \<le> ihi (ivl m cur) - 1"
    if "c \<in> set (kids m0 cur)" for c
    using chained_mem [OF ch, of "ivl m' c"] that by auto
  have bounds: "int (siz m0 x) \<le> width (ivl m' x) \<and> ilo (ivl m0 node) \<le> ilo (ivl m' x)
      \<and> ihi (ivl m' x) \<le> ihi (ivl m0 node)" if "x \<in> Q \<union> set (kids m0 cur)" for x
  proof (cases "x \<in> Q")
    case True
    then show ?thesis using D(6,7,8) [of x] old [of x] by simp
  next
    case False
    then have c: "x \<in> set (kids m0 cur)" using that by blast
    then show ?thesis using in_cur [OF c] sz D(7,8) [of cur] by auto
  qed
  have "relab m0 m' (sub m0 node - {node} \<union> set (kids m0 cur))" by (rule relab_trans [OF D(1) rl])
  then have f1: "relab m0 m' (sub m0 node - {node})" using new(2) by (rule_tac relab_mono) auto
  have f2: "Q \<union> set (kids m0 cur) \<union> insert cur E = insert node (\<Union>x \<in> insert cur E. set (kids m0 x))"
    using D(2) by blast
  have f3: "(Q \<union> set (kids m0 cur)) \<inter> insert cur E = {}" using D(3) cur new(1) by blast
  have f4: "insert cur E \<subseteq> sub m0 node" using prop_visited_sub [OF I] by blast
  show ?thesis
    unfolding prop_inv_def by (intro conjI f1 f2 f3 f4 ballI ok) (use bounds in simp_all)
qed

lemma prop_inv_done:
  assumes "prop_inv m0 m node {} E"
  shows "sub m0 node \<subseteq> E"
proof
  fix x
  assume "x \<in> sub m0 node"
  then have "(node, x) \<in> (edges m0)\<^sup>*" by (simp add: sub_def anc_def)
  then show "x \<in> E"
  proof (induction rule: rtrancl_induct)
    case base
    show ?case using prop_invD(2) [OF assms] by blast
  next
    case (step y z)
    then show ?case using prop_invD(2) [OF assms] by (auto simp: edges_iff)
  qed
qed

lemma propagateInterval_loop_ok:
  assumes w: "tree_wf m0 r" and node: "node \<in> dom m0" and big: "card (dom m0) < 2 ^ 64"
    and c: "cache_ok m0 S" "node \<in> dom (map_of S)" and wd: "width (ivl m0 node) < 2 ^ 64"
  shows "subTreeSizesCache rc = S \<Longrightarrow> prop_inv m0 (data_of (manager rc)) node (set q) E \<Longrightarrow> distinct q \<Longrightarrow>
    siz m0 node - card E < fuel \<Longrightarrow>
    \<exists>rt'. propagateInterval_loop fuel rc q = Inr (rc\<lparr>manager := rt'\<rparr>) \<and> frame (manager rc) rt'
      \<and> relab m0 (data_of rt') (sub m0 node - {node}) \<and> (\<forall>x \<in> sub m0 node. node_ok (data_of rt') x)"
proof (induction fuel arbitrary: rc q E)
  case (Suc fuel)
  let ?m = "data_of (manager rc)"
  show ?case
  proof (cases q)
    case Nil
    then have I: "prop_inv m0 ?m node {} E" using Suc.prems(2) by simp
    have "propagateInterval_loop (Suc fuel) rc q = Inr (rc\<lparr>manager := manager rc\<rparr>)" using Nil by simp
    then show ?thesis
      using prop_invD(1,5) [OF I] prop_inv_done [OF I] frame_refl by blast
  next
    case (Cons cur q')
    have I: "prop_inv m0 ?m node (insert cur (set q')) E" and cq: "cur \<notin> set q'" "distinct q'"
      using Suc.prems Cons by auto
    note D = prop_invD [OF I]
    have cs: "cur \<in> sub m0 node" using prop_visited_sub [OF I] by blast
    have sh: "same_shape m0 ?m" using relabD(1) [OF D(1)] .
    have cd0: "cur \<in> dom m0" using cs sub_dom [OF w node] by blast
    then have cd: "cur \<in> dom ?m" using same_shapeD(1) [OF sh] by simp
    have wm: "tree_wf ?m r" using relab_wf [OF D(1) w] .
    have k: "kids ?m cur = kids m0 cur" using same_shapeD(2) [OF sh] by simp
    have fs: "finite (sub m0 node)" by (rule finite_sub [OF w node])
    have new: "cur \<notin> E" using D(3) by blast
    have "card (insert cur E) = Suc (card E)"
      using new fs D(4) by (meson card_insert_disjoint finite_subset)
    moreover have "card (insert cur E) \<le> siz m0 node"
      unfolding siz_def using cs D(4) fs by (intro card_mono) auto
    ultimately have fuel: "siz m0 node - card (insert cur E) < fuel" using Suc.prems(4) by simp
    show ?thesis
    proof (cases "kids m0 cur = []")
      case True
      have "propagateInterval_loop (Suc fuel) rc q = propagateInterval_loop fuel rc q'"
        using True Cons k by (simp add: children_kids [OF cd])
      then show ?thesis
        using Suc.IH [OF Suc.prems(1) prop_inv_leaf [OF w node I cq(1) True] cq(2) fuel] by simp
    next
      case False
      let ?i = "ivl ?m cur"
      have fit: "int (siz m0 cur) \<le> width ?i" and wi: "width ?i < 2 ^ 64"
        using D(6,7,8) [of cur] wd by (auto simp: width_def)
      have cS: "cur \<in> dom (map_of S)" using cache_okD(3) [OF c(1)] c(2) cs by blast
      obtain "is" where s: "intervalSplitWithExponentialBias (rm_conv (manager rc))
            (newReachabilityInterval (Start ?i) (End ?i - 1)) (map (count_at S) (kids m0 cur)) = Inr is"
          "chained (ilo ?i) (ihi ?i - 1) is" "length is = length (kids m0 cur)"
          "\<forall>k < length (kids m0 cur). int (siz m0 (kids m0 cur ! k)) \<le> width (is ! k)"
        using split_children [OF w cd0 False c(1) cS big fit wi] by blast
      have kd: "set (kids m0 cur) \<subseteq> dom ?m"
        using tree_wfD(5) [OF wm, of cur] k by (metis edges_iff subsetI)
      obtain rt1 where t: "stageIntervals rc (kids m0 cur) is = Inr (rc\<lparr>manager := rt1\<rparr>)" "frame (manager rc) rt1"
          "relab ?m (data_of rt1) (set (kids m0 cur))" "map (ivl (data_of rt1)) (kids m0 cur) = is"
        using stageIntervals_ok [OF wm kd tree_wfD(4) [OF w cd0] s(3)] by blast
      have step: "propagateInterval_loop (Suc fuel) rc q
          = propagateInterval_loop fuel (rc\<lparr>manager := rt1\<rparr>) (q' @ kids m0 cur)"
        using False Cons k s(1) t(1) Suc.prems(1)
        by (simp add: children_kids [OF cd] intervalRangeForChildAllocation_def interval_ivl [OF wm cd])
      have "\<forall>c \<in> set (kids m0 cur). int (siz m0 c) \<le> width (ivl (data_of rt1) c)"
        using s(3,4) t(4) by (metis in_set_conv_nth nth_map)
      then have I': "prop_inv m0 (data_of rt1) node (set q' \<union> set (kids m0 cur)) (insert cur E)"
        using prop_inv_node [OF w node I cq(1) t(3)] s(2) t(4) by simp
      have "distinct (q' @ kids m0 cur)"
        using cq(2) tree_wfD(4) [OF w cd0] prop_new_kids(1) [OF w I] by auto
      then obtain rt2 where "propagateInterval_loop fuel (rc\<lparr>manager := rt1\<rparr>) (q' @ kids m0 cur)
            = Inr (rc\<lparr>manager := rt2\<rparr>)" "frame rt1 rt2"
          "relab m0 (data_of rt2) (sub m0 node - {node})" "\<forall>x \<in> sub m0 node. node_ok (data_of rt2) x"
        using Suc.IH [of "rc\<lparr>manager := rt1\<rparr>" "q' @ kids m0 cur" "insert cur E"] Suc.prems(1) I' fuel by auto
      then show ?thesis using step frame_trans [OF t(2)] by auto
    qed
  qed
qed simp

lemma propagateInterval_ok:
  assumes w: "tree_wf (data_of (manager rc)) r" and node: "node \<in> dom (data_of (manager rc))"
    and big: "card (dom (data_of (manager rc))) < 2 ^ 64"
    and c: "cache_ok (data_of (manager rc)) (subTreeSizesCache rc)"
    and fit: "int (siz (data_of (manager rc)) node) \<le> width (ivl (data_of (manager rc)) node)"
    and wd: "width (ivl (data_of (manager rc)) node) < 2 ^ 64"
  shows "\<exists>rt' S'. propagateInterval rc node = Inr \<lparr>manager = rt', subTreeSizesCache = S'\<rparr> \<and> frame (manager rc) rt'
     \<and> cache_ok (data_of rt') S'
     \<and> relab (data_of (manager rc)) (data_of rt') (sub (data_of (manager rc)) node - {node})
     \<and> (\<forall>x \<in> sub (data_of (manager rc)) node. node_ok (data_of rt') x)"
proof -
  let ?m = "data_of (manager rc)"
  obtain S where S: "countSubtrees rc node = Inr (rc\<lparr>subTreeSizesCache := S\<rparr>)" "cache_ok ?m S" "node \<in> dom (map_of S)"
    using countSubtrees_ok [OF w node big c] by blast
  let ?rc = "rc\<lparr>subTreeSizesCache := S\<rparr>"
  have I: "prop_inv ?m (data_of (manager ?rc)) node (set [node]) {}"
    using relab_refl [OF w] fit by (simp add: prop_inv_def)
  have "siz ?m node - card ({} :: DomainHash set) < rc_fuel ?rc"
    using siz_le [OF w node] card_dom_fuel [of "manager rc"] by (simp add: rc_fuel_def)
  then obtain rt' where l: "propagateInterval_loop (rc_fuel ?rc) ?rc [node] = Inr (?rc\<lparr>manager := rt'\<rparr>)" "frame (manager rc) rt'"
     "relab ?m (data_of rt') (sub ?m node - {node})" "\<forall>x \<in> sub ?m node. node_ok (data_of rt') x"
    using propagateInterval_loop_ok [OF w node big S(2,3) wd _ I, of "rc_fuel ?rc"] by auto
  have "propagateInterval rc node = Inr \<lparr>manager = rt', subTreeSizesCache = S\<rparr>"
    using S(1) l(1) by (cases rc) (simp add: propagateInterval_def)
  then show ?thesis using l S(2) same_shapeD(9) [OF relabD(1) [OF l(3)]] by auto
qed

end
