(* ===== verification/Reachability_Reindexing.thy ===== *)
theory Reachability_Reindexing
  imports Reachability_Propagation
begin

text \<open>
  What \<^verbatim>\<open>addChild\<close> starts from, and the search of \<^verbatim>\<open>reindexIntervals\<close> for an ancestor with enough
  room.  A new leaf either gets half of the room to the right of its siblings, or the tree is
  \<open>pending\<close>: the leaf has an empty interval and a subtree around it has to be laid out again.
\<close>

section \<open>Adding a leaf\<close>

text \<open>
  \<open>add_leaf m p c i\<close> is the tree after a new block \<open>c\<close> was added below \<open>p\<close> with interval \<open>i\<close>.
\<close>

definition add_leaf :: "tree \<Rightarrow> DomainHash \<Rightarrow> DomainHash \<Rightarrow> ReachabilityInterval \<Rightarrow> tree" where
  "add_leaf m p c i = m(p \<mapsto> rd_AddChild c (the (m p)),
     c \<mapsto> \<lparr>rd_children = [], rd_parent = Some p, rd_interval = Some i, rd_futureCoveringSet = []\<rparr>)"

lemma add_leaf_simps:
  assumes p: "p \<in> dom m" and c: "c \<notin> dom m"
  shows "dom (add_leaf m p c i) = insert c (dom m)"
    "kids (add_leaf m p c i) = (kids m)(p := kids m p @ [c], c := [])"
    "par (add_leaf m p c i) = (par m)(c := Some p)"
    "fcs_of (add_leaf m p c i) = (fcs_of m)(c := [])"
    "ivl (add_leaf m p c i) = (ivl m)(c := i)"
    "edges (add_leaf m p c i) = insert (p, c) (edges m)"
proof -
  obtain d where d: "m p = Some d" using p by blast
  have pc: "p \<noteq> c" using p c by blast
  show "dom (add_leaf m p c i) = insert c (dom m)" using p by (auto simp: add_leaf_def)
  show k: "kids (add_leaf m p c i) = (kids m)(p := kids m p @ [c], c := [])"
    using d pc by (auto simp: add_leaf_def kids_def fun_eq_iff)
  show "par (add_leaf m p c i) = (par m)(c := Some p)"
    using d pc by (auto simp: add_leaf_def par_def fun_eq_iff)
  show "fcs_of (add_leaf m p c i) = (fcs_of m)(c := [])"
    using d pc by (auto simp: add_leaf_def fcs_of_def fun_eq_iff)
  show "ivl (add_leaf m p c i) = (ivl m)(c := i)"
    using d pc by (auto simp: add_leaf_def ivl_def fun_eq_iff)
  have kc: "kids m c = []" using c by (auto simp: kids_def split: option.splits)
  have "y \<in> set (kids (add_leaf m p c i) x) \<longleftrightarrow> (x = p \<and> y = c) \<or> y \<in> set (kids m x)" for x y
    unfolding k using pc kc by simp
  then show "edges (add_leaf m p c i) = insert (p, c) (edges m)" by (auto simp: edges_def)
qed

lemma add_leaf_anc:
  assumes w: "tree_wf m r" and p: "p \<in> dom m" and c: "c \<notin> dom m"
  shows "anc (add_leaf m p c i) a b \<longleftrightarrow> anc m a b \<or> (b = c \<and> (a = c \<or> anc m a p))"
proof
  note S = add_leaf_simps [OF p c, of i]
  assume "anc (add_leaf m p c i) a b"
  then show "anc m a b \<or> (b = c \<and> (a = c \<or> anc m a p))"
    unfolding anc_def S(6)
  proof (induction rule: rtrancl_induct)
    case (step x y)
    have "c \<notin> set (kids m c)" "(c, y) \<notin> edges m" using c edge_dom [of c y m] by (auto simp: kids_def edges_iff split: option.splits)
    then show ?case using step p c by (auto intro: rtrancl_into_rtrancl)
  qed simp
next
  note S = add_leaf_simps [OF p c, of i]
  have sub: "anc m x y \<Longrightarrow> anc (add_leaf m p c i) x y" for x y
    unfolding anc_def S(6) using rtrancl_mono [of "edges m" "insert (p, c) (edges m)"] by blast
  have pc: "anc (add_leaf m p c i) p c" unfolding anc_def S(6) by blast
  assume "anc m a b \<or> (b = c \<and> (a = c \<or> anc m a p))"
  then show "anc (add_leaf m p c i) a b" using sub pc anc_trans by blast
qed

lemma add_leaf_wf:
  assumes w: "tree_wf m r" and p: "p \<in> dom m" and c: "c \<notin> dom m"
  shows "tree_wf (add_leaf m p c i) r"
proof -
  note S = add_leaf_simps [OF p c, of i]
  have pc: "p \<noteq> c" using p c by blast
  have rc: "r \<noteq> c" using tree_wfD(2) [OF w] c by blast
  have kd: "set (kids m h) \<subseteq> dom m" if "h \<in> dom m" for h
    using w that unfolding tree_wf_def by blast
  have some: "rd_interval (the (m h)) \<noteq> None" if "h \<in> dom m" for h
    using w that unfolding tree_wf_def by blast
  have 1: "rd_interval (the (add_leaf m p c i h)) \<noteq> None" if "h \<in> insert c (dom m)" for h
    using that some pc p by (auto simp: add_leaf_def)
  have 2: "distinct (((kids m)(p := kids m p @ [c], c := [])) h)" if "h \<in> insert c (dom m)" for h
    using that tree_wfD(4) [OF w] kd [OF p] p c by (auto)
  have 3: "set (((kids m)(p := kids m p @ [c], c := [])) h) \<subseteq> insert c (dom m)" if "h \<in> insert c (dom m)" for h
    using that kd p by (cases "h = c"; cases "h = p") auto
  have 4: "anc (add_leaf m p c i) r h" if "h \<in> insert c (dom m)" for h
    using that tree_wfD(7) [OF w] p unfolding add_leaf_anc [OF w p c] by blast
  have 5: "(x, y) \<in> insert (p, c) (edges m) \<longleftrightarrow> ((par m)(c := Some p)) y = Some x" for x y
  proof (cases "y = c")
    case True
    have "(x, c) \<notin> edges m" using tree_wfD(5) [OF w] c by blast
    then show ?thesis using True by auto
  next
    case False
    then show ?thesis using tree_wfD(6) [OF w] by simp
  qed
  show ?thesis
    unfolding tree_wf_def S
    using 1 2 3 4 5 tree_wfD(1,2,3) [OF w] rc by simp
qed

text \<open>The space to the right of the last child of \<open>p\<close>.\<close>

definition room :: "tree \<Rightarrow> DomainHash \<Rightarrow> ReachabilityInterval" where
  "room m p = newReachabilityInterval
     (if kids m p = [] then Start (ivl m p) else End (ivl m (last (kids m p))) + 1) (End (ivl m p) - 1)"

lemma room_bounds:
  assumes v: "valid m r" and p: "p \<in> dom m"
  shows "ilo (room m p) = (if kids m p = [] then ilo (ivl m p) else ihi (ivl m (last (kids m p))) + 1)"
    "ihi (room m p) = ihi (ivl m p) - 1" "ilo (room m p) \<le> ihi (room m p) + 1"
    "ilo (ivl m p) \<le> ilo (room m p)" "width (room m p) < 2 ^ 64"
proof -
  have b: "1 \<le> ilo (ivl m p)" "ilo (ivl m p) \<le> ihi (ivl m p)" "ihi (ivl m p) \<le> 2 ^ 64 - 2"
    using ivl_bounds [OF v p] by auto
  show e: "ihi (room m p) = ihi (ivl m p) - 1"
    using b by (simp add: room_def newReachabilityInterval_def uint_minus_one)
  have l: "ilo (ivl m p) \<le> ihi (ivl m (last (kids m p))) \<and> ihi (ivl m (last (kids m p))) \<le> ihi (ivl m p) - 1"
    if "kids m p \<noteq> []"
  proof -
    have "chained (ilo (ivl m p)) (ihi (ivl m p) - 1) (map (ivl m) (kids m p))"
      using validD(2) [OF v p] by (simp add: node_ok_def)
    then show ?thesis using chained_mem [of _ _ _ "ivl m (last (kids m p))"] that by fastforce
  qed
  show s: "ilo (room m p) = (if kids m p = [] then ilo (ivl m p) else ihi (ivl m (last (kids m p))) + 1)"
  proof (cases "kids m p = []")
    case False
    then have "uint (End (ivl m (last (kids m p))) + 1) = ihi (ivl m (last (kids m p))) + 1"
      using l b uint_plus_small [of "End (ivl m (last (kids m p)))" 1] by simp
    then show ?thesis using False by (simp add: room_def newReachabilityInterval_def)
  qed (simp add: room_def newReachabilityInterval_def)
  show lo: "ilo (ivl m p) \<le> ilo (room m p)" using l unfolding s by auto
  show "ilo (room m p) \<le> ihi (room m p) + 1" using l b unfolding s e by auto
  show "width (room m p) < 2 ^ 64" using lo b unfolding width_def e by linarith
qed

lemma room_empty:
  assumes v: "valid m r" and p: "p \<in> dom m"
  shows "intervalSize (room m p) = 0 \<longleftrightarrow> width (room m p) = 0"
  using intervalSize_width_small [of "room m p"] room_bounds [OF v p]
  by (metis uint_0_iff)

lemma add_leaf_valid:
  assumes v: "valid m r" and p: "p \<in> dom m" and c: "c \<notin> dom m"
    and l: "ilo (room m p) \<le> ilo l" "ilo l \<le> ihi l" "ihi l \<le> ihi (room m p)"
  shows "valid (add_leaf m p c l) r"
proof -
  note w = validD(1) [OF v]
  note S = add_leaf_simps [OF p c, of l]
  note B = room_bounds [OF v p]
  have rc: "r \<noteq> c" using tree_wfD(2) [OF w] c by blast
  have kd: "\<And>h x. h \<in> dom m \<Longrightarrow> x \<in> set (kids m h) \<Longrightarrow> x \<noteq> c"
    using tree_wfD(5) [OF w] c by (metis edges_iff)
  then have keep: "map ((ivl m)(c := l)) (kids m h) = map (ivl m) (kids m h)" if "h \<in> dom m" for h
    using that by (intro map_cong) auto
  have "node_ok (add_leaf m p c l) h" if h: "h \<in> insert c (dom m)" for h
  proof -
    consider "h = c" | "h \<in> dom m" "h \<noteq> c" "h \<noteq> p" | "h = p" "h \<noteq> c" using h c p by blast
    then show ?thesis
    proof cases
      case 1
      then show ?thesis using l(2) by (simp add: node_ok_def S)
    next
      case 2
      then show ?thesis using validD(2) [OF v 2(1)] by (simp add: node_ok_def S keep [OF 2(1)])
    next
      case 3
      have ok: "ilo (ivl m p) \<le> ihi (ivl m p)" "chained (ilo (ivl m p)) (ihi (ivl m p) - 1) (map (ivl m) (kids m p))"
        using validD(2) [OF v p] by (simp_all add: node_ok_def)
      have "(if map (ivl m) (kids m p) = [] then ilo (ivl m p) else ihi (last (map (ivl m) (kids m p))) + 1) = ilo (room m p)"
        using B(1) by (simp add: last_map)
      then have "chained (ilo (ivl m p)) (ihi (ivl m p) - 1) (map (ivl m) (kids m p) @ [l])"
        unfolding chained_append using ok(2) l B(2) by simp
      then show ?thesis using 3 ok(1) by (simp add: node_ok_def S keep [OF p])
    qed
  qed
  then show ?thesis
    unfolding valid_def S using add_leaf_wf [OF w p c] validD(3,4) [OF v] rc by simp
qed

lemma addChild_start:
  assumes v: "valid m r" and p: "p \<in> dom m" and c: "c \<notin> dom m"
    and rt: "data_of rt = m(c \<mapsto> newReachabilityTreeData)"
  shows "\<exists>rt2. remainingIntervalAfter rt p = Inr (room m p)
     \<and> rbind (stageAddChild rt p c) (\<lambda>rt1. stageParent rt1 c p) = Inr rt2 \<and> frame rt rt2
     \<and> (\<forall>i. \<exists>rt3. stageInterval rt2 c i = Inr rt3 \<and> frame rt rt3 \<and> data_of rt3 = add_leaf m p c i)"
proof -
  note w = validD(1) [OF v]
  have pc: "p \<noteq> c" using p c by blast
  obtain d where d: "m p = Some d" "rd_interval d = Some (ivl m p)" using ivl_Some [OF w p] by blast
  have d': "data_of rt p = Some d" using d pc rt by simp
  have r: "remainingIntervalAfter rt p = Inr (room m p)"
  proof (cases "kids m p = []")
    case True
    then show ?thesis
      using d d' by (simp add: remainingIntervalAfter_def intervalRangeForChildAllocation_def fetch_Some room_def)
  next
    case False
    let ?l = "last (kids m p)"
    have "?l \<in> set (kids m p)" using False by simp
    then have ld: "?l \<in> dom m" using tree_wfD(5) [OF w] by (metis edges_iff)
    then obtain e where e: "m ?l = Some e" "rd_interval e = Some (ivl m ?l)" using ivl_Some [OF w] by blast
    have "?l \<noteq> c" using ld c by blast
    then have "data_of rt ?l = Some e" using e rt by simp
    moreover have "rd_children d ! (length (rd_children d) - 1) = ?l"
      using False d(1) by (simp add: last_conv_nth)
    ultimately show ?thesis
      using False d d' e
      by (simp add: remainingIntervalAfter_def intervalRangeForChildAllocation_def fetch_Some room_def
          newReachabilityInterval_def)
  qed
  let ?rt1 = "stageData rt p (rd_AddChild c d)"
  let ?n = "newReachabilityTreeData"
  have n: "rd_interval ?n = Some (newReachabilityInterval 1 (- 1 - 1))"
    by (simp add: newReachabilityTreeData_def)
  have s1: "stageAddChild rt p c = Inr ?rt1" using stage_Some(3) [OF d' d(2)] .
  have dc: "data_of ?rt1 c = Some ?n" using pc rt by simp
  let ?rt2 = "stageData ?rt1 c (rd_SetParent p ?n)"
  have s2: "stageParent ?rt1 c p = Inr ?rt2" using stage_Some(2) [OF dc n] .
  have dc2: "data_of ?rt2 c = Some (rd_SetParent p ?n)" by simp
  have "\<exists>rt3. stageInterval ?rt2 c i = Inr rt3 \<and> frame rt rt3 \<and> data_of rt3 = add_leaf m p c i" for i
  proof -
    let ?rt3 = "stageData ?rt2 c (rd_SetInterval i (rd_SetParent p ?n))"
    have "stageInterval ?rt2 c i = Inr ?rt3" using stage_Some(1) [OF dc2, of _ i] n by simp
    moreover have "data_of ?rt3 = add_leaf m p c i"
      using d pc by (simp add: rt add_leaf_def newReachabilityTreeData_def EmptyReachabilityData_def
          rd_SetInterval_def rd_SetParent_def fun_eq_iff)
    ultimately show ?thesis using frame_stageData frame_trans by blast
  qed
  moreover have "frame rt ?rt2" by (rule frame_trans [OF frame_stageData frame_stageData])
  ultimately show ?thesis using r s1 s2 by (intro exI [of _ ?rt2]) auto
qed

section \<open>Reindexing below the reindex root\<close>

text \<open>
  \<open>pending m m1 r p c\<close>: the tree \<open>m1\<close> is the valid tree \<open>m\<close> with a new leaf \<open>c\<close> below \<open>p\<close>, for
  which there was no room.
\<close>

definition pending :: "tree \<Rightarrow> tree \<Rightarrow> DomainHash \<Rightarrow> DomainHash \<Rightarrow> DomainHash \<Rightarrow> bool" where
  "pending m m1 r p c \<longleftrightarrow> valid m r \<and> p \<in> dom m \<and> c \<notin> dom m \<and> width (room m p) = 0 \<and> m1 = add_leaf m p c (room m p)"

lemma pendingD:
  assumes "pending m m1 r p c"
  shows "valid m r" "p \<in> dom m" "c \<notin> dom m" "width (room m p) = 0" "m1 = add_leaf m p c (room m p)"
    "tree_wf m1 r" "dom m1 = insert c (dom m)" "\<And>h. h \<in> dom m \<Longrightarrow> ivl m1 h = ivl m h" "ivl m1 c = room m p"
    "kids m1 c = []" "\<And>h. h \<noteq> p \<Longrightarrow> h \<noteq> c \<Longrightarrow> kids m1 h = kids m h" "kids m1 p = kids m p @ [c]"
    "par m1 c = Some p" "siz m1 c = 1"
proof -
  show 1: "valid m r" "p \<in> dom m" "c \<notin> dom m" "width (room m p) = 0" "m1 = add_leaf m p c (room m p)"
    using assms by (auto simp: pending_def)
  note S = add_leaf_simps [OF 1(2,3), of "room m p"]
  have pc: "p \<noteq> c" using 1 by blast
  show 2: "tree_wf m1 r" unfolding 1(5) by (rule add_leaf_wf [OF validD(1) [OF 1(1)] 1(2,3)])
  show 3: "dom m1 = insert c (dom m)" unfolding 1(5) by (rule S)
  show "\<And>h. h \<in> dom m \<Longrightarrow> ivl m1 h = ivl m h" "ivl m1 c = room m p"
    using 1(3) unfolding 1(5) S by auto
  show 4: "kids m1 c = []" "\<And>h. h \<noteq> p \<Longrightarrow> h \<noteq> c \<Longrightarrow> kids m1 h = kids m h" "kids m1 p = kids m p @ [c]"
    "par m1 c = Some p"
    using pc unfolding 1(5) S by auto
  show "siz m1 c = 1" using siz_unfold [OF 2, of c] 3 4(1) by simp
qed

lemma pending_anc:
  assumes "pending m m1 r p c"
  shows "anc m1 a b \<longleftrightarrow> anc m a b \<or> (b = c \<and> (a = c \<or> anc m a p))"
  unfolding pendingD(5) [OF assms] using pendingD(1,2,3) [OF assms] by (intro add_leaf_anc [OF validD(1)])

lemma pending_node_ok:
  assumes P: "pending m m1 r p c" and h: "h \<in> dom m" "h \<noteq> p"
  shows "node_ok m1 h"
proof -
  have hc: "h \<noteq> c" using h pendingD(3) [OF P] by blast
  have "set (kids m h) \<subseteq> dom m" using tree_wfD(5) [OF validD(1) [OF pendingD(1) [OF P]]] by (metis edges_iff subsetI)
  then have "map (ivl m1) (kids m h) = map (ivl m) (kids m h)"
    using pendingD(8) [OF P] by (intro map_cong) auto
  then show ?thesis
    using validD(2) [OF pendingD(1) [OF P] h(1)] unfolding node_ok_def pendingD(8) [OF P h(1)] pendingD(11) [OF P h(2) hc]
    by (simp only:)
qed

text \<open>Laying out a subtree that contains the new leaf and its parent makes the whole tree valid.\<close>

lemma pending_relab_valid:
  assumes P: "pending m m1 r p c" and cur: "cur \<in> dom m" "anc m cur p"
    and rl: "relab m1 m' (sub m1 cur - {cur})" and ok: "\<forall>x \<in> sub m1 cur. node_ok m' x"
  shows "valid m' r"
proof -
  note w = pendingD(6) [OF P]
  have sh: "same_shape m1 m'" using relabD(1) [OF rl] .
  have pc: "p \<in> sub m1 cur" "c \<in> sub m1 cur"
    using cur(2) by (auto simp: sub_def pending_anc [OF P])
  have "node_ok m' h" if h: "h \<in> dom m'" for h
  proof (cases "h \<in> sub m1 cur")
    case False
    then have "h \<noteq> p" "h \<noteq> c" using pc by auto
    then have "h \<in> dom m" using h same_shapeD(1) [OF sh] pendingD(7) [OF P] by auto
    then have n: "node_ok m1 h" using pending_node_ok [OF P] \<open>h \<noteq> p\<close> by blast
    have "k \<notin> sub m1 cur - {cur}" if k: "k \<in> set (kids m1 h)" for k
    proof
      assume "k \<in> sub m1 cur - {cur}"
      then have a: "anc m1 cur k" "cur \<noteq> k" by (auto simp: sub_def)
      then obtain y where "anc m1 cur y" "(y, k) \<in> edges m1" unfolding anc_def by (meson rtranclE)
      moreover have "(h, k) \<in> edges m1" using k by (simp add: edges_iff)
      ultimately have "anc m1 cur h" using tree_wfD(6) [OF w] by (metis option.inject)
      then show False using False by (simp add: sub_def)
    qed
    then have "set (kids m1 h) \<inter> (sub m1 cur - {cur}) = {}" by blast
    moreover have "h \<notin> sub m1 cur - {cur}" using False by blast
    ultimately show ?thesis using node_ok_frame [OF rl n] by blast
  qed (use ok in blast)
  moreover have "tree_wf m' r" using relab_wf [OF rl w] .
  moreover have "ivl m' r = ivl m r"
  proof -
    have "r \<notin> sub m1 cur - {cur}"
    proof
      assume "r \<in> sub m1 cur - {cur}"
      then have "anc m1 cur r" "cur \<noteq> r" by (auto simp: sub_def)
      then obtain y where "(y, r) \<in> edges m1" unfolding anc_def by (meson rtranclE)
      then show False using tree_wfD(3,6) [OF w] by simp
    qed
    then show ?thesis
      using relabD(2) [OF rl] pendingD(8) [OF P tree_wfD(2) [OF validD(1) [OF pendingD(1) [OF P]]]] by simp
  qed
  ultimately show ?thesis using validD(3,4) [OF pendingD(1) [OF P]] by (simp add: valid_def)
qed

lemma pending_fits:
  assumes P: "pending m m1 r p c" and big: "card (dom m1) < 2 ^ 64" and cur: "cur \<in> dom m1"
  shows "of_nat (siz m1 cur) \<le> intervalSize (ivl m1 cur) \<longleftrightarrow> int (siz m1 cur) \<le> width (ivl m1 cur)"
    "width (ivl m1 cur) < 2 ^ 64"
proof -
  have b: "ilo (ivl m1 cur) \<le> ihi (ivl m1 cur) + 1 \<and> width (ivl m1 cur) < 2 ^ 64"
  proof (cases "cur = c")
    case True
    then show ?thesis using room_bounds(3,5) [OF pendingD(1,2) [OF P]] pendingD(9) [OF P] by simp
  next
    case False
    then have d: "cur \<in> dom m" using cur pendingD(7) [OF P] by blast
    show ?thesis using ivl_bounds [OF pendingD(1) [OF P] d] pendingD(8) [OF P d] by (simp add: width_def)
  qed
  then show "width (ivl m1 cur) < 2 ^ 64" by blast
  have "siz m1 cur < 2 ^ 64" using siz_le [OF pendingD(6) [OF P] cur] big by simp
  then show "of_nat (siz m1 cur) \<le> intervalSize (ivl m1 cur) \<longleftrightarrow> int (siz m1 cur) \<le> width (ivl m1 cur)"
    using b by (simp only: word_le_def uint_of_nat64 intervalSize_width_small)
qed

lemma pending_IsAncestor:
  assumes P: "pending m (data_of rt) r p c" and "a \<in> dom m" "b \<in> dom m"
  shows "IsReachabilityTreeAncestorOf rt a b = Inr (anc m a b)"
proof -
  have d: "a \<in> dom (data_of rt)" "b \<in> dom (data_of rt)" using assms(2,3) pendingD(7) [OF P] by auto
  show ?thesis
    using interval_ivl [OF pendingD(6) [OF P]] d pendingD(8) [OF P] assms(2,3)
      contains_iff_anc [OF pendingD(1) [OF P] assms(2,3)]
    by (simp add: IsReachabilityTreeAncestorOf_def)
qed

text \<open>
  The search for an ancestor with enough room ends in one of three ways: a subtree is laid out
  again and the tree is valid; the reindex root is an ancestor of the new block and has no room; or
  a child \<open>a\<close> of a strict ancestor \<open>g\<close> of the reindex root is too small and takes slack from its
  siblings.
\<close>

definition reindexed :: "reachabilityManager \<Rightarrow> reachabilityManager \<Rightarrow> DomainHash \<Rightarrow> bool" where
  "reindexed rt rt' r \<longleftrightarrow> frame rt rt' \<and> same_shape (data_of rt) (data_of rt') \<and> valid (data_of rt') r"

lemma reindexIntervals_loop_cases:
  assumes P: "pending m (data_of rt) r p c" and big: "card (dom (data_of rt)) < 2 ^ 64" and R: "R \<in> dom m"
  shows "manager rc = rt \<Longrightarrow> cache_ok (data_of rt) (subTreeSizesCache rc) \<Longrightarrow>
    anc (data_of rt) cur c \<Longrightarrow> cur \<in> dom (data_of rt) \<Longrightarrow> cur = R \<or> \<not> anc m cur R \<Longrightarrow>
    siz (data_of rt) r - siz (data_of rt) cur < fuel \<Longrightarrow>
    (\<exists>rc'. reindexIntervals_loop fuel rc R cur = Inr rc' \<and> reindexed rt (manager rc') r)
    \<or> anc m R p \<and> width (ivl m R) < int (siz (data_of rt) R)
    \<or> (\<exists>rc' a g. reindexIntervals_loop fuel rc R cur
           = reindexIntervalsEarlierThanRoot rc' a R g (of_nat (siz (data_of rt) a))
         \<and> manager rc' = rt \<and> cache_ok (data_of rt) (subTreeSizesCache rc')
         \<and> anc (data_of rt) a c \<and> (g, a) \<in> edges (data_of rt) \<and> anc m g R \<and> g \<noteq> R \<and> g \<in> dom m
         \<and> \<not> anc (data_of rt) a R \<and> width (ivl (data_of rt) a) < int (siz (data_of rt) a))"
proof (induction fuel arbitrary: rc cur)
  case (Suc fuel)
  let ?m1 = "data_of rt"
  note w = pendingD(6) [OF P]
  have cw: "tree_wf (data_of (manager rc)) r" "cur \<in> dom (data_of (manager rc))"
    "card (dom (data_of (manager rc))) < 2 ^ 64" "cache_ok (data_of (manager rc)) (subTreeSizesCache rc)"
    using w Suc.prems big by simp_all
  obtain S where S: "countSubtrees rc cur = Inr (rc\<lparr>subTreeSizesCache := S\<rparr>)" "cache_ok ?m1 S" "cur \<in> dom (map_of S)"
    using countSubtrees_ok [OF cw] Suc.prems(1) by auto
  let ?rc = "rc\<lparr>subTreeSizesCache := S\<rparr>"
  have cnt: "count_at S cur = of_nat (siz ?m1 cur)" by (rule cache_ok_count [OF S(2,3)])
  have iv: "interval rt cur = Inr (Some (ivl ?m1 cur))" by (rule interval_ivl [OF w Suc.prems(4)])
  have rm: "manager rc = rt" "manager ?rc = rt" using Suc.prems(1) by simp_all
  note fits = pending_fits [OF P big Suc.prems(4)]
  show ?case
  proof (cases "int (siz ?m1 cur) \<le> width (ivl ?m1 cur)")
    case True
    then have eq: "reindexIntervals_loop (Suc fuel) rc R cur = propagateInterval ?rc cur"
      using iv S(1) cnt fits rm by (simp add: Let_def)
    have "cur \<noteq> c" using True pendingD(4,9,14) [OF P] by auto
    then have cm: "cur \<in> dom m" "anc m cur p"
      using Suc.prems(3,4) pendingD(3,7) [OF P] anc_dom [OF validD(1) [OF pendingD(1) [OF P]], of cur c]
      unfolding pending_anc [OF P] by auto
    obtain rt' S' where pr: "propagateInterval ?rc cur = Inr \<lparr>manager = rt', subTreeSizesCache = S'\<rparr>" "frame rt rt'"
       "relab ?m1 (data_of rt') (sub ?m1 cur - {cur})" "\<forall>x \<in> sub ?m1 cur. node_ok (data_of rt') x"
      using propagateInterval_ok [of ?rc r cur] w Suc.prems(4) big S(2) True fits(2) rm by auto
    have "valid (data_of rt') r" by (rule pending_relab_valid [OF P cm pr(3,4)])
    then show ?thesis using eq pr(1,2) relabD(1) [OF pr(3)] by (auto simp: reindexed_def)
  next
    case False
    then have nf: "\<not> of_nat (siz ?m1 cur) \<le> intervalSize (ivl ?m1 cur)" using fits by simp
    show ?thesis
    proof (cases "cur = R")
      case True
      then have "anc m R p" using Suc.prems(3) R pendingD(3) [OF P] anc_dom [OF validD(1) [OF pendingD(1) [OF P]], of R c]
        unfolding pending_anc [OF P] by auto
      then show ?thesis using False True pendingD(8) [OF P R] by auto
    next
      case nR: False
      then have naR: "\<not> anc m cur R" using Suc.prems(5) by blast
      have "cur \<noteq> r" using naR tree_wfD(7) [OF validD(1) [OF pendingD(1) [OF P]] R] by blast
      moreover have "anc ?m1 r cur" by (rule tree_wfD(7) [OF w Suc.prems(4)])
      ultimately obtain q where q: "(q, cur) \<in> edges ?m1" unfolding anc_def by (metis rtranclE)
      have pq: "par ?m1 cur = Some q" using q tree_wfD(6) [OF w] by simp
      have qd1: "q \<in> dom ?m1" by (rule edge_dom [OF q])
      have "q \<noteq> c" using q pendingD(10) [OF P] by (auto simp: edges_iff)
      then have qd: "q \<in> dom m" using qd1 pendingD(7) [OF P] by blast
      have st: "isStrictAncestorOf rt q R = Inr (q \<noteq> R \<and> anc m q R)"
        using pending_IsAncestor [OF P qd R] by (simp add: isStrictAncestorOf_def)
      have step: "reindexIntervals_loop (Suc fuel) rc R cur =
         (if q \<noteq> R \<and> anc m q R then reindexIntervalsEarlierThanRoot ?rc cur R q (of_nat (siz ?m1 cur))
          else reindexIntervals_loop fuel ?rc R q)"
        using iv S(1) cnt nf rm nR pq st by (simp add: Let_def parent_par [OF Suc.prems(4)])
      have qc: "anc ?m1 q c" by (rule anc_trans [OF anc_edge [OF q] Suc.prems(3)])
      show ?thesis
      proof (cases "q \<noteq> R \<and> anc m q R")
        case True
        have "R \<noteq> c" using R pendingD(3) [OF P] by blast
        then have "\<not> anc ?m1 cur R" using naR unfolding pending_anc [OF P] by blast
        moreover have "reindexIntervals_loop (Suc fuel) rc R cur
            = reindexIntervalsEarlierThanRoot ?rc cur R q (of_nat (siz ?m1 cur))"
          using True unfolding step by (rule if_P)
        ultimately show ?thesis
          by (intro disjI2 exI [of _ ?rc] exI [of _ cur] exI [of _ q] conjI)
            (use True rm S(2) Suc.prems(3) q qd False in simp_all)
      next
        case F: False
        have "siz ?m1 r - siz ?m1 q < fuel"
          using Suc.prems(6) siz_edge [OF w q] siz_anc [OF w tree_wfD(7) [OF w qd1]] by linarith
        then show ?thesis
          using Suc.IH [of ?rc q] rm S(2) qc qd1 F step by auto
      qed
    qed
  qed
qed simp

end
