(* ===== verification/Reachability_Siblings.thy ===== *)
theory Reachability_Siblings
  imports Reachability_Reindexing
begin

text \<open>
  \<^verbatim>\<open>offsetSiblingsBefore\<close> and \<^verbatim>\<open>offsetSiblingsAfter\<close> of \<^verbatim>\<open>reindex_context.go\<close>: moving the siblings
  next to a block whose interval was cut, so that the space reaches the block that asked for it.
\<close>

section \<open>Layout outside a subtree\<close>

text \<open>Like \<open>chained\<close>, but an interval may be empty.\<close>

fun wchained :: "int \<Rightarrow> int \<Rightarrow> ReachabilityInterval list \<Rightarrow> bool" where
  "wchained x y [] = True"
| "wchained x y (i # is) = (x \<le> ilo i \<and> ilo i \<le> ihi i + 1 \<and> ihi i \<le> y \<and> wchained (ihi i + 1) y is)"

lemma chained_wchained: "chained x y is \<longleftrightarrow> wchained x y is \<and> (\<forall>i \<in> set is. ilo i \<le> ihi i)"
  by (induction "is" arbitrary: x) auto

lemma wchained_append:
  "wchained x y (xs @ ys) \<longleftrightarrow> wchained x y xs \<and> wchained (if xs = [] then x else ihi (last xs) + 1) y ys"
  by (induction xs arbitrary: x) auto

lemma wchained_mem:
  "wchained x y is \<Longrightarrow> i \<in> set is \<Longrightarrow> x \<le> ilo i \<and> ilo i \<le> ihi i + 1 \<and> ihi i \<le> y"
proof (induction "is" arbitrary: x)
  case (Cons j "is")
  then show ?case by (cases "i = j") fastforce+
qed simp

definition wok :: "tree \<Rightarrow> DomainHash \<Rightarrow> bool" where
  "wok m h \<longleftrightarrow> ilo (ivl m h) \<le> ihi (ivl m h)
     \<and> wchained (ilo (ivl m h)) (ihi (ivl m h) - 1) (map (ivl m) (kids m h))"

text \<open>\<open>lay m r a\<close>: the tree is laid out, except possibly inside the subtree of \<open>a\<close>.\<close>

definition lay :: "tree \<Rightarrow> DomainHash \<Rightarrow> DomainHash \<Rightarrow> bool" where
  "lay m r a \<longleftrightarrow> tree_wf m r \<and> (\<forall>h \<in> dom m. h \<notin> sub m a \<longrightarrow> wok m h)
     \<and> 1 \<le> ilo (ivl m r) \<and> ihi (ivl m r) \<le> 2 ^ 64 - 2 \<and> r \<notin> sub m a"

lemma layD:
  assumes "lay m r a"
  shows "tree_wf m r" "\<And>h. h \<in> dom m \<Longrightarrow> h \<notin> sub m a \<Longrightarrow> wok m h"
    "1 \<le> ilo (ivl m r)" "ihi (ivl m r) \<le> 2 ^ 64 - 2" "r \<notin> sub m a"
  using assms by (auto simp: lay_def)

lemma sub_child: "(h, c) \<in> edges m \<Longrightarrow> h \<in> sub m a \<Longrightarrow> c \<in> sub m a"
  by (metis anc_edge anc_trans mem_Collect_eq sub_def)

lemma sub_trans: "b \<in> sub m a \<Longrightarrow> c \<in> sub m b \<Longrightarrow> c \<in> sub m a"
  by (metis anc_trans mem_Collect_eq sub_def)

lemma lay_edge:
  assumes "lay m r a" "(h, c) \<in> edges m" "h \<notin> sub m a"
  shows "ilo (ivl m h) \<le> ilo (ivl m c)" "ihi (ivl m c) < ihi (ivl m h)" "ilo (ivl m c) \<le> ihi (ivl m c) + 1"
proof -
  have "wok m h" using layD(2) [OF assms(1) edge_dom [OF assms(2)] assms(3)] .
  then have "wchained (ilo (ivl m h)) (ihi (ivl m h) - 1) (map (ivl m) (kids m h))" by (simp add: wok_def)
  moreover have "ivl m c \<in> set (map (ivl m) (kids m h))" using assms(2) by (auto simp: edges_iff)
  ultimately show "ilo (ivl m h) \<le> ilo (ivl m c)" "ihi (ivl m c) < ihi (ivl m h)" "ilo (ivl m c) \<le> ihi (ivl m c) + 1"
    using wchained_mem by fastforce+
qed

lemma lay_bounds:
  assumes l: "lay m r a" and h: "h \<in> dom m" "h \<notin> sub m a"
  shows "1 \<le> ilo (ivl m h)" "ilo (ivl m h) \<le> ihi (ivl m h)" "ihi (ivl m h) \<le> 2 ^ 64 - 2"
proof -
  have "(r, h) \<in> (edges m)\<^sup>*" using tree_wfD(7) [OF layD(1) [OF l] h(1)] by (simp add: anc_def)
  then have "h \<notin> sub m a \<longrightarrow> 1 \<le> ilo (ivl m h) \<and> ihi (ivl m h) \<le> 2 ^ 64 - 2"
  proof (induction rule: rtrancl_induct)
    case base
    then show ?case using layD(3,4) [OF l] by simp
  next
    case (step y z)
    show ?case
    proof
      assume "z \<notin> sub m a"
      then have "y \<notin> sub m a" using sub_child [OF step.hyps(2)] by blast
      then show "1 \<le> ilo (ivl m z) \<and> ihi (ivl m z) \<le> 2 ^ 64 - 2"
        using step.IH lay_edge [OF l step.hyps(2)] by linarith
    qed
  qed
  then show "1 \<le> ilo (ivl m h)" "ihi (ivl m h) \<le> 2 ^ 64 - 2" using h by auto
  show "ilo (ivl m h) \<le> ihi (ivl m h)" using layD(2) [OF l h] by (simp add: wok_def)
qed

lemma lay_node_ok:
  assumes l: "lay m r a" and h: "h \<in> dom m" "h \<notin> sub m a" "a \<notin> set (kids m h)"
  shows "node_ok m h"
proof -
  have "ilo (ivl m c) \<le> ihi (ivl m c)" if c: "c \<in> set (kids m h)" for c
  proof -
    have e: "(h, c) \<in> edges m" using c by (simp add: edges_iff)
    have "c \<noteq> a" using c h(3) by blast
    have "c \<notin> sub m a"
    proof
      assume "c \<in> sub m a"
      then have "anc m a c" by (simp add: sub_def)
      then obtain y where "anc m a y" "(y, c) \<in> edges m" using \<open>c \<noteq> a\<close> unfolding anc_def by (metis rtranclE)
      then show False using e h(2) tree_wfD(6) [OF layD(1) [OF l]] by (metis mem_Collect_eq option.inject sub_def)
    qed
    then show ?thesis using lay_bounds(2) [OF l tree_wfD(5) [OF layD(1) [OF l] e]] by blast
  qed
  then show ?thesis using layD(2) [OF l h(1,2)] by (simp add: node_ok_def wok_def chained_wchained)
qed

text \<open>A laid out subtree fits its interval.\<close>

lemma chained_width:
  "chained x y is \<Longrightarrow> sum_list (map width is) \<le> (if is = [] then 0 else y - x + 1)"
proof (induction "is" arbitrary: x)
  case (Cons i "is")
  then have "sum_list (map width is) \<le> (if is = [] then 0 else y - (ihi i + 1) + 1)" by simp
  then show ?case using Cons.prems by (auto simp: width_def [of i] split: if_splits)
qed simp

lemma siz_le_width:
  assumes w: "tree_wf m r" and h: "h \<in> dom m" and ok: "\<And>x. x \<in> sub m h \<Longrightarrow> node_ok m x"
  shows "int (siz m h) \<le> width (ivl m h)"
  using w h ok
proof (induction rule: sub_induct)
  case (node h)
  have k: "int (siz m c) \<le> width (ivl m c)" if c: "c \<in> set (kids m h)" for c
  proof -
    have "c \<in> sub m h" using c anc_edge [of h c m] by (simp add: sub_def edges_iff)
    then show ?thesis using node.IH [OF c] node.prems sub_trans by blast
  qed
  have ok: "node_ok m h" using node.prems by simp
  have "(\<Sum>c\<leftarrow>kids m h. int (siz m c)) \<le> (\<Sum>c\<leftarrow>kids m h. width (ivl m c))"
    using k by (intro sum_list_mono) auto
  also have "\<dots> \<le> (if kids m h = [] then 0 else ihi (ivl m h) - 1 - ilo (ivl m h) + 1)"
    using chained_width [of "ilo (ivl m h)" "ihi (ivl m h) - 1" "map (ivl m) (kids m h)"] ok
    by (simp add: node_ok_def o_def split: if_splits)
  finally show ?case
    using siz_unfold [OF w node.hyps] ok by (auto simp: sum_list_int node_ok_def width_def split: if_splits)
qed

section \<open>Moving siblings\<close>

text \<open>
  The two loops over siblings differ only in how they move an interval: \<open>f\<close> moves a sibling, \<open>e\<close>
  extends the block \<open>a\<close> that asked for room.
\<close>

primrec offset_loop ::
    "(ReachabilityInterval \<Rightarrow> ReachabilityInterval) \<Rightarrow> (ReachabilityInterval \<Rightarrow> ReachabilityInterval)
     \<Rightarrow> reindexContext \<Rightarrow> DomainHash \<Rightarrow> DomainHash list \<Rightarrow> (dag_error, reindexContext) result" where
  "offset_loop f e rc a [] = Inr rc"
| "offset_loop f e rc a (z # zs) =
     (if z = a
      then rbind (interval (manager rc) a) (\<lambda>p. rbind (deref p) (\<lambda>i.
           rbind (rc_stageInterval rc a (e i)) (\<lambda>rc'. propagateInterval rc' a)))
      else rbind (interval (manager rc) z) (\<lambda>p. rbind (deref p) (\<lambda>i.
           rbind (rc_stageInterval rc z (f i)) (\<lambda>rc'.
           rbind (propagateInterval rc' z) (\<lambda>rc''. offset_loop f e rc'' a zs)))))"

lemma offset_loops:
  "offsetSiblingsBefore_loop rc a zs off
     = offset_loop (\<lambda>i. intervalIncrease i off) (\<lambda>i. intervalIncreaseEnd i off) rc a zs"
  "offsetSiblingsAfter_loop rc a zs off
     = offset_loop (\<lambda>i. intervalDecrease i off) (\<lambda>i. intervalDecreaseStart i off) rc a zs"
  by (induction zs arbitrary: rc) simp_all

text \<open>Giving a block a new interval that is large enough, and laying out its subtree in it.\<close>

lemma stage_propagate_ok:
  assumes w: "tree_wf (data_of (manager rc)) r" and z: "z \<in> dom (data_of (manager rc))"
    and big: "card (dom (data_of (manager rc))) < 2 ^ 64"
    and c: "cache_ok (data_of (manager rc)) (subTreeSizesCache rc)"
    and fit: "int (siz (data_of (manager rc)) z) \<le> width j" and wd: "width j < 2 ^ 64"
  shows "\<exists>rc'. rbind (rc_stageInterval rc z j) (\<lambda>rc'. propagateInterval rc' z) = Inr rc'
     \<and> frame (manager rc) (manager rc') \<and> cache_ok (data_of (manager rc')) (subTreeSizesCache rc')
     \<and> relab (data_of (manager rc)) (data_of (manager rc')) (sub (data_of (manager rc)) z)
     \<and> ivl (data_of (manager rc')) z = j
     \<and> (\<forall>x \<in> sub (data_of (manager rc)) z. node_ok (data_of (manager rc')) x)"
proof -
  let ?m = "data_of (manager rc)"
  obtain rt1 where s: "rc_stageInterval rc z j = Inr (rc\<lparr>manager := rt1\<rparr>)" "frame (manager rc) rt1"
     "relab ?m (data_of rt1) {z}" "ivl (data_of rt1) z = j"
    using rc_stageInterval_ok [OF w z] by blast
  let ?rc = "rc\<lparr>manager := rt1\<rparr>"
  note sh = same_shapeD [OF relabD(1) [OF s(3)]]
  obtain rt2 S2 where p: "propagateInterval ?rc z = Inr \<lparr>manager = rt2, subTreeSizesCache = S2\<rparr>" "frame rt1 rt2"
     "cache_ok (data_of rt2) S2" "relab (data_of rt1) (data_of rt2) (sub ?m z - {z})"
     "\<forall>x \<in> sub ?m z. node_ok (data_of rt2) x"
    using propagateInterval_ok [of ?rc r z] relab_wf [OF s(3) w] z big c fit wd s(4) sh by auto
  have "relab ?m (data_of rt2) (sub ?m z)"
    using relab_mono [OF relab_trans [OF s(3) p(4)], of "sub ?m z"] by auto
  moreover have "ivl (data_of rt2) z = j" using relabD(2) [OF p(4), of z] s(4) by simp
  ultimately show ?thesis
    using s(1) p frame_trans [OF s(2) p(2)]
    by (intro exI [of _ "\<lparr>manager = rt2, subTreeSizesCache = S2\<rparr>"]) simp
qed

text \<open>The blocks that the loop moves: those before \<open>a\<close> in the list, and \<open>a\<close> itself.\<close>

definition moved :: "DomainHash \<Rightarrow> DomainHash list \<Rightarrow> DomainHash set" where
  "moved a zs = set (takeWhile (\<lambda>z. z \<noteq> a) zs) \<union> ({a} \<inter> set zs)"

lemma moved_Cons [simp]: "moved a (z # zs) = insert z (if z = a then {} else moved a zs)"
  by (auto simp: moved_def)

lemma moved_subset: "moved a zs \<subseteq> set zs"
  by (auto simp: moved_def dest: set_takeWhileD)

lemma offset_loop_ok:
  assumes w: "tree_wf m r" and big: "card (dom m) < 2 ^ 64"
    and zs: "distinct zs" "set zs \<subseteq> dom m" "\<And>z z'. z \<in> set zs \<Longrightarrow> z' \<in> set zs \<Longrightarrow> z \<noteq> z' \<Longrightarrow> z' \<notin> sub m z"
    and fit: "\<And>z. z \<in> moved a zs \<Longrightarrow> int (siz m z) \<le> width (if z = a then e (ivl m z) else f (ivl m z))"
    and wd: "\<And>z. z \<in> moved a zs \<Longrightarrow> width (if z = a then e (ivl m z) else f (ivl m z)) < 2 ^ 64"
    and rc: "same_shape m (data_of (manager rc))" "tree_wf (data_of (manager rc)) r"
      "\<And>z. z \<in> set zs \<Longrightarrow> ivl (data_of (manager rc)) z = ivl m z"
      "cache_ok m (subTreeSizesCache rc)"
  shows "\<exists>rc'. offset_loop f e rc a zs = Inr rc' \<and> frame (manager rc) (manager rc')
     \<and> cache_ok m (subTreeSizesCache rc')
     \<and> relab (data_of (manager rc)) (data_of (manager rc')) (\<Union>z \<in> moved a zs. sub m z)
     \<and> (\<forall>z \<in> moved a zs. ivl (data_of (manager rc')) z = (if z = a then e (ivl m z) else f (ivl m z)))
     \<and> (\<forall>z \<in> moved a zs. \<forall>x \<in> sub m z. node_ok (data_of (manager rc')) x)"
  using zs fit wd rc
proof (induction zs arbitrary: rc)
  case Nil
  then show ?case using relab_refl [OF Nil.prems(7)] by (simp add: moved_def)
next
  case (Cons z zs)
  let ?m = "data_of (manager rc)"
  note sh = same_shapeD [OF Cons.prems(6)]
  let ?j = "if z = a then e (ivl m z) else f (ivl m z)"
  have z: "z \<in> dom ?m" "z \<in> dom m" using Cons.prems(2) sh by auto
  have iz: "interval (manager rc) z = Inr (Some (ivl m z))"
    using interval_ivl [OF Cons.prems(7) z(1)] Cons.prems(8) by simp
  have "int (siz m z) \<le> width ?j" "width ?j < 2 ^ 64" using Cons.prems(4,5) [of z] by simp_all
  then obtain rc1 where s: "rbind (rc_stageInterval rc z ?j) (\<lambda>rc'. propagateInterval rc' z) = Inr rc1"
     "frame (manager rc) (manager rc1)" "cache_ok m (subTreeSizesCache rc1)"
     "relab ?m (data_of (manager rc1)) (sub m z)" "ivl (data_of (manager rc1)) z = ?j"
     "\<forall>x \<in> sub m z. node_ok (data_of (manager rc1)) x"
    using stage_propagate_ok [OF Cons.prems(7) z(1), of ?j] big Cons.prems(9) sh
      same_shapeD(9) [OF relabD(1)] by (metis (no_types, lifting))
  show ?case
  proof (cases "z = a")
    case True
    then show ?thesis using s iz by (intro exI [of _ rc1]) simp
  next
    case False
    have step: "offset_loop f e rc a (z # zs) = offset_loop f e rc1 a zs"
      using s(1) False iz by (auto simp: rbind_Inr_iff)
    have sh1: "same_shape m (data_of (manager rc1))"
      by (rule same_shape_trans [OF Cons.prems(6) relabD(1) [OF s(4)]])
    have wf1: "tree_wf (data_of (manager rc1)) r" by (rule relab_wf [OF s(4) Cons.prems(7)])
    have iv1: "ivl (data_of (manager rc1)) z' = ivl m z'" if "z' \<in> set zs" for z'
      using relabD(2) [OF s(4), of z'] Cons.prems(3) [of z z'] Cons.prems(1,8) that by fastforce
    obtain rc2 where t: "offset_loop f e rc1 a zs = Inr rc2" "frame (manager rc1) (manager rc2)"
      "cache_ok m (subTreeSizesCache rc2)"
      "relab (data_of (manager rc1)) (data_of (manager rc2)) (\<Union>z \<in> moved a zs. sub m z)"
      "\<forall>z \<in> moved a zs. ivl (data_of (manager rc2)) z = (if z = a then e (ivl m z) else f (ivl m z))"
      "\<forall>z \<in> moved a zs. \<forall>x \<in> sub m z. node_ok (data_of (manager rc2)) x"
      using Cons.IH [OF _ _ _ _ _ sh1 wf1 iv1 s(3)] Cons.prems(1-5) False by auto
    have dis: "sub m z \<inter> sub m z' = {}" if "z' \<in> set zs" for z'
    proof (rule ccontr)
      assume "sub m z \<inter> sub m z' \<noteq> {}"
      then obtain x where "anc m z x" "anc m z' x" by (auto simp: sub_def)
      then have "z' \<in> sub m z \<or> z \<in> sub m z'" using anc_chain [OF w] by (auto simp: sub_def)
      then show False using Cons.prems(3) [of z z'] Cons.prems(3) [of z' z] Cons.prems(1) that by auto
    qed
    have far: "x \<notin> (\<Union>z \<in> moved a zs. sub m z)" if "x \<in> sub m z" for x
      using dis moved_subset [of a zs] that by blast
    have "node_ok (data_of (manager rc2)) x" if x: "x \<in> sub m z" for x
    proof (rule node_ok_frame [OF t(4)])
      show "node_ok (data_of (manager rc1)) x" using s(6) x by blast
      show "x \<notin> (\<Union>z \<in> moved a zs. sub m z)" by (rule far [OF x])
      have "set (kids m x) \<subseteq> sub m z" using x sub_child [of x _ m z] by (auto simp: edges_iff)
      then show "set (kids (data_of (manager rc1)) x) \<inter> (\<Union>z \<in> moved a zs. sub m z) = {}"
        using far same_shapeD(2) [OF sh1] by auto
    qed
    moreover have "ivl (data_of (manager rc2)) z = ?j" using relabD(2) [OF t(4) far [OF sub_self]] s(5) by simp
    moreover have "relab ?m (data_of (manager rc2)) (\<Union>z \<in> moved a (z # zs). sub m z)"
      using relab_trans [OF s(4) t(4)] False by simp
    ultimately show ?thesis
      using step t frame_trans [OF s(2) t(2)] False by (intro exI [of _ rc2]) auto
  qed
qed

lemma wok_frame:
  assumes "relab m m' A" "wok m x" "x \<notin> A" "set (kids m x) \<inter> A = {}"
  shows "wok m' x"
proof -
  have "map (ivl m') (kids m x) = map (ivl m) (kids m x)"
    using relabD(2) [OF assms(1)] assms(4) by (intro map_cong) auto
  then show ?thesis
    using assms(2) unfolding wok_def relabD(2) [OF assms(1) assms(3)] same_shapeD(2) [OF relabD(1) [OF assms(1)]]
    by (simp only:)
qed

lemma node_ok_wok: "node_ok m x \<Longrightarrow> wok m x"
  by (simp add: node_ok_def wok_def chained_wchained)

lemma lay_valid:
  assumes l: "lay m r a" and a: "a \<in> dom m" and ok: "\<And>x. x \<in> sub m a \<Longrightarrow> node_ok m x"
  shows "valid m r"
proof -
  note w = layD(1) [OF l]
  have ne: "ilo (ivl m k) \<le> ihi (ivl m k)" if "k \<in> dom m" for k
    using lay_bounds(2) [OF l that] ok [of k] by (cases "k \<in> sub m a") (auto simp: node_ok_def)
  have "node_ok m h" if h: "h \<in> dom m" for h
  proof (cases "h \<in> sub m a")
    case False
    have "wok m h" by (rule layD(2) [OF l h False])
    moreover have "ilo (ivl m k) \<le> ihi (ivl m k)" if "k \<in> set (kids m h)" for k
      using ne tree_wfD(5) [OF w, of h k] that by (simp add: edges_iff)
    ultimately show ?thesis by (simp add: wok_def node_ok_def chained_wchained)
  qed (rule ok)
  then show ?thesis using w layD(3,4) [OF l] by (simp add: valid_def)
qed

text \<open>
  Moving some children of \<open>g\<close> together with their subtrees: if their subtrees and the row of
  children are laid out again, so is the whole tree.
\<close>

lemma siblings_relab:
  assumes l: "lay m r a" and a: "a \<in> dom m" and g: "g \<in> dom m" "g \<notin> sub m a" and K: "K \<subseteq> set (kids m g)"
    and rl: "relab m m' (\<Union>z \<in> K. sub m z)" and ok: "\<And>z x. z \<in> K \<Longrightarrow> x \<in> sub m z \<Longrightarrow> node_ok m' x"
    and row: "wok m' g"
  shows "lay m' r a" "a \<in> K \<Longrightarrow> valid m' r" "relab m m' (sub m g - {g})"
proof -
  note w = layD(1) [OF l]
  note sh = same_shapeD [OF relabD(1) [OF rl]]
  have e: "(g, z) \<in> edges m" if "z \<in> K" for z using K that by (auto simp: edges_iff)
  have outer: "h = g \<or> h \<in> sub m z" if t: "z \<in> K" "(h, x) \<in> edges m" "x \<in> sub m z" for h x z
  proof (cases "x = z")
    case True
    then show ?thesis using e [OF t(1)] t(2) tree_wfD(6) [OF w] by (metis option.inject)
  next
    case False
    then obtain y where "anc m z y" "(y, x) \<in> edges m"
      using t(3) unfolding sub_def anc_def by (metis mem_Collect_eq rtranclE)
    then show ?thesis using t(2) tree_wfD(6) [OF w] by (metis mem_Collect_eq option.inject sub_def)
  qed
  have wokh: "wok m' h" if h: "h \<in> dom m" "h \<notin> sub m a" for h
  proof (cases "h \<in> (\<Union>z \<in> K. sub m z)")
    case True
    then show ?thesis using ok node_ok_wok by blast
  next
    case False
    show ?thesis
    proof (cases "h = g")
      case nG: False
      have "set (kids m h) \<inter> (\<Union>z \<in> K. sub m z) = {}"
        using outer [of _ h] False nG by (auto simp: edges_iff)
      then show ?thesis using wok_frame [OF rl layD(2) [OF l h] False] by blast
    qed (use row in simp)
  qed
  have "r \<notin> (\<Union>z \<in> K. sub m z)"
  proof
    assume "r \<in> (\<Union>z \<in> K. sub m z)"
    then obtain z where z: "z \<in> K" "anc m z r" by (auto simp: sub_def)
    then have "(\<exists>y. (y, r) \<in> edges m)" using e [OF z(1)] unfolding anc_def by (metis rtranclE)
    then show False using tree_wfD(3,6) [OF w] by simp
  qed
  then have r: "ivl m' r = ivl m r" by (rule relabD(2) [OF rl])
  show lay: "lay m' r a"
    unfolding lay_def sh r using relab_wf [OF rl w] wokh layD(3,4,5) [OF l] by blast
  show "valid m' r" if "a \<in> K"
  proof (rule lay_valid [OF lay])
    show "a \<in> dom m'" using a by (simp add: sh)
    show "node_ok m' x" if "x \<in> sub m' a" for x using ok [OF \<open>a \<in> K\<close>] that by (simp add: sh)
  qed
  have "(\<Union>z \<in> K. sub m z) \<subseteq> sub m g - {g}"
    using e sub_not_above [OF w e] anc_edge anc_trans by (fastforce simp: sub_def)
  then show "relab m m' (sub m g - {g})" by (rule relab_mono [OF rl])
qed

text \<open>Rows of children, cut at one of them.\<close>

lemma wchained_cut:
  "wchained x y (xs @ p # ys) \<longleftrightarrow> wchained x (ilo p - 1) xs \<and> x \<le> ilo p \<and> ilo p \<le> ihi p + 1 \<and> ihi p \<le> y
     \<and> wchained (ihi p + 1) y ys"
proof (induction xs arbitrary: x)
  case (Cons i xs)
  show ?case
  proof (cases xs)
    case Nil
    then show ?thesis by auto
  next
    case (Cons j xs')
    then show ?thesis using Cons.IH [of "ihi i + 1"] by auto
  qed
qed simp

lemma wchained_mono: "wchained x y is \<Longrightarrow> x' \<le> x \<Longrightarrow> y \<le> y' \<Longrightarrow> wchained x' y' is"
  by (induction "is" arbitrary: x x') force+

lemma wchained_shift:
  assumes "\<And>i. i \<in> set is \<Longrightarrow> ilo (f i) = ilo i + d \<and> ihi (f i) = ihi i + d"
  shows "wchained x y is \<Longrightarrow> wchained (x + d) (y + d) (map f is)"
  using assms
proof (induction "is" arbitrary: x)
  case (Cons i "is")
  then have "wchained (ihi i + 1 + d) (y + d) (map f is)" by simp
  then show ?case using Cons.prems by (simp add: algebra_simps)
qed simp

lemma splitAtPivot_ok: "p \<notin> set xs \<Longrightarrow> splitAtPivot bs (xs @ p # ys) p = Inr (bs @ xs, ys)"
  by (induction xs arbitrary: bs) auto

lemma moved_all: "a \<notin> set zs \<Longrightarrow> moved a zs = set zs"
  by (induction zs) (auto simp: moved_def)

lemma moved_upto: "a \<notin> set zs \<Longrightarrow> moved a (zs @ a # ys) = insert a (set zs)"
  by (induction zs) (auto simp: moved_def)

lemma sibling_not_sub:
  assumes w: "tree_wf m r" and "(g, z) \<in> edges m" "(g, z') \<in> edges m" "z \<noteq> z'"
  shows "z' \<notin> sub m z"
  using sub_disjoint [OF assms] sub_self [of z' m] by blast

text \<open>A sibling that does not contain \<open>a\<close> is laid out and fits its interval.\<close>

lemma lay_siz:
  assumes l: "lay m r a" and z: "z \<in> dom m" and na: "sub m z \<inter> sub m a = {}"
  shows "int (siz m z) \<le> width (ivl m z)" "\<And>x. x \<in> sub m z \<Longrightarrow> node_ok m x"
proof -
  note w = layD(1) [OF l]
  show ok: "node_ok m x" if x: "x \<in> sub m z" for x
  proof (rule lay_node_ok [OF l])
    show "x \<in> dom m" using x sub_dom [OF w z] by blast
    show "x \<notin> sub m a" using x na by blast
    have "k \<in> sub m z" if "k \<in> set (kids m x)" for k
      using sub_child [OF _ x, of k] that by (simp add: edges_iff)
    then show "a \<notin> set (kids m x)" using na sub_self [of a m] by blast
  qed
  show "int (siz m z) \<le> width (ivl m z)" by (rule siz_le_width [OF w z ok])
qed

text \<open>
  Moving siblings of \<open>p\<close> after \<open>p\<close> itself has been laid out again: what changes, and what does not.
\<close>

lemma move_siblings:
  assumes w: "tree_wf m r" and big: "card (dom m) < 2 ^ 64" and gp: "(g, p) \<in> edges m"
    and zs: "distinct zs" "set zs \<subseteq> set (kids m g) - {p}"
    and rl: "relab m (data_of (manager rc)) (sub m p)"
    and ok: "\<And>x. x \<in> sub m p \<Longrightarrow> node_ok (data_of (manager rc)) x"
    and c: "cache_ok m (subTreeSizesCache rc)"
    and fit: "\<And>z. z \<in> set zs \<Longrightarrow> int (siz m z) \<le> width (if z = a then e (ivl m z) else f (ivl m z))"
    and wd: "\<And>z. z \<in> set zs \<Longrightarrow> width (if z = a then e (ivl m z) else f (ivl m z)) < 2 ^ 64"
  shows "\<exists>rc'. offset_loop f e rc a zs = Inr rc' \<and> frame (manager rc) (manager rc')
     \<and> cache_ok m (subTreeSizesCache rc')
     \<and> relab m (data_of (manager rc')) (\<Union>z \<in> insert p (moved a zs). sub m z)
     \<and> (\<forall>z \<in> moved a zs. ivl (data_of (manager rc')) z = (if z = a then e (ivl m z) else f (ivl m z)))
     \<and> ivl (data_of (manager rc')) p = ivl (data_of (manager rc)) p \<and> ivl (data_of (manager rc')) g = ivl m g
     \<and> (\<forall>z \<in> set (kids m g) - insert p (moved a zs). ivl (data_of (manager rc')) z = ivl m z)
     \<and> (\<forall>z \<in> insert p (moved a zs). \<forall>x \<in> sub m z. node_ok (data_of (manager rc')) x)"
proof -
  let ?m2 = "data_of (manager rc)" and ?M = "moved a zs"
  let ?j = "\<lambda>z. if z = a then e (ivl m z) else f (ivl m z)"
  note sh2 = same_shapeD [OF relabD(1) [OF rl]]
  have ez: "(g, z) \<in> edges m" "z \<in> dom m" "z \<noteq> p" if "z \<in> set zs" for z
  proof -
    show e: "(g, z) \<in> edges m" and "z \<noteq> p" using zs(2) that by (auto simp: edges_iff)
    show "z \<in> dom m" by (rule tree_wfD(5) [OF w e])
  qed
  have Mz: "?M \<subseteq> set zs" by (rule moved_subset)
  have "\<exists>rc'. offset_loop f e rc a zs = Inr rc' \<and> frame (manager rc) (manager rc')
     \<and> cache_ok m (subTreeSizesCache rc')
     \<and> relab ?m2 (data_of (manager rc')) (\<Union>z \<in> ?M. sub m z)
     \<and> (\<forall>z \<in> ?M. ivl (data_of (manager rc')) z = ?j z)
     \<and> (\<forall>z \<in> ?M. \<forall>x \<in> sub m z. node_ok (data_of (manager rc')) x)"
  proof (rule offset_loop_ok [OF w big])
    show "distinct zs" "set zs \<subseteq> dom m" using zs(1) ez(2) by blast+
    show "z' \<notin> sub m z" if "z \<in> set zs" "z' \<in> set zs" "z \<noteq> z'" for z z'
      by (rule sibling_not_sub [OF w ez(1) [OF that(1)] ez(1) [OF that(2)] that(3)])
    show "int (siz m z) \<le> width (?j z)" "width (?j z) < 2 ^ 64" if "z \<in> ?M" for z
      using fit wd Mz that by blast+
    show "same_shape m ?m2" "tree_wf ?m2 r" "cache_ok m (subTreeSizesCache rc)"
      using relabD(1) [OF rl] relab_wf [OF rl w] c by auto
    show "ivl ?m2 z = ivl m z" if "z \<in> set zs" for z
      using relabD(2) [OF rl sibling_not_sub [OF w gp ez(1) [OF that]]] ez(3) [OF that] by auto
  qed
  then obtain rc' where o: "offset_loop f e rc a zs = Inr rc'" "frame (manager rc) (manager rc')"
     "cache_ok m (subTreeSizesCache rc')" "relab ?m2 (data_of (manager rc')) (\<Union>z \<in> ?M. sub m z)"
     "\<forall>z \<in> ?M. ivl (data_of (manager rc')) z = ?j z"
     "\<And>z x. z \<in> ?M \<Longrightarrow> x \<in> sub m z \<Longrightarrow> node_ok (data_of (manager rc')) x"
    by blast
  let ?m3 = "data_of (manager rc')"
  have far: "sub m p \<inter> (\<Union>z \<in> ?M. sub m z) = {}"
    using sub_disjoint [OF w gp ez(1)] ez(3) Mz by fastforce
  have rl3: "relab m ?m3 (\<Union>z \<in> insert p ?M. sub m z)" using relab_trans [OF rl o(4)] by simp
  have p3: "ivl ?m3 p = ivl ?m2 p" using relabD(2) [OF o(4)] far sub_self [of p m] by blast
  have eK: "(g, z) \<in> edges m" if "z \<in> insert p ?M" for z using that gp ez(1) Mz by auto
  have same: "ivl ?m3 z = ivl m z" if z: "z \<in> set (kids m g) - insert p ?M" for z
  proof (rule relabD(2) [OF rl3])
    have "(g, z) \<in> edges m" using z by (simp add: edges_iff)
    then show "z \<notin> (\<Union>z \<in> insert p ?M. sub m z)" using sibling_not_sub [OF w eK] z by blast
  qed
  have g3: "ivl ?m3 g = ivl m g" using relabD(2) [OF rl3] sub_not_above [OF w eK] by blast
  have ok3: "node_ok ?m3 x" if z: "z \<in> insert p ?M" "x \<in> sub m z" for z x
  proof (cases "z = p")
    case True
    show ?thesis
    proof (rule node_ok_frame [OF o(4) ok])
      show x: "x \<in> sub m p" using z True by simp
      then show "x \<notin> (\<Union>z \<in> ?M. sub m z)" using far by blast
      have "set (kids m x) \<subseteq> sub m p" using x sub_child [of x _ m p] by (auto simp: edges_iff)
      then show "set (kids ?m2 x) \<inter> (\<Union>z \<in> ?M. sub m z) = {}" using far sh2 by auto
    qed
  qed (use o(6) z in blast)
  show ?thesis using o(1,2,3,5) rl3 p3 g3 same ok3 by (intro exI [of _ rc']) blast
qed

lemma increase_bounds:
  assumes "ihi i + uint off < 2 ^ 64"
  shows "ihi (intervalIncreaseEnd i off) = ihi i + uint off" "ilo (intervalIncreaseEnd i off) = ilo i"
    "ilo i \<le> ihi i + 1 \<Longrightarrow> ilo i + uint off < 2 ^ 64 \<Longrightarrow>
       ilo (intervalIncrease i off) = ilo i + uint off \<and> ihi (intervalIncrease i off) = ihi i + uint off"
  using assms by (simp_all add: intervalIncreaseEnd_def intervalIncrease_def uint_plus_small)

text \<open>Siblings that do not contain \<open>a\<close>.\<close>

lemma sibling_fits:
  assumes l: "lay m r a" and z: "(g, z) \<in> edges m" "z \<noteq> a"
    and ga: "a \<in> set (kids m g) \<or> sub m g \<inter> sub m a = {}"
  shows "int (siz m z) \<le> width (ivl m z)"
proof -
  note w = layD(1) [OF l]
  have "sub m z \<inter> sub m a = {}"
  proof (cases "a \<in> set (kids m g)")
    case True
    then show ?thesis using sub_disjoint [OF w z(1) _ z(2)] by (simp add: edges_iff)
  next
    case False
    have "sub m z \<subseteq> sub m g" using z(1) anc_edge sub_trans [of z m g] by (auto simp: sub_def)
    then show ?thesis using ga False by blast
  qed
  then show ?thesis by (rule lay_siz(1) [OF l tree_wfD(5) [OF w z(1)]])
qed

lemma offsetSiblingsBefore_ok:
  assumes l: "lay m r a" and a: "a \<in> dom m" and big: "card (dom m) < 2 ^ 64"
    and kg: "kids m g = xs @ p # ys" and g: "g \<notin> sub m a" and pa: "sub m p \<inter> sub m a = {}"
    and ga: "a \<in> set xs \<or> sub m g \<inter> sub m a = {}"
    and rl: "relab m (data_of (manager rc)) (sub m p)"
    and ip: "ilo (ivl (data_of (manager rc)) p) = ilo (ivl m p) + uint off" "ihi (ivl (data_of (manager rc)) p) = ihi (ivl m p)"
    and ok: "\<And>x. x \<in> sub m p \<Longrightarrow> node_ok (data_of (manager rc)) x"
    and fa: "a \<in> set xs \<Longrightarrow> int (siz m a) \<le> width (ivl m a) + uint off"
    and c: "cache_ok m (subTreeSizesCache rc)"
  shows "\<exists>rc'. offsetSiblingsBefore rc a p off = Inr rc' \<and> frame (manager rc) (manager rc')
     \<and> cache_ok m (subTreeSizesCache rc') \<and> relab m (data_of (manager rc')) (sub m g - {g})
     \<and> (if a \<in> set xs then valid (data_of (manager rc')) r
        else lay (data_of (manager rc')) r a
          \<and> ilo (ivl (data_of (manager rc')) (hd (kids m g))) = ilo (ivl m (hd (kids m g))) + uint off)"
proof -
  note w = layD(1) [OF l]
  let ?m2 = "data_of (manager rc)"
  note sh2 = same_shapeD [OF relabD(1) [OF rl]]
  have gp: "(g, p) \<in> edges m" using kg by (simp add: edges_iff)
  have gd: "g \<in> dom m" by (rule edge_dom [OF gp])
  have pd: "p \<in> dom m" by (rule tree_wfD(5) [OF w gp])
  have dk: "distinct (xs @ p # ys)" using tree_wfD(4) [OF w gd] kg by simp
  have ex: "(g, z) \<in> edges m" if "z \<in> set xs" for z using kg that by (simp add: edges_iff)
  have pna: "p \<notin> sub m a" using pa sub_self [of p m] by blast
  have eq: "offsetSiblingsBefore rc a p off
      = offset_loop (\<lambda>i. intervalIncrease i off) (\<lambda>i. intervalIncreaseEnd i off) rc a (rev xs)"
    using gp gd pd tree_wfD(6) [OF w] dk kg
    by (simp add: offsetSiblingsBefore_def parent_par splitChildren_def children_kids splitAtPivot_ok offset_loops sh2)
  have row: "wchained (ilo (ivl m g)) (ilo (ivl m p) - 1) (map (ivl m) xs)"
      "ilo (ivl m g) \<le> ilo (ivl m p)" "ihi (ivl m p) \<le> ihi (ivl m g) - 1"
      "wchained (ihi (ivl m p) + 1) (ihi (ivl m g) - 1) (map (ivl m) ys)"
    using layD(2) [OF l gd g] by (auto simp: wok_def kg wchained_cut)
  have bp: "ilo (ivl m p) + uint off \<le> ihi (ivl m p)" "ihi (ivl m p) \<le> 2 ^ 64 - 2"
    using ok [OF sub_self] ip lay_bounds(3) [OF l pd pna] by (auto simp: node_ok_def)
  have bz: "ilo (ivl m z) \<le> ihi (ivl m z) + 1" "ihi (ivl m z) < ilo (ivl m p)" if "z \<in> set xs" for z
    using wchained_mem [OF row(1), of "ivl m z"] that by auto
  have inc: "ihi (intervalIncreaseEnd (ivl m z) off) = ihi (ivl m z) + uint off"
      "ilo (intervalIncreaseEnd (ivl m z) off) = ilo (ivl m z)"
      "ilo (intervalIncrease (ivl m z) off) = ilo (ivl m z) + uint off"
      "ihi (intervalIncrease (ivl m z) off) = ihi (ivl m z) + uint off" if z: "z \<in> set xs" for z
    using increase_bounds [of "ivl m z" off] bz [OF z] bp by auto
  let ?j = "\<lambda>z. if z = a then intervalIncreaseEnd (ivl m z) off else intervalIncrease (ivl m z) off"
  have wd: "width (?j z) < 2 ^ 64" if z: "z \<in> set (rev xs)" for z
  proof -
    have z: "z \<in> set xs" using z by simp
    have "ihi (?j z) = ihi (ivl m z) + uint off" "ilo (ivl m z) \<le> ilo (?j z)"
      using inc [OF z] uint_ge_0 [of off] by (cases "z = a"; simp)+
    then show ?thesis
      using bz [OF z] bp uint_ge_0 [of "Start (ivl m z)"] unfolding width_def by linarith
  qed
  have ga': "a \<in> set (kids m g) \<or> sub m g \<inter> sub m a = {}" using ga kg by auto
  have fit: "int (siz m z) \<le> width (?j z)" if "z \<in> set (rev xs)" for z
  proof -
    have z: "z \<in> set xs" using that by simp
    show ?thesis
      using fa z inc [OF z] sibling_fits [OF l ex [OF z] _ ga'] by (cases "z = a") (simp_all add: width_def)
  qed
  have zs: "distinct (rev xs)" "set (rev xs) \<subseteq> set (kids m g) - {p}" using dk kg by auto
  obtain rc' where o: "offset_loop (\<lambda>i. intervalIncrease i off) (\<lambda>i. intervalIncreaseEnd i off) rc a (rev xs) = Inr rc'"
     "frame (manager rc) (manager rc')" "cache_ok m (subTreeSizesCache rc')"
     "relab m (data_of (manager rc')) (\<Union>z \<in> insert p (moved a (rev xs)). sub m z)"
     "\<forall>z \<in> moved a (rev xs). ivl (data_of (manager rc')) z = ?j z"
     "ivl (data_of (manager rc')) p = ivl ?m2 p" "ivl (data_of (manager rc')) g = ivl m g"
     "\<forall>z \<in> set (kids m g) - insert p (moved a (rev xs)). ivl (data_of (manager rc')) z = ivl m z"
     "\<forall>z \<in> insert p (moved a (rev xs)). \<forall>x \<in> sub m z. node_ok (data_of (manager rc')) x"
    using move_siblings [OF w big gp zs rl ok c fit wd] by blast
  let ?m3 = "data_of (manager rc')" and ?M = "moved a (rev xs)"
  have Mx: "?M \<subseteq> set xs" using moved_subset [of a "rev xs"] by simp
  have k3: "kids ?m3 g = xs @ p # ys" using same_shapeD(2) [OF relabD(1) [OF o(4)]] kg by simp
  have ys3: "map (ivl ?m3) ys = map (ivl m) ys" using o(8) dk Mx kg by (intro map_cong) auto
  have row3: "wchained (ilo (ivl m g)) (ilo (ivl m p) + uint off - 1) (map (ivl ?m3) xs)"
  proof (cases "a \<in> set xs")
    case False
    then have M: "?M = set xs" using moved_all [of a "rev xs"] by simp
    have e: "map (ivl ?m3) xs = map (\<lambda>i. intervalIncrease i off) (map (ivl m) xs)"
      using o(5) False M by auto
    have "wchained (ilo (ivl m g) + uint off) (ilo (ivl m p) - 1 + uint off)
        (map (\<lambda>i. intervalIncrease i off) (map (ivl m) xs))"
      using inc by (intro wchained_shift [OF _ row(1)]) auto
    then show ?thesis
      unfolding e by (rule wchained_mono) (use uint_ge_0 [of off] in linarith)+
  next
    case True
    then obtain x1 x2 where x: "xs = x1 @ a # x2" by (meson split_list)
    have M: "?M = insert a (set x2)" using moved_upto [of a "rev x2" "rev x1"] dk x by simp
    have r1: "wchained (ilo (ivl m g)) (ilo (ivl m a) - 1) (map (ivl m) x1)"
      "ilo (ivl m g) \<le> ilo (ivl m a)" "ilo (ivl m a) \<le> ihi (ivl m a) + 1" "ihi (ivl m a) \<le> ilo (ivl m p) - 1"
      "wchained (ihi (ivl m a) + 1) (ilo (ivl m p) - 1) (map (ivl m) x2)"
      using row(1) by (auto simp: x wchained_cut)
    have e1: "map (ivl ?m3) x1 = map (ivl m) x1"
      using o(8) dk M kg x by (intro map_cong) auto
    have e2: "map (ivl ?m3) x2 = map (\<lambda>i. intervalIncrease i off) (map (ivl m) x2)"
      using o(5) M dk x by auto
    have "wchained (ihi (ivl m a) + 1 + uint off) (ilo (ivl m p) - 1 + uint off) (map (ivl ?m3) x2)"
      unfolding e2 using inc x by (intro wchained_shift [OF _ r1(5)]) auto
    moreover have "ivl ?m3 a = intervalIncreaseEnd (ivl m a) off" using o(5) M by simp
    moreover have "ilo (ivl m a) \<le> ihi (ivl m a) + uint off + 1" using r1(3) uint_ge_0 [of off] by linarith
    ultimately show ?thesis
      using r1(1,2,4) inc(1,2) [OF True] unfolding x map_append list.map wchained_cut e1
      by (simp add: algebra_simps)
  qed
  have "ilo (ivl m g) \<le> ilo (ivl m p) + uint off" using row(2) uint_ge_0 [of off] by linarith
  then have wg: "wok ?m3 g"
    using lay_bounds(2) [OF l gd g] row3 row(3,4) bp(1) ip o(6,7) by (simp add: wok_def k3 wchained_cut ys3)
  have K: "insert p ?M \<subseteq> set (kids m g)" using Mx kg by auto
  have ok3: "node_ok ?m3 x" if "z \<in> insert p ?M" "x \<in> sub m z" for z x using o(9) that by blast
  note R = siblings_relab [OF l a gd g K o(4) ok3 wg]
  have hd: "ilo (ivl ?m3 (hd (kids m g))) = ilo (ivl m (hd (kids m g))) + uint off" if "a \<notin> set xs"
  proof (cases xs)
    case Nil
    then show ?thesis using kg o(6) ip by simp
  next
    case (Cons z zs)
    then have z: "z \<in> set xs" "z \<in> ?M" "z \<noteq> a" using moved_all [of a "rev xs"] that by auto
    then show ?thesis using o(5) z(2) inc [OF z(1)] kg Cons by simp
  qed
  have "a \<in> set xs \<Longrightarrow> a \<in> insert p ?M" by (simp add: moved_def)
  then show ?thesis unfolding eq using o(1,2,3) R hd by (intro exI [of _ rc']) auto
qed

lemma decrease_bounds:
  assumes "uint off \<le> ilo i"
  shows "ilo (intervalDecreaseStart i off) = ilo i - uint off" "ihi (intervalDecreaseStart i off) = ihi i"
    "uint off \<le> ihi i \<Longrightarrow> ilo (intervalDecrease i off) = ilo i - uint off \<and> ihi (intervalDecrease i off) = ihi i - uint off"
  using assms by (simp_all add: intervalDecreaseStart_def intervalDecrease_def uint_sub_if')

lemma offsetSiblingsAfter_ok:
  assumes l: "lay m r a" and a: "a \<in> dom m" and big: "card (dom m) < 2 ^ 64"
    and kg: "kids m g = xs @ p # ys" and g: "g \<notin> sub m a" and pa: "sub m p \<inter> sub m a = {}"
    and ga: "a \<in> set ys \<or> sub m g \<inter> sub m a = {}"
    and rl: "relab m (data_of (manager rc)) (sub m p)"
    and ip: "ilo (ivl (data_of (manager rc)) p) = ilo (ivl m p)" "ihi (ivl (data_of (manager rc)) p) = ihi (ivl m p) - uint off"
    and ok: "\<And>x. x \<in> sub m p \<Longrightarrow> node_ok (data_of (manager rc)) x"
    and fa: "a \<in> set ys \<Longrightarrow> int (siz m a) \<le> width (ivl m a) + uint off"
    and c: "cache_ok m (subTreeSizesCache rc)"
  shows "\<exists>rc'. offsetSiblingsAfter rc a p off = Inr rc' \<and> frame (manager rc) (manager rc')
     \<and> cache_ok m (subTreeSizesCache rc') \<and> relab m (data_of (manager rc')) (sub m g - {g})
     \<and> (if a \<in> set ys then valid (data_of (manager rc')) r
        else lay (data_of (manager rc')) r a
          \<and> ihi (ivl (data_of (manager rc')) (last (kids m g))) = ihi (ivl m (last (kids m g))) - uint off)"
proof -
  note w = layD(1) [OF l]
  let ?m2 = "data_of (manager rc)"
  note sh2 = same_shapeD [OF relabD(1) [OF rl]]
  have gp: "(g, p) \<in> edges m" using kg by (simp add: edges_iff)
  have gd: "g \<in> dom m" by (rule edge_dom [OF gp])
  have pd: "p \<in> dom m" by (rule tree_wfD(5) [OF w gp])
  have dk: "distinct (xs @ p # ys)" using tree_wfD(4) [OF w gd] kg by simp
  have ey: "(g, z) \<in> edges m" if "z \<in> set ys" for z using kg that by (simp add: edges_iff)
  have pna: "p \<notin> sub m a" using pa sub_self [of p m] by blast
  have eq: "offsetSiblingsAfter rc a p off
      = offset_loop (\<lambda>i. intervalDecrease i off) (\<lambda>i. intervalDecreaseStart i off) rc a ys"
    using gp gd pd tree_wfD(6) [OF w] dk kg
    by (simp add: offsetSiblingsAfter_def parent_par splitChildren_def children_kids splitAtPivot_ok offset_loops sh2)
  have row: "wchained (ilo (ivl m g)) (ilo (ivl m p) - 1) (map (ivl m) xs)"
      "ilo (ivl m g) \<le> ilo (ivl m p)" "ihi (ivl m p) \<le> ihi (ivl m g) - 1"
      "wchained (ihi (ivl m p) + 1) (ihi (ivl m g) - 1) (map (ivl m) ys)"
    using layD(2) [OF l gd g] by (auto simp: wok_def kg wchained_cut)
  have bp: "ilo (ivl m p) \<le> ihi (ivl m p) - uint off" "1 \<le> ilo (ivl m p)"
    using ok [OF sub_self] ip lay_bounds(1) [OF l pd pna] by (auto simp: node_ok_def)
  have gb: "ihi (ivl m g) \<le> 2 ^ 64 - 2" by (rule lay_bounds(3) [OF l gd g])
  have bz: "ilo (ivl m z) \<le> ihi (ivl m z) + 1" "ihi (ivl m p) < ilo (ivl m z)" "ihi (ivl m z) \<le> ihi (ivl m g) - 1"
    if "z \<in> set ys" for z
    using wchained_mem [OF row(4), of "ivl m z"] that by auto
  have dec: "ilo (intervalDecreaseStart (ivl m z) off) = ilo (ivl m z) - uint off"
      "ihi (intervalDecreaseStart (ivl m z) off) = ihi (ivl m z)"
      "ilo (intervalDecrease (ivl m z) off) = ilo (ivl m z) - uint off"
      "ihi (intervalDecrease (ivl m z) off) = ihi (ivl m z) - uint off" if z: "z \<in> set ys" for z
    using decrease_bounds [of off "ivl m z"] bz [OF z] bp by auto
  let ?j = "\<lambda>z. if z = a then intervalDecreaseStart (ivl m z) off else intervalDecrease (ivl m z) off"
  have wd: "width (?j z) < 2 ^ 64" if z: "z \<in> set ys" for z
  proof -
    have "ilo (?j z) = ilo (ivl m z) - uint off" "ihi (?j z) \<le> ihi (ivl m z)"
      using dec [OF z] uint_ge_0 [of off] by (cases "z = a"; simp)+
    then show ?thesis
      using bz [OF z] bp gb unfolding width_def by linarith
  qed
  have ga': "a \<in> set (kids m g) \<or> sub m g \<inter> sub m a = {}" using ga kg by auto
  have fit: "int (siz m z) \<le> width (?j z)" if z: "z \<in> set ys" for z
    using fa z dec [OF z] sibling_fits [OF l ey [OF z] _ ga'] by (cases "z = a") (simp_all add: width_def)
  have zs: "distinct ys" "set ys \<subseteq> set (kids m g) - {p}" using dk kg by auto
  obtain rc' where o: "offset_loop (\<lambda>i. intervalDecrease i off) (\<lambda>i. intervalDecreaseStart i off) rc a ys = Inr rc'"
     "frame (manager rc) (manager rc')" "cache_ok m (subTreeSizesCache rc')"
     "relab m (data_of (manager rc')) (\<Union>z \<in> insert p (moved a ys). sub m z)"
     "\<forall>z \<in> moved a ys. ivl (data_of (manager rc')) z = ?j z"
     "ivl (data_of (manager rc')) p = ivl ?m2 p" "ivl (data_of (manager rc')) g = ivl m g"
     "\<forall>z \<in> set (kids m g) - insert p (moved a ys). ivl (data_of (manager rc')) z = ivl m z"
     "\<forall>z \<in> insert p (moved a ys). \<forall>x \<in> sub m z. node_ok (data_of (manager rc')) x"
    using move_siblings [OF w big gp zs rl ok c fit wd] by blast
  let ?m3 = "data_of (manager rc')" and ?M = "moved a ys"
  have My: "?M \<subseteq> set ys" by (rule moved_subset)
  have k3: "kids ?m3 g = xs @ p # ys" using same_shapeD(2) [OF relabD(1) [OF o(4)]] kg by simp
  have xs3: "map (ivl ?m3) xs = map (ivl m) xs" using o(8) dk My kg by (intro map_cong) auto
  have row3: "wchained (ihi (ivl m p) - uint off + 1) (ihi (ivl m g) - 1) (map (ivl ?m3) ys)"
  proof (cases "a \<in> set ys")
    case False
    then have M: "?M = set ys" by (rule moved_all)
    have e: "map (ivl ?m3) ys = map (\<lambda>i. intervalDecrease i off) (map (ivl m) ys)"
      using o(5) False M by auto
    have "wchained (ihi (ivl m p) + 1 + - uint off) (ihi (ivl m g) - 1 + - uint off)
        (map (\<lambda>i. intervalDecrease i off) (map (ivl m) ys))"
      using dec by (intro wchained_shift [OF _ row(4)]) auto
    then show ?thesis
      unfolding e by (rule wchained_mono) (use uint_ge_0 [of off] in linarith)+
  next
    case True
    then obtain y1 y2 where y: "ys = y1 @ a # y2" by (meson split_list)
    have M: "?M = insert a (set y1)" using moved_upto [of a y1 y2] dk y by simp
    have r1: "wchained (ihi (ivl m p) + 1) (ilo (ivl m a) - 1) (map (ivl m) y1)"
      "ihi (ivl m p) + 1 \<le> ilo (ivl m a)" "ilo (ivl m a) \<le> ihi (ivl m a) + 1" "ihi (ivl m a) \<le> ihi (ivl m g) - 1"
      "wchained (ihi (ivl m a) + 1) (ihi (ivl m g) - 1) (map (ivl m) y2)"
      using row(4) by (auto simp: y wchained_cut)
    have e2: "map (ivl ?m3) y2 = map (ivl m) y2"
      using o(8) dk M kg y by (intro map_cong) auto
    have e1: "map (ivl ?m3) y1 = map (\<lambda>i. intervalDecrease i off) (map (ivl m) y1)"
      using o(5) M dk y by auto
    have "wchained (ihi (ivl m p) + 1 + - uint off) (ilo (ivl m a) - 1 + - uint off) (map (ivl ?m3) y1)"
      unfolding e1 using dec y by (intro wchained_shift [OF _ r1(1)]) auto
    then have "wchained (ihi (ivl m p) - uint off + 1) (ilo (ivl m a) - uint off - 1) (map (ivl ?m3) y1)"
      by (rule wchained_mono) linarith+
    moreover have "ivl ?m3 a = intervalDecreaseStart (ivl m a) off" using o(5) M by simp
    moreover have "ilo (ivl m a) - uint off \<le> ihi (ivl m a) + 1" using r1(3) uint_ge_0 [of off] by linarith
    ultimately show ?thesis
      using r1(2,4,5) dec(1,2) [OF True] unfolding y map_append list.map wchained_cut e2 by simp
  qed
  have "ihi (ivl m p) - uint off \<le> ihi (ivl m g) - 1" using row(3) uint_ge_0 [of off] by linarith
  then have wg: "wok ?m3 g"
    using lay_bounds(2) [OF l gd g] row3 row(1,2) bp(1) ip o(6,7) by (simp add: wok_def k3 wchained_cut xs3)
  have K: "insert p ?M \<subseteq> set (kids m g)" using My kg by auto
  have ok3: "node_ok ?m3 x" if "z \<in> insert p ?M" "x \<in> sub m z" for z x using o(9) that by blast
  note R = siblings_relab [OF l a gd g K o(4) ok3 wg]
  have lst: "ihi (ivl ?m3 (last (kids m g))) = ihi (ivl m (last (kids m g))) - uint off" if "a \<notin> set ys"
  proof (cases "ys = []")
    case True
    then show ?thesis using kg o(6) ip by simp
  next
    case False
    then have z: "last ys \<in> set ys" "last ys \<in> ?M" "last ys \<noteq> a" using moved_all [of a ys] that by auto
    then show ?thesis using o(5) z(2) dec [OF z(1)] kg False by simp
  qed
  have "a \<in> set ys \<Longrightarrow> a \<in> insert p ?M" by (simp add: moved_def)
  then show ?thesis unfolding eq using o(1,2,3) R lst by (intro exI [of _ rc']) auto
qed

end
