(* ===== verification/Reachability_Reclaim.thy ===== *)
theory Reachability_Reclaim
  imports Reachability_Siblings
begin

text \<open>
  \<^verbatim>\<open>reclaimIntervalBefore\<close> and \<^verbatim>\<open>reclaimIntervalAfter\<close> of \<^verbatim>\<open>reindex_context.go\<close>: a block that is not
  below the reindex root takes slack from the chain between its parent and the reindex root.  The
  two directions share the locale \<open>direction\<close>, in which the two loops are shown to end with a valid
  tree whenever the reindex root has enough capacity.
\<close>

section \<open>The two directions\<close>

text \<open>
  \<^verbatim>\<open>reclaimIntervalBefore\<close> and \<^verbatim>\<open>reclaimIntervalAfter\<close> are the same two loops: \<open>slk\<close> reads the slack
  of a block on one side, \<open>mv\<close> cuts that slack off its interval, and \<open>sib\<close> moves its siblings into
  the space.
\<close>

primrec gen_up ::
    "(reachabilityManager \<Rightarrow> DomainHash \<Rightarrow> (dag_error, u64) result)
     \<Rightarrow> (ReachabilityInterval \<Rightarrow> u64 \<Rightarrow> ReachabilityInterval)
     \<Rightarrow> (reindexContext \<Rightarrow> DomainHash \<Rightarrow> DomainHash \<Rightarrow> u64 \<Rightarrow> (dag_error, reindexContext) result)
     \<Rightarrow> nat \<Rightarrow> reindexContext \<Rightarrow> DomainHash \<Rightarrow> DomainHash \<Rightarrow> u64 \<Rightarrow> DomainHash \<Rightarrow> u64 \<Rightarrow> u64
     \<Rightarrow> (dag_error, reindexContext \<times> DomainHash \<times> u64) result" where
  "gen_up slk mv sib 0 rc a R req cur S L = Inl (Err NoFuel)"
| "gen_up slk mv sib (Suc fuel) rc a R req cur S L =
     (if cur = R
      then rbind (interval (manager rc) cur) (\<lambda>p. rbind (deref p) (\<lambda>i.
           let off = req + reindexSlack (manager rc) * L - S
           in rbind (rc_stageInterval rc cur (mv i off)) (\<lambda>rc1.
              rbind (propagateInterval rc1 cur) (\<lambda>rc2.
              rbind (sib rc2 a cur off) (\<lambda>rc3. Inr (rc3, cur, reindexSlack (manager rc3)))))))
      else rbind (slk (manager rc) cur) (\<lambda>s.
           let S' = S + s
           in if S' \<ge> req
              then rbind (interval (manager rc) cur) (\<lambda>p. rbind (deref p) (\<lambda>i.
                   let off = s - (S' - req)
                   in rbind (rc_stageInterval rc cur (mv i off)) (\<lambda>rc1.
                      rbind (sib rc1 a cur off) (\<lambda>rc2. Inr (rc2, cur, 0)))))
              else rbind (FindNextAncestor (manager rc) R cur) (\<lambda>next.
                   gen_up slk mv sib fuel rc a R req next S' (L + 1))))"

primrec gen_down ::
    "(reachabilityManager \<Rightarrow> DomainHash \<Rightarrow> (dag_error, u64) result)
     \<Rightarrow> (ReachabilityInterval \<Rightarrow> u64 \<Rightarrow> ReachabilityInterval)
     \<Rightarrow> (reindexContext \<Rightarrow> DomainHash \<Rightarrow> DomainHash \<Rightarrow> u64 \<Rightarrow> (dag_error, reindexContext) result)
     \<Rightarrow> nat \<Rightarrow> reindexContext \<Rightarrow> DomainHash \<Rightarrow> DomainHash \<Rightarrow> u64 \<Rightarrow> DomainHash
     \<Rightarrow> (dag_error, reindexContext) result" where
  "gen_down slk mv sib 0 rc a G ps cur = Inl (Err NoFuel)"
| "gen_down slk mv sib (Suc fuel) rc a G ps cur =
     rbind (parent (manager rc) cur) (\<lambda>p.
       if p = Some G then Inr rc
       else rbind (deref p) (\<lambda>cur'.
            rbind (interval (manager rc) cur') (\<lambda>oi.
            rbind (slk (manager rc) cur') (\<lambda>s.
            let off = s - ps
            in rbind (deref oi) (\<lambda>i.
               rbind (rc_stageInterval rc cur' (mv i off)) (\<lambda>rc1.
               rbind (sib rc1 a cur' off) (\<lambda>rc2. gen_down slk mv sib fuel rc2 a G ps cur')))))))"

lemma gen_loops:
  "reclaimBefore_up fuel rc a R req cur S L
     = gen_up remainingSlackBefore intervalIncreaseStart offsetSiblingsBefore fuel rc a R req cur S L"
  "reclaimAfter_up fuel rc a R req cur S L
     = gen_up remainingSlackAfter intervalDecreaseEnd offsetSiblingsAfter fuel rc a R req cur S L"
  "reclaimBefore_down fuel rc a G ps cur
     = gen_down remainingSlackBefore intervalIncreaseStart offsetSiblingsBefore fuel rc a G ps cur"
  "reclaimAfter_down fuel rc a G ps cur
     = gen_down remainingSlackAfter intervalDecreaseEnd offsetSiblingsAfter fuel rc a G ps cur"
proof -
  show "reclaimBefore_up fuel rc a R req cur S L
     = gen_up remainingSlackBefore intervalIncreaseStart offsetSiblingsBefore fuel rc a R req cur S L"
    by (induction fuel arbitrary: rc cur S L) (simp_all add: Let_def cong: if_cong)
  show "reclaimAfter_up fuel rc a R req cur S L
     = gen_up remainingSlackAfter intervalDecreaseEnd offsetSiblingsAfter fuel rc a R req cur S L"
    by (induction fuel arbitrary: rc cur S L) (simp_all add: Let_def cong: if_cong)
  show "reclaimBefore_down fuel rc a G ps cur
     = gen_down remainingSlackBefore intervalIncreaseStart offsetSiblingsBefore fuel rc a G ps cur"
    by (induction fuel arbitrary: rc cur) (simp_all add: Let_def cong: if_cong)
  show "reclaimAfter_down fuel rc a G ps cur
     = gen_down remainingSlackAfter intervalDecreaseEnd offsetSiblingsAfter fuel rc a G ps cur"
    by (induction fuel arbitrary: rc cur) (simp_all add: Let_def cong: if_cong)
qed

text \<open>
  What the loops need of a direction.  \<open>slack m p\<close> is the free space of \<open>p\<close> on that side,
  \<open>side m g p a\<close> says that \<open>a\<close> is on that side of \<open>p\<close> among the children of \<open>g\<close>.  A cut of
  \<open>off\<close> that fits makes the tree valid if \<open>a\<close> is among the siblings and \<open>off\<close> is enough for it, and
  otherwise gives the parent \<open>off\<close> more slack.
\<close>

definition cut_result ::
    "(tree \<Rightarrow> DomainHash \<Rightarrow> int) \<Rightarrow> tree \<Rightarrow> DomainHash \<Rightarrow> DomainHash \<Rightarrow> DomainHash \<Rightarrow> u64
     \<Rightarrow> reindexContext \<Rightarrow> (dag_error, reindexContext) result \<Rightarrow> bool" where
  "cut_result slack m r a g off rc res \<longleftrightarrow>
     (\<exists>rc'. res = Inr rc' \<and> frame (manager rc) (manager rc') \<and> cache_ok m (subTreeSizesCache rc')
        \<and> relab m (data_of (manager rc')) (sub m g - {g})
        \<and> (if a \<in> set (kids m g) then valid (data_of (manager rc')) r
           else lay (data_of (manager rc')) r a \<and> slack (data_of (manager rc')) g = slack m g + uint off))"

definition cut_ready ::
    "(tree \<Rightarrow> DomainHash \<Rightarrow> DomainHash \<Rightarrow> DomainHash \<Rightarrow> bool) \<Rightarrow> tree \<Rightarrow> DomainHash \<Rightarrow> DomainHash
     \<Rightarrow> DomainHash \<Rightarrow> DomainHash \<Rightarrow> u64 \<Rightarrow> reindexContext \<Rightarrow> bool" where
  "cut_ready side m r a g p off rc \<longleftrightarrow>
     data_of (manager rc) = m \<and> lay m r a \<and> a \<in> dom m \<and> card (dom m) < 2 ^ 64 \<and> cache_ok m (subTreeSizesCache rc)
     \<and> (g, p) \<in> edges m \<and> g \<notin> sub m a \<and> sub m p \<inter> sub m a = {}
     \<and> (if a \<in> set (kids m g) then side m g p a \<and> int (siz m a) \<le> width (ivl m a) + uint off
        else sub m g \<inter> sub m a = {})"

text \<open>\<open>chain m g path\<close>: a path down the tree that starts at a child of \<open>g\<close>.\<close>

fun chain :: "tree \<Rightarrow> DomainHash \<Rightarrow> DomainHash list \<Rightarrow> bool" where
  "chain m g [] = True"
| "chain m g (p # ps) = ((g, p) \<in> edges m \<and> chain m p ps)"

lemma chain_append: "chain m g (xs @ ys) \<longleftrightarrow> chain m g xs \<and> chain m (last (g # xs)) ys"
  by (induction xs arbitrary: g) auto

lemma same_shape_chain: "same_shape m m' \<Longrightarrow> chain m' g xs = chain m g xs"
  by (induction xs arbitrary: g) (simp_all add: same_shape_edges)

lemma chain_anc: "chain m g xs \<Longrightarrow> x \<in> set xs \<Longrightarrow> anc m g x"
  by (induction xs arbitrary: g) (auto intro: anc_edge anc_trans)

lemma chain_anc_last: "chain m g (xs @ [y]) \<Longrightarrow> x \<in> set xs \<Longrightarrow> \<exists>z. (x, z) \<in> edges m \<and> anc m z y"
proof (induction xs arbitrary: g)
  case (Cons w xs)
  show ?case
  proof (cases "x = w")
    case True
    have c: "chain m w (xs @ [y])" using Cons.prems(1) by simp
    show ?thesis
    proof (cases xs)
      case Nil
      then show ?thesis using True c by auto
    next
      case (Cons v vs)
      then have "(w, v) \<in> edges m" "chain m v (vs @ [y])" using c by auto
      then show ?thesis using True chain_anc [of m v "vs @ [y]" y] by auto
    qed
  qed (use Cons in auto)
qed simp

text \<open>The blocks of a path are not below its end.\<close>

lemma chain_outside:
  assumes w: "tree_wf m r" and c: "chain m g (xs @ [y])" and x: "x \<in> set xs"
  shows "x \<notin> sub m y" "set (kids m x) \<inter> (sub m y - {y}) = {}"
proof -
  obtain z where z: "(x, z) \<in> edges m" "anc m z y" using chain_anc_last [OF c x] by blast
  show n: "x \<notin> sub m y"
    using sub_not_above [OF w z(1)] anc_trans [OF z(2)] by (auto simp: sub_def)
  show "set (kids m x) \<inter> (sub m y - {y}) = {}"
  proof (rule ccontr)
    assume "set (kids m x) \<inter> (sub m y - {y}) \<noteq> {}"
    then obtain k where k: "(x, k) \<in> edges m" "anc m y k" "k \<noteq> y" by (auto simp: edges_iff sub_def)
    then obtain v where "anc m y v" "(v, k) \<in> edges m" unfolding anc_def by (metis rtranclE)
    then have "anc m y x" using k(1) tree_wfD(6) [OF w] by (metis option.inject)
    then show False using n by (simp add: sub_def)
  qed
qed

text \<open>The outcome of the first loop, together with that of the second loop started from it.\<close>

definition reclaimed ::
    "(reachabilityManager \<Rightarrow> DomainHash \<Rightarrow> (dag_error, u64) result)
     \<Rightarrow> (ReachabilityInterval \<Rightarrow> u64 \<Rightarrow> ReachabilityInterval)
     \<Rightarrow> (reindexContext \<Rightarrow> DomainHash \<Rightarrow> DomainHash \<Rightarrow> u64 \<Rightarrow> (dag_error, reindexContext) result)
     \<Rightarrow> reindexContext \<Rightarrow> DomainHash \<Rightarrow> DomainHash \<Rightarrow> tree \<Rightarrow> DomainHash \<Rightarrow> nat
     \<Rightarrow> (dag_error, reindexContext \<times> DomainHash \<times> u64) result \<Rightarrow> bool" where
  "reclaimed slk mv sib rc a G m r n res \<longleftrightarrow> (\<exists>rc' Q ps. res = Inr (rc', Q, ps)
     \<and> (\<forall>fuel > n. \<exists>rc''. gen_down slk mv sib fuel rc' a G ps Q = Inr rc'' \<and> frame (manager rc) (manager rc'')
          \<and> same_shape m (data_of (manager rc'')) \<and> valid (data_of (manager rc'')) r))"

lemma disjoint_self: "sub m x \<inter> sub m a = {} \<Longrightarrow> x \<notin> sub m a"
  using sub_self [of x m] by blast

lemma uint_offset:
  assumes "0 \<le> int n + uint sl * int k - uint S" "int n + uint sl * int k - uint S < 2 ^ 64"
  shows "uint (of_nat n + sl * of_nat k - S :: u64) = int n + uint sl * int k - uint S"
proof -
  have "uint (of_nat n + sl * of_nat k - S :: u64) = (int n + uint sl * int k - uint S) mod 2 ^ 64"
    by (simp add: uint_word_ariths unsigned_of_nat mod_simps take_bit_eq_mod of_nat_mod)
  then show ?thesis using assms by simp
qed

lemma sum_list_minus: "(\<Sum>x\<leftarrow>xs. f x - c) = (\<Sum>x\<leftarrow>xs. f x) - int (length xs) * c"
  by (induction xs) (simp_all add: algebra_simps)

lemma sum_list_take_drop: "(\<Sum>x\<leftarrow>take k xs. f x) + (\<Sum>x\<leftarrow>drop k xs. f x) = (\<Sum>x\<leftarrow>xs. f x :: int)"
  by (metis append_take_drop_id map_append sum_list_append)

locale direction =
  fixes slk :: "reachabilityManager \<Rightarrow> DomainHash \<Rightarrow> (dag_error, u64) result"
    and mv :: "ReachabilityInterval \<Rightarrow> u64 \<Rightarrow> ReachabilityInterval"
    and sib :: "reindexContext \<Rightarrow> DomainHash \<Rightarrow> DomainHash \<Rightarrow> u64 \<Rightarrow> (dag_error, reindexContext) result"
    and slack :: "tree \<Rightarrow> DomainHash \<Rightarrow> int"
    and side :: "tree \<Rightarrow> DomainHash \<Rightarrow> DomainHash \<Rightarrow> DomainHash \<Rightarrow> bool"
  assumes slk: "lay (data_of rt) r a \<Longrightarrow> p \<in> dom (data_of rt) \<Longrightarrow> p \<notin> sub (data_of rt) a \<Longrightarrow>
      kids (data_of rt) p \<noteq> [] \<Longrightarrow> \<exists>s. slk rt p = Inr s \<and> uint s = slack (data_of rt) p"
    and slack_width: "lay m r a \<Longrightarrow> (p, c) \<in> edges m \<Longrightarrow> p \<notin> sub m a \<Longrightarrow>
      slack m p + width (ivl m c) \<le> width (ivl m p)"
    and slack_frame: "relab m m' A \<Longrightarrow> p \<notin> A \<Longrightarrow> set (kids m p) \<inter> A = {} \<Longrightarrow> kids m p \<noteq> [] \<Longrightarrow> slack m' p = slack m p"
    and side_shape: "same_shape m m' \<Longrightarrow> side m' g p a = side m g p a"
    and cut: "cut_ready side m r a g p off rc \<Longrightarrow> kids m p \<noteq> [] \<Longrightarrow> uint off \<le> slack m p \<Longrightarrow>
      cut_result slack m r a g off rc (rbind (rc_stageInterval rc p (mv (ivl m p) off)) (\<lambda>rc1. sib rc1 a p off))"
    and cut_all: "cut_ready side m r a g p off rc \<Longrightarrow> int (siz m p) + uint off \<le> width (ivl m p) \<Longrightarrow>
      cut_result slack m r a g off rc (rbind (rc_stageInterval rc p (mv (ivl m p) off)) (\<lambda>rc1.
        rbind (propagateInterval rc1 p) (\<lambda>rc2. sib rc2 a p off)))"
begin

text \<open>A cut at the end of a path adds \<open>off\<close> to the slack of the path.\<close>

lemma cut_slacks:
  assumes w: "tree_wf m r" and c: "chain m G qs" "qs \<noteq> []"
    and rl: "relab m m2 (sub m (last qs) - {last qs})" and g: "slack m2 (last qs) = slack m (last qs) + off"
    and k: "k < length qs"
  shows "(\<Sum>x\<leftarrow>drop k qs. slack m2 x - ps) = (\<Sum>x\<leftarrow>drop k qs. slack m x - ps) + off"
proof -
  define q0 where "q0 = butlast qs"
  have qs: "qs = q0 @ [last qs]" using c(2) by (simp add: q0_def)
  have ch: "chain m G (q0 @ [last qs])" using c(1) qs by simp
  have "slack m2 x = slack m x" if x: "x \<in> set q0" for x
  proof (rule slack_frame [OF rl])
    show "x \<notin> sub m (last qs) - {last qs}" "set (kids m x) \<inter> (sub m (last qs) - {last qs}) = {}"
      using chain_outside [OF w ch x] by auto
    show "kids m x \<noteq> []" using chain_anc_last [OF ch x] by (auto simp: edges_iff)
  qed
  then have "(\<Sum>x\<leftarrow>drop k q0. slack m2 x - ps) = (\<Sum>x\<leftarrow>drop k q0. slack m x - ps)"
    by (intro arg_cong [where f = sum_list] map_cong) (auto dest: in_set_dropD)
  moreover have "k \<le> length q0" using k by (simp add: q0_def)
  moreover have "drop k qs = drop k q0 @ drop (k - length q0) [last qs]" by (subst qs) simp
  ultimately show ?thesis using g by simp
qed

lemma down_ok:
  assumes G: "(G, a) \<in> edges m" "G \<notin> sub m a" and w: "tree_wf m r" and big: "card (dom m) < 2 ^ 64"
    and path: "chain m G (qs @ [Q])" "\<And>x. x \<in> set (qs @ [Q]) \<Longrightarrow> sub m x \<inter> sub m a = {}" "side m G (hd (qs @ [Q])) a"
    and m: "data_of (manager rc) = m" "if qs = [] then valid m r else lay m r a" "cache_ok m (subTreeSizesCache rc)"
    and pos: "\<And>k. k < length qs \<Longrightarrow> 0 \<le> (\<Sum>x\<leftarrow>drop k qs. slack m x - uint ps)"
    and enough: "qs \<noteq> [] \<Longrightarrow> int (siz m a) \<le> width (ivl m a) + (\<Sum>x\<leftarrow>qs. slack m x - uint ps)"
    and fuel: "length qs < fuel"
  shows "\<exists>rc'. gen_down slk mv sib fuel rc a G ps Q = Inr rc' \<and> frame (manager rc) (manager rc')
     \<and> same_shape m (data_of (manager rc')) \<and> valid (data_of (manager rc')) r"
  using assms
proof (induction qs arbitrary: rc Q m fuel rule: rev_induct)
  case Nil
  obtain f where f: "fuel = Suc f" using Nil.prems(13) by (cases fuel) auto
  have e: "(G, Q) \<in> edges m" using Nil.prems(5) by simp
  have "par m Q = Some G" "Q \<in> dom m" using e tree_wfD(5,6) [OF Nil.prems(3)] by auto
  then have "gen_down slk mv sib fuel rc a G ps Q = Inr rc"
    using f Nil.prems(8) parent_par [of Q "manager rc"] by simp
  then show ?case using Nil.prems(8,9) by auto
next
  case (snoc P qs)
  note w = snoc.prems(3)
  obtain f where f: "fuel = Suc f" "length qs < f" using snoc.prems(13) by (cases fuel) auto
  define g where "g = last (G # qs)"
  have c: "chain m G qs" "(g, P) \<in> edges m" "(P, Q) \<in> edges m"
    using snoc.prems(5) by (auto simp: chain_append g_def split: if_splits)
  have l: "lay m r a" using snoc.prems(9) by simp
  have pa: "sub m P \<inter> sub m a = {}" using snoc.prems(6) [of P] by simp
  have pna: "P \<notin> sub m a" using pa sub_self [of P m] by blast
  have pd: "P \<in> dom m" and qd: "Q \<in> dom m" using c(2,3) tree_wfD(5) [OF w] by auto
  have ad: "a \<in> dom m" using tree_wfD(5) [OF w snoc.prems(1)] .
  have kp: "kids m P \<noteq> []" using c(3) by (auto simp: edges_iff)
  have nG: "P \<noteq> G"
    using anc_edge [OF snoc.prems(1)] pa sub_self [of a m] by (auto simp: sub_def)
  have gq: "qs = [] \<and> g = G \<or> qs \<noteq> [] \<and> g \<in> set qs \<and> sub m g \<inter> sub m a = {} \<and> a \<notin> set (kids m g)"
  proof (cases "qs = []")
    case False
    then have gs: "g \<in> set qs" by (simp add: g_def)
    then have d: "sub m g \<inter> sub m a = {}" using snoc.prems(6) [of g] by simp
    have "a \<notin> set (kids m g)"
      using d anc_edge [of g a m] sub_self [of a m] by (auto simp: edges_iff sub_def)
    then show ?thesis using gs d False by blast
  qed (simp add: g_def)
  have gna: "g \<notin> sub m a" using gq snoc.prems(2) sub_self [of g m] by blast
  obtain s where s: "slk (manager rc) P = Inr s" "uint s = slack m P"
    using slk [of "manager rc" r a P] snoc.prems(8) l pd pna kp by auto
  define off where "off = s - ps"
  have "0 \<le> slack m P - uint ps" using snoc.prems(11) [of "length qs"] by simp
  then have uo: "uint off = slack m P - uint ps" using s(2) by (simp add: off_def uint_sub_if')
  have ready: "cut_ready side m r a g P off rc"
    unfolding cut_ready_def
    using snoc.prems(1,4,7,8,10,12) l ad c(2) gna pa gq uo by (auto simp: edges_iff)
  have "uint off \<le> slack m P" using uo uint_ge_0 [of ps] by linarith
  from cut [OF ready kp this] obtain rc2 where r2:
    "rbind (rc_stageInterval rc P (mv (ivl m P) off)) (\<lambda>rc1. sib rc1 a P off) = Inr rc2"
    "frame (manager rc) (manager rc2)" "cache_ok m (subTreeSizesCache rc2)"
    "relab m (data_of (manager rc2)) (sub m g - {g})"
    "if a \<in> set (kids m g) then valid (data_of (manager rc2)) r
     else lay (data_of (manager rc2)) r a \<and> slack (data_of (manager rc2)) g = slack m g + uint off"
    unfolding cut_result_def by blast
  let ?m2 = "data_of (manager rc2)"
  note sh = same_shapeD [OF relabD(1) [OF r2(4)]]
  have par: "par m Q = Some P" using c(3) tree_wfD(6) [OF w] by simp
  have iv: "interval (manager rc) P = Inr (Some (ivl m P))"
    using interval_ivl [of "manager rc" r P] w pd snoc.prems(8) by simp
  have step: "gen_down slk mv sib fuel rc a G ps Q = gen_down slk mv sib f rc2 a G ps P"
    using f(1) par nG iv s(1) r2(1) parent_par [of Q "manager rc"] qd snoc.prems(8)
    by (auto simp: off_def [symmetric] rbind_Inr_iff)
  have m2: "if qs = [] then valid ?m2 r else lay ?m2 r a"
    using r2(5) gq snoc.prems(1) by (auto simp: edges_iff)
  have sl: "(\<Sum>x\<leftarrow>drop k qs. slack ?m2 x - uint ps) = (\<Sum>x\<leftarrow>drop k (qs @ [P]). slack m x - uint ps)"
    if k: "k < length qs" for k
  proof -
    have ne: "qs \<noteq> []" using k by auto
    then have gl: "last qs = g" by (simp add: g_def)
    have "slack ?m2 g = slack m g + uint off" using r2(5) gq ne by auto
    then show ?thesis using cut_slacks [OF w c(1) ne, of ?m2 "uint off" k "uint ps"] r2(4) gl k uo by simp
  qed
  have "\<exists>rc'. gen_down slk mv sib f rc2 a G ps P = Inr rc' \<and> frame (manager rc2) (manager rc')
     \<and> same_shape ?m2 (data_of (manager rc')) \<and> valid (data_of (manager rc')) r"
  proof (rule snoc.IH)
    show "(G, a) \<in> edges ?m2" "G \<notin> sub ?m2 a" "card (dom ?m2) < 2 ^ 64" using snoc.prems(1,2,4) by (simp_all add: sh)
    show "tree_wf ?m2 r" by (rule relab_wf [OF r2(4) w])
    show "chain ?m2 G (qs @ [P])"
      unfolding same_shape_chain [OF relabD(1) [OF r2(4)]] using c(1,2) by (simp add: chain_append g_def split: if_splits)
    show "sub ?m2 x \<inter> sub ?m2 a = {}" if "x \<in> set (qs @ [P])" for x using snoc.prems(6) [of x] that by (auto simp: sh)
    show "side ?m2 G (hd (qs @ [P])) a"
      using snoc.prems(7) side_shape [OF relabD(1) [OF r2(4)]] by (cases qs) auto
    show "data_of (manager rc2) = ?m2" "if qs = [] then valid ?m2 r else lay ?m2 r a" by (fact refl m2)+
    show "cache_ok ?m2 (subTreeSizesCache rc2)" using r2(3) by (simp add: sh)
    show "0 \<le> (\<Sum>x\<leftarrow>drop k qs. slack ?m2 x - uint ps)" if "k < length qs" for k
      using snoc.prems(11) [of k] sl [OF that] that by simp
    show "int (siz ?m2 a) \<le> width (ivl ?m2 a) + (\<Sum>x\<leftarrow>qs. slack ?m2 x - uint ps)" if ne: "qs \<noteq> []"
    proof -
      have "a \<notin> sub m g - {g}" using gq ne sub_self [of a m] by blast
      then have "ivl ?m2 a = ivl m a" by (rule relabD(2) [OF r2(4)])
      then show ?thesis using snoc.prems(12) sl [of 0] ne by (simp add: sh)
    qed
    show "length qs < f" by (rule f(2))
  qed
  then show ?case
    using step frame_trans [OF r2(2)] same_shape_trans [OF relabD(1) [OF r2(4)]] by auto
qed

text \<open>From a cut at \<open>Q\<close> the second loop makes the tree valid.\<close>

lemma after_cut:
  assumes l: "lay m r a" and G: "(G, a) \<in> edges m" "G \<notin> sub m a" and big: "card (dom m) < 2 ^ 64"
    and path: "chain m G (qs @ [Q])" "\<And>x. x \<in> set (qs @ [Q]) \<Longrightarrow> sub m x \<inter> sub m a = {}" "side m G (hd (qs @ [Q])) a"
    and cut: "cut_result slack m r a (last (G # qs)) off rc0 res"
    and pos: "\<And>k. k < length qs \<Longrightarrow> 0 \<le> (\<Sum>x\<leftarrow>drop k qs. slack m x - uint ps) + uint off"
    and enough: "qs \<noteq> [] \<Longrightarrow> int (siz m a) \<le> width (ivl m a) + (\<Sum>x\<leftarrow>qs. slack m x - uint ps) + uint off"
  shows "\<exists>rc. res = Inr rc \<and> frame (manager rc0) (manager rc) \<and> (\<forall>fuel > length qs.
     \<exists>rc'. gen_down slk mv sib fuel rc a G ps Q = Inr rc' \<and> frame (manager rc0) (manager rc')
       \<and> same_shape m (data_of (manager rc')) \<and> valid (data_of (manager rc')) r)"
proof -
  note w = layD(1) [OF l]
  define g where "g = last (G # qs)"
  obtain rc where r: "res = Inr rc" "frame (manager rc0) (manager rc)" "cache_ok m (subTreeSizesCache rc)"
    "relab m (data_of (manager rc)) (sub m g - {g})"
    "if a \<in> set (kids m g) then valid (data_of (manager rc)) r
     else lay (data_of (manager rc)) r a \<and> slack (data_of (manager rc)) g = slack m g + uint off"
    using cut unfolding cut_result_def g_def by blast
  let ?m2 = "data_of (manager rc)"
  note sh = same_shapeD [OF relabD(1) [OF r(4)]]
  have far: "a \<notin> set (kids m g)" "a \<notin> sub m g - {g}" if "qs \<noteq> []"
  proof -
    have "sub m g \<inter> sub m a = {}" using path(2) [of g] that by (simp add: g_def)
    then show "a \<notin> set (kids m g)" "a \<notin> sub m g - {g}"
      using anc_edge [of g a m] sub_self [of a m] by (auto simp: edges_iff sub_def)
  qed
  have sl: "(\<Sum>x\<leftarrow>drop k qs. slack ?m2 x - uint ps) = (\<Sum>x\<leftarrow>drop k qs. slack m x - uint ps) + uint off"
    if "k < length qs" for k
  proof -
    have ne: "qs \<noteq> []" using that by auto
    then have gl: "last qs = g" by (simp add: g_def)
    have "slack ?m2 g = slack m g + uint off" using r(5) far(1) [OF ne] by auto
    moreover have "chain m G qs" using path(1) by (simp add: chain_append)
    ultimately show ?thesis using cut_slacks [OF w _ ne, of G ?m2 "uint off" k "uint ps"] r(4) gl that by simp
  qed
  have "\<exists>rc'. gen_down slk mv sib fuel rc a G ps Q = Inr rc' \<and> frame (manager rc) (manager rc')
     \<and> same_shape ?m2 (data_of (manager rc')) \<and> valid (data_of (manager rc')) r" if fuel: "length qs < fuel" for fuel
  proof (rule down_ok)
    show "(G, a) \<in> edges ?m2" "G \<notin> sub ?m2 a" "card (dom ?m2) < 2 ^ 64" using G big by (simp_all add: sh)
    show "tree_wf ?m2 r" by (rule relab_wf [OF r(4) w])
    show "chain ?m2 G (qs @ [Q])" using path(1) by (simp add: same_shape_chain [OF relabD(1) [OF r(4)]])
    show "sub ?m2 x \<inter> sub ?m2 a = {}" if "x \<in> set (qs @ [Q])" for x using path(2) [OF that] by (simp add: sh)
    show "side ?m2 G (hd (qs @ [Q])) a" using path(3) side_shape [OF relabD(1) [OF r(4)]] by simp
    show "data_of (manager rc) = ?m2" "length qs < fuel" by (fact refl fuel)+
    show "if qs = [] then valid ?m2 r else lay ?m2 r a"
      using r(5) far G(1) by (auto simp: g_def edges_iff)
    show "cache_ok ?m2 (subTreeSizesCache rc)" using r(3) by (simp add: sh)
    show "0 \<le> (\<Sum>x\<leftarrow>drop k qs. slack ?m2 x - uint ps)" if "k < length qs" for k
      using pos [OF that] sl [OF that] by simp
    show "int (siz ?m2 a) \<le> width (ivl ?m2 a) + (\<Sum>x\<leftarrow>qs. slack ?m2 x - uint ps)" if ne: "qs \<noteq> []"
      using enough [OF ne] sl [of 0] ne relabD(2) [OF r(4) far(2) [OF ne]] by (simp add: sh)
  qed
  then show ?thesis
    using r(1,2) frame_trans [OF r(2)] same_shape_trans [OF relabD(1) [OF r(4)]] by blast
qed

text \<open>The slack along a path fits the interval of its first block.\<close>

lemma chain_slack:
  assumes l: "lay m r a"
  shows "chain m x xs \<Longrightarrow> (\<And>y. y \<in> set (x # xs) \<Longrightarrow> y \<notin> sub m a) \<Longrightarrow>
    (\<Sum>y\<leftarrow>butlast (x # xs). slack m y) + width (ivl m (last (x # xs))) \<le> width (ivl m x)"
proof (induction xs arbitrary: x)
  case (Cons y ys)
  have "(\<Sum>z\<leftarrow>butlast (y # ys). slack m z) + width (ivl m (last (y # ys))) \<le> width (ivl m y)"
    using Cons.IH [of y] Cons.prems by auto
  moreover have "slack m x + width (ivl m y) \<le> width (ivl m x)"
    using slack_width [OF l, of x y] Cons.prems by auto
  ultimately show ?case by simp
qed simp

lemma cut_ready_path:
  assumes l: "lay m r a" and G: "(G, a) \<in> edges m" "G \<notin> sub m a" and big: "card (dom m) < 2 ^ 64"
    and rc: "data_of (manager rc) = m" "cache_ok m (subTreeSizesCache rc)"
    and path: "chain m G (pre @ [cur])" "\<And>x. x \<in> set (pre @ [cur]) \<Longrightarrow> sub m x \<inter> sub m a = {}"
      "side m G (hd (pre @ [cur])) a"
    and off: "pre = [] \<Longrightarrow> int (siz m a) \<le> uint off"
  shows "cut_ready side m r a (last (G # pre)) cur off rc"
proof -
  note w = layD(1) [OF l]
  have wa: "0 \<le> width (ivl m a)" using lay_edge(3) [OF l G] by (simp add: width_def)
  have e: "(last (G # pre), cur) \<in> edges m" using path(1) by (simp add: chain_append)
  have far: "sub m (last pre) \<inter> sub m a = {}" "a \<notin> set (kids m (last pre))" "last pre \<notin> sub m a" if "pre \<noteq> []"
  proof -
    show d: "sub m (last pre) \<inter> sub m a = {}" using path(2) [of "last pre"] that by simp
    show "a \<notin> set (kids m (last pre))"
      using d anc_edge [of "last pre" a m] sub_self [of a m] by (auto simp: edges_iff sub_def)
    show "last pre \<notin> sub m a" using d sub_self [of "last pre" m] by blast
  qed
  show ?thesis
    unfolding cut_ready_def
    using l big rc e G far tree_wfD(5) [OF w G(1)] path(2) [of cur] path(3) off wa
    by (cases "pre = []") (auto simp: edges_iff)
qed

lemma root_cut:
  assumes l: "lay m r a" and G: "(G, a) \<in> edges m" "G \<notin> sub m a" and big: "card (dom m) < 2 ^ 64"
    and rc: "data_of (manager rc) = m" "cache_ok m (subTreeSizesCache rc)" "reindexSlack (manager rc) = sl"
    and path: "chain m G (pre @ [R])" "\<And>x. x \<in> set (pre @ [R]) \<Longrightarrow> sub m x \<inter> sub m a = {}"
      "side m G (hd (pre @ [R])) a"
    and S: "uint S = (\<Sum>x\<leftarrow>pre. slack m x)" "\<And>k. k \<le> length pre \<Longrightarrow> (\<Sum>x\<leftarrow>take k pre. slack m x) < int (siz m a)"
    and cap: "int (siz m R) + int (siz m a) + uint sl * int (length pre) \<le> width (ivl m R)"
  shows "reclaimed slk mv sib rc a G m r (length pre)
    (gen_up slk mv sib (Suc f) rc a R (of_nat (siz m a)) R S (of_nat (length pre)))"
proof -
  note w = layD(1) [OF l]
  define off where "off = of_nat (siz m a) + sl * of_nat (length pre) - S"
  have Re: "(last (G # pre), R) \<in> edges m" using path(1) by (simp add: chain_append)
  have Rd: "R \<in> dom m" by (rule tree_wfD(5) [OF w Re])
  have Rna: "R \<notin> sub m a" using disjoint_self [OF path(2)] by simp
  have wR: "width (ivl m R) < 2 ^ 64" using lay_bounds [OF l Rd Rna] by (simp add: width_def)
  have wa: "0 \<le> width (ivl m a)" using lay_edge(3) [OF l G] by (simp add: width_def)
  have uo: "uint off = int (siz m a) + uint sl * int (length pre) - (\<Sum>x\<leftarrow>pre. slack m x)"
    unfolding off_def S(1) [symmetric]
  proof (rule uint_offset)
    have "uint S < int (siz m a)" using S(1) S(2) [of "length pre"] by simp
    moreover have "0 \<le> uint sl * int (length pre)" by simp
    ultimately show "0 \<le> int (siz m a) + uint sl * int (length pre) - uint S" by linarith
    show "int (siz m a) + uint sl * int (length pre) - uint S < 2 ^ 64"
      using cap wR uint_ge_0 [of S] by linarith
  qed
  have "pre = [] \<Longrightarrow> int (siz m a) \<le> uint off" using uo by simp
  note ready = cut_ready_path [OF l G big rc(1,2) path this]
  have "0 \<le> (\<Sum>x\<leftarrow>pre. slack m x)" unfolding S(1) [symmetric] by simp
  then have "int (siz m R) + uint off \<le> width (ivl m R)" using cap uo by linarith
  note cr = cut_all [OF ready this]
  have part: "(\<Sum>x\<leftarrow>drop k pre. slack m x - uint sl) + uint off
      = int (siz m a) + uint sl * int k - (\<Sum>x\<leftarrow>take k pre. slack m x)" if "k \<le> length pre" for k
    using that uo sum_list_take_drop [of "slack m" k pre]
    by (simp add: sum_list_minus algebra_simps of_nat_diff)
  have pos: "0 \<le> (\<Sum>x\<leftarrow>drop k pre. slack m x - uint sl) + uint off" if "k < length pre" for k
  proof -
    have "0 \<le> uint sl * int k" by simp
    then show ?thesis using part [of k] S(2) [of k] that by linarith
  qed
  have en: "int (siz m a) \<le> width (ivl m a) + (\<Sum>x\<leftarrow>pre. slack m x - uint sl) + uint off"
    using part [of 0] wa by simp
  obtain rc3 where r3: "rbind (rc_stageInterval rc R (mv (ivl m R) off)) (\<lambda>rc1.
        rbind (propagateInterval rc1 R) (\<lambda>rc2. sib rc2 a R off)) = Inr rc3" "frame (manager rc) (manager rc3)"
     "\<forall>fuel > length pre. \<exists>rc'. gen_down slk mv sib fuel rc3 a G sl R = Inr rc' \<and> frame (manager rc) (manager rc')
       \<and> same_shape m (data_of (manager rc')) \<and> valid (data_of (manager rc')) r"
    using after_cut [OF l G big path cr, of sl] pos en by blast
  have iv: "interval (manager rc) R = Inr (Some (ivl m R))"
    using interval_ivl [of "manager rc" r R] w Rd rc(1) by simp
  have "gen_up slk mv sib (Suc f) rc a R (of_nat (siz m a)) R S (of_nat (length pre)) = Inr (rc3, R, sl)"
    using r3(1,2) iv rc(3) by (auto simp: off_def [symmetric] rbind_Inr_iff frame_def)
  then show ?thesis unfolding reclaimed_def using r3(3) by blast
qed

lemma up_ok:
  assumes l: "lay m r a" and G: "(G, a) \<in> edges m" "G \<notin> sub m a" and big: "card (dom m) < 2 ^ 64"
    and rc: "data_of (manager rc) = m" "cache_ok m (subTreeSizesCache rc)" "reindexSlack (manager rc) = sl"
    and nxt: "\<And>x y. (x, y) \<in> edges m \<Longrightarrow> anc m y R \<Longrightarrow> sub m x \<inter> sub m a = {} \<Longrightarrow> FindNextAncestor (manager rc) R x = Inr y"
  shows "chain m G (pre @ cur # post) \<Longrightarrow> last (cur # post) = R \<Longrightarrow>
     (\<And>x. x \<in> set (pre @ cur # post) \<Longrightarrow> sub m x \<inter> sub m a = {}) \<Longrightarrow> side m G (hd (pre @ [cur])) a \<Longrightarrow>
     uint S = (\<Sum>x\<leftarrow>pre. slack m x) \<Longrightarrow> L = of_nat (length pre) \<Longrightarrow>
     (\<And>k. k \<le> length pre \<Longrightarrow> (\<Sum>x\<leftarrow>take k pre. slack m x) < int (siz m a)) \<Longrightarrow>
     int (siz m R) + int (siz m a) + uint sl * int (length (pre @ post)) \<le> width (ivl m R) \<Longrightarrow>
     length post < fuel \<Longrightarrow>
     reclaimed slk mv sib rc a G m r (length (pre @ post)) (gen_up slk mv sib fuel rc a R (of_nat (siz m a)) cur S L)"
proof (induction post arbitrary: pre cur S L fuel)
  case Nil
  obtain f where f: "fuel = Suc f" using Nil.prems(9) by (cases fuel) auto
  have "cur = R" using Nil.prems(2) by simp
  then show ?case
    using root_cut [OF l G big rc, of pre R S f] Nil.prems f by simp
next
  case (Cons n post)
  note w = layD(1) [OF l]
  obtain f where f: "fuel = Suc f" "length post < f" using Cons.prems(9) by (cases fuel) auto
  define g where "g = last (G # pre)"
  have c: "chain m G (pre @ [cur])" "(g, cur) \<in> edges m" "(cur, n) \<in> edges m" "chain m n post"
    using Cons.prems(1) by (auto simp: chain_append g_def split: if_splits)
  have cd: "cur \<in> dom m" and nd: "n \<in> dom m" using c(2,3) tree_wfD(5) [OF w] by auto
  have nR: "anc m n R"
    using chain_anc [OF c(4), of R] Cons.prems(2) by (cases "post = []") (auto simp: last_in_set)
  have dis: "sub m x \<inter> sub m a = {}" "x \<notin> sub m a" if "x \<in> set pre \<or> x = cur \<or> x = n" for x
    using Cons.prems(3) [of x] disjoint_self [of m x a] that by auto
  have "cur \<notin> sub m R"
    using sub_not_above [OF w c(3)] nR anc_trans by (fastforce simp: sub_def)
  then have cR: "cur \<noteq> R" by auto
  have kc: "kids m cur \<noteq> []" using c(3) by (auto simp: edges_iff)
  obtain s where s: "slk (manager rc) cur = Inr s" "uint s = slack m cur"
    using slk [of "manager rc" r a cur] rc(1) l cd dis(2) kc by auto
  let ?sum = "\<Sum>x\<leftarrow>pre. slack m x"
  define h where "h = hd (pre @ [cur, n])"
  have hw: "?sum + slack m cur + width (ivl m n) \<le> width (ivl m h)"
  proof (cases pre)
    case Nil
    then show ?thesis using slack_width [OF l c(3)] dis(2) [of cur] by (simp add: h_def)
  next
    case (Cons y ys)
    have ch: "chain m y (ys @ [cur, n])" using Cons.prems(1) Cons by (simp add: chain_append)
    have out: "z \<notin> sub m a" if "z \<in> set (y # ys @ [cur, n])" for z by (rule dis(2)) (use that Cons in auto)
    show ?thesis
      using chain_slack [OF l ch out] Cons by (simp add: h_def butlast_append)
  qed
  have hd': "h \<in> dom m" "h \<notin> sub m a"
  proof -
    have "(G, h) \<in> edges m" using Cons.prems(1) by (cases pre) (auto simp: h_def)
    then show "h \<in> dom m" by (rule tree_wfD(5) [OF w])
    show "h \<notin> sub m a" by (rule dis(2)) (cases pre; simp add: h_def)
  qed
  have "1 \<le> width (ivl m n)" using lay_bounds(2) [OF l nd dis(2)] by (simp add: width_def)
  then have fits: "?sum + slack m cur < 2 ^ 64"
    using hw lay_bounds(1,3) [OF l hd'] by (simp add: width_def)
  then have S': "uint (S + s) = ?sum + slack m cur"
    using Cons.prems(5) s(2) uint_plus_small [of S s] by simp
  have sa: "siz m a < 2 ^ 64" using siz_le [OF w tree_wfD(5) [OF w G(1)]] big by linarith
  have ge: "of_nat (siz m a) \<le> S + s \<longleftrightarrow> int (siz m a) \<le> ?sum + slack m cur"
    by (simp only: word_le_def uint_of_nat64 [OF sa] S')
  have lt: "?sum < int (siz m a)" using Cons.prems(7) [of "length pre"] by simp
  show ?case
  proof (cases "of_nat (siz m a) \<le> S + s")
    case True
    define off where "off = s - (S + s - of_nat (siz m a))"
    have "off = of_nat (siz m a) - S" by (simp add: off_def)
    then have uo: "uint off = int (siz m a) - ?sum"
      using uint_of_nat64 [OF sa] Cons.prems(5) lt by (simp add: uint_sub_if')
    have sd: "side m G (hd (pre @ [cur])) a" by (rule Cons.prems(4))
    have dd: "\<And>x. x \<in> set (pre @ [cur]) \<Longrightarrow> sub m x \<inter> sub m a = {}" using dis(1) by auto
    have "pre = [] \<Longrightarrow> int (siz m a) \<le> uint off" using uo by simp
    note ready = cut_ready_path [OF l G big rc(1,2) c(1) dd sd this]
    have "uint off \<le> slack m cur" using uo True ge by simp
    note cr = cut [OF ready kc this]
    have sl0: "0 \<le> slack m x" if x: "x \<in> set pre" for x
    proof -
      obtain y where y: "(x, y) \<in> edges m" using chain_anc_last [OF c(1) x] by blast
      then have "kids m x \<noteq> []" by (auto simp: edges_iff)
      then obtain t :: u64 where "uint t = slack m x"
        using slk [of "manager rc" r a x] rc(1) l edge_dom [OF y] dis(2) x by auto
      then show ?thesis using uint_ge_0 [of t] by simp
    qed
    have pos: "0 \<le> (\<Sum>x\<leftarrow>drop k pre. slack m x - uint (0 :: u64)) + uint off" if "k < length pre" for k
    proof -
      have "0 \<le> (\<Sum>x\<leftarrow>drop k pre. slack m x)" using sl0 by (intro sum_list_nonneg) (auto dest: in_set_dropD)
      then show ?thesis by simp
    qed
    have wa: "0 \<le> width (ivl m a)" using lay_edge(3) [OF l G] by (simp add: width_def)
    have en: "int (siz m a) \<le> width (ivl m a) + (\<Sum>x\<leftarrow>pre. slack m x - uint (0 :: u64)) + uint off"
      using uo wa by simp
    obtain rc2 where r2: "rbind (rc_stageInterval rc cur (mv (ivl m cur) off)) (\<lambda>rc1. sib rc1 a cur off) = Inr rc2"
       "\<forall>fuel > length pre. \<exists>rc'. gen_down slk mv sib fuel rc2 a G 0 cur = Inr rc' \<and> frame (manager rc) (manager rc')
         \<and> same_shape m (data_of (manager rc')) \<and> valid (data_of (manager rc')) r"
      using after_cut [OF l G big c(1) dd sd cr, of 0] pos en by blast
    have iv: "interval (manager rc) cur = Inr (Some (ivl m cur))"
      using interval_ivl [of "manager rc" r cur] w cd rc(1) by simp
    have "gen_up slk mv sib fuel rc a R (of_nat (siz m a)) cur S L = Inr (rc2, cur, 0)"
      using f(1) cR s(1) True iv r2(1) by (auto simp: Let_def off_def [symmetric] rbind_Inr_iff)
    then show ?thesis unfolding reclaimed_def using r2(2) by auto
  next
    case False
    have nx: "FindNextAncestor (manager rc) R cur = Inr n" by (rule nxt [OF c(3) nR dis(1)]) simp
    have step: "gen_up slk mv sib fuel rc a R (of_nat (siz m a)) cur S L
        = gen_up slk mv sib f rc a R (of_nat (siz m a)) n (S + s) (L + 1)"
      using f(1) cR s(1) False nx by (simp add: Let_def)
    have "reclaimed slk mv sib rc a G m r (length ((pre @ [cur]) @ post))
        (gen_up slk mv sib f rc a R (of_nat (siz m a)) n (S + s) (L + 1))"
    proof (rule Cons.IH)
      show "chain m G ((pre @ [cur]) @ n # post)" "last (n # post) = R" using Cons.prems(1,2) by simp_all
      show "sub m x \<inter> sub m a = {}" if "x \<in> set ((pre @ [cur]) @ n # post)" for x using Cons.prems(3) that by simp
      show "side m G (hd ((pre @ [cur]) @ [n])) a" using Cons.prems(4) by (cases pre) simp_all
      show "uint (S + s) = (\<Sum>x\<leftarrow>pre @ [cur]. slack m x)" using S' by simp
      show "L + 1 = of_nat (length (pre @ [cur]))" using Cons.prems(6) by simp
      show "(\<Sum>x\<leftarrow>take k (pre @ [cur]). slack m x) < int (siz m a)" if "k \<le> length (pre @ [cur])" for k
        using Cons.prems(7) [of k] False ge that by (cases "k = Suc (length pre)") auto
      show "int (siz m R) + int (siz m a) + uint sl * int (length ((pre @ [cur]) @ post)) \<le> width (ivl m R)"
        using Cons.prems(8) by simp
      show "length post < f" by (rule f(2))
    qed
    then show ?thesis using step by simp
  qed
qed

end

end
