(* ===== verification/Reachability_Directions.thy ===== *)
theory Reachability_Directions
  imports Reachability_Reclaim
begin

text \<open>
  The laws of \<open>direction\<close> for the two directions of \<^verbatim>\<open>reindex_context.go\<close>: taking slack from the
  start of the intervals on the way to the reindex root, for a block before them, and from their end,
  for a block after them.
\<close>

section \<open>Both directions satisfy the laws\<close>

definition slackBefore :: "tree \<Rightarrow> DomainHash \<Rightarrow> int" where
  "slackBefore m p = ilo (ivl m (hd (kids m p))) - ilo (ivl m p)"

definition slackAfter :: "tree \<Rightarrow> DomainHash \<Rightarrow> int" where
  "slackAfter m p = ihi (ivl m p) - 1 - ihi (ivl m (last (kids m p)))"

definition isBefore :: "tree \<Rightarrow> DomainHash \<Rightarrow> DomainHash \<Rightarrow> DomainHash \<Rightarrow> bool" where
  "isBefore m g p a \<longleftrightarrow> (\<exists>xs ys. kids m g = xs @ p # ys \<and> a \<in> set xs)"

definition isAfter :: "tree \<Rightarrow> DomainHash \<Rightarrow> DomainHash \<Rightarrow> DomainHash \<Rightarrow> bool" where
  "isAfter m g p a \<longleftrightarrow> (\<exists>xs ys. kids m g = xs @ p # ys \<and> a \<in> set ys)"

lemma row_bounds:
  assumes l: "lay m r a" and e: "(p, c) \<in> edges m" and na: "p \<notin> sub m a"
  shows "ilo (ivl m p) \<le> ilo (ivl m (hd (kids m p)))" "ilo (ivl m (hd (kids m p))) \<le> ilo (ivl m c)"
    "ihi (ivl m c) \<le> ihi (ivl m (last (kids m p)))" "ihi (ivl m (last (kids m p))) \<le> ihi (ivl m p) - 1"
proof -
  have row: "wchained (ilo (ivl m p)) (ihi (ivl m p) - 1) (map (ivl m) (kids m p))"
    using layD(2) [OF l edge_dom [OF e] na] by (simp add: wok_def)
  obtain xs ys where k: "kids m p = xs @ c # ys" using e by (auto simp: edges_iff dest: split_list)
  have ne: "hd (kids m p) \<in> set (kids m p)" "last (kids m p) \<in> set (kids m p)" using k by (intro hd_in_set last_in_set; simp)+
  then show "ilo (ivl m p) \<le> ilo (ivl m (hd (kids m p)))" "ihi (ivl m (last (kids m p))) \<le> ihi (ivl m p) - 1"
    using wchained_mem [OF row] by auto
  have r: "wchained (ilo (ivl m p)) (ilo (ivl m c) - 1) (map (ivl m) xs)"
    "wchained (ihi (ivl m c) + 1) (ihi (ivl m p) - 1) (map (ivl m) ys)"
    using row by (auto simp: k wchained_cut)
  show "ilo (ivl m (hd (kids m p))) \<le> ilo (ivl m c)"
    using r(1) k by (cases xs) auto
  show "ihi (ivl m c) \<le> ihi (ivl m (last (kids m p)))"
  proof (cases "ys = []")
    case False
    then have "ivl m (last ys) \<in> set (map (ivl m) ys)" by simp
    then show ?thesis using wchained_mem [OF r(2)] k False by fastforce
  qed (use k in simp)
qed

lemma slk_before:
  assumes l: "lay (data_of rt) r a" and p: "p \<in> dom (data_of rt)" "p \<notin> sub (data_of rt) a" and k: "kids (data_of rt) p \<noteq> []"
  shows "\<exists>s. remainingSlackBefore rt p = Inr s \<and> uint s = slackBefore (data_of rt) p"
proof -
  let ?m = "data_of rt"
  note w = layD(1) [OF l]
  let ?c = "hd (kids ?m p)"
  have e: "(p, ?c) \<in> edges ?m" using k by (simp add: edges_iff)
  have cd: "?c \<in> dom ?m" by (rule tree_wfD(5) [OF w e])
  have "remainingSlackBefore rt p = Inr (Start (ivl ?m ?c) - Start (ivl ?m p))"
    using k interval_ivl [OF w p(1)] interval_ivl [OF w cd]
    by (simp add: remainingSlackBefore_def remainingIntervalBefore_def intervalRangeForChildAllocation_def
        children_kids [OF p(1)] hd_conv_nth [symmetric] newReachabilityInterval_def intervalSize_def)
  moreover have "uint (Start (ivl ?m ?c) - Start (ivl ?m p)) = slackBefore ?m p"
    using row_bounds(1) [OF l e p(2)] by (simp add: slackBefore_def uint_sub_if')
  ultimately show ?thesis by blast
qed

lemma slk_after:
  assumes l: "lay (data_of rt) r a" and p: "p \<in> dom (data_of rt)" "p \<notin> sub (data_of rt) a" and k: "kids (data_of rt) p \<noteq> []"
  shows "\<exists>s. remainingSlackAfter rt p = Inr s \<and> uint s = slackAfter (data_of rt) p"
proof -
  let ?m = "data_of rt"
  note w = layD(1) [OF l]
  let ?c = "last (kids ?m p)"
  have e: "(p, ?c) \<in> edges ?m" using k by (simp add: edges_iff)
  have cd: "?c \<in> dom ?m" by (rule tree_wfD(5) [OF w e])
  have lc: "kids ?m p ! (length (kids ?m p) - Suc 0) = ?c" using k by (simp add: last_conv_nth)
  have "remainingSlackAfter rt p = Inr (End (ivl ?m p) - 1 - End (ivl ?m ?c))"
    using k lc interval_ivl [OF w p(1)] interval_ivl [OF w cd]
    by (simp add: remainingSlackAfter_def remainingIntervalAfter_def intervalRangeForChildAllocation_def
        children_kids [OF p(1)] newReachabilityInterval_def intervalSize_def)
  moreover have "uint (End (ivl ?m p) - 1 - End (ivl ?m ?c)) = slackAfter ?m p"
  proof -
    have "ihi (ivl ?m ?c) \<le> ihi (ivl ?m p) - 1" by (rule row_bounds(4) [OF l e p(2)])
    moreover have "uint (End (ivl ?m p) - 1) = ihi (ivl ?m p) - 1"
      using lay_bounds(1,2) [OF l p] by (intro uint_minus_one) linarith
    ultimately show ?thesis by (simp add: slackAfter_def uint_sub_if')
  qed
  ultimately show ?thesis by blast
qed

lemma slack_widths:
  assumes l: "lay m r a" and e: "(p, c) \<in> edges m" and na: "p \<notin> sub m a"
  shows "slackBefore m p + width (ivl m c) \<le> width (ivl m p)" "slackAfter m p + width (ivl m c) \<le> width (ivl m p)"
  using row_bounds [OF assms] lay_edge(1,2) [OF l e na] by (simp_all add: slackBefore_def slackAfter_def width_def)

lemma slack_frames:
  assumes "relab m m' A" "p \<notin> A" "set (kids m p) \<inter> A = {}" "kids m p \<noteq> []"
  shows "slackBefore m' p = slackBefore m p" "slackAfter m' p = slackAfter m p"
proof -
  have "hd (kids m p) \<notin> A" "last (kids m p) \<notin> A" using assms(3,4) hd_in_set last_in_set by blast+
  then show "slackBefore m' p = slackBefore m p" "slackAfter m' p = slackAfter m p"
    using relabD(2) [OF assms(1)] assms(2) same_shapeD(2) [OF relabD(1) [OF assms(1)]]
    by (simp_all add: slackBefore_def slackAfter_def)
qed

lemma side_shapes:
  "same_shape m m' \<Longrightarrow> isBefore m' g p a = isBefore m g p a"
  "same_shape m m' \<Longrightarrow> isAfter m' g p a = isAfter m g p a"
  by (simp_all add: isBefore_def isAfter_def same_shapeD(2))

text \<open>Cutting slack off the interval of a block leaves its subtree laid out.\<close>

lemma cut_subtree:
  assumes w: "tree_wf m r" and gp: "(g, p) \<in> edges m" and rl: "relab m m1 {p}"
    and ok: "\<And>x. x \<in> sub m p \<Longrightarrow> node_ok m x" and p: "node_ok m1 p" and x: "x \<in> sub m p"
  shows "node_ok m1 x"
proof (cases "x = p")
  case False
  have "p \<notin> set (kids m x)"
  proof
    assume "p \<in> set (kids m x)"
    then have "x = g" using gp tree_wfD(6) [OF w] by (metis edges_iff option.inject)
    then show False using sub_not_above [OF w gp] x by simp
  qed
  then show ?thesis using node_ok_frame [OF rl ok [OF x]] False by blast
qed (use p in simp)

lemma cut_ready_split:
  assumes "cut_ready isBefore m r a g p off rc"
  shows "\<exists>xs ys. kids m g = xs @ p # ys \<and> (a \<in> set xs \<longleftrightarrow> a \<in> set (kids m g))"
proof -
  have e: "(g, p) \<in> edges m" and s: "a \<in> set (kids m g) \<Longrightarrow> isBefore m g p a"
    using assms unfolding cut_ready_def by (auto split: if_splits)
  show ?thesis
  proof (cases "a \<in> set (kids m g)")
    case True
    then show ?thesis using s by (auto simp: isBefore_def)
  next
    case False
    obtain xs ys where "kids m g = xs @ p # ys" using e split_list [of p "kids m g"] by (auto simp: edges_iff)
    then show ?thesis using False by auto
  qed
qed

lemma cut_ready_split_after:
  assumes "cut_ready isAfter m r a g p off rc"
  shows "\<exists>xs ys. kids m g = xs @ p # ys \<and> (a \<in> set ys \<longleftrightarrow> a \<in> set (kids m g))"
proof -
  have e: "(g, p) \<in> edges m" and s: "a \<in> set (kids m g) \<Longrightarrow> isAfter m g p a"
    using assms unfolding cut_ready_def by (auto split: if_splits)
  show ?thesis
  proof (cases "a \<in> set (kids m g)")
    case True
    then show ?thesis using s by (auto simp: isAfter_def)
  next
    case False
    obtain xs ys where "kids m g = xs @ p # ys" using e split_list [of p "kids m g"] by (auto simp: edges_iff)
    then show ?thesis using False by auto
  qed
qed

lemma cut_readyD:
  assumes "cut_ready side m r a g p off rc"
  shows "data_of (manager rc) = m" "lay m r a" "a \<in> dom m" "card (dom m) < 2 ^ 64" "cache_ok m (subTreeSizesCache rc)"
    "(g, p) \<in> edges m" "g \<notin> sub m a" "sub m p \<inter> sub m a = {}"
    "a \<in> set (kids m g) \<Longrightarrow> int (siz m a) \<le> width (ivl m a) + uint off"
    "a \<in> set (kids m g) \<or> sub m g \<inter> sub m a = {}"
  using assms unfolding cut_ready_def by (auto split: if_splits)

text \<open>Once \<open>p\<close> is cut and its subtree laid out, moving its siblings completes the cut.\<close>

lemma before_finish:
  assumes R: "cut_ready isBefore m r a g p off rc" and rl: "relab m (data_of (manager rc1)) (sub m p)"
    and ip: "ilo (ivl (data_of (manager rc1)) p) = ilo (ivl m p) + uint off" "ihi (ivl (data_of (manager rc1)) p) = ihi (ivl m p)"
    and ok: "\<And>x. x \<in> sub m p \<Longrightarrow> node_ok (data_of (manager rc1)) x"
    and c: "cache_ok m (subTreeSizesCache rc1)" and f: "frame (manager rc) (manager rc1)"
  shows "cut_result slackBefore m r a g off rc (offsetSiblingsBefore rc1 a p off)"
proof -
  note D = cut_readyD [OF R]
  obtain xs ys where k: "kids m g = xs @ p # ys" "a \<in> set xs \<longleftrightarrow> a \<in> set (kids m g)"
    using cut_ready_split [OF R] by blast
  have ga: "a \<in> set xs \<or> sub m g \<inter> sub m a = {}" and fa: "a \<in> set xs \<Longrightarrow> int (siz m a) \<le> width (ivl m a) + uint off"
    using D(9,10) k(2) by auto
  obtain rc' where r: "offsetSiblingsBefore rc1 a p off = Inr rc'" "frame (manager rc1) (manager rc')"
     "cache_ok m (subTreeSizesCache rc')" "relab m (data_of (manager rc')) (sub m g - {g})"
     "if a \<in> set xs then valid (data_of (manager rc')) r
        else lay (data_of (manager rc')) r a
          \<and> ilo (ivl (data_of (manager rc')) (hd (kids m g))) = ilo (ivl m (hd (kids m g))) + uint off"
    using offsetSiblingsBefore_ok [OF D(2,3,4) k(1) D(7,8) ga rl ip ok fa c] by blast
  have "ivl (data_of (manager rc')) g = ivl m g" by (rule relabD(2) [OF r(4)]) simp
  then show ?thesis
    unfolding cut_result_def
    using r frame_trans [OF f r(2)] k(2) same_shapeD(2) [OF relabD(1) [OF r(4)]]
    by (intro exI [of _ rc']) (auto simp: slackBefore_def)
qed

lemma after_finish:
  assumes R: "cut_ready isAfter m r a g p off rc" and rl: "relab m (data_of (manager rc1)) (sub m p)"
    and ip: "ilo (ivl (data_of (manager rc1)) p) = ilo (ivl m p)" "ihi (ivl (data_of (manager rc1)) p) = ihi (ivl m p) - uint off"
    and ok: "\<And>x. x \<in> sub m p \<Longrightarrow> node_ok (data_of (manager rc1)) x"
    and c: "cache_ok m (subTreeSizesCache rc1)" and f: "frame (manager rc) (manager rc1)"
  shows "cut_result slackAfter m r a g off rc (offsetSiblingsAfter rc1 a p off)"
proof -
  note D = cut_readyD [OF R]
  obtain xs ys where k: "kids m g = xs @ p # ys" "a \<in> set ys \<longleftrightarrow> a \<in> set (kids m g)"
    using cut_ready_split_after [OF R] by blast
  have ga: "a \<in> set ys \<or> sub m g \<inter> sub m a = {}" and fa: "a \<in> set ys \<Longrightarrow> int (siz m a) \<le> width (ivl m a) + uint off"
    using D(9,10) k(2) by auto
  obtain rc' where r: "offsetSiblingsAfter rc1 a p off = Inr rc'" "frame (manager rc1) (manager rc')"
     "cache_ok m (subTreeSizesCache rc')" "relab m (data_of (manager rc')) (sub m g - {g})"
     "if a \<in> set ys then valid (data_of (manager rc')) r
        else lay (data_of (manager rc')) r a
          \<and> ihi (ivl (data_of (manager rc')) (last (kids m g))) = ihi (ivl m (last (kids m g))) - uint off"
    using offsetSiblingsAfter_ok [OF D(2,3,4) k(1) D(7,8) ga rl ip ok fa c] by blast
  have "ivl (data_of (manager rc')) g = ivl m g" by (rule relabD(2) [OF r(4)]) simp
  then show ?thesis
    unfolding cut_result_def
    using r frame_trans [OF f r(2)] k(2) same_shapeD(2) [OF relabD(1) [OF r(4)]]
    by (intro exI [of _ rc']) (auto simp: slackAfter_def)
qed

lemma cut_stage:
  assumes R: "cut_ready side m r a g p off rc"
    and ok: "\<And>m1. relab m m1 {p} \<Longrightarrow> ivl m1 p = j \<Longrightarrow> node_ok m1 p"
  shows "\<exists>rc1. rc_stageInterval rc p j = Inr rc1 \<and> relab m (data_of (manager rc1)) (sub m p)
    \<and> ivl (data_of (manager rc1)) p = j \<and> (\<forall>x \<in> sub m p. node_ok (data_of (manager rc1)) x)
    \<and> cache_ok m (subTreeSizesCache rc1) \<and> frame (manager rc) (manager rc1)"
proof -
  note D = cut_readyD [OF R]
  note w = layD(1) [OF D(2)]
  have pd: "p \<in> dom m" by (rule tree_wfD(5) [OF w D(6)])
  obtain rt1 where s: "rc_stageInterval rc p j = Inr (rc\<lparr>manager := rt1\<rparr>)" "frame (manager rc) rt1"
     "relab m (data_of rt1) {p}" "ivl (data_of rt1) p = j"
    using rc_stageInterval_ok [of rc r p j] w pd D(1) by auto
  have "node_ok (data_of rt1) x" if "x \<in> sub m p" for x
    by (rule cut_subtree [OF w D(6) s(3) lay_siz(2) [OF D(2) pd D(8)] ok [OF s(3,4)] that])
  moreover have "relab m (data_of rt1) (sub m p)" by (rule relab_mono [OF s(3)]) simp
  ultimately show ?thesis using s D(5) by (intro exI [of _ "rc\<lparr>manager := rt1\<rparr>"]) simp
qed

lemma cut_stage_all:
  assumes R: "cut_ready side m r a g p off rc" and j: "int (siz m p) \<le> width j" "width j < 2 ^ 64"
  shows "\<exists>rc1. rbind (rc_stageInterval rc p j) (\<lambda>rc1. propagateInterval rc1 p) = Inr rc1
    \<and> relab m (data_of (manager rc1)) (sub m p)
    \<and> ivl (data_of (manager rc1)) p = j \<and> (\<forall>x \<in> sub m p. node_ok (data_of (manager rc1)) x)
    \<and> cache_ok m (subTreeSizesCache rc1) \<and> frame (manager rc) (manager rc1)"
proof -
  note D = cut_readyD [OF R]
  note w = layD(1) [OF D(2)]
  obtain rc1 where s: "rbind (rc_stageInterval rc p j) (\<lambda>rc1. propagateInterval rc1 p) = Inr rc1"
     "frame (manager rc) (manager rc1)" "cache_ok (data_of (manager rc1)) (subTreeSizesCache rc1)"
     "relab m (data_of (manager rc1)) (sub m p)" "ivl (data_of (manager rc1)) p = j"
     "\<forall>x \<in> sub m p. node_ok (data_of (manager rc1)) x"
    using stage_propagate_ok [of rc r p j] w tree_wfD(5) [OF w D(6)] D(1,4,5) j by auto
  then show ?thesis using same_shapeD(9) [OF relabD(1) [OF s(4)]] by auto
qed

lemma increaseStart_bounds:
  "ilo i + uint off < 2 ^ 64 \<Longrightarrow> ilo (intervalIncreaseStart i off) = ilo i + uint off"
  "ihi (intervalIncreaseStart i off) = ihi i"
  by (simp_all add: intervalIncreaseStart_def uint_plus_small)

lemma decreaseEnd_bounds:
  "uint off \<le> ihi i \<Longrightarrow> ihi (intervalDecreaseEnd i off) = ihi i - uint off"
  "ilo (intervalDecreaseEnd i off) = ilo i"
  by (simp_all add: intervalDecreaseEnd_def uint_sub_if')

text \<open>A row of children stays laid out when its bounds move within the slack.\<close>

lemma chained_narrow:
  "chained x y (i # is) \<Longrightarrow> x' \<le> ilo i \<Longrightarrow> ihi (last (i # is)) \<le> y' \<Longrightarrow> chained x' y' (i # is)"
proof (induction "is" arbitrary: i x x')
  case (Cons j "is")
  have "chained (ihi i + 1) y' (j # is)"
    by (rule Cons.IH [of "ihi i + 1"]) (use Cons.prems in simp_all)
  moreover have "ihi i \<le> ihi (last (j # is))"
  proof -
    have "chained (ihi i + 1) y (j # is)" using Cons.prems(1) by simp
    from chained_mem [OF this, of "last (j # is)"] last_in_set [of "j # is"] show ?thesis by force
  qed
  ultimately show ?case using Cons.prems by auto
qed simp

lemma node_ok_narrow:
  assumes rl: "relab m m1 {p}" and p: "node_ok m p" "p \<notin> set (kids m p)" "kids m p \<noteq> []"
    and j: "ilo (ivl m1 p) \<le> ilo (ivl m (hd (kids m p)))" "ihi (ivl m (last (kids m p))) \<le> ihi (ivl m1 p) - 1"
      "ilo (ivl m1 p) \<le> ihi (ivl m1 p)"
  shows "node_ok m1 p"
proof -
  have k: "kids m1 p = kids m p" using same_shapeD(2) [OF relabD(1) [OF rl]] by simp
  have iv: "map (ivl m1) (kids m p) = map (ivl m) (kids m p)"
    by (intro map_cong refl relabD(2) [OF rl]) (use p(2) in blast)
  obtain c cs where c: "kids m p = c # cs" using p(3) by (cases "kids m p") auto
  have "chained (ilo (ivl m p)) (ihi (ivl m p) - 1) (map (ivl m) (kids m p))" using p(1) by (simp add: node_ok_def)
  then have "chained (ilo (ivl m1 p)) (ihi (ivl m1 p) - 1) (map (ivl m) (kids m p))"
    unfolding c list.map by (rule chained_narrow) (use j c in \<open>simp_all add: last_map split: if_splits\<close>)
  then show ?thesis using j(3) by (simp add: node_ok_def k iv)
qed

lemma before_cut:
  assumes R: "cut_ready isBefore m r a g p off rc" and k: "kids m p \<noteq> []" and off: "uint off \<le> slackBefore m p"
  shows "cut_result slackBefore m r a g off rc
    (rbind (rc_stageInterval rc p (intervalIncreaseStart (ivl m p) off)) (\<lambda>rc1. offsetSiblingsBefore rc1 a p off))"
proof -
  note D = cut_readyD [OF R]
  note w = layD(1) [OF D(2)]
  have pd: "p \<in> dom m" by (rule tree_wfD(5) [OF w D(6)])
  have pna: "p \<notin> sub m a" by (rule disjoint_self [OF D(8)])
  have e: "(p, hd (kids m p)) \<in> edges m" using k by (simp add: edges_iff)
  let ?j = "intervalIncreaseStart (ivl m p) off"
  have hd: "hd (kids m p) \<in> sub m p" using anc_edge [OF e] by (simp add: sub_def)
  have ne: "ilo (ivl m (hd (kids m p))) \<le> ihi (ivl m (hd (kids m p)))"
    using lay_siz(2) [OF D(2) pd D(8) hd] by (simp add: node_ok_def)
  have lt: "ilo (ivl m p) + uint off \<le> ilo (ivl m (hd (kids m p)))" using off by (simp add: slackBefore_def)
  note rb = row_bounds [OF D(2) e pna]
  have le: "ilo (ivl m p) + uint off \<le> ihi (ivl m p)" using lt rb(3,4) ne by linarith
  have j: "ilo ?j = ilo (ivl m p) + uint off" "ihi ?j = ihi (ivl m p)"
    using increaseStart_bounds [of "ivl m p" off] le lay_bounds(3) [OF D(2) pd pna] by auto
  have pk: "p \<notin> set (kids m p)" using sub_not_above [OF w, of p p] by (auto simp: edges_iff)
  have ok: "node_ok m1 p" if "relab m m1 {p}" "ivl m1 p = ?j" for m1
    using node_ok_narrow [OF that(1) lay_siz(2) [OF D(2) pd D(8) sub_self] pk k] lt rb(4) le j that(2) by simp
  obtain rc1 where s: "rc_stageInterval rc p ?j = Inr rc1" "relab m (data_of (manager rc1)) (sub m p)"
    "ivl (data_of (manager rc1)) p = ?j" "\<And>x. x \<in> sub m p \<Longrightarrow> node_ok (data_of (manager rc1)) x"
    "cache_ok m (subTreeSizesCache rc1)" "frame (manager rc) (manager rc1)"
    using cut_stage [OF R ok] by blast
  then show ?thesis using before_finish [OF R s(2) _ _ s(4,5,6)] j by simp
qed

lemma before_cut_all:
  assumes R: "cut_ready isBefore m r a g p off rc" and off: "int (siz m p) + uint off \<le> width (ivl m p)"
  shows "cut_result slackBefore m r a g off rc
    (rbind (rc_stageInterval rc p (intervalIncreaseStart (ivl m p) off)) (\<lambda>rc1.
       rbind (propagateInterval rc1 p) (\<lambda>rc2. offsetSiblingsBefore rc2 a p off)))"
proof -
  note D = cut_readyD [OF R]
  have pd: "p \<in> dom m" by (rule tree_wfD(5) [OF layD(1) [OF D(2)] D(6)])
  have b: "1 \<le> ilo (ivl m p)" "ihi (ivl m p) \<le> 2 ^ 64 - 2"
    using lay_bounds [OF D(2) pd disjoint_self [OF D(8)]] by auto
  let ?j = "intervalIncreaseStart (ivl m p) off"
  have j: "ilo ?j = ilo (ivl m p) + uint off" "ihi ?j = ihi (ivl m p)"
    using increaseStart_bounds [of "ivl m p" off] off b by (auto simp: width_def)
  have "int (siz m p) \<le> width ?j" "width ?j < 2 ^ 64"
    using off b uint_ge_0 [of off] j unfolding width_def by linarith+
  from cut_stage_all [OF R this] obtain rc1 where s:
    "rbind (rc_stageInterval rc p ?j) (\<lambda>rc1. propagateInterval rc1 p) = Inr rc1" "relab m (data_of (manager rc1)) (sub m p)"
    "ivl (data_of (manager rc1)) p = ?j" "\<And>x. x \<in> sub m p \<Longrightarrow> node_ok (data_of (manager rc1)) x"
    "cache_ok m (subTreeSizesCache rc1)" "frame (manager rc) (manager rc1)"
    by blast
  have "rbind (rc_stageInterval rc p ?j) (\<lambda>rc1. rbind (propagateInterval rc1 p) (\<lambda>rc2. offsetSiblingsBefore rc2 a p off))
      = offsetSiblingsBefore rc1 a p off"
    using s(1) by (auto simp: rbind_Inr_iff)
  then show ?thesis using before_finish [OF R s(2) _ _ s(4,5,6)] j s(3) by simp
qed

lemma after_cut_slack:
  assumes R: "cut_ready isAfter m r a g p off rc" and k: "kids m p \<noteq> []" and off: "uint off \<le> slackAfter m p"
  shows "cut_result slackAfter m r a g off rc
    (rbind (rc_stageInterval rc p (intervalDecreaseEnd (ivl m p) off)) (\<lambda>rc1. offsetSiblingsAfter rc1 a p off))"
proof -
  note D = cut_readyD [OF R]
  note w = layD(1) [OF D(2)]
  have pd: "p \<in> dom m" by (rule tree_wfD(5) [OF w D(6)])
  have pna: "p \<notin> sub m a" by (rule disjoint_self [OF D(8)])
  have e: "(p, last (kids m p)) \<in> edges m" using k by (simp add: edges_iff)
  let ?j = "intervalDecreaseEnd (ivl m p) off"
  have la: "last (kids m p) \<in> sub m p" using anc_edge [OF e] by (simp add: sub_def)
  have ne: "ilo (ivl m (last (kids m p))) \<le> ihi (ivl m (last (kids m p)))"
    using lay_siz(2) [OF D(2) pd D(8) la] by (simp add: node_ok_def)
  have lt: "ihi (ivl m (last (kids m p))) \<le> ihi (ivl m p) - uint off - 1" using off by (simp add: slackAfter_def)
  note rb = row_bounds [OF D(2) e pna]
  have le: "ilo (ivl m p) \<le> ihi (ivl m p) - uint off" using lt rb(1,2) ne by linarith
  have j: "ilo ?j = ilo (ivl m p)" "ihi ?j = ihi (ivl m p) - uint off"
    using decreaseEnd_bounds [where i = "ivl m p" and off = off] le lay_bounds(1) [OF D(2) pd pna] by auto
  have pk: "p \<notin> set (kids m p)" using sub_not_above [OF w, of p p] by (auto simp: edges_iff)
  have ok: "node_ok m1 p" if "relab m m1 {p}" "ivl m1 p = ?j" for m1
    using node_ok_narrow [OF that(1) lay_siz(2) [OF D(2) pd D(8) sub_self] pk k] lt rb(1) le j that(2) by simp
  obtain rc1 where s: "rc_stageInterval rc p ?j = Inr rc1" "relab m (data_of (manager rc1)) (sub m p)"
    "ivl (data_of (manager rc1)) p = ?j" "\<And>x. x \<in> sub m p \<Longrightarrow> node_ok (data_of (manager rc1)) x"
    "cache_ok m (subTreeSizesCache rc1)" "frame (manager rc) (manager rc1)"
    using cut_stage [OF R ok] by blast
  then show ?thesis using after_finish [OF R s(2) _ _ s(4,5,6)] j by simp
qed

lemma after_cut_all:
  assumes R: "cut_ready isAfter m r a g p off rc" and off: "int (siz m p) + uint off \<le> width (ivl m p)"
  shows "cut_result slackAfter m r a g off rc
    (rbind (rc_stageInterval rc p (intervalDecreaseEnd (ivl m p) off)) (\<lambda>rc1.
       rbind (propagateInterval rc1 p) (\<lambda>rc2. offsetSiblingsAfter rc2 a p off)))"
proof -
  note D = cut_readyD [OF R]
  have pd: "p \<in> dom m" by (rule tree_wfD(5) [OF layD(1) [OF D(2)] D(6)])
  have b: "1 \<le> ilo (ivl m p)" "ihi (ivl m p) \<le> 2 ^ 64 - 2"
    using lay_bounds [OF D(2) pd disjoint_self [OF D(8)]] by auto
  let ?j = "intervalDecreaseEnd (ivl m p) off"
  have j: "ilo ?j = ilo (ivl m p)" "ihi ?j = ihi (ivl m p) - uint off"
    using decreaseEnd_bounds [where i = "ivl m p" and off = off] off b by (auto simp: width_def)
  have "int (siz m p) \<le> width ?j" "width ?j < 2 ^ 64"
    using off b uint_ge_0 [of off] j unfolding width_def by linarith+
  from cut_stage_all [OF R this] obtain rc1 where s:
    "rbind (rc_stageInterval rc p ?j) (\<lambda>rc1. propagateInterval rc1 p) = Inr rc1" "relab m (data_of (manager rc1)) (sub m p)"
    "ivl (data_of (manager rc1)) p = ?j" "\<And>x. x \<in> sub m p \<Longrightarrow> node_ok (data_of (manager rc1)) x"
    "cache_ok m (subTreeSizesCache rc1)" "frame (manager rc) (manager rc1)"
    by blast
  have "rbind (rc_stageInterval rc p ?j) (\<lambda>rc1. rbind (propagateInterval rc1 p) (\<lambda>rc2. offsetSiblingsAfter rc2 a p off))
      = offsetSiblingsAfter rc1 a p off"
    using s(1) by (auto simp: rbind_Inr_iff)
  then show ?thesis using after_finish [OF R s(2) _ _ s(4,5,6)] j s(3) by simp
qed

interpretation before: direction remainingSlackBefore intervalIncreaseStart offsetSiblingsBefore slackBefore isBefore
  by unfold_locales
    (fact slk_before slack_widths(1) slack_frames(1) side_shapes(1) before_cut before_cut_all)+

interpretation after: direction remainingSlackAfter intervalDecreaseEnd offsetSiblingsAfter slackAfter isAfter
  by unfold_locales
    (fact slk_after slack_widths(2) slack_frames(2) side_shapes(2) after_cut_slack after_cut_all)+

end
