(* ===== verification/Reachability_Insertion.thy ===== *)
theory Reachability_Insertion
  imports Reachability_Directions
begin

text \<open>
  \<^verbatim>\<open>reindexIntervals\<close> and \<^verbatim>\<open>addChild\<close> for every position of the new block: below the reindex root,
  and beside it, where the intervals are reclaimed from the chain to the reindex root.
\<close>

section \<open>Finding the next ancestor in a tree that is laid out up to a subtree\<close>

lemma wchained_less:
  "wchained x y is \<Longrightarrow> i < j \<Longrightarrow> j < length is \<Longrightarrow> ihi (is ! i) < ilo (is ! j)"
proof (induction "is" arbitrary: x i j)
  case (Cons h t)
  obtain k where k: "j = Suc k" using Cons.prems(2) by (cases j) auto
  have t: "wchained (ihi h + 1) y t" using Cons.prems(1) by simp
  show ?case
  proof (cases i)
    case 0
    have "t ! k \<in> set t" using Cons.prems(3) k by simp
    from wchained_mem [OF t this] show ?thesis using 0 k by simp
  next
    case (Suc l)
    then show ?thesis using Cons.IH [OF t, of l k] Cons.prems k by simp
  qed
qed simp

lemma lay_anc:
  assumes l: "lay m r a" and b: "anc m x y" "y \<notin> sub m a" "x \<in> dom m"
  shows "ilo (ivl m x) \<le> ilo (ivl m y) \<and> ihi (ivl m y) \<le> ihi (ivl m x)"
proof -
  have "(x, y) \<in> (edges m)\<^sup>*" using b(1) by (simp add: anc_def)
  then show ?thesis using b(2)
  proof (induction rule: rtrancl_induct)
    case (step y z)
    have "y \<notin> sub m a" using sub_child [OF step.hyps(2)] step.prems by blast
    then show ?case using step.IH lay_edge [OF l step.hyps(2)] by linarith
  qed simp
qed

lemma lay_row:
  assumes l: "lay m r a" and x: "x \<in> dom m" "x \<notin> sub m a" and ij: "i < j" "j < length (kids m x)"
  shows "ihi (ivl m (kids m x ! i)) < ilo (ivl m (kids m x ! j))"
    "ilo (ivl m (kids m x ! i)) \<le> ihi (ivl m (kids m x ! i)) + 1"
proof -
  have "wchained (ilo (ivl m x)) (ihi (ivl m x) - 1) (map (ivl m) (kids m x))"
    using layD(2) [OF l x] by (simp add: wok_def)
  from wchained_less [OF this ij(1)] wchained_mem [OF this, of "ivl m (kids m x ! i)"] ij
  show "ihi (ivl m (kids m x ! i)) < ilo (ivl m (kids m x ! j))"
    "ilo (ivl m (kids m x ! i)) \<le> ihi (ivl m (kids m x ! i)) + 1" by auto
qed

lemma lay_FindNextAncestor:
  assumes l: "lay (data_of rt) r a" and e: "(x, y) \<in> edges (data_of rt)" "anc (data_of rt) y d"
    and x: "x \<notin> sub (data_of rt) a" and d: "d \<notin> sub (data_of rt) a"
  shows "FindNextAncestor rt d x = Inr y"
proof -
  let ?m = "data_of rt"
  note w = layD(1) [OF l]
  have xd: "x \<in> dom ?m" by (rule edge_dom [OF e(1)])
  have yd: "y \<in> dom ?m" by (rule tree_wfD(5) [OF w e(1)])
  have dd: "d \<in> dom ?m" by (rule anc_dom [OF w e(2) yd])
  obtain i where i: "i < length (kids ?m x)" "kids ?m x ! i = y" using e(1) by (auto simp: edges_iff in_set_conv_nth)
  have iv: "interval rt (kids ?m x ! k) = Inr (Some (ivl ?m (kids ?m x ! k)))" if "k < length (kids ?m x)" for k
    by (rule interval_ivl [OF w]) (use tree_wfD(5) [OF w, of x "kids ?m x ! k"] that in \<open>simp add: edges_iff\<close>)
  have srt: "ilo (ivl ?m (kids ?m x ! i)) \<le> ilo (ivl ?m (kids ?m x ! j))" if "i < j" "j < length (kids ?m x)" for i j
    using lay_row [OF l xd x that] by linarith
  obtain n where n: "n \<le> length (kids ?m x)"
    "searchAncestorIndex rt (kids ?m x) (End (ivl ?m d)) 0 (length (kids ?m x)) = Inr n"
    "\<forall>k < n. ilo (ivl ?m (kids ?m x ! k)) \<le> ihi (ivl ?m d)"
    "\<forall>k < length (kids ?m x). n \<le> k \<longrightarrow> ihi (ivl ?m d) < ilo (ivl ?m (kids ?m x ! k))"
    using searchAncestorIndex_ok [OF iv srt, where low = 0 and high = "length (kids ?m x)" and e = "End (ivl ?m d)"] by auto
  have c: "ilo (ivl ?m y) \<le> ilo (ivl ?m d)" "ihi (ivl ?m d) \<le> ihi (ivl ?m y)" using lay_anc [OF l e(2) d yd] by auto
  have "i < n" using n(4) i c lay_bounds(2) [OF l dd d] by fastforce
  moreover have "n \<le> Suc i"
  proof (rule ccontr)
    assume "\<not> n \<le> Suc i"
    then have "ihi (ivl ?m (kids ?m x ! i)) < ilo (ivl ?m (kids ?m x ! Suc i))" "ilo (ivl ?m (kids ?m x ! Suc i)) \<le> ihi (ivl ?m d)"
      using lay_row(1) [OF l xd x, of i "Suc i"] n(1,3) by auto
    then show False using c i(2) by simp
  qed
  ultimately have "n = Suc i" by simp
  then show ?thesis
    using n(2) i by (simp add: FindNextAncestor_def findAncestorOfNode_def children_kids [OF xd] findAncestorIndexOfNode_def
        interval_ivl [OF w dd])
qed

lemma pending_lay:
  assumes P: "pending m m1 r p c" and a: "anc m1 a c" "(g, a) \<in> edges m1"
  shows "lay m1 r a"
proof -
  note w = pendingD(6) [OF P] and v = pendingD(1) [OF P]
  have "wok m1 h" if h: "h \<in> dom m1" "h \<notin> sub m1 a" for h
  proof -
    have "h \<noteq> c" using h(2) a(1) by (auto simp: sub_def)
    then have hm: "h \<in> dom m" using h(1) pendingD(7) [OF P] by blast
    show ?thesis
    proof (cases "h = p")
      case False
      then show ?thesis using pending_node_ok [OF P hm] by (simp add: node_ok_def wok_def chained_wchained)
    next
      case True
      have n: "node_ok m p" by (rule validD(2) [OF v pendingD(2) [OF P]])
      have k: "set (kids m p) \<subseteq> dom m" using tree_wfD(5) [OF validD(1) [OF v]] by (metis edges_iff subsetI)
      then have iv: "map (ivl m1) (kids m p) = map (ivl m) (kids m p)" using pendingD(8) [OF P] by (intro map_cong) auto
      note B = room_bounds [OF v pendingD(2) [OF P]]
      have "wchained (ilo (ivl m p)) (ihi (ivl m p) - 1) (map (ivl m) (kids m p) @ [room m p])"
        unfolding wchained_append
        using n B by (simp add: node_ok_def chained_wchained last_map)
      then show ?thesis
        using n True pendingD(8) [OF P pendingD(2) [OF P]] by (simp add: wok_def node_ok_def pendingD(9,12) [OF P] iv)
    qed
  qed
  moreover have "r \<notin> sub m1 a"
  proof
    assume "r \<in> sub m1 a"
    then have "anc m1 a g" using tree_wfD(7) [OF w edge_dom [OF a(2)]] anc_trans by (auto simp: sub_def)
    then show False using sub_not_above [OF w a(2)] by (simp add: sub_def)
  qed
  ultimately show ?thesis
    using w validD(3,4) [OF v] pendingD(8) [OF P tree_wfD(2) [OF validD(1) [OF v]]] by (simp add: lay_def)
qed

section \<open>A block that is not below the reindex root\<close>

lemma anc_path:
  assumes "anc m x y"
  shows "\<exists>ps. chain m x ps \<and> last (x # ps) = y"
proof -
  have "(x, y) \<in> (edges m)\<^sup>*" using assms by (simp add: anc_def)
  then show ?thesis
  proof (induction rule: converse_rtrancl_induct)
    case base
    show ?case by (rule exI [of _ "[]"]) simp
  next
    case (step x z)
    then obtain ps where "chain m z ps" "last (z # ps) = y" by blast
    then show ?case using step.hyps(1) by (intro exI [of _ "z # ps"]) simp
  qed
qed

lemma chain_length:
  assumes w: "tree_wf m r"
  shows "chain m x ps \<Longrightarrow> length ps + siz m (last (x # ps)) \<le> siz m x"
proof (induction ps arbitrary: x)
  case (Cons p ps)
  then show ?case using siz_edge [OF w, of x p] by fastforce
qed simp

lemma siz_disjoint:
  assumes w: "tree_wf m r" and d: "x \<in> dom m" "y \<in> dom m" "sub m x \<inter> sub m y = {}"
  shows "siz m x + siz m y \<le> card (dom m)"
proof -
  have "card (sub m x \<union> sub m y) \<le> card (dom m)" using sub_dom [OF w] d by (intro card_mono tree_wfD(1) [OF w]) auto
  then show ?thesis using card_Un_disjoint [OF finite_sub [OF w d(1)] finite_sub [OF w d(2)] d(3)] by (simp add: siz_def)
qed

lemma split_nth: "i < j \<Longrightarrow> j < length xs \<Longrightarrow> \<exists>ys zs. xs = ys @ xs ! j # zs \<and> xs ! i \<in> set ys"
  by (intro exI [of _ "take j xs"] exI [of _ "drop (Suc j) xs"])
    (auto simp: id_take_nth_drop [symmetric] in_set_conv_nth intro!: exI [of _ i])

lemma split_nth_after: "i < j \<Longrightarrow> j < length xs \<Longrightarrow> \<exists>ys zs. xs = ys @ xs ! i # zs \<and> xs ! j \<in> set zs"
  by (intro exI [of _ "take i xs"] exI [of _ "drop (Suc i) xs"])
    (auto simp: id_take_nth_drop [symmetric] in_set_conv_nth intro!: exI [of _ "j - Suc i"])

text \<open>The new leaf is the last child of its parent, so an empty interval is never left of a sibling.\<close>

lemma pending_side:
  assumes P: "pending m m1 r p c" and a: "anc m1 a c" "(g, a) \<in> edges m1" and C: "(g, C) \<in> edges m1" "C \<noteq> a"
    and Ca: "C \<notin> sub m1 a"
  shows "if Start (ivl m1 a) < Start (ivl m1 C) then isBefore m1 g C a else isAfter m1 g C a"
proof -
  note w = pendingD(6) [OF P] and l = pending_lay [OF P a]
  have gd: "g \<in> dom m1" by (rule edge_dom [OF a(2)])
  have ga: "g \<notin> sub m1 a" by (rule sub_not_above [OF w a(2)])
  obtain i j where ij: "i < length (kids m1 g)" "kids m1 g ! i = a" "j < length (kids m1 g)" "kids m1 g ! j = C"
    using a(2) C(1) by (auto simp: edges_iff in_set_conv_nth)
  have wC: "ilo (ivl m1 C) \<le> ihi (ivl m1 C)" by (rule lay_bounds(2) [OF l tree_wfD(5) [OF w C(1)] Ca])
  consider "i < j" | "j < i" using ij C(2) by (metis nat_neq_iff)
  then show ?thesis
  proof cases
    case 1
    have "a \<noteq> c"
    proof
      assume ac: "a = c"
      then have "par m1 a = Some p" using pendingD(13) [OF P] by simp
      then have "g = p" using a(2) tree_wfD(6) [OF w] by simp
      then have "kids m1 g = kids m p @ [c]" using pendingD(12) [OF P] by simp
      moreover have "distinct (kids m1 g)" by (rule tree_wfD(4) [OF w gd])
      ultimately show False using 1 ij ac by (auto simp: nth_append in_set_conv_nth split: if_splits)
    qed
    then have am: "a \<in> dom m" using tree_wfD(5) [OF w a(2)] pendingD(7) [OF P] by blast
    then have "ilo (ivl m1 a) \<le> ihi (ivl m1 a)"
      using ivl_bounds(2) [OF pendingD(1) [OF P] am] pendingD(8) [OF P am] by simp
    then have "ilo (ivl m1 a) < ilo (ivl m1 C)" using lay_row(1) [OF l gd ga 1 ij(3)] ij by simp
    then have "Start (ivl m1 a) < Start (ivl m1 C)" by (simp add: word_less_def)
    then show ?thesis using split_nth [OF 1 ij(3)] ij by (simp add: isBefore_def)
  next
    case 2
    have "ilo (ivl m1 C) < ilo (ivl m1 a)" using lay_row(1) [OF l gd ga 2 ij(1)] ij wC by simp
    then have "\<not> Start (ivl m1 a) < Start (ivl m1 C)" by (simp add: word_less_def)
    then show ?thesis using split_nth_after [OF 2 ij(1)] ij by (simp add: isAfter_def)
  qed
qed

text \<open>
  The reindex root has \<open>capacity\<close> when its interval can hold every block of the tree with the slack
  that \<^verbatim>\<open>reclaimIntervalBefore\<close> leaves on the way.
\<close>

definition capacity :: "tree \<Rightarrow> u64 \<Rightarrow> DomainHash \<Rightarrow> bool" where
  "capacity m slack R \<longleftrightarrow> int (Suc (card (dom m))) * (1 + uint slack) \<le> width (ivl m R)"

lemma reclaimed_run:
  assumes "reclaimed slk mv sib rc a G m r n (gen_up slk mv sib f rc a R req C 0 0)" "n < f'"
    and "data_of (manager rc) = m"
  shows "\<exists>rc'. rbind (gen_up slk mv sib f rc a R req C 0 0) (\<lambda>(rc', Q, ps). gen_down slk mv sib f' rc' a G ps Q) = Inr rc'
     \<and> reindexed (manager rc) (manager rc') r"
proof -
  obtain rc1 Q ps where 1: "gen_up slk mv sib f rc a R req C 0 0 = Inr (rc1, Q, ps)"
    "\<forall>fuel > n. \<exists>rc''. gen_down slk mv sib fuel rc1 a G ps Q = Inr rc'' \<and> frame (manager rc) (manager rc'')
          \<and> same_shape m (data_of (manager rc'')) \<and> valid (data_of (manager rc'')) r"
    using assms(1) unfolding reclaimed_def by blast
  then obtain rc2 where 2: "gen_down slk mv sib f' rc1 a G ps Q = Inr rc2" "frame (manager rc) (manager rc2)"
    "same_shape m (data_of (manager rc2))" "valid (data_of (manager rc2)) r"
    using assms(2) by blast
  then show ?thesis using 1(1) assms(3) by (intro exI [of _ rc2]) (simp add: reindexed_def)
qed

lemma earlierThanRoot_ok:
  assumes P: "pending m (data_of rt) r p c" and big: "card (dom (data_of rt)) < 2 ^ 64"
    and rc: "manager rc = rt" "cache_ok (data_of rt) (subTreeSizesCache rc)"
    and a: "anc (data_of rt) a c" "(g, a) \<in> edges (data_of rt)" "\<not> anc (data_of rt) a R"
    and g: "anc m g R" "g \<noteq> R" "R \<in> dom m" and cap: "capacity m (reindexSlack rt) R"
  shows "\<exists>rc'. reindexIntervalsEarlierThanRoot rc a R g (of_nat (siz (data_of rt) a)) = Inr rc'
     \<and> reindexed rt (manager rc') r"
proof -
  let ?m = "data_of rt"
  note w = pendingD(6) [OF P]
  note l = pending_lay [OF P a(1,2)]
  have ad: "a \<in> dom ?m" by (rule tree_wfD(5) [OF w a(2)])
  have ga: "g \<notin> sub ?m a" by (rule sub_not_above [OF w a(2)])
  have Ra: "R \<notin> sub ?m a" using a(3) by (simp add: sub_def)
  have "anc ?m g R" using g(1) unfolding pending_anc [OF P] by blast
  then obtain C where C: "(g, C) \<in> edges ?m" "anc ?m C R" using g(2) unfolding anc_def by (meson converse_rtranclE)
  have Cd: "C \<in> dom ?m" by (rule tree_wfD(5) [OF w C(1)])
  have Cn: "C \<noteq> a" using C(2) a(3) by blast
  have dis: "sub ?m C \<inter> sub ?m a = {}" by (rule sub_disjoint [OF w C(1) a(2) Cn])
  have Rd: "R \<in> dom ?m" by (rule anc_dom [OF w C(2) Cd])
  obtain ps where ps: "chain ?m C ps" "last (C # ps) = R" using anc_path [OF C(2)] by blast
  have path: "chain ?m g ([] @ C # ps)" using ps(1) C(1) by simp
  have disx: "sub ?m x \<inter> sub ?m a = {}" if "x \<in> set ([] @ C # ps)" for x
  proof -
    have "x \<in> sub ?m C" using that chain_anc [OF ps(1)] by (auto simp: sub_def)
    then show ?thesis using dis sub_trans by blast
  qed
  have nxt: "FindNextAncestor (manager rc) R x = Inr y"
    if "(x, y) \<in> edges ?m" "anc ?m y R" "sub ?m x \<inter> sub ?m a = {}" for x y
    using lay_FindNextAncestor [OF l that(1,2) disjoint_self [OF that(3)] Ra] rc(1) by simp
  have first: "FindNextAncestor (manager rc) R g = Inr C" using lay_FindNextAncestor [OF l C ga Ra] rc(1) by simp
  have len: "length ps < card (dom ?m)" using chain_length [OF w ps(1)] siz_pos [OF w Rd] siz_le [OF w Cd] ps(2) by simp
  have fuel: "length ps < rc_fuel rc" using len card_dom_fuel [of rt] rc(1) by (simp add: rc_fuel_def)
  have two: "siz ?m R + siz ?m a \<le> card (dom ?m)"
    by (rule siz_disjoint [OF w Rd ad]) (use disx [of R] ps(2) in \<open>cases ps rule: rev_cases; simp\<close>)
  let ?sl = "uint (reindexSlack rt)"
  have cap': "int (siz ?m R) + int (siz ?m a) + ?sl * int (length ([] @ ps)) \<le> width (ivl ?m R)"
  proof -
    have "card (dom ?m) = Suc (card (dom m))"
      using pendingD(3,7) [OF P] tree_wfD(1) [OF validD(1) [OF pendingD(1) [OF P]]] by simp
    then have "int (card (dom ?m)) * (1 + ?sl) \<le> width (ivl ?m R)"
      using cap pendingD(8) [OF P g(3)] by (simp add: capacity_def)
    moreover have "?sl * int (length ps) \<le> ?sl * int (card (dom ?m))" using len by (intro mult_left_mono) auto
    ultimately show ?thesis using two by (simp add: algebra_simps)
  qed
  have rc': "data_of (manager rc) = ?m" "reindexSlack (manager rc) = reindexSlack rt" using rc(1) by simp_all
  have pos: "(\<Sum>x\<leftarrow>take k []. f x) < int (siz ?m a)" for f :: "DomainHash \<Rightarrow> int" and k
    using siz_pos [OF w ad] by simp
  have b: "reclaimed remainingSlackBefore intervalIncreaseStart offsetSiblingsBefore rc a g ?m r (length ([] @ ps))
     (gen_up remainingSlackBefore intervalIncreaseStart offsetSiblingsBefore (rc_fuel rc) rc a R (of_nat (siz ?m a)) C 0 0)"
    if "isBefore ?m g C a"
    by (rule before.up_ok [OF l a(2) ga big rc'(1) rc(2) rc'(2) nxt path ps(2) disx _ _ _ pos cap' fuel]) (use that in simp_all)
  have f: "reclaimed remainingSlackAfter intervalDecreaseEnd offsetSiblingsAfter rc a g ?m r (length ([] @ ps))
     (gen_up remainingSlackAfter intervalDecreaseEnd offsetSiblingsAfter (rc_fuel rc) rc a R (of_nat (siz ?m a)) C 0 0)"
    if "isAfter ?m g C a"
    by (rule after.up_ok [OF l a(2) ga big rc'(1) rc(2) rc'(2) nxt path ps(2) disx _ _ _ pos cap' fuel]) (use that in simp_all)
  have iv: "interval (manager rc) a = Inr (Some (ivl ?m a))" "interval (manager rc) C = Inr (Some (ivl ?m C))"
    using interval_ivl [OF w ad] interval_ivl [OF w Cd] rc(1) by simp_all
  have eq: "reindexIntervalsEarlierThanRoot rc a R g n = (if Start (ivl ?m a) < Start (ivl ?m C)
      then reclaimIntervalBefore rc a g C R n else reclaimIntervalAfter rc a g C R n)" for n
    using first iv by (simp add: reindexIntervalsEarlierThanRoot_def)
  have fl: "length ([] @ ps) < rc_fuel rc" using fuel by simp
  note side = pending_side [OF P a(1,2) C(1) Cn disjoint_self [OF dis]]
  show ?thesis
  proof (cases "Start (ivl ?m a) < Start (ivl ?m C)")
    case True
    then have "isBefore ?m g C a" using side by simp
    from reclaimed_run [OF b [OF this] fl rc'(1)] show ?thesis
      unfolding eq using True rc(1) by (simp add: reclaimIntervalBefore_def gen_loops)
  next
    case False
    then have "isAfter ?m g C a" using side by simp
    from reclaimed_run [OF f [OF this] fl rc'(1)] show ?thesis
      unfolding eq using False rc(1) by (simp add: reclaimIntervalAfter_def gen_loops)
  qed
qed

section \<open>reindexIntervals and addChild\<close>

lemma reindexIntervals_ok:
  assumes P: "pending m (data_of rt) r p c" and big: "card (dom (data_of rt)) < 2 ^ 64"
    and R: "R \<in> dom m" and cap: "capacity m (reindexSlack rt) R"
  shows "\<exists>rc'. reindexIntervals (newReindexContext rt) c R = Inr rc' \<and> reindexed rt (manager rc') r"
proof -
  let ?m = "data_of rt" and ?rc = "newReindexContext rt"
  note w = pendingD(6) [OF P]
  have rc: "manager ?rc = rt" "cache_ok ?m (subTreeSizesCache ?rc)" by (simp_all add: newReindexContext_def cache_ok_def)
  have cd: "c \<in> dom ?m" using pendingD(7) [OF P] by simp
  have cR: "\<not> anc m c R"
  proof
    assume "anc m c R"
    then have "c = R \<or> c \<in> dom m" unfolding anc_def by (metis converse_rtranclE edge_dom)
    then show False using pendingD(3) [OF P] R by blast
  qed
  have fuel: "siz ?m r - siz ?m c < rc_fuel ?rc"
    using siz_le [OF w tree_wfD(2) [OF w]] card_dom_fuel [of rt] by (simp add: rc_fuel_def rc)
  have Rd: "R \<in> dom ?m" using R pendingD(7) [OF P] by simp
  have "int (siz ?m R) \<le> width (ivl m R)"
  proof -
    have "card (dom ?m) = Suc (card (dom m))"
      using pendingD(3,7) [OF P] tree_wfD(1) [OF validD(1) [OF pendingD(1) [OF P]]] by simp
    then have "int (siz ?m R) \<le> int (Suc (card (dom m)))" using siz_le [OF w Rd] by simp
    also have "\<dots> \<le> int (Suc (card (dom m))) * (1 + uint (reindexSlack rt))"
      by (simp only: mult_le_cancel_left1) simp
    finally show ?thesis using cap by (simp add: capacity_def)
  qed
  then have nR: "\<not> (anc m R p \<and> width (ivl m R) < int (siz ?m R))" by simp
  consider rc' where "reindexIntervals_loop (rc_fuel ?rc) ?rc R c = Inr rc'" "reindexed rt (manager rc') r"
    | rc' a g where "reindexIntervals_loop (rc_fuel ?rc) ?rc R c = reindexIntervalsEarlierThanRoot rc' a R g (of_nat (siz ?m a))"
      "manager rc' = rt" "cache_ok ?m (subTreeSizesCache rc')" "anc ?m a c" "(g, a) \<in> edges ?m" "\<not> anc ?m a R"
      "anc m g R" "g \<noteq> R"
    using reindexIntervals_loop_cases [OF P big R rc anc_refl cd _ fuel] cR nR by blast
  then show ?thesis
  proof cases
    case 1
    then show ?thesis by (simp add: reindexIntervals_def)
  next
    case 2
    then show ?thesis using earlierThanRoot_ok [OF P big 2(2-8) R cap] by (simp add: reindexIntervals_def)
  qed
qed

lemma addChild_ok:
  assumes v: "valid m r" and p: "p \<in> dom m" and c: "c \<notin> dom m" and rt: "data_of rt = m(c \<mapsto> newReachabilityTreeData)"
    and big: "Suc (card (dom m)) < 2 ^ 64" and R: "R \<in> dom m" and cap: "capacity m (reindexSlack rt) R"
  shows "\<exists>rt' i. addChild rt p c R = Inr rt' \<and> frame rt rt' \<and> valid (data_of rt') r
     \<and> same_shape (add_leaf m p c i) (data_of rt')"
proof -
  obtain rt2 where s: "remainingIntervalAfter rt p = Inr (room m p)"
    "rbind (stageAddChild rt p c) (\<lambda>rt1. stageParent rt1 c p) = Inr rt2" "frame rt rt2"
    "\<And>i. \<exists>rt3. stageInterval rt2 c i = Inr rt3 \<and> frame rt rt3 \<and> data_of rt3 = add_leaf m p c i"
    using addChild_start [OF v p c rt] by blast
  obtain rt1 where s1: "stageAddChild rt p c = Inr rt1" "stageParent rt1 c p = Inr rt2"
    using s(2) by (auto simp: rbind_Inr_iff)
  have fin: "finite (dom m)" by (rule tree_wfD(1) [OF validD(1) [OF v]])
  show ?thesis
  proof (cases "intervalSize (room m p) = 0")
    case True
    then have z: "width (room m p) = 0" using room_empty [OF v p] by simp
    obtain rt3 where r3: "stageInterval rt2 c (room m p) = Inr rt3" "frame rt rt3" "data_of rt3 = add_leaf m p c (room m p)"
      using s(4) by blast
    have P: "pending m (data_of rt3) r p c" using v p c z r3(3) by (simp add: pending_def)
    have "card (dom (data_of rt3)) < 2 ^ 64" "capacity m (reindexSlack rt3) R"
      using big cap r3(2) pendingD(7) [OF P] c fin by (simp_all add: frame_def)
    from reindexIntervals_ok [OF P this(1) R this(2)] obtain rc where rc:
      "reindexIntervals (newReindexContext rt3) c R = Inr rc" "reindexed rt3 (manager rc) r" by blast
    have "addChild rt p c R = Inr (manager rc)"
      using s(1) s1 True r3(1) rc(1) by (simp add: addChild_def)
    then show ?thesis using rc(2) frame_trans [OF r3(2)] r3(3) unfolding reindexed_def by auto
  next
    case False
    note B = room_bounds [OF v p]
    have "0 < width (room m p)" using False room_empty [OF v p] B(3) by (auto simp: width_def)
    then obtain l ri where l: "intervalSplitInHalf (rm_conv rt2) (room m p) = Inr (l, ri)" "Start l = Start (room m p)"
      "ilo l \<le> ihi l" "ihi l \<le> ihi (room m p)"
      using splitInHalf_ok [OF _ B(5)] by blast
    obtain rt3 where r3: "stageInterval rt2 c l = Inr rt3" "frame rt rt3" "data_of rt3 = add_leaf m p c l"
      using s(4) by blast
    have "valid (add_leaf m p c l) r" by (rule add_leaf_valid [OF v p c]) (use l in simp_all)
    moreover have "addChild rt p c R = Inr rt3" using s(1) s1 False l(1) r3(1) by (simp add: addChild_def)
    ultimately show ?thesis using r3 by (intro exI [of _ rt3] exI [of _ l]) simp
  qed
qed

end
