(* ===== verification/Reachability_Dag.thy ===== *)
theory Reachability_Dag
  imports Reachability_Insertion
begin

text \<open>
  The reachability store answers questions about the DAG: \<^verbatim>\<open>AddBlock\<close> of
  \<^verbatim>\<open>reachabilitymanager.go\<close> keeps the tree valid and the future covering sets exact.
\<close>

section \<open>The DAG\<close>

text \<open>\<open>dag_anc P a b\<close>: block \<open>a\<close> is \<open>b\<close> or in its past, where \<open>P\<close> gives the parents of a block.\<close>

definition dag_anc :: "(DomainHash \<Rightarrow> DomainHash list) \<Rightarrow> DomainHash \<Rightarrow> DomainHash \<Rightarrow> bool" where
  "dag_anc P a b \<longleftrightarrow> (a, b) \<in> {(p, c). p \<in> set (P c)}\<^sup>*"

lemma dag_anc_refl [simp]: "dag_anc P a a"
  by (simp add: dag_anc_def)

lemma dag_anc_dom:
  assumes c: "\<And>h. h \<in> D \<Longrightarrow> set (P h) \<subseteq> D" and "dag_anc P a b" "b \<in> D"
  shows "a \<in> D"
  using assms(2,3) unfolding dag_anc_def by (induction rule: converse_rtrancl_induct) (use c in auto)

lemma dag_anc_step: "dag_anc P a b \<longleftrightarrow> a = b \<or> (\<exists>q \<in> set (P b). dag_anc P a q)"
proof
  assume "dag_anc P a b"
  then show "a = b \<or> (\<exists>q \<in> set (P b). dag_anc P a q)" unfolding dag_anc_def by (cases rule: rtranclE) auto
next
  assume "a = b \<or> (\<exists>q \<in> set (P b). dag_anc P a q)"
  then show "dag_anc P a b" unfolding dag_anc_def by (auto intro: rtrancl_into_rtrancl)
qed

section \<open>Future covering sets\<close>

definition covers :: "tree \<Rightarrow> DomainHash \<Rightarrow> DomainHash \<Rightarrow> bool" where
  "covers m a b \<longleftrightarrow> (\<exists>c \<in> set (fcs_of m a). anc m c b)"

text \<open>
  The invariant of the reachability store: the tree is valid, the future covering sets are ordered,
  and together they describe the DAG.
\<close>

definition reach_ok :: "(DomainHash \<Rightarrow> DomainHash list) \<Rightarrow> tree \<Rightarrow> DomainHash \<Rightarrow> bool" where
  "reach_ok P m r \<longleftrightarrow> valid m r \<and> (\<forall>a \<in> dom m. ordered m (fcs_of m a) \<and> set (P a) \<subseteq> dom m)
     \<and> (\<forall>a \<in> dom m. \<forall>b \<in> dom m. dag_anc P a b \<longleftrightarrow> anc m a b \<or> covers m a b)"

lemma reach_okD:
  assumes "reach_ok P m r"
  shows "valid m r" "\<And>a. a \<in> dom m \<Longrightarrow> ordered m (fcs_of m a)" "\<And>a. a \<in> dom m \<Longrightarrow> set (P a) \<subseteq> dom m"
    "\<And>a b. a \<in> dom m \<Longrightarrow> b \<in> dom m \<Longrightarrow> dag_anc P a b \<longleftrightarrow> anc m a b \<or> covers m a b"
  using assms unfolding reach_ok_def by blast+

lemma insertToFutureCoveringSets_ok:
  assumes "valid (data_of rt) r" "set ms \<subseteq> dom (data_of rt)" "f \<in> dom (data_of rt)" "kids (data_of rt) f = []"
    and "\<And>a. a \<in> dom (data_of rt) \<Longrightarrow> ordered (data_of rt) (fcs_of (data_of rt) a)"
  shows "\<exists>rt'. insertToFutureCoveringSets rt ms f = Inr rt'
     \<and> rm_ghostdag rt' = rm_ghostdag rt \<and> rm_reindexRoot rt' = rm_reindexRoot rt \<and> reindexSlack rt' = reindexSlack rt
     \<and> valid (data_of rt') r \<and> dom (data_of rt') = dom (data_of rt) \<and> anc (data_of rt') = anc (data_of rt)
     \<and> ivl (data_of rt') = ivl (data_of rt)
     \<and> (\<forall>a \<in> dom (data_of rt). ordered (data_of rt') (fcs_of (data_of rt') a))
     \<and> (\<forall>a b. covers (data_of rt') a b \<longleftrightarrow> covers (data_of rt) a b \<or> a \<in> set ms \<and> b = f)"
  using assms
proof (induction ms arbitrary: rt)
  case (Cons a ms)
  let ?m = "data_of rt"
  have a: "a \<in> dom ?m" "set ms \<subseteq> dom ?m" using Cons.prems(2) by auto
  obtain rt1 s where 1: "insertToFutureCoveringSet rt a f = Inr rt1" "data_of rt1 = upd_fcs ?m a s"
    "rm_ghostdag rt1 = rm_ghostdag rt" "rm_reindexRoot rt1 = rm_reindexRoot rt" "reindexSlack rt1 = reindexSlack rt"
    "ordered ?m s" "\<forall>b. (\<exists>c \<in> set s. anc ?m c b) \<longleftrightarrow> (\<exists>c \<in> set (fcs_of ?m a). anc ?m c b) \<or> b = f"
    using insertToFutureCoveringSet_ok [OF Cons.prems(1) a(1) Cons.prems(3,4) Cons.prems(5) [OF a(1)]] by blast
  note S = upd_fcs_simps [OF a(1), of s, folded 1(2)]
  have v1: "valid (data_of rt1) r" unfolding 1(2) by (rule upd_fcs_valid [OF Cons.prems(1) a(1)])
  have o1: "ordered (data_of rt1) (fcs_of (data_of rt1) x)" if "x \<in> dom ?m" for x
    using Cons.prems(5) [OF that] 1(6) a(1) unfolding 1(2) by auto
  have cv: "covers (data_of rt1) x b \<longleftrightarrow> covers ?m x b \<or> x = a \<and> b = f" for x b
    using 1(7) by (auto simp: covers_def S)
  obtain rt' where r: "insertToFutureCoveringSets rt1 ms f = Inr rt'"
     "rm_ghostdag rt' = rm_ghostdag rt1" "rm_reindexRoot rt' = rm_reindexRoot rt1" "reindexSlack rt' = reindexSlack rt1"
     "valid (data_of rt') r" "dom (data_of rt') = dom (data_of rt1)" "anc (data_of rt') = anc (data_of rt1)"
     "ivl (data_of rt') = ivl (data_of rt1)"
     "\<forall>a \<in> dom (data_of rt1). ordered (data_of rt') (fcs_of (data_of rt') a)"
     "\<forall>a b. covers (data_of rt') a b \<longleftrightarrow> covers (data_of rt1) a b \<or> a \<in> set ms \<and> b = f"
    using Cons.IH [of rt1] v1 a(2) Cons.prems(3,4) o1 by (auto simp: S)
  show ?case
    using r(1-9) r(10) 1(1,3,4,5) cv by (intro exI [of _ rt'] conjI) (simp_all add: S, blast)
qed simp

section \<open>AddBlock\<close>

lemma add_leaf_grows:
  assumes "p \<in> dom m" "c \<notin> dom m" "same_shape (add_leaf m p c i) m'"
  shows "grows m m'"
proof -
  have "kids m c = []" using assms(2) by (simp add: kids_def domIff)
  then show ?thesis
    using add_leaf_simps(2) [OF assms(1,2), of i] same_shapeD(2) [OF assms(3)]
    by (auto simp: grows_def)
qed

lemma ordered_grows:
  assumes "grows m m'" "valid m r" "valid m' r" "dom m \<subseteq> dom m'" "ordered m xs"
  shows "ordered m' xs"
proof -
  have "sorted_wrt (\<lambda>x y. ihi (ivl m' x) < ilo (ivl m' y)) xs"
  proof (rule sorted_wrt_mono_rel [rotated])
    show "sorted_wrt (\<lambda>x y. ihi (ivl m x) < ilo (ivl m y)) xs" using assms(5) by (simp add: ordered_def)
    show "ihi (ivl m' x) < ilo (ivl m' y)" if "x \<in> set xs" "y \<in> set xs" "ihi (ivl m x) < ilo (ivl m y)" for x y
      using order_grows [OF assms(1-3)] that ordered_mem [OF assms(5)] by blast
  qed
  moreover have "set xs \<subseteq> dom m'" using assms(4,5) unfolding ordered_def by (meson order_trans)
  ultimately show ?thesis by (simp add: ordered_def)
qed

text \<open>
  What \<^verbatim>\<open>AddBlock\<close> relies on: the new block \<open>B\<close> is not in the store, its parents are, and the merge
  set of its GHOSTDAG data is the selected parent \<open>sp\<close> and the past of \<open>B\<close> outside the past of \<open>sp\<close>.
\<close>

definition merge_ok :: "(DomainHash \<Rightarrow> DomainHash list) \<Rightarrow> tree \<Rightarrow> DomainHash \<Rightarrow> BlockGHOSTDAGData \<Rightarrow> DomainHash \<Rightarrow> bool" where
  "merge_ok P m B gd sp \<longleftrightarrow> B \<notin> dom m \<and> set (P B) \<subseteq> dom m \<and> SelectedParent gd = Some sp \<and> sp \<in> set (P B)
     \<and> set (MergeSetBlues gd @ MergeSetReds gd) = insert sp {a \<in> dom m. dag_anc P a B \<and> \<not> dag_anc P a sp}"

lemma AddBlock_ok:
  assumes ok: "reach_ok P (data_of rt) r" and gd: "ghostdagData rt B = Inr gd" and ms: "merge_ok P (data_of rt) B gd sp"
    and R: "rm_reindexRoot rt = Some R" "R \<in> dom (data_of rt)"
    and big: "Suc (card (dom (data_of rt))) < 2 ^ 64" and cap: "capacity (data_of rt) (reindexSlack rt) R"
  shows "\<exists>rt'. AddBlock rt B = Inr rt' \<and> reach_ok P (data_of rt') r \<and> dom (data_of rt') = insert B (dom (data_of rt))
     \<and> rm_reindexRoot rt' = rm_reindexRoot rt \<and> reindexSlack rt' = reindexSlack rt \<and> rm_ghostdag rt' = rm_ghostdag rt
     \<and> (\<forall>x y. anc (data_of rt') x y \<longleftrightarrow> anc (data_of rt) x y \<or> (y = B \<and> (x = B \<or> anc (data_of rt) x sp)))"
proof -
  let ?m = "data_of rt" and ?rt1 = "stageData rt B newReachabilityTreeData"
  define M where "M = MergeSetBlues gd @ MergeSetReds gd"
  note v = reach_okD(1) [OF ok] and M = ms [unfolded merge_ok_def, folded M_def]
  have B: "B \<notin> dom ?m" and sp: "sp \<in> dom ?m" using M by auto
  obtain rt2 i where 2: "addChild ?rt1 sp B R = Inr rt2" "frame ?rt1 rt2" "valid (data_of rt2) r"
    "same_shape (add_leaf ?m sp B i) (data_of rt2)"
    using addChild_ok [OF v sp B _ big R(2), of ?rt1] cap by auto
  let ?m2 = "data_of rt2"
  note sh = same_shapeD [OF 2(4)] and S = add_leaf_simps [OF sp B, of i]
  have d2: "dom ?m2 = insert B (dom ?m)" by (simp only: sh(1) S(1))
  have gr: "grows ?m ?m2" by (rule add_leaf_grows [OF sp B 2(4)])
  have f2: "fcs_of ?m2 = (fcs_of ?m)(B := [])" by (simp only: sh(4) S(4))
  have a2: "anc ?m2 x y \<longleftrightarrow> anc ?m x y \<or> (y = B \<and> (x = B \<or> anc ?m x sp))" for x y
    unfolding sh(6) by (rule add_leaf_anc [OF validD(1) [OF v] sp B])
  have o2: "ordered ?m2 (fcs_of ?m2 a)" if "a \<in> dom ?m2" for a
  proof (cases "a = B")
    case True
    then show ?thesis by (simp add: f2 ordered_def)
  next
    case False
    then show ?thesis
      using ordered_grows [OF gr v 2(3) _ reach_okD(2) [OF ok, of a]] that d2 by (auto simp: f2)
  qed
  have leaf: "kids ?m2 B = []" using B sp by (simp add: sh(2) S(2))
  have ms2: "set M \<subseteq> dom ?m2" using M sp d2 by auto
  obtain rt' where 3: "insertToFutureCoveringSets rt2 M B = Inr rt'"
     "rm_ghostdag rt' = rm_ghostdag rt2" "rm_reindexRoot rt' = rm_reindexRoot rt2" "reindexSlack rt' = reindexSlack rt2"
     "valid (data_of rt') r" "dom (data_of rt') = dom ?m2" "anc (data_of rt') = anc ?m2"
     "\<forall>a \<in> dom ?m2. ordered (data_of rt') (fcs_of (data_of rt') a)"
     "\<forall>a b. covers (data_of rt') a b \<longleftrightarrow> covers ?m2 a b \<or> a \<in> set M \<and> b = B"
    using insertToFutureCoveringSets_ok [OF 2(3) ms2 _ leaf o2] d2 by auto
  have run: "AddBlock rt B = Inr rt'"
    using gd M R(1) 2(1) 3(1) by (simp add: AddBlock_def M_def ghostdagData_def reindexRoot_def)
  have nB: "\<not> anc ?m x B" if "x \<in> dom ?m" for x using anc_dom [OF validD(1) [OF v] _ that] B by blast
  have fd: "set (fcs_of ?m x) \<subseteq> dom ?m" if "x \<in> dom ?m" for x
    using ordered_mem [OF reach_okD(2) [OF ok that]] by blast
  have "dag_anc P a b \<longleftrightarrow> anc (data_of rt') a b \<or> covers (data_of rt') a b"
    if a: "a \<in> insert B (dom ?m)" and b: "b \<in> insert B (dom ?m)" for a b
  proof -
    have cv: "anc (data_of rt') a b \<or> covers (data_of rt') a b \<longleftrightarrow> anc ?m2 a b \<or> covers ?m2 a b \<or> a \<in> set M \<and> b = B"
      using 3(7,9) by simp
    show ?thesis
    proof (cases "b = B")
      case False
      then have bd: "b \<in> dom ?m" using b by blast
      have "dag_anc P a b \<longleftrightarrow> a \<in> dom ?m \<and> (anc ?m a b \<or> covers ?m a b)"
        using dag_anc_dom [of "dom ?m" P a b] reach_okD(3) [OF ok] bd reach_okD(4) [OF ok _ bd, of a] by blast
      moreover have "a = B \<Longrightarrow> \<not> anc ?m a b"
        using bd B unfolding anc_def by (metis converse_rtranclE edge_dom)
      ultimately show ?thesis using cv False a B fd a2 by (auto simp: covers_def f2)
    next
      case bB: True
      show ?thesis
      proof (cases "a = B")
        case True
        then show ?thesis using cv bB a2 by simp
      next
        case False
        then have ad: "a \<in> dom ?m" using a by blast
        have "dag_anc P a B \<longleftrightarrow> dag_anc P a sp \<or> a \<in> set M"
        proof -
          have "dag_anc P a B" if "dag_anc P a sp" using that M dag_anc_step [of P a B] by blast
          moreover have "a \<in> set M \<longleftrightarrow> a = sp \<or> dag_anc P a B \<and> \<not> dag_anc P a sp" using M ad by simp
          ultimately show ?thesis by auto
        qed
        also have "\<dots> \<longleftrightarrow> anc ?m a sp \<or> covers ?m a sp \<or> a \<in> set M" using reach_okD(4) [OF ok ad sp] by simp
        also have "\<dots> \<longleftrightarrow> anc (data_of rt') a b \<or> covers (data_of rt') a b"
        proof -
          have "anc ?m2 a B \<longleftrightarrow> anc ?m a sp" using a2 nB [OF ad] False by blast
          moreover have "anc ?m2 x B \<longleftrightarrow> anc ?m x sp" if "x \<in> set (fcs_of ?m a)" for x
            using a2 nB [of x] fd [OF ad] B that by blast
          then have "covers ?m2 a B \<longleftrightarrow> covers ?m a sp" using False by (simp add: covers_def f2)
          ultimately show ?thesis using cv bB by simp
        qed
        finally show ?thesis using bB by simp
      qed
    qed
  qed
  moreover have "set (P a) \<subseteq> insert B (dom ?m)" if "a \<in> insert B (dom ?m)" for a
    using that M reach_okD(3) [OF ok, of a] by blast
  ultimately have "reach_ok P (data_of rt') r"
    unfolding reach_ok_def using 3(5,6,8) d2 by simp
  then show ?thesis using run 2(2) 3(2-4,6,7) d2 a2 by (intro exI [of _ rt']) (simp add: frame_def)
qed

end
