(* ===== verification/Reachability_Theorems.thy ===== *)
theory Reachability_Theorems
  imports Reachability_Dag
begin

text \<open>
  What the reachability manager promises its clients: exact answers about the tree and about the DAG.
\<close>

section \<open>The first block\<close>

lemma genesis_tree:
  assumes m: "m = [g \<mapsto> newReachabilityTreeData]" and P: "P g = []"
  shows "reach_ok P m g" "dom m = {g}" "ivl m g = newReachabilityInterval 1 (- 1 - 1)"
proof -
  have d: "dom m = {g}" "kids m h = []" "par m h = None" "fcs_of m h = []" "edges m = {}" for h
    by (auto simp: m kids_def par_def fcs_of_def edges_def newReachabilityTreeData_def EmptyReachabilityData_def split: option.splits)
  show "dom m = {g}" by (rule d)
  show i: "ivl m g = newReachabilityInterval 1 (- 1 - 1)"
    by (simp add: m ivl_def newReachabilityTreeData_def)
  have a: "anc m x y \<longleftrightarrow> x = y" for x y by (auto simp: anc_def d(5))
  have "tree_wf m g" unfolding tree_wf_def using d a by (auto simp: m newReachabilityTreeData_def)
  then have "valid m g" using d i by (simp add: valid_def node_ok_def newReachabilityInterval_def)
  then show "reach_ok P m g" unfolding reach_ok_def using d a P by (auto simp: ordered_def covers_def)
qed

lemma AddBlock_genesis:
  assumes "rm_data rt = []" "ghostdagData rt g = Inr gd" "SelectedParent gd = None" "P g = []"
  shows "\<exists>rt'. AddBlock rt g = Inr rt' \<and> reach_ok P (data_of rt') g \<and> dom (data_of rt') = {g}
    \<and> ivl (data_of rt') g = newReachabilityInterval 1 (- 1 - 1)
    \<and> rm_reindexRoot rt' = Some g \<and> reindexSlack rt' = reindexSlack rt \<and> rm_ghostdag rt' = rm_ghostdag rt"
proof -
  let ?rt = "stageReindexRoot (stageData rt g newReachabilityTreeData) g"
  have "AddBlock rt g = Inr ?rt" using assms by (simp add: AddBlock_def ghostdagData_def)
  moreover have "data_of rt = Map.empty" using assms(1) by (simp add: data_of_def)
  then have "data_of ?rt = [g \<mapsto> newReachabilityTreeData]" by simp
  ultimately show ?thesis using genesis_tree [of "data_of ?rt" g P] assms(4) by (auto simp: stageReindexRoot_def)
qed

text \<open>A manager that holds a genesis block and one child of it.\<close>

definition pair_manager :: reachabilityManager where
  "pair_manager = (newReachabilityManager (\<lambda>_. 0))\<lparr>
     rm_data := [([0], \<lparr>rd_children = [[1]], rd_parent = None, rd_interval = Some (newReachabilityInterval 1 100),
                   rd_futureCoveringSet = [[1]]\<rparr>),
                 ([1], \<lparr>rd_children = [], rd_parent = Some [0], rd_interval = Some (newReachabilityInterval 1 50),
                   rd_futureCoveringSet = []\<rparr>)],
     rm_reindexRoot := Some [0]\<rparr>"

lemma pair_tree:
  "dom (data_of pair_manager) = {[0], [1]}" "kids (data_of pair_manager) [0] = [[1]]" "kids (data_of pair_manager) [1] = []"
  "ivl (data_of pair_manager) [0] = newReachabilityInterval 1 100"
  "ivl (data_of pair_manager) [1] = newReachabilityInterval 1 50"
  "edges (data_of pair_manager) = {([0], [1])}"
  by (auto simp: data_of_def pair_manager_def kids_def ivl_def edges_def split: if_splits)

lemma pair_anc: "anc (data_of pair_manager) a b \<longleftrightarrow> a = b \<or> a = [0] \<and> b = [1]"
proof
  assume "anc (data_of pair_manager) a b"
  then have "a = b \<or> (\<exists>z. (a, z) \<in> edges (data_of pair_manager) \<and> anc (data_of pair_manager) z b)"
    unfolding anc_def by (auto elim: converse_rtranclE)
  then show "a = b \<or> a = [0] \<and> b = [1]" using leaf_anc [OF pair_tree(3)] by (auto simp: pair_tree(6))
qed (auto simp: pair_tree intro: anc_edge)

lemma pair_valid: "valid (data_of pair_manager) [0]"
proof -
  have par: "par (data_of pair_manager) [0] = None" "par (data_of pair_manager) c = Some p \<longleftrightarrow> c = [1] \<and> p = [0]" for c p
    by (auto simp: data_of_def pair_manager_def par_def split: if_splits)
  have iv: "rd_interval (the (data_of pair_manager h)) \<noteq> None" if "h \<in> {[0], [1]}" for h
    using that by (auto simp: data_of_def pair_manager_def)
  have "tree_wf (data_of pair_manager) [0]"
    unfolding tree_wf_def pair_tree(1,6) using iv par by (auto simp: pair_anc pair_tree)
  then show ?thesis by (simp add: valid_def node_ok_def pair_tree newReachabilityInterval_def)
qed

section \<open>Properties\<close>

text \<open>
  C2: adding a block.  If the store describes the DAG \<open>P\<close> and the GHOSTDAG data of the new block \<open>B\<close>
  has its merge set, then \<^verbatim>\<open>AddBlock\<close> succeeds as long as the reindex root has capacity, the store
  describes the DAG with \<open>B\<close>, and \<^verbatim>\<open>IsDAGAncestorOf\<close> answers every question about it.
\<close>

theorem AddBlock_describes_DAG:
  assumes "reach_ok P (data_of rt) r" "ghostdagData rt B = Inr gd" "merge_ok P (data_of rt) B gd sp"
    and "rm_reindexRoot rt = Some R" "R \<in> dom (data_of rt)"
    and "Suc (card (dom (data_of rt))) < 2 ^ 64" "capacity (data_of rt) (reindexSlack rt) R"
  shows "\<exists>rt'. AddBlock rt B = Inr rt' \<and> reach_ok P (data_of rt') r
     \<and> dom (data_of rt') = insert B (dom (data_of rt))
     \<and> (\<forall>a \<in> dom (data_of rt'). \<forall>b \<in> dom (data_of rt'). IsDAGAncestorOf rt' a b = Inr (dag_anc P a b))"
proof -
  obtain rt' where r: "AddBlock rt B = Inr rt'" "reach_ok P (data_of rt') r" "dom (data_of rt') = insert B (dom (data_of rt))"
    using AddBlock_ok [OF assms] by blast
  have "IsDAGAncestorOf rt' a b = Inr (dag_anc P a b)" if "a \<in> dom (data_of rt')" "b \<in> dom (data_of rt')" for a b
    using IsDAGAncestorOf_ok [OF reach_okD(1) [OF r(2)] that reach_okD(2) [OF r(2) that(1)]] reach_okD(4) [OF r(2) that]
    by (simp add: covers_def)
  then show ?thesis using r by blast
qed

theorem AddBlock_describes_DAG_witness:
  "\<exists>rt rt' P. AddBlock rt [1] = Inr rt' \<and> reach_ok P (data_of rt') [0] \<and> IsDAGAncestorOf rt' [0] [1] = Inr True"
proof -
  define P where "P = (\<lambda>h :: DomainHash. if h = [1] then [[0 :: byte]] else [])"
  define gd where "gd = NewBlockGHOSTDAGData 1 1 (Some [0 :: byte]) [[0]] [] []"
  define rt where "rt = (newReachabilityManager (\<lambda>_. 0))\<lparr>rm_data := [([0 :: byte], newReachabilityTreeData)],
     rm_reindexRoot := Some [0], rm_ghostdag := [([1], gd)]\<rparr>"
  have d: "data_of rt = [[0] \<mapsto> newReachabilityTreeData]" by (simp add: rt_def data_of_def)
  note g = genesis_tree [OF d, of P]
  have P0: "P [0] = []" by (simp add: P_def)
  have a: "dag_anc P [0] [1]" using dag_anc_step [of P "[0]" "[1]"] by (simp add: P_def)
  have "merge_ok P (data_of rt) [1] gd [0]"
    using g(2) P0 by (auto simp: merge_ok_def P_def gd_def NewBlockGHOSTDAGData_def)
  moreover have "capacity (data_of rt) (reindexSlack rt) [0]"
    using g(2,3) P0 by (simp add: capacity_def rt_def newReachabilityManager_def defaultReindexSlack_def
        newReachabilityInterval_def width_def)
  moreover have "ghostdagData rt [1] = Inr gd" "rm_reindexRoot rt = Some [0]" by (simp_all add: rt_def ghostdagData_def)
  ultimately obtain rt' where "AddBlock rt [1] = Inr rt'" "reach_ok P (data_of rt') [0]"
    "dom (data_of rt') = insert [1] (dom (data_of rt))"
    "\<forall>a \<in> dom (data_of rt'). \<forall>b \<in> dom (data_of rt'). IsDAGAncestorOf rt' a b = Inr (dag_anc P a b)"
    using AddBlock_describes_DAG [OF g(1) _ _ _ _, of "[1]" gd "[0]" "[0]"] g(2) P0 by auto
  then show ?thesis using a g(2) P0 by (intro exI [of _ rt] exI [of _ rt'] exI [of _ P]) simp
qed

text \<open>
  C18: on a valid tree \<^verbatim>\<open>IsReachabilityTreeAncestorOf\<close> is tree ancestry, and \<^verbatim>\<open>FindNextAncestor\<close> finds the
  child of the ancestor that leads to the descendant.
\<close>

theorem tree_queries_exact:
  assumes "valid (data_of rt) r" "a \<in> dom (data_of rt)" "b \<in> dom (data_of rt)"
  shows "IsReachabilityTreeAncestorOf rt a b = Inr (anc (data_of rt) a b)
    \<and> (anc (data_of rt) a b \<longrightarrow> a \<noteq> b \<longrightarrow>
         (\<exists>c. FindNextAncestor rt b a = Inr c \<and> c \<in> set (kids (data_of rt) a) \<and> anc (data_of rt) c b))"
  using IsReachabilityTreeAncestorOf_anc [OF assms] FindNextAncestor_ok [OF assms(1,2), of b] by (auto simp: edges_iff)

theorem tree_queries_exact_witness:
  "IsReachabilityTreeAncestorOf pair_manager [0] [1] = Inr True \<and> FindNextAncestor pair_manager [1] [0] = Inr [1]"
  using tree_queries_exact [OF pair_valid, of "[0]" "[1]"] by (simp add: pair_tree pair_anc)

text \<open>
  C22: \<^verbatim>\<open>countSubtrees\<close>, which counts without recursion, ends and gives every block of the subtree the
  number of its descendants.
\<close>

theorem countSubtrees_counts:
  assumes "valid (data_of rt) r" "node \<in> dom (data_of rt)" "card (dom (data_of rt)) < 2 ^ 64"
  shows "\<exists>S. countSubtrees (newReindexContext rt) node = Inr \<lparr>manager = rt, subTreeSizesCache = S\<rparr>
     \<and> (\<forall>h. anc (data_of rt) node h \<longrightarrow> map_of S h = Some (of_nat (card {d. anc (data_of rt) h d})))"
proof -
  let ?rc = "newReindexContext rt"
  have c: "tree_wf (data_of (manager ?rc)) r" "node \<in> dom (data_of (manager ?rc))" "card (dom (data_of (manager ?rc))) < 2 ^ 64"
    "cache_ok (data_of (manager ?rc)) (subTreeSizesCache ?rc)"
    using assms validD(1) [OF assms(1)] by (simp_all add: newReindexContext_def cache_ok_def)
  obtain S where S: "countSubtrees ?rc node = Inr (?rc\<lparr>subTreeSizesCache := S\<rparr>)" "cache_ok (data_of rt) S" "node \<in> dom (map_of S)"
    using countSubtrees_ok [OF c] by (auto simp: newReindexContext_def)
  have "map_of S h = Some (of_nat (card {d. anc (data_of rt) h d}))" if "anc (data_of rt) node h" for h
  proof -
    obtain n where "map_of S node = Some n" using S(3) by blast
    then have "h \<in> dom (map_of S)" using cache_okD(3) [OF S(2)] that by (auto simp: sub_def)
    then obtain k where "map_of S h = Some k" by blast
    then show ?thesis using cache_okD(2) [OF S(2)] by (simp add: siz_def sub_def)
  qed
  then show ?thesis using S(1) by (intro exI [of _ S]) (simp add: newReindexContext_def)
qed

theorem countSubtrees_counts_witness:
  "\<exists>S. countSubtrees (newReindexContext pair_manager) [0] = Inr \<lparr>manager = pair_manager, subTreeSizesCache = S\<rparr>
     \<and> map_of S [0] = Some 2"
proof -
  have "{d. anc (data_of pair_manager) [0] d} = {[0], [1]}" by (auto simp: pair_anc)
  then show ?thesis using countSubtrees_counts [OF pair_valid, of "[0]"] by (auto simp: pair_tree)
qed

text \<open>
  C23: \<^verbatim>\<open>intervalSplitWithExponentialBias\<close> divides an interval that has room for all the sizes into
  disjoint pieces from left to right, each at least as wide as its size.  The floating point shares
  and the conversion \<open>conv\<close> of out-of-range values cannot break this.
\<close>

theorem exponential_split_fits:
  assumes "\<forall>s \<in> set sizes. 0 < s" "sizes \<noteq> []" "isum sizes \<le> width ri" "width ri < 2 ^ 64"
  shows "\<exists>is. intervalSplitWithExponentialBias conv ri sizes = Inr is \<and> chained (ilo ri) (ihi ri) is
    \<and> list_all2 (\<lambda>i s. uint s \<le> width i) is sizes"
  by (rule splitBias_ok [OF assms])

theorem exponential_split_fits_witness:
  "\<exists>is. intervalSplitWithExponentialBias (\<lambda>_. 0) (newReachabilityInterval 1 10) [2, 3] = Inr is
    \<and> chained 1 10 is \<and> list_all2 (\<lambda>i s. uint s \<le> width i) is [2, 3 :: u64]"
  using exponential_split_fits [of "[2, 3]" "newReachabilityInterval 1 10" "\<lambda>_. 0"]
  by (simp add: newReachabilityInterval_def width_def isum_def)

end
