(* ===== verification/Dag_Topology.thy ===== *)
theory Dag_Topology
  imports Reachability_Manager Consensus_Hashing
begin

text \<open>
  \<^verbatim>\<open>processes/dagtopologymanager/dagtopologymanager.go\<close> and \<^verbatim>\<open>model/blockrelations.go\<close>: the
  relations between blocks.  A store is what it returns through the staging area, an association
  list; the GHOSTDAG data store is the one the reachability manager reads.
\<close>

record BlockRelations =
  br_Parents :: "DomainHash list"
  br_Children :: "DomainHash list"

text \<open>The stores and managers that the consensus processes share, and the parameter \<^verbatim>\<open>k\<close> of GHOSTDAG.\<close>

record dagManagers =
  reach :: reachabilityManager
  relations :: "(DomainHash \<times> BlockRelations) list"
  headers :: "(DomainHash \<times> BlockHeader) list"
  gk :: KType

definition BlockRelation :: "dagManagers \<Rightarrow> DomainHash \<Rightarrow> (dag_error, BlockRelations) result" where
  "BlockRelation st blockHash =
     (case map_of (relations st) blockHash of None \<Rightarrow> Inl (Err NotFound) | Some r \<Rightarrow> Inr r)"

definition StageBlockRelation :: "dagManagers \<Rightarrow> DomainHash \<Rightarrow> BlockRelations \<Rightarrow> dagManagers" where
  "StageBlockRelation st blockHash r = st\<lparr>relations := AList.update blockHash r (relations st)\<rparr>"

definition Has_BlockRelation :: "dagManagers \<Rightarrow> DomainHash \<Rightarrow> bool" where
  "Has_BlockRelation st blockHash \<longleftrightarrow> map_of (relations st) blockHash \<noteq> None"

definition Parents :: "dagManagers \<Rightarrow> DomainHash \<Rightarrow> (dag_error, DomainHash list) result" where
  "Parents st blockHash = rbind (BlockRelation st blockHash) (\<lambda>blockRelations. Inr (br_Parents blockRelations))"

definition Children :: "dagManagers \<Rightarrow> DomainHash \<Rightarrow> (dag_error, DomainHash list) result" where
  "Children st blockHash = rbind (BlockRelation st blockHash) (\<lambda>blockRelations. Inr (br_Children blockRelations))"

fun isHashInSlice :: "DomainHash \<Rightarrow> DomainHash list \<Rightarrow> bool" where
  "isHashInSlice hash [] = False"
| "isHashInSlice hash (h # hashes) = (if h = hash then True else isHashInSlice hash hashes)"

definition IsParentOf :: "dagManagers \<Rightarrow> DomainHash \<Rightarrow> DomainHash \<Rightarrow> (dag_error, bool) result" where
  "IsParentOf st blockHashA blockHashB =
     rbind (BlockRelation st blockHashB) (\<lambda>blockRelations. Inr (isHashInSlice blockHashA (br_Parents blockRelations)))"

definition IsChildOf :: "dagManagers \<Rightarrow> DomainHash \<Rightarrow> DomainHash \<Rightarrow> (dag_error, bool) result" where
  "IsChildOf st blockHashA blockHashB =
     rbind (BlockRelation st blockHashB) (\<lambda>blockRelations. Inr (isHashInSlice blockHashA (br_Children blockRelations)))"

definition IsAncestorOf :: "dagManagers \<Rightarrow> DomainHash \<Rightarrow> DomainHash \<Rightarrow> (dag_error, bool) result" where
  "IsAncestorOf st blockHashA blockHashB = IsDAGAncestorOf (reach st) blockHashA blockHashB"

primrec IsAncestorOfAny :: "dagManagers \<Rightarrow> DomainHash \<Rightarrow> DomainHash list \<Rightarrow> (dag_error, bool) result" where
  "IsAncestorOfAny st blockHash [] = Inr False"
| "IsAncestorOfAny st blockHash (potentialDescendant # potentialDescendants) =
     rbind (IsAncestorOf st blockHash potentialDescendant) (\<lambda>isAncestorOf.
       if isAncestorOf then Inr True else IsAncestorOfAny st blockHash potentialDescendants)"

primrec IsAnyAncestorOf :: "dagManagers \<Rightarrow> DomainHash list \<Rightarrow> DomainHash \<Rightarrow> (dag_error, bool) result" where
  "IsAnyAncestorOf st [] blockHash = Inr False"
| "IsAnyAncestorOf st (potentialAncestor # potentialAncestors) blockHash =
     rbind (IsAncestorOf st potentialAncestor blockHash) (\<lambda>isAncestorOf.
       if isAncestorOf then Inr True else IsAnyAncestorOf st potentialAncestors blockHash)"

definition IsInSelectedParentChainOf :: "dagManagers \<Rightarrow> DomainHash \<Rightarrow> DomainHash \<Rightarrow> (dag_error, bool) result" where
  "IsInSelectedParentChainOf st blockHashA blockHashB = IsReachabilityTreeAncestorOf (reach st) blockHashA blockHashB"

section \<open>SetParents\<close>

text \<open>The first loop removes the block from the children of its current parents.\<close>

primrec removeFromParents :: "dagManagers \<Rightarrow> DomainHash \<Rightarrow> DomainHash list \<Rightarrow> (dag_error, dagManagers) result" where
  "removeFromParents st blockHash [] = Inr st"
| "removeFromParents st blockHash (currentParent # currentParents) =
     rbind (BlockRelation st currentParent) (\<lambda>parentRelations.
       let st' = (if blockHash \<in> set (br_Children parentRelations)
                  then StageBlockRelation st currentParent
                         (parentRelations\<lparr>br_Children := remove1 blockHash (br_Children parentRelations)\<rparr>)
                  else st)
       in removeFromParents st' blockHash currentParents)"

text \<open>The second loop adds it to the children of its new parents.\<close>

primrec addToParents :: "dagManagers \<Rightarrow> DomainHash \<Rightarrow> DomainHash list \<Rightarrow> (dag_error, dagManagers) result" where
  "addToParents st blockHash [] = Inr st"
| "addToParents st blockHash (parent' # parentHashes') =
     rbind (BlockRelation st parent') (\<lambda>parentRelations.
       let isBlockAlreadyInChildren = (blockHash \<in> set (br_Children parentRelations));
           st' = (if \<not> isBlockAlreadyInChildren
                  then StageBlockRelation st parent'
                         (parentRelations\<lparr>br_Children := br_Children parentRelations @ [blockHash]\<rparr>)
                  else st)
       in addToParents st' blockHash parentHashes')"

definition SetParents :: "dagManagers \<Rightarrow> DomainHash \<Rightarrow> DomainHash list \<Rightarrow> (dag_error, dagManagers) result" where
  "SetParents st blockHash parentHashes' =
     rbind (if Has_BlockRelation st blockHash
            then rbind (BlockRelation st blockHash) (\<lambda>currentRelations.
                   removeFromParents st blockHash (br_Parents currentRelations))
            else Inr st) (\<lambda>st1.
     rbind (addToParents st1 blockHash parentHashes') (\<lambda>st2.
       Inr (StageBlockRelation st2 blockHash \<lparr>br_Parents = parentHashes', br_Children = []\<rparr>)))"

section \<open>ChildInSelectedParentChainOf\<close>

text \<open>
  The code compares \<^verbatim>\<open>highHash\<close> with the pointer \<^verbatim>\<open>model.VirtualBlockHash\<close>.  The virtual block is only ever
  passed as that pointer, and no other block has its hash, so the model compares the hashes.
\<close>

definition VirtualBlockHash :: DomainHash where
  "VirtualBlockHash = replicate 32 0xff"

definition ChildInSelectedParentChainOf :: "dagManagers \<Rightarrow> DomainHash \<Rightarrow> DomainHash \<Rightarrow> (dag_error, DomainHash) result" where
  "ChildInSelectedParentChainOf st context' highHash =
     rbind (if highHash = VirtualBlockHash
            then rbind (ghostdagData (reach st) highHash) (\<lambda>ghostdagData'. Inr (SelectedParent ghostdagData'))
            else Inr None) (\<lambda>virtualParent.
       if highHash = VirtualBlockHash \<and> virtualParent = Some context' then Inr highHash
       else rbind (if highHash = VirtualBlockHash then deref virtualParent else Inr highHash) (\<lambda>highHash'.
            rbind (IsInSelectedParentChainOf st context' highHash') (\<lambda>isInSelectedParentChain.
              if \<not> isInSelectedParentChain then Inl (Err NotInSelectedParentChain)
              else FindNextAncestor (reach st) highHash' context')))"

end
