(* ===== verification/Difficulty.thy ===== *)
theory Difficulty
  imports Domain_Types
begin

text \<open>
  \<^verbatim>\<open>util/difficulty/difficulty.go\<close>: the compact 32-bit representation of targets and the work of a
  target.  A \<^verbatim>\<open>big.Int\<close> is an unbounded integer; \<^verbatim>\<open>Bytes\<close> and \<^verbatim>\<open>Bits\<close> give its absolute value, and
  \<^verbatim>\<open>Rsh\<close> rounds towards minus infinity.
\<close>

unbundle bit_operations_syntax

definition oneLsh256 :: int where
  "oneLsh256 = 2 ^ 256"

definition CompactToBigWithDestination :: "u32 \<Rightarrow> int" where
  "CompactToBigWithDestination compact =
     (let mantissa = compact AND 0x007fffff;
          isNegative = (compact AND 0x00800000 \<noteq> 0);
          exponent = unat (drop_bit 24 compact);
          destination = (if exponent \<le> 3 then uint (drop_bit (8 * (3 - exponent)) mantissa)
                         else uint mantissa * 2 ^ (8 * (exponent - 3)))
      in if isNegative then - destination else destination)"

definition CompactToBig :: "u32 \<Rightarrow> int" where
  "CompactToBig compact = CompactToBigWithDestination compact"

text \<open>\<^verbatim>\<open>len(n.Bytes())\<close>: the number of bytes of the absolute value.\<close>

fun nat_bytes :: "nat \<Rightarrow> nat" where
  "nat_bytes n = (if n = 0 then 0 else Suc (nat_bytes (n div 256)))"

declare nat_bytes.simps [simp del]

definition BigToCompact :: "int \<Rightarrow> u32" where
  "BigToCompact n =
     (if n = 0 then 0
      else let a = nat \<bar>n\<bar>;
               exponent = nat_bytes a;
               mantissa = (if exponent \<le> 3 then push_bit (8 * (3 - exponent)) (word_of_nat a :: u32)
                           else word_of_nat (nat \<bar>n div 2 ^ (8 * (exponent - 3))\<bar>));
               (mantissa, exponent) = (if mantissa AND 0x00800000 \<noteq> 0 then (drop_bit 8 mantissa, exponent + 1)
                                       else (mantissa, exponent));
               compact = push_bit 24 (word_of_nat exponent) OR mantissa
           in if n < 0 then compact OR 0x00800000 else compact)"

definition CalcWork :: "u32 \<Rightarrow> int" where
  "CalcWork bits =
     (let difficultyNum = CompactToBig bits
      in if difficultyNum \<le> 0 then 0 else oneLsh256 div (difficultyNum + 1))"

lemma CalcWork_nonneg: "0 \<le> CalcWork b"
  by (auto simp: CalcWork_def Let_def oneLsh256_def intro: div_int_pos_iff [THEN iffD2])

lemma CalcWork_pos:
  assumes "0 < CompactToBig b" "CompactToBig b < 2 ^ 256"
  shows "0 < CalcWork b"
proof -
  have "CompactToBig b + 1 \<le> oneLsh256" using assms(2) by (simp add: oneLsh256_def)
  then show ?thesis using assms(1) by (simp add: CalcWork_def Let_def pos_imp_zdiv_pos_iff)
qed

end
