(* ===== verification/Ghostdag.thy ===== *)
theory Ghostdag
  imports Dag_Topology Difficulty
begin

text \<open>
  \<^verbatim>\<open>processes/ghostdagmanager\<close>: the choice of the selected parent (\<^verbatim>\<open>compare.go\<close>), the merge set
  (\<^verbatim>\<open>mergeset.go\<close>) and the colouring of its blocks (\<^verbatim>\<open>ghostdag.go\<close>).  The anticone sizes are kept
  at their width of eight bits.  Loops over the selected parent chain and over the queue carry fuel,
  the number of blocks in the store.
\<close>

section \<open>compare.go\<close>

definition Less :: "DomainHash \<Rightarrow> BlockGHOSTDAGData \<Rightarrow> DomainHash \<Rightarrow> BlockGHOSTDAGData \<Rightarrow> bool" where
  "Less blockHashA ghostdagDataA blockHashB ghostdagDataB =
     (if BlueWork ghostdagDataA < BlueWork ghostdagDataB then True
      else if BlueWork ghostdagDataA > BlueWork ghostdagDataB then False
      else hash_Less blockHashA blockHashB)"

primrec chooseSelectedParent_from ::
    "dagManagers \<Rightarrow> DomainHash \<Rightarrow> BlockGHOSTDAGData \<Rightarrow> DomainHash list \<Rightarrow> (dag_error, DomainHash) result" where
  "chooseSelectedParent_from st selectedParent selectedParentGHOSTDAGData [] = Inr selectedParent"
| "chooseSelectedParent_from st selectedParent selectedParentGHOSTDAGData (blockHash # blockHashes) =
     rbind (ghostdagData (reach st) blockHash) (\<lambda>blockGHOSTDAGData.
       if Less selectedParent selectedParentGHOSTDAGData blockHash blockGHOSTDAGData
       then chooseSelectedParent_from st blockHash blockGHOSTDAGData blockHashes
       else chooseSelectedParent_from st selectedParent selectedParentGHOSTDAGData blockHashes)"

definition ChooseSelectedParent :: "dagManagers \<Rightarrow> DomainHash list \<Rightarrow> (dag_error, DomainHash) result" where
  "ChooseSelectedParent st blockHashes =
     (case blockHashes of
        [] \<Rightarrow> Inl Panic
      | selectedParent # _ \<Rightarrow>
          rbind (ghostdagData (reach st) selectedParent) (\<lambda>selectedParentGHOSTDAGData.
            chooseSelectedParent_from st selectedParent selectedParentGHOSTDAGData blockHashes))"

text \<open>
  \<^verbatim>\<open>less\<close> compares the pointer of the chosen block with that of the second one.  For two different
  blocks this is a comparison of hashes.
\<close>

definition gm_less :: "dagManagers \<Rightarrow> DomainHash \<Rightarrow> DomainHash \<Rightarrow> (dag_error, bool) result" where
  "gm_less st blockHashA blockHashB =
     rbind (ChooseSelectedParent st [blockHashA, blockHashB]) (\<lambda>chosenSelectedParent.
       Inr (chosenSelectedParent = blockHashB))"

primrec findSelectedParent_from ::
    "dagManagers \<Rightarrow> DomainHash option \<Rightarrow> DomainHash list \<Rightarrow> (dag_error, DomainHash option) result" where
  "findSelectedParent_from st selectedParent [] = Inr selectedParent"
| "findSelectedParent_from st selectedParent (hash # parentHashes') =
     (case selectedParent of
        None \<Rightarrow> findSelectedParent_from st (Some hash) parentHashes'
      | Some sp \<Rightarrow>
          rbind (gm_less st sp hash) (\<lambda>isHashBiggerThanSelectedParent.
            findSelectedParent_from st (if isHashBiggerThanSelectedParent then Some hash else Some sp) parentHashes'))"

definition findSelectedParent :: "dagManagers \<Rightarrow> DomainHash list \<Rightarrow> (dag_error, DomainHash option) result" where
  "findSelectedParent st parentHashes' = findSelectedParent_from st None parentHashes'"

section \<open>mergeset.go\<close>

text \<open>\<^verbatim>\<open>mergeSetMap\<close> and \<^verbatim>\<open>selectedParentPast\<close> are sets, given by the list of their elements.\<close>

record mergeSetSearch =
  mergeSetMap :: "DomainHash list"
  mergeSetSlice :: "DomainHash list"
  selectedParentPast :: "DomainHash list"
  ms_queue :: "DomainHash list"

primrec queueParents :: "DomainHash option \<Rightarrow> DomainHash list \<Rightarrow> mergeSetSearch \<Rightarrow> mergeSetSearch" where
  "queueParents selectedParent [] s = s"
| "queueParents selectedParent (parent' # parents) s =
     (if Some parent' = selectedParent then queueParents selectedParent parents s
      else queueParents selectedParent parents
             (s\<lparr>mergeSetMap := parent' # mergeSetMap s, mergeSetSlice := mergeSetSlice s @ [parent'],
                ms_queue := ms_queue s @ [parent']\<rparr>))"

primrec visitParents ::
    "dagManagers \<Rightarrow> DomainHash option \<Rightarrow> DomainHash list \<Rightarrow> mergeSetSearch \<Rightarrow> (dag_error, mergeSetSearch) result" where
  "visitParents st selectedParent [] s = Inr s"
| "visitParents st selectedParent (parent' # currentParents) s =
     (if parent' \<in> set (mergeSetMap s) then visitParents st selectedParent currentParents s
      else if parent' \<in> set (selectedParentPast s) then visitParents st selectedParent currentParents s
      else rbind (deref selectedParent) (\<lambda>sp.
           rbind (IsAncestorOf st parent' sp) (\<lambda>isAncestorOfSelectedParent.
             if isAncestorOfSelectedParent
             then visitParents st selectedParent currentParents
                    (s\<lparr>selectedParentPast := parent' # selectedParentPast s\<rparr>)
             else visitParents st selectedParent currentParents
                    (s\<lparr>mergeSetMap := parent' # mergeSetMap s, mergeSetSlice := mergeSetSlice s @ [parent'],
                       ms_queue := ms_queue s @ [parent']\<rparr>))))"

primrec mergeSet_loop ::
    "nat \<Rightarrow> dagManagers \<Rightarrow> DomainHash option \<Rightarrow> mergeSetSearch \<Rightarrow> (dag_error, mergeSetSearch) result" where
  "mergeSet_loop 0 st selectedParent s = Inl (Err NoFuel)"
| "mergeSet_loop (Suc fuel) st selectedParent s =
     (case ms_queue s of
        [] \<Rightarrow> Inr s
      | current # queue \<Rightarrow>
          rbind (Parents st current) (\<lambda>currentParents.
          rbind (visitParents st selectedParent currentParents (s\<lparr>ms_queue := queue\<rparr>)) (\<lambda>s'.
            mergeSet_loop fuel st selectedParent s')))"

text \<open>
  \<^verbatim>\<open>sort.Slice\<close> sorts by the strict order of \<^verbatim>\<open>less\<close>, which does not depend on the algorithm because the
  blocks are different.  Every block of a list of two or more is compared with another one, so a
  block without GHOSTDAG data makes the sort fail.
\<close>

definition isLess :: "dagManagers \<Rightarrow> DomainHash \<Rightarrow> DomainHash \<Rightarrow> bool" where
  "isLess st a b = (case gm_less st a b of Inl _ \<Rightarrow> False | Inr r \<Rightarrow> r)"

primrec insert_sorted :: "(DomainHash \<Rightarrow> DomainHash \<Rightarrow> bool) \<Rightarrow> DomainHash \<Rightarrow> DomainHash list \<Rightarrow> DomainHash list" where
  "insert_sorted lt x [] = [x]"
| "insert_sorted lt x (y # ys) = (if lt x y then x # y # ys else y # insert_sorted lt x ys)"

definition sort_Slice :: "(DomainHash \<Rightarrow> DomainHash \<Rightarrow> bool) \<Rightarrow> DomainHash list \<Rightarrow> DomainHash list" where
  "sort_Slice lt xs = foldr (insert_sorted lt) xs []"

definition sortMergeSet :: "dagManagers \<Rightarrow> DomainHash list \<Rightarrow> (dag_error, DomainHash list) result" where
  "sortMergeSet st mergeSetSlice' =
     (if 2 \<le> length mergeSetSlice' \<and> (\<exists>h \<in> set mergeSetSlice'. map_of (rm_ghostdag (reach st)) h = None) then Inl (Err NotFound)
      else Inr (sort_Slice (isLess st) mergeSetSlice'))"

definition dag_fuel :: "dagManagers \<Rightarrow> nat" where
  "dag_fuel st = Suc (length (relations st) + length (rm_ghostdag (reach st)))"

definition mergeSetWithoutSelectedParent ::
    "dagManagers \<Rightarrow> DomainHash option \<Rightarrow> DomainHash list \<Rightarrow> (dag_error, DomainHash list) result" where
  "mergeSetWithoutSelectedParent st selectedParent blockParents =
     (let s = queueParents selectedParent blockParents
                \<lparr>mergeSetMap = [], mergeSetSlice = [], selectedParentPast = [], ms_queue = []\<rparr>
      in rbind (mergeSet_loop (dag_fuel st + length blockParents) st selectedParent s) (\<lambda>s'.
           sortMergeSet st (mergeSetSlice s')))"

section \<open>ghostdag.go\<close>

primrec blueAnticoneSize_loop :: "nat \<Rightarrow> dagManagers \<Rightarrow> DomainHash \<Rightarrow> BlockGHOSTDAGData \<Rightarrow> (dag_error, KType) result" where
  "blueAnticoneSize_loop 0 st block current = Inl (Err NoFuel)"
| "blueAnticoneSize_loop (Suc fuel) st block current =
     (case map_of (BluesAnticoneSizes current) block of
        Some blueAnticoneSize \<Rightarrow> Inr blueAnticoneSize
      | None \<Rightarrow>
          (case SelectedParent current of
             None \<Rightarrow> Inl (Err NotInBlueSet)
           | Some sp \<Rightarrow> rbind (ghostdagData (reach st) sp) (\<lambda>current'. blueAnticoneSize_loop fuel st block current')))"

definition blueAnticoneSize :: "dagManagers \<Rightarrow> DomainHash \<Rightarrow> BlockGHOSTDAGData \<Rightarrow> (dag_error, KType) result" where
  "blueAnticoneSize st block context' = blueAnticoneSize_loop (Suc (dag_fuel st)) st block context'"

text \<open>
  The loop over the blues of a chain block returns whether a violation was found, the anticone sizes
  of the blues that are not in the past of the candidate, and their number.
\<close>

primrec checkBlues ::
    "dagManagers \<Rightarrow> BlockGHOSTDAGData \<Rightarrow> DomainHash \<Rightarrow> DomainHash list \<Rightarrow> (DomainHash \<times> KType) list \<Rightarrow> KType
     \<Rightarrow> (dag_error, bool \<times> (DomainHash \<times> KType) list \<times> KType) result" where
  "checkBlues st newBlockData blueCandidate [] sizes size' = Inr (False, sizes, size')"
| "checkBlues st newBlockData blueCandidate (block # blocks) sizes size' =
     rbind (IsAncestorOf st block blueCandidate) (\<lambda>isAncestorOfBlueCandidate.
       if isAncestorOfBlueCandidate then checkBlues st newBlockData blueCandidate blocks sizes size'
       else rbind (blueAnticoneSize st block newBlockData) (\<lambda>n.
            let sizes' = AList.update block n sizes;
                size'' = size' + 1
            in if size'' > gk st then Inr (True, sizes', size'')
               else if n = gk st then Inr (True, sizes', size'')
               else if n > gk st then Inl (Err BlueAnticoneLargerThanK)
               else checkBlues st newBlockData blueCandidate blocks sizes' size''))"

record chainBlockData =
  cb_hash :: "DomainHash option"
  cb_blockData :: BlockGHOSTDAGData

definition checkBlueCandidateWithChainBlock ::
    "dagManagers \<Rightarrow> BlockGHOSTDAGData \<Rightarrow> chainBlockData \<Rightarrow> DomainHash \<Rightarrow> (DomainHash \<times> KType) list \<Rightarrow> KType
     \<Rightarrow> (dag_error, bool \<times> bool \<times> (DomainHash \<times> KType) list \<times> KType) result" where
  "checkBlueCandidateWithChainBlock st newBlockData chainBlock blueCandidate sizes size' =
     rbind (case cb_hash chainBlock of None \<Rightarrow> Inr False | Some h \<Rightarrow> IsAncestorOf st h blueCandidate)
       (\<lambda>isAncestorOfBlueCandidate.
          if isAncestorOfBlueCandidate then Inr (True, False, sizes, size')
          else rbind (checkBlues st newBlockData blueCandidate (MergeSetBlues (cb_blockData chainBlock)) sizes size')
                 (\<lambda>(isRed, sizes', size''). Inr (False, isRed, sizes', size'')))"

primrec checkBlueCandidate_loop ::
    "nat \<Rightarrow> dagManagers \<Rightarrow> BlockGHOSTDAGData \<Rightarrow> chainBlockData \<Rightarrow> DomainHash \<Rightarrow> (DomainHash \<times> KType) list \<Rightarrow> KType
     \<Rightarrow> (dag_error, (KType \<times> (DomainHash \<times> KType) list) option) result" where
  "checkBlueCandidate_loop 0 st newBlockData chainBlock blueCandidate sizes size' = Inl (Err NoFuel)"
| "checkBlueCandidate_loop (Suc fuel) st newBlockData chainBlock blueCandidate sizes size' =
     rbind (checkBlueCandidateWithChainBlock st newBlockData chainBlock blueCandidate sizes size')
       (\<lambda>(isBlue, isRed, sizes', size'').
          if isBlue then Inr (Some (size'', sizes'))
          else if isRed then Inr None
          else rbind (deref (SelectedParent (cb_blockData chainBlock))) (\<lambda>sp.
               rbind (ghostdagData (reach st) sp) (\<lambda>selectedParentGHOSTDAGData.
                 checkBlueCandidate_loop fuel st newBlockData
                   \<lparr>cb_hash = Some sp, cb_blockData = selectedParentGHOSTDAGData\<rparr> blueCandidate sizes' size'')))"

text \<open>
  \<^verbatim>\<open>checkBlueCandidate\<close> returns \<open>None\<close> for a red candidate and otherwise its anticone size and the
  anticone sizes of the blues in its anticone.
\<close>

definition checkBlueCandidate ::
    "dagManagers \<Rightarrow> BlockGHOSTDAGData \<Rightarrow> DomainHash
     \<Rightarrow> (dag_error, (KType \<times> (DomainHash \<times> KType) list) option) result" where
  "checkBlueCandidate st newBlockData blueCandidate =
     (if (of_nat (length (MergeSetBlues newBlockData)) :: KType) = gk st + 1 then Inr None
      else checkBlueCandidate_loop (Suc (dag_fuel st)) st newBlockData
             \<lparr>cb_hash = None, cb_blockData = newBlockData\<rparr> blueCandidate [] 0)"

definition incrementSizes :: "(DomainHash \<times> KType) list \<Rightarrow> (DomainHash \<times> KType) list \<Rightarrow> (DomainHash \<times> KType) list" where
  "incrementSizes candidateBluesAnticoneSizes sizes =
     fold (\<lambda>(blue, n). AList.update blue (n + 1)) candidateBluesAnticoneSizes sizes"

primrec colorCandidates ::
    "dagManagers \<Rightarrow> DomainHash list \<Rightarrow> BlockGHOSTDAGData \<Rightarrow> (dag_error, BlockGHOSTDAGData) result" where
  "colorCandidates st [] newBlockData = Inr newBlockData"
| "colorCandidates st (blueCandidate # candidates) newBlockData =
     rbind (checkBlueCandidate st newBlockData blueCandidate) (\<lambda>r.
       colorCandidates st candidates
         (case r of
            Some (candidateAnticoneSize, candidateBluesAnticoneSizes) \<Rightarrow>
              newBlockData\<lparr>MergeSetBlues := MergeSetBlues newBlockData @ [blueCandidate],
                BluesAnticoneSizes := incrementSizes candidateBluesAnticoneSizes
                  (AList.update blueCandidate candidateAnticoneSize (BluesAnticoneSizes newBlockData))\<rparr>
          | None \<Rightarrow> newBlockData\<lparr>MergeSetReds := MergeSetReds newBlockData @ [blueCandidate]\<rparr>))"

definition headerOf :: "dagManagers \<Rightarrow> DomainHash \<Rightarrow> (dag_error, BlockHeader) result" where
  "headerOf st blockHash = (case map_of (headers st) blockHash of None \<Rightarrow> Inl (Err NotFound) | Some h \<Rightarrow> Inr h)"

primrec addWork :: "dagManagers \<Rightarrow> DomainHash list \<Rightarrow> int \<Rightarrow> (dag_error, int) result" where
  "addWork st [] blueWork = Inr blueWork"
| "addWork st (blue # blues) blueWork =
     rbind (headerOf st blue) (\<lambda>header. addWork st blues (blueWork + CalcWork (bits header)))"

definition stageGhostdag :: "dagManagers \<Rightarrow> DomainHash \<Rightarrow> BlockGHOSTDAGData \<Rightarrow> dagManagers" where
  "stageGhostdag st blockHash data' =
     st\<lparr>reach := (reach st)\<lparr>rm_ghostdag := AList.update blockHash data' (rm_ghostdag (reach st))\<rparr>\<rparr>"

definition GHOSTDAG :: "dagManagers \<Rightarrow> DomainHash \<Rightarrow> (dag_error, dagManagers) result" where
  "GHOSTDAG st blockHash =
     rbind (Parents st blockHash) (\<lambda>blockParents.
     rbind (if blockParents = [] then Inr (NewBlockGHOSTDAGData 0 0 None [] [] [])
            else rbind (findSelectedParent st blockParents) (\<lambda>sp.
                 rbind (deref sp) (\<lambda>selectedParent.
                   Inr (NewBlockGHOSTDAGData 0 0 (Some selectedParent) [selectedParent] [] [(selectedParent, 0)]))))
       (\<lambda>newBlockData.
     rbind (mergeSetWithoutSelectedParent st (SelectedParent newBlockData) blockParents) (\<lambda>mergeSet.
     rbind (colorCandidates st mergeSet newBlockData) (\<lambda>colored.
     rbind (case SelectedParent colored of
              None \<Rightarrow> Inr colored
            | Some sp \<Rightarrow>
                rbind (ghostdagData (reach st) sp) (\<lambda>selectedParentGHOSTDAGData.
                rbind (addWork st (MergeSetBlues colored) (BlueWork selectedParentGHOSTDAGData)) (\<lambda>blueWork.
                  Inr (colored\<lparr>BlueScore := BlueScore selectedParentGHOSTDAGData + of_nat (length (MergeSetBlues colored)),
                               BlueWork := blueWork\<rparr>))))
       (\<lambda>final. Inr (stageGhostdag st blockHash final))))))"

end
