(* ===== verification/Ghostdag_Order.thy ===== *)
theory Ghostdag_Order
  imports Ghostdag Reachability_Dag
begin

text \<open>
  What GHOSTDAG relies on: stores that describe one DAG, in which blue work grows from parents to
  children.  The order by blue work and hash is total, \<^verbatim>\<open>findSelectedParent\<close> finds the greatest
  parent and \<^verbatim>\<open>sortMergeSet\<close> sorts a set of blocks topologically.
\<close>

section \<open>A consistent DAG\<close>

abbreviation blocks :: "dagManagers \<Rightarrow> DomainHash set" where
  "blocks st \<equiv> dom (data_of (reach st))"

definition gdata :: "dagManagers \<Rightarrow> DomainHash \<Rightarrow> BlockGHOSTDAGData" where
  "gdata st h = the (map_of (rm_ghostdag (reach st)) h)"

abbreviation work :: "dagManagers \<Rightarrow> DomainHash \<Rightarrow> int" where
  "work st h \<equiv> BlueWork (gdata st h)"

text \<open>
  \<open>topo P st r\<close>: the stores describe the DAG given by the parents \<open>P\<close> with the genesis block \<open>r\<close>, and
  a block has more blue work than its parents.
\<close>

definition topo :: "(DomainHash \<Rightarrow> DomainHash list) \<Rightarrow> dagManagers \<Rightarrow> DomainHash \<Rightarrow> bool" where
  "topo P st r \<longleftrightarrow> reach_ok P (data_of (reach st)) r
     \<and> (\<forall>h \<in> blocks st. Parents st h = Inr (P h) \<and> map_of (rm_ghostdag (reach st)) h \<noteq> None
          \<and> (P h = [] \<longleftrightarrow> h = r) \<and> (\<forall>q \<in> set (P h). work st q < work st h))"

lemma topoD:
  assumes "topo P st r"
  shows "reach_ok P (data_of (reach st)) r" "\<And>h. h \<in> blocks st \<Longrightarrow> Parents st h = Inr (P h)"
    "\<And>h. h \<in> blocks st \<Longrightarrow> ghostdagData (reach st) h = Inr (gdata st h)"
    "\<And>h. h \<in> blocks st \<Longrightarrow> P h = [] \<longleftrightarrow> h = r"
    "\<And>h q. h \<in> blocks st \<Longrightarrow> q \<in> set (P h) \<Longrightarrow> work st q < work st h"
    "\<And>h. h \<in> blocks st \<Longrightarrow> map_of (rm_ghostdag (reach st)) h = Some (gdata st h)"
    "finite (blocks st)" "r \<in> blocks st" "\<And>h. h \<in> blocks st \<Longrightarrow> set (P h) \<subseteq> blocks st"
proof -
  show 1: "reach_ok P (data_of (reach st)) r" "\<And>h. h \<in> blocks st \<Longrightarrow> Parents st h = Inr (P h)"
    "\<And>h. h \<in> blocks st \<Longrightarrow> P h = [] \<longleftrightarrow> h = r"
    "\<And>h q. h \<in> blocks st \<Longrightarrow> q \<in> set (P h) \<Longrightarrow> work st q < work st h"
    "\<And>h. h \<in> blocks st \<Longrightarrow> map_of (rm_ghostdag (reach st)) h = Some (gdata st h)"
    using assms unfolding topo_def gdata_def by auto
  show "\<And>h. h \<in> blocks st \<Longrightarrow> ghostdagData (reach st) h = Inr (gdata st h)"
    using 1(5) by (simp add: ghostdagData_def)
  note w = validD(1) [OF reach_okD(1) [OF 1(1)]]
  show "finite (blocks st)" "r \<in> blocks st" using tree_wfD(1,2) [OF w] by auto
  show "\<And>h. h \<in> blocks st \<Longrightarrow> set (P h) \<subseteq> blocks st" by (rule reach_okD(3) [OF 1(1)])
qed

lemma topo_IsAncestorOf:
  assumes t: "topo P st r" and "a \<in> blocks st" "b \<in> blocks st"
  shows "IsAncestorOf st a b = Inr (dag_anc P a b)"
  using IsDAGAncestorOf_ok [OF reach_okD(1) assms(2,3) reach_okD(2), OF topoD(1) topoD(1) assms(2), OF t t]
    reach_okD(4) [OF topoD(1) [OF t] assms(2,3)]
  by (simp add: IsAncestorOf_def covers_def)

lemma dag_anc_trans: "dag_anc P a b \<Longrightarrow> dag_anc P b c \<Longrightarrow> dag_anc P a c"
  unfolding dag_anc_def by (rule rtrancl_trans)

lemma dag_anc_parent: "q \<in> set (P b) \<Longrightarrow> dag_anc P q b"
  unfolding dag_anc_def by auto

lemma topo_anc_blocks: "topo P st r \<Longrightarrow> dag_anc P a b \<Longrightarrow> b \<in> blocks st \<Longrightarrow> a \<in> blocks st"
  by (rule dag_anc_dom [of "blocks st" P]) (use topoD(9) in blast)+

lemma topo_work:
  assumes t: "topo P st r" and b: "b \<in> blocks st" and a: "dag_anc P a b"
  shows "a = b \<or> work st a < work st b"
proof -
  have "(a, b) \<in> {(p, c). p \<in> set (P c)}\<^sup>*" using a by (simp add: dag_anc_def)
  then show ?thesis
  proof (induction rule: converse_rtrancl_induct)
    case (step x y)
    have "dag_anc P y b" using step.hyps(2) by (simp add: dag_anc_def)
    then have "y \<in> blocks st" using topo_anc_blocks [OF t _ b] by blast
    then have "work st x < work st y" using topoD(5) [OF t] step.hyps(1) by simp
    then show ?case using step.IH by auto
  qed simp
qed

lemma topo_antisym:
  assumes t: "topo P st r" and b: "b \<in> blocks st" and "dag_anc P a b" "dag_anc P b a"
  shows "a = b"
  using topo_work [OF t b assms(3)] topo_work [OF t topo_anc_blocks [OF t assms(3) b] assms(4)] by auto

lemma topo_genesis:
  assumes t: "topo P st r" and b: "b \<in> blocks st"
  shows "dag_anc P r b"
  using reach_okD(4) [OF topoD(1) [OF t] topoD(8) [OF t] b] tree_wfD(7) [OF validD(1) [OF reach_okD(1) [OF topoD(1) [OF t]]] b]
  by simp

section \<open>The order of blocks\<close>

definition precedes :: "dagManagers \<Rightarrow> DomainHash \<Rightarrow> DomainHash \<Rightarrow> bool" where
  "precedes st a b \<longleftrightarrow> work st a < work st b \<or> work st a = work st b \<and> a < b"

lemma precedes_trans: "precedes st a b \<Longrightarrow> precedes st b c \<Longrightarrow> precedes st a c"
  by (auto simp: precedes_def)

lemma precedes_irrefl [simp]: "\<not> precedes st a a"
  by (simp add: precedes_def)

lemma precedes_total: "a \<noteq> b \<Longrightarrow> \<not> precedes st a b \<Longrightarrow> precedes st b a"
  by (auto simp: precedes_def)

lemma precedes_asym: "precedes st a b \<Longrightarrow> \<not> precedes st b a"
  by (auto simp: precedes_def)

lemma topo_precedes: "topo P st r \<Longrightarrow> b \<in> blocks st \<Longrightarrow> dag_anc P a b \<Longrightarrow> a \<noteq> b \<Longrightarrow> precedes st a b"
  using topo_work by (fastforce simp: precedes_def)

lemma gm_less_ok:
  assumes t: "topo P st r" and "a \<in> blocks st" "b \<in> blocks st"
  shows "gm_less st a b = Inr (a = b \<or> precedes st a b)"
  using topoD(3) [OF t assms(2)] topoD(3) [OF t assms(3)]
  by (auto simp: gm_less_def ChooseSelectedParent_def Less_def precedes_def hash_Less_def)

lemma findSelectedParent_from_ok:
  assumes t: "topo P st r"
  shows "set ps \<subseteq> blocks st \<Longrightarrow> s \<in> blocks st \<Longrightarrow>
    \<exists>sp \<in> insert s (set ps). findSelectedParent_from st (Some s) ps = Inr (Some sp)
      \<and> (\<forall>q \<in> insert s (set ps). q = sp \<or> precedes st q sp)"
proof (induction ps arbitrary: s)
  case (Cons p ps)
  have p: "p \<in> blocks st" "set ps \<subseteq> blocks st" using Cons.prems(1) by auto
  define s' where "s' = (if s = p \<or> precedes st s p then p else s)"
  have s': "s' \<in> blocks st" using p(1) Cons.prems(2) by (simp add: s'_def)
  obtain sp where sp: "sp \<in> insert s' (set ps)" "findSelectedParent_from st (Some s') ps = Inr (Some sp)"
    "\<forall>q \<in> insert s' (set ps). q = sp \<or> precedes st q sp"
    using Cons.IH [OF p(2) s'] by blast
  have "findSelectedParent_from st (Some s) (p # ps) = Inr (Some sp)"
    using gm_less_ok [OF t Cons.prems(2) p(1)] sp(2) by (cases "s = p \<or> precedes st s p") (auto simp: s'_def)
  moreover have "q = sp \<or> precedes st q sp" if "q \<in> insert s (set (p # ps))" for q
  proof -
    have "q = s' \<or> precedes st q s'" if "q = s \<or> q = p" using that precedes_total [of s p st] by (auto simp: s'_def)
    then show ?thesis using sp(3) that precedes_trans by (metis insert_iff list.simps(15))
  qed
  moreover have "sp \<in> insert s (set (p # ps))" using sp(1) by (auto simp: s'_def split: if_splits)
  ultimately show ?case by blast
qed auto

lemma findSelectedParent_ok:
  assumes t: "topo P st r" and ps: "set ps \<subseteq> blocks st" "ps \<noteq> []"
  shows "\<exists>sp \<in> set ps. findSelectedParent st ps = Inr (Some sp) \<and> (\<forall>q \<in> set ps. q = sp \<or> precedes st q sp)"
proof -
  obtain s qs where "ps = s # qs" using ps(2) by (cases ps) auto
  then show ?thesis using findSelectedParent_from_ok [OF t, of qs s] ps by (simp add: findSelectedParent_def)
qed

section \<open>Sorting\<close>

lemma insert_sorted_set [simp]: "set (insert_sorted lt x xs) = insert x (set xs)"
  by (induction xs) auto

lemma insert_sorted_length [simp]: "length (insert_sorted lt x xs) = Suc (length xs)"
  by (induction xs) auto

lemma insert_sorted_ok:
  assumes "sorted_wrt (precedes st) xs" "x \<notin> set xs" "\<And>y. y \<in> set xs \<Longrightarrow> lt x y \<longleftrightarrow> precedes st x y"
  shows "sorted_wrt (precedes st) (insert_sorted lt x xs)"
  using assms
proof (induction xs)
  case (Cons y ys)
  show ?case
  proof (cases "precedes st x y")
    case True
    then show ?thesis using Cons.prems precedes_trans by (auto intro: precedes_trans)
  next
    case False
    then have "precedes st y x" using precedes_total [of x y st] Cons.prems(2) by auto
    then show ?thesis using Cons False by auto
  qed
qed simp

lemma sort_Slice_ok:
  assumes "distinct xs" "\<And>x y. x \<in> set xs \<Longrightarrow> y \<in> set xs \<Longrightarrow> x \<noteq> y \<Longrightarrow> lt x y \<longleftrightarrow> precedes st x y"
  shows "set (sort_Slice lt xs) = set xs \<and> length (sort_Slice lt xs) = length xs \<and> sorted_wrt (precedes st) (sort_Slice lt xs)"
  using assms
proof (induction xs)
  case (Cons x xs)
  have IH: "set (sort_Slice lt xs) = set xs" "length (sort_Slice lt xs) = length xs" "sorted_wrt (precedes st) (sort_Slice lt xs)"
    using Cons by auto
  have "sorted_wrt (precedes st) (insert_sorted lt x (sort_Slice lt xs))"
    by (rule insert_sorted_ok [OF IH(3)]) (use IH(1) Cons.prems in auto)
  then show ?case using IH by (simp add: sort_Slice_def)
qed (simp add: sort_Slice_def)

lemma precedes_distinct: "sorted_wrt (precedes st) xs \<Longrightarrow> distinct xs"
  by (induction xs) auto

lemma sortMergeSet_ok:
  assumes t: "topo P st r" and xs: "set xs \<subseteq> blocks st" "distinct xs"
  shows "\<exists>ys. sortMergeSet st xs = Inr ys \<and> set ys = set xs \<and> sorted_wrt (precedes st) ys"
proof -
  have "map_of (rm_ghostdag (reach st)) h \<noteq> None" if "h \<in> set xs" for h
    using topoD(6) [OF t, of h] that xs(1) by auto
  then have "sortMergeSet st xs = Inr (sort_Slice (isLess st) xs)" by (auto simp: sortMergeSet_def)
  moreover have "isLess st x y \<longleftrightarrow> precedes st x y" if "x \<in> set xs" "y \<in> set xs" "x \<noteq> y" for x y
    using gm_less_ok [OF t, of x y] that xs(1) by (auto simp: isLess_def subset_iff)
  ultimately show ?thesis using sort_Slice_ok [OF xs(2), of "isLess st" st] by blast
qed

end
