(* ===== verification/Block_Heap.thy ===== *)
theory Block_Heap
  imports Ghostdag_Order "HOL-Library.Multiset"
begin

text \<open>
  \<^verbatim>\<open>processes/dagtraversalmanager/block_heap.go\<close>: the heap of bounded size behind block windows, which
  keeps the greatest blocks by blue work and hash, on top of the operations of Go's
  \<^verbatim>\<open>container/heap\<close>, which are written out.  A heap is its slice.
\<close>

section \<open>container/heap\<close>

definition swap :: "'a list \<Rightarrow> nat \<Rightarrow> nat \<Rightarrow> 'a list" where
  "swap xs i j = xs[i := xs ! j, j := xs ! i]"

fun heap_up :: "('a \<Rightarrow> 'a \<Rightarrow> bool) \<Rightarrow> 'a list \<Rightarrow> nat \<Rightarrow> 'a list" where
  "heap_up lt xs j =
     (if j = 0 then xs
      else let i = (j - 1) div 2
           in if \<not> lt (xs ! j) (xs ! i) then xs else heap_up lt (swap xs i j) i)"

declare heap_up.simps [simp del]

function heap_down :: "('a \<Rightarrow> 'a \<Rightarrow> bool) \<Rightarrow> 'a list \<Rightarrow> nat \<Rightarrow> nat \<Rightarrow> 'a list" where
  "heap_down lt xs i n =
     (let j1 = 2 * i + 1
      in if n \<le> j1 then xs
         else let j = (if j1 + 1 < n \<and> lt (xs ! (j1 + 1)) (xs ! j1) then j1 + 1 else j1)
              in if \<not> lt (xs ! j) (xs ! i) then xs else heap_down lt (swap xs i j) j n)"
  by pat_completeness auto
termination by (relation "measure (\<lambda>(lt, xs, i, n). n - i)") (auto split: if_splits)

declare heap_down.simps [simp del]

definition heap_Push :: "('a \<Rightarrow> 'a \<Rightarrow> bool) \<Rightarrow> 'a list \<Rightarrow> 'a \<Rightarrow> 'a list" where
  "heap_Push lt xs x = heap_up lt (xs @ [x]) (length xs)"

text \<open>\<^verbatim>\<open>heap.Pop\<close> of an empty heap panics, in the swap of its elements.\<close>

definition heap_Pop :: "('a \<Rightarrow> 'a \<Rightarrow> bool) \<Rightarrow> 'a list \<Rightarrow> (dag_error, 'a \<times> 'a list) result" where
  "heap_Pop lt xs =
     (if xs = [] then Inl Panic
      else let n = length xs - 1;
               ys = heap_down lt (swap xs 0 n) 0 n
           in Inr (last ys, butlast ys))"

section \<open>Heaps of an order\<close>

abbreviation heap_parent :: "nat \<Rightarrow> nat" where
  "heap_parent j \<equiv> (j - 1) div 2"

definition is_heap :: "('a \<Rightarrow> 'a \<Rightarrow> bool) \<Rightarrow> 'a list \<Rightarrow> bool" where
  "is_heap lt xs \<longleftrightarrow> (\<forall>j < length xs. 0 < j \<longrightarrow> \<not> lt (xs ! j) (xs ! heap_parent j))"

text \<open>A heap except that \<open>j\<close> may be less than its parent, or greater than its children.\<close>

definition up_heap :: "('a \<Rightarrow> 'a \<Rightarrow> bool) \<Rightarrow> 'a list \<Rightarrow> nat \<Rightarrow> bool" where
  "up_heap lt xs j \<longleftrightarrow> (\<forall>i < length xs. 0 < i \<longrightarrow>
     (i \<noteq> j \<longrightarrow> \<not> lt (xs ! i) (xs ! heap_parent i))
     \<and> (heap_parent i = j \<longrightarrow> 0 < j \<longrightarrow> \<not> lt (xs ! i) (xs ! heap_parent j)))"

definition down_heap :: "('a \<Rightarrow> 'a \<Rightarrow> bool) \<Rightarrow> 'a list \<Rightarrow> nat \<Rightarrow> nat \<Rightarrow> bool" where
  "down_heap lt xs j n \<longleftrightarrow> (\<forall>i < n. 0 < i \<longrightarrow>
     (heap_parent i \<noteq> j \<longrightarrow> \<not> lt (xs ! i) (xs ! heap_parent i))
     \<and> (heap_parent i = j \<longrightarrow> 0 < j \<longrightarrow> \<not> lt (xs ! i) (xs ! heap_parent j)))"

lemma length_swap [simp]: "length (swap xs i j) = length xs"
  by (simp add: swap_def)

lemma nth_swap: "i < length xs \<Longrightarrow> j < length xs \<Longrightarrow> k < length xs \<Longrightarrow>
   swap xs i j ! k = (if k = j then xs ! i else if k = i then xs ! j else xs ! k)"
  by (auto simp: swap_def nth_list_update)

lemma mset_heap_swap [simp]: "i < length xs \<Longrightarrow> j < length xs \<Longrightarrow> mset (swap xs i j) = mset xs"
  unfolding swap_def by (rule mset_swap)

lemma swap_take:
  assumes "i < n" "j < n" "n \<le> length xs"
  shows "take n (swap xs i j) = swap (take n xs) i j" "drop n (swap xs i j) = drop n xs"
  using assms by (simp_all add: swap_def take_update_swap)

lemma heap_parent_less: "0 < j \<Longrightarrow> heap_parent j < j"
  by auto

lemma heap_up_stop: "j = 0 \<or> \<not> lt (xs ! j) (xs ! heap_parent j) \<Longrightarrow> heap_up lt xs j = xs"
  by (subst heap_up.simps) (auto simp: Let_def)

lemma heap_up_step: "0 < j \<Longrightarrow> lt (xs ! j) (xs ! heap_parent j) \<Longrightarrow> heap_up lt xs j = heap_up lt (swap xs (heap_parent j) j) (heap_parent j)"
  by (subst heap_up.simps) (auto simp: Let_def)

text \<open>The child that \<^verbatim>\<open>down\<close> compares with its parent.\<close>

definition heap_child :: "('a \<Rightarrow> 'a \<Rightarrow> bool) \<Rightarrow> 'a list \<Rightarrow> nat \<Rightarrow> nat \<Rightarrow> nat" where
  "heap_child lt xs i n = (if 2 * i + 2 < n \<and> lt (xs ! (2 * i + 2)) (xs ! (2 * i + 1)) then 2 * i + 2 else 2 * i + 1)"

lemma heap_child_cases:
  "heap_child lt xs i n = 2 * i + 1 \<or> heap_child lt xs i n = 2 * i + 2 \<and> 2 * i + 2 < n"
  by (simp add: heap_child_def)

lemma heap_down_stop: "n \<le> 2 * i + 1 \<or> \<not> lt (xs ! heap_child lt xs i n) (xs ! i) \<Longrightarrow> heap_down lt xs i n = xs"
  by (subst heap_down.simps) (auto simp: Let_def heap_child_def)

lemma heap_down_step:
  "\<not> (n \<le> 2 * i + 1 \<or> \<not> lt (xs ! heap_child lt xs i n) (xs ! i)) \<Longrightarrow>
   heap_down lt xs i n = heap_down lt (swap xs i (heap_child lt xs i n)) (heap_child lt xs i n) n"
  by (subst heap_down.simps) (auto simp: Let_def heap_child_def split: if_splits)

locale heap_order =
  fixes lt :: "'a \<Rightarrow> 'a \<Rightarrow> bool"
  assumes lt_asym: "lt x y \<Longrightarrow> \<not> lt y x"
    and le_trans: "\<not> lt y x \<Longrightarrow> \<not> lt z y \<Longrightarrow> \<not> lt z x"
begin

lemma up_heap_step:
  assumes u: "up_heap lt xs j" and j: "0 < j" "j < length xs" "lt (xs ! j) (xs ! heap_parent j)"
  shows "up_heap lt (swap xs (heap_parent j) j) (heap_parent j)"
  unfolding up_heap_def
proof (intro allI impI conjI)
  let ?i = "heap_parent j" and ?ys = "swap xs (heap_parent j) j"
  have i: "?i < j" "?i < length xs" using j by auto
  have U: "\<And>k. k < length xs \<Longrightarrow> 0 < k \<Longrightarrow> k \<noteq> j \<Longrightarrow> \<not> lt (xs ! k) (xs ! heap_parent k)"
    "\<And>k. k < length xs \<Longrightarrow> 0 < k \<Longrightarrow> heap_parent k = j \<Longrightarrow> \<not> lt (xs ! k) (xs ! ?i)"
    using u j(1) unfolding up_heap_def by blast+
  fix k
  assume k: "k < length ?ys" "0 < k"
  then have kp: "heap_parent k < k" "heap_parent k < length xs" "k < length xs" by auto
  note y = nth_swap [OF i(2) j(2)]
  show "\<not> lt (?ys ! k) (?ys ! heap_parent k)" if "k \<noteq> ?i"
  proof (cases "k = j")
    case True
    then show ?thesis using j lt_asym y i by simp
  next
    case kj: False
    show ?thesis
    proof (cases "heap_parent k = ?i")
      case True
      have "\<not> lt (xs ! k) (xs ! ?i)" using U(1) [OF kp(3) k(2) kj] True by simp
      then have "\<not> lt (xs ! k) (xs ! j)" using le_trans lt_asym [OF j(3)] by blast
      then show ?thesis using y [OF kp(3)] y [OF kp(2)] True kj that i(1) by simp
    next
      case False
      then show ?thesis using y [OF kp(3)] y [OF kp(2)] kj that U [OF kp(3) k(2)] by (cases "heap_parent k = j") auto
    qed
  qed
  show "\<not> lt (?ys ! k) (?ys ! heap_parent ?i)" if "heap_parent k = ?i" "0 < ?i"
  proof -
    have pi: "heap_parent ?i < ?i" by (rule heap_parent_less [OF that(2)])
    then have pl: "heap_parent ?i < length xs" using i(2) by (rule less_trans)
    have 1: "\<not> lt (xs ! ?i) (xs ! heap_parent ?i)" using U(1) [OF i(2) that(2)] i(1) by simp
    have "\<not> lt (xs ! k) (xs ! heap_parent ?i)" if "k \<noteq> j"
      using U(1) [OF kp(3) k(2) that] 1 le_trans \<open>heap_parent k = ?i\<close> by metis
    then show ?thesis using 1 y [OF kp(3)] y [OF pl] pi i(1) kp(1) that(1) by auto
  qed
qed

lemma heap_up_ok:
  "up_heap lt xs j \<Longrightarrow> j < length xs \<Longrightarrow> is_heap lt (heap_up lt xs j) \<and> mset (heap_up lt xs j) = mset xs"
proof (induction j arbitrary: xs rule: less_induct)
  case (less j)
  show ?case
  proof (cases "j = 0 \<or> \<not> lt (xs ! j) (xs ! heap_parent j)")
    case True
    then have "is_heap lt xs" using less.prems unfolding is_heap_def up_heap_def by (metis not_gr_zero)
    then show ?thesis using heap_up_stop [of j lt xs, OF True] by simp
  next
    case False
    then have j: "0 < j" "lt (xs ! j) (xs ! heap_parent j)" "heap_parent j < j" by auto
    then show ?thesis using less.IH [OF j(3) up_heap_step [OF less.prems(1) j(1) less.prems(2) j(2)]] less.prems(2)
      by (simp add: heap_up_step)
  qed
qed

lemma heap_child_least:
  assumes k: "k < n" "0 < k" "heap_parent k = i"
  shows "\<not> lt (xs ! k) (xs ! heap_child lt xs i n)"
proof -
  have "k = 2 * i + 1 \<or> k = 2 * i + 2" using k by auto
  then show ?thesis using lt_asym k(1) by (auto simp: heap_child_def)
qed

lemma down_heap_step:
  assumes d: "down_heap lt xs i n" and n: "n \<le> length xs" "j < n" "0 < j" "heap_parent j = i"
    and least: "\<And>k. k < n \<Longrightarrow> 0 < k \<Longrightarrow> heap_parent k = i \<Longrightarrow> \<not> lt (xs ! k) (xs ! j)" and l: "lt (xs ! j) (xs ! i)"
  shows "down_heap lt (swap xs i j) j n"
  unfolding down_heap_def
proof (intro allI impI conjI)
  let ?ys = "swap xs i j"
  have i: "i < j" "i < length xs" "j < length xs" using n by auto
  have D: "\<And>k. k < n \<Longrightarrow> 0 < k \<Longrightarrow> heap_parent k \<noteq> i \<Longrightarrow> \<not> lt (xs ! k) (xs ! heap_parent k)"
    "\<And>k. k < n \<Longrightarrow> 0 < k \<Longrightarrow> heap_parent k = i \<Longrightarrow> 0 < i \<Longrightarrow> \<not> lt (xs ! k) (xs ! heap_parent i)"
    using d unfolding down_heap_def by blast+
  note y = nth_swap [OF i(2,3)]
  fix k
  assume k: "k < n" "0 < k"
  then have kp: "heap_parent k < k" "heap_parent k < length xs" "k < length xs" using n(1) by auto
  show "\<not> lt (?ys ! k) (?ys ! heap_parent k)" if "heap_parent k \<noteq> j"
  proof (cases "heap_parent k = i")
    case True
    then show ?thesis using y [OF kp(3)] y [OF kp(2)] least [OF k] lt_asym [OF l] kp(1) i(1) by auto
  next
    case False
    have "\<not> lt (xs ! j) (xs ! heap_parent i)" if "k = i" using D(2) [OF n(2,3,4)] that k(2) by blast
    moreover have "k \<noteq> j" using False n(4) by blast
    ultimately show ?thesis using y [OF kp(3)] y [OF kp(2)] D(1) [OF k False] False that by auto
  qed
  show "\<not> lt (?ys ! k) (?ys ! heap_parent j)" if "heap_parent k = j" "0 < j"
  proof -
    have "\<not> lt (xs ! k) (xs ! j)" using D(1) [OF k] that(1) i(1) n(4) by auto
    moreover have "k \<noteq> i" "k \<noteq> j" using kp(1) that(1) i(1) by auto
    ultimately show ?thesis using y [OF kp(3)] y [OF i(2)] n(4) i(1) by simp
  qed
qed

lemma heap_down_ok:
  "down_heap lt xs i n \<Longrightarrow> n \<le> length xs \<Longrightarrow>
   is_heap lt (take n (heap_down lt xs i n)) \<and> mset (take n (heap_down lt xs i n)) = mset (take n xs)
     \<and> drop n (heap_down lt xs i n) = drop n xs \<and> length (heap_down lt xs i n) = length xs"
proof (induction "n - i" arbitrary: xs i rule: less_induct)
  case less
  let ?j = "heap_child lt xs i n"
  show ?case
  proof (cases "n \<le> 2 * i + 1 \<or> \<not> lt (xs ! ?j) (xs ! i)")
    case True
    have "\<not> lt (xs ! k) (xs ! heap_parent k)" if k: "k < n" "0 < k" for k
    proof (cases "heap_parent k = i")
      case p: True
      then have "\<not> n \<le> 2 * i + 1" using k by (auto simp: heap_child_cases)
      then have "\<not> lt (xs ! ?j) (xs ! i)" using True by blast
      from le_trans [OF this heap_child_least [OF k p]] show ?thesis unfolding p .
    qed (use less.prems(1) k in \<open>auto simp: down_heap_def\<close>)
    then have "is_heap lt (take n xs)" using less.prems(2) by (auto simp: is_heap_def)
    then show ?thesis using heap_down_stop [of n i lt xs, OF True] by simp
  next
    case False
    then have c: "?j < n" "0 < ?j" "heap_parent ?j = i" "i < ?j" using heap_child_cases [of lt xs i n] by auto
    have "down_heap lt (swap xs i ?j) ?j n"
      using down_heap_step [OF less.prems c(1-3)] heap_child_least False by blast
    moreover have "n - ?j < n - i" using c by simp
    moreover have "mset (take n (swap xs i ?j)) = mset (take n xs)" "drop n (swap xs i ?j) = drop n xs"
      using c less.prems(2) by (simp_all add: swap_take)
    ultimately show ?thesis using less.hyps [of ?j "swap xs i ?j"] less.prems(2) heap_down_step [of n i lt xs, OF False] by simp
  qed
qed

lemma root_least: "is_heap lt xs \<Longrightarrow> k < length xs \<Longrightarrow> \<not> lt (xs ! k) (xs ! 0)"
proof (induction k rule: less_induct)
  case (less k)
  show ?case
  proof (cases "k = 0")
    case True
    then show ?thesis using lt_asym by blast
  next
    case False
    then have "\<not> lt (xs ! k) (xs ! heap_parent k)" "\<not> lt (xs ! heap_parent k) (xs ! 0)"
      using less by (auto simp: is_heap_def)
    then show ?thesis using le_trans by blast
  qed
qed

lemma heap_Push_ok:
  assumes "is_heap lt xs"
  shows "is_heap lt (heap_Push lt xs x)" "mset (heap_Push lt xs x) = add_mset x (mset xs)"
proof -
  have "up_heap lt (xs @ [x]) (length xs)"
    using assms by (auto simp: up_heap_def is_heap_def nth_append)
  then show "is_heap lt (heap_Push lt xs x)" "mset (heap_Push lt xs x) = add_mset x (mset xs)"
    using heap_up_ok [of "xs @ [x]" "length xs"] by (simp_all add: heap_Push_def)
qed

lemma heap_Pop_ok:
  assumes h: "is_heap lt xs" and ne: "xs \<noteq> []"
  shows "\<exists>ys. heap_Pop lt xs = Inr (xs ! 0, ys) \<and> is_heap lt ys \<and> add_mset (xs ! 0) (mset ys) = mset xs"
proof -
  let ?n = "length xs - 1" and ?s = "swap xs 0 (length xs - 1)"
  let ?ys = "heap_down lt ?s 0 ?n"
  have n: "?n < length xs" "0 < length xs" using ne by auto
  have "down_heap lt ?s 0 ?n"
    using h n by (auto simp: down_heap_def is_heap_def nth_swap)
  then have d: "is_heap lt (take ?n ?ys)" "mset (take ?n ?ys) = mset (take ?n ?s)" "drop ?n ?ys = drop ?n ?s"
    "length ?ys = length xs" using heap_down_ok [of ?s 0 ?n] by auto
  have "drop ?n ?s = [xs ! 0]"
    using n by (simp add: Cons_nth_drop_Suc [symmetric] nth_swap)
  then have l: "last ?ys = xs ! 0" "butlast ?ys = take ?n ?ys"
    using d(3,4) n by (metis last_drop last_ConsL length_drop list.size(3,4) ne, simp add: butlast_conv_take)
  have "mset (take ?n ?s) + mset (drop ?n ?s) = mset xs" using n by (simp flip: mset_append)
  then have "add_mset (xs ! 0) (mset (take ?n ?ys)) = mset xs" using \<open>drop ?n ?s = [xs ! 0]\<close> d(2) by simp
  then show ?thesis using l d(1) ne by (intro exI [of _ "take ?n ?ys"]) (simp add: heap_Pop_def Let_def)
qed

end

section \<open>Heaps of blocks\<close>

record blockHeapNode =
  bn_hash :: DomainHash
  bn_ghostdagData :: BlockGHOSTDAGData

definition node_less :: "blockHeapNode \<Rightarrow> blockHeapNode \<Rightarrow> bool" where
  "node_less left right = Less (bn_hash left) (bn_ghostdagData left) (bn_hash right) (bn_ghostdagData right)"

definition sbh_pop :: "blockHeapNode list \<Rightarrow> (dag_error, DomainHash \<times> blockHeapNode list) result" where
  "sbh_pop sbh = rbind (heap_Pop node_less sbh) (\<lambda>(node, sbh'). Inr (bn_hash node, sbh'))"

text \<open>
  A \<^verbatim>\<open>sizedUpBlockHeap\<close> is a slice and its capacity.  \<^verbatim>\<open>peek\<close> of an empty heap, which happens when the
  capacity is zero, panics.
\<close>

definition tryPushWithGHOSTDAGData :: "nat \<Rightarrow> blockHeapNode list \<Rightarrow> DomainHash \<Rightarrow> BlockGHOSTDAGData
     \<Rightarrow> (dag_error, bool \<times> blockHeapNode list) result" where
  "tryPushWithGHOSTDAGData cap sbh blockHash data' =
     (let node = \<lparr>bn_hash = blockHash, bn_ghostdagData = data'\<rparr>
      in if length sbh = cap
         then (case sbh of
                 [] \<Rightarrow> Inl Panic
               | min' # _ \<Rightarrow>
                   if node_less node min' then Inr (False, sbh)
                   else rbind (sbh_pop sbh) (\<lambda>(_, sbh'). Inr (True, heap_Push node_less sbh' node)))
         else Inr (True, heap_Push node_less sbh node))"

definition tryPush :: "dagManagers \<Rightarrow> nat \<Rightarrow> blockHeapNode list \<Rightarrow> DomainHash
     \<Rightarrow> (dag_error, bool \<times> blockHeapNode list) result" where
  "tryPush st cap sbh blockHash =
     rbind (ghostdagData (reach st) blockHash) (\<lambda>data'. tryPushWithGHOSTDAGData cap sbh blockHash data')"

interpretation blueWork: heap_order node_less
  by unfold_locales (auto simp: node_less_def Less_def hash_Less_def split: if_splits)

section \<open>The greatest blocks of a set\<close>

text \<open>
  \<open>greatest st N S hs\<close>: the heap of the blocks \<open>hs\<close> holds the \<open>N\<close> greatest blocks of \<open>S\<close>, or all of
  them if there are fewer.
\<close>

definition nodeOf :: "dagManagers \<Rightarrow> DomainHash \<Rightarrow> blockHeapNode" where
  "nodeOf st h = \<lparr>bn_hash = h, bn_ghostdagData = gdata st h\<rparr>"

definition greatest :: "dagManagers \<Rightarrow> nat \<Rightarrow> DomainHash set \<Rightarrow> DomainHash list \<Rightarrow> bool" where
  "greatest st N S hs \<longleftrightarrow> finite S \<and> is_heap node_less (map (nodeOf st) hs) \<and> distinct hs \<and> set hs \<subseteq> S
     \<and> length hs = min N (card S) \<and> (\<forall>a \<in> S - set hs. \<forall>b \<in> set hs. precedes st a b)"

lemma greatestD:
  assumes "greatest st N S hs"
  shows "finite S" "is_heap node_less (map (nodeOf st) hs)" "distinct hs" "set hs \<subseteq> S" "length hs = min N (card S)"
    "\<And>a b. a \<in> S \<Longrightarrow> a \<notin> set hs \<Longrightarrow> b \<in> set hs \<Longrightarrow> precedes st a b"
  using assms unfolding greatest_def by blast+

lemma node_less_precedes: "node_less (nodeOf st a) (nodeOf st b) \<longleftrightarrow> precedes st a b"
  by (auto simp: node_less_def nodeOf_def Less_def precedes_def hash_Less_def)

lemma bn_hash_nodeOf [simp]: "bn_hash (nodeOf st h) = h"
  by (simp add: nodeOf_def)

lemma greatest_empty: "greatest st N {} []"
  by (simp add: greatest_def is_heap_def)

text \<open>Blocks that precede every block of a full heap can be skipped.\<close>

lemma greatest_skip:
  assumes g: "greatest st N S hs" and full: "length hs = N" and fin: "finite X"
    and X: "\<And>x b. x \<in> X \<Longrightarrow> b \<in> set hs \<Longrightarrow> precedes st x b"
  shows "greatest st N (S \<union> X) hs"
proof -
  note G = greatestD [OF g]
  have "card S \<le> card (S \<union> X)" using G(1) fin by (intro card_mono) auto
  then have "length hs = min N (card (S \<union> X))" using G(5) full by linarith
  then show ?thesis unfolding greatest_def using G(1-4,6) fin X by blast
qed

lemma heap_of_nodes:
  assumes "mset ys = image_mset (nodeOf st) M"
  shows "ys = map (nodeOf st) (map bn_hash ys)" "mset (map bn_hash ys) = M"
proof -
  have "\<forall>y \<in> set ys. y = nodeOf st (bn_hash y)"
    using assms by (metis bn_hash_nodeOf imageE set_image_mset set_mset_mset)
  then show "ys = map (nodeOf st) (map bn_hash ys)" by (simp add: map_idI)
  have "mset (map bn_hash ys) = image_mset (bn_hash \<circ> nodeOf st) M" using assms by (simp add: multiset.map_comp)
  then show "mset (map bn_hash ys) = M" by (simp add: comp_def)
qed

lemma heap_Push_nodes:
  assumes "is_heap node_less (map (nodeOf st) hs)"
  shows "\<exists>hs'. heap_Push node_less (map (nodeOf st) hs) (nodeOf st x) = map (nodeOf st) hs'
    \<and> is_heap node_less (map (nodeOf st) hs') \<and> mset hs' = add_mset x (mset hs)"
proof -
  let ?ys = "heap_Push node_less (map (nodeOf st) hs) (nodeOf st x)"
  have "mset ?ys = image_mset (nodeOf st) (add_mset x (mset hs))" using blueWork.heap_Push_ok(2) [OF assms] by simp
  note n = heap_of_nodes [OF this]
  show ?thesis using n blueWork.heap_Push_ok(1) [OF assms] by metis
qed

lemma heap_Pop_nodes:
  assumes h: "is_heap node_less (map (nodeOf st) hs)" and ne: "hs \<noteq> []"
  shows "\<exists>hs'. heap_Pop node_less (map (nodeOf st) hs) = Inr (nodeOf st (hs ! 0), map (nodeOf st) hs')
    \<and> is_heap node_less (map (nodeOf st) hs') \<and> mset hs = add_mset (hs ! 0) (mset hs')"
proof -
  obtain ys where y: "heap_Pop node_less (map (nodeOf st) hs) = Inr (map (nodeOf st) hs ! 0, ys)" "is_heap node_less ys"
    "add_mset (map (nodeOf st) hs ! 0) (mset ys) = mset (map (nodeOf st) hs)"
    using blueWork.heap_Pop_ok [OF h] ne by auto
  obtain m hs1 where hs: "hs = m # hs1" using ne by (cases hs) auto
  have "mset ys = image_mset (nodeOf st) (mset hs1)" using y(3) hs by simp
  note n = heap_of_nodes [OF this]
  have "mset hs = add_mset (hs ! 0) (mset (map bn_hash ys))" using n(2) hs by simp
  then show ?thesis using y(1,2) n(1) hs by (intro exI [of _ "map bn_hash ys"]) simp
qed

lemma nodes_root_least:
  assumes "is_heap node_less (map (nodeOf st) hs)" "a \<in> set hs"
  shows "\<not> precedes st a (hs ! 0)"
proof -
  obtain k where k: "k < length hs" "hs ! k = a" using assms(2) by (auto simp: in_set_conv_nth)
  have 0: "0 < length hs" using k(1) by linarith
  have "map (nodeOf st) hs ! k = nodeOf st a" "map (nodeOf st) hs ! 0 = nodeOf st (hs ! 0)"
    using nth_map [OF k(1)] nth_map [OF 0] k(2) by simp_all
  then show ?thesis using blueWork.root_least [OF assms(1), of k] k(1) by (simp add: node_less_precedes)
qed

lemma greatest_add:
  assumes g: "greatest st N S hs" and x: "x \<notin> S" and room: "length hs \<noteq> N"
    and hs': "is_heap node_less (map (nodeOf st) hs')" and e: "mset hs' = mset (x # hs)"
  shows "greatest st N (insert x S) hs'"
proof -
  note G = greatestD [OF g]
  have S: "card S < N" "length hs = card S" using G(5) room by linarith+
  then have all: "set hs = S" using G(1,3,4) by (metis card_subset_eq distinct_card)
  then have s': "set hs' = insert x S" "length hs' = Suc (length hs)" "distinct hs'"
    using mset_eq_setD [OF e] mset_eq_length [OF e] mset_eq_imp_distinct_iff [OF e] G(3) x by auto
  have "min N (card (insert x S)) = length hs'" using S s'(2) G(1) x by simp
  then show ?thesis using hs' s' G(1) by (simp add: greatest_def)
qed

lemma greatest_replace:
  assumes g: "greatest st N S (m # hs)" and x: "x \<notin> S" and full: "length (m # hs) = N" and mx: "precedes st m x"
    and hs': "is_heap node_less (map (nodeOf st) hs')" and e: "mset hs' = mset (x # hs)"
  shows "greatest st N (insert x S) hs'"
proof -
  note G = greatestD [OF g]
  have s': "set hs' = insert x (set hs)" "length hs' = N" "distinct hs'"
    using mset_eq_setD [OF e] mset_eq_length [OF e] mset_eq_imp_distinct_iff [OF e] full G(3,4) x by auto
  have m_least: "precedes st m b" if "b \<in> set hs'" for b
    using that s'(1) mx nodes_root_least [OF G(2), of b] precedes_total [of m b st] G(3) by auto
  have "precedes st a b" if a: "a \<in> insert x S" "a \<notin> set hs'" and b: "b \<in> set hs'" for a b
  proof (cases "a = m")
    case False
    then have "a \<in> S" "a \<notin> set (m # hs)" using a s'(1) by auto
    then show ?thesis using G(6) [of a m] m_least [OF b] precedes_trans by fastforce
  qed (simp add: m_least [OF b])
  moreover have "card (insert x S) = Suc (card S)" using G(1) x by simp
  ultimately show ?thesis unfolding greatest_def using hs' s' G(1,4,5) full by auto
qed

text \<open>Trying to push a block: it is refused only when the heap is full of greater blocks.\<close>

lemma tryPush_ok:
  assumes g: "greatest st N S hs" and N: "0 < N" and x: "x \<notin> S"
  shows "\<exists>added hs'. tryPushWithGHOSTDAGData N (map (nodeOf st) hs) x (gdata st x) = Inr (added, map (nodeOf st) hs')
    \<and> greatest st N (insert x S) hs' \<and> (\<not> added \<longrightarrow> hs' = hs \<and> length hs = N \<and> (\<forall>b \<in> set hs. precedes st x b))"
proof -
  note G = greatestD [OF g]
  have node: "\<lparr>bn_hash = x, bn_ghostdagData = gdata st x\<rparr> = nodeOf st x" by (simp add: nodeOf_def)
  show ?thesis
  proof (cases "length hs = N")
    case False
    obtain hs' where "heap_Push node_less (map (nodeOf st) hs) (nodeOf st x) = map (nodeOf st) hs'"
      "greatest st N (insert x S) hs'" using heap_Push_nodes [OF G(2), of x] greatest_add [OF g x False] by auto
    then show ?thesis using False by (intro exI [of _ True] exI [of _ hs']) (simp add: tryPushWithGHOSTDAGData_def node)
  next
    case True
    then obtain m hs1 where hs: "hs = m # hs1" using N by (cases hs) auto
    show ?thesis
    proof (cases "precedes st x m")
      case less: True
      have all: "precedes st x b" if "b \<in> set hs" for b
        using nodes_root_least [OF G(2) that] hs less precedes_total [of b m st] precedes_trans by (cases "b = m") auto
      then have "greatest st N (insert x S) hs" using greatest_skip [OF g True, of "{x}"] by simp
      then show ?thesis using True hs less all
        by (intro exI [of _ False] exI [of _ hs]) (simp add: tryPushWithGHOSTDAGData_def node node_less_precedes)
    next
      case ge: False
      then have mx: "precedes st m x" using G(4) x hs precedes_total [of x m st] by auto
      obtain hs2 where p: "heap_Pop node_less (map (nodeOf st) hs) = Inr (nodeOf st m, map (nodeOf st) hs2)"
        "is_heap node_less (map (nodeOf st) hs2)" "mset hs1 = mset hs2" using heap_Pop_nodes [OF G(2)] hs by auto
      obtain hs' where h': "heap_Push node_less (map (nodeOf st) hs2) (nodeOf st x) = map (nodeOf st) hs'"
        "greatest st N (insert x S) hs'"
        using heap_Push_nodes [OF p(2), of x] greatest_replace [OF g [unfolded hs] x True [unfolded hs] mx] p(3) by auto
      then show ?thesis using True hs ge p(1)
        by (intro exI [of _ True] exI [of _ hs']) (simp add: tryPushWithGHOSTDAGData_def node node_less_precedes sbh_pop_def)
    qed
  qed
qed

end
