(* ===== verification/Ghostdag_Merge_Set.thy ===== *)
theory Ghostdag_Merge_Set
  imports Ghostdag_Order
begin

text \<open>
  \<^verbatim>\<open>mergeset.go\<close>: the breadth first search through the parents ends and finds exactly the past of the
  new block outside the past of its selected parent, in topological order.
\<close>

section \<open>The search\<close>

text \<open>
  The blocks that the search has to find: the past of the new block, given by its parents \<open>ps\<close>,
  outside the past of the selected parent.
\<close>

definition merged :: "(DomainHash \<Rightarrow> DomainHash list) \<Rightarrow> DomainHash list \<Rightarrow> DomainHash \<Rightarrow> DomainHash set" where
  "merged P ps sp = {a. (\<exists>q \<in> set ps. dag_anc P a q) \<and> \<not> dag_anc P a sp}"

text \<open>
  The state of the search: the slice is the list of blocks taken from the queue followed by the queue;
  the parents of the finished blocks \<open>K\<close> are in the slice or in the past of the selected parent.
\<close>

definition search_inv ::
    "(DomainHash \<Rightarrow> DomainHash list) \<Rightarrow> DomainHash list \<Rightarrow> DomainHash \<Rightarrow> DomainHash list \<Rightarrow> DomainHash set
     \<Rightarrow> mergeSetSearch \<Rightarrow> bool" where
  "search_inv P ps sp don K s \<longleftrightarrow>
     mergeSetSlice s = don @ ms_queue s \<and> distinct (mergeSetSlice s) \<and> set (mergeSetMap s) = set (mergeSetSlice s)
     \<and> set (mergeSetSlice s) \<subseteq> merged P ps sp \<and> set ps - {sp} \<subseteq> set (mergeSetSlice s)
     \<and> (\<forall>x \<in> set (selectedParentPast s). dag_anc P x sp)
     \<and> (\<forall>x \<in> K. \<forall>q \<in> set (P x). q \<in> set (mergeSetSlice s) \<or> dag_anc P q sp)"

lemma search_invD:
  assumes "search_inv P ps sp don K s"
  shows "mergeSetSlice s = don @ ms_queue s" "distinct (mergeSetSlice s)" "set (mergeSetMap s) = set (mergeSetSlice s)"
    "set (mergeSetSlice s) \<subseteq> merged P ps sp" "set ps - {sp} \<subseteq> set (mergeSetSlice s)"
    "\<And>x. x \<in> set (selectedParentPast s) \<Longrightarrow> dag_anc P x sp"
    "\<And>x q. x \<in> K \<Longrightarrow> q \<in> set (P x) \<Longrightarrow> q \<in> set (mergeSetSlice s) \<or> dag_anc P q sp"
  using assms unfolding search_inv_def by blast+

lemma search_invI:
  assumes "mergeSetSlice s = don @ ms_queue s" "distinct (mergeSetSlice s)" "set (mergeSetMap s) = set (mergeSetSlice s)"
    "set (mergeSetSlice s) \<subseteq> merged P ps sp" "set ps - {sp} \<subseteq> set (mergeSetSlice s)"
    "\<And>x. x \<in> set (selectedParentPast s) \<Longrightarrow> dag_anc P x sp"
    "\<And>x q. x \<in> K \<Longrightarrow> q \<in> set (P x) \<Longrightarrow> q \<in> set (mergeSetSlice s) \<or> dag_anc P q sp"
  shows "search_inv P ps sp don K s"
  using assms unfolding search_inv_def by blast

lemma search_inv_finish:
  assumes "search_inv P ps sp don K s" "\<forall>q \<in> set (P x). q \<in> set (mergeSetSlice s) \<or> dag_anc P q sp"
  shows "search_inv P ps sp don (insert x K) s"
  using assms unfolding search_inv_def ball_simps by (elim conjE) (intro conjI)

lemma merged_blocks:
  assumes "topo P st r" "set ps \<subseteq> blocks st"
  shows "merged P ps sp \<subseteq> blocks st"
  using topo_anc_blocks [OF assms(1)] assms(2) unfolding merged_def by blast

lemma merged_parent: "x \<in> merged P ps sp \<Longrightarrow> q \<in> set (P x) \<Longrightarrow> \<not> dag_anc P q sp \<Longrightarrow> q \<in> merged P ps sp"
  unfolding merged_def using dag_anc_trans [OF dag_anc_parent] by blast

text \<open>When the queue is empty nothing is missing.\<close>

lemma search_complete:
  assumes I: "search_inv P ps sp don (set don) s" and q: "ms_queue s = []"
  shows "set (mergeSetSlice s) = merged P ps sp"
proof -
  note D = search_invD [OF I]
  have don: "don = mergeSetSlice s" using D(1) q by simp
  have "a \<in> set (mergeSetSlice s)" if a: "a \<in> merged P ps sp" for a
  proof -
    obtain p where p: "p \<in> set ps" "(a, p) \<in> {(p, c). p \<in> set (P c)}\<^sup>*" and na: "\<not> dag_anc P a sp"
      using a by (auto simp: merged_def dag_anc_def)
    have "p \<noteq> sp" using p(2) na by (auto simp: dag_anc_def)
    then have pm: "p \<in> set (mergeSetSlice s)" using p(1) D(5) by blast
    from p(2) na show ?thesis
    proof (induction rule: converse_rtrancl_induct)
      case (step x y)
      have y: "\<not> dag_anc P y sp" using step.prems step.hyps(1) dag_anc_trans [OF dag_anc_parent] by fastforce
      then show ?case using step.IH D(7) [of y x] step.hyps(1) step.prems don by auto
    qed (rule pm)
  qed
  then show ?thesis using D(4) by blast
qed

lemma visitParents_ok:
  assumes t: "topo P st r" and sp: "sp \<in> blocks st" and ps: "set ps \<subseteq> blocks st" and x: "x \<in> merged P ps sp"
  shows "search_inv P ps sp don K s \<Longrightarrow> set qs \<subseteq> set (P x) \<Longrightarrow>
    \<exists>s'. visitParents st (Some sp) qs s = Inr s' \<and> search_inv P ps sp don K s'
      \<and> set (mergeSetSlice s) \<subseteq> set (mergeSetSlice s')
      \<and> (\<forall>q \<in> set qs. q \<in> set (mergeSetSlice s') \<or> dag_anc P q sp)"
proof (induction qs arbitrary: s)
  case (Cons q qs)
  note I = Cons.prems(1) and D = search_invD [OF Cons.prems(1)]
  have qs: "set qs \<subseteq> set (P x)" and q: "q \<in> set (P x)" using Cons.prems(2) by auto
  have qb: "q \<in> blocks st" using merged_blocks [OF t ps] x topoD(9) [OF t] q by blast
  have go: ?case if "visitParents st (Some sp) (q # qs) s = visitParents st (Some sp) qs s1" "search_inv P ps sp don K s1"
      "set (mergeSetSlice s) \<subseteq> set (mergeSetSlice s1)" "q \<in> set (mergeSetSlice s1) \<or> dag_anc P q sp" for s1
    using Cons.IH [OF that(2) qs] that by auto
  consider "q \<in> set (mergeSetMap s)" | "q \<notin> set (mergeSetMap s)" "q \<in> set (selectedParentPast s)"
    | "q \<notin> set (mergeSetMap s)" "q \<notin> set (selectedParentPast s)" "dag_anc P q sp"
    | "q \<notin> set (mergeSetMap s)" "q \<notin> set (selectedParentPast s)" "\<not> dag_anc P q sp" by blast
  then show ?case
  proof cases
    case 1
    then show ?thesis using go [of s] I D(3) by auto
  next
    case 2
    then show ?thesis using go [of s] I D(6) by auto
  next
    case 3
    let ?s = "s\<lparr>selectedParentPast := q # selectedParentPast s\<rparr>"
    have "search_inv P ps sp don K ?s" 
      by (rule search_invI) (use D(1-5) in simp_all, use D(6,7) 3(3) in auto)
    then show ?thesis using go [of ?s] 3 topo_IsAncestorOf [OF t qb sp] by auto
  next
    case 4
    let ?s = "s\<lparr>mergeSetMap := q # mergeSetMap s, mergeSetSlice := mergeSetSlice s @ [q], ms_queue := ms_queue s @ [q]\<rparr>"
    have "search_inv P ps sp don K ?s"
    proof (rule search_invI)
      show "z \<in> set (mergeSetSlice ?s) \<or> dag_anc P z sp" if "y \<in> K" "z \<in> set (P y)" for y z
        using D(7) [OF that] by auto
    qed (use D(1-6) 4 merged_parent [OF x q 4(3)] in auto)
    then show ?thesis using go [of ?s] 4 topo_IsAncestorOf [OF t qb sp] by auto
  qed
qed auto

lemma mergeSet_loop_ok:
  assumes t: "topo P st r" and sp: "sp \<in> blocks st" and ps: "set ps \<subseteq> blocks st"
  shows "search_inv P ps sp don (set don) s \<Longrightarrow> card (blocks st) < fuel + length don \<Longrightarrow>
    \<exists>s'. mergeSet_loop fuel st (Some sp) s = Inr s' \<and> distinct (mergeSetSlice s')
      \<and> set (mergeSetSlice s') = merged P ps sp"
proof (induction fuel arbitrary: s don)
  case 0
  note D = search_invD [OF 0(1)]
  have "length don \<le> length (mergeSetSlice s)" using D(1) by simp
  also have "\<dots> = card (set (mergeSetSlice s))" using distinct_card [OF D(2)] by simp
  also have "\<dots> \<le> card (blocks st)"
    using D(4) merged_blocks [OF t ps, of sp] by (intro card_mono topoD(7) [OF t]) blast
  finally show ?case using 0(2) by simp
next
  case (Suc fuel)
  note I = Suc.prems(1) and D = search_invD [OF Suc.prems(1)]
  show ?case
  proof (cases "ms_queue s")
    case Nil
    then show ?thesis using search_complete [OF I Nil] D(2) by simp
  next
    case (Cons x q)
    have x: "x \<in> merged P ps sp" using D(1,4) Cons by auto
    let ?s = "s\<lparr>ms_queue := q\<rparr>"
    have xb: "x \<in> blocks st" using merged_blocks [OF t ps] x by blast
    have P': "Parents st x = Inr (P x)" by (rule topoD(2) [OF t xb])
    have "search_inv P ps sp (don @ [x]) (set don) ?s"
      by (rule search_invI) (use D(1-5) Cons in simp_all, use D(6,7) in auto)
    then obtain s' where s': "visitParents st (Some sp) (P x) ?s = Inr s'" "search_inv P ps sp (don @ [x]) (set don) s'"
      "\<forall>q \<in> set (P x). q \<in> set (mergeSetSlice s') \<or> dag_anc P q sp"
      using visitParents_ok [OF t sp ps x, of "don @ [x]" "set don" ?s "P x"] by blast
    have I': "search_inv P ps sp (don @ [x]) (set (don @ [x])) s'"
      using search_inv_finish [OF s'(2,3)] by simp
    have "mergeSet_loop (Suc fuel) st (Some sp) s = mergeSet_loop fuel st (Some sp) s'"
      using Cons P' s'(1) by simp
    then show ?thesis using Suc.IH [OF I'] Suc.prems(2) by simp
  qed
qed

lemma queueParents_eq:
  "queueParents (Some sp) ps s = s\<lparr>mergeSetMap := rev (filter (\<lambda>q. q \<noteq> sp) ps) @ mergeSetMap s,
     mergeSetSlice := mergeSetSlice s @ filter (\<lambda>q. q \<noteq> sp) ps, ms_queue := ms_queue s @ filter (\<lambda>q. q \<noteq> sp) ps\<rparr>"
  by (induction ps arbitrary: s) auto

lemma blocks_fuel:
  assumes "topo P st r"
  shows "card (blocks st) < dag_fuel st"
proof -
  have "card (blocks st) \<le> card (fst ` set (rm_ghostdag (reach st)))"
  proof (rule card_mono)
    show "blocks st \<subseteq> fst ` set (rm_ghostdag (reach st))"
      using topoD(6) [OF assms] by (metis dom_map_of_conv_image_fst domI subsetI)
  qed simp
  also have "\<dots> \<le> length (rm_ghostdag (reach st))" by (metis card_length length_map list.set_map)
  finally show ?thesis by (simp add: dag_fuel_def)
qed

text \<open>
  The merge set, for parents that are not in the past of each other.
\<close>

lemma mergeSet_ok:
  assumes t: "topo P st r" and ps: "set ps \<subseteq> blocks st" "distinct ps" and sp: "sp \<in> set ps"
    and anti: "\<And>q. q \<in> set ps \<Longrightarrow> q \<noteq> sp \<Longrightarrow> \<not> dag_anc P q sp"
  shows "\<exists>ms. mergeSetWithoutSelectedParent st (Some sp) ps = Inr ms \<and> set ms = merged P ps sp
    \<and> sorted_wrt (precedes st) ms"
proof -
  let ?s = "queueParents (Some sp) ps \<lparr>mergeSetMap = [], mergeSetSlice = [], selectedParentPast = [], ms_queue = []\<rparr>"
  have "{q \<in> set ps. q \<noteq> sp} \<subseteq> merged P ps sp" using anti by (auto simp: merged_def intro: dag_anc_refl)
  then have I: "search_inv P ps sp [] (set []) ?s"
    using ps(2) by (auto simp: search_inv_def queueParents_eq)
  have spb: "sp \<in> blocks st" using sp ps(1) by blast
  have "card (blocks st) < (dag_fuel st + length ps) + length []" using blocks_fuel [OF t] by simp
  from mergeSet_loop_ok [OF t spb ps(1) I this]
  obtain s' where s': "mergeSet_loop (dag_fuel st + length ps) st (Some sp) ?s = Inr s'"
    "distinct (mergeSetSlice s')" "set (mergeSetSlice s') = merged P ps sp"
    by blast
  obtain ms where "sortMergeSet st (mergeSetSlice s') = Inr ms" "set ms = merged P ps sp" "sorted_wrt (precedes st) ms"
    using sortMergeSet_ok [OF t _ s'(2)] s'(3) merged_blocks [OF t ps(1), of sp] by auto
  then show ?thesis using s'(1) by (simp add: mergeSetWithoutSelectedParent_def Let_def)
qed

end
