(* ===== verification/Ghostdag_Coloring.thy ===== *)
theory Ghostdag_Coloring
  imports Ghostdag_Merge_Set
begin

text \<open>
  \<^verbatim>\<open>ghostdag.go\<close>: a candidate is coloured blue exactly if the blue set stays a \<open>k\<close>-cluster, and the
  recorded anticone sizes stay those of the blue set.
\<close>

section \<open>The blue set\<close>

text \<open>The blue set of GHOSTDAG data: its own blues and the blue set of its selected parent.\<close>

inductive blue :: "dagManagers \<Rightarrow> BlockGHOSTDAGData \<Rightarrow> DomainHash \<Rightarrow> bool" for st where
  here: "y \<in> set (MergeSetBlues d) \<Longrightarrow> blue st d y"
| up: "SelectedParent d = Some s \<Longrightarrow> map_of (rm_ghostdag (reach st)) s = Some d' \<Longrightarrow> blue st d' y \<Longrightarrow> blue st d y"

text \<open>The recorded anticone size of a blue block: the entry nearest on the selected parent chain.\<close>

inductive anticone_size :: "dagManagers \<Rightarrow> BlockGHOSTDAGData \<Rightarrow> DomainHash \<Rightarrow> KType \<Rightarrow> bool" for st where
  found: "map_of (BluesAnticoneSizes d) y = Some n \<Longrightarrow> anticone_size st d y n"
| above: "map_of (BluesAnticoneSizes d) y = None \<Longrightarrow> SelectedParent d = Some s \<Longrightarrow>
    map_of (rm_ghostdag (reach st)) s = Some d' \<Longrightarrow> anticone_size st d' y n \<Longrightarrow> anticone_size st d y n"

definition unrelated :: "(DomainHash \<Rightarrow> DomainHash list) \<Rightarrow> DomainHash \<Rightarrow> DomainHash \<Rightarrow> bool" where
  "unrelated P y z \<longleftrightarrow> \<not> dag_anc P y z \<and> \<not> dag_anc P z y"

text \<open>
  \<open>cluster P st d\<close>: the blue set of \<open>d\<close> is a \<open>k\<close>-cluster, and the recorded sizes are those of the
  anticones within the blue set.
\<close>

definition cluster :: "(DomainHash \<Rightarrow> DomainHash list) \<Rightarrow> dagManagers \<Rightarrow> BlockGHOSTDAGData \<Rightarrow> bool" where
  "cluster P st d \<longleftrightarrow> (\<forall>y. blue st d y \<longrightarrow>
     (\<exists>n. anticone_size st d y n \<and> n \<le> gk st \<and> unat n = card {z. blue st d z \<and> unrelated P y z}))"

definition merges :: "(DomainHash \<Rightarrow> DomainHash list) \<Rightarrow> DomainHash \<Rightarrow> DomainHash \<Rightarrow> BlockGHOSTDAGData \<Rightarrow> bool" where
  "merges P r h d \<longleftrightarrow> (case SelectedParent d of
     None \<Rightarrow> h = r \<and> MergeSetBlues d = [] \<and> MergeSetReds d = []
   | Some s \<Rightarrow> s \<in> set (P h) \<and> distinct (MergeSetBlues d @ MergeSetReds d) \<and> s \<in> set (MergeSetBlues d)
       \<and> set (MergeSetBlues d @ MergeSetReds d) = insert s (merged P (P h) s))"

text \<open>
  The order of the merge set: the selected parent is the greatest parent and the first blue, and the
  other blues and the reds are sorted.
\<close>

definition in_order :: "(DomainHash \<Rightarrow> DomainHash list) \<Rightarrow> dagManagers \<Rightarrow> DomainHash \<Rightarrow> BlockGHOSTDAGData \<Rightarrow> bool" where
  "in_order P st h d \<longleftrightarrow> (\<forall>s. SelectedParent d = Some s \<longrightarrow>
     (\<exists>bs. MergeSetBlues d = s # bs \<and> sorted_wrt (precedes st) bs) \<and> sorted_wrt (precedes st) (MergeSetReds d)
     \<and> (\<forall>q \<in> set (P h). q = s \<or> precedes st q s))"

text \<open>The invariant of the GHOSTDAG data store.\<close>

definition ghost_ok :: "(DomainHash \<Rightarrow> DomainHash list) \<Rightarrow> dagManagers \<Rightarrow> DomainHash \<Rightarrow> bool" where
  "ghost_ok P st r \<longleftrightarrow> topo P st r \<and> unat (gk st) < 255
     \<and> (\<forall>h \<in> blocks st. merges P r h (gdata st h) \<and> cluster P st (gdata st h) \<and> in_order P st h (gdata st h))"

lemma ghost_okD:
  assumes "ghost_ok P st r"
  shows "topo P st r" "unat (gk st) < 255" "\<And>h. h \<in> blocks st \<Longrightarrow> merges P r h (gdata st h)"
    "\<And>h. h \<in> blocks st \<Longrightarrow> cluster P st (gdata st h)" "\<And>h. h \<in> blocks st \<Longrightarrow> in_order P st h (gdata st h)"
  using assms by (auto simp: ghost_ok_def)

lemma mergesD:
  assumes t: "topo P st r" and h: "h \<in> blocks st" and m: "merges P r h d" and s: "SelectedParent d = Some s"
  shows "s \<in> set (P h)" "s \<in> blocks st" "dag_anc P s h" "s \<noteq> h" "distinct (MergeSetBlues d)" "s \<in> set (MergeSetBlues d)"
    "\<And>z. z \<in> set (MergeSetBlues d) \<Longrightarrow> z \<in> blocks st \<and> dag_anc P z h \<and> z \<noteq> h \<and> (z = s \<or> \<not> dag_anc P z s)"
proof -
  have M: "s \<in> set (P h)" "distinct (MergeSetBlues d @ MergeSetReds d)" "s \<in> set (MergeSetBlues d)"
    "set (MergeSetBlues d @ MergeSetReds d) = insert s (merged P (P h) s)"
    using m s by (auto simp: merges_def)
  show "s \<in> set (P h)" "distinct (MergeSetBlues d)" "s \<in> set (MergeSetBlues d)" using M by auto
  show sb: "s \<in> blocks st" using topoD(9) [OF t h] M(1) by blast
  have strict: "dag_anc P z h \<and> z \<noteq> h" if "q \<in> set (P h)" "dag_anc P z q" for z q
  proof -
    have "work st q < work st h" by (rule topoD(5) [OF t h that(1)])
    moreover have "z = q \<or> work st z < work st q" using topo_work [OF t _ that(2)] topoD(9) [OF t h] that(1) by blast
    ultimately show ?thesis using dag_anc_trans [OF that(2) dag_anc_parent [of q P h, OF that(1)]] by auto
  qed
  show "dag_anc P s h" "s \<noteq> h" using strict [OF M(1) dag_anc_refl] by auto
  show "z \<in> blocks st \<and> dag_anc P z h \<and> z \<noteq> h \<and> (z = s \<or> \<not> dag_anc P z s)" if "z \<in> set (MergeSetBlues d)" for z
  proof -
    have "z = s \<or> z \<in> merged P (P h) s" using that M(4) by auto
    then show ?thesis
    proof
      assume "z = s"
      then show ?thesis using sb strict [OF M(1) dag_anc_refl] by simp
    next
      assume z: "z \<in> merged P (P h) s"
      then obtain q where q: "q \<in> set (P h)" "dag_anc P z q" "\<not> dag_anc P z s" by (auto simp: merged_def)
      then show ?thesis using strict [OF q(1,2)] topo_anc_blocks [OF t q(2)] topoD(9) [OF t h] by blast
    qed
  qed
qed

lemma blue_iff:
  assumes "SelectedParent d = Some s" "map_of (rm_ghostdag (reach st)) s = Some d'"
  shows "blue st d z \<longleftrightarrow> z \<in> set (MergeSetBlues d) \<or> blue st d' z"
  using assms by (subst blue.simps) auto

lemma blue_past:
  assumes g: "ghost_ok P st r"
  shows "blue st d z \<Longrightarrow> h \<in> blocks st \<Longrightarrow> d = gdata st h \<Longrightarrow> z \<in> blocks st \<and> dag_anc P z h \<and> z \<noteq> h"
proof (induction arbitrary: h rule: blue.induct)
  case (here y d)
  note m = ghost_okD(3) [OF g here.prems(1)]
  obtain s where s: "SelectedParent d = Some s" using m here by (auto simp: merges_def split: option.splits)
  show ?case using mergesD(7) [OF ghost_okD(1) [OF g] here.prems(1) m] s here by simp
next
  case (up d s d' y)
  note t = ghost_okD(1) [OF g] and m = ghost_okD(3) [OF g up.prems(1)]
  note S = mergesD [OF t up.prems(1) m up.hyps(1) [unfolded up.prems(2)]]
  have "d' = gdata st s" using up.hyps(2) by (simp add: gdata_def)
  then have y: "y \<in> blocks st \<and> dag_anc P y s \<and> y \<noteq> s" by (rule up.IH [OF S(2)])
  moreover have "y \<noteq> h" using y S(3,4) topo_antisym [OF t S(2)] by blast
  ultimately show ?case using dag_anc_trans S(3) by blast
qed

text \<open>The length of the selected parent chain.\<close>

definition depth :: "(DomainHash \<Rightarrow> DomainHash list) \<Rightarrow> dagManagers \<Rightarrow> DomainHash \<Rightarrow> nat" where
  "depth P st s = card {x \<in> blocks st. dag_anc P x s}"

lemma depth_less:
  assumes t: "topo P st r" and h: "h \<in> blocks st" and s: "dag_anc P s h" "s \<noteq> h"
  shows "depth P st s < depth P st h"
  unfolding depth_def
proof (rule psubset_card_mono)
  show "finite {x \<in> blocks st. dag_anc P x h}" using topoD(7) [OF t] by simp
  have "\<not> dag_anc P h s" using topo_antisym [OF t h s(1)] s(2) by blast
  then show "{x \<in> blocks st. dag_anc P x s} \<subset> {x \<in> blocks st. dag_anc P x h}"
    using dag_anc_trans [OF _ s(1)] h by auto
qed

lemma depth_fuel:
  assumes t: "topo P st r"
  shows "depth P st s < dag_fuel st"
proof -
  have "depth P st s \<le> card (blocks st)" unfolding depth_def by (intro card_mono topoD(7) [OF t]) auto
  then show ?thesis using blocks_fuel [OF t] by simp
qed

lemma anticone_size_run:
  assumes g: "ghost_ok P st r"
  shows "anticone_size st d y n \<Longrightarrow> (\<And>s. SelectedParent d = Some s \<Longrightarrow> s \<in> blocks st \<and> depth P st s < fuel) \<Longrightarrow>
    blueAnticoneSize_loop (Suc fuel) st y d = Inr n"
proof (induction arbitrary: fuel rule: anticone_size.induct)
  case (above d y s d' n)
  note t = ghost_okD(1) [OF g]
  have s: "s \<in> blocks st" "depth P st s < fuel" using above.prems above.hyps(2) by auto
  obtain f where f: "fuel = Suc f" using s(2) by (cases fuel) auto
  have d': "d' = gdata st s" using above.hyps(3) by (simp add: gdata_def)
  have "blueAnticoneSize_loop (Suc f) st y d' = Inr n"
  proof (rule above.IH)
    fix s'
    assume "SelectedParent d' = Some s'"
    note S = mergesD [OF t s(1) ghost_okD(3) [OF g s(1)] this [unfolded d']]
    show "s' \<in> blocks st \<and> depth P st s' < f" using S(2) depth_less [OF t s(1) S(3,4)] s(2) f by simp
  qed
  then show ?case using above.hyps f by (simp add: ghostdagData_def)
qed simp

section \<open>Colouring a candidate\<close>

definition sizeOf :: "dagManagers \<Rightarrow> BlockGHOSTDAGData \<Rightarrow> DomainHash \<Rightarrow> KType" where
  "sizeOf st d y = (case blueAnticoneSize st y d of Inl _ \<Rightarrow> 0 | Inr n \<Rightarrow> n)"

text \<open>The data of the new block while its merge set is coloured.\<close>

definition growing :: "(DomainHash \<Rightarrow> DomainHash list) \<Rightarrow> dagManagers \<Rightarrow> DomainHash \<Rightarrow> BlockGHOSTDAGData \<Rightarrow> bool" where
  "growing P st sp d \<longleftrightarrow> SelectedParent d = Some sp \<and> sp \<in> blocks st \<and> distinct (MergeSetBlues d)
     \<and> set (MergeSetBlues d) \<subseteq> blocks st \<and> (\<forall>z \<in> set (MergeSetBlues d). z = sp \<or> \<not> dag_anc P z sp)
     \<and> cluster P st d \<and> sp \<in> set (MergeSetBlues d)"

lemma growingD:
  assumes "growing P st sp d"
  shows "SelectedParent d = Some sp" "sp \<in> blocks st" "distinct (MergeSetBlues d)"
    "set (MergeSetBlues d) \<subseteq> blocks st" "\<And>z. z \<in> set (MergeSetBlues d) \<Longrightarrow> z = sp \<or> \<not> dag_anc P z sp"
    "cluster P st d" "sp \<in> set (MergeSetBlues d)"
  using assms unfolding growing_def by auto

lemma growing_size:
  assumes g: "ghost_ok P st r" and d: "growing P st sp d" and y: "blue st d y"
  shows "blueAnticoneSize st y d = Inr (sizeOf st d y)" "anticone_size st d y (sizeOf st d y)" "sizeOf st d y \<le> gk st"
    "unat (sizeOf st d y) = card {z. blue st d z \<and> unrelated P y z}"
proof -
  obtain n where n: "anticone_size st d y n" "n \<le> gk st" "unat n = card {z. blue st d z \<and> unrelated P y z}"
    using growingD(6) [OF d] y by (auto simp: cluster_def)
  have "blueAnticoneSize st y d = Inr n"
    unfolding blueAnticoneSize_def
    by (rule anticone_size_run [OF g n(1)]) (use growingD(1,2) [OF d] depth_fuel [OF ghost_okD(1) [OF g]] in auto)
  then show "blueAnticoneSize st y d = Inr (sizeOf st d y)" "anticone_size st d y (sizeOf st d y)"
    "sizeOf st d y \<le> gk st" "unat (sizeOf st d y) = card {z. blue st d z \<and> unrelated P y z}"
    using n by (auto simp: sizeOf_def)
qed

lemma growing_blue:
  assumes g: "ghost_ok P st r" and d: "growing P st sp d"
  shows "blue st d z \<longleftrightarrow> z \<in> set (MergeSetBlues d) \<or> blue st (gdata st sp) z" "blue st d z \<Longrightarrow> z \<in> blocks st"
proof -
  show e: "blue st d z \<longleftrightarrow> z \<in> set (MergeSetBlues d) \<or> blue st (gdata st sp) z"
    by (rule blue_iff [OF growingD(1) [OF d] topoD(6) [OF ghost_okD(1) [OF g] growingD(2) [OF d]]])
  show "z \<in> blocks st" if "blue st d z"
    using that growingD(4) [OF d] blue_past [OF g _ growingD(2) [OF d] refl] unfolding e by blast
qed

lemma unat_of_nat8: "n < 256 \<Longrightarrow> unat (of_nat n :: KType) = n"
  by (simp add: unat_of_nat)

lemma checkBlues_ok:
  assumes g: "ghost_ok P st r" and d: "growing P st sp d" and c: "c \<in> blocks st"
  shows "\<lbrakk>\<And>z. z \<in> set bs \<Longrightarrow> blue st d z; distinct bs; N \<le> unat (gk st)\<rbrakk> \<Longrightarrow>
    (if N + card {z \<in> set bs. \<not> dag_anc P z c} \<le> unat (gk st) \<and> (\<forall>z \<in> set bs. \<not> dag_anc P z c \<longrightarrow> sizeOf st d z < gk st)
     then \<exists>S'. checkBlues st d c bs S (of_nat N) = Inr (False, S', of_nat (N + card {z \<in> set bs. \<not> dag_anc P z c}))
            \<and> map_of S' = (\<lambda>z. if z \<in> set bs \<and> \<not> dag_anc P z c then Some (sizeOf st d z) else map_of S z)
     else \<exists>S' n'. checkBlues st d c bs S (of_nat N) = Inr (True, S', n'))"
proof (induction bs arbitrary: S N)
  case (Cons b bs)
  note t = ghost_okD(1) [OF g]
  have b: "blue st d b" "b \<notin> set bs" "distinct bs" using Cons.prems by auto
  have pr: "\<And>z. z \<in> set bs \<Longrightarrow> blue st d z" using Cons.prems(1) by simp
  have bb: "b \<in> blocks st" by (rule growing_blue(2) [OF g d b(1)])
  have anc: "IsAncestorOf st b c = Inr (dag_anc P b c)" by (rule topo_IsAncestorOf [OF t bb c])
  show ?case
  proof (cases "dag_anc P b c")
    case True
    have 1: "{z \<in> set (b # bs). \<not> dag_anc P z c} = {z \<in> set bs. \<not> dag_anc P z c}" using True by auto
    have 2: "(\<lambda>z. if z \<in> set (b # bs) \<and> \<not> dag_anc P z c then Some (sizeOf st d z) else map_of S z)
        = (\<lambda>z. if z \<in> set bs \<and> \<not> dag_anc P z c then Some (sizeOf st d z) else map_of S z)"
      using True by auto
    have 3: "(\<forall>z \<in> set (b # bs). \<not> dag_anc P z c \<longrightarrow> sizeOf st d z < gk st)
        \<longleftrightarrow> (\<forall>z \<in> set bs. \<not> dag_anc P z c \<longrightarrow> sizeOf st d z < gk st)" using True by simp
    have 4: "checkBlues st d c (b # bs) S (of_nat N) = checkBlues st d c bs S (of_nat N)" using True anc by simp
    show ?thesis unfolding 1 2 3 4 by (rule Cons.IH [OF pr b(3) Cons.prems(3)])
  next
    case False
    have card: "card {z \<in> set (b # bs). \<not> dag_anc P z c} = Suc (card {z \<in> set bs. \<not> dag_anc P z c})"
    proof -
      have "{z \<in> set (b # bs). \<not> dag_anc P z c} = insert b {z \<in> set bs. \<not> dag_anc P z c}" using False by auto
      then show ?thesis using b(2) by simp
    qed
    note sz = growing_size [OF g d b(1)]
    have k: "unat (gk st) < 255" by (rule ghost_okD(2) [OF g])
    have n1: "(of_nat N + 1 :: KType) = of_nat (Suc N)" by simp
    have u: "unat (of_nat (Suc N) :: KType) = Suc N" by (rule unat_of_nat8) (use Cons.prems(3) k in simp)
    have gt: "(of_nat (Suc N) :: KType) > gk st \<longleftrightarrow> unat (gk st) < Suc N" by (simp only: word_less_nat_alt u)
    let ?S = "AList.update b (sizeOf st d b) S"
    have step: "checkBlues st d c (b # bs) S (of_nat N) = (if unat (gk st) < Suc N \<or> sizeOf st d b = gk st
        then Inr (True, ?S, of_nat (Suc N)) else checkBlues st d c bs ?S (of_nat (Suc N)))"
      using False anc sz(1,3) gt by (auto simp: Let_def n1 simp del: of_nat_Suc)
    show ?thesis
    proof (cases "unat (gk st) < Suc N \<or> sizeOf st d b = gk st")
      case True
      then have "\<not> (N + card {z \<in> set (b # bs). \<not> dag_anc P z c} \<le> unat (gk st)
          \<and> (\<forall>z \<in> set (b # bs). \<not> dag_anc P z c \<longrightarrow> sizeOf st d z < gk st))"
        unfolding card using False by auto
      then show ?thesis using step True by auto
    next
      case ok: False
      then have bk: "sizeOf st d b < gk st" using sz(3) by (simp add: order_less_le)
      have N': "Suc N \<le> unat (gk st)" using ok by simp
      have all: "(\<forall>z \<in> set (b # bs). \<not> dag_anc P z c \<longrightarrow> sizeOf st d z < gk st)
        \<longleftrightarrow> (\<forall>z \<in> set bs. \<not> dag_anc P z c \<longrightarrow> sizeOf st d z < gk st)" using bk by simp
      have fn: "(\<lambda>z. if z \<in> set bs \<and> \<not> dag_anc P z c then Some (sizeOf st d z) else map_of ?S z)
        = (\<lambda>z. if z \<in> set (b # bs) \<and> \<not> dag_anc P z c then Some (sizeOf st d z) else map_of S z)"
        using False by auto
      have ar: "N + card {z \<in> set (b # bs). \<not> dag_anc P z c} = Suc N + card {z \<in> set bs. \<not> dag_anc P z c}"
        unfolding card by simp
      have st': "checkBlues st d c (b # bs) S (of_nat N) = checkBlues st d c bs ?S (of_nat (Suc N))" using step ok by simp
      show ?thesis unfolding st' all ar fn [symmetric] by (rule Cons.IH [OF pr b(3) N'])
    qed
  qed
qed simp

text \<open>The condition for a candidate to be blue: the blue set stays a \<open>k\<close>-cluster.\<close>

definition fits :: "(DomainHash \<Rightarrow> DomainHash list) \<Rightarrow> dagManagers \<Rightarrow> BlockGHOSTDAGData \<Rightarrow> DomainHash \<Rightarrow> bool" where
  "fits P st d c \<longleftrightarrow> card {z. blue st d z \<and> \<not> dag_anc P z c} \<le> unat (gk st)
     \<and> (\<forall>z. blue st d z \<longrightarrow> \<not> dag_anc P z c \<longrightarrow> sizeOf st d z < gk st)"

text \<open>What the loops have recorded after the blues \<open>V\<close>.\<close>

definition visited :: "(DomainHash \<Rightarrow> DomainHash list) \<Rightarrow> dagManagers \<Rightarrow> BlockGHOSTDAGData \<Rightarrow> DomainHash
     \<Rightarrow> DomainHash set \<Rightarrow> (DomainHash \<times> KType) list \<Rightarrow> KType \<Rightarrow> bool" where
  "visited P st d c V S n \<longleftrightarrow> V \<subseteq> {z. blue st d z}
     \<and> map_of S = (\<lambda>z. if z \<in> V \<and> \<not> dag_anc P z c then Some (sizeOf st d z) else None)
     \<and> n = of_nat (card {z \<in> V. \<not> dag_anc P z c}) \<and> card {z \<in> V. \<not> dag_anc P z c} \<le> unat (gk st)
     \<and> (\<forall>z \<in> V. \<not> dag_anc P z c \<longrightarrow> sizeOf st d z < gk st)"

lemma finite_blue: "ghost_ok P st r \<Longrightarrow> growing P st sp d \<Longrightarrow> finite {z. blue st d z}"
  by (rule finite_subset [OF _ topoD(7) [OF ghost_okD(1)]]) (use growing_blue(2) in blast)+

lemma visit_blues:
  assumes g: "ghost_ok P st r" and d: "growing P st sp d" and c: "c \<in> blocks st"
    and V: "visited P st d c V S n" and bs: "\<And>z. z \<in> set bs \<Longrightarrow> blue st d z" "distinct bs" "set bs \<inter> V = {}"
  shows "(\<exists>S' n'. checkBlues st d c bs S n = Inr (True, S', n')) \<and> \<not> fits P st d c
    \<or> (\<exists>S' n'. checkBlues st d c bs S n = Inr (False, S', n') \<and> visited P st d c (V \<union> set bs) S' n')"
proof -
  let ?N = "card {z \<in> V. \<not> dag_anc P z c}" and ?M = "card {z \<in> set bs. \<not> dag_anc P z c}"
  have V': "V \<subseteq> {z. blue st d z}" "map_of S = (\<lambda>z. if z \<in> V \<and> \<not> dag_anc P z c then Some (sizeOf st d z) else None)"
    "n = of_nat ?N" "?N \<le> unat (gk st)" "\<And>z. z \<in> V \<Longrightarrow> \<not> dag_anc P z c \<Longrightarrow> sizeOf st d z < gk st"
    using V unfolding visited_def by blast+
  have fin: "finite {z. blue st d z}" by (rule finite_blue [OF g d])
  have un: "{z \<in> V \<union> set bs. \<not> dag_anc P z c} = {z \<in> V. \<not> dag_anc P z c} \<union> {z \<in> set bs. \<not> dag_anc P z c}" by auto
  have card: "card {z \<in> V \<union> set bs. \<not> dag_anc P z c} = ?N + ?M"
    unfolding un by (rule card_Un_disjoint) (use bs(3) finite_subset [OF V'(1) fin] in auto)
  note C = checkBlues_ok [OF g d c bs(1,2) V'(4), of S, folded V'(3)]
  show ?thesis
  proof (cases "?N + ?M \<le> unat (gk st) \<and> (\<forall>z \<in> set bs. \<not> dag_anc P z c \<longrightarrow> sizeOf st d z < gk st)")
    case True
    then obtain S' where S': "checkBlues st d c bs S n = Inr (False, S', of_nat (?N + ?M))"
      "map_of S' = (\<lambda>z. if z \<in> set bs \<and> \<not> dag_anc P z c then Some (sizeOf st d z) else map_of S z)"
      using C by auto
    have "visited P st d c (V \<union> set bs) S' (of_nat (?N + ?M))"
      unfolding visited_def card
      using True V'(1,5) bs(1) by (auto simp: S'(2) V'(2))
    then show ?thesis using S'(1) by blast
  next
    case False
    have "?N + ?M \<le> card {z. blue st d z \<and> \<not> dag_anc P z c}"
      unfolding card [symmetric] by (rule card_mono) (use fin V'(1) bs(1) in auto)
    then have "\<not> fits P st d c" using False bs(1) by (auto simp: fits_def)
    then show ?thesis using C False by auto
  qed
qed

lemma visited_all:
  assumes "visited P st d c V S n" "\<And>z. blue st d z \<Longrightarrow> \<not> dag_anc P z c \<Longrightarrow> z \<in> V"
  shows "fits P st d c" "n = of_nat (card {z. blue st d z \<and> \<not> dag_anc P z c})"
    "map_of S = (\<lambda>z. if blue st d z \<and> \<not> dag_anc P z c then Some (sizeOf st d z) else None)"
proof -
  have "{z \<in> V. \<not> dag_anc P z c} = {z. blue st d z \<and> \<not> dag_anc P z c}" using assms unfolding visited_def by blast
  moreover have "z \<in> V \<and> \<not> dag_anc P z c \<longleftrightarrow> blue st d z \<and> \<not> dag_anc P z c" for z using calculation by blast
  ultimately show "fits P st d c" "n = of_nat (card {z. blue st d z \<and> \<not> dag_anc P z c})"
    "map_of S = (\<lambda>z. if blue st d z \<and> \<not> dag_anc P z c then Some (sizeOf st d z) else None)"
    using assms(1) unfolding visited_def fits_def by auto
qed

text \<open>What \<^verbatim>\<open>checkBlueCandidate\<close> returns.\<close>

definition coloured :: "(DomainHash \<Rightarrow> DomainHash list) \<Rightarrow> dagManagers \<Rightarrow> BlockGHOSTDAGData \<Rightarrow> DomainHash
     \<Rightarrow> (dag_error, (KType \<times> (DomainHash \<times> KType) list) option) result \<Rightarrow> bool" where
  "coloured P st d c res \<longleftrightarrow> (if fits P st d c
     then \<exists>S. res = Inr (Some (of_nat (card {z. blue st d z \<and> \<not> dag_anc P z c}), S))
       \<and> map_of S = (\<lambda>z. if blue st d z \<and> \<not> dag_anc P z c then Some (sizeOf st d z) else None)
     else res = Inr None)"

lemma chain_loop_ok:
  assumes g: "ghost_ok P st r" and d: "growing P st sp d" and c: "c \<in> blocks st"
  shows "s \<in> blocks st \<Longrightarrow> depth P st s < fuel \<Longrightarrow> visited P st d c V S n \<Longrightarrow>
    (\<And>z. blue st d z \<longleftrightarrow> z \<in> V \<or> blue st (gdata st s) z) \<Longrightarrow> (\<And>z. z \<in> V \<Longrightarrow> z = s \<or> \<not> dag_anc P z s) \<Longrightarrow>
    coloured P st d c (checkBlueCandidate_loop fuel st d \<lparr>cb_hash = Some s, cb_blockData = gdata st s\<rparr> c S n)"
proof (induction fuel arbitrary: s V S n)
  case (Suc fuel)
  note t = ghost_okD(1) [OF g] and s = Suc.prems(1) and V = Suc.prems(3)
  have anc: "IsAncestorOf st s c = Inr (dag_anc P s c)" by (rule topo_IsAncestorOf [OF t s c])
  show ?case
  proof (cases "dag_anc P s c")
    case True
    have "z \<in> V" if "blue st d z" "\<not> dag_anc P z c" for z
      using that Suc.prems(4) blue_past [OF g _ s refl, of z] dag_anc_trans [OF _ True] by blast
    note A = visited_all [OF V this]
    then show ?thesis using anc True by (auto simp: coloured_def checkBlueCandidateWithChainBlock_def)
  next
    case False
    note m = ghost_okD(3) [OF g s]
    have "s \<noteq> r" using False topo_genesis [OF t c] by blast
    then obtain s' where s': "SelectedParent (gdata st s) = Some s'" using m by (auto simp: merges_def split: option.splits)
    note M = mergesD [OF t s m s']
    let ?bs = "MergeSetBlues (gdata st s)"
    have bs: "\<And>z. z \<in> set ?bs \<Longrightarrow> blue st d z" using Suc.prems(4) blue.here by blast
    have dis: "set ?bs \<inter> V = {}" using M(7) Suc.prems(5) by blast
    note d' = topoD(6) [OF t M(2)]
    consider S' n' where "checkBlues st d c ?bs S n = Inr (True, S', n')" "\<not> fits P st d c"
      | S' n' where "checkBlues st d c ?bs S n = Inr (False, S', n')" "visited P st d c (V \<union> set ?bs) S' n'"
      using visit_blues [OF g d c V bs M(5) dis] by blast
    then show ?thesis
    proof cases
      case 1
      then show ?thesis using anc False by (simp add: coloured_def checkBlueCandidateWithChainBlock_def)
    next
      case 2
      have "coloured P st d c (checkBlueCandidate_loop fuel st d \<lparr>cb_hash = Some s', cb_blockData = gdata st s'\<rparr> c S' n')"
      proof (rule Suc.IH [OF M(2) _ 2(2)])
        show "depth P st s' < fuel" using depth_less [OF t s M(3,4)] Suc.prems(2) by simp
        show "blue st d z \<longleftrightarrow> z \<in> V \<union> set ?bs \<or> blue st (gdata st s') z" for z
          using Suc.prems(4) blue_iff [OF s' d', of z] by blast
        show "z = s' \<or> \<not> dag_anc P z s'" if "z \<in> V \<union> set ?bs" for z
        proof (cases "z \<in> V")
          case True
          have "\<not> dag_anc P s s'" using topo_antisym [OF t s M(3)] M(4) by blast
          then show ?thesis using Suc.prems(5) [OF True] dag_anc_trans [OF _ M(3)] by blast
        qed (use that M(7) in blast)
      qed
      then show ?thesis
        using anc False 2(1) s' topoD(3) [OF t M(2)] by (simp add: checkBlueCandidateWithChainBlock_def)
    qed
  qed
qed simp

lemma checkBlueCandidate_ok:
  assumes g: "ghost_ok P st r" and d: "growing P st sp d" and c: "c \<in> blocks st"
  shows "if length (MergeSetBlues d) mod 256 = unat (gk st) + 1 then checkBlueCandidate st d c = Inr None
    else coloured P st d c (checkBlueCandidate st d c)"
proof -
  note t = ghost_okD(1) [OF g]
  note D = growingD [OF d]
  have k: "unat (gk st) < 255" by (rule ghost_okD(2) [OF g])
  have k1: "unat (gk st + 1) = unat (gk st) + 1" using k by (simp add: unat_word_ariths)
  have full: "(of_nat (length (MergeSetBlues d)) :: KType) = gk st + 1 \<longleftrightarrow> length (MergeSetBlues d) mod 256 = unat (gk st) + 1"
    by (simp add: word_unat_eq_iff k1 unat_of_nat)
  let ?bs = "MergeSetBlues d"
  have bs: "\<And>z. z \<in> set ?bs \<Longrightarrow> blue st d z" by (rule blue.here)
  have V: "visited P st d c {} [] 0" by (simp add: visited_def)
  have "coloured P st d c (checkBlueCandidate_loop (Suc (dag_fuel st)) st d \<lparr>cb_hash = None, cb_blockData = d\<rparr> c [] 0)"
  proof -
    consider S' n' where "checkBlues st d c ?bs [] 0 = Inr (True, S', n')" "\<not> fits P st d c"
      | S' n' where "checkBlues st d c ?bs [] 0 = Inr (False, S', n')" "visited P st d c ({} \<union> set ?bs) S' n'"
      using visit_blues [OF g d c V bs D(3)] by blast
    then show ?thesis
    proof cases
      case 1
      then show ?thesis by (simp add: coloured_def checkBlueCandidateWithChainBlock_def)
    next
      case 2
      have "coloured P st d c (checkBlueCandidate_loop (dag_fuel st) st d \<lparr>cb_hash = Some sp, cb_blockData = gdata st sp\<rparr> c S' n')"
        by (rule chain_loop_ok [OF g d c D(2) depth_fuel [OF t] 2(2)]) (use growing_blue(1) [OF g d] D(5) in auto)
      then show ?thesis using 2(1) D(1) topoD(3) [OF t D(2)] by (simp add: checkBlueCandidateWithChainBlock_def)
    qed
  qed
  then show ?thesis using full by (simp add: checkBlueCandidate_def)
qed

lemma checkBlues_keys:
  "checkBlues st d c bs S n = Inr (b, S', n') \<Longrightarrow> keys_distinct S \<Longrightarrow> keys_distinct S'"
proof (induction bs arbitrary: S n)
  case (Cons x bs)
  show ?case
    using Cons.prems Cons.IH [OF _ keys_distinct_update [OF Cons.prems(2)]] Cons.IH [OF _ Cons.prems(2)]
    by (auto simp: rbind_Inr_iff Let_def split: if_splits)
qed simp

lemma checkBlueCandidate_loop_keys:
  "checkBlueCandidate_loop fuel st d cb c S n = Inr (Some (n', S')) \<Longrightarrow> keys_distinct S \<Longrightarrow> keys_distinct S'"
  by (induction fuel arbitrary: cb S n)
    (auto simp: rbind_Inr_iff checkBlueCandidateWithChainBlock_def split: if_splits dest: checkBlues_keys)

lemma checkBlueCandidate_keys:
  "checkBlueCandidate st d c = Inr (Some (n, S)) \<Longrightarrow> keys_distinct S"
  using checkBlueCandidate_loop_keys [of "Suc (dag_fuel st)" st d "\<lparr>cb_hash = None, cb_blockData = d\<rparr>" c "[]" 0 n S]
  by (simp add: checkBlueCandidate_def keys_distinct_def del: checkBlueCandidate_loop.simps split: if_splits)

lemma map_of_incrementSizes:
  "keys_distinct S \<Longrightarrow> map_of (incrementSizes S Z) = (\<lambda>z. case map_of S z of Some n \<Rightarrow> Some (n + 1) | None \<Rightarrow> map_of Z z)"
proof (induction S arbitrary: Z)
  case (Cons a S)
  obtain b n where a: "a = (b, n)" by (cases a)
  have k: "keys_distinct S" "b \<notin> fst ` set S" using Cons.prems by (auto simp: keys_distinct_def a)
  have "map_of S b = None" using k(2) by (simp add: map_of_eq_None_iff)
  then show ?case using Cons.IH [OF k(1)] by (auto simp: incrementSizes_def a fun_eq_iff split: option.splits)
qed (simp add: incrementSizes_def)

section \<open>A blue candidate\<close>

definition addBlue :: "BlockGHOSTDAGData \<Rightarrow> DomainHash \<Rightarrow> KType \<Rightarrow> (DomainHash \<times> KType) list \<Rightarrow> BlockGHOSTDAGData" where
  "addBlue d c n S = d\<lparr>MergeSetBlues := MergeSetBlues d @ [c],
     BluesAnticoneSizes := incrementSizes S (AList.update c n (BluesAnticoneSizes d))\<rparr>"

lemma addBlue_growing:
  assumes g: "ghost_ok P st r" and d: "growing P st sp d" and c: "c \<in> blocks st"
    and cand: "\<And>z. blue st d z \<Longrightarrow> \<not> dag_anc P c z" and f: "fits P st d c"
    and n: "n = of_nat (card {z. blue st d z \<and> \<not> dag_anc P z c})"
    and S: "map_of S = (\<lambda>z. if blue st d z \<and> \<not> dag_anc P z c then Some (sizeOf st d z) else None)" "keys_distinct S"
  shows "growing P st sp (addBlue d c n S)" "blue st (addBlue d c n S) z \<longleftrightarrow> blue st d z \<or> z = c"
proof -
  note D = growingD [OF d] and t = ghost_okD(1) [OF g]
  let ?d = "addBlue d c n S" and ?A = "{z. blue st d z \<and> \<not> dag_anc P z c}"
  have sp: "SelectedParent ?d = Some sp" using D(1) by (simp add: addBlue_def)
  note d' = topoD(6) [OF t D(2)]
  have bl: "blue st ?d z \<longleftrightarrow> blue st d z \<or> z = c" for z
    unfolding blue_iff [OF sp d'] growing_blue(1) [OF g d] by (auto simp: addBlue_def)
  show "blue st ?d z \<longleftrightarrow> blue st d z \<or> z = c" by (rule bl)
  have nc: "\<not> blue st d c" using cand [of c] by auto
  have k: "unat (gk st) < 255" by (rule ghost_okD(2) [OF g])
  have cA: "card ?A \<le> unat (gk st)" using f by (simp add: fits_def)
  have un: "unat n = card ?A" unfolding n by (rule unat_of_nat8) (use cA k in simp)
  have sz: "map_of (BluesAnticoneSizes ?d) y = (if blue st d y \<and> \<not> dag_anc P y c then Some (sizeOf st d y + 1)
      else if y = c then Some n else map_of (BluesAnticoneSizes d) y)" for y
    using nc by (simp add: addBlue_def map_of_incrementSizes [OF S(2)] S(1))
  have fin: "finite {z. blue st d z}" by (rule finite_blue [OF g d])
  have "\<exists>m. anticone_size st ?d y m \<and> m \<le> gk st \<and> unat m = card {z. blue st ?d z \<and> unrelated P y z}"
    if y: "blue st ?d y" for y
  proof -
    consider "y = c" | "blue st d y" "\<not> dag_anc P y c" | "blue st d y" "dag_anc P y c" using y bl by blast
    then show ?thesis
    proof cases
      case 1
      have "{z. blue st ?d z \<and> unrelated P y z} = ?A" using 1 cand bl by (auto simp: unrelated_def)
      moreover have "anticone_size st ?d y n" by (rule anticone_size.found) (use sz nc 1 in simp)
      moreover have "n \<le> gk st" using un cA by (simp add: word_le_nat_alt)
      ultimately show ?thesis using un by auto
    next
      case 2
      have lt: "sizeOf st d y < gk st" using f 2 by (simp add: fits_def)
      have "unat (sizeOf st d y) < 255" using lt k by (simp add: word_less_nat_alt)
      then have u: "unat (sizeOf st d y + 1) = unat (sizeOf st d y) + 1" by (simp add: unat_word_ariths)
      have "{z. blue st ?d z \<and> unrelated P y z} = insert c {z. blue st d z \<and> unrelated P y z}"
        using 2 cand [of y] bl by (auto simp: unrelated_def)
      moreover have "c \<notin> {z. blue st d z \<and> unrelated P y z}" using nc by simp
      ultimately have "card {z. blue st ?d z \<and> unrelated P y z} = unat (sizeOf st d y + 1)"
        using growing_size(4) [OF g d 2(1)] u fin by simp
      moreover have "anticone_size st ?d y (sizeOf st d y + 1)" by (rule anticone_size.found) (use sz 2 in simp)
      moreover have "sizeOf st d y + 1 \<le> gk st" using lt u by (simp add: word_le_nat_alt word_less_nat_alt)
      ultimately show ?thesis by metis
    next
      case 3
      have yc: "y \<noteq> c" using 3 nc by blast
      have "{z. blue st ?d z \<and> unrelated P y z} = {z. blue st d z \<and> unrelated P y z}"
        using 3 bl by (auto simp: unrelated_def)
      moreover have "anticone_size st ?d y (sizeOf st d y)"
        using growing_size(2) [OF g d 3(1)]
      proof cases
        case found
        then show ?thesis using sz 3 yc by (intro anticone_size.found) simp
      next
        case (above s d1)
        show ?thesis
        proof (rule anticone_size.above)
          show "map_of (BluesAnticoneSizes ?d) y = None" using sz [of y] above(1) 3 yc by simp
          show "SelectedParent ?d = Some s" using sp above(2) D(1) by simp
        qed (fact above(3,4))+
      qed
      ultimately show ?thesis using growing_size(3,4) [OF g d 3(1)] by auto
    qed
  qed
  then have "cluster P st ?d" by (simp add: cluster_def)
  moreover have "distinct (MergeSetBlues ?d)" using D(3) nc blue.here [of c d st] by (auto simp: addBlue_def)
  moreover have "\<not> dag_anc P c sp" using cand [OF blue.here [OF D(7)]] .
  ultimately show "growing P st sp ?d"
    unfolding growing_def using sp D c by (auto simp: addBlue_def)
qed

lemma growing_cong:
  assumes "SelectedParent d' = SelectedParent d" "MergeSetBlues d' = MergeSetBlues d" "BluesAnticoneSizes d' = BluesAnticoneSizes d"
  shows "blue st d' z = blue st d z" "anticone_size st d' z n = anticone_size st d z n" "growing P st sp d' = growing P st sp d"
    "cluster P st d' = cluster P st d"
proof -
  show b: "blue st d' z = blue st d z" for z using assms by (simp add: blue.simps [of st d'] blue.simps [of st d])
  show a: "anticone_size st d' z n = anticone_size st d z n" for z n
    using assms by (simp add: anticone_size.simps [of st d'] anticone_size.simps [of st d])
  show c: "cluster P st d' = cluster P st d" by (simp add: cluster_def a b)
  show "growing P st sp d' = growing P st sp d" by (simp add: growing_def c assms)
qed

lemma colorCandidates_ok:
  assumes g: "ghost_ok P st r"
  shows "\<lbrakk>growing P st sp d; set cs \<subseteq> blocks st; sorted_wrt (precedes st) cs;
    \<And>c z. c \<in> set cs \<Longrightarrow> blue st d z \<Longrightarrow> \<not> dag_anc P c z; length (MergeSetBlues d) \<le> unat (gk st) + 1;
    distinct (MergeSetBlues d @ MergeSetReds d @ cs)\<rbrakk> \<Longrightarrow>
    \<exists>d'. colorCandidates st cs d = Inr d' \<and> growing P st sp d' \<and> length (MergeSetBlues d') \<le> unat (gk st) + 1
      \<and> set (MergeSetBlues d' @ MergeSetReds d') = set (MergeSetBlues d @ MergeSetReds d @ cs)
      \<and> distinct (MergeSetBlues d' @ MergeSetReds d') \<and> (\<exists>xs. MergeSetBlues d' = MergeSetBlues d @ xs)"
proof (induction cs arbitrary: d)
  case (Cons c cs)
  note t = ghost_okD(1) [OF g]
  have c: "c \<in> blocks st" and cs: "set cs \<subseteq> blocks st" "sorted_wrt (precedes st) cs" using Cons.prems(2,3) by auto
  have later: "\<not> dag_anc P x c" if "x \<in> set cs" for x
    using topo_precedes [OF t c, of x] precedes_asym Cons.prems(3) that by fastforce
  have k: "unat (gk st) < 255" by (rule ghost_okD(2) [OF g])
  have len: "length (MergeSetBlues d) mod 256 = unat (gk st) + 1 \<longleftrightarrow> length (MergeSetBlues d) = unat (gk st) + 1"
    using Cons.prems(5) k by simp
  note C = checkBlueCandidate_ok [OF g Cons.prems(1) c, unfolded len]
  show ?case
  proof (cases "length (MergeSetBlues d) \<noteq> unat (gk st) + 1 \<and> fits P st d c")
    case True
    then obtain S where S: "checkBlueCandidate st d c = Inr (Some (of_nat (card {z. blue st d z \<and> \<not> dag_anc P z c}), S))"
      "map_of S = (\<lambda>z. if blue st d z \<and> \<not> dag_anc P z c then Some (sizeOf st d z) else None)"
      using C by (auto simp: coloured_def)
    let ?d = "addBlue d c (of_nat (card {z. blue st d z \<and> \<not> dag_anc P z c})) S"
    note A = addBlue_growing [OF g Cons.prems(1) c Cons.prems(4) _ refl S(2) checkBlueCandidate_keys [OF S(1)]]
    have gr: "growing P st sp ?d" using A(1) True by simp
    have bl: "blue st ?d z \<longleftrightarrow> blue st d z \<or> z = c" for z using A(2) True by simp
    have fl: "MergeSetBlues ?d = MergeSetBlues d @ [c]" "MergeSetReds ?d = MergeSetReds d" by (simp_all add: addBlue_def)
    have "\<exists>d'. colorCandidates st cs ?d = Inr d' \<and> growing P st sp d' \<and> length (MergeSetBlues d') \<le> unat (gk st) + 1
      \<and> set (MergeSetBlues d' @ MergeSetReds d') = set (MergeSetBlues ?d @ MergeSetReds ?d @ cs)
      \<and> distinct (MergeSetBlues d' @ MergeSetReds d') \<and> (\<exists>xs. MergeSetBlues d' = MergeSetBlues ?d @ xs)"
      by (rule Cons.IH [OF gr cs]) (use Cons.prems(4,5,6) bl later True fl in auto)
    then show ?thesis using S(1) by (auto simp: fl addBlue_def [symmetric])
  next
    case False
    then have n: "checkBlueCandidate st d c = Inr None" using C by (auto simp: coloured_def split: if_splits)
    let ?d = "d\<lparr>MergeSetReds := MergeSetReds d @ [c]\<rparr>"
    note G = growing_cong [of ?d d, simplified]
    have "\<exists>d'. colorCandidates st cs ?d = Inr d' \<and> growing P st sp d' \<and> length (MergeSetBlues d') \<le> unat (gk st) + 1
      \<and> set (MergeSetBlues d' @ MergeSetReds d') = set (MergeSetBlues ?d @ MergeSetReds ?d @ cs)
      \<and> distinct (MergeSetBlues d' @ MergeSetReds d') \<and> (\<exists>xs. MergeSetBlues d' = MergeSetBlues ?d @ xs)"
      by (rule Cons.IH [OF _ cs]) (use Cons.prems(1,4,5,6) G in auto)
    then show ?thesis using n by auto
  qed
qed auto

end
