(* ===== verification/Dag_Relations.thy ===== *)
theory Dag_Relations
  imports Dag_Topology
begin

text \<open>
  \<^verbatim>\<open>SetParents\<close> keeps the block relations consistent: a block is a child of exactly its parents.
\<close>

section \<open>Consistent relations\<close>

abbreviation rel :: "dagManagers \<Rightarrow> DomainHash \<Rightarrow> BlockRelations option" where
  "rel st \<equiv> map_of (relations st)"

definition relations_ok :: "dagManagers \<Rightarrow> bool" where
  "relations_ok st \<longleftrightarrow> (\<forall>a x. rel st a = Some x \<longrightarrow> distinct (br_Children x)
     \<and> (\<forall>c \<in> set (br_Children x). \<exists>y. rel st c = Some y \<and> a \<in> set (br_Parents y))
     \<and> (\<forall>p \<in> set (br_Parents x). \<exists>y. rel st p = Some y \<and> a \<in> set (br_Children y)))"

lemma relations_okD:
  assumes "relations_ok st" "rel st a = Some x"
  shows "distinct (br_Children x)" "\<And>c. c \<in> set (br_Children x) \<Longrightarrow> \<exists>y. rel st c = Some y \<and> a \<in> set (br_Parents y)"
    "\<And>p. p \<in> set (br_Parents x) \<Longrightarrow> \<exists>y. rel st p = Some y \<and> a \<in> set (br_Children y)"
  using assms unfolding relations_ok_def by blast+

text \<open>The loops of \<^verbatim>\<open>SetParents\<close> change the children of the blocks of a set.\<close>

definition updChildren :: "(DomainHash list \<Rightarrow> DomainHash list) \<Rightarrow> DomainHash set \<Rightarrow> (DomainHash \<Rightarrow> BlockRelations option)
     \<Rightarrow> DomainHash \<Rightarrow> BlockRelations option" where
  "updChildren f A m a = map_option (\<lambda>x. if a \<in> A then x\<lparr>br_Children := f (br_Children x)\<rparr> else x) (m a)"

definition addChildOnce :: "DomainHash \<Rightarrow> DomainHash list \<Rightarrow> DomainHash list" where
  "addChildOnce h cs = (if h \<in> set cs then cs else cs @ [h])"

lemma updChildren_insert:
  assumes "\<And>x. m p = Some x \<Longrightarrow> f (f (br_Children x)) = f (br_Children x)"
  shows "updChildren f A (updChildren f {p} m) = updChildren f (insert p A) m"
proof
  fix a
  show "updChildren f A (updChildren f {p} m) a = updChildren f (insert p A) m a"
    using assms by (cases "m a") (auto simp: updChildren_def)
qed

lemma updChildren_one: "m p = Some x \<Longrightarrow> updChildren f {p} m = m(p \<mapsto> x\<lparr>br_Children := f (br_Children x)\<rparr>)"
proof
  fix a
  show "m p = Some x \<Longrightarrow> updChildren f {p} m a = (m(p \<mapsto> x\<lparr>br_Children := f (br_Children x)\<rparr>)) a"
    by (cases "a = p"; cases "m a") (simp_all add: updChildren_def)
qed

lemma rel_Stage [simp]: "rel (StageBlockRelation st h x) = (rel st)(h \<mapsto> x)"
  by (simp add: StageBlockRelation_def)

lemma StageBlockRelation_simps [simp]:
  "reach (StageBlockRelation st h x) = reach st" "headers (StageBlockRelation st h x) = headers st"
  "gk (StageBlockRelation st h x) = gk st"
  by (simp_all add: StageBlockRelation_def)

lemma BlockRelation_rel: "rel st a = Some x \<Longrightarrow> BlockRelation st a = Inr x"
  by (simp add: BlockRelation_def)

definition same_dag :: "dagManagers \<Rightarrow> dagManagers \<Rightarrow> bool" where
  "same_dag st st' \<longleftrightarrow> reach st' = reach st \<and> headers st' = headers st \<and> gk st' = gk st"

lemma addToParents_ok:
  "set ps \<subseteq> dom (rel st) \<Longrightarrow>
   \<exists>st'. addToParents st h ps = Inr st' \<and> same_dag st st' \<and> rel st' = updChildren (addChildOnce h) (set ps) (rel st)"
proof (induction ps arbitrary: st)
  case Nil
  have "updChildren (addChildOnce h) {} (rel st) = rel st"
    by (rule ext) (simp add: updChildren_def option.map_ident)
  then show ?case by (simp add: same_dag_def)
next
  case (Cons p ps)
  obtain x where x: "rel st p = Some x" using Cons.prems by auto
  let ?st = "if h \<in> set (br_Children x) then st else StageBlockRelation st p (x\<lparr>br_Children := br_Children x @ [h]\<rparr>)"
  have m: "rel ?st = updChildren (addChildOnce h) {p} (rel st)"
    using x unfolding updChildren_one [of "rel st" p x, OF x] by (auto simp: addChildOnce_def map_upd_triv)
  have "set ps \<subseteq> dom (rel ?st)" using Cons.prems by auto
  from Cons.IH [OF this] obtain st' where s: "addToParents ?st h ps = Inr st'" "same_dag ?st st'"
    "rel st' = updChildren (addChildOnce h) (set ps) (rel ?st)" by blast
  have "addToParents st h (p # ps) = Inr st'"
    using s(1) by (cases "h \<in> set (br_Children x)") (simp_all add: Let_def BlockRelation_rel [OF x])
  moreover have "rel st' = updChildren (addChildOnce h) (set (p # ps)) (rel st)"
    unfolding s(3) m by (subst updChildren_insert) (simp_all add: addChildOnce_def)
  moreover have "same_dag st st'" using s(2) by (auto simp: same_dag_def split: if_splits)
  ultimately show ?case by blast
qed

lemma removeFromParents_ok:
  "set ps \<subseteq> dom (rel st) \<Longrightarrow> (\<And>a x. rel st a = Some x \<Longrightarrow> distinct (br_Children x)) \<Longrightarrow>
   \<exists>st'. removeFromParents st h ps = Inr st' \<and> same_dag st st' \<and> rel st' = updChildren (removeAll h) (set ps) (rel st)"
proof (induction ps arbitrary: st)
  case Nil
  have "updChildren (removeAll h) {} (rel st) = rel st"
    by (rule ext) (simp add: updChildren_def option.map_ident)
  then show ?case by (simp add: same_dag_def)
next
  case (Cons p ps)
  obtain x where x: "rel st p = Some x" using Cons.prems by auto
  let ?st = "if h \<in> set (br_Children x) then StageBlockRelation st p (x\<lparr>br_Children := remove1 h (br_Children x)\<rparr>) else st"
  have "distinct (br_Children x)" using Cons.prems(2) x by blast
  then have e: "remove1 h (br_Children x) = removeAll h (br_Children x)" by (rule distinct_remove1_removeAll)
  have m: "rel ?st = updChildren (removeAll h) {p} (rel st)"
    using x e unfolding updChildren_one [of "rel st" p x, OF x] by (auto simp: map_upd_triv)
  have "set ps \<subseteq> dom (rel ?st)" using Cons.prems by auto
  moreover have "distinct (br_Children y)" if "rel ?st a = Some y" for a y
    using that Cons.prems(2) x unfolding m
    by (auto simp: updChildren_def distinct_removeAll split: if_splits)
  ultimately obtain st' where s: "removeFromParents ?st h ps = Inr st'" "same_dag ?st st'"
    "rel st' = updChildren (removeAll h) (set ps) (rel ?st)" using Cons.IH by blast
  have "removeFromParents st h (p # ps) = Inr st'"
    using s(1) by (cases "h \<in> set (br_Children x)") (simp_all add: Let_def BlockRelation_rel [OF x])
  moreover have "rel st' = updChildren (removeAll h) (set (p # ps)) (rel st)"
    unfolding s(3) m by (subst updChildren_insert) simp_all
  moreover have "same_dag st st'" using s(2) by (auto simp: same_dag_def split: if_splits)
  ultimately show ?case by blast
qed

text \<open>The relations after \<^verbatim>\<open>SetParents\<close>: the block is taken from its old parents and given to the new ones.\<close>

definition currentParents :: "dagManagers \<Rightarrow> DomainHash \<Rightarrow> DomainHash list" where
  "currentParents st h = (case rel st h of None \<Rightarrow> [] | Some x \<Rightarrow> br_Parents x)"

lemma SetParents_ok:
  assumes ok: "relations_ok st" and known: "set ps \<subseteq> dom (rel st)"
  shows "\<exists>st'. SetParents st h ps = Inr st' \<and> same_dag st st' \<and> rel st' =
    (updChildren (addChildOnce h) (set ps) (updChildren (removeAll h) (set (currentParents st h)) (rel st)))
      (h \<mapsto> \<lparr>br_Parents = ps, br_Children = []\<rparr>)"
proof -
  let ?cur = "currentParents st h"
  have cur: "set ?cur \<subseteq> dom (rel st)"
    using relations_okD(3) [OF ok, of h] by (cases "rel st h") (auto simp: currentParents_def)
  have di: "\<And>a x. rel st a = Some x \<Longrightarrow> distinct (br_Children x)" using relations_okD(1) [OF ok] by blast
  obtain st1 where s1: "removeFromParents st h ?cur = Inr st1" "same_dag st st1"
    "rel st1 = updChildren (removeAll h) (set ?cur) (rel st)"
    using removeFromParents_ok [OF cur, of h] di by blast
  have d1: "dom (rel st1) = dom (rel st)" unfolding s1(3) by (auto simp: updChildren_def)
  obtain st2 where s2: "addToParents st1 h ps = Inr st2" "same_dag st1 st2"
    "rel st2 = updChildren (addChildOnce h) (set ps) (rel st1)"
    using addToParents_ok [of ps st1 h] known d1 by blast
  have "(if Has_BlockRelation st h
            then rbind (BlockRelation st h) (\<lambda>currentRelations. removeFromParents st h (br_Parents currentRelations))
            else Inr st) = Inr st1"
  proof (cases "rel st h")
    case None
    then show ?thesis using s1(1) by (simp add: Has_BlockRelation_def currentParents_def)
  next
    case (Some x)
    then show ?thesis using s1(1) by (simp add: Has_BlockRelation_def currentParents_def BlockRelation_rel [OF Some])
  qed
  then have "SetParents st h ps = Inr (StageBlockRelation st2 h \<lparr>br_Parents = ps, br_Children = []\<rparr>)"
    unfolding SetParents_def using s2(1) by simp
  then show ?thesis using s1(2) s2(2) unfolding s2(3) [symmetric] s1(3) [symmetric]
    by (intro exI [of _ "StageBlockRelation st2 h \<lparr>br_Parents = ps, br_Children = []\<rparr>"]) (auto simp: same_dag_def)
qed

lemma SetParents_Parents:
  assumes "SetParents st h ps = Inr st'" "relations_ok st" "set ps \<subseteq> dom (rel st)"
  shows "Parents st' h = Inr ps" "a \<noteq> h \<Longrightarrow> Parents st' a = Parents st a"
  using SetParents_ok [OF assms(2,3), of h] assms(1)
  by (auto simp: Parents_def BlockRelation_def updChildren_def split: option.splits)

text \<open>A block that gets new parents has no children yet, and is not its own parent.\<close>

lemma relations_ok_SetParents:
  assumes ok: "relations_ok st" and leaf: "\<And>x. rel st h = Some x \<Longrightarrow> br_Children x = []" and hp: "h \<notin> set ps"
    and known: "set ps \<subseteq> dom (rel st)"
    and m: "rel st' = (updChildren (addChildOnce h) (set ps) (updChildren (removeAll h) (set (currentParents st h)) (rel st)))
      (h \<mapsto> \<lparr>br_Parents = ps, br_Children = []\<rparr>)"
  shows "relations_ok st'"
proof -
  have new: "\<exists>x. rel st a = Some x \<and> br_Parents y = br_Parents x \<and> distinct (br_Children y)
       \<and> set (br_Children y) = (set (br_Children x) - {h}) \<union> (if a \<in> set ps then {h} else {})"
    if y: "rel st' a = Some y" "a \<noteq> h" for a y
  proof -
    obtain x where x: "rel st a = Some x" using y by (auto simp: m updChildren_def)
    note D = relations_okD [OF ok x]
    have "a \<in> set (currentParents st h)" if "h \<in> set (br_Children x)"
      using D(2) [OF that] by (auto simp: currentParents_def)
    then show ?thesis using y x D(1)
      by (auto simp: m updChildren_def addChildOnce_def distinct_removeAll split: if_splits)
  qed
  have old: "\<exists>y. rel st' a = Some y \<and> br_Parents y = br_Parents x
       \<and> set (br_Children y) = (set (br_Children x) - {h}) \<union> (if a \<in> set ps then {h} else {})"
    if "rel st a = Some x" "a \<noteq> h" for a x
    using new [of a] that by (fastforce simp: m updChildren_def)
  have h: "rel st' h = Some \<lparr>br_Parents = ps, br_Children = []\<rparr>" by (simp add: m)
  have noh: "h \<notin> set (br_Parents x)" if "rel st a = Some x" for a x
    using relations_okD(3) [OF ok that] leaf by fastforce
  show ?thesis unfolding relations_ok_def
  proof (intro allI impI)
    fix a y
    assume y: "rel st' a = Some y"
    show "distinct (br_Children y) \<and> (\<forall>c \<in> set (br_Children y). \<exists>z. rel st' c = Some z \<and> a \<in> set (br_Parents z))
      \<and> (\<forall>p \<in> set (br_Parents y). \<exists>z. rel st' p = Some z \<and> a \<in> set (br_Children z))"
    proof (cases "a = h")
      case True
      have "\<exists>z. rel st' p = Some z \<and> h \<in> set (br_Children z)" if p: "p \<in> set ps" for p
      proof -
        obtain x where "rel st p = Some x" using known p by blast
        then show ?thesis using old [of p x] p hp by auto
      qed
      then show ?thesis using y h True by auto
    next
      case False
      then obtain x where x: "rel st a = Some x" "br_Parents y = br_Parents x" "distinct (br_Children y)"
        "set (br_Children y) = (set (br_Children x) - {h}) \<union> (if a \<in> set ps then {h} else {})"
        using new [OF y] by blast
      note D = relations_okD [OF ok x(1)]
      have "\<exists>z. rel st' c = Some z \<and> a \<in> set (br_Parents z)" if c: "c \<in> set (br_Children y)" for c
      proof (cases "c = h")
        case True
        then show ?thesis using c h x(4) by (auto split: if_splits)
      next
        case c': False
        then obtain z where "rel st c = Some z" "a \<in> set (br_Parents z)" using c x(4) D(2) by (auto split: if_splits)
        then show ?thesis using old [of c z] c' by auto
      qed
      moreover have "\<exists>z. rel st' p = Some z \<and> a \<in> set (br_Children z)" if p: "p \<in> set (br_Parents y)" for p
      proof -
        obtain z where z: "rel st p = Some z" "a \<in> set (br_Children z)" using p x(2) D(3) by auto
        moreover have "p \<noteq> h" using p x(2) noh [OF x(1)] by auto
        ultimately show ?thesis using old [of p z] False by auto
      qed
      ultimately show ?thesis using x(3) by blast
    qed
  qed
qed

section \<open>Property\<close>

text \<open>
  C21: the relations stay well formed.  Setting the parents of a block that is new, or has no children
  yet (as the virtual block), succeeds when they are known, gives the block those parents and no
  others, and afterwards every block is again in the children of exactly its parents.
\<close>

theorem SetParents_keeps_relations:
  assumes "relations_ok st" "set ps \<subseteq> dom (rel st)" "h \<notin> set ps" "rel st h = None \<or> Children st h = Inr []"
  shows "\<exists>st'. SetParents st h ps = Inr st' \<and> relations_ok st' \<and> Parents st' h = Inr ps
    \<and> dom (rel st') = insert h (dom (rel st)) \<and> (\<forall>a. a \<noteq> h \<longrightarrow> Parents st' a = Parents st a)
    \<and> reach st' = reach st \<and> headers st' = headers st"
proof -
  obtain st' where s: "SetParents st h ps = Inr st'" "same_dag st st'" "rel st' =
    (updChildren (addChildOnce h) (set ps) (updChildren (removeAll h) (set (currentParents st h)) (rel st)))
      (h \<mapsto> \<lparr>br_Parents = ps, br_Children = []\<rparr>)" using SetParents_ok [OF assms(1,2)] by blast
  have "\<And>x. rel st h = Some x \<Longrightarrow> br_Children x = []" using assms(4) by (auto simp: Children_def BlockRelation_def)
  from relations_ok_SetParents [OF assms(1) this assms(3,2) s(3)] have "relations_ok st'" .
  moreover have "dom (rel st') = insert h (dom (rel st))" unfolding s(3) by (auto simp: updChildren_def)
  ultimately show ?thesis using s(1,2) SetParents_Parents [OF s(1) assms(1,2)] by (auto simp: same_dag_def)
qed

theorem SetParents_keeps_relations_witness:
  "\<exists>st st'. rel st [0] = Some \<lparr>br_Parents = [], br_Children = []\<rparr> \<and> SetParents st [1] [[0], [0]] = Inr st'
     \<and> relations_ok st' \<and> Parents st' [1] = Inr [[0], [0]]"
proof -
  define st where "st = \<lparr>reach = newReachabilityManager (\<lambda>_. 0), relations = [([0 :: byte], \<lparr>br_Parents = [], br_Children = []\<rparr>)],
     headers = [], gk = 18\<rparr>"
  have m: "rel st = [[0] \<mapsto> \<lparr>br_Parents = [], br_Children = []\<rparr>]" by (simp add: st_def)
  have "relations_ok st" unfolding relations_ok_def m by simp
  then obtain st' where "SetParents st [1] [[0], [0]] = Inr st'" "relations_ok st'" "Parents st' [1] = Inr [[0], [0]]"
    using SetParents_keeps_relations [of st "[[0], [0]]" "[1]"] m by auto
  then show ?thesis using m by (intro exI [of _ st] exI [of _ st']) simp
qed

end
