(* ===== verification/Ghostdag_Insertion.thy ===== *)
theory Ghostdag_Insertion
  imports Ghostdag_Coloring Dag_Relations "HOL-Library.Sublist"
begin

text \<open>
  \<^verbatim>\<open>GHOSTDAG\<close> computes the data of a new block, and with \<^verbatim>\<open>AddBlock\<close> it keeps the invariant of the
  DAG: exact reachability, complete merge sets, \<open>k\<close>-clusters and growing blue work.
\<close>

section \<open>GHOSTDAG\<close>

definition headers_ok :: "dagManagers \<Rightarrow> bool" where
  "headers_ok st \<longleftrightarrow> (\<forall>h \<in> blocks st. \<exists>hd. map_of (headers st) h = Some hd \<and> 0 < CalcWork (bits hd))"

definition workOf :: "dagManagers \<Rightarrow> DomainHash \<Rightarrow> int" where
  "workOf st h = CalcWork (bits (the (map_of (headers st) h)))"

text \<open>
  A new block whose parents are known, different and not in the past of each other, as the header
  validation requires.
\<close>

definition insertable :: "(DomainHash \<Rightarrow> DomainHash list) \<Rightarrow> dagManagers \<Rightarrow> DomainHash \<Rightarrow> bool" where
  "insertable P st B \<longleftrightarrow> B \<notin> blocks st \<and> Parents st B = Inr (P B) \<and> P B \<noteq> [] \<and> set (P B) \<subseteq> blocks st
     \<and> distinct (P B) \<and> (\<forall>p \<in> set (P B). \<forall>q \<in> set (P B). p \<noteq> q \<longrightarrow> \<not> dag_anc P p q)"

lemma addWork_ok:
  assumes "headers_ok st"
  shows "set bs \<subseteq> blocks st \<Longrightarrow> addWork st bs w = Inr (w + (\<Sum>b\<leftarrow>bs. workOf st b))"
proof (induction bs arbitrary: w)
  case (Cons b bs)
  have "b \<in> blocks st" using Cons.prems by simp
  then obtain hd where "map_of (headers st) b = Some hd" using assms unfolding headers_ok_def by blast
  then show ?case using Cons by (simp add: headerOf_def workOf_def add.assoc)
qed simp

lemma workOf_pos: "headers_ok st \<Longrightarrow> h \<in> blocks st \<Longrightarrow> 0 < workOf st h"
  unfolding headers_ok_def workOf_def by force

lemma blues_work_pos:
  assumes h: "headers_ok st" and bs: "set bs \<subseteq> blocks st" "b \<in> set bs"
  shows "0 < (\<Sum>x\<leftarrow>bs. workOf st x)"
proof -
  have "workOf st b \<le> (\<Sum>x\<leftarrow>bs. workOf st x)"
    using bs workOf_pos [OF h] by (intro member_le_sum_list) (auto intro: less_imp_le)
  then show ?thesis using workOf_pos [OF h subsetD [OF bs]] by simp
qed

lemma growing_start:
  assumes g: "ghost_ok P st r" and sp: "sp \<in> blocks st"
  shows "growing P st sp (NewBlockGHOSTDAGData 0 0 (Some sp) [sp] [] [(sp, 0)])"
    "blue st (NewBlockGHOSTDAGData 0 0 (Some sp) [sp] [] [(sp, 0)]) z \<longleftrightarrow> z = sp \<or> blue st (gdata st sp) z"
proof -
  let ?d = "NewBlockGHOSTDAGData 0 0 (Some sp) [sp] [] [(sp, 0 :: KType)]"
  note t = ghost_okD(1) [OF g]
  have f: "SelectedParent ?d = Some sp" "MergeSetBlues ?d = [sp]" "BluesAnticoneSizes ?d = [(sp, 0)]"
    by (simp_all add: NewBlockGHOSTDAGData_def)
  note d' = topoD(6) [OF t sp]
  have bl: "blue st ?d z \<longleftrightarrow> z = sp \<or> blue st (gdata st sp) z" for z
    using blue_iff [OF f(1) d', of z] by (simp add: f(2))
  show "blue st ?d z \<longleftrightarrow> z = sp \<or> blue st (gdata st sp) z" by (rule bl)
  have past: "dag_anc P z sp \<and> z \<noteq> sp" if "blue st (gdata st sp) z" for z
    using blue_past [OF g that sp refl] by blast
  have "\<exists>m. anticone_size st ?d y m \<and> m \<le> gk st \<and> unat m = card {z. blue st ?d z \<and> unrelated P y z}"
    if y: "blue st ?d y" for y
  proof (cases "y = sp")
    case True
    have "{z. blue st ?d z \<and> unrelated P y z} = {}" using True past bl by (auto simp: unrelated_def)
    then have "card {z. blue st ?d z \<and> unrelated P y z} = 0" by (simp only: card.empty)
    moreover have "anticone_size st ?d y 0" by (rule anticone_size.found) (use True in \<open>simp add: f\<close>)
    ultimately show ?thesis by (intro exI [of _ 0]) simp
  next
    case False
    then have yb: "blue st (gdata st sp) y" using y bl by blast
    obtain m where m: "anticone_size st (gdata st sp) y m" "m \<le> gk st"
      "unat m = card {z. blue st (gdata st sp) z \<and> unrelated P y z}"
      using ghost_okD(4) [OF g sp] yb by (auto simp: cluster_def)
    have "{z. blue st ?d z \<and> unrelated P y z} = {z. blue st (gdata st sp) z \<and> unrelated P y z}"
      using past [OF yb] bl by (auto simp: unrelated_def)
    moreover have "anticone_size st ?d y m"
      by (rule anticone_size.above [OF _ f(1) d' m(1)]) (use False in \<open>simp add: f\<close>)
    ultimately show ?thesis using m by auto
  qed
  then show "growing P st sp ?d" using sp by (simp add: growing_def cluster_def f)
qed

text \<open>The colouring keeps the order of the candidates.\<close>

lemma colorCandidates_subseq:
  "colorCandidates st cs d = Inr d' \<Longrightarrow>
   \<exists>bs rs. MergeSetBlues d' = MergeSetBlues d @ bs \<and> MergeSetReds d' = MergeSetReds d @ rs \<and> subseq bs cs \<and> subseq rs cs"
proof (induction cs arbitrary: d)
  case (Cons c cs)
  obtain x where x: "checkBlueCandidate st d c = Inr x" using Cons.prems by (auto simp: rbind_Inr_iff)
  show ?case
  proof (cases x)
    case None
    then obtain bs rs where "MergeSetBlues d' = MergeSetBlues d @ bs" "MergeSetReds d' = (MergeSetReds d @ [c]) @ rs"
      "subseq bs cs" "subseq rs cs" using Cons.IH [of "d\<lparr>MergeSetReds := MergeSetReds d @ [c]\<rparr>"] Cons.prems x by auto
    then show ?thesis by (intro exI [of _ bs] exI [of _ "c # rs"]) auto
  next
    case (Some y)
    obtain n S where y: "y = (n, S)" by fastforce
    let ?d = "d\<lparr>MergeSetBlues := MergeSetBlues d @ [c],
      BluesAnticoneSizes := incrementSizes S (AList.update c n (BluesAnticoneSizes d))\<rparr>"
    obtain bs rs where "MergeSetBlues d' = (MergeSetBlues d @ [c]) @ bs" "MergeSetReds d' = MergeSetReds d @ rs"
      "subseq bs cs" "subseq rs cs" using Cons.IH [of ?d] Cons.prems x Some y by auto
    then show ?thesis by (intro exI [of _ "c # bs"] exI [of _ rs]) auto
  qed
qed simp

lemma sorted_wrt_subseq: "subseq xs ys \<Longrightarrow> sorted_wrt R ys \<Longrightarrow> sorted_wrt R xs"
proof (induction rule: list_emb.induct)
  case (list_emb_Cons2 x y xs ys)
  then show ?case using list_emb_set [of "(=)" xs ys] by fastforce
qed auto

lemma GHOSTDAG_ok:
  assumes g: "ghost_ok P st r" and i: "insertable P st B" and h: "headers_ok st"
  shows "\<exists>d sp. GHOSTDAG st B = Inr (stageGhostdag st B d) \<and> SelectedParent d = Some sp
     \<and> in_order P st B d \<and> merges P r B d \<and> cluster P st d \<and> (\<forall>q \<in> set (P B). work st q < BlueWork d)
     \<and> length (MergeSetBlues d) \<le> unat (gk st) + 1 \<and> set (MergeSetBlues d) \<subseteq> blocks st
     \<and> BlueScore d = BlueScore (gdata st sp) + of_nat (length (MergeSetBlues d))
     \<and> BlueWork d = work st sp + (\<Sum>b\<leftarrow>MergeSetBlues d. workOf st b)"
proof -
  note t = ghost_okD(1) [OF g]
  have I: "B \<notin> blocks st" "Parents st B = Inr (P B)" "P B \<noteq> []" "set (P B) \<subseteq> blocks st" "distinct (P B)"
    "\<And>p q. p \<in> set (P B) \<Longrightarrow> q \<in> set (P B) \<Longrightarrow> p \<noteq> q \<Longrightarrow> \<not> dag_anc P p q"
    using i by (auto simp: insertable_def)
  obtain sp where sp: "sp \<in> set (P B)" "findSelectedParent st (P B) = Inr (Some sp)"
    "\<forall>q \<in> set (P B). q = sp \<or> precedes st q sp"
    using findSelectedParent_ok [OF t I(4,3)] by blast
  have spb: "sp \<in> blocks st" using sp(1) I(4) by blast
  obtain ms where ms: "mergeSetWithoutSelectedParent st (Some sp) (P B) = Inr ms" "set ms = merged P (P B) sp"
    "sorted_wrt (precedes st) ms"
    using mergeSet_ok [OF t I(4,5) sp(1)] I(6) sp(1) by blast
  let ?d0 = "NewBlockGHOSTDAGData 0 0 (Some sp) [sp] [] [(sp, 0 :: KType)]"
  note G = growing_start [OF g spb]
  have f: "SelectedParent ?d0 = Some sp" "MergeSetBlues ?d0 = [sp]" "MergeSetReds ?d0 = []"
    by (simp_all add: NewBlockGHOSTDAGData_def)
  have msb: "set ms \<subseteq> blocks st" using ms(2) merged_blocks [OF t I(4), of sp] by blast
  have cand: "\<not> dag_anc P c z" if "c \<in> set ms" "blue st ?d0 z" for c z
  proof -
    have "dag_anc P z sp" using that(2) G(2) blue_past [OF g _ spb refl, of z] by auto
    moreover have "\<not> dag_anc P c sp" using that(1) ms(2) by (simp add: merged_def)
    ultimately show ?thesis using dag_anc_trans by blast
  qed
  have "sp \<notin> set ms" using ms(2) by (simp add: merged_def)
  then have dist: "distinct (MergeSetBlues ?d0 @ MergeSetReds ?d0 @ ms)" using precedes_distinct [OF ms(3)] by (simp add: f)
  obtain d1 where d1: "colorCandidates st ms ?d0 = Inr d1" "growing P st sp d1" "length (MergeSetBlues d1) \<le> unat (gk st) + 1"
    "set (MergeSetBlues d1 @ MergeSetReds d1) = set (MergeSetBlues ?d0 @ MergeSetReds ?d0 @ ms)"
    "distinct (MergeSetBlues d1 @ MergeSetReds d1)"
    using colorCandidates_ok [OF g G(1) msb ms(3) cand _ dist] by (auto simp: f)
  note D = growingD [OF d1(2)]
  let ?d = "d1\<lparr>BlueScore := BlueScore (gdata st sp) + of_nat (length (MergeSetBlues d1)),
               BlueWork := work st sp + (\<Sum>b\<leftarrow>MergeSetBlues d1. workOf st b)\<rparr>"
  have run: "GHOSTDAG st B = Inr (stageGhostdag st B ?d)"
    using I(2,3) sp(2) ms(1) d1(1) D(1) topoD(3) [OF t spb] addWork_ok [OF h D(4)]
    by (simp add: GHOSTDAG_def f)
  have "merges P r B ?d"
    using D(1,7) sp(1) d1(4,5) ms(2) by (simp add: merges_def f)
  moreover have "cluster P st ?d" using D(6) growing_cong(4) [of ?d d1 P st] by simp
  moreover have "in_order P st B ?d"
    using colorCandidates_subseq [OF d1(1)] sorted_wrt_subseq [OF _ ms(3)] D(1) sp(3) by (auto simp: in_order_def f)
  moreover have "work st q < BlueWork ?d" if "q \<in> set (P B)" for q
    using sp(3) that blues_work_pos [OF h D(4,7)] by (auto simp: precedes_def)
  ultimately show ?thesis using run D(1,4) d1(3) by (intro exI [of _ ?d] exI [of _ sp]) simp
qed

section \<open>Adding the block\<close>

text \<open>The blue set only depends on the data of the selected parent chain.\<close>

definition chain_closed :: "dagManagers \<Rightarrow> DomainHash set \<Rightarrow> BlockGHOSTDAGData \<Rightarrow> bool" where
  "chain_closed st X d \<longleftrightarrow> (\<forall>s. SelectedParent d = Some s \<longrightarrow> s \<in> X)
     \<and> (\<forall>h \<in> X. \<forall>d' s. map_of (rm_ghostdag (reach st)) h = Some d' \<longrightarrow> SelectedParent d' = Some s \<longrightarrow> s \<in> X)"

lemma chain_closed_up:
  "chain_closed st X d \<Longrightarrow> SelectedParent d = Some s \<Longrightarrow> map_of (rm_ghostdag (reach st)) s = Some d' \<Longrightarrow>
   s \<in> X \<and> chain_closed st X d'"
  unfolding chain_closed_def by blast

lemma blue_transfer:
  assumes eq: "\<And>h. h \<in> X \<Longrightarrow> map_of (rm_ghostdag (reach st')) h = map_of (rm_ghostdag (reach st)) h"
  shows "blue st d z \<Longrightarrow> chain_closed st X d \<Longrightarrow> blue st' d z"
proof (induction rule: blue.induct)
  case (up d s d' y)
  note c = chain_closed_up [OF up.prems up.hyps(1,2)]
  have "map_of (rm_ghostdag (reach st')) s = Some d'" using eq [of s] c up.hyps(2) by simp
  then show ?case using blue.up [OF up.hyps(1)] up.IH c by blast
qed (rule blue.here)

lemma anticone_size_transfer:
  assumes eq: "\<And>h. h \<in> X \<Longrightarrow> map_of (rm_ghostdag (reach st')) h = map_of (rm_ghostdag (reach st)) h"
  shows "anticone_size st d z n \<Longrightarrow> chain_closed st X d \<Longrightarrow> anticone_size st' d z n"
proof (induction rule: anticone_size.induct)
  case (above d y s d' n)
  note c = chain_closed_up [OF above.prems above.hyps(2,3)]
  have "map_of (rm_ghostdag (reach st')) s = Some d'" using eq [of s] c above.hyps(3) by simp
  then show ?case using anticone_size.above [OF above.hyps(1,2)] above.IH c by blast
qed (rule anticone_size.found)

lemma chain_closed_cong:
  assumes "\<And>h. h \<in> X \<Longrightarrow> map_of (rm_ghostdag (reach st')) h = map_of (rm_ghostdag (reach st)) h"
  shows "chain_closed st' X d = chain_closed st X d"
  using assms unfolding chain_closed_def by simp

lemma cluster_frame:
  assumes eq: "\<And>h. h \<in> X \<Longrightarrow> map_of (rm_ghostdag (reach st')) h = map_of (rm_ghostdag (reach st)) h"
    and c: "chain_closed st X d" and k: "gk st' = gk st"
  shows "cluster P st' d = cluster P st d"
proof -
  have b: "blue st' d z \<longleftrightarrow> blue st d z" for z
    using blue_transfer [OF eq _ c] blue_transfer [where st = st' and st' = st and X = X] chain_closed_cong [OF eq] c eq by metis
  have a: "anticone_size st' d z n \<longleftrightarrow> anticone_size st d z n" for z n
    using anticone_size_transfer [OF eq _ c] anticone_size_transfer [where st = st' and st' = st and X = X]
      chain_closed_cong [OF eq] c eq by metis
  show ?thesis by (simp add: cluster_def a b k)
qed

lemma ghost_closed:
  assumes g: "ghost_ok P st r"
  shows "chain_closed st (blocks st) d \<longleftrightarrow> (\<forall>s. SelectedParent d = Some s \<longrightarrow> s \<in> blocks st)"
proof -
  have "s \<in> blocks st" if "h \<in> blocks st" "map_of (rm_ghostdag (reach st)) h = Some d'" "SelectedParent d' = Some s" for h d' s
  proof -
    have "d' = gdata st h" using that(2) by (simp add: gdata_def)
    then show ?thesis using mergesD(2) [OF ghost_okD(1) [OF g] that(1) ghost_okD(3) [OF g that(1)]] that(3) by simp
  qed
  then show ?thesis unfolding chain_closed_def by blast
qed

section \<open>GHOSTDAG and AddBlock together\<close>

lemma merges_merge_ok:
  assumes t: "topo P st r" and i: "insertable P st B" and m: "merges P r B d" and s: "SelectedParent d = Some sp"
  shows "merge_ok P (data_of (reach st)) B d sp"
proof -
  have I: "B \<notin> blocks st" "set (P B) \<subseteq> blocks st" using i by (auto simp: insertable_def)
  have M: "sp \<in> set (P B)" "set (MergeSetBlues d @ MergeSetReds d) = insert sp (merged P (P B) sp)"
    using m s by (auto simp: merges_def)
  have "merged P (P B) sp = {a \<in> blocks st. dag_anc P a B \<and> \<not> dag_anc P a sp}"
  proof (intro equalityI subsetI)
    fix a
    assume a: "a \<in> merged P (P B) sp"
    then have "dag_anc P a B" "\<not> dag_anc P a sp" using dag_anc_step [of P a B] by (auto simp: merged_def)
    moreover have "a \<in> blocks st" using merged_blocks [OF t I(2), of sp] a by blast
    ultimately show "a \<in> {a \<in> blocks st. dag_anc P a B \<and> \<not> dag_anc P a sp}" by simp
  next
    fix a
    assume a: "a \<in> {a \<in> blocks st. dag_anc P a B \<and> \<not> dag_anc P a sp}"
    then have "a \<noteq> B" using I(1) by blast
    then show "a \<in> merged P (P B) sp" using a dag_anc_step [of P a B] by (auto simp: merged_def)
  qed
  then show ?thesis using I M s by (simp add: merge_ok_def)
qed

lemma precedes_frame:
  "gdata st' a = gdata st a \<Longrightarrow> gdata st' b = gdata st b \<Longrightarrow> precedes st' a b = precedes st a b"
  by (simp add: precedes_def)

lemma in_order_frame:
  assumes i: "in_order P st h d" and X: "set (MergeSetBlues d @ MergeSetReds d) \<subseteq> X" "set (P h) \<subseteq> X"
    and eq: "\<And>x. x \<in> X \<Longrightarrow> gdata st' x = gdata st x"
  shows "in_order P st' h d"
  unfolding in_order_def
proof (intro allI impI)
  fix s
  assume s: "SelectedParent d = Some s"
  obtain bs where bs: "MergeSetBlues d = s # bs" "sorted_wrt (precedes st) bs" "sorted_wrt (precedes st) (MergeSetReds d)"
    "\<forall>q \<in> set (P h). q = s \<or> precedes st q s" using i s unfolding in_order_def by blast
  have p: "precedes st' a b" if "precedes st a b" "a \<in> X" "b \<in> X" for a b
    using that precedes_frame [OF eq eq, of a b] by simp
  have "sorted_wrt (precedes st') bs"
    by (rule sorted_wrt_mono_rel [OF p bs(2)]) (use X bs(1) in auto)
  moreover have "sorted_wrt (precedes st') (MergeSetReds d)"
    by (rule sorted_wrt_mono_rel [OF p bs(3)]) (use X in auto)
  moreover have "q = s \<or> precedes st' q s" if "q \<in> set (P h)" for q
    using bs(4) p [of q s] that X bs(1) by auto
  ultimately show "(\<exists>bs. MergeSetBlues d = s # bs \<and> sorted_wrt (precedes st') bs) \<and> sorted_wrt (precedes st') (MergeSetReds d)
     \<and> (\<forall>q \<in> set (P h). q = s \<or> precedes st' q s)" using bs(1) by blast
qed

lemma merges_blocks:
  assumes t: "topo P st r" and m: "merges P r h d" and P: "set (P h) \<subseteq> blocks st"
  shows "set (MergeSetBlues d @ MergeSetReds d) \<subseteq> blocks st"
proof (cases "SelectedParent d")
  case None
  then show ?thesis using m by (simp add: merges_def)
next
  case (Some s)
  then have e: "set (MergeSetBlues d @ MergeSetReds d) = insert s (merged P (P h) s)" "s \<in> set (P h)"
    using m by (simp_all add: merges_def)
  show ?thesis unfolding e(1) insert_subset by (intro conjI subsetD [OF P e(2)] merged_blocks [OF t P])
qed

text \<open>The invariant after a block has been added to the stores.\<close>

lemma ghost_ok_insert:
  assumes g: "ghost_ok P st r" and new: "B \<notin> blocks st" "P B \<noteq> []" "set (P B) \<subseteq> blocks st"
    and d: "SelectedParent d = Some sp" "merges P r B d" "cluster P st d" "in_order P st B d"
      "\<And>q. q \<in> set (P B) \<Longrightarrow> work st q < BlueWork d"
    and st': "blocks st' = insert B (blocks st)" "reach_ok P (data_of (reach st')) r" "gk st' = gk st"
      "map_of (rm_ghostdag (reach st')) = (map_of (rm_ghostdag (reach st)))(B \<mapsto> d)"
      "\<And>x. x \<in> blocks st' \<Longrightarrow> Parents st' x = Inr (P x)"
  shows "ghost_ok P st' r"
proof -
  note t = ghost_okD(1) [OF g]
  have eq: "map_of (rm_ghostdag (reach st')) x = map_of (rm_ghostdag (reach st)) x" if "x \<in> blocks st" for x
    using st'(4) that new(1) by auto
  have gd: "gdata st' B = d" "\<And>x. x \<in> blocks st \<Longrightarrow> gdata st' x = gdata st x" using st'(4) eq by (auto simp: gdata_def)
  have spb: "sp \<in> blocks st" using d(1,2) new(3) by (auto simp: merges_def)
  have "map_of (rm_ghostdag (reach st')) x \<noteq> None \<and> (P x = [] \<longleftrightarrow> x = r) \<and> (\<forall>q \<in> set (P x). work st' q < work st' x)"
    if "x \<in> blocks st'" for x
  proof (cases "x = B")
    case True
    have "B \<noteq> r" using new(1) topoD(8) [OF t] by blast
    moreover have "work st' q < work st' B" if "q \<in> set (P B)" for q
      using d(5) [OF that] gd(1) gd(2) [OF subsetD [OF new(3) that]] by simp
    ultimately show ?thesis using True new(2) st'(4) by simp
  next
    case False
    then have x: "x \<in> blocks st" using that st'(1) by blast
    have "work st' q < work st' x" if "q \<in> set (P x)" for q
      using topoD(5) [OF t x that] gd(2) [OF x] gd(2) [OF subsetD [OF topoD(9) [OF t x] that]] by simp
    then show ?thesis using topoD(4,6) [OF t x] eq [OF x] by simp
  qed
  then have "topo P st' r" using st'(2,5) by (simp add: topo_def)
  moreover have "merges P r x (gdata st' x) \<and> cluster P st' (gdata st' x) \<and> in_order P st' x (gdata st' x)"
    if "x \<in> blocks st'" for x
  proof (cases "x = B")
    case True
    have "chain_closed st (blocks st) d" using ghost_closed [OF g] d(1) spb by simp
    then have "cluster P st' d" using cluster_frame [OF eq _ st'(3)] d(3) by blast
    moreover have "in_order P st' B d"
      by (rule in_order_frame [OF d(4) merges_blocks [OF t d(2) new(3)] new(3) gd(2)])
    ultimately show ?thesis using True gd(1) d(2) by simp
  next
    case False
    then have x: "x \<in> blocks st" using that st'(1) by blast
    note D = ghost_okD(3,4,5) [OF g x] and P = topoD(9) [OF t x]
    have "chain_closed st (blocks st) (gdata st x)" using ghost_closed [OF g] mergesD(2) [OF t x D(1)] by blast
    moreover have "in_order P st' x (gdata st x)" by (rule in_order_frame [OF D(3) merges_blocks [OF t D(1) P] P gd(2)])
    ultimately show ?thesis using D cluster_frame [OF eq _ st'(3)] gd(2) [OF x] by simp
  qed
  ultimately show ?thesis using ghost_okD(2) [OF g] st'(3) by (simp add: ghost_ok_def)
qed

text \<open>\<^verbatim>\<open>AddBlock\<close> after \<^verbatim>\<open>GHOSTDAG\<close> has staged the data \<open>d\<close> of the block.\<close>

lemma AddBlock_ghost_ok:
  assumes g: "ghost_ok P st r" and i: "insertable P st B"
    and d: "SelectedParent d = Some sp" "merges P r B d" "cluster P st d" "in_order P st B d"
      "\<And>q. q \<in> set (P B) \<Longrightarrow> work st q < BlueWork d"
    and R: "rm_reindexRoot (reach st) = Some R" "R \<in> blocks st"
    and big: "Suc (card (blocks st)) < 2 ^ 64" and cap: "capacity (data_of (reach st)) (reindexSlack (reach st)) R"
  shows "\<exists>rt. AddBlock (reach (stageGhostdag st B d)) B = Inr rt \<and> ghost_ok P ((stageGhostdag st B d)\<lparr>reach := rt\<rparr>) r
    \<and> dom (data_of rt) = insert B (blocks st) \<and> rm_reindexRoot rt = Some R
    \<and> map_of (rm_ghostdag rt) = (map_of (rm_ghostdag (reach st)))(B \<mapsto> d)
    \<and> (\<forall>x y. anc (data_of rt) x y \<longleftrightarrow> anc (data_of (reach st)) x y \<or> (y = B \<and> (x = B \<or> anc (data_of (reach st)) x sp)))"
proof -
  note t = ghost_okD(1) [OF g]
  have I: "B \<notin> blocks st" "Parents st B = Inr (P B)" "P B \<noteq> []" "set (P B) \<subseteq> blocks st"
    using i by (auto simp: insertable_def)
  let ?rt1 = "reach (stageGhostdag st B d)"
  have r1: "data_of ?rt1 = data_of (reach st)" "rm_reindexRoot ?rt1 = Some R" "reindexSlack ?rt1 = reindexSlack (reach st)"
    "ghostdagData ?rt1 B = Inr d" "rm_ghostdag ?rt1 = AList.update B d (rm_ghostdag (reach st))"
    using R(1) by (simp_all add: stageGhostdag_def data_of_def ghostdagData_def)
  have "merge_ok P (data_of ?rt1) B d sp" unfolding r1(1) by (rule merges_merge_ok [OF t i d(2,1)])
  from AddBlock_ok [OF topoD(1) [OF t, folded r1(1)] r1(4) this r1(2)] obtain rt where rt:
    "AddBlock ?rt1 B = Inr rt" "reach_ok P (data_of rt) r" "dom (data_of rt) = insert B (blocks st)"
    "rm_reindexRoot rt = Some R" "rm_ghostdag rt = rm_ghostdag ?rt1"
    "\<forall>x y. anc (data_of rt) x y \<longleftrightarrow> anc (data_of (reach st)) x y \<or> (y = B \<and> (x = B \<or> anc (data_of (reach st)) x sp))"
    using R(2) big cap unfolding r1 by blast
  let ?st' = "(stageGhostdag st B d)\<lparr>reach := rt\<rparr>"
  have m: "map_of (rm_ghostdag rt) = (map_of (rm_ghostdag (reach st)))(B \<mapsto> d)" using rt(5) r1(5) by (simp add: update_conv')
  have par: "Parents ?st' x = Parents st x" for x by (simp add: Parents_def BlockRelation_def stageGhostdag_def)
  have "ghost_ok P ?st' r"
  proof (rule ghost_ok_insert [OF g I(1,3,4) d(1-4)])
    show "Parents ?st' x = Inr (P x)" if "x \<in> blocks ?st'" for x
      unfolding par using that rt(3) I(2) topoD(2) [OF t] by auto
  qed (use rt(2,3) d(5) m in \<open>simp_all add: stageGhostdag_def\<close>)
  then show ?thesis using rt m by blast
qed

section \<open>The relations\<close>

text \<open>The invariant depends on the relations only through the parents of the blocks.\<close>

lemma blue_reach: "reach st' = reach st \<Longrightarrow> blue st' d y \<longleftrightarrow> blue st d y"
proof -
  have "blue st' d y" if "blue st d y" "reach st' = reach st" for st st' :: dagManagers
    using that by (induction rule: blue.induct) (auto intro: blue.intros)
  then show "reach st' = reach st \<Longrightarrow> blue st' d y \<longleftrightarrow> blue st d y" by metis
qed

lemma anticone_size_reach: "anticone_size st d y n \<Longrightarrow> reach st' = reach st \<Longrightarrow> anticone_size st' d y n"
  by (induction rule: anticone_size.induct) (auto intro: anticone_size.intros)

lemma ghost_ok_reach:
  assumes g: "ghost_ok P st r" and e: "reach st' = reach st" "gk st' = gk st"
    and p: "\<And>h. h \<in> blocks st \<Longrightarrow> Parents st' h = Parents st h"
  shows "ghost_ok P st' r"
proof -
  have d: "gdata st' h = gdata st h" for h by (simp add: gdata_def e)
  have "cluster P st' x" if "cluster P st x" for x
    using that anticone_size_reach [OF _ e(1)] unfolding cluster_def blue_reach [OF e(1)] e(2) by blast
  moreover have "topo P st' r" using ghost_okD(1) [OF g] p unfolding topo_def d e(1) by auto
  moreover have "precedes st' = precedes st" by (intro ext) (simp add: precedes_def d)
  then have "in_order P st' h x = in_order P st h x" for h x by (simp add: in_order_def)
  ultimately show ?thesis using g unfolding ghost_ok_def d e by blast
qed

end
