(* ===== verification/Ghostdag_Theorems.thy ===== *)
theory Ghostdag_Theorems
  imports Ghostdag_Insertion
begin

text \<open>
  What the GHOSTDAG manager promises: the merge set, the colouring and the invariant of the DAG, with a
  small DAG on which the statements are applied.
\<close>

section \<open>A fork\<close>

text \<open>A genesis block \<open>[0]\<close> with the two children \<open>[1]\<close> and \<open>[2]\<close>, which a block \<open>[3]\<close> can merge.\<close>

definition forkHeader :: "DomainHash list \<Rightarrow> BlockHeader" where
  "forkHeader ps = \<lparr>bh_version = 0, parentHashes = ps, hashMerkleRoot = [], acceptedIDMerkleRoot = [],
     utxoCommitment = [], timeInMilliseconds = 1000 * int (length ps), bits = 0x207fffff, nonce = 0\<rparr>"

definition forkParents :: "DomainHash \<Rightarrow> DomainHash list" where
  "forkParents h = (if h = [0] then [] else if h = [1] \<or> h = [2] then [[0]] else [[2], [1]])"

definition forkDAG :: dagManagers where
  "forkDAG = \<lparr>reach = (newReachabilityManager (\<lambda>_. 0))\<lparr>
       rm_data := [([0], \<lparr>rd_children = [[1], [2]], rd_parent = None, rd_interval = Some (newReachabilityInterval 1 100000),
            rd_futureCoveringSet = [[1], [2]]\<rparr>),
          ([1], \<lparr>rd_children = [], rd_parent = Some [0], rd_interval = Some (newReachabilityInterval 1 50000),
            rd_futureCoveringSet = []\<rparr>),
          ([2], \<lparr>rd_children = [], rd_parent = Some [0], rd_interval = Some (newReachabilityInterval 50001 75000),
            rd_futureCoveringSet = []\<rparr>)],
       rm_reindexRoot := Some [0],
       rm_ghostdag := [([0], NewBlockGHOSTDAGData 0 0 None [] [] []),
          ([1], NewBlockGHOSTDAGData 1 2 (Some [0]) [[0]] [] [([0], 0)]),
          ([2], NewBlockGHOSTDAGData 1 2 (Some [0]) [[0]] [] [([0], 0)])]\<rparr>,
     relations = [([0], \<lparr>br_Parents = [], br_Children = [[1], [2]]\<rparr>),
        ([1], \<lparr>br_Parents = [[0]], br_Children = []\<rparr>), ([2], \<lparr>br_Parents = [[0]], br_Children = []\<rparr>)],
     headers = [([0], forkHeader []), ([1], forkHeader [[0]]), ([2], forkHeader [[0]])], gk = 18\<rparr>"

abbreviation forkTree :: "DomainHash \<Rightarrow> reachabilityData option" where
  "forkTree \<equiv> data_of (reach forkDAG)"

lemma fork_tree:
  "dom forkTree = {[0], [1], [2]}" "kids forkTree [0] = [[1], [2]]" "kids forkTree [1] = []" "kids forkTree [2] = []"
  "ivl forkTree [0] = newReachabilityInterval 1 100000" "ivl forkTree [1] = newReachabilityInterval 1 50000"
  "ivl forkTree [2] = newReachabilityInterval 50001 75000" "edges forkTree = {([0], [1]), ([0], [2])}"
  "fcs_of forkTree [0] = [[1], [2]]" "fcs_of forkTree [1] = []" "fcs_of forkTree [2] = []"
  by (auto simp: data_of_def forkDAG_def kids_def ivl_def edges_def fcs_of_def split: if_splits)

lemma fork_tree_anc: "anc forkTree a b \<longleftrightarrow> a = b \<or> a = [0] \<and> (b = [1] \<or> b = [2])"
proof
  assume "anc forkTree a b"
  then have "a = b \<or> (\<exists>z. (a, z) \<in> edges forkTree \<and> anc forkTree z b)"
    unfolding anc_def by (auto elim: converse_rtranclE)
  then show "a = b \<or> a = [0] \<and> (b = [1] \<or> b = [2])"
    using leaf_anc [OF fork_tree(3)] leaf_anc [OF fork_tree(4)] by (auto simp: fork_tree(8))
qed (auto simp: fork_tree(8) intro: anc_edge)

lemma fork_valid: "valid forkTree [0]"
proof -
  have par: "par forkTree [0] = None" "par forkTree c = Some p \<longleftrightarrow> (c = [1] \<or> c = [2]) \<and> p = [0]" for c p
    by (auto simp: data_of_def forkDAG_def par_def split: if_splits)
  have iv: "rd_interval (the (forkTree h)) \<noteq> None" if "h \<in> {[0], [1], [2]}" for h
    using that by (auto simp: data_of_def forkDAG_def)
  have "tree_wf forkTree [0]"
    unfolding tree_wf_def fork_tree(1,8) using iv par by (auto simp: fork_tree_anc fork_tree)
  then show ?thesis by (simp add: valid_def node_ok_def fork_tree newReachabilityInterval_def)
qed

lemma fork_parents: "forkParents [0] = []" "forkParents [1] = [[0]]" "forkParents [2] = [[0]]" "forkParents [3] = [[2], [1]]"
  by (simp_all add: forkParents_def)

lemma fork_anc:
  "dag_anc forkParents a [0] \<longleftrightarrow> a = [0]" "dag_anc forkParents a [1] \<longleftrightarrow> a = [1] \<or> a = [0]"
  "dag_anc forkParents a [2] \<longleftrightarrow> a = [2] \<or> a = [0]"
proof -
  show 0: "dag_anc forkParents a [0] \<longleftrightarrow> a = [0]" using dag_anc_step [of forkParents a "[0]"] by (simp add: fork_parents)
  show "dag_anc forkParents a [1] \<longleftrightarrow> a = [1] \<or> a = [0]" "dag_anc forkParents a [2] \<longleftrightarrow> a = [2] \<or> a = [0]"
    using dag_anc_step [of forkParents a "[1]"] dag_anc_step [of forkParents a "[2]"] 0 by (auto simp: fork_parents)
qed

lemma fork_data:
  "gdata forkDAG [0] = NewBlockGHOSTDAGData 0 0 None [] [] []"
  "gdata forkDAG [1] = NewBlockGHOSTDAGData 1 2 (Some [0]) [[0]] [] [([0], 0)]"
  "gdata forkDAG [2] = NewBlockGHOSTDAGData 1 2 (Some [0]) [[0]] [] [([0], 0)]"
  "map_of (rm_ghostdag (reach forkDAG)) [0] = Some (NewBlockGHOSTDAGData 0 0 None [] [] [])"
  by (simp_all add: gdata_def forkDAG_def)

lemma fork_reach: "reach_ok forkParents forkTree [0]"
  unfolding reach_ok_def fork_tree(1) using fork_valid
  by (auto simp: ordered_def covers_def fork_tree fork_tree_anc fork_anc fork_parents newReachabilityInterval_def)

lemma fork_topo: "topo forkParents forkDAG [0]"
  unfolding topo_def fork_tree(1) using fork_reach fork_data
  by (auto simp: fork_parents Parents_def BlockRelation_def NewBlockGHOSTDAGData_def) (auto simp: forkDAG_def)

lemma fork_blue:
  "\<not> blue forkDAG (NewBlockGHOSTDAGData 0 0 None [] [] []) y"
  "blue forkDAG (NewBlockGHOSTDAGData 1 2 (Some [0]) [[0]] [] [([0], 0)]) y \<longleftrightarrow> y = [0]"
proof -
  show 0: "\<not> blue forkDAG (NewBlockGHOSTDAGData 0 0 None [] [] []) y" for y
    by (auto simp: NewBlockGHOSTDAGData_def elim: blue.cases)
  let ?d = "NewBlockGHOSTDAGData 1 2 (Some [0 :: byte]) [[0]] [] [([0], 0)]"
  have "y = [0]" if "blue forkDAG ?d y"
    using that by (cases rule: blue.cases) (use 0 in \<open>auto simp: fork_data NewBlockGHOSTDAGData_def\<close>)
  moreover have "blue forkDAG ?d [0]" by (rule blue.here) (simp add: NewBlockGHOSTDAGData_def)
  ultimately show "blue forkDAG ?d y \<longleftrightarrow> y = [0]" by blast
qed

lemma fork_ok: "ghost_ok forkParents forkDAG [0]"
proof -
  let ?d = "NewBlockGHOSTDAGData 1 2 (Some [0 :: byte]) [[0]] [] [([0], 0)]"
  have m: "merged forkParents [[0]] [0] = {}" by (auto simp: merged_def)
  have e: "{z. z = [0] \<and> unrelated forkParents [0] z} = {}" by (auto simp: unrelated_def)
  have "anticone_size forkDAG ?d [0] 0" by (rule anticone_size.found) (simp add: NewBlockGHOSTDAGData_def)
  then have "cluster forkParents forkDAG ?d"
    unfolding cluster_def fork_blue by (intro allI impI exI [of _ 0]) (auto simp: e)
  moreover have "cluster forkParents forkDAG (NewBlockGHOSTDAGData 0 0 None [] [] [])"
    by (simp add: cluster_def fork_blue)
  moreover have "merges forkParents [0] [0] (NewBlockGHOSTDAGData 0 0 None [] [] [])"
    "merges forkParents [0] [1] ?d" "merges forkParents [0] [2] ?d"
    by (simp_all add: merges_def fork_parents m NewBlockGHOSTDAGData_def)
  moreover have "in_order forkParents forkDAG [0] (gdata forkDAG [0])" "in_order forkParents forkDAG [1] (gdata forkDAG [1])"
    "in_order forkParents forkDAG [2] (gdata forkDAG [2])"
    by (simp_all add: in_order_def fork_data fork_parents NewBlockGHOSTDAGData_def)
  ultimately have "merges forkParents [0] h (gdata forkDAG h) \<and> cluster forkParents forkDAG (gdata forkDAG h)
      \<and> in_order forkParents forkDAG h (gdata forkDAG h)" if "h \<in> {[0], [1], [2]}" for h
    using that fork_data(1-3) by (elim insertE) simp_all
  moreover have "unat (gk forkDAG) < 255" by (simp add: forkDAG_def)
  ultimately show ?thesis unfolding ghost_ok_def fork_tree(1) using fork_topo by blast
qed

lemma fork_work: "CalcWork 0x207fffff = 2"
  by code_simp

lemma fork_headers: "headers_ok forkDAG"
  unfolding headers_ok_def fork_tree(1) by (auto simp: forkDAG_def forkHeader_def fork_work)

lemma fork_slack: "reindexSlack (reach forkDAG) = 4096" "rm_reindexRoot (reach forkDAG) = Some [0]" "gk forkDAG = 18"
  by (simp_all add: forkDAG_def newReachabilityManager_def defaultReindexSlack_def)

lemma fork_capacity: "capacity forkTree (reindexSlack (reach forkDAG)) [0]"
  unfolding capacity_def fork_tree(1) by (simp add: fork_tree(5) newReachabilityInterval_def width_def fork_slack)


lemma fork_relations: "relations_ok forkDAG" "dom (rel forkDAG) = {[0], [1], [2]}"
  by (auto simp: relations_ok_def forkDAG_def split: if_splits)

lemma fork_insertable:
  "\<exists>st. SetParents forkDAG [3] [[2], [1]] = Inr st \<and> same_dag forkDAG st \<and> ghost_ok forkParents st [0]
     \<and> insertable forkParents st [3] \<and> headers_ok st"
proof -
  have k: "set [[2], [1]] \<subseteq> dom (rel forkDAG)" unfolding fork_relations(2) by simp
  obtain st where s: "SetParents forkDAG [3] [[2], [1]] = Inr st" "same_dag forkDAG st"
    using SetParents_ok [OF fork_relations(1) k, of "[3]"] by blast
  have r: "reach st = reach forkDAG" "gk st = gk forkDAG" "headers st = headers forkDAG" using s(2) by (auto simp: same_dag_def)
  note p = SetParents_Parents [OF s(1) fork_relations(1) k]
  have "ghost_ok forkParents st [0]"
    by (rule ghost_ok_reach [OF fork_ok r(1,2)], rule p(2)) (auto simp: fork_tree(1))
  moreover have "insertable forkParents st [3]"
    unfolding insertable_def r(1) fork_tree(1) using p(1) by (auto simp: fork_parents fork_anc)
  moreover have "headers_ok st" using fork_headers unfolding headers_ok_def r .
  ultimately show ?thesis using s by blast
qed

section \<open>The \<open>k\<close>-cluster rule\<close>

definition k_cluster :: "(DomainHash \<Rightarrow> DomainHash list) \<Rightarrow> nat \<Rightarrow> DomainHash set \<Rightarrow> bool" where
  "k_cluster P k S \<longleftrightarrow> (\<forall>y \<in> S. card {z \<in> S. unrelated P y z} \<le> k)"

lemma cluster_k_cluster: "cluster P st d \<Longrightarrow> k_cluster P (unat (gk st)) {z. blue st d z}"
  by (fastforce simp: cluster_def k_cluster_def word_le_nat_alt)

lemma fits_k_cluster:
  assumes g: "ghost_ok P st r" and d: "growing P st sp d" and c: "\<And>z. blue st d z \<Longrightarrow> \<not> dag_anc P c z"
  shows "fits P st d c \<longleftrightarrow> k_cluster P (unat (gk st)) (insert c {z. blue st d z})"
proof -
  let ?B = "{z. blue st d z}"
  have fin: "finite ?B" by (rule finite_blue [OF g d])
  have self: "{z \<in> insert c ?B. unrelated P c z} = {z. blue st d z \<and> \<not> dag_anc P z c}"
    using c by (auto simp: unrelated_def)
  have y: "card {z \<in> insert c ?B. unrelated P y z} = unat (sizeOf st d y) + (if dag_anc P y c then 0 else 1)"
    if y: "blue st d y" for y
  proof -
    have "{z \<in> insert c ?B. unrelated P y z} = (if dag_anc P y c then {} else {c}) \<union> {z. blue st d z \<and> unrelated P y z}"
      using c [OF y] by (auto simp: unrelated_def)
    moreover have "c \<notin> {z. blue st d z \<and> unrelated P y z}" using c [of c] by auto
    moreover have "finite {z. blue st d z \<and> unrelated P y z}" by (rule finite_subset [OF _ fin]) auto
    ultimately show ?thesis using growing_size(4) [OF g d y] by auto
  qed
  have "card {z \<in> insert c ?B. unrelated P y z} \<le> unat (gk st) \<longleftrightarrow> (\<not> dag_anc P y c \<longrightarrow> sizeOf st d y < gk st)"
    if b: "blue st d y" for y
    unfolding y [OF b] using growing_size(3) [OF g d b] by (auto simp: word_le_nat_alt word_less_nat_alt)
  moreover have "card {z \<in> insert c ?B. unrelated P c z} = card {z. blue st d z \<and> \<not> dag_anc P z c}" unfolding self ..
  ultimately show ?thesis unfolding fits_def k_cluster_def by simp
qed

section \<open>Properties\<close>

text \<open>
  C9: the merge set.  For parents that are different and not in the past of each other,
  \<^verbatim>\<open>mergeSetWithoutSelectedParent\<close> returns, without repetition, exactly the blocks that are in the past
  of a parent (or a parent) and not in the past of the selected parent, and lists no block before one
  of its ancestors.
\<close>

theorem merge_set_exact:
  assumes "topo P st r" "set ps \<subseteq> blocks st" "distinct ps" "sp \<in> set ps"
    and "\<forall>q \<in> set ps. q \<noteq> sp \<longrightarrow> \<not> dag_anc P q sp"
  shows "\<exists>ms. mergeSetWithoutSelectedParent st (Some sp) ps = Inr ms \<and> distinct ms
    \<and> set ms = {a. (\<exists>q \<in> set ps. dag_anc P a q) \<and> \<not> dag_anc P a sp}
    \<and> sorted_wrt (\<lambda>a b. \<not> dag_anc P b a) ms"
proof -
  obtain ms where ms: "mergeSetWithoutSelectedParent st (Some sp) ps = Inr ms" "set ms = merged P ps sp"
    "sorted_wrt (precedes st) ms" using mergeSet_ok [OF assms(1-4)] assms(5) by blast
  have topological: "\<not> dag_anc P b a" if "a \<in> set ms" "b \<in> set ms" "precedes st a b" for a b
  proof
    assume "dag_anc P b a"
    moreover have "a \<in> blocks st" using merged_blocks [OF assms(1,2), of sp] ms(2) that(1) by blast
    ultimately show False using topo_precedes [OF assms(1), of a b] that(3) precedes_asym by (cases "a = b") auto
  qed
  have "sorted_wrt (\<lambda>a b. \<not> dag_anc P b a) ms" by (rule sorted_wrt_mono_rel [OF _ ms(3)]) (rule topological)
  then show ?thesis using ms precedes_distinct [OF ms(3)] by (intro exI [of _ ms]) (simp add: merged_def)
qed

theorem merge_set_exact_witness:
  "\<exists>ms. mergeSetWithoutSelectedParent forkDAG (Some [2]) [[2], [1]] = Inr ms \<and> set ms = {[1]}"
proof -
  have "{a. (\<exists>q \<in> set [[2], [1]]. dag_anc forkParents a q) \<and> \<not> dag_anc forkParents a [2]} = {[1]}"
    by (auto simp: fork_anc)
  then show ?thesis using merge_set_exact [OF fork_topo, of "[[2], [1]]" "[2]"] by (auto simp: fork_tree(1) fork_anc)
qed

text \<open>
  C4: the colouring rule.  While fewer than \<open>k + 1\<close> blocks of the merge set are blue, the candidate is
  coloured blue exactly when the blue set stays a \<open>k\<close>-cluster with it, that is, when every blue block has
  at most \<open>k\<close> blue blocks in its anticone; the anticone size returned is that of the candidate.
\<close>

theorem candidate_blue_iff_cluster:
  assumes "ghost_ok P st r" "growing P st sp d" "c \<in> blocks st" "\<forall>z. blue st d z \<longrightarrow> \<not> dag_anc P c z"
    and "length (MergeSetBlues d) \<le> unat (gk st)"
  shows "if k_cluster P (unat (gk st)) (insert c {z. blue st d z})
    then \<exists>n S. checkBlueCandidate st d c = Inr (Some (n, S)) \<and> unat n = card {z. blue st d z \<and> unrelated P c z}
    else checkBlueCandidate st d c = Inr None"
proof -
  have k: "unat (gk st) < 255" by (rule ghost_okD(2) [OF assms(1)])
  have "coloured P st d c (checkBlueCandidate st d c)"
    using checkBlueCandidate_ok [OF assms(1-3)] assms(5) k by auto
  moreover have e: "{z. blue st d z \<and> unrelated P c z} = {z. blue st d z \<and> \<not> dag_anc P z c}"
    using assms(4) by (auto simp: unrelated_def)
  moreover have "unat (of_nat (card {z. blue st d z \<and> \<not> dag_anc P z c}) :: KType) = card {z. blue st d z \<and> \<not> dag_anc P z c}"
    if "fits P st d c" using that k by (simp add: fits_def unat_of_nat)
  moreover have "fits P st d c \<longleftrightarrow> k_cluster P (unat (gk st)) (insert c {z. blue st d z})"
    by (rule fits_k_cluster [OF assms(1,2)]) (use assms(4) in blast)
  ultimately show ?thesis unfolding coloured_def by (cases "fits P st d c") auto
qed

theorem candidate_blue_iff_cluster_witness:
  "\<exists>n S. checkBlueCandidate forkDAG (NewBlockGHOSTDAGData 0 0 (Some [2]) [[2]] [] [([2], 0)]) [1] = Inr (Some (n, S))
     \<and> unat n = 1"
proof -
  let ?d = "NewBlockGHOSTDAGData 0 0 (Some [2 :: byte]) [[2]] [] [([2], 0)]"
  have 2: "[2] \<in> blocks forkDAG" by (simp add: fork_tree(1))
  note G = growing_start [OF fork_ok 2]
  have b: "blue forkDAG ?d z \<longleftrightarrow> z = [2] \<or> z = [0]" for z using G(2) by (simp add: fork_data fork_blue)
  have e: "{z. blue forkDAG ?d z} = {[2], [0]}" by (auto simp: b)
  have u: "{z \<in> {[1], [2], [0]}. unrelated forkParents y z} \<subseteq> {[1], [2], [0]}" for y by blast
  have "card {z \<in> {[1], [2], [0]}. unrelated forkParents y z} \<le> 18" for y
    by (rule order_trans [OF card_mono [OF _ u]]) simp_all
  then have "k_cluster forkParents (unat (gk forkDAG)) (insert [1] {z. blue forkDAG ?d z})"
    unfolding k_cluster_def e fork_slack by simp
  moreover have "{z. blue forkDAG ?d z \<and> unrelated forkParents [1] z} = {[2]}" by (auto simp: b unrelated_def fork_anc)
  moreover have "length (MergeSetBlues ?d) = 1" by (simp add: NewBlockGHOSTDAGData_def)
  ultimately show ?thesis
    using candidate_blue_iff_cluster [OF fork_ok G(1), of "[1]"] by (auto simp: fork_tree(1) fork_slack b fork_anc)
qed

text \<open>
  C3: GHOSTDAG.  For a new block whose parents are known, different and not in the past of each other,
  \<^verbatim>\<open>GHOSTDAG\<close> returns: it selects the parent with the greatest blue work and hash; blues and reds are
  together its merge set; the blue set is a \<open>k\<close>-cluster; at most \<open>k + 1\<close> blocks of the merge set are
  blue; and blue score and blue work are those of the selected parent plus what the merged blues add.
\<close>

theorem GHOSTDAG_blue_set:
  assumes "ghost_ok P st r" "insertable P st B" "headers_ok st"
  shows "\<exists>d sp. GHOSTDAG st B = Inr (stageGhostdag st B d) \<and> SelectedParent d = Some sp \<and> sp \<in> set (P B)
     \<and> (\<forall>q \<in> set (P B). q = sp \<or> precedes st q sp)
     \<and> set (MergeSetBlues d @ MergeSetReds d) = insert sp {a. (\<exists>q \<in> set (P B). dag_anc P a q) \<and> \<not> dag_anc P a sp}
     \<and> distinct (MergeSetBlues d @ MergeSetReds d) \<and> k_cluster P (unat (gk st)) {z. blue st d z}
     \<and> length (MergeSetBlues d) \<le> unat (gk st) + 1
     \<and> BlueScore d = BlueScore (gdata st sp) + of_nat (length (MergeSetBlues d))
     \<and> BlueWork d = work st sp + (\<Sum>b\<leftarrow>MergeSetBlues d. workOf st b)"
proof -
  obtain d sp where "GHOSTDAG st B = Inr (stageGhostdag st B d)" "SelectedParent d = Some sp"
     "in_order P st B d" "merges P r B d" "cluster P st d"
     "length (MergeSetBlues d) \<le> unat (gk st) + 1"
     "BlueScore d = BlueScore (gdata st sp) + of_nat (length (MergeSetBlues d))"
     "BlueWork d = work st sp + (\<Sum>b\<leftarrow>MergeSetBlues d. workOf st b)" using GHOSTDAG_ok [OF assms] by blast
  then show ?thesis by (intro exI [of _ d] exI [of _ sp]) (simp add: merges_def merged_def in_order_def cluster_k_cluster)
qed

theorem GHOSTDAG_blue_set_witness:
  "\<exists>st d. SetParents forkDAG [3] [[2], [1]] = Inr st \<and> GHOSTDAG st [3] = Inr (stageGhostdag st [3] d)
     \<and> set (MergeSetBlues d @ MergeSetReds d) = {[1], [2]}"
proof -
  obtain st where s: "SetParents forkDAG [3] [[2], [1]] = Inr st" "ghost_ok forkParents st [0]"
    "insertable forkParents st [3]" "headers_ok st" using fork_insertable by blast
  obtain d sp where d: "GHOSTDAG st [3] = Inr (stageGhostdag st [3] d)" "sp \<in> set (forkParents [3])"
    "set (MergeSetBlues d @ MergeSetReds d)
       = insert sp {a. (\<exists>q \<in> set (forkParents [3]). dag_anc forkParents a q) \<and> \<not> dag_anc forkParents a sp}"
    using GHOSTDAG_blue_set [OF s(2-4)] by blast
  have "sp = [1] \<or> sp = [2]" using d(2) by (auto simp: fork_parents)
  then have "insert sp {a. (\<exists>q \<in> set (forkParents [3]). dag_anc forkParents a q) \<and> \<not> dag_anc forkParents a sp} = {[1], [2]}"
    by (auto simp: fork_parents fork_anc)
  then show ?thesis using s(1) d by (intro exI [of _ st] exI [of _ d]) simp
qed

end
