(* ===== verification/Dag_Traversal.thy ===== *)
theory Dag_Traversal
  imports Block_Heap Ghostdag_Theorems
begin

text \<open>
  \<^verbatim>\<open>processes/dagtraversalmanager/window.go\<close>: the window of a block, which holds the greatest blocks of
  its past by blue work and hash.
\<close>

section \<open>window.go\<close>

primrec pushWhileAdded :: "dagManagers \<Rightarrow> nat \<Rightarrow> blockHeapNode list \<Rightarrow> DomainHash list
     \<Rightarrow> (dag_error, blockHeapNode list) result" where
  "pushWhileAdded st windowSize windowHeap [] = Inr windowHeap"
| "pushWhileAdded st windowSize windowHeap (blockHash # blockHashes) =
     rbind (tryPush st windowSize windowHeap blockHash) (\<lambda>(added, windowHeap').
       if added then pushWhileAdded st windowSize windowHeap' blockHashes else Inr windowHeap')"

primrec BlockWindow_loop :: "nat \<Rightarrow> dagManagers \<Rightarrow> DomainHash \<Rightarrow> nat \<Rightarrow> BlockGHOSTDAGData \<Rightarrow> blockHeapNode list
     \<Rightarrow> (dag_error, blockHeapNode list) result" where
  "BlockWindow_loop 0 st genesisHash windowSize current windowHeap = Inl (Err NoFuel)"
| "BlockWindow_loop (Suc fuel) st genesisHash windowSize current windowHeap =
     (case SelectedParent current of
        None \<Rightarrow> Inr windowHeap
      | Some selectedParent \<Rightarrow>
          if length windowHeap \<le> windowSize \<and> selectedParent \<noteq> genesisHash
          then rbind (ghostdagData (reach st) selectedParent) (\<lambda>selectedParentGHOSTDAGData.
               rbind (tryPushWithGHOSTDAGData windowSize windowHeap selectedParent selectedParentGHOSTDAGData)
                 (\<lambda>(added, heap1).
                    if \<not> added then Inr heap1
                    else rbind (case MergeSetBlues current of
                                  [] \<Rightarrow> Inl Panic
                                | _ # mergeSetBlues \<Rightarrow> pushWhileAdded st windowSize heap1 (rev mergeSetBlues))
                           (\<lambda>heap2.
                         rbind (pushWhileAdded st windowSize heap2 (rev (MergeSetReds current))) (\<lambda>heap3.
                           BlockWindow_loop fuel st genesisHash windowSize selectedParentGHOSTDAGData heap3))))
          else Inr windowHeap)"

definition BlockWindow :: "dagManagers \<Rightarrow> DomainHash \<Rightarrow> DomainHash \<Rightarrow> nat \<Rightarrow> (dag_error, DomainHash list) result" where
  "BlockWindow st genesisHash highHash windowSize =
     rbind (ghostdagData (reach st) highHash) (\<lambda>currentGHOSTDAGData.
     rbind (BlockWindow_loop (Suc (dag_fuel st)) st genesisHash windowSize currentGHOSTDAGData []) (\<lambda>windowHeap.
       Inr (map bn_hash windowHeap)))"

section \<open>The past of a block\<close>

definition past :: "(DomainHash \<Rightarrow> DomainHash list) \<Rightarrow> DomainHash \<Rightarrow> DomainHash \<Rightarrow> DomainHash set" where
  "past P r h = {a. a \<noteq> r \<and> (\<exists>q \<in> set (P h). dag_anc P a q)}"

lemma topo_root:
  assumes t: "topo P st r" and h: "h \<in> blocks st"
  shows "dag_anc P r h"
  using reach_okD(4) [OF topoD(1) [OF t] topoD(8) [OF t] h] tree_wfD(7) [OF validD(1) [OF reach_okD(1) [OF topoD(1) [OF t]]] h]
  by blast

lemma topo_root_anc:
  assumes t: "topo P st r" and a: "dag_anc P a r"
  shows "a = r"
  using a topoD(4) [OF t topoD(8) [OF t]] dag_anc_step [of P a r] by auto

lemma past_blocks:
  assumes t: "topo P st r" and P: "set (P h) \<subseteq> blocks st"
  shows "past P r h \<subseteq> blocks st"
proof
  fix a
  assume "a \<in> past P r h"
  then obtain q where "q \<in> set (P h)" "dag_anc P a q" by (auto simp: past_def)
  then show "a \<in> blocks st" using dag_anc_dom [where P = P and a = a and b = q, OF topoD(9) [OF t]] P by blast
qed

lemma finite_past: "topo P st r \<Longrightarrow> set (P h) \<subseteq> blocks st \<Longrightarrow> finite (past P r h)"
  by (rule finite_subset [OF past_blocks topoD(7)])

text \<open>The selected parent is the greatest block of the past.\<close>

lemma past_least:
  assumes t: "topo P st r" and P: "set (P h) \<subseteq> blocks st" and q: "\<And>q. q \<in> set (P h) \<Longrightarrow> q = s \<or> precedes st q s"
    and a: "a \<in> past P r h"
  shows "a = s \<or> precedes st a s"
proof -
  obtain p where p: "p \<in> set (P h)" "dag_anc P a p" using a by (auto simp: past_def)
  have "a = p \<or> precedes st a p" using topo_precedes [OF t subsetD [OF P p(1)] p(2)] by blast
  then show ?thesis using q [OF p(1)] precedes_trans by blast
qed

lemma past_genesis:
  assumes t: "topo P st r" and P: "set (P h) \<subseteq> blocks st" and q: "\<And>q. q \<in> set (P h) \<Longrightarrow> q = r \<or> precedes st q r"
  shows "past P r h = {}"
proof -
  have "q = r" if "q \<in> set (P h)" for q
    using q [OF that] topo_precedes [OF t subsetD [OF P that] topo_root [OF t subsetD [OF P that]]] precedes_asym by blast
  then show ?thesis using topo_root_anc [OF t] by (auto simp: past_def)
qed

text \<open>The past of a block is its merge set and the past of its selected parent.\<close>

lemma past_split:
  assumes t: "topo P st r" and P: "set (P h) \<subseteq> blocks st" and s: "s \<in> set (P h)" "s \<noteq> r"
  shows "past P r h = insert s (merged P (P h) s) \<union> past P r s" "insert s (merged P (P h) s) \<inter> past P r s = {}"
proof -
  have sb: "s \<in> blocks st" using s(1) P by blast
  have anc: "dag_anc P a s \<longleftrightarrow> a = s \<or> a = r \<or> a \<in> past P r s" for a
    using dag_anc_step [of P a s] topo_root [OF t sb] by (auto simp: past_def)
  have "s \<notin> past P r s"
  proof
    assume "s \<in> past P r s"
    then obtain q where q: "q \<in> set (P s)" "dag_anc P s q" by (auto simp: past_def)
    have "q \<in> blocks st" using topoD(9) [OF t sb] q(1) by blast
    then show False using topoD(5) [OF t sb q(1)] topo_work [OF t _ q(2)] by fastforce
  qed
  moreover have "r \<notin> merged P (P h) s" using topo_root [OF t sb] by (simp add: merged_def)
  moreover have "r \<notin> past P r s" by (simp add: past_def)
  ultimately show "past P r h = insert s (merged P (P h) s) \<union> past P r s" "insert s (merged P (P h) s) \<inter> past P r s = {}"
    using s anc dag_anc_trans [of P _ s s] unfolding past_def [of P r h] merged_def by (auto intro: dag_anc_refl)
qed

section \<open>Block windows\<close>

lemma pushWhileAdded_ok:
  assumes t: "topo P st r" and N: "0 < N"
  shows "greatest st N S hs \<Longrightarrow> set xs \<subseteq> blocks st \<Longrightarrow> set xs \<inter> S = {} \<Longrightarrow> sorted_wrt (\<lambda>a b. precedes st b a) xs \<Longrightarrow>
    \<exists>hs'. pushWhileAdded st N (map (nodeOf st) hs) xs = Inr (map (nodeOf st) hs') \<and> greatest st N (S \<union> set xs) hs'"
proof (induction xs arbitrary: S hs)
  case (Cons x xs)
  obtain added hs' where h: "tryPushWithGHOSTDAGData N (map (nodeOf st) hs) x (gdata st x) = Inr (added, map (nodeOf st) hs')"
    "greatest st N (insert x S) hs'" "\<not> added \<longrightarrow> hs' = hs \<and> length hs = N \<and> (\<forall>b \<in> set hs. precedes st x b)"
    using tryPush_ok [OF Cons.prems(1) N, of x] Cons.prems(3) by auto
  have x: "x \<in> blocks st" using Cons.prems(2) by simp
  have run: "tryPush st N (map (nodeOf st) hs) x = Inr (added, map (nodeOf st) hs')"
    using h(1) topoD(3) [OF t x] by (simp add: tryPush_def)
  have less: "precedes st y x" if "y \<in> set xs" for y using Cons.prems(4) that by simp
  show ?case
  proof (cases added)
    case True
    have "set xs \<inter> insert x S = {}" using Cons.prems(3) less precedes_irrefl by fastforce
    then obtain hs'' where "pushWhileAdded st N (map (nodeOf st) hs') xs = Inr (map (nodeOf st) hs'')"
      "greatest st N (insert x S \<union> set xs) hs''" using Cons.IH [OF h(2)] Cons.prems(2,4) by auto
    then show ?thesis using run True by (intro exI [of _ hs'']) simp
  next
    case False
    then have f: "hs' = hs" "length hs = N" "\<And>b. b \<in> set hs \<Longrightarrow> precedes st x b" using h(3) by auto
    have "greatest st N (insert x S \<union> set xs) hs"
      by (rule greatest_skip [OF h(2) [unfolded f(1)] f(2)]) (use less f(3) precedes_trans in blast)+
    then show ?thesis using run False f(1) by (intro exI [of _ hs]) simp
  qed
qed auto

text \<open>One round: the selected parent and the rest of the merge set are tried.\<close>

lemma window_round:
  assumes g: "ghost_ok P st r" and N: "0 < N" and d: "merges P r h d" "in_order P st h d" "set (P h) \<subseteq> blocks st"
    and s: "SelectedParent d = Some s" "s \<noteq> r" and G: "greatest st N S hs" "S \<inter> past P r h = {}"
  shows "\<exists>added hs1. tryPushWithGHOSTDAGData N (map (nodeOf st) hs) s (gdata st s) = Inr (added, map (nodeOf st) hs1)
    \<and> (\<not> added \<longrightarrow> greatest st N (S \<union> past P r h) hs1)
    \<and> (added \<longrightarrow> (\<exists>b bs hs2 hs3. MergeSetBlues d = b # bs
         \<and> pushWhileAdded st N (map (nodeOf st) hs1) (rev bs) = Inr (map (nodeOf st) hs2)
         \<and> pushWhileAdded st N (map (nodeOf st) hs2) (rev (MergeSetReds d)) = Inr (map (nodeOf st) hs3)
         \<and> greatest st N (S \<union> insert s (merged P (P h) s)) hs3))"
proof -
  note t = ghost_okD(1) [OF g]
  obtain bs where bs: "MergeSetBlues d = s # bs" "sorted_wrt (precedes st) bs" "sorted_wrt (precedes st) (MergeSetReds d)"
    "\<And>q. q \<in> set (P h) \<Longrightarrow> q = s \<or> precedes st q s" using d(2) s(1) unfolding in_order_def by blast
  have M: "s \<in> set (P h)" "distinct (s # bs @ MergeSetReds d)"
    "set (s # bs @ MergeSetReds d) = insert s (merged P (P h) s)" using d(1) s(1) bs(1) by (auto simp: merges_def)
  note sp = past_split [OF t d(3) M(1) s(2)]
  have sS: "s \<notin> S" using G(2) sp(1) by blast
  have ms: "set bs \<subseteq> past P r h" "set (MergeSetReds d) \<subseteq> past P r h" using M(3) sp(1) by auto
  have msb: "set bs \<subseteq> blocks st" "set (MergeSetReds d) \<subseteq> blocks st" using ms past_blocks [OF t d(3)] by blast+
  obtain added hs1 where h: "tryPushWithGHOSTDAGData N (map (nodeOf st) hs) s (gdata st s) = Inr (added, map (nodeOf st) hs1)"
    "greatest st N (insert s S) hs1" "\<not> added \<longrightarrow> hs1 = hs \<and> length hs = N \<and> (\<forall>b \<in> set hs. precedes st s b)"
    using tryPush_ok [OF G(1) N sS] by blast
  have "greatest st N (S \<union> past P r h) hs1" if "\<not> added"
  proof -
    have f: "hs1 = hs" "length hs = N" "\<And>b. b \<in> set hs \<Longrightarrow> precedes st s b" using h(3) that by auto
    have "precedes st a b" if "a \<in> past P r h" "b \<in> set hs" for a b
      using past_least [OF t d(3) bs(4) that(1)] f(3) [OF that(2)] precedes_trans by blast
    then show ?thesis unfolding f(1) using greatest_skip [OF G(1) f(2) finite_past [OF t d(3)]] by blast
  qed
  moreover obtain hs2 where h2: "pushWhileAdded st N (map (nodeOf st) hs1) (rev bs) = Inr (map (nodeOf st) hs2)"
    "greatest st N (insert s S \<union> set (rev bs)) hs2"
    using pushWhileAdded_ok [OF t N h(2), of "rev bs"] msb(1) ms(1) M(2) G(2) bs(2) by (auto simp: sorted_wrt_rev)
  moreover have dis: "set (rev (MergeSetReds d)) \<inter> (insert s S \<union> set (rev bs)) = {}" using M(2) G(2) ms(2) by auto
  moreover obtain hs3 where h3: "pushWhileAdded st N (map (nodeOf st) hs2) (rev (MergeSetReds d)) = Inr (map (nodeOf st) hs3)"
    "greatest st N (insert s S \<union> set (rev bs) \<union> set (rev (MergeSetReds d))) hs3"
    using pushWhileAdded_ok [OF t N h2(2) _ dis] msb(2) bs(3) by (auto simp: sorted_wrt_rev)
  moreover have "insert s S \<union> set (rev bs) \<union> set (rev (MergeSetReds d)) = S \<union> insert s (merged P (P h) s)"
    unfolding M(3) [symmetric] by auto
  ultimately show ?thesis using h(1) bs(1) by (intro exI [of _ added] exI [of _ hs1]) auto
qed

lemma BlockWindow_loop_ok:
  assumes g: "ghost_ok P st r" and N: "0 < N"
  shows "merges P r h d \<Longrightarrow> in_order P st h d \<Longrightarrow> set (P h) \<subseteq> blocks st \<Longrightarrow> greatest st N S hs \<Longrightarrow> S \<inter> past P r h = {} \<Longrightarrow>
    (\<And>s. SelectedParent d = Some s \<Longrightarrow> depth P st s < fuel) \<Longrightarrow>
    \<exists>hs'. BlockWindow_loop (Suc fuel) st r N d (map (nodeOf st) hs) = Inr (map (nodeOf st) hs')
      \<and> greatest st N (S \<union> past P r h) hs'"
proof (induction fuel arbitrary: h d S hs)
  case 0
  note t = ghost_okD(1) [OF g]
  have "SelectedParent d = None" using "0.prems"(6) by fastforce
  moreover from this have "past P r h = {}"
    using "0.prems"(1) topoD(4) [OF t topoD(8) [OF t]] by (auto simp: merges_def past_def)
  ultimately show ?case using "0.prems"(4) by (intro exI [of _ hs]) simp
next
  case (Suc fuel)
  note t = ghost_okD(1) [OF g]
  have len: "length hs \<le> N" using greatestD(5) [OF Suc.prems(4)] by simp
  show ?case
  proof (cases "SelectedParent d")
    case None
    then have "past P r h = {}" using Suc.prems(1) topoD(4) [OF t topoD(8) [OF t]] by (auto simp: merges_def past_def)
    then show ?thesis using None Suc.prems(4) by (intro exI [of _ hs]) simp
  next
    case (Some s)
    have q: "\<And>q. q \<in> set (P h) \<Longrightarrow> q = s \<or> precedes st q s" using Suc.prems(2) Some by (auto simp: in_order_def)
    have sP: "s \<in> set (P h)" using Suc.prems(1) Some by (auto simp: merges_def)
    then have s: "s \<in> blocks st" using Suc.prems(3) by blast
    show ?thesis
    proof (cases "s = r")
      case True
      then have "past P r h = {}" using past_genesis [OF t Suc.prems(3)] q by blast
      then show ?thesis using Some True Suc.prems(4) by (intro exI [of _ hs]) simp
    next
      case sr: False
      obtain added hs1 where R: "tryPushWithGHOSTDAGData N (map (nodeOf st) hs) s (gdata st s) = Inr (added, map (nodeOf st) hs1)"
        "\<not> added \<longrightarrow> greatest st N (S \<union> past P r h) hs1"
        "added \<longrightarrow> (\<exists>b bs hs2 hs3. MergeSetBlues d = b # bs
         \<and> pushWhileAdded st N (map (nodeOf st) hs1) (rev bs) = Inr (map (nodeOf st) hs2)
         \<and> pushWhileAdded st N (map (nodeOf st) hs2) (rev (MergeSetReds d)) = Inr (map (nodeOf st) hs3)
         \<and> greatest st N (S \<union> insert s (merged P (P h) s)) hs3)"
        using window_round [OF g N Suc.prems(1-3) Some sr Suc.prems(4,5)] by blast
      show ?thesis
      proof (cases added)
        case False
        then show ?thesis using R(1,2) Some sr len topoD(3) [OF t s] by (intro exI [of _ hs1]) simp
      next
        case True
        then obtain b bs hs2 hs3 where H: "MergeSetBlues d = b # bs"
          "pushWhileAdded st N (map (nodeOf st) hs1) (rev bs) = Inr (map (nodeOf st) hs2)"
          "pushWhileAdded st N (map (nodeOf st) hs2) (rev (MergeSetReds d)) = Inr (map (nodeOf st) hs3)"
          "greatest st N (S \<union> insert s (merged P (P h) s)) hs3" using R(3) by blast
        note sp = past_split [OF t Suc.prems(3) sP sr] and D = ghost_okD(3,5) [OF g s]
        have dep: "depth P st s' < fuel" if "SelectedParent (gdata st s) = Some s'" for s'
          using depth_less [OF t s] mergesD(3,4) [OF t s D(1) that] Suc.prems(6) [OF Some] by fastforce
        have dis: "(S \<union> insert s (merged P (P h) s)) \<inter> past P r s = {}" using Suc.prems(5) sp by blast
        obtain hs' where "BlockWindow_loop (Suc fuel) st r N (gdata st s) (map (nodeOf st) hs3) = Inr (map (nodeOf st) hs')"
          "greatest st N ((S \<union> insert s (merged P (P h) s)) \<union> past P r s) hs'"
          using Suc.IH [OF D topoD(9) [OF t s] H(4) dis dep] by blast
        then show ?thesis using R(1) True H(1-3) Some sr len topoD(3) [OF t s] sp(1)
          by (intro exI [of _ hs']) (simp add: Un_assoc)
      qed
    qed
  qed
qed

text \<open>Staging the data of a block that is not yet in the DAG keeps the invariant.\<close>

lemma stageGhostdag_frame:
  "x \<noteq> B \<Longrightarrow> map_of (rm_ghostdag (reach (stageGhostdag st B d))) x = map_of (rm_ghostdag (reach st)) x"
  "map_of (rm_ghostdag (reach (stageGhostdag st B d))) B = Some d"
  "x \<noteq> B \<Longrightarrow> gdata (stageGhostdag st B d) x = gdata st x" "gdata (stageGhostdag st B d) B = d"
  "data_of (reach (stageGhostdag st B d)) = data_of (reach st)" "Parents (stageGhostdag st B d) x = Parents st x"
  by (simp_all add: stageGhostdag_def gdata_def data_of_def Parents_def BlockRelation_def)

lemma in_order_stage:
  assumes t: "topo P st r" and "B \<notin> blocks st" "merges P r h d'" "set (P h) \<subseteq> blocks st" "in_order P st h d'"
  shows "in_order P (stageGhostdag st B d) h d'"
proof (rule in_order_frame [OF assms(5) merges_blocks [OF t assms(3,4)] assms(4)])
  show "gdata (stageGhostdag st B d) x = gdata st x" if "x \<in> blocks st" for x
    by (rule stageGhostdag_frame(3)) (use that assms(2) in blast)
qed

lemma ghost_ok_stage:
  assumes g: "ghost_ok P st r" and B: "B \<notin> blocks st"
  shows "ghost_ok P (stageGhostdag st B d) r"
proof -
  note t = ghost_okD(1) [OF g]
  let ?st = "stageGhostdag st B d"
  have b: "blocks ?st = blocks st" "gk ?st = gk st" by (simp_all add: stageGhostdag_def data_of_def)
  have ne: "x \<noteq> B" if "x \<in> blocks st" for x using that B by blast
  have eq: "map_of (rm_ghostdag (reach ?st)) x = map_of (rm_ghostdag (reach st)) x" if "x \<in> blocks st" for x
    by (rule stageGhostdag_frame(1) [OF ne [OF that]])
  have gd: "gdata ?st x = gdata st x" if "x \<in> blocks st" for x by (rule stageGhostdag_frame(3) [OF ne [OF that]])
  have q: "gdata ?st q = gdata st q" if "x \<in> blocks st" "q \<in> set (P x)" for x q
    by (rule gd) (use topoD(9) [OF t that(1)] that(2) in blast)
  have "topo P ?st r"
    unfolding topo_def stageGhostdag_frame(5,6)
  proof (intro conjI ballI topoD(1) [OF t])
    fix x
    assume x: "x \<in> blocks st"
    show "Parents st x = Inr (P x)" "P x = [] \<longleftrightarrow> x = r" "map_of (rm_ghostdag (reach ?st)) x \<noteq> None"
      using topoD(2,4,6) [OF t x] eq [OF x] by auto
    show "work ?st p < work ?st x" if "p \<in> set (P x)" for p using topoD(5) [OF t x that] gd [OF x] q [OF x that] by simp
  qed
  moreover have "merges P r x (gdata ?st x) \<and> cluster P ?st (gdata ?st x) \<and> in_order P ?st x (gdata ?st x)"
    if x: "x \<in> blocks st" for x
  proof -
    note D = ghost_okD(3,4,5) [OF g x]
    have "chain_closed st (blocks st) (gdata st x)" using ghost_closed [OF g] mergesD(2) [OF t x D(1)] by blast
    then show ?thesis using D cluster_frame [OF eq _ b(2)] in_order_stage [OF t B D(1) topoD(9) [OF t x] D(3)] gd [OF x] by simp
  qed
  ultimately show ?thesis using ghost_okD(2) [OF g] unfolding ghost_ok_def b by blast
qed

section \<open>Property\<close>

text \<open>
  C10: block windows.  \<^verbatim>\<open>BlockWindow\<close>, which keeps a heap of bounded size and stops early, returns for a
  block with staged GHOSTDAG data the \<open>N\<close> greatest blocks of its past by blue work and hash, without
  repetition and without the genesis block, or the whole past if it is smaller.
\<close>

theorem block_window_exact:
  assumes "ghost_ok P st r" "ghostdagData (reach st) h = Inr d" "merges P r h d" "in_order P st h d"
    and "set (P h) \<subseteq> blocks st" "0 < N"
  shows "\<exists>w. BlockWindow st r h N = Inr w \<and> distinct w \<and> set w \<subseteq> past P r h \<and> length w = min N (card (past P r h))
    \<and> (\<forall>a \<in> past P r h - set w. \<forall>b \<in> set w. precedes st a b)"
proof -
  have dep: "depth P st s < dag_fuel st" for s by (rule depth_fuel [OF ghost_okD(1) [OF assms(1)]])
  obtain w where w: "BlockWindow_loop (Suc (dag_fuel st)) st r N d (map (nodeOf st) []) = Inr (map (nodeOf st) w)"
    "greatest st N ({} \<union> past P r h) w"
    using BlockWindow_loop_ok [OF assms(1,6,3-5) greatest_empty _ dep] by blast
  have "BlockWindow st r h N = Inr w" using w(1) assms(2) by (simp add: BlockWindow_def comp_def)
  then show ?thesis using greatestD [OF w(2)] by auto
qed

theorem block_window_exact_witness:
  "\<exists>st d w. SetParents forkDAG [3] [[2], [1]] = Inr st \<and> GHOSTDAG st [3] = Inr (stageGhostdag st [3] d)
     \<and> BlockWindow (stageGhostdag st [3] d) [0] [3] 5 = Inr w \<and> set w = {[1], [2]}"
proof -
  obtain st where s: "SetParents forkDAG [3] [[2], [1]] = Inr st" "ghost_ok forkParents st [0]"
    "insertable forkParents st [3]" "headers_ok st" using fork_insertable by blast
  note t = ghost_okD(1) [OF s(2)]
  obtain d where d: "GHOSTDAG st [3] = Inr (stageGhostdag st [3] d)" "in_order forkParents st [3] d" "merges forkParents [0] [3] d"
    using GHOSTDAG_ok [OF s(2-4)] by blast
  have i: "[3] \<notin> blocks st" "set (forkParents [3]) \<subseteq> blocks st" using s(3) by (auto simp: insertable_def)
  let ?st = "stageGhostdag st [3] d"
  have b: "blocks ?st = blocks st" by (simp add: stageGhostdag_frame)
  have p: "past forkParents [0] [3] = {[1], [2]}" by (auto simp: past_def fork_parents fork_anc)
  obtain w where "BlockWindow ?st [0] [3] 5 = Inr w" "distinct w" "set w \<subseteq> {[1], [2]}" "length w = min 5 (card {[1 :: byte], [2]})"
    using block_window_exact [OF ghost_ok_stage [OF s(2) i(1), of d] _ d(3) in_order_stage [OF t i(1) d(3) i(2) d(2)], of 5] i(2)
    unfolding b p by (auto simp: ghostdagData_def stageGhostdag_frame)
  moreover from this have "set w = {[1], [2]}"
    by (intro card_subset_eq) (simp_all add: distinct_card)
  ultimately show ?thesis using s(1) d(1) by blast
qed

end
