(* ===== verification/Consensus_Stores.thy ===== *)
theory Consensus_Stores
  imports Dag_Traversal
begin

text \<open>
  The stores that the validation of headers reads and stages besides those of the DAG, and the network
  parameters that the managers are created with.  As before, a store is what it returns through the
  staging area.
\<close>

datatype BlockStatus =
    StatusInvalid
  | StatusUTXOValid
  | StatusUTXOPendingVerification
  | StatusDisqualifiedFromChain
  | StatusHeaderOnly

record consensusStores =
  dag :: dagManagers
  daaScores :: "(DomainHash \<times> u64) list"
  daaAddedBlocks :: "(DomainHash \<times> DomainHash list) list"
  finalityPoints :: "(DomainHash \<times> DomainHash) list"
  statuses :: "(DomainHash \<times> BlockStatus) list"
  pruningPoint :: "DomainHash option"

text \<open>Durations are in milliseconds; \<open>int\<close> parameters that are sizes are natural numbers.\<close>

record consensusConfig =
  genesisHash :: DomainHash
  powMax :: int
  skipPoW :: bool
  difficultyAdjustmentWindowSize :: nat
  disableDifficultyAdjustment :: bool
  targetTimePerBlock :: int
  timestampDeviationTolerance :: nat
  finalityDepth :: u64
  mergeSetSizeLimit :: u64
  maxBlockParents :: KType

section \<open>Loops over slices\<close>

text \<open>Loops that collect results, keep some elements, or check every element.\<close>

primrec rmap :: "('a \<Rightarrow> ('e, 'b) result) \<Rightarrow> 'a list \<Rightarrow> ('e, 'b list) result" where
  "rmap f [] = Inr []"
| "rmap f (x # xs) = rbind (f x) (\<lambda>y. rbind (rmap f xs) (\<lambda>ys. Inr (y # ys)))"

primrec rfilter :: "('a \<Rightarrow> ('e, bool) result) \<Rightarrow> 'a list \<Rightarrow> ('e, 'a list) result" where
  "rfilter f [] = Inr []"
| "rfilter f (x # xs) = rbind (f x) (\<lambda>b. rbind (rfilter f xs) (\<lambda>ys. Inr (if b then x # ys else ys)))"

primrec rcheck :: "('a \<Rightarrow> ('e, unit) result) \<Rightarrow> 'a list \<Rightarrow> ('e, unit) result" where
  "rcheck f [] = Inr ()"
| "rcheck f (x # xs) = rbind (f x) (\<lambda>_. rcheck f xs)"

lemma rcheck_Inr_iff: "rcheck f xs = Inr u \<longleftrightarrow> (\<forall>x \<in> set xs. f x = Inr ())"
  by (induction xs) (auto simp: rbind_Inr_iff)

lemma rmap_ok: "(\<And>x. x \<in> set xs \<Longrightarrow> f x = Inr (g x)) \<Longrightarrow> rmap f xs = Inr (map g xs)"
  by (induction xs) auto

lemma rmap_Inr_iff: "rmap f xs = Inr ys \<longleftrightarrow> list_all2 (\<lambda>x y. f x = Inr y) xs ys"
  by (induction xs arbitrary: ys) (auto simp: rbind_Inr_iff list_all2_Cons1)

lemma rfilter_ok: "(\<And>x. x \<in> set xs \<Longrightarrow> f x = Inr (p x)) \<Longrightarrow> rfilter f xs = Inr (filter p xs)"
  by (induction xs) auto

lemma rfilter_Nil: "rfilter f xs = Inr [] \<longleftrightarrow> (\<forall>x \<in> set xs. f x = Inr False)"
  by (induction xs) (auto simp: rbind_Inr_iff split: if_splits)

lemma rcheck_if:
  assumes "\<And>x. x \<in> set xs \<Longrightarrow> g x = (if p x then Inr () else Inl e)"
  shows "rcheck g xs = (if \<forall>x \<in> set xs. p x then Inr () else Inl e)"
  using assms by (induction xs) auto

end
