(* ===== verification/Compact_Targets.thy ===== *)
theory Compact_Targets
  imports Difficulty
begin

text \<open>
  The compact representation of a target rounds it down, by less than one part in 32768.
\<close>

section \<open>The words of the compact representation\<close>

lemma compact_fields:
  fixes m :: u32
  assumes m: "take_bit 23 m = m" and e: "e < 256"
  defines "c \<equiv> push_bit 24 (word_of_nat e) OR m"
  shows "c AND 0x007fffff = m" "c AND 0x00800000 = 0" "unat (drop_bit 24 c) = e"
proof -
  have mb: "bit m k \<Longrightarrow> k < 23" for k using m by (metis bit_take_bit_iff)
  have eb: "bit (word_of_nat e :: u32) k \<Longrightarrow> k < 8" for k
  proof (rule ccontr)
    assume b: "bit (word_of_nat e :: u32) k" "\<not> k < 8"
    have "bit e k" using b(1) by (simp add: bit_of_nat_iff)
    moreover have "take_bit 8 e = e" using e by (simp add: take_bit_nat_eq_self_iff)
    ultimately show False using b(2) by (metis bit_take_bit_iff)
  qed
  have "c AND mask 23 = m"
    unfolding c_def by (rule bit_word_eqI) (use mb in \<open>auto simp: bit_simps\<close>)
  then show "c AND 0x007fffff = m" by (simp add: mask_eq_exp_minus_1)
  have "\<not> bit c 23" unfolding c_def using mb [of 23] by (auto simp: bit_simps)
  then have "c AND 2 ^ 23 = 0" by (rule and_exp_eq_0_iff_not_bit [THEN iffD2])
  then show "c AND 0x00800000 = 0" by simp
  have "\<not> bit m (24 + k)" for k using mb [of "24 + k"] by auto
  then have "drop_bit 24 c = word_of_nat e"
    unfolding c_def by (intro bit_word_eqI) (use eb in \<open>auto simp: bit_simps\<close>)
  then show "unat (drop_bit 24 c) = e" using e by (simp add: unat_of_nat take_bit_nat_eq_self_iff)
qed

lemma CompactToBig_fields:
  fixes m :: u32
  assumes "take_bit 23 m = m" "e < 256"
  shows "CompactToBig (push_bit 24 (word_of_nat e) OR m)
    = (if e \<le> 3 then uint (drop_bit (8 * (3 - e)) m) else uint m * 2 ^ (8 * (e - 3)))"
  unfolding CompactToBig_def CompactToBigWithDestination_def Let_def compact_fields [OF assms] by simp

lemma nat_bytes_bounds: "0 < n \<Longrightarrow> 0 < nat_bytes n \<and> 256 ^ (nat_bytes n - 1) \<le> n \<and> n < 256 ^ nat_bytes n"
proof (induction n rule: less_induct)
  case (less n)
  have b: "nat_bytes n = Suc (nat_bytes (n div 256))" using less.prems nat_bytes.simps [of n] by simp
  show ?case
  proof (cases "n div 256 = 0")
    case True
    then have "nat_bytes (n div 256) = 0" by (simp add: nat_bytes.simps)
    then show ?thesis using True less.prems b by (simp add: div_eq_0_iff)
  next
    case False
    then have "n div 256 < n" "0 < n div 256" using less.prems by auto
    from less.IH [OF this] have IH: "0 < nat_bytes (n div 256)" "256 ^ (nat_bytes (n div 256) - 1) \<le> n div 256"
      "n div 256 < 256 ^ nat_bytes (n div 256)" by auto
    have "256 ^ nat_bytes (n div 256) = 256 * 256 ^ (nat_bytes (n div 256) - 1)"
      using IH(1) by (simp flip: power_Suc)
    also have "\<dots> \<le> 256 * (n div 256)" using IH(2) by simp
    also have "\<dots> \<le> n" by simp
    finally have "256 ^ nat_bytes (n div 256) \<le> n" .
    moreover have "n < 256 * 256 ^ nat_bytes (n div 256)"
      using IH(3) by (simp add: less_mult_imp_div_less div_less_iff_less_mult mult.commute)
    ultimately show ?thesis using b by simp
  qed
qed

section \<open>The value of the compact representation\<close>

text \<open>The mantissa and the exponent that \<^verbatim>\<open>BigToCompact\<close> packs, as natural numbers.\<close>

definition mantissa :: "nat \<Rightarrow> nat" where
  "mantissa N = (if nat_bytes N \<le> 3 then N * 256 ^ (3 - nat_bytes N) else N div 256 ^ (nat_bytes N - 3))"

definition packed :: "nat \<Rightarrow> nat \<times> nat" where
  "packed N = (if mantissa N < 2 ^ 23 then (mantissa N, nat_bytes N) else (mantissa N div 256, Suc (nat_bytes N)))"

definition unpacked :: "nat \<times> nat \<Rightarrow> nat" where
  "unpacked p = (if snd p \<le> 3 then fst p div 256 ^ (3 - snd p) else fst p * 256 ^ (snd p - 3))"

lemma pow256: "(256 :: nat) ^ k = 2 ^ (8 * k)" "(256 :: int) ^ k = 2 ^ (8 * k)"
  by (simp_all add: power_mult)

lemma mantissa_less:
  assumes "0 < N"
  shows "mantissa N < 2 ^ 24"
proof -
  let ?e = "nat_bytes N"
  have N: "0 < ?e" "N < 256 ^ ?e" using nat_bytes_bounds [OF assms] by auto
  show ?thesis
  proof (cases "?e \<le> 3")
    case True
    have "N * 256 ^ (3 - ?e) < 256 ^ ?e * 256 ^ (3 - ?e)" using N(2) by simp
    also have "\<dots> = 256 ^ 3" using True by (simp flip: power_add)
    finally show ?thesis using True by (simp add: mantissa_def)
  next
    case False
    have "256 ^ ?e = 256 ^ 3 * (256 :: nat) ^ (?e - 3)" using False power_add [of "256 :: nat" 3 "?e - 3"] by simp
    then have "N div 256 ^ (?e - 3) < 256 ^ 3" using N(2) by (simp add: div_less_iff_less_mult)
    then show ?thesis using False by (simp add: mantissa_def)
  qed
qed

lemma packed_less: "0 < N \<Longrightarrow> fst (packed N) < 2 ^ 23"
  using mantissa_less [of N] by (auto simp: packed_def)

lemma high_bit:
  assumes "M < 2 ^ 24"
  shows "(word_of_nat M :: u32) AND 0x00800000 \<noteq> 0 \<longleftrightarrow> 2 ^ 23 \<le> M"
proof -
  have "(word_of_nat M :: u32) AND 2 ^ 23 = 0 \<longleftrightarrow> \<not> bit (word_of_nat M :: u32) 23" by (rule and_exp_eq_0_iff_not_bit)
  also have "bit (word_of_nat M :: u32) 23 \<longleftrightarrow> bit M 23" by (simp add: bit_of_nat_iff)
  also have "bit M 23 \<longleftrightarrow> odd (M div 2 ^ 23)" by (rule bit_iff_odd)
  also have "odd (M div 2 ^ 23) \<longleftrightarrow> 2 ^ 23 \<le> M"
  proof -
    have "M div 2 ^ 23 < 2" using assms by (simp add: div_less_iff_less_mult)
    then have "M div 2 ^ 23 = 0 \<or> M div 2 ^ 23 = 1" by auto
    then show ?thesis by (auto simp: div_eq_0_iff)
  qed
  finally show ?thesis by simp
qed

lemma BigToCompact_packed:
  assumes "0 < N"
  shows "BigToCompact (int N) = push_bit 24 (word_of_nat (snd (packed N))) OR word_of_nat (fst (packed N))"
proof -
  have q: "int N div 2 ^ k = int (N div 2 ^ k)" for k by (simp add: zdiv_int)
  have M: "(if nat_bytes N \<le> 3 then push_bit (8 * (3 - nat_bytes N)) (word_of_nat N :: u32)
            else word_of_nat (nat \<bar>int N div 2 ^ (8 * (nat_bytes N - 3))\<bar>)) = word_of_nat (mantissa N)"
    by (simp add: mantissa_def pow256 push_bit_eq_mult q)
  have d: "drop_bit 8 (word_of_nat (mantissa N) :: u32) = word_of_nat (mantissa N div 256)"
    using mantissa_less [OF assms]
    by (simp add: word_unat_eq_iff drop_bit_eq_div unat_div unat_of_nat)
  have a: "nat \<bar>int N\<bar> = N" by simp
  show ?thesis
    using assms high_bit [OF mantissa_less [OF assms]] unfolding BigToCompact_def Let_def a M
    by (auto simp: d packed_def)
qed

lemma CompactToBig_packed:
  assumes "0 < N" "nat_bytes N < 255"
  shows "CompactToBig (BigToCompact (int N)) = int (unpacked (packed N))"
proof -
  let ?m = "fst (packed N)" and ?e = "snd (packed N)"
  note l = packed_less [OF assms(1)]
  have um: "unat (word_of_nat ?m :: u32) = ?m" using l by (simp only: unat_of_nat) simp
  have u: "uint (word_of_nat ?m :: u32) = int ?m" by (simp only: uint_nat um)
  have tb: "take_bit 23 (word_of_nat ?m :: u32) = word_of_nat ?m"
    using l by (simp add: take_bit_of_nat take_bit_nat_eq_self)
  have e: "?e < 256" using assms(2) by (auto simp: packed_def)
  have "CompactToBig (BigToCompact (int N)) = (if ?e \<le> 3 then uint (drop_bit (8 * (3 - ?e)) (word_of_nat ?m :: u32))
      else uint (word_of_nat ?m :: u32) * 2 ^ (8 * (?e - 3)))"
    unfolding BigToCompact_packed [OF assms(1)] by (rule CompactToBig_fields [OF tb e])
  moreover have "uint (drop_bit k (word_of_nat ?m :: u32)) = int (?m div 2 ^ k)" for k
    unfolding uint_nat unat_drop_bit_eq um by (simp only: drop_bit_eq_div)
  ultimately show ?thesis by (simp add: unpacked_def pow256 u)
qed

lemma floor_bounds:
  fixes N c d :: nat
  assumes "0 < c" "c * d \<le> N" "0 < d"
  shows "N div c * c \<le> N" "d * (N - N div c * c) < N" "0 < N div c * c"
proof -
  show "N div c * c \<le> N" by simp
  have "c \<le> N" using assms by (metis dual_order.trans mult_le_mono2 nat_mult_1_right Suc_leI One_nat_def)
  then show "0 < N div c * c" using assms(1) by (simp add: div_greater_zero_iff)
  have "N - N div c * c = N mod c" by (simp add: minus_div_mult_eq_mod)
  also have "\<dots> < c" using assms(1) by simp
  finally have "d * (N - N div c * c) < d * c" using assms(3) by simp
  also have "\<dots> \<le> N" using assms(2) by (simp add: mult.commute)
  finally show "d * (N - N div c * c) < N" .
qed

text \<open>Rounding to a multiple of a power of 256 that is small against the number.\<close>

lemma unpacked_packed:
  assumes "0 < N"
  shows "\<exists>c. 0 < c \<and> unpacked (packed N) = N div c * c \<and> (c = 1 \<or> c * 2 ^ 15 \<le> N)"
proof -
  let ?e = "nat_bytes N"
  have N: "0 < ?e" "256 ^ (?e - 1) \<le> N" using nat_bytes_bounds [OF assms] by auto
  consider "?e = 1" | "?e = 2" | "?e = 3" | "4 \<le> ?e" using N(1) by linarith
  then show ?thesis
  proof cases
    case 4
    let ?c = "256 ^ (?e - 3) :: nat"
    have "?e - 1 = 2 + (?e - 3)" using 4 by simp
    then have "256 ^ (?e - 1) = 256 ^ 2 * ?c" by (simp only: power_add)
    then have c: "256 ^ (?e - 1) = 2 ^ 16 * ?c" by simp
    have M: "mantissa N = N div ?c" using 4 by (simp add: mantissa_def)
    show ?thesis
    proof (cases "mantissa N < 2 ^ 23")
      case True
      then have "unpacked (packed N) = N div ?c * ?c" using 4 M by (simp add: packed_def unpacked_def)
      moreover have "?c * 2 ^ 15 \<le> N" using N(2) c by simp
      ultimately show ?thesis by (intro exI [of _ ?c]) simp
    next
      case False
      have "Suc ?e - 3 = Suc (?e - 3)" using 4 by simp
      then have "unpacked (packed N) = N div (256 * ?c) * (256 * ?c)" using False 4 M
        by (simp add: packed_def unpacked_def div_mult2_eq [symmetric] mult.commute)
      moreover have "2 ^ 23 * ?c \<le> N"
      proof -
        have "2 ^ 23 * ?c \<le> N div ?c * ?c" using False M by (intro mult_right_mono) auto
        then show ?thesis using div_times_less_eq_dividend [of N ?c] by linarith
      qed
      then have "256 * ?c * 2 ^ 15 \<le> N" by simp
      ultimately show ?thesis by (intro exI [of _ "256 * ?c"]) simp
    qed
  next
    case 3
    then have M: "mantissa N = N" by (simp add: mantissa_def)
    show ?thesis
    proof (cases "N < 2 ^ 23")
      case True
      then show ?thesis using 3 M by (intro exI [of _ 1]) (simp add: packed_def unpacked_def)
    next
      case False
      then show ?thesis using 3 M by (intro exI [of _ 256]) (simp add: packed_def unpacked_def)
    qed
  qed (intro exI [of _ 1], simp add: packed_def unpacked_def mantissa_def)+
qed

lemma compact_bounds:
  assumes "0 < n" "n < 2 ^ 2024"
  shows "0 < CompactToBig (BigToCompact n) \<and> CompactToBig (BigToCompact n) \<le> n
    \<and> 2 ^ 15 * (n - CompactToBig (BigToCompact n)) < n"
proof -
  obtain N where N: "n = int N" "0 < N" using assms(1) by (metis pos_int_cases of_nat_0_less_iff)
  have "nat_bytes N < 255"
  proof (rule ccontr)
    assume "\<not> nat_bytes N < 255"
    then have "(256 :: nat) ^ 254 \<le> 256 ^ (nat_bytes N - 1)" by (intro power_increasing) auto
    then have "256 ^ 254 \<le> N" using nat_bytes_bounds [OF N(2)] by linarith
    then show False using assms(2) N(1) by (simp add: pow256)
  qed
  then have v: "CompactToBig (BigToCompact n) = int (unpacked (packed N))" using CompactToBig_packed N by simp
  obtain c where c: "0 < c" "unpacked (packed N) = N div c * c" "c = 1 \<or> c * 2 ^ 15 \<le> N"
    using unpacked_packed [OF N(2)] by (elim exE conjE) (rule that)
  show ?thesis
  proof (cases "c = 1")
    case True
    then show ?thesis using v c(2) N by simp
  next
    case False
    then have "c * 2 ^ 15 \<le> N" using c(3) by simp
    note b = floor_bounds [OF c(1) this zero_less_power [OF zero_less_numeral]]
    have "int (2 ^ 15 * (N - N div c * c)) < int N" using b(2) by (simp only: of_nat_less_iff)
    moreover have "int (N div c * c) \<le> int N" using b(1) by (simp only: of_nat_le_iff)
    ultimately show ?thesis unfolding v c(2) unfolding N(1) using b(1,3) by (simp add: of_nat_diff)
  qed
qed

section \<open>Property\<close>

text \<open>
  C39: the compact representation of a positive target below \<open>2 ^ 2024\<close> decodes to a positive target
  that is not above it, and the rounding loses less than one part in \<open>2 ^ 15\<close>.
\<close>

theorem compact_rounds_down:
  assumes "0 < n" "n < 2 ^ 2024"
  shows "0 < CompactToBig (BigToCompact n) \<and> CompactToBig (BigToCompact n) \<le> n
    \<and> 2 ^ 15 * (n - CompactToBig (BigToCompact n)) < n"
  by (rule compact_bounds [OF assms])

theorem compact_rounds_down_witness:
  "CompactToBig (BigToCompact (2 ^ 255 - 1)) \<le> 2 ^ 255 - 1 \<and> 0 < CompactToBig (BigToCompact (2 ^ 255 - 1))"
  using compact_rounds_down [of "2 ^ 255 - 1"] by simp

end
