(* ===== verification/Difficulty_Manager.thy ===== *)
theory Difficulty_Manager
  imports Consensus_Stores Compact_Targets
begin

text \<open>
  \<^verbatim>\<open>processes/difficultymanager\<close>: the target that the window of a block requires
  (\<^verbatim>\<open>difficultymanager.go\<close>, \<^verbatim>\<open>blockwindow.go\<close>) and the DAA score of the block.  Timestamps are signed
  64-bit integers, targets unbounded ones.
\<close>

section \<open>blockwindow.go\<close>

record difficultyBlock =
  db_timeInMilliseconds :: int
  db_Bits :: u32

definition getDifficultyBlock :: "dagManagers \<Rightarrow> DomainHash \<Rightarrow> (dag_error, difficultyBlock) result" where
  "getDifficultyBlock st blockHash =
     rbind (headerOf st blockHash) (\<lambda>header.
       Inr \<lparr>db_timeInMilliseconds = timeInMilliseconds header, db_Bits = bits header\<rparr>)"

definition blockWindow :: "consensusConfig \<Rightarrow> dagManagers \<Rightarrow> DomainHash \<Rightarrow> nat
     \<Rightarrow> (dag_error, difficultyBlock list \<times> DomainHash list) result" where
  "blockWindow cfg st startingNode windowSize =
     rbind (BlockWindow st (genesisHash cfg) startingNode windowSize) (\<lambda>windowHashes.
     rbind (rmap (getDifficultyBlock st) windowHashes) (\<lambda>window. Inr (window, windowHashes)))"

definition MaxInt64 :: int where
  "MaxInt64 = 2 ^ 63 - 1"

text \<open>The loop of \<^verbatim>\<open>minMaxTimestamps\<close> at index \<open>i\<close>; the index of the maximum is not used.\<close>

primrec minMax_from :: "int \<Rightarrow> difficultyBlock list \<Rightarrow> int \<times> int \<times> int \<times> int \<Rightarrow> int \<times> int \<times> int \<times> int" where
  "minMax_from i [] acc = acc"
| "minMax_from i (block # window) acc =
     (case acc of (min', max', minIndex, maxIndex) \<Rightarrow>
        let (min', minIndex) = (if db_timeInMilliseconds block < min' then (db_timeInMilliseconds block, i) else (min', minIndex));
            (max', maxIndex) = (if db_timeInMilliseconds block > max' then (db_timeInMilliseconds block, i) else (max', maxIndex))
        in minMax_from (i + 1) window (min', max', minIndex, maxIndex))"

definition minMaxTimestamps :: "difficultyBlock list \<Rightarrow> int \<times> int \<times> int \<times> int" where
  "minMaxTimestamps window = minMax_from 0 window (MaxInt64, 0, MaxInt64, 0)"

definition window_remove :: "difficultyBlock list \<Rightarrow> int \<Rightarrow> (dag_error, difficultyBlock list) result" where
  "window_remove window n = (if n < int (length window) then Inr (butlast (window[nat n := last window])) else Inl Panic)"

definition averageTarget :: "difficultyBlock list \<Rightarrow> (dag_error, int) result" where
  "averageTarget window =
     (if window = [] then Inl Panic
      else Inr ((\<Sum>block\<leftarrow>window. CompactToBigWithDestination (db_Bits block)) div int (length window)))"

section \<open>difficultymanager.go\<close>

text \<open>\<^verbatim>\<open>big.Int.Div\<close> is Euclidean division; the divisor is not 0.\<close>

definition big_Div :: "int \<Rightarrow> int \<Rightarrow> int" where
  "big_Div x y = (if y < 0 then - (x div - y) else x div y)"

definition genesisBits :: "consensusConfig \<Rightarrow> dagManagers \<Rightarrow> (dag_error, u32) result" where
  "genesisBits cfg st = rbind (headerOf st (genesisHash cfg)) (\<lambda>header. Inr (bits header))"

definition requiredDifficultyFromTargetsWindow ::
    "consensusConfig \<Rightarrow> dagManagers \<Rightarrow> difficultyBlock list \<Rightarrow> (dag_error, u32) result" where
  "requiredDifficultyFromTargetsWindow cfg st targetsWindow =
     (if disableDifficultyAdjustment cfg then genesisBits cfg st
      else if length targetsWindow < 2 then genesisBits cfg st
      else case minMaxTimestamps targetsWindow of (windowMinTimestamp, windowMaxTimeStamp, windowsMinIndex, _) \<Rightarrow>
           rbind (window_remove targetsWindow windowsMinIndex) (\<lambda>targetsWindow'.
           rbind (averageTarget targetsWindow') (\<lambda>average.
             if targetTimePerBlock cfg = 0 then Inl Panic
             else let newTarget = big_Div (big_Div (average * max (i64 (windowMaxTimeStamp - windowMinTimestamp)) 1) (targetTimePerBlock cfg))
                                    (int (length targetsWindow'))
                  in if newTarget > powMax cfg then Inr (BigToCompact (powMax cfg))
                     else Inr (BigToCompact newTarget))))"

text \<open>The hashes of the window that are in the merge set; the loop stops when all of it is found.\<close>

primrec daaAdded :: "DomainHash list \<Rightarrow> DomainHash list \<Rightarrow> DomainHash list \<Rightarrow> DomainHash list" where
  "daaAdded mergeSet added [] = added"
| "daaAdded mergeSet added (hash # windowHashes) =
     (if hash \<in> set mergeSet
      then let added' = added @ [hash]
           in if length added' = card (set mergeSet) then added' else daaAdded mergeSet added' windowHashes
      else daaAdded mergeSet added windowHashes)"

definition calculateDaaScoreAndAddedBlocks :: "consensusConfig \<Rightarrow> consensusStores \<Rightarrow> DomainHash \<Rightarrow> DomainHash list
     \<Rightarrow> (dag_error, u64 \<times> DomainHash list) result" where
  "calculateDaaScoreAndAddedBlocks cfg cs blockHash windowHashes =
     (if blockHash = genesisHash cfg then Inr (0, [])
      else rbind (ghostdagData (reach (dag cs)) blockHash) (\<lambda>data'.
             let added = daaAdded (MergeSet data') [] windowHashes
             in rbind (deref (SelectedParent data')) (\<lambda>selectedParent.
                  case map_of (daaScores cs) selectedParent of
                    None \<Rightarrow> Inl (Err NotFound)
                  | Some selectedParentDAAScore \<Rightarrow> Inr (selectedParentDAAScore + of_nat (length added), added))))"

definition stageDAAScoreAndAddedBlocks :: "consensusConfig \<Rightarrow> consensusStores \<Rightarrow> DomainHash \<Rightarrow> DomainHash list
     \<Rightarrow> (dag_error, consensusStores) result" where
  "stageDAAScoreAndAddedBlocks cfg cs blockHash windowHashes =
     rbind (calculateDaaScoreAndAddedBlocks cfg cs blockHash windowHashes) (\<lambda>(daaScore, addedBlocks).
       Inr (cs\<lparr>daaScores := AList.update blockHash daaScore (daaScores cs),
               daaAddedBlocks := AList.update blockHash addedBlocks (daaAddedBlocks cs)\<rparr>))"

definition StageDAADataAndReturnRequiredDifficulty :: "consensusConfig \<Rightarrow> consensusStores \<Rightarrow> DomainHash
     \<Rightarrow> (dag_error, u32 \<times> consensusStores) result" where
  "StageDAADataAndReturnRequiredDifficulty cfg cs blockHash =
     rbind (blockWindow cfg (dag cs) blockHash (difficultyAdjustmentWindowSize cfg + 1)) (\<lambda>(targetsWindow, windowHashes).
     rbind (stageDAAScoreAndAddedBlocks cfg cs blockHash windowHashes) (\<lambda>cs'.
     rbind (requiredDifficultyFromTargetsWindow cfg (dag cs') targetsWindow) (\<lambda>required. Inr (required, cs'))))"

definition RequiredDifficulty :: "consensusConfig \<Rightarrow> dagManagers \<Rightarrow> DomainHash \<Rightarrow> (dag_error, u32) result" where
  "RequiredDifficulty cfg st blockHash =
     rbind (blockWindow cfg st blockHash (difficultyAdjustmentWindowSize cfg + 1)) (\<lambda>(targetsWindow, _).
       requiredDifficultyFromTargetsWindow cfg st targetsWindow)"

end
