(* ===== verification/Difficulty_Theorems.thy ===== *)
theory Difficulty_Theorems
  imports Difficulty_Manager "HOL-Library.Multiset"
begin

text \<open>
  The required difficulty of a window: its minimum and maximum time, the window without its earliest block,
  and the new target.
\<close>

section \<open>The required difficulty\<close>

lemma minMax_from_ok:
  "\<exists>mi' Mi'. minMax_from i w (mn, mx, mi, Mi)
      = (Min (insert mn (db_timeInMilliseconds ` set w)), Max (insert mx (db_timeInMilliseconds ` set w)), mi', Mi')
    \<and> (mi' = mi \<and> mn = Min (insert mn (db_timeInMilliseconds ` set w))
       \<or> (\<exists>k < length w. mi' = i + int k \<and> db_timeInMilliseconds (w ! k) = Min (insert mn (db_timeInMilliseconds ` set w))))"
proof (induction w arbitrary: i mn mx mi Mi)
  case (Cons b w)
  let ?t = "db_timeInMilliseconds b" and ?T = "db_timeInMilliseconds ` set w"
  define mn2 where "mn2 = min mn ?t"
  define mx2 where "mx2 = max mx ?t"
  define mi2 where "mi2 = (if ?t < mn then i else mi)"
  define Mi2 where "Mi2 = (if ?t > mx then i else Mi)"
  have step: "minMax_from i (b # w) (mn, mx, mi, Mi) = minMax_from (i + 1) w (mn2, mx2, mi2, Mi2)"
    by (auto simp: mn2_def mx2_def mi2_def Mi2_def min_def max_def)
  have m: "Min (insert mn (db_timeInMilliseconds ` set (b # w))) = Min (insert mn2 ?T)"
    "Max (insert mx (db_timeInMilliseconds ` set (b # w))) = Max (insert mx2 ?T)"
    by (cases "?T = {}"; simp add: mn2_def mx2_def ac_simps)+
  obtain mi' Mi' where r: "minMax_from (i + 1) w (mn2, mx2, mi2, Mi2) = (Min (insert mn2 ?T), Max (insert mx2 ?T), mi', Mi')"
    and k: "mi' = mi2 \<and> mn2 = Min (insert mn2 ?T) \<or> (\<exists>k < length w. mi' = (i + 1) + int k \<and> db_timeInMilliseconds (w ! k) = Min (insert mn2 ?T))"
    using Cons.IH [of "i + 1" mn2 mx2 mi2 Mi2] by (elim exE conjE) (rule that)
  from k have "mi' = mi \<and> mn = Min (insert mn2 ?T)
       \<or> (\<exists>k < length (b # w). mi' = i + int k \<and> db_timeInMilliseconds ((b # w) ! k) = Min (insert mn2 ?T))"
  proof (elim disjE exE conjE)
    assume "mi' = mi2" "mn2 = Min (insert mn2 ?T)"
    then show ?thesis by (cases "?t < mn") (auto simp: mi2_def mn2_def intro: exI [of _ 0])
  next
    fix k
    assume "k < length w" "mi' = (i + 1) + int k" "db_timeInMilliseconds (w ! k) = Min (insert mn2 ?T)"
    then show ?thesis by (intro disjI2 exI [of _ "Suc k"]) simp
  qed
  then show ?case unfolding step r m by (intro exI [of _ mi'] exI [of _ Mi'] conjI refl)
qed simp

lemma window_remove_ok:
  assumes "k < length w"
  shows "\<exists>rest. window_remove w (int k) = Inr rest \<and> add_mset (w ! k) (mset rest) = mset w"
proof -
  define v where "v = w[k := last w]"
  have w: "w \<noteq> []" using assms by auto
  have "last v = last w" using w assms by (simp add: v_def last_list_update)
  then have "mset v = add_mset (last w) (mset (butlast v))"
    using w append_butlast_last_id [of v] by (metis v_def list_update_nonempty mset_append mset.simps add_mset_add_single)
  moreover have "mset v = add_mset (last w) (mset w - {#w ! k#})" unfolding v_def using assms by (simp add: mset_update)
  ultimately have "mset (butlast v) = mset w - {#w ! k#}" by simp
  then have "add_mset (w ! k) (mset (butlast v)) = mset w" using assms by simp
  then show ?thesis using assms by (simp add: window_remove_def v_def)
qed

lemma sum_list_mset: "(\<Sum>x\<leftarrow>xs. f x) = (\<Sum>x\<in>#mset xs. f x)" for f :: "'a \<Rightarrow> int"
  by (induction xs) simp_all

text \<open>The target of a window without its block \<open>k\<close>.\<close>

definition retarget :: "consensusConfig \<Rightarrow> difficultyBlock list \<Rightarrow> nat \<Rightarrow> int" where
  "retarget cfg w k =
     ((\<Sum>b\<leftarrow>w. CompactToBig (db_Bits b)) - CompactToBig (db_Bits (w ! k))) div (int (length w) - 1)
       * max (Max (db_timeInMilliseconds ` set w) - Min (db_timeInMilliseconds ` set w)) 1
       div targetTimePerBlock cfg div (int (length w) - 1)"

lemma requiredDifficulty_retarget:
  assumes on: "\<not> disableDifficultyAdjustment cfg" and two: "2 \<le> length w" and t: "0 < targetTimePerBlock cfg"
    and ts: "\<And>b. b \<in> set w \<Longrightarrow> 0 \<le> db_timeInMilliseconds b \<and> db_timeInMilliseconds b < MaxInt64"
  shows "\<exists>k < length w. db_timeInMilliseconds (w ! k) = Min (db_timeInMilliseconds ` set w)
    \<and> requiredDifficultyFromTargetsWindow cfg st w = Inr (BigToCompact (min (powMax cfg) (retarget cfg w k)))"
proof -
  let ?T = "db_timeInMilliseconds ` set w"
  have w: "?T \<noteq> {}" "finite ?T" using two by auto
  have i: "Min ?T \<in> ?T" "Max ?T \<in> ?T" using w by auto
  have b: "0 \<le> Min ?T" "Min ?T < MaxInt64" "0 \<le> Max ?T" "Max ?T < MaxInt64" using i ts by (auto simp del: Min_in Max_in)
  have mm: "Min (insert MaxInt64 ?T) = Min ?T" "Max (insert 0 ?T) = Max ?T" 
    using b by (simp_all only: Min_insert [OF w(2,1)] Max_insert [OF w(2,1)] min_def max_def) simp_all
  obtain mi Mi where r: "minMaxTimestamps w = (Min ?T, Max ?T, mi, Mi)"
    and k: "mi = MaxInt64 \<and> MaxInt64 = Min ?T \<or> (\<exists>k < length w. mi = 0 + int k \<and> db_timeInMilliseconds (w ! k) = Min ?T)"
    using minMax_from_ok [of 0 w MaxInt64 0 MaxInt64 0, folded minMaxTimestamps_def, unfolded mm]
    by (elim exE conjE) (rule that)
  then obtain k where k: "k < length w" "mi = int k" "db_timeInMilliseconds (w ! k) = Min ?T" using b(2) by auto
  obtain rest where rest: "window_remove w (int k) = Inr rest" "add_mset (w ! k) (mset rest) = mset w"
    using window_remove_ok [OF k(1)] by blast
  have l: "Suc (length rest) = length w" using arg_cong [OF rest(2), of size] by simp
  have ne: "rest \<noteq> []" "int (length rest) = int (length w) - 1" using l two by auto
  have sm: "(\<Sum>b\<leftarrow>rest. CompactToBigWithDestination (db_Bits b)) = (\<Sum>b\<leftarrow>w. CompactToBig (db_Bits b)) - CompactToBig (db_Bits (w ! k))"
    unfolding sum_list_mset [of _ w] rest(2) [symmetric] by (simp add: sum_list_mset CompactToBig_def)
  have i64: "i64 (Max ?T - Min ?T) = Max ?T - Min ?T" using b by (intro i64_id) (simp_all add: MaxInt64_def)
  have "requiredDifficultyFromTargetsWindow cfg st w
      = (if retarget cfg w k > powMax cfg then Inr (BigToCompact (powMax cfg)) else Inr (BigToCompact (retarget cfg w k)))"
    unfolding requiredDifficultyFromTargetsWindow_def r k(2) prod.case rest(1) using on two t ne
    by (simp add: averageTarget_def sm i64 retarget_def Let_def big_Div_def)
  then show ?thesis using k(1,3) by (intro exI [of _ k]) (simp add: min_def)
qed

lemma retarget_nonneg:
  assumes "2 \<le> length w" "k < length w" "0 < targetTimePerBlock cfg" "\<And>b. b \<in> set w \<Longrightarrow> 0 \<le> CompactToBig (db_Bits b)"
  shows "0 \<le> retarget cfg w k"
proof -
  have "CompactToBig (db_Bits (w ! k)) \<le> (\<Sum>b\<leftarrow>w. CompactToBig (db_Bits b))"
    using assms(2,4) by (intro member_le_sum_list) auto
  then show ?thesis unfolding retarget_def using assms(1,3) by (auto simp: pos_imp_zdiv_nonneg_iff intro!: mult_nonneg_nonneg)
qed

text \<open>
  C19: The required difficulty of a window of at least two blocks is the average target of the window without
  its earliest block, scaled by the time the window spans against the time it should span, never above the
  easiest target of the network, in its compact representation; the target that the compact representation
  stands for is not above the easiest one either.
\<close>

theorem required_difficulty:
  assumes "\<not> disableDifficultyAdjustment cfg" "2 \<le> length w" "0 < targetTimePerBlock cfg" "0 \<le> powMax cfg" "powMax cfg < 2 ^ 256"
    and "\<forall>b \<in> set w. 0 \<le> db_timeInMilliseconds b \<and> db_timeInMilliseconds b < MaxInt64 \<and> 0 \<le> CompactToBig (db_Bits b)"
  shows "\<exists>k < length w. \<exists>required. db_timeInMilliseconds (w ! k) = Min (db_timeInMilliseconds ` set w)
    \<and> requiredDifficultyFromTargetsWindow cfg st w = Inr required
    \<and> required = BigToCompact (min (powMax cfg) (retarget cfg w k))
    \<and> 0 \<le> CompactToBig required \<and> CompactToBig required \<le> powMax cfg"
proof -
  obtain k where k: "k < length w" "db_timeInMilliseconds (w ! k) = Min (db_timeInMilliseconds ` set w)"
    "requiredDifficultyFromTargetsWindow cfg st w = Inr (BigToCompact (min (powMax cfg) (retarget cfg w k)))"
    using requiredDifficulty_retarget [OF assms(1-3)] assms(6) by blast
  define n where "n = min (powMax cfg) (retarget cfg w k)"
  have n: "0 \<le> n" "n \<le> powMax cfg"
    using retarget_nonneg [OF assms(2) k(1) assms(3)] assms(4,6) by (simp_all add: n_def)
  have "(2 :: int) ^ 256 < 2 ^ 2024" by (intro power_strict_increasing) simp_all
  then have "n < 2 ^ 2024" using n(2) assms(5) by (meson le_less_trans less_trans)
  then have p: "0 < n \<Longrightarrow> 0 < CompactToBig (BigToCompact n) \<and> CompactToBig (BigToCompact n) \<le> n"
    using compact_bounds [of n] by blast
  have "CompactToBig (BigToCompact 0) = 0" by code_simp
  then have "0 \<le> CompactToBig (BigToCompact n) \<and> CompactToBig (BigToCompact n) \<le> n" using p n(1) by (cases "n = 0") auto
  then have "0 \<le> CompactToBig (BigToCompact n)" "CompactToBig (BigToCompact n) \<le> powMax cfg" using n(2) by linarith+
  then show ?thesis using k unfolding n_def by blast
qed

theorem required_difficulty_witness:
  "\<exists>required. requiredDifficultyFromTargetsWindow
      \<lparr>genesisHash = [0], powMax = 2 ^ 255 - 1, skipPoW = False, difficultyAdjustmentWindowSize = 10,
       disableDifficultyAdjustment = False, targetTimePerBlock = 1000, timestampDeviationTolerance = 5,
       finalityDepth = 100, mergeSetSizeLimit = 50, maxBlockParents = 10\<rparr> forkDAG
      [\<lparr>db_timeInMilliseconds = 3000, db_Bits = 0x1d00ffff\<rparr>, \<lparr>db_timeInMilliseconds = 1000, db_Bits = 0x1d00ffff\<rparr>] = Inr required
    \<and> 0 \<le> CompactToBig required \<and> CompactToBig required \<le> 2 ^ 255 - 1"
proof -
  let ?cfg = "\<lparr>genesisHash = [0], powMax = 2 ^ 255 - 1, skipPoW = False, difficultyAdjustmentWindowSize = 10,
       disableDifficultyAdjustment = False, targetTimePerBlock = 1000, timestampDeviationTolerance = 5,
       finalityDepth = 100, mergeSetSizeLimit = 50, maxBlockParents = 10\<rparr>"
  have "CompactToBig 0x1d00ffff \<ge> 0" by code_simp
  then show ?thesis
    using required_difficulty [of ?cfg "[\<lparr>db_timeInMilliseconds = 3000, db_Bits = 0x1d00ffff\<rparr>,
      \<lparr>db_timeInMilliseconds = 1000, db_Bits = 0x1d00ffff\<rparr>]" forkDAG]
    by (auto simp: MaxInt64_def)
qed

end
