(* ===== verification/Merge_Depth.thy ===== *)
theory Merge_Depth
  imports Consensus_Stores
begin

text \<open>
  \<^verbatim>\<open>processes/finalitymanager\<close> and \<^verbatim>\<open>processes/mergedepthmanager\<close>: the finality point of a block and the
  bounded merge depth rule.
\<close>

section \<open>finality\_manager.go\<close>

primrec finalityPoint_loop :: "nat \<Rightarrow> dagManagers \<Rightarrow> DomainHash \<Rightarrow> u64 \<Rightarrow> DomainHash \<Rightarrow> (dag_error, DomainHash) result" where
  "finalityPoint_loop 0 st blockHash requiredBlueScore current = Inl (Err NoFuel)"
| "finalityPoint_loop (Suc fuel) st blockHash requiredBlueScore current =
     rbind (ChildInSelectedParentChainOf st current blockHash) (\<lambda>next'.
     rbind (ghostdagData (reach st) next') (\<lambda>nextGHOSTDAGData.
       if BlueScore nextGHOSTDAGData \<ge> requiredBlueScore then Inr current
       else finalityPoint_loop fuel st blockHash requiredBlueScore next'))"

definition storedFinalityPoint :: "consensusStores \<Rightarrow> DomainHash \<Rightarrow> (dag_error, DomainHash) result" where
  "storedFinalityPoint cs blockHash =
     (case map_of (finalityPoints cs) blockHash of None \<Rightarrow> Inl (Err NotFound) | Some p \<Rightarrow> Inr p)"

definition calculateFinalityPoint :: "consensusConfig \<Rightarrow> consensusStores \<Rightarrow> DomainHash \<Rightarrow> (dag_error, DomainHash) result" where
  "calculateFinalityPoint cfg cs blockHash =
     rbind (ghostdagData (reach (dag cs)) blockHash) (\<lambda>data'.
       if BlueScore data' < finalityDepth cfg then Inr (genesisHash cfg)
       else if SelectedParent data' = Some (genesisHash cfg) then Inr (genesisHash cfg)
       else rbind (deref (SelectedParent data')) (\<lambda>selectedParent.
            rbind (storedFinalityPoint cs selectedParent) (\<lambda>current.
              finalityPoint_loop (Suc (dag_fuel (dag cs))) (dag cs) blockHash (BlueScore data' - finalityDepth cfg) current)))"

text \<open>\<^verbatim>\<open>FinalityPoint\<close> of a block that is not in the store calculates it and stages it.\<close>

definition FinalityPoint :: "consensusConfig \<Rightarrow> consensusStores \<Rightarrow> DomainHash
     \<Rightarrow> (dag_error, DomainHash \<times> consensusStores) result" where
  "FinalityPoint cfg cs blockHash =
     (if blockHash = VirtualBlockHash
      then rbind (calculateFinalityPoint cfg cs VirtualBlockHash) (\<lambda>p. Inr (p, cs))
      else case storedFinalityPoint cs blockHash of
             Inr p \<Rightarrow> Inr (p, cs)
           | Inl (Err NotFound) \<Rightarrow>
               rbind (calculateFinalityPoint cfg cs blockHash) (\<lambda>p.
                 Inr (p, cs\<lparr>finalityPoints := AList.update blockHash p (finalityPoints cs)\<rparr>))
           | Inl e \<Rightarrow> Inl e)"

section \<open>merge\_depth\_manager.go\<close>

definition NonBoundedMergeDepthViolatingBlues :: "consensusConfig \<Rightarrow> consensusStores \<Rightarrow> DomainHash
     \<Rightarrow> (dag_error, DomainHash list \<times> consensusStores) result" where
  "NonBoundedMergeDepthViolatingBlues cfg cs blockHash =
     rbind (ghostdagData (reach (dag cs)) blockHash) (\<lambda>data'.
     rbind (FinalityPoint cfg cs blockHash) (\<lambda>(finalityPoint, cs').
     rbind (rfilter (\<lambda>blue. IsInSelectedParentChainOf (dag cs') finalityPoint blue) (MergeSetBlues data')) (\<lambda>blues.
       Inr (blues, cs'))))"

definition CheckBoundedMergeDepth :: "consensusConfig \<Rightarrow> consensusStores \<Rightarrow> DomainHash
     \<Rightarrow> (dag_error, consensusStores) result" where
  "CheckBoundedMergeDepth cfg cs blockHash =
     rbind (NonBoundedMergeDepthViolatingBlues cfg cs blockHash) (\<lambda>(blues, cs1).
     rbind (ghostdagData (reach (dag cs1)) blockHash) (\<lambda>data'.
       if SelectedParent data' = None then Inr cs1
       else rbind (FinalityPoint cfg cs1 blockHash) (\<lambda>(finalityPoint, cs2).
            rbind (rcheck (\<lambda>red.
                     rbind (IsAncestorOf (dag cs2) finalityPoint red) (\<lambda>doesRedHaveFinalityPointInPast.
                       if doesRedHaveFinalityPointInPast then Inr ()
                       else rbind (IsAncestorOfAny (dag cs2) red blues) (\<lambda>isRedInPastOfAnyNonFinalityViolatingBlue.
                              if \<not> isRedInPastOfAnyNonFinalityViolatingBlue
                              then Inl (Err (RuleError ErrViolatingBoundedMergeDepth)) else Inr ())))
                    (MergeSetReds data')) (\<lambda>_. Inr cs2))))"

end
