(* ===== verification/Past_Median_Time.thy ===== *)
theory Past_Median_Time
  imports Consensus_Stores
begin

text \<open>
  \<^verbatim>\<open>processes/pastmediantimemanager\<close>: the median of the timestamps in the window of a block.
  \<^verbatim>\<open>sort.Sort\<close> of integers is \<^const>\<open>sort\<close>.
\<close>

definition windowMedianTimestamp :: "dagManagers \<Rightarrow> DomainHash list \<Rightarrow> (dag_error, int) result" where
  "windowMedianTimestamp st window =
     (if length window = 0 then Inl (Err EmptyBlockWindow)
      else rbind (rmap (\<lambda>blockHash. rbind (headerOf st blockHash) (\<lambda>header. Inr (timeInMilliseconds header))) window)
             (\<lambda>timestamps. Inr (sort timestamps ! (length timestamps div 2))))"

text \<open>
  With a tolerance of 0 the size of the window is negative; \<^verbatim>\<open>BlockWindow\<close> looks the block up and then panics,
  since a slice cannot be made with a negative capacity.
\<close>

definition PastMedianTime :: "consensusConfig \<Rightarrow> dagManagers \<Rightarrow> DomainHash \<Rightarrow> (dag_error, int) result" where
  "PastMedianTime cfg st blockHash =
     (if timestampDeviationTolerance cfg = 0 then rbind (ghostdagData (reach st) blockHash) (\<lambda>_. Inl Panic)
      else rbind (BlockWindow st (genesisHash cfg) blockHash (2 * timestampDeviationTolerance cfg - 1)) (\<lambda>window.
             if length window = 0
             then rbind (headerOf st (genesisHash cfg)) (\<lambda>header. Inr (timeInMilliseconds header))
             else windowMedianTimestamp st window))"

end
