(* ===== verification/Header_Validation.thy ===== *)
theory Header_Validation
  imports Merge_Depth Past_Median_Time Difficulty_Manager
begin

text \<open>
  \<^verbatim>\<open>processes/blockvalidator\<close>: the validation of a block header in isolation, up to the proof of work
  and the difficulty, and in context; with the proof of work of \<^verbatim>\<open>utils/pow\<close>.  \<open>now\<close> is the time of the
  clock.  The header has been staged by the block processor before the validation starts.
\<close>

section \<open>pow.go\<close>

definition toBig :: "DomainHash \<Rightarrow> int" where
  "toBig hash = foldl (\<lambda>n b. 256 * n + uint b) 0 (rev hash)"

definition calcPowValue :: "hash_functions \<Rightarrow> BlockHeader \<Rightarrow> int" where
  "calcPowValue H header =
     (let prePowHash = HeaderHash H (header\<lparr>timeInMilliseconds := 0, nonce := 0\<rparr>);
          writer = InfallibleWrite (NewPoWHashWriter H) prePowHash;
          writer = InfallibleWrite writer (WriteElement [] (EInt64 (timeInMilliseconds header)));
          writer = InfallibleWrite writer (replicate 32 0);
          writer = InfallibleWrite writer (WriteElement [] (EUint64 (nonce header)))
      in toBig (Finalize writer))"

definition CheckProofOfWorkWithTarget :: "hash_functions \<Rightarrow> BlockHeader \<Rightarrow> int \<Rightarrow> bool" where
  "CheckProofOfWorkWithTarget H header target = (calcPowValue H header \<le> target)"

section \<open>block\_header\_in\_isolation.go\<close>

definition MaxBlockVersion :: u16 where
  "MaxBlockVersion = 0"

definition checkBlockVersion :: "BlockHeader \<Rightarrow> (dag_error, unit) result" where
  "checkBlockVersion header =
     (if bh_version header > MaxBlockVersion then Inl (Err (RuleError ErrBlockVersionIsUnknown)) else Inr ())"

definition checkBlockTimestampInIsolation :: "consensusConfig \<Rightarrow> int \<Rightarrow> BlockHeader \<Rightarrow> (dag_error, unit) result" where
  "checkBlockTimestampInIsolation cfg now header =
     (let maxCurrentTime = i64 (now + i64 (int (timestampDeviationTolerance cfg) * targetTimePerBlock cfg))
      in if timeInMilliseconds header > maxCurrentTime then Inl (Err (RuleError ErrTimeTooMuchInTheFuture)) else Inr ())"

definition checkParentsLimit :: "hash_functions \<Rightarrow> consensusConfig \<Rightarrow> BlockHeader \<Rightarrow> (dag_error, unit) result" where
  "checkParentsLimit H cfg header =
     (let hash = HeaderHash H header
      in if length (parentHashes header) = 0 \<and> hash \<noteq> genesisHash cfg then Inl (Err (RuleError ErrNoParents))
         else if length (parentHashes header) > unat (maxBlockParents cfg) then Inl (Err (RuleError ErrTooManyParents))
         else Inr ())"

definition ValidateHeaderInIsolation :: "hash_functions \<Rightarrow> consensusConfig \<Rightarrow> int \<Rightarrow> consensusStores \<Rightarrow> DomainHash
     \<Rightarrow> (dag_error, unit) result" where
  "ValidateHeaderInIsolation H cfg now cs blockHash =
     rbind (headerOf (dag cs) blockHash) (\<lambda>header.
     rbind (checkBlockVersion header) (\<lambda>_.
     rbind (checkBlockTimestampInIsolation cfg now header) (\<lambda>_.
       checkParentsLimit H cfg header)))"

section \<open>pruning\_violation\_proof\_of\_work\_and\_difficulty.go\<close>

definition checkParentHeadersExist :: "consensusStores \<Rightarrow> BlockHeader \<Rightarrow> (dag_error, unit) result" where
  "checkParentHeadersExist cs header =
     rbind (rfilter (\<lambda>parent'.
              if map_of (headers (dag cs)) parent' \<noteq> None then Inr False
              else case map_of (statuses cs) parent' of
                     Some StatusInvalid \<Rightarrow> Inl (Err (RuleError ErrInvalidAncestorBlock))
                   | _ \<Rightarrow> Inr True) (parentHashes header))
       (\<lambda>missingParentHashes.
          if length missingParentHashes > 0 then Inl (Err (RuleError (ErrMissingParents missingParentHashes)))
          else Inr ())"

definition checkParentsIncest :: "dagManagers \<Rightarrow> BlockHeader \<Rightarrow> (dag_error, unit) result" where
  "checkParentsIncest st header =
     rcheck (\<lambda>parentA.
       rcheck (\<lambda>parentB.
         if parentA = parentB then Inr ()
         else rbind (IsAncestorOf st parentA parentB) (\<lambda>isAAncestorOfB.
                if isAAncestorOfB then Inl (Err (RuleError ErrInvalidParentsRelation)) else Inr ()))
         (parentHashes header))
       (parentHashes header)"

definition checkPruningPointViolation :: "consensusStores \<Rightarrow> BlockHeader \<Rightarrow> (dag_error, unit) result" where
  "checkPruningPointViolation cs header =
     (case pruningPoint cs of
        None \<Rightarrow> Inr ()
      | Some p \<Rightarrow> rbind (IsAncestorOfAny (dag cs) p (parentHashes header)) (\<lambda>isAncestorOfAny.
          if \<not> isAncestorOfAny then Inl (Err (RuleError ErrPruningPointViolation)) else Inr ()))"

definition checkProofOfWork :: "hash_functions \<Rightarrow> consensusConfig \<Rightarrow> BlockHeader \<Rightarrow> (dag_error, unit) result" where
  "checkProofOfWork H cfg header =
     (let target = CompactToBig (bits header)
      in if target \<le> 0 then Inl (Err (RuleError ErrNegativeTarget))
         else if target > powMax cfg then Inl (Err (RuleError ErrTargetTooHigh))
         else if \<not> skipPoW cfg \<and> \<not> CheckProofOfWorkWithTarget H header target then Inl (Err (RuleError ErrInvalidPoW))
         else Inr ())"

definition validateDifficulty :: "consensusConfig \<Rightarrow> consensusStores \<Rightarrow> DomainHash \<Rightarrow> (dag_error, consensusStores) result" where
  "validateDifficulty cfg cs blockHash =
     rbind (GHOSTDAG (dag cs) blockHash) (\<lambda>st1.
     rbind (StageDAADataAndReturnRequiredDifficulty cfg (cs\<lparr>dag := st1\<rparr>) blockHash) (\<lambda>(expectedBits, cs2).
     rbind (headerOf (dag cs2) blockHash) (\<lambda>header.
       if bits header \<noteq> expectedBits then Inl (Err (RuleError ErrUnexpectedDifficulty)) else Inr cs2)))"

definition ValidatePruningPointViolationAndProofOfWorkAndDifficulty ::
    "hash_functions \<Rightarrow> consensusConfig \<Rightarrow> consensusStores \<Rightarrow> DomainHash \<Rightarrow> (dag_error, consensusStores) result" where
  "ValidatePruningPointViolationAndProofOfWorkAndDifficulty H cfg cs blockHash =
     rbind (headerOf (dag cs) blockHash) (\<lambda>header.
     rbind (checkParentHeadersExist cs header) (\<lambda>_.
     rbind (checkParentsIncest (dag cs) header) (\<lambda>_.
     rbind (checkPruningPointViolation cs header) (\<lambda>_.
     rbind (checkProofOfWork H cfg header) (\<lambda>_.
     rbind (SetParents (dag cs) blockHash (parentHashes header)) (\<lambda>st1.
       validateDifficulty cfg (cs\<lparr>dag := st1\<rparr>) blockHash))))))"

section \<open>block\_header\_in\_context.go\<close>

definition validateMedianTime :: "hash_functions \<Rightarrow> consensusConfig \<Rightarrow> dagManagers \<Rightarrow> BlockHeader \<Rightarrow> (dag_error, unit) result" where
  "validateMedianTime H cfg st header =
     (if length (parentHashes header) = 0 then Inr ()
      else rbind (PastMedianTime cfg st (HeaderHash H header)) (\<lambda>pastMedianTime.
             if timeInMilliseconds header \<le> pastMedianTime then Inl (Err (RuleError ErrTimeTooOld)) else Inr ()))"

definition checkMergeSizeLimit :: "consensusConfig \<Rightarrow> dagManagers \<Rightarrow> DomainHash \<Rightarrow> (dag_error, unit) result" where
  "checkMergeSizeLimit cfg st hash =
     rbind (ghostdagData (reach st) hash) (\<lambda>data'.
       if (of_nat (length (MergeSet data')) :: u64) > mergeSetSizeLimit cfg
       then Inl (Err (RuleError ErrViolatingMergeLimit)) else Inr ())"

text \<open>
  \<^verbatim>\<open>HasReachabilityData\<close> is whether the reachability store has the block.  The debug message between the
  look-up of the header and the checks has no effect on the stores.
\<close>

definition ValidateHeaderInContext :: "hash_functions \<Rightarrow> consensusConfig \<Rightarrow> consensusStores \<Rightarrow> DomainHash
     \<Rightarrow> (dag_error, consensusStores) result" where
  "ValidateHeaderInContext H cfg cs blockHash =
     rbind (headerOf (dag cs) blockHash) (\<lambda>header.
     rbind (validateMedianTime H cfg (dag cs) header) (\<lambda>_.
     rbind (checkMergeSizeLimit cfg (dag cs) blockHash) (\<lambda>_.
     rbind (if map_of (rm_data (reach (dag cs))) blockHash \<noteq> None then Inr cs
            else rbind (AddBlock (reach (dag cs)) blockHash) (\<lambda>rt. Inr (cs\<lparr>dag := (dag cs)\<lparr>reach := rt\<rparr>\<rparr>)))
       (\<lambda>cs1. CheckBoundedMergeDepth cfg cs1 blockHash))))"

end
