(* ===== verification/Block_Processor.thy ===== *)
theory Block_Processor
  imports Header_Validation
begin

text \<open>
  \<^verbatim>\<open>processes/blockprocessor\<close>: the validation of a block that has only a header
  (\<^verbatim>\<open>validateblock.go\<close>, \<^verbatim>\<open>validateandinsertblock.go\<close>).  The staging area starts out as the database;
  the outcome is an error or the staged stores, and the database after the call, in which a block that
  fails the validation in context is marked as invalid.
\<close>

definition checkBlockStatus :: "consensusStores \<Rightarrow> DomainHash \<Rightarrow> (dag_error, unit) result" where
  "checkBlockStatus cs hash =
     (case map_of (statuses cs) hash of
        None \<Rightarrow> Inr ()
      | Some status \<Rightarrow>
          if status = StatusInvalid then Inl (Err (RuleError ErrKnownInvalid))
          else if map_of (headers (dag cs)) hash \<noteq> None then Inl (Err (RuleError ErrDuplicateBlock))
          else Inr ())"

definition hasValidatedHeader :: "consensusStores \<Rightarrow> DomainHash \<Rightarrow> bool" where
  "hasValidatedHeader cs blockHash =
     (case map_of (statuses cs) blockHash of None \<Rightarrow> False | Some status \<Rightarrow> status \<noteq> StatusInvalid)"

definition stageHeader :: "consensusStores \<Rightarrow> DomainHash \<Rightarrow> BlockHeader \<Rightarrow> consensusStores" where
  "stageHeader cs blockHash header =
     cs\<lparr>dag := (dag cs)\<lparr>headers := AList.update blockHash header (headers (dag cs))\<rparr>\<rparr>"

definition validateUntilProofOfWork :: "hash_functions \<Rightarrow> consensusConfig \<Rightarrow> int \<Rightarrow> consensusStores \<Rightarrow> BlockHeader
     \<Rightarrow> (dag_error, consensusStores) result" where
  "validateUntilProofOfWork H cfg now cs header =
     (let blockHash = HeaderHash H header
      in rbind (checkBlockStatus cs blockHash) (\<lambda>_.
           if hasValidatedHeader cs blockHash then Inr cs
           else let cs1 = stageHeader cs blockHash header
                in rbind (ValidateHeaderInIsolation H cfg now cs1 blockHash) (\<lambda>_.
                     ValidatePruningPointViolationAndProofOfWorkAndDifficulty H cfg cs1 blockHash)))"

text \<open>The errors after which the block is stored as invalid.\<close>

definition marksInvalid :: "dag_error fault \<Rightarrow> bool" where
  "marksInvalid e =
     (case e of
        Err (RuleError (ErrMissingParents _)) \<Rightarrow> False
      | Err (RuleError ErrBadMerkleRoot) \<Rightarrow> False
      | Err (RuleError ErrPrunedBlock) \<Rightarrow> False
      | Err (RuleError _) \<Rightarrow> True
      | _ \<Rightarrow> False)"

definition validateBlock :: "hash_functions \<Rightarrow> consensusConfig \<Rightarrow> int \<Rightarrow> consensusStores \<Rightarrow> BlockHeader
     \<Rightarrow> (dag_error, consensusStores) result \<times> consensusStores" where
  "validateBlock H cfg now cs header =
     (let blockHash = HeaderHash H header
      in case validateUntilProofOfWork H cfg now cs header of
           Inl e \<Rightarrow> (Inl e, cs)
         | Inr cs2 \<Rightarrow>
             (case (if hasValidatedHeader cs2 blockHash then Inr cs2 else ValidateHeaderInContext H cfg cs2 blockHash) of
                Inl e \<Rightarrow> (Inl e, if marksInvalid e
                                 then cs\<lparr>statuses := AList.update blockHash StatusInvalid (statuses cs)\<rparr> else cs)
              | Inr cs3 \<Rightarrow> (Inr cs3, cs)))"

end
