(* ===== verification/Merge_Depth_Theorems.thy ===== *)
theory Merge_Depth_Theorems
  imports Merge_Depth
begin

text \<open>
  The finality point of a block and what the bounded merge depth rule accepts, with a DAG of five blocks in
  which a block merges a red one.
\<close>

lemma FinalityPoint_frame:
  assumes "FinalityPoint cfg cs h = Inr (p, cs')"
  shows "dag cs' = dag cs" "statuses cs' = statuses cs"
  using assms
  by (auto simp: FinalityPoint_def rbind_Inr_iff split: if_splits sum.splits fault.splits dag_error.splits)

section \<open>The bounded merge depth\<close>

lemma FinalityPoint_again:
  assumes "FinalityPoint cfg cs h = Inr (p, cs')"
  shows "FinalityPoint cfg cs' h = Inr (p, cs')"
  using assms
  by (auto simp: FinalityPoint_def rbind_Inr_iff storedFinalityPoint_def update_conv'
      split: if_splits sum.splits fault.splits dag_error.splits option.splits)

lemma IsAncestorOfAny_ok:
  assumes t: "topo P st r" and a: "a \<in> blocks st"
  shows "set bs \<subseteq> blocks st \<Longrightarrow> IsAncestorOfAny st a bs = Inr (\<exists>b \<in> set bs. dag_anc P a b)"
  by (induction bs) (simp_all add: topo_IsAncestorOf [OF t a])

text \<open>The blocks that a block may merge though they are behind its finality point.\<close>

definition excused :: "(DomainHash \<Rightarrow> DomainHash list) \<Rightarrow> dagManagers \<Rightarrow> DomainHash \<Rightarrow> DomainHash \<Rightarrow> DomainHash \<Rightarrow> bool" where
  "excused P st fp h red \<longleftrightarrow> dag_anc P fp red
     \<or> (\<exists>blue \<in> set (MergeSetBlues (gdata st h)). anc (data_of (reach st)) fp blue \<and> dag_anc P red blue)"

lemma CheckBoundedMergeDepth_ok:
  assumes g: "ghost_ok P (dag cs) r" and B: "B \<in> blocks (dag cs)" "B \<noteq> r"
    and f: "FinalityPoint cfg cs B = Inr (fp, cs')" and fp: "fp \<in> blocks (dag cs)"
  shows "CheckBoundedMergeDepth cfg cs B =
    (if \<forall>red \<in> set (MergeSetReds (gdata (dag cs) B)). excused P (dag cs) fp B red then Inr cs'
     else Inl (Err (RuleError ErrViolatingBoundedMergeDepth)))"
proof -
  let ?st = "dag cs" and ?d = "gdata (dag cs) B" and ?m = "data_of (reach (dag cs))"
  note t = ghost_okD(1) [OF g]
  note e = FinalityPoint_frame(1) [OF f]
  have d: "ghostdagData (reach ?st) B = Inr ?d" by (rule topoD(3) [OF t B(1)])
  have m: "merges P r B ?d" by (rule ghost_okD(3) [OF g B(1)])
  then have sp: "SelectedParent ?d \<noteq> None" using B(2) by (auto simp: merges_def split: option.splits)
  have s: "set (MergeSetBlues ?d) \<subseteq> blocks ?st" "set (MergeSetReds ?d) \<subseteq> blocks ?st"
    using merges_blocks [OF t m topoD(9) [OF t B(1)]] by auto
  let ?bs = "filter (anc ?m fp) (MergeSetBlues ?d)"
  have "rfilter (IsInSelectedParentChainOf ?st fp) (MergeSetBlues ?d) = Inr ?bs"
    unfolding IsInSelectedParentChainOf_def
    by (rule rfilter_ok, rule IsReachabilityTreeAncestorOf_anc [OF reach_okD(1) [OF topoD(1) [OF t]] fp]) (rule subsetD [OF s(1)])
  then have n: "NonBoundedMergeDepthViolatingBlues cfg cs B = Inr (?bs, cs')"
    by (simp add: NonBoundedMergeDepthViolatingBlues_def d f e)
  have "rcheck (\<lambda>red. rbind (IsAncestorOf ?st fp red) (\<lambda>doesRedHaveFinalityPointInPast.
           if doesRedHaveFinalityPointInPast then Inr ()
           else rbind (IsAncestorOfAny ?st red ?bs) (\<lambda>isRedInPastOfAnyNonFinalityViolatingBlue.
                  if \<not> isRedInPastOfAnyNonFinalityViolatingBlue
                  then Inl (Err (RuleError ErrViolatingBoundedMergeDepth)) else Inr ()))) (MergeSetReds ?d)
     = (if \<forall>red \<in> set (MergeSetReds ?d). excused P ?st fp B red then Inr ()
        else Inl (Err (RuleError ErrViolatingBoundedMergeDepth)))"
  proof (rule rcheck_if)
    fix red
    assume "red \<in> set (MergeSetReds ?d)"
    then have r: "red \<in> blocks ?st" using s(2) by blast
    have "set ?bs \<subseteq> blocks ?st" using s(1) by auto
    note a = IsAncestorOfAny_ok [OF t r this] topo_IsAncestorOf [OF t fp r]
    show "rbind (IsAncestorOf ?st fp red) (\<lambda>doesRedHaveFinalityPointInPast.
           if doesRedHaveFinalityPointInPast then Inr ()
           else rbind (IsAncestorOfAny ?st red ?bs) (\<lambda>isRedInPastOfAnyNonFinalityViolatingBlue.
                  if \<not> isRedInPastOfAnyNonFinalityViolatingBlue
                  then Inl (Err (RuleError ErrViolatingBoundedMergeDepth)) else Inr ()))
      = (if excused P ?st fp B red then Inr () else Inl (Err (RuleError ErrViolatingBoundedMergeDepth)))"
      unfolding a by (auto simp: excused_def)
  qed
  then show ?thesis unfolding CheckBoundedMergeDepth_def n using sp by (auto simp: d e FinalityPoint_again [OF f] cong: if_cong)
qed

text \<open>Below the finality depth the finality point is the genesis block, and every merge is deep enough.\<close>

lemma shallow_merge_depth:
  assumes g: "ghost_ok P (dag cs) (genesisHash cfg)" and B: "B \<in> blocks (dag cs)" "B \<noteq> genesisHash cfg" "B \<noteq> VirtualBlockHash"
    and n: "map_of (finalityPoints cs) B = None" and s: "BlueScore (gdata (dag cs) B) < finalityDepth cfg"
  shows "CheckBoundedMergeDepth cfg cs B
    = Inr (cs\<lparr>finalityPoints := AList.update B (genesisHash cfg) (finalityPoints cs)\<rparr>)"
proof -
  let ?r = "genesisHash cfg" and ?d = "gdata (dag cs) B"
  note t = ghost_okD(1) [OF g]
  have f: "FinalityPoint cfg cs B = Inr (?r, cs\<lparr>finalityPoints := AList.update B ?r (finalityPoints cs)\<rparr>)"
    using B(3) s by (simp add: FinalityPoint_def storedFinalityPoint_def n calculateFinalityPoint_def topoD(3) [OF t B(1)])
  have "set (MergeSetReds ?d) \<subseteq> blocks (dag cs)"
    using merges_blocks [OF t ghost_okD(3) [OF g B(1)] topoD(9) [OF t B(1)]] by auto
  then have "\<forall>red \<in> set (MergeSetReds ?d). excused P (dag cs) ?r B red" using topo_root [OF t] by (auto simp: excused_def)
  then show ?thesis using CheckBoundedMergeDepth_ok [OF g B(1,2) f topoD(8) [OF t]] by simp
qed

section \<open>The chain of selected parents\<close>

definition score :: "dagManagers \<Rightarrow> DomainHash \<Rightarrow> nat" where
  "score st h = unat (BlueScore (gdata st h))"

text \<open>
  The ancestors of a block in the reachability tree are the block and those of its selected parent, so the
  tree is the tree of selected parents; and the blue score grows along it.
\<close>

definition chain_ok :: "dagManagers \<Rightarrow> DomainHash \<Rightarrow> bool" where
  "chain_ok st r \<longleftrightarrow> (\<forall>h \<in> blocks st. h \<noteq> r \<longrightarrow> (\<exists>s \<in> blocks st. SelectedParent (gdata st h) = Some s
     \<and> (\<forall>x. anc (data_of (reach st)) x h \<longleftrightarrow> x = h \<or> anc (data_of (reach st)) x s) \<and> score st s < score st h))"

lemma chain_okD:
  assumes "chain_ok st r" "h \<in> blocks st" "h \<noteq> r"
  obtains s where "s \<in> blocks st" "SelectedParent (gdata st h) = Some s" "score st s < score st h"
    "\<forall>x. anc (data_of (reach st)) x h \<longleftrightarrow> x = h \<or> anc (data_of (reach st)) x s"
  using assms unfolding chain_ok_def by blast

lemma root_anc: "tree_wf m r \<Longrightarrow> anc m x r \<Longrightarrow> x = r"
  unfolding anc_def by (erule rtranclE) (simp_all add: tree_wfD(3,6))

lemma anc_score:
  assumes c: "chain_ok st r" and w: "tree_wf (data_of (reach st)) r"
  shows "h \<in> blocks st \<Longrightarrow> anc (data_of (reach st)) x h \<Longrightarrow> x \<noteq> h \<Longrightarrow> score st x < score st h"
proof (induction "score st h" arbitrary: h rule: less_induct)
  case less
  have "h \<noteq> r" using root_anc [OF w] less.prems(2,3) by blast
  then obtain s where s: "s \<in> blocks st" "score st s < score st h"
    "anc (data_of (reach st)) x h \<longleftrightarrow> x = h \<or> anc (data_of (reach st)) x s"
    using chain_okD [OF c less.prems(1)] by metis
  then have "x = s \<or> score st x < score st s" using less.hyps [OF s(2,1)] less.prems(2,3) by blast
  then show ?case using s(2) by auto
qed

text \<open>The child of a block of the chain that leads to \<open>h\<close> is the next block of the chain.\<close>

lemma next_chain_block:
  assumes w: "tree_wf m r" and e: "(p, c) \<in> edges m" and q: "anc m q h" and c: "anc m c h"
  shows "anc m q p \<or> anc m c q"
proof -
  have "anc m q c \<or> anc m c q" by (rule anc_chain [OF w q c])
  moreover have "anc m q p" if qc: "anc m q c" "q \<noteq> c"
  proof -
    obtain y where "anc m q y" "(y, c) \<in> edges m" using qc unfolding anc_def by (metis rtranclE)
    then show ?thesis using e tree_wfD(6) [OF w] by (metis option.inject)
  qed
  ultimately show ?thesis by (cases "q = c") auto
qed

section \<open>The finality point\<close>

text \<open>
  The blocks of the selected chain of \<open>h\<close> that are deep enough: the genesis block, and those whose blue score
  is more than the finality depth below that of \<open>h\<close>.  The finality point is the last of them.
\<close>

definition deep :: "consensusConfig \<Rightarrow> dagManagers \<Rightarrow> DomainHash \<Rightarrow> DomainHash \<Rightarrow> bool" where
  "deep cfg st h q \<longleftrightarrow> anc (data_of (reach st)) q h
     \<and> (q = genesisHash cfg \<or> score st q < score st h - unat (finalityDepth cfg))"

definition finality_point :: "consensusConfig \<Rightarrow> dagManagers \<Rightarrow> DomainHash \<Rightarrow> DomainHash \<Rightarrow> bool" where
  "finality_point cfg st h p \<longleftrightarrow> deep cfg st h p \<and> (\<forall>q. deep cfg st h q \<longrightarrow> anc (data_of (reach st)) q p)"

text \<open>The store has the finality points of a set of blocks.\<close>

definition finality_ok :: "consensusConfig \<Rightarrow> consensusStores \<Rightarrow> DomainHash set \<Rightarrow> bool" where
  "finality_ok cfg cs S \<longleftrightarrow> (\<forall>h \<in> S. \<exists>p. map_of (finalityPoints cs) h = Some p \<and> finality_point cfg (dag cs) h p)"

lemma finalityPoint_loop_ok:
  assumes t: "topo P st r" and c: "chain_ok st r" and r: "r = genesisHash cfg"
    and B: "B \<in> blocks st" "B \<noteq> VirtualBlockHash" and req: "unat required = score st B - unat (finalityDepth cfg)"
  shows "cur \<in> blocks st \<Longrightarrow> cur \<noteq> B \<Longrightarrow> deep cfg st B cur \<Longrightarrow>
    card {q. anc (data_of (reach st)) cur q \<and> anc (data_of (reach st)) q B} \<le> fuel \<Longrightarrow>
    \<exists>p. finalityPoint_loop fuel st B required cur = Inr p \<and> finality_point cfg st B p"
proof (induction fuel arbitrary: cur)
  let ?m = "data_of (reach st)"
  note v = reach_okD(1) [OF topoD(1) [OF t]]
  note w = validD(1) [OF v]
  let ?Q = "\<lambda>cur. {q. anc ?m cur q \<and> anc ?m q B}"
  have fin: "finite (?Q a)" if "a \<in> blocks st" for a
    by (rule finite_subset [OF _ topoD(7) [OF t]]) (use anc_dom [OF w _ that] in blast)
  {
    case 0
    have "cur \<in> ?Q cur" using 0(3) by (simp add: deep_def)
    then show ?case using 0(4) fin [OF 0(1)] by auto
  next
    case (Suc fuel)
    have a: "anc ?m cur B" using Suc.prems(3) by (simp add: deep_def)
    obtain n where n: "FindNextAncestor (reach st) B cur = Inr n" "(cur, n) \<in> edges ?m" "anc ?m n B"
      using FindNextAncestor_ok [OF v Suc.prems(1) a Suc.prems(2)] by blast
    have nb: "n \<in> blocks st" by (rule tree_wfD(5) [OF w n(2)])
    have nr: "n \<noteq> r" using n(2) tree_wfD(3,6) [OF w] by auto
    have ch: "ChildInSelectedParentChainOf st cur B = Inr n"
      using B(2) n(1) a IsReachabilityTreeAncestorOf_anc [OF v Suc.prems(1) B(1)]
      by (simp add: ChildInSelectedParentChainOf_def IsInSelectedParentChainOf_def)
    have step: "finalityPoint_loop (Suc fuel) st B required cur
        = (if score st n \<ge> unat required then Inr cur else finalityPoint_loop fuel st B required n)"
      by (simp add: ch topoD(3) [OF t nb] score_def word_le_nat_alt)
    show ?case
    proof (cases "score st n \<ge> unat required")
      case True
      have "anc ?m q cur" if q: "deep cfg st B q" for q
      proof -
        have "anc ?m q cur \<or> anc ?m n q" using next_chain_block [OF w n(2) _ n(3)] q by (simp add: deep_def)
        moreover have False if nq: "anc ?m n q"
        proof -
          have "q \<in> blocks st" by (rule anc_dom [OF w nq nb])
          then have "score st n \<le> score st q" using anc_score [OF c w _ nq] by (cases "n = q") auto
          then have "q = r" using q True req r by (auto simp: deep_def)
          then show False using root_anc [OF w] nq nr by blast
        qed
        ultimately show ?thesis by blast
      qed
      then show ?thesis using step True Suc.prems(3) by (simp add: finality_point_def)
    next
      case False
      have "n \<noteq> B" using False req by auto
      moreover have "deep cfg st B n" using n(3) False req by (simp add: deep_def)
      moreover have "card (?Q n) \<le> fuel"
      proof -
        have "\<not> anc ?m n cur"
          using acyclic_tree [OF w Suc.prems(1)] rtrancl_into_trancl2 [OF n(2)] by (auto simp: anc_def)
        then have "cur \<notin> ?Q n" "cur \<in> ?Q cur" "?Q n \<subseteq> ?Q cur" using a anc_trans [OF anc_edge [OF n(2)]] by auto
        then have "card (?Q n) < card (?Q cur)" by (intro psubset_card_mono [OF fin [OF Suc.prems(1)]]) auto
        then show ?thesis using Suc.prems(4) by linarith
      qed
      ultimately show ?thesis using step False Suc.IH [OF nb] by simp
    qed
  }
qed

lemma calculateFinalityPoint_ok:
  assumes t: "topo P (dag cs) r" and c: "chain_ok (dag cs) r" and r: "r = genesisHash cfg"
    and B: "B \<in> blocks (dag cs)" "B \<noteq> r" "B \<noteq> VirtualBlockHash" and f: "finality_ok cfg cs (blocks (dag cs) - {r, B})"
  shows "\<exists>p. calculateFinalityPoint cfg cs B = Inr p \<and> finality_point cfg (dag cs) B p"
proof -
  let ?st = "dag cs" and ?D = "unat (finalityDepth cfg)"
  let ?m = "data_of (reach ?st)"
  note w = validD(1) [OF reach_okD(1) [OF topoD(1) [OF t]]]
  obtain s where s: "s \<in> blocks ?st" "SelectedParent (gdata ?st B) = Some s" "score ?st s < score ?st B"
    "\<forall>x. anc ?m x B \<longleftrightarrow> x = B \<or> anc ?m x s" by (rule chain_okD [OF c B(1,2)])
  note d = topoD(3) [OF t B(1)] and root = tree_wfD(7) [OF w]
  have dr: "deep cfg ?st B r" using root [OF B(1)] by (simp add: deep_def r)
  have fr: "finality_point cfg ?st B r" if q: "\<And>q. deep cfg ?st B q \<Longrightarrow> q = r"
    unfolding finality_point_def using dr q anc_refl by metis
  consider "score ?st B < ?D" | "s = r" | "\<not> score ?st B < ?D" "s \<noteq> r" by blast
  then show ?thesis
  proof cases
    case 1
    then have "q = r" if "deep cfg ?st B q" for q using that by (simp add: deep_def r)
    moreover have "calculateFinalityPoint cfg cs B = Inr r"
      using 1 by (simp add: calculateFinalityPoint_def d score_def word_less_nat_alt r)
    ultimately show ?thesis using fr by blast
  next
    case 2
    have "q = r" if "deep cfg ?st B q" for q
      using that s(4) root_anc [OF w] by (auto simp: deep_def 2 r)
    moreover have "calculateFinalityPoint cfg cs B = Inr r" using 2 s(2) by (simp add: calculateFinalityPoint_def d r)
    ultimately show ?thesis using fr by blast
  next
    case 3
    have "s \<noteq> B" using s(3) by auto
    then obtain p where p: "map_of (finalityPoints cs) s = Some p" "finality_point cfg ?st s p"
      using f s(1) 3(2) unfolding finality_ok_def by blast
    have ps: "anc ?m p s" "p = r \<or> score ?st p < score ?st s - ?D" using p(2) by (simp_all add: finality_point_def deep_def r)
    have pb: "p \<in> blocks ?st" using ps(1) s(1) unfolding anc_def by (cases rule: converse_rtranclE) (auto dest: edge_dom)
    have "score ?st p \<le> score ?st s" using anc_score [OF c w s(1) ps(1)] by (cases "p = s") auto
    then have "p \<noteq> B" using s(3) by auto
    moreover have "deep cfg ?st B p" using ps s(3,4) by (auto simp: deep_def r)
    moreover have "unat (BlueScore (gdata ?st B) - finalityDepth cfg) = score ?st B - ?D"
      using 3(1) by (simp add: score_def unat_sub word_le_nat_alt)
    moreover have "card {q. anc ?m p q \<and> anc ?m q B} \<le> Suc (dag_fuel ?st)"
      using card_mono [OF topoD(7) [OF t], of "{q. anc ?m p q \<and> anc ?m q B}"] anc_dom [OF w _ pb] blocks_fuel [OF t] by fastforce
    ultimately obtain q where "finalityPoint_loop (Suc (dag_fuel ?st)) ?st B (BlueScore (gdata ?st B) - finalityDepth cfg) p = Inr q"
      "finality_point cfg ?st B q" using finalityPoint_loop_ok [OF t c r B(1,3) _ pb] by blast
    then show ?thesis using 3 s(2) p(1) r
      by (simp add: calculateFinalityPoint_def d storedFinalityPoint_def score_def word_less_nat_alt)
  qed
qed

lemma FinalityPoint_ok:
  assumes t: "topo P (dag cs) r" and c: "chain_ok (dag cs) r" and r: "r = genesisHash cfg"
    and B: "B \<in> blocks (dag cs)" "B \<noteq> r" "B \<noteq> VirtualBlockHash" and f: "finality_ok cfg cs (blocks (dag cs) - {r, B})"
    and n: "map_of (finalityPoints cs) B = None"
  shows "\<exists>p. FinalityPoint cfg cs B = Inr (p, cs\<lparr>finalityPoints := AList.update B p (finalityPoints cs)\<rparr>)
    \<and> finality_point cfg (dag cs) B p \<and> p \<in> blocks (dag cs)"
proof -
  obtain p where p: "calculateFinalityPoint cfg cs B = Inr p" "finality_point cfg (dag cs) B p"
    using calculateFinalityPoint_ok [OF t c r B f] by blast
  have "anc (data_of (reach (dag cs))) p B" using p(2) by (simp add: finality_point_def deep_def)
  then have "p \<in> blocks (dag cs)" using B(1) unfolding anc_def by (cases rule: converse_rtranclE) (auto dest: edge_dom)
  then show ?thesis using p B(3) by (simp add: FinalityPoint_def storedFinalityPoint_def n)
qed

section \<open>New blocks keep the chain\<close>

text \<open>
  Adding a block after \<^verbatim>\<open>GHOSTDAG\<close> keeps \<open>chain_ok\<close> and the finality points of the other blocks, as long as
  blue scores are far from \<open>2 ^ 64\<close>.
\<close>

lemma finality_point_frame:
  assumes x: "x \<in> blocks st" and sc: "\<And>y. y \<in> blocks st \<Longrightarrow> score st' y = score st y"
    and an: "\<And>y z. y \<in> blocks st \<Longrightarrow> anc (data_of (reach st')) z y = anc (data_of (reach st)) z y"
  shows "finality_point cfg st' x = finality_point cfg st x"
proof
  fix p
  have anc_b: "anc (data_of (reach st)) q x \<Longrightarrow> q \<in> blocks st" for q
    using x unfolding anc_def by (erule_tac converse_rtranclE) (auto dest: edge_dom)
  have dp: "deep cfg st' x q = deep cfg st x q" for q
    unfolding deep_def an [OF x] sc [OF x] using sc [OF anc_b] by auto
  show "finality_point cfg st' x p = finality_point cfg st x p"
  proof (cases "p \<in> blocks st")
    case True
    then show ?thesis unfolding finality_point_def dp an [OF True] by simp
  next
    case False
    then have "\<not> deep cfg st x p" using anc_b by (auto simp: deep_def)
    then show ?thesis unfolding finality_point_def dp by simp
  qed
qed

lemma chain_ok_AddBlock:
  assumes g: "ghost_ok P st r" and i: "insertable P st B" and h: "headers_ok st" and c: "chain_ok st r"
    and R: "rm_reindexRoot (reach st) = Some R" "R \<in> blocks st"
    and big: "Suc (card (blocks st)) < 2 ^ 64" and cap: "capacity (data_of (reach st)) (reindexSlack (reach st)) R"
    and low: "\<And>x. x \<in> blocks st \<Longrightarrow> score st x + 256 < 2 ^ 64"
  shows "\<exists>st2 rt. GHOSTDAG st B = Inr st2 \<and> AddBlock (reach st2) B = Inr rt \<and> chain_ok (st2\<lparr>reach := rt\<rparr>) r
    \<and> (\<forall>cfg. \<forall>x \<in> blocks st. finality_point cfg (st2\<lparr>reach := rt\<rparr>) x = finality_point cfg st x)"
proof -
  note t = ghost_okD(1) [OF g]
  note w = validD(1) [OF reach_okD(1) [OF topoD(1) [OF t]]]
  obtain d sp where d: "GHOSTDAG st B = Inr (stageGhostdag st B d)" "SelectedParent d = Some sp" "in_order P st B d" "merges P r B d"
    "cluster P st d" "\<And>q. q \<in> set (P B) \<Longrightarrow> work st q < BlueWork d" "length (MergeSetBlues d) \<le> unat (gk st) + 1"
    "BlueScore d = BlueScore (gdata st sp) + of_nat (length (MergeSetBlues d))"
    using GHOSTDAG_ok [OF g i h] by blast
  have B: "B \<notin> blocks st" "sp \<in> blocks st" "MergeSetBlues d \<noteq> []" using i d(2,4) by (auto simp: insertable_def merges_def)
  obtain rt where rt: "AddBlock (reach (stageGhostdag st B d)) B = Inr rt" "dom (data_of rt) = insert B (blocks st)"
    "map_of (rm_ghostdag rt) = (map_of (rm_ghostdag (reach st)))(B \<mapsto> d)"
    "\<forall>x y. anc (data_of rt) x y \<longleftrightarrow> anc (data_of (reach st)) x y \<or> (y = B \<and> (x = B \<or> anc (data_of (reach st)) x sp))"
    using AddBlock_ghost_ok [OF g i d(2,4,5,3) d(6) R big cap] by blast
  let ?st' = "(stageGhostdag st B d)\<lparr>reach := rt\<rparr>"
  have gd: "gdata ?st' B = d" "\<And>x. x \<noteq> B \<Longrightarrow> gdata ?st' x = gdata st x" using rt(3) by (simp_all add: gdata_def)
  have sc: "\<And>x. x \<in> blocks st \<Longrightarrow> score ?st' x = score st x" using gd(2) B(1) by (metis score_def)
  have an: "anc (data_of (reach ?st')) x y = anc (data_of (reach st)) x y" if "y \<in> blocks st" for x y using rt(4) that B(1) by auto
  have nB: "anc (data_of (reach st)) x B \<Longrightarrow> x = B" for x
    using B(1) unfolding anc_def by (erule_tac rtranclE) (auto dest: tree_wfD(5) [OF w])
  have anB: "anc (data_of (reach ?st')) x B \<longleftrightarrow> x = B \<or> anc (data_of (reach ?st')) x sp" for x
    unfolding an [OF B(2)] using rt(4) nB by auto
  have ln: "0 < length (MergeSetBlues d)" "length (MergeSetBlues d) \<le> 256" using B(3) d(7) ghost_okD(2) [OF g] by simp_all
  have "score ?st' B = score st sp + length (MergeSetBlues d)"
    unfolding score_def gd(1) d(8) using low [OF B(2)] ln(2) by (simp add: score_def unat_word_ariths unat_of_nat)
  then have sB: "score ?st' sp < score ?st' B" using ln(1) sc [OF B(2)] by simp
  have "\<exists>s \<in> blocks ?st'. SelectedParent (gdata ?st' x) = Some s
      \<and> (\<forall>z. anc (data_of (reach ?st')) z x \<longleftrightarrow> z = x \<or> anc (data_of (reach ?st')) z s) \<and> score ?st' s < score ?st' x"
    if x: "x \<in> blocks ?st'" "x \<noteq> r" for x
  proof (cases "x = B")
    case True
    then show ?thesis using anB sB gd(1) d(2) B(2) rt(2) by (intro bexI [of _ sp]) simp_all
  next
    case False
    then have xb: "x \<in> blocks st" using x(1) rt(2) by auto
    obtain s where s: "s \<in> blocks st" "SelectedParent (gdata st x) = Some s" "score st s < score st x"
      "\<forall>z. anc (data_of (reach st)) z x \<longleftrightarrow> z = x \<or> anc (data_of (reach st)) z s" by (rule chain_okD [OF c xb x(2)])
    then show ?thesis using an [OF xb] an [OF s(1)] gd(2) [OF False] sc [OF xb] sc [OF s(1)] rt(2)
      by (intro bexI [of _ s]) simp_all
  qed
  then have "chain_ok ?st' r" by (simp add: chain_ok_def)
  moreover have "finality_point cfg ?st' x = finality_point cfg st x" if "x \<in> blocks st" for cfg x
    by (rule finality_point_frame [OF that sc an])
  ultimately show ?thesis using d(1) rt(1) by blast
qed

section \<open>A block that merges a red block\<close>

text \<open>
  The blocks 2, 3, 4 are a chain on the genesis block 0, and block 1 is beside it; with \<open>k = 0\<close> it is red for
  block 4, which merges it.
\<close>

definition spurParents :: "DomainHash \<Rightarrow> DomainHash list" where
  "spurParents h = (if h = [1] \<or> h = [2] then [[0]] else if h = [3] then [[2]] else if h = [4] then [[3], [1]] else [])"

definition spurDAG :: dagManagers where
  "spurDAG = \<lparr>reach = (newReachabilityManager (\<lambda>_. 0))\<lparr>
       rm_data := [([0], \<lparr>rd_children = [[1], [2]], rd_parent = None, rd_interval = Some (newReachabilityInterval 1 100000),
            rd_futureCoveringSet = [[1], [2]]\<rparr>),
          ([1], \<lparr>rd_children = [], rd_parent = Some [0], rd_interval = Some (newReachabilityInterval 1 50000),
            rd_futureCoveringSet = [[4]]\<rparr>),
          ([2], \<lparr>rd_children = [[3]], rd_parent = Some [0], rd_interval = Some (newReachabilityInterval 50001 75000),
            rd_futureCoveringSet = [[3]]\<rparr>),
          ([3], \<lparr>rd_children = [[4]], rd_parent = Some [2], rd_interval = Some (newReachabilityInterval 50001 60000),
            rd_futureCoveringSet = [[4]]\<rparr>),
          ([4], \<lparr>rd_children = [], rd_parent = Some [3], rd_interval = Some (newReachabilityInterval 50001 55000),
            rd_futureCoveringSet = []\<rparr>)],
       rm_reindexRoot := Some [0],
       rm_ghostdag := [([0], NewBlockGHOSTDAGData 0 0 None [] [] []),
          ([1], NewBlockGHOSTDAGData 1 2 (Some [0]) [[0]] [] [([0], 0)]),
          ([2], NewBlockGHOSTDAGData 1 2 (Some [0]) [[0]] [] [([0], 0)]),
          ([3], NewBlockGHOSTDAGData 2 4 (Some [2]) [[2]] [] [([2], 0)]),
          ([4], NewBlockGHOSTDAGData 3 6 (Some [3]) [[3]] [[1]] [([3], 0)])]\<rparr>,
     relations = [([0], \<lparr>br_Parents = [], br_Children = [[1], [2]]\<rparr>), ([1], \<lparr>br_Parents = [[0]], br_Children = [[4]]\<rparr>),
        ([2], \<lparr>br_Parents = [[0]], br_Children = [[3]]\<rparr>), ([3], \<lparr>br_Parents = [[2]], br_Children = [[4]]\<rparr>),
        ([4], \<lparr>br_Parents = [[3], [1]], br_Children = []\<rparr>)],
     headers = [], gk = 0\<rparr>"

abbreviation spurTree :: "DomainHash \<Rightarrow> reachabilityData option" where
  "spurTree \<equiv> data_of (reach spurDAG)"

lemma spur_tree:
  "dom spurTree = {[0], [1], [2], [3], [4]}"
  "kids spurTree [0] = [[1], [2]]" "kids spurTree [1] = []" "kids spurTree [2] = [[3]]" "kids spurTree [3] = [[4]]" "kids spurTree [4] = []"
  "fcs_of spurTree [0] = [[1], [2]]" "fcs_of spurTree [1] = [[4]]" "fcs_of spurTree [2] = [[3]]" "fcs_of spurTree [3] = [[4]]"
  "fcs_of spurTree [4] = []" "edges spurTree = {([0], [1]), ([0], [2]), ([2], [3]), ([3], [4])}"
  by (auto simp: data_of_def spurDAG_def kids_def edges_def fcs_of_def split: if_splits)

lemma spur_ivl:
  "ivl spurTree [0] = newReachabilityInterval 1 100000" "ivl spurTree [1] = newReachabilityInterval 1 50000"
  "ivl spurTree [2] = newReachabilityInterval 50001 75000" "ivl spurTree [3] = newReachabilityInterval 50001 60000"
  "ivl spurTree [4] = newReachabilityInterval 50001 55000"
  by (simp_all add: data_of_def spurDAG_def ivl_def)

lemma spur_tree_anc:
  "anc spurTree a b \<longleftrightarrow> a = b \<or> a = [0] \<and> b \<in> {[1], [2], [3], [4]} \<or> a = [2] \<and> b \<in> {[3], [4]} \<or> a = [3] \<and> b = [4]"
proof
  assume "anc spurTree a b"
  then show "a = b \<or> a = [0] \<and> b \<in> {[1], [2], [3], [4]} \<or> a = [2] \<and> b \<in> {[3], [4]} \<or> a = [3] \<and> b = [4]"
    unfolding anc_def spur_tree(12) by (induction rule: rtrancl_induct) auto
next
  have e: "anc spurTree [0] [1]" "anc spurTree [0] [2]" "anc spurTree [2] [3]" "anc spurTree [3] [4]"
    by (rule anc_edge, simp add: spur_tree(12))+
  assume "a = b \<or> a = [0] \<and> b \<in> {[1], [2], [3], [4]} \<or> a = [2] \<and> b \<in> {[3], [4]} \<or> a = [3] \<and> b = [4]"
  then show "anc spurTree a b"
    using e anc_trans [OF e(2,3)] anc_trans [OF e(3,4)] anc_trans [OF anc_trans [OF e(2,3)] e(4)] by auto
qed

lemma spur_valid: "valid spurTree [0]"
proof -
  have par: "par spurTree c = Some p \<longleftrightarrow> (p, c) \<in> {([0], [1]), ([0], [2]), ([2], [3]), ([3], [4])}" "par spurTree [0] = None" for c p
    by (auto simp: data_of_def spurDAG_def par_def split: if_splits)
  have iv: "rd_interval (the (spurTree h)) \<noteq> None" if "h \<in> {[0], [1], [2], [3], [4]}" for h
    using that by (auto simp: data_of_def spurDAG_def)
  have "tree_wf spurTree [0]"
    unfolding tree_wf_def spur_tree(1,12) using iv par by (auto simp: spur_tree_anc spur_tree)
  then show ?thesis by (simp add: valid_def node_ok_def spur_tree spur_ivl newReachabilityInterval_def)
qed

lemma spur_parents:
  "spurParents [0] = []" "spurParents [1] = [[0]]" "spurParents [2] = [[0]]" "spurParents [3] = [[2]]" "spurParents [4] = [[3], [1]]"
  by (simp_all add: spurParents_def)

lemma spur_anc:
  "dag_anc spurParents a [0] \<longleftrightarrow> a = [0]" "dag_anc spurParents a [1] \<longleftrightarrow> a \<in> {[1], [0]}" "dag_anc spurParents a [2] \<longleftrightarrow> a \<in> {[2], [0]}"
  "dag_anc spurParents a [3] \<longleftrightarrow> a \<in> {[3], [2], [0]}" "dag_anc spurParents a [4] \<longleftrightarrow> a \<in> {[4], [3], [2], [1], [0]}"
proof -
  note step = dag_anc_step [of spurParents a]
  show 0: "dag_anc spurParents a [0] \<longleftrightarrow> a = [0]" using step [of "[0]"] by (simp add: spur_parents)
  show 1: "dag_anc spurParents a [1] \<longleftrightarrow> a \<in> {[1], [0]}" using step [of "[1]"] 0 by (auto simp: spur_parents)
  show 2: "dag_anc spurParents a [2] \<longleftrightarrow> a \<in> {[2], [0]}" using step [of "[2]"] 0 by (auto simp: spur_parents)
  show 3: "dag_anc spurParents a [3] \<longleftrightarrow> a \<in> {[3], [2], [0]}" using step [of "[3]"] 2 by (auto simp: spur_parents)
  show "dag_anc spurParents a [4] \<longleftrightarrow> a \<in> {[4], [3], [2], [1], [0]}" using step [of "[4]"] 1 3 by (auto simp: spur_parents)
qed

lemma spur_data:
  "gdata spurDAG [0] = NewBlockGHOSTDAGData 0 0 None [] [] []"
  "gdata spurDAG [1] = NewBlockGHOSTDAGData 1 2 (Some [0]) [[0]] [] [([0], 0)]"
  "gdata spurDAG [2] = NewBlockGHOSTDAGData 1 2 (Some [0]) [[0]] [] [([0], 0)]"
  "gdata spurDAG [3] = NewBlockGHOSTDAGData 2 4 (Some [2]) [[2]] [] [([2], 0)]"
  "gdata spurDAG [4] = NewBlockGHOSTDAGData 3 6 (Some [3]) [[3]] [[1]] [([3], 0)]"
  by (simp_all add: gdata_def spurDAG_def)

lemma spur_reach: "reach_ok spurParents spurTree [0]"
proof -
  have "ordered spurTree (fcs_of spurTree a) \<and> set (spurParents a) \<subseteq> dom spurTree" if "a \<in> {[0], [1], [2], [3], [4]}" for a
    using that by (auto simp: ordered_def spur_tree spur_ivl spur_parents newReachabilityInterval_def)
  moreover have "dag_anc spurParents a b \<longleftrightarrow> anc spurTree a b \<or> covers spurTree a b"
    if "a \<in> {[0], [1], [2], [3], [4]}" "b \<in> {[0], [1], [2], [3], [4]}" for a b
    using that by (elim insertE emptyE) (simp_all add: covers_def spur_tree spur_tree_anc spur_anc)
  ultimately show ?thesis unfolding reach_ok_def spur_tree(1) using spur_valid by (simp add: spur_tree(1))
qed

lemma spur_topo: "topo spurParents spurDAG [0]"
proof -
  have "Parents spurDAG h = Inr (spurParents h) \<and> map_of (rm_ghostdag (reach spurDAG)) h \<noteq> None
      \<and> (spurParents h = [] \<longleftrightarrow> h = [0]) \<and> (\<forall>q \<in> set (spurParents h). work spurDAG q < work spurDAG h)"
    if "h \<in> {[0], [1], [2], [3], [4]}" for h
    using that by (elim insertE emptyE)
      (simp_all add: spur_parents spur_data NewBlockGHOSTDAGData_def, simp_all add: Parents_def BlockRelation_def spurDAG_def)
  then show ?thesis unfolding topo_def spur_tree(1) using spur_reach by blast
qed

lemma spur_blue:
  "\<not> blue spurDAG (gdata spurDAG [0]) y" "blue spurDAG (gdata spurDAG [1]) y \<longleftrightarrow> y = [0]" "blue spurDAG (gdata spurDAG [2]) y \<longleftrightarrow> y = [0]"
  "blue spurDAG (gdata spurDAG [3]) y \<longleftrightarrow> y \<in> {[2], [0]}" "blue spurDAG (gdata spurDAG [4]) y \<longleftrightarrow> y \<in> {[3], [2], [0]}"
proof -
  have unfold: "blue spurDAG d y \<longleftrightarrow> y \<in> set (MergeSetBlues d)
      \<or> (\<exists>s d'. SelectedParent d = Some s \<and> map_of (rm_ghostdag (reach spurDAG)) s = Some d' \<and> blue spurDAG d' y)" for d y
    by (auto elim: blue.cases intro: blue.intros)
  note m = topoD(6) [OF spur_topo, unfolded spur_tree(1)]
  show 0: "\<not> blue spurDAG (gdata spurDAG [0]) y" for y
    by (subst unfold) (simp add: spur_data NewBlockGHOSTDAGData_def)
  have 1: "blue spurDAG (gdata spurDAG h) y \<longleftrightarrow> y \<in> set (MergeSetBlues (gdata spurDAG h)) \<or> blue spurDAG (gdata spurDAG s) y"
    if "SelectedParent (gdata spurDAG h) = Some s" "s \<in> {[0], [1], [2], [3], [4]}" for h s y
    by (subst unfold) (simp add: that(1) m [OF that(2)])
  show a: "blue spurDAG (gdata spurDAG [1]) y \<longleftrightarrow> y = [0]" "blue spurDAG (gdata spurDAG [2]) y \<longleftrightarrow> y = [0]" for y
    using 1 [of "[1]" "[0]" y] 1 [of "[2]" "[0]" y] 0 by (simp_all add: spur_data NewBlockGHOSTDAGData_def)
  show b: "blue spurDAG (gdata spurDAG [3]) y \<longleftrightarrow> y \<in> {[2], [0]}" for y
    using 1 [of "[3]" "[2]" y] a(2) [of y] by (simp add: spur_data(4) NewBlockGHOSTDAGData_def)
  show "blue spurDAG (gdata spurDAG [4]) y \<longleftrightarrow> y \<in> {[3], [2], [0]}"
    using 1 [of "[4]" "[3]" y] b [of y] by (simp add: spur_data(5) NewBlockGHOSTDAGData_def)
qed

lemma spur_anticone:
  "anticone_size spurDAG (gdata spurDAG [1]) [0] 0" "anticone_size spurDAG (gdata spurDAG [2]) [0] 0"
  "y \<in> {[2], [0]} \<Longrightarrow> anticone_size spurDAG (gdata spurDAG [3]) y 0"
  "y \<in> {[3], [2], [0]} \<Longrightarrow> anticone_size spurDAG (gdata spurDAG [4]) y 0"
proof -
  note m = topoD(6) [OF spur_topo, unfolded spur_tree(1)]
  have up: "anticone_size spurDAG (gdata spurDAG h) y 0"
    if "anticone_size spurDAG (gdata spurDAG s) y 0" "map_of (BluesAnticoneSizes (gdata spurDAG h)) y = None"
      "SelectedParent (gdata spurDAG h) = Some s" "s \<in> {[0], [1], [2], [3], [4]}" for h s y
    by (rule anticone_size.above [OF that(2,3) m [OF that(4)] that(1)])
  have here: "anticone_size spurDAG (gdata spurDAG h) y 0" if "map_of (BluesAnticoneSizes (gdata spurDAG h)) y = Some 0" for h y
    by (rule anticone_size.found [OF that])
  show 1: "anticone_size spurDAG (gdata spurDAG [1]) [0] 0" "anticone_size spurDAG (gdata spurDAG [2]) [0] 0"
    by (rule here, simp add: spur_data NewBlockGHOSTDAGData_def)+
  have 3: "anticone_size spurDAG (gdata spurDAG [3]) [2] 0" "anticone_size spurDAG (gdata spurDAG [3]) [0] 0"
    by (rule here, simp add: spur_data NewBlockGHOSTDAGData_def) (rule up [OF 1(2)], simp_all add: spur_data NewBlockGHOSTDAGData_def)
  then show "y \<in> {[2], [0]} \<Longrightarrow> anticone_size spurDAG (gdata spurDAG [3]) y 0" by blast
  have "anticone_size spurDAG (gdata spurDAG [4]) [3] 0"
    by (rule here, simp add: spur_data NewBlockGHOSTDAGData_def)
  moreover have "anticone_size spurDAG (gdata spurDAG [4]) [2] 0"
    by (rule up [OF 3(1)]) (simp_all add: spur_data NewBlockGHOSTDAGData_def)
  moreover have "anticone_size spurDAG (gdata spurDAG [4]) [0] 0"
    by (rule up [OF 3(2)]) (simp_all add: spur_data NewBlockGHOSTDAGData_def)
  ultimately show "y \<in> {[3], [2], [0]} \<Longrightarrow> anticone_size spurDAG (gdata spurDAG [4]) y 0" by blast
qed

lemma spur_ok: "ghost_ok spurParents spurDAG [0]"
proof -
  have cl: "cluster spurParents spurDAG d" if z: "\<And>y. blue spurDAG d y \<Longrightarrow> anticone_size spurDAG d y 0"
    and u: "\<And>y z. blue spurDAG d y \<Longrightarrow> blue spurDAG d z \<Longrightarrow> \<not> unrelated spurParents y z" for d
    unfolding cluster_def
  proof (intro allI impI exI [of _ 0] conjI)
    fix y
    assume y: "blue spurDAG d y"
    then have "{z. blue spurDAG d z \<and> unrelated spurParents y z} = {}" using u by blast
    then show "unat (0 :: KType) = card {z. blue spurDAG d z \<and> unrelated spurParents y z}" by (simp only: card.empty unat_0)
  qed (use z in simp_all)
  have "cluster spurParents spurDAG (gdata spurDAG h)" if "h \<in> {[0], [1], [2], [3], [4]}" for h
    using that by (elim insertE emptyE; simp only:; intro cl) (auto simp: spur_blue spur_anticone unrelated_def spur_anc)
  moreover have "merges spurParents [0] h (gdata spurDAG h) \<and> in_order spurParents spurDAG h (gdata spurDAG h)"
    if "h \<in> {[0], [1], [2], [3], [4]}" for h
    using that by (elim insertE emptyE; simp only:)
      (auto simp: merges_def in_order_def precedes_def spur_data spur_parents merged_def spur_anc NewBlockGHOSTDAGData_def)
  moreover have "unat (gk spurDAG) < 255" by (simp add: spurDAG_def)
  ultimately show ?thesis unfolding ghost_ok_def spur_tree(1) using spur_topo by blast
qed

lemma spur_chain: "chain_ok spurDAG [0]"
proof -
  have "\<exists>s \<in> {[0], [1], [2], [3], [4]}. SelectedParent (gdata spurDAG h) = Some s
     \<and> (\<forall>x. anc spurTree x h \<longleftrightarrow> x = h \<or> anc spurTree x s) \<and> score spurDAG s < score spurDAG h"
    if "h \<in> {[1], [2], [3], [4]}" for h
    using that by (elim insertE emptyE; simp only:)
      (auto simp: spur_data spur_tree_anc score_def NewBlockGHOSTDAGData_def)
  then show ?thesis unfolding chain_ok_def spur_tree(1) by blast
qed

definition spurConfig :: "u64 \<Rightarrow> consensusConfig" where
  "spurConfig dep = \<lparr>genesisHash = [0], powMax = 2 ^ 255 - 1, skipPoW = False, difficultyAdjustmentWindowSize = 10,
     disableDifficultyAdjustment = True, targetTimePerBlock = 1000, timestampDeviationTolerance = 5,
     finalityDepth = dep, mergeSetSizeLimit = 50, maxBlockParents = 10\<rparr>"

definition spurStores :: consensusStores where
  "spurStores = \<lparr>dag = spurDAG, daaScores = [], daaAddedBlocks = [], finalityPoints = [([1], [0]), ([2], [0]), ([3], [0])],
     statuses = [], pruningPoint = None\<rparr>"

lemma spur_score:
  "score spurDAG [0] = 0" "score spurDAG [1] = 1" "score spurDAG [2] = 1" "score spurDAG [3] = 2" "score spurDAG [4] = 3"
  by (simp_all add: score_def spur_data NewBlockGHOSTDAGData_def)

lemma spur_deep:
  assumes "dep = 1 \<or> dep = 100" "h \<in> {[1], [2], [3], [4]}"
  shows "deep (spurConfig dep) spurDAG h q \<longleftrightarrow> q = [0] \<or> dep = 1 \<and> h = [4] \<and> q = [2]"
  using assms by (elim insertE emptyE disjE; simp only:) (auto simp: deep_def spurConfig_def spur_tree_anc spur_score)

lemma spur_finality:
  assumes "dep = 1 \<or> dep = 100"
  shows "finality_ok (spurConfig dep) spurStores (blocks spurDAG - {[0], [4]})"
proof -
  have "finality_point (spurConfig dep) spurDAG h [0]" if "h \<in> {[1], [2], [3]}" for h
  proof -
    have "h \<in> {[1], [2], [3], [4]}" "h \<noteq> [4]" using that by auto
    then show ?thesis unfolding finality_point_def spur_deep [OF assms \<open>h \<in> {[1], [2], [3], [4]}\<close>] by simp
  qed
  then show ?thesis unfolding finality_ok_def spur_tree(1) by (auto simp: spurStores_def)
qed

section \<open>The rule\<close>

text \<open>
  C20: The bounded merge depth rule.  On a consistent DAG whose blocks have their finality points in the store, the
  loop of \<^verbatim>\<open>calculateFinalityPoint\<close> ends and \<^verbatim>\<open>FinalityPoint\<close> returns and stages the last block of the selected chain of the new block
  that is the genesis block or more than the finality depth below it in blue score.  The rule accepts the block
  exactly if each red block that it merges has this finality point in its past, or is in the past of a blue block of
  the merge set whose selected chain goes through the finality point.  Otherwise the block is rejected with the error of the rule.
\<close>

theorem bounded_merge_depth_exact:
  assumes "ghost_ok P (dag cs) (genesisHash cfg)" "chain_ok (dag cs) (genesisHash cfg)"
    and "B \<in> blocks (dag cs)" "B \<noteq> genesisHash cfg" "B \<noteq> VirtualBlockHash"
    and "finality_ok cfg cs (blocks (dag cs) - {genesisHash cfg, B})" "map_of (finalityPoints cs) B = None"
  shows "\<exists>fp cs'. finality_point cfg (dag cs) B fp
    \<and> FinalityPoint cfg cs B = Inr (fp, cs') \<and> cs' = cs\<lparr>finalityPoints := AList.update B fp (finalityPoints cs)\<rparr>
    \<and> finality_ok cfg cs' (blocks (dag cs) - {genesisHash cfg})
    \<and> CheckBoundedMergeDepth cfg cs B =
        (if \<forall>red \<in> set (MergeSetReds (gdata (dag cs) B)).
              dag_anc P fp red \<or> (\<exists>blue \<in> set (MergeSetBlues (gdata (dag cs) B)).
                 anc (data_of (reach (dag cs))) fp blue \<and> dag_anc P red blue)
         then Inr cs' else Inl (Err (RuleError ErrViolatingBoundedMergeDepth)))"
proof -
  obtain p where p: "FinalityPoint cfg cs B = Inr (p, cs\<lparr>finalityPoints := AList.update B p (finalityPoints cs)\<rparr>)"
    "finality_point cfg (dag cs) B p" "p \<in> blocks (dag cs)"
    using FinalityPoint_ok [OF ghost_okD(1) [OF assms(1)] assms(2) refl assms(3-7)] by blast
  let ?cs = "cs\<lparr>finalityPoints := AList.update B p (finalityPoints cs)\<rparr>"
  have "finality_ok cfg ?cs (blocks (dag cs) - {genesisHash cfg})"
    using assms(6) p(2) by (auto simp: finality_ok_def update_conv')
  then show ?thesis using p CheckBoundedMergeDepth_ok [OF assms(1,3,4) p(1,3)]
    by (intro exI [of _ p] exI [of _ ?cs]) (simp add: excused_def)
qed

theorem bounded_merge_depth_exact_witness:
  "CheckBoundedMergeDepth (spurConfig 1) spurStores [4] = Inl (Err (RuleError ErrViolatingBoundedMergeDepth))
   \<and> CheckBoundedMergeDepth (spurConfig 100) spurStores [4]
     = Inr (spurStores\<lparr>finalityPoints := [([1], [0]), ([2], [0]), ([3], [0]), ([4], [0])]\<rparr>)"
proof -
  have st: "dag spurStores = spurDAG" "genesisHash (spurConfig d) = [0]" "finalityPoints spurStores = [([1], [0]), ([2], [0]), ([3], [0])]" for d
    by (simp_all add: spurStores_def spurConfig_def)
  have v: "[4] \<noteq> VirtualBlockHash" by code_simp
  have b: "[4] \<in> blocks spurDAG" "[4] \<noteq> ([0] :: DomainHash)" "map_of [([1], [0]), ([2], [0]), ([3], [0])] ([4] :: DomainHash) = (None :: DomainHash option)"
    by (simp_all add: spur_tree(1))
  have R: "\<exists>fp cs'. finality_point (spurConfig dep) spurDAG [4] fp
      \<and> cs' = spurStores\<lparr>finalityPoints := AList.update [4] fp (finalityPoints spurStores)\<rparr>
      \<and> CheckBoundedMergeDepth (spurConfig dep) spurStores [4] =
        (if \<forall>red \<in> set (MergeSetReds (gdata spurDAG [4])). dag_anc spurParents fp red
              \<or> (\<exists>blue \<in> set (MergeSetBlues (gdata spurDAG [4])). anc spurTree fp blue \<and> dag_anc spurParents red blue)
         then Inr cs' else Inl (Err (RuleError ErrViolatingBoundedMergeDepth)))" if "dep = 1 \<or> dep = 100" for dep
    using bounded_merge_depth_exact [of spurParents spurStores "spurConfig dep" "[4]", unfolded st, OF spur_ok spur_chain b(1,2) v
        spur_finality [OF that] b(3)] unfolding st(3) by blast
  have q1: "deep (spurConfig 1) spurDAG [4] q \<longleftrightarrow> q = [0] \<or> q = [2]" for q using spur_deep [of 1 "[4]" q] by simp
  have q100: "deep (spurConfig 100) spurDAG [4] q \<longleftrightarrow> q = [0]" for q using spur_deep [of 100 "[4]" q] by simp
  have f1: "fp = [2]" if "finality_point (spurConfig 1) spurDAG [4] fp" for fp
  proof -
    have "fp = [0] \<or> fp = [2]" "anc spurTree [2] fp" using that q1 unfolding finality_point_def by blast+
    then show ?thesis by (auto simp: spur_tree_anc)
  qed
  have f100: "fp = [0]" if "finality_point (spurConfig 100) spurDAG [4] fp" for fp
    using that q100 unfolding finality_point_def by blast
  have m: "MergeSetReds (gdata spurDAG [4]) = [[1]]" "MergeSetBlues (gdata spurDAG [4]) = [[3]]"
    by (simp_all add: spur_data NewBlockGHOSTDAGData_def)
  obtain fp cs' where 1: "finality_point (spurConfig 1) spurDAG [4] fp" "CheckBoundedMergeDepth (spurConfig 1) spurStores [4] =
      (if \<forall>red \<in> set [[1]]. dag_anc spurParents fp red \<or> (\<exists>blue \<in> set [[3]]. anc spurTree fp blue \<and> dag_anc spurParents red blue)
       then Inr cs' else Inl (Err (RuleError ErrViolatingBoundedMergeDepth)))"
    using R [OF disjI1 [OF refl]] unfolding m by blast
  obtain fp' cs'' where 100: "finality_point (spurConfig 100) spurDAG [4] fp'"
    "cs'' = spurStores\<lparr>finalityPoints := AList.update [4] fp' (finalityPoints spurStores)\<rparr>"
    "CheckBoundedMergeDepth (spurConfig 100) spurStores [4] =
      (if \<forall>red \<in> set [[1]]. dag_anc spurParents fp' red \<or> (\<exists>blue \<in> set [[3]]. anc spurTree fp' blue \<and> dag_anc spurParents red blue)
       then Inr cs'' else Inl (Err (RuleError ErrViolatingBoundedMergeDepth)))"
    using R [OF disjI2 [OF refl]] unfolding m by blast
  show ?thesis
    using 1(2) 100(2,3) unfolding f1 [OF 1(1)] f100 [OF 100(1)] by (simp add: spur_anc spur_tree_anc st)
qed

end
