(* ===== verification/Header_Theorems.thy ===== *)
theory Header_Theorems
  imports Block_Processor Merge_Depth_Theorems
begin

text \<open>
  A header that passes the validation keeps the invariants of the DAG; with the fork of two blocks, on which
  a header that merges them is validated.
\<close>

section \<open>The single checks\<close>

lemma checkParentsIncest_ok:
  assumes t: "topo P st r" and ps: "set (parentHashes header) \<subseteq> blocks st"
  shows "checkParentsIncest st header =
    (if \<forall>p \<in> set (parentHashes header). \<forall>q \<in> set (parentHashes header). p \<noteq> q \<longrightarrow> \<not> dag_anc P p q then Inr ()
     else Inl (Err (RuleError ErrInvalidParentsRelation)))"
proof -
  let ?ps = "set (parentHashes header)"
  let ?f = "\<lambda>a b. if a = b then Inr () else rbind (IsAncestorOf st a b) (\<lambda>isA.
      if isA then Inl (Err (RuleError ErrInvalidParentsRelation)) else Inr ())"
  have f: "?f a b = (if a \<noteq> b \<longrightarrow> \<not> dag_anc P a b then Inr () else Inl (Err (RuleError ErrInvalidParentsRelation)))"
    if "a \<in> ?ps" "b \<in> ?ps" for a b
    using topo_IsAncestorOf [OF t, of a b] that ps by (auto simp: subset_iff)
  have inner: "rcheck (?f a) (parentHashes header) = (if \<forall>q \<in> ?ps. a \<noteq> q \<longrightarrow> \<not> dag_anc P a q then Inr ()
      else Inl (Err (RuleError ErrInvalidParentsRelation)))" if "a \<in> ?ps" for a
    by (rule rcheck_if) (rule f [OF that])
  show ?thesis unfolding checkParentsIncest_def by (rule rcheck_if) (rule inner)
qed

text \<open>The managers called by the validation change the stores of their own data only.\<close>

lemma StageDAA_frame:
  assumes "StageDAADataAndReturnRequiredDifficulty cfg cs h = Inr (b, cs')"
  shows "dag cs' = dag cs" "statuses cs' = statuses cs" "finalityPoints cs' = finalityPoints cs" "pruningPoint cs' = pruningPoint cs"
  using assms
  by (auto simp: StageDAADataAndReturnRequiredDifficulty_def stageDAAScoreAndAddedBlocks_def rbind_Inr_iff split: prod.splits)

lemma CheckBoundedMergeDepth_frame:
  assumes "CheckBoundedMergeDepth cfg cs h = Inr cs'"
  shows "dag cs' = dag cs" "statuses cs' = statuses cs"
  using assms FinalityPoint_frame
  by (fastforce simp: CheckBoundedMergeDepth_def NonBoundedMergeDepthViolatingBlues_def rbind_Inr_iff split: if_splits prod.splits)+

lemma validateDifficulty_frame:
  assumes "validateDifficulty cfg cs h = Inr cs'"
  shows "GHOSTDAG (dag cs) h = Inr (dag cs')" "statuses cs' = statuses cs"
proof -
  from assms obtain st1 b where "GHOSTDAG (dag cs) h = Inr st1"
    "StageDAADataAndReturnRequiredDifficulty cfg (cs\<lparr>dag := st1\<rparr>) h = Inr (b, cs')"
    by (auto simp: validateDifficulty_def rbind_Inr_iff split: if_splits)
  then show "GHOSTDAG (dag cs) h = Inr (dag cs')" "statuses cs' = statuses cs" using StageDAA_frame(1,2) by fastforce+
qed

lemma PoW_stage_frame:
  assumes "ValidatePruningPointViolationAndProofOfWorkAndDifficulty H cfg cs h = Inr cs'" "headerOf (dag cs) h = Inr header"
  shows "checkParentHeadersExist cs header = Inr ()" "checkParentsIncest (dag cs) header = Inr ()"
    "checkProofOfWork H cfg header = Inr ()" "statuses cs' = statuses cs"
    "\<exists>st1. SetParents (dag cs) h (parentHashes header) = Inr st1 \<and> GHOSTDAG st1 h = Inr (dag cs')"
proof -
  from assms obtain st1 where "checkParentHeadersExist cs header = Inr ()" "checkParentsIncest (dag cs) header = Inr ()"
    "checkProofOfWork H cfg header = Inr ()" "SetParents (dag cs) h (parentHashes header) = Inr st1"
    "validateDifficulty cfg (cs\<lparr>dag := st1\<rparr>) h = Inr cs'"
    by (auto simp: ValidatePruningPointViolationAndProofOfWorkAndDifficulty_def rbind_Inr_iff)
  then show "checkParentHeadersExist cs header = Inr ()" "checkParentsIncest (dag cs) header = Inr ()"
    "checkProofOfWork H cfg header = Inr ()" "statuses cs' = statuses cs"
    "\<exists>st1. SetParents (dag cs) h (parentHashes header) = Inr st1 \<and> GHOSTDAG st1 h = Inr (dag cs')"
    using validateDifficulty_frame [of cfg "cs\<lparr>dag := st1\<rparr>" h cs'] by auto
qed

lemma context_stage_frame:
  assumes v: "ValidateHeaderInContext H cfg cs h = Inr cs'" and new: "h \<notin> blocks (dag cs)"
  shows "\<exists>rt. AddBlock (reach (dag cs)) h = Inr rt \<and> dag cs' = (dag cs)\<lparr>reach := rt\<rparr>" "statuses cs' = statuses cs"
proof -
  have "map_of (rm_data (reach (dag cs))) h = None" using new by (simp add: data_of_def domIff)
  with v obtain rt where "AddBlock (reach (dag cs)) h = Inr rt"
    "CheckBoundedMergeDepth cfg (cs\<lparr>dag := (dag cs)\<lparr>reach := rt\<rparr>\<rparr>) h = Inr cs'"
    by (auto simp: ValidateHeaderInContext_def rbind_Inr_iff)
  then show "\<exists>rt. AddBlock (reach (dag cs)) h = Inr rt \<and> dag cs' = (dag cs)\<lparr>reach := rt\<rparr>" "statuses cs' = statuses cs"
    using CheckBoundedMergeDepth_frame by fastforce+
qed

lemma checkProofOfWork_target:
  assumes "checkProofOfWork H cfg header = Inr ()" "powMax cfg < 2 ^ 256"
  shows "0 < CalcWork (bits header)"
  using assms by (intro CalcWork_pos) (auto simp: checkProofOfWork_def Let_def split: if_splits)

lemma missing_parent_status:
  "(case s of Some StatusInvalid \<Rightarrow> Inl e | _ \<Rightarrow> Inr True) \<noteq> Inr False"
  by (simp split: option.split BlockStatus.split)

lemma checkParentHeadersExist_ok:
  "checkParentHeadersExist cs header = Inr () \<Longrightarrow> set (parentHashes header) \<subseteq> dom (map_of (headers (dag cs)))"
  by (auto simp: checkParentHeadersExist_def rbind_Inr_iff rfilter_Nil missing_parent_status split: if_splits)

section \<open>The invariant of the stores\<close>

text \<open>
  The DAG and its relations are consistent, exactly its blocks have headers, and besides them only the virtual
  block has relations.  The blocks of the DAG are those with a status other than invalid.
\<close>

definition dag_ok :: "(DomainHash \<Rightarrow> DomainHash list) \<Rightarrow> DomainHash \<Rightarrow> dagManagers \<Rightarrow> bool" where
  "dag_ok P r st \<longleftrightarrow> ghost_ok P st r \<and> relations_ok st \<and> headers_ok st
     \<and> dom (map_of (headers st)) = blocks st \<and> blocks st \<subseteq> dom (rel st) \<and> dom (rel st) \<subseteq> insert VirtualBlockHash (blocks st)"

definition statuses_ok :: "consensusStores \<Rightarrow> bool" where
  "statuses_ok cs \<longleftrightarrow> (\<forall>h. h \<in> blocks (dag cs) \<longleftrightarrow> hasValidatedHeader cs h)"

text \<open>The reachability tree has room for one more block.\<close>

definition has_room :: "dagManagers \<Rightarrow> bool" where
  "has_room st \<longleftrightarrow> (\<exists>R. rm_reindexRoot (reach st) = Some R \<and> R \<in> blocks st
     \<and> capacity (data_of (reach st)) (reindexSlack (reach st)) R) \<and> Suc (card (blocks st)) < 2 ^ 64"

lemma dag_ok_stage:
  assumes d: "dag_ok P r st" and B: "B \<notin> blocks st" and w: "0 < CalcWork (bits header)"
  defines "st0 \<equiv> st\<lparr>headers := AList.update B header (headers st)\<rparr>"
  shows "ghost_ok P st0 r" "relations_ok st0" "headers_ok st0" "reach st0 = reach st" "rel st0 = rel st"
    "map_of (headers st0) = (map_of (headers st))(B \<mapsto> header)"
proof -
  show e: "reach st0 = reach st" "rel st0 = rel st" "map_of (headers st0) = (map_of (headers st))(B \<mapsto> header)"
    by (simp_all add: st0_def update_conv')
  have "Parents st0 h = Parents st h" for h by (simp add: Parents_def BlockRelation_def st0_def)
  moreover have "ghost_ok P st r" "gk st0 = gk st" using d by (simp_all add: dag_ok_def st0_def)
  ultimately show "ghost_ok P st0 r" using e(1) by (intro ghost_ok_reach [of P st r st0]) simp_all
  show "relations_ok st0" using d by (simp add: dag_ok_def relations_ok_def e(2))
  have "headers_ok st" using d by (simp add: dag_ok_def)
  then show "headers_ok st0" unfolding headers_ok_def e(1) e(3) using B by auto
qed

lemma dag_ok_insert:
  assumes d: "dag_ok P r st" and B: "B \<notin> blocks st" "B \<noteq> VirtualBlockHash" "P B = parentHashes header" "P B \<noteq> []"
    and w: "0 < CalcWork (bits header)" and ps: "set (P B) \<subseteq> blocks st" "distinct (P B)"
      "\<forall>p \<in> set (P B). \<forall>q \<in> set (P B). p \<noteq> q \<longrightarrow> \<not> dag_anc P p q"
    and rm: "has_room st"
    and st1: "SetParents (st\<lparr>headers := AList.update B header (headers st)\<rparr>) B (P B) = Inr st1"
    and st2: "GHOSTDAG st1 B = Inr st2"
  shows "\<exists>rt. AddBlock (reach st2) B = Inr rt \<and> dag_ok P r (st2\<lparr>reach := rt\<rparr>) \<and> dom (data_of rt) = insert B (blocks st)
    \<and> map_of (rm_ghostdag rt) = map_of (rm_ghostdag (reach st2))"
    "blocks st2 = blocks st"
proof -
  let ?st0 = "st\<lparr>headers := AList.update B header (headers st)\<rparr>"
  note s = dag_ok_stage [OF d B(1) w]
  have D: "dom (map_of (headers st)) = blocks st" "blocks st \<subseteq> dom (rel st)" "dom (rel st) \<subseteq> insert VirtualBlockHash (blocks st)"
    using d by (simp_all add: dag_ok_def)
  have known: "set (P B) \<subseteq> dom (rel ?st0)" and nB: "rel ?st0 B = None" and hp: "B \<notin> set (P B)"
    using ps(1) D B(1,2) by (auto simp: s(5))
  have st1': "same_dag ?st0 st1" and rel1: "rel st1 = (updChildren (addChildOnce B) (set (P B))
      (updChildren (removeAll B) (set (currentParents ?st0 B)) (rel ?st0)))(B \<mapsto> \<lparr>br_Parents = P B, br_Children = []\<rparr>)"
    using SetParents_ok [OF s(2) known, of B] st1 by auto
  have r1: "relations_ok st1" by (rule relations_ok_SetParents [OF s(2) _ hp known rel1]) (use nB in simp)
  have e1: "reach st1 = reach st" "headers st1 = headers ?st0" "gk st1 = gk ?st0" using st1' s(4) by (simp_all add: same_dag_def)
  note p1 = SetParents_Parents [OF st1 s(2) known]
  have g1: "ghost_ok P st1 r"
  proof (rule ghost_ok_reach [OF s(1)])
    show "reach st1 = reach ?st0" "gk st1 = gk ?st0" using e1 by simp_all
    show "Parents st1 h = Parents ?st0 h" if "h \<in> blocks ?st0" for h by (rule p1(2)) (use that B(1) in auto)
  qed
  have i1: "insertable P st1 B" using B ps p1(1) by (simp add: insertable_def e1(1))
  have h1: "headers_ok st1" using s(3) unfolding headers_ok_def e1 s(4) .
  obtain x sp where x: "GHOSTDAG st1 B = Inr (stageGhostdag st1 B x)" "SelectedParent x = Some sp"
    "in_order P st1 B x" "merges P r B x" "cluster P st1 x" "\<And>q. q \<in> set (P B) \<Longrightarrow> work st1 q < BlueWork x"
    using GHOSTDAG_ok [OF g1 i1 h1] by blast
  have st2': "st2 = stageGhostdag st1 B x" using x(1) st2 by simp
  obtain R where R: "rm_reindexRoot (reach st1) = Some R" "R \<in> blocks st1"
    "capacity (data_of (reach st1)) (reindexSlack (reach st1)) R" "Suc (card (blocks st1)) < 2 ^ 64"
    using rm unfolding has_room_def e1(1) by blast
  obtain rt where rt: "AddBlock (reach st2) B = Inr rt" and a: "ghost_ok P (st2\<lparr>reach := rt\<rparr>) r"
    "dom (data_of rt) = insert B (blocks st)" "map_of (rm_ghostdag rt) = (map_of (rm_ghostdag (reach st1)))(B \<mapsto> x)"
    using AddBlock_ghost_ok [OF g1 i1 x(2,4,5,3) x(6) R(1,2,4,3)] unfolding st2' e1(1) by blast
  let ?st3 = "st2\<lparr>reach := rt\<rparr>"
  have e3: "rel ?st3 = rel st1" "headers ?st3 = headers st1" "reach ?st3 = rt" by (simp_all add: st2' stageGhostdag_def)
  have hm: "map_of (headers ?st3) = (map_of (headers st))(B \<mapsto> header)" unfolding e3(2) e1(2) by (rule s(6))
  have "relations_ok ?st3" using r1 unfolding relations_ok_def e3(1) .
  moreover have "headers_ok ?st3" using d w unfolding headers_ok_def e3(3) a(2) hm dag_ok_def by (auto simp: headers_ok_def)
  moreover have "dom (rel ?st3) = insert B (dom (rel st))" unfolding e3(1) rel1 s(5) by (auto simp: updChildren_def)
  ultimately have "dag_ok P r ?st3" using a D unfolding dag_ok_def e3(3) hm by auto
  moreover have "map_of (rm_ghostdag rt) = map_of (rm_ghostdag (reach st2))"
    unfolding a(3) by (simp add: st2' stageGhostdag_def update_conv')
  ultimately show "\<exists>rt. AddBlock (reach st2) B = Inr rt \<and> dag_ok P r (st2\<lparr>reach := rt\<rparr>)
    \<and> dom (data_of rt) = insert B (blocks st) \<and> map_of (rm_ghostdag rt) = map_of (rm_ghostdag (reach st2))"
    using rt a(2) by blast
  show "blocks st2 = blocks st" by (simp add: st2' stageGhostdag_def data_of_def flip: e1(1))
qed

lemma validateUntilProofOfWork_new:
  assumes v: "validateUntilProofOfWork H cfg now cs header = Inr cs2" and so: "statuses_ok cs"
    and d: "dom (map_of (headers (dag cs))) = blocks (dag cs)"
  defines "B \<equiv> HeaderHash H header"
  defines "cs1 \<equiv> stageHeader cs B header"
  shows "B \<notin> blocks (dag cs)" "ValidateHeaderInIsolation H cfg now cs1 B = Inr ()"
    "ValidatePruningPointViolationAndProofOfWorkAndDifficulty H cfg cs1 B = Inr cs2"
proof -
  have c: "checkBlockStatus cs B = Inr ()" using v by (simp add: validateUntilProofOfWork_def Let_def rbind_Inr_iff B_def)
  have iff: "B \<in> blocks (dag cs) \<longleftrightarrow> hasValidatedHeader cs B" using so by (simp add: statuses_ok_def)
  show B: "B \<notin> blocks (dag cs)"
  proof
    assume b: "B \<in> blocks (dag cs)"
    then have "map_of (headers (dag cs)) B \<noteq> None" using d by blast
    then show False using c iff b by (auto simp: checkBlockStatus_def hasValidatedHeader_def split: option.splits if_splits)
  qed
  then show "ValidateHeaderInIsolation H cfg now cs1 B = Inr ()"
    "ValidatePruningPointViolationAndProofOfWorkAndDifficulty H cfg cs1 B = Inr cs2"
    using v iff by (auto simp: validateUntilProofOfWork_def Let_def rbind_Inr_iff B_def cs1_def)
qed

lemma accepted_AddBlock:
  assumes d: "dag_ok P (genesisHash cfg) (dag cs)" and so: "statuses_ok cs" and rm: "has_room (dag cs)"
    and pm: "powMax cfg < 2 ^ 256" and B: "P B = parentHashes header" "B \<notin> set (P B)" "B \<noteq> VirtualBlockHash" "distinct (P B)"
    and B_def: "B = HeaderHash H header"
    and v: "validateUntilProofOfWork H cfg now cs header = Inr cs2"
  shows "\<exists>rt. AddBlock (reach (dag cs2)) B = Inr rt \<and> dag_ok P (genesisHash cfg) ((dag cs2)\<lparr>reach := rt\<rparr>)
    \<and> dom (data_of rt) = insert B (blocks (dag cs)) \<and> map_of (rm_ghostdag rt) = map_of (rm_ghostdag (reach (dag cs2)))"
    "statuses cs2 = statuses cs" "blocks (dag cs2) = blocks (dag cs)" "B \<notin> blocks (dag cs)"
proof -
  let ?r = "genesisHash cfg"
  have h: "dom (map_of (headers (dag cs))) = blocks (dag cs)" and g: "ghost_ok P (dag cs) ?r"
    using d by (simp_all add: dag_ok_def)
  note V = validateUntilProofOfWork_new [OF v so h, folded B_def]
  show "B \<notin> blocks (dag cs)" by (rule V(1))
  let ?cs1 = "stageHeader cs B header"
  have st: "dag ?cs1 = (dag cs)\<lparr>headers := AList.update B header (headers (dag cs))\<rparr>" "statuses ?cs1 = statuses cs"
    by (simp_all add: stageHeader_def)
  have hdr: "headerOf (dag ?cs1) B = Inr header" by (simp add: st headerOf_def update_conv')
  note F = PoW_stage_frame [OF V(3) hdr]
  show "statuses cs2 = statuses cs" using F(4) st(2) by simp
  have w: "0 < CalcWork (bits header)" by (rule checkProofOfWork_target [OF F(3) pm])
  have t: "topo P (dag ?cs1) ?r" using ghost_okD(1) [OF dag_ok_stage(1) [OF d V(1) w]] unfolding st .
  have ps: "set (P B) \<subseteq> blocks (dag cs)"
    using checkParentHeadersExist_ok [OF F(1)] B(1,2) h by (auto simp: st(1) update_conv')
  have "B \<noteq> ?r" using V(1) topoD(8) [OF ghost_okD(1) [OF g]] by blast
  then have ne: "P B \<noteq> []" using V(2) by (auto simp: ValidateHeaderInIsolation_def rbind_Inr_iff hdr checkParentsLimit_def Let_def B B_def [symmetric])
  have anti: "\<forall>p \<in> set (P B). \<forall>q \<in> set (P B). p \<noteq> q \<longrightarrow> \<not> dag_anc P p q"
    using F(2) checkParentsIncest_ok [OF t, of header] ps unfolding B(1) by (simp add: st(1) split: if_splits)
  obtain st1 where s: "SetParents (dag ?cs1) B (P B) = Inr st1" "GHOSTDAG st1 B = Inr (dag cs2)" using F(5) B(1) by auto
  show "\<exists>rt. AddBlock (reach (dag cs2)) B = Inr rt \<and> dag_ok P ?r ((dag cs2)\<lparr>reach := rt\<rparr>)
    \<and> dom (data_of rt) = insert B (blocks (dag cs)) \<and> map_of (rm_ghostdag rt) = map_of (rm_ghostdag (reach (dag cs2)))"
    "blocks (dag cs2) = blocks (dag cs)"
    by (rule dag_ok_insert [OF d V(1) B(3,1) ne w ps B(4) anti rm s [unfolded st(1)]])+
qed

section \<open>An example\<close>

text \<open>The fork of two blocks on the genesis block, and a header that merges them.\<close>

definition forkHash :: hash_functions where
  "forkHash = \<lparr>blake2b_256 = \<lambda>_ _. [3], sha256_256 = \<lambda>_. [3]\<rparr>"

definition forkConfig :: consensusConfig where
  "forkConfig = \<lparr>genesisHash = [0], powMax = 2 ^ 255 - 1, skipPoW = False, difficultyAdjustmentWindowSize = 10,
     disableDifficultyAdjustment = True, targetTimePerBlock = 1000, timestampDeviationTolerance = 5,
     finalityDepth = 100, mergeSetSizeLimit = 50, maxBlockParents = 10\<rparr>"

definition forkStores :: consensusStores where
  "forkStores = \<lparr>dag = forkDAG, daaScores = [([0], 0), ([1], 1), ([2], 1)], daaAddedBlocks = [], finalityPoints = [],
     statuses = [([0], StatusUTXOValid), ([1], StatusUTXOValid), ([2], StatusHeaderOnly)], pruningPoint = Some [0]\<rparr>"



lemma fork_dag_ok:
  "dag_ok forkParents [0] forkDAG" "statuses_ok forkStores" "has_room forkDAG"
proof -
  have "dom (map_of (headers forkDAG)) = {[0], [1], [2]}" by (auto simp: forkDAG_def split: if_splits)
  then show "dag_ok forkParents [0] forkDAG"
    using fork_ok fork_relations fork_headers by (auto simp: dag_ok_def fork_tree(1))
  show "statuses_ok forkStores"
    unfolding statuses_ok_def forkStores_def by (simp add: fork_tree(1)) (auto simp: hasValidatedHeader_def)
  show "has_room forkDAG" unfolding has_room_def fork_tree(1) using fork_capacity fork_slack(2) by simp
qed

abbreviation mergeHash :: DomainHash where
  "mergeHash \<equiv> 3 # replicate 31 0"

lemma fork_hash: "HeaderHash forkHash header = mergeHash"
  by (simp add: forkHash_def HeaderHash_def NewBlockHashWriter_def InfallibleWrite_def Finalize_def copy32_def DomainHashSize_def)

lemma fork_validates:
  "case validateUntilProofOfWork forkHash forkConfig 0 forkStores (forkHeader [[2], [1]]) of
     Inl _ \<Rightarrow> False
   | Inr cs2 \<Rightarrow> validateMedianTime forkHash forkConfig (dag cs2) (forkHeader [[2], [1]]) = Inr ()
       \<and> checkMergeSizeLimit forkConfig (dag cs2) mergeHash = Inr () \<and> finalityPoints cs2 = []
       \<and> headerOf (dag cs2) mergeHash = Inr (forkHeader [[2], [1]])
       \<and> BlueScore (gdata (dag cs2) mergeHash) = 3 \<and> MergeSetReds (gdata (dag cs2) mergeHash) = []"
  by code_simp

text \<open>
  C1: A header that passes the whole validation is new, and the blocks of the DAG afterwards are those
  before and the new one; the reachability tree, the relations, the headers and the GHOSTDAG data are
  consistent again.  The parents are supposed to be different (which the code does not check), and the
  hash of the header not to be one of its own parents, nor that of the virtual block.
\<close>

theorem validated_header_keeps_DAG:
  assumes "dag_ok P (genesisHash cfg) (dag cs)" "statuses_ok cs" "has_room (dag cs)" "powMax cfg < 2 ^ 256"
    and "P (HeaderHash H header) = parentHashes header" "HeaderHash H header \<notin> set (parentHashes header)"
      "HeaderHash H header \<noteq> VirtualBlockHash" "distinct (parentHashes header)"
    and "validateBlock H cfg now cs header = (Inr cs', db)"
  shows "HeaderHash H header \<notin> blocks (dag cs) \<and> blocks (dag cs') = insert (HeaderHash H header) (blocks (dag cs))
    \<and> dag_ok P (genesisHash cfg) (dag cs') \<and> db = cs"
proof -
  define B where B: "B = HeaderHash H header"
  obtain cs2 where v: "validateUntilProofOfWork H cfg now cs header = Inr cs2"
    and c: "(if hasValidatedHeader cs2 B then Inr cs2 else ValidateHeaderInContext H cfg cs2 B) = Inr cs'" "db = cs"
    using assms(9) unfolding validateBlock_def Let_def B by (auto split: sum.splits)
  note A = accepted_AddBlock [OF assms(1-4) _ _ _ _ B v, unfolded B, OF assms(5) _ assms(7), unfolded assms(5), OF assms(6,8),
      folded B]
  have "\<not> hasValidatedHeader cs2 B" using A(2,4) assms(2) by (simp add: statuses_ok_def hasValidatedHeader_def)
  then have "ValidateHeaderInContext H cfg cs2 B = Inr cs'" using c(1) by simp
  from context_stage_frame(1) [OF this] obtain rt where "AddBlock (reach (dag cs2)) B = Inr rt" "dag cs' = (dag cs2)\<lparr>reach := rt\<rparr>"
    using A(3,4) by auto
  then show ?thesis using A(1,4) c(2) by (auto simp flip: B)
qed

theorem validated_header_keeps_DAG_witness:
  "\<exists>cs'. validateBlock forkHash forkConfig 0 forkStores (forkHeader [[2], [1]]) = (Inr cs', forkStores)
     \<and> blocks (dag cs') = {[0], [1], [2], mergeHash} \<and> dag_ok forkParents [0] (dag cs')"
proof -
  let ?h = "forkHeader [[2], [1]]"
  have c: "genesisHash forkConfig = [0]" "powMax forkConfig < 2 ^ 256" "finalityDepth forkConfig = 100" "dag forkStores = forkDAG"
    by (simp_all add: forkConfig_def forkStores_def)
  have p: "forkParents mergeHash = [[2], [1]]" "parentHashes ?h = [[2], [1]]" by (simp_all add: forkParents_def forkHeader_def)
  have q: "mergeHash \<noteq> VirtualBlockHash" by code_simp
  obtain cs2 where v: "validateUntilProofOfWork forkHash forkConfig 0 forkStores ?h = Inr cs2"
    and w: "validateMedianTime forkHash forkConfig (dag cs2) ?h = Inr ()" "checkMergeSizeLimit forkConfig (dag cs2) mergeHash = Inr ()"
      "finalityPoints cs2 = []" "headerOf (dag cs2) mergeHash = Inr ?h" "BlueScore (gdata (dag cs2) mergeHash) = 3"
      "MergeSetReds (gdata (dag cs2) mergeHash) = []"
    using fork_validates by (auto split: sum.splits)
  note A = accepted_AddBlock [where P = forkParents and cs = forkStores and cfg = forkConfig and B = mergeHash,
      unfolded c, OF fork_dag_ok c(2) _ _ q _ fork_hash [symmetric] v, unfolded p, simplified]
  obtain rt where rt: "AddBlock (reach (dag cs2)) mergeHash = Inr rt" "dag_ok forkParents [0] ((dag cs2)\<lparr>reach := rt\<rparr>)"
    "dom (data_of rt) = insert mergeHash (blocks forkDAG)" "map_of (rm_ghostdag rt) = map_of (rm_ghostdag (reach (dag cs2)))"
    using A(1) by blast
  let ?cs = "cs2\<lparr>dag := (dag cs2)\<lparr>reach := rt\<rparr>\<rparr>"
  have d: "gdata (dag ?cs) mergeHash = gdata (dag cs2) mergeHash" by (simp add: gdata_def rt(4))
  have "CheckBoundedMergeDepth forkConfig ?cs mergeHash
      = Inr (?cs\<lparr>finalityPoints := AList.update mergeHash [0] (finalityPoints ?cs)\<rparr>)"
    using shallow_merge_depth [of forkParents ?cs forkConfig mergeHash, unfolded d c w] rt(2,3) q w(3) by (simp add: dag_ok_def)
  moreover have "map_of (rm_data (reach (dag cs2))) mergeHash = None"
    using A(4) [folded A(3)] by (simp add: data_of_def domIff)
  ultimately have "ValidateHeaderInContext forkHash forkConfig cs2 mergeHash
      = Inr (?cs\<lparr>finalityPoints := AList.update mergeHash [0] (finalityPoints ?cs)\<rparr>)"
    using w(1,2,4) rt(1) by (simp add: ValidateHeaderInContext_def)
  moreover have "\<not> hasValidatedHeader cs2 mergeHash" using A(2,4) fork_dag_ok(2) c(4) by (simp add: statuses_ok_def hasValidatedHeader_def)
  ultimately obtain cs' where V: "validateBlock forkHash forkConfig 0 forkStores ?h = (Inr cs', forkStores)"
    using v by (simp add: validateBlock_def fork_hash Let_def)
  from validated_header_keeps_DAG [where P = forkParents and H = forkHash and header = ?h, unfolded c fork_hash p, OF _ _ _ _ _ _ _ _ V,
      unfolded c, OF fork_dag_ok c(2)] q
  have "blocks (dag cs') = insert mergeHash (blocks forkDAG)" "dag_ok forkParents [0] (dag cs')" by auto
  then show ?thesis using V unfolding fork_tree(1) by (auto simp: insert_commute)
qed

end
