(* ===== verification/Repeated_Parents.thy ===== *)
theory Repeated_Parents
  imports Header_Theorems
begin

text \<open>
  Headers that name a parent more than once: no check of the parents notices it, and \<^verbatim>\<open>GHOSTDAG\<close> counts
  the parent as often as it is named.
\<close>

section \<open>The checks of the parents\<close>




section \<open>The merge set\<close>






section \<open>The colouring\<close>



section \<open>The validation\<close>




end
