(* ===== verification/Spec2Isabelle.thy ===== *)
theory Spec2Isabelle
  imports Diff_Semantics Pay_To_PubKey Reachability_Theorems Difficulty_Theorems Repeated_Parents
begin

text \<open>
  A verification of the consensus code of kaspad, a node of a cryptocurrency whose blocks form a directed
  acyclic graph.  Paths below are relative to \<^verbatim>\<open>src/\<close>, and \<^verbatim>\<open>processes\<close>, \<^verbatim>\<open>utils\<close>, \<^verbatim>\<open>model\<close> are packages of
  \<^verbatim>\<open>domain/consensus\<close>.

  \<^bold>\<open>The program.\<close>  The block processor receives a block and stages its header; the block validator checks
  the header alone, then its parents, its proof of work and its difficulty, and at last its time and merge set.  On
  the way the DAG topology manager stores the parents, the GHOSTDAG manager chooses the selected parent, sorts
  the merge set and colours it blue and red, and the reachability manager adds the block to an interval-labelled
  tree that answers whether one block is in the past of another.  Windows of past blocks give the required
  difficulty and the median time.  The transactions of a block spend outputs whose scripts the script engine
  executes, against signature hashes of the transaction, and the changes of the set of unspent outputs are kept
  as UTXO differences.  Addresses are the readable form of the standard scripts.

  \<^bold>\<open>Conventions\<close> (\<open>Prelude\<close>, \<open>Little_Endian\<close>, \<open>Domain_Types\<close>).  A Go function that returns an error is a function
  into \<open>('e, 'a) result\<close>, in which \<open>Inl (Err e)\<close> is a returned error and \<open>Inl Panic\<close> a run-time panic: an index out
  of range, a nil pointer, a division by zero.  Unsigned integers are words of their width; \<^verbatim>\<open>int64\<close> and \<^verbatim>\<open>int32\<close>
  are integers with the wrap-around \<open>i64\<close>, \<open>i32\<close> written out; \<^verbatim>\<open>big.Int\<close> is \<open>int\<close>; \<^verbatim>\<open>float64\<close> is defined in
  \<open>Float64\<close> as rounding of rationals to 53 bits.  Go maps are association lists, and what a statement says holds
  for each order of a \<^verbatim>\<open>range\<close> loop.  Methods that change their receiver return the new value.  A store is what it
  returns through the staging area.  The hash functions, the curve operations and the parsing of keys are external
  code: they are the fields of the records \<open>hash_functions\<close> and \<open>crypto\<close>, about which nothing is assumed except
  where a statement names it.

  \<^bold>\<open>UTXO differences\<close> (\<open>Utxo_Collection\<close>, \<open>Diff_Algebra\<close>, \<open>Diff_Semantics\<close>; \<^verbatim>\<open>utils/utxo\<close>).  A difference is
  interpreted as a function on UTXO sets.  \<^verbatim>\<open>withDiff\<close> composes differences, \<^verbatim>\<open>diffFrom\<close> leads from one result
  to the other, the two are inverse to each other, \<^verbatim>\<open>Reversed\<close> is the inverse, \<^verbatim>\<open>AddTransaction\<close> spends the inputs and
  creates the outputs, and the errors are exactly the conflicts.

  \<^bold>\<open>Serialization and hashes\<close> (\<open>Serialization\<close>, \<open>Consensus_Hashing\<close>, \<open>Signature_Hash\<close>; \<^verbatim>\<open>util/binaryserializer\<close>,
  \<^verbatim>\<open>utils/serialization\<close>, \<^verbatim>\<open>utils/hashes\<close>, \<^verbatim>\<open>utils/consensushashing\<close>).  The locale \<open>prefix_code\<close> states that an
  encoding is determined by a prefix of a byte string; it is interpreted on inputs, outputs, outpoints and hashes.
  From it: a transaction ID, a block hash and a signature hash commit to what they should, up to a collision of the
  hash function, and reusing partial hashes does not change a signature hash.  \<^verbatim>\<open>ReadElements\<close> reads back the integers and
  booleans that \<^verbatim>\<open>WriteElements\<close> writes; it has no case for the byte strings, hashes and IDs, which can only be written.

  \<^bold>\<open>Scripts\<close> (\<open>Script_Errors\<close>, \<open>Script_Num\<close>, \<open>Script_Stack\<close>, \<open>Script_Opcodes\<close>, \<open>Script_Parser\<close>, \<open>Sig_Cache\<close>,
  \<open>Script_Engine\<close>, \<open>Script_Handlers\<close>, \<open>Check_Sig\<close>, \<open>Engine_Run\<close>; \<^verbatim>\<open>utils/txscript\<close>).  The whole engine: the opcode
  table, the parser, every handler, \<^verbatim>\<open>Step\<close>, \<^verbatim>\<open>Execute\<close> and \<^verbatim>\<open>NewEngine\<close>.  The count of signature
  operations is given exactly; it leaves out the ECDSA checks.  The loop of \<^verbatim>\<open>Execute\<close> is a function with
  a termination proof.  \<open>Engine_Safety\<close> proves for every handler that it does not panic and respects the limits,
  and \<open>Engine_Limits\<close> carries this to runs: no run panics, the limits hold in every state, and the number of steps is
  bounded.  The locales \<open>signature_cache\<close>, \<open>signature_scheme\<close> and \<open>correct_scheme\<close> are the contracts of the caches
  and of the Schnorr and ECDSA checks, interpreted on both; with them \<open>Signature_Checks\<close> and \<open>Cache_Free_Runs\<close> show
  that caches never change an outcome and what \<^verbatim>\<open>opcodeCheckMultiSig\<close> accepts, and \<open>Pay_To_PubKey\<close> that a payment
  to a key is spent exactly by a valid signature.

  \<^bold>\<open>Standard scripts and addresses\<close> (\<open>Script_Builder\<close>, \<open>Bech32\<close>, \<open>Addresses\<close>, \<open>Standard_Scripts\<close>;
  \<^verbatim>\<open>scriptbuilder.go\<close>, \<^verbatim>\<open>standard.go\<close>, \<^verbatim>\<open>util/bech32\<close>, \<^verbatim>\<open>util/address.go\<close>).  Addresses decode to what was encoded, the
  checksum detects error bursts, and a script yields an address exactly if it is the script that pays to it.

  \<^bold>\<open>Reachability\<close> (\<^verbatim>\<open>processes/reachabilitymanager\<close>).  \<open>Reachability_Interval\<close>, \<open>Reachability_Data\<close>,
  \<open>Reachability_Tree\<close>, \<open>Reachability_Reindex\<close> and \<open>Reachability_Manager\<close> are the code: intervals with their exact and
  exponential splits, the accessors, the queries, reindexing and \<^verbatim>\<open>AddBlock\<close>.  \<open>Reachability_Validity\<close> defines
  a valid tree, \<open>Reachability_Subtrees\<close> and \<open>Reachability_Propagation\<close> treat the counting of subtrees and the
  propagation of intervals, \<open>Reachability_Reindexing\<close>, \<open>Reachability_Siblings\<close>, \<open>Reachability_Reclaim\<close> and
  \<open>Reachability_Directions\<close> the search for space; the code has each of these steps once towards the
  start and once towards the end of the interval, and the locale \<open>direction\<close> is what they share.
  \<open>Reachability_Insertion\<close> and \<open>Reachability_Dag\<close> conclude that \<^verbatim>\<open>AddBlock\<close> keeps the tree valid and the future
  covering sets exact, and \<open>Reachability_Theorems\<close> that the queries answer correctly.  The hypothesis \<open>capacity\<close>
  states that the interval of the reindex root has room for the blocks and the slack.

  \<^bold>\<open>GHOSTDAG\<close> (\<open>Ghostdag_Data\<close>, \<open>Dag_Topology\<close>, \<open>Difficulty\<close>, \<open>Ghostdag\<close>; \<^verbatim>\<open>model/ghostdag.go\<close>,
  \<^verbatim>\<open>processes/dagtopologymanager\<close>, \<^verbatim>\<open>util/difficulty\<close>, \<^verbatim>\<open>processes/ghostdagmanager\<close>).  \<open>Dag_Relations\<close>: \<^verbatim>\<open>SetParents\<close>
  keeps parents and children consistent.  \<open>Ghostdag_Order\<close>, \<open>Ghostdag_Merge_Set\<close>, \<open>Ghostdag_Coloring\<close> and
  \<open>Ghostdag_Insertion\<close>: the order of blocks is total, the search finds exactly the merge set, a candidate is blue
  exactly if the blues stay a \<open>k\<close>-cluster, and a new block keeps the invariant \<open>ghost_ok\<close>.
  \<open>Ghostdag_Theorems\<close> states this for the managers.

  \<^bold>\<open>Header validation\<close> (\<open>Rule_Errors\<close>, \<open>Block_Heap\<close>, \<open>Dag_Traversal\<close>, \<open>Consensus_Stores\<close>, \<open>Past_Median_Time\<close>,
  \<open>Difficulty_Manager\<close>, \<open>Merge_Depth\<close>, \<open>Header_Validation\<close>, \<open>Block_Processor\<close>; \<^verbatim>\<open>ruleerrors\<close>,
  \<^verbatim>\<open>processes/dagtraversalmanager\<close>, \<^verbatim>\<open>pastmediantimemanager\<close>, \<^verbatim>\<open>difficultymanager\<close>, \<^verbatim>\<open>finalitymanager\<close>,
  \<^verbatim>\<open>mergedepthmanager\<close>, \<^verbatim>\<open>blockvalidator\<close>, \<^verbatim>\<open>blockprocessor\<close>, \<^verbatim>\<open>utils/pow\<close>).  The locale \<open>heap_order\<close> carries the
  operations of \<^verbatim>\<open>container/heap\<close> and is interpreted on the order by blue work; block windows are
  the greatest blocks of the past.  \<open>Compact_Targets\<close> bounds the rounding of compact targets,
  \<open>Difficulty_Theorems\<close> gives the required difficulty in closed form.  \<open>Merge_Depth_Theorems\<close> specifies the finality
  point of a block on its selected chain, shows that \<^verbatim>\<open>FinalityPoint\<close> returns it and what the bounded merge depth rule then
  accepts; its invariant \<open>chain_ok\<close>, the blue score grows along selected chains, is kept by \<^verbatim>\<open>AddBlock\<close>
  (\<open>chain_ok_AddBlock\<close>).  \<open>Header_Theorems\<close> shows that a validated header extends the DAG by exactly its block and keeps
  every invariant that the theorems on GHOSTDAG and reachability need.  This statement asks for different parents;
  the code does not, and \<open>Repeated_Parents\<close> shows how a repeated parent counts in the merge set.

  \<^bold>\<open>Fuel.\<close>  Loops whose end depends on the stored tree or DAG carry fuel, and running out of it is the error
  \<open>NoFuel\<close>.  \<open>tree_fuel\<close> is one more than the number of reachability entries, \<open>dag_fuel\<close> one more than the number
  of relations and GHOSTDAG entries; each loop visits a block at most once or moves along a chain of parents.  The
  theorems that state an outcome (\<^verbatim>\<open>AddBlock\<close>, \<^verbatim>\<open>GHOSTDAG\<close>, \<^verbatim>\<open>BlockWindow\<close>, the queries, the counting of subtrees) include that
  the fuel is enough, as does the statement on the finality point for the loop of \<^verbatim>\<open>calculateFinalityPoint\<close>.

  \<^bold>\<open>Not modelled.\<close>  The validation of block bodies and transactions, the virtual block and the consensus state,
  pruning and synchronisation, which work on the stores of the whole UTXO set; the database and its protobuf
  conversions, which are partly generated; caches other than the signature caches; concurrency, since the consensus
  runs under one lock; messages of errors and the log; and the node around the consensus: the network
  protocol, RPC, the mempool, the wallet and the other tools.  \<^verbatim>\<open>UpdateReindexRoot\<close>, with \<^verbatim>\<open>concentrateInterval\<close> and what it
  calls, is translated, but no theorem is stated about it.
\<close>

end
